(* ===== verification/Prelude.thy ===== *)
theory Prelude
  imports Main "HOL-Library.Word" "HOL-Library.Sublist" "HOL-Library.Monad_Syntax"
begin

text \<open>
  Shared ground of the development.

  Rust's \<^verbatim>\<open>String\<close> is a UTF-8 byte sequence whose \<^verbatim>\<open>len\<close> counts bytes, so it is
  modelled by \<^typ>\<open>string\<close>, one \<^typ>\<open>char\<close> per byte; positions are byte offsets and
  \<open>is_char_boundary\<close> tells which of them a slice may use.  \<^verbatim>\<open>usize\<close> and \<^verbatim>\<open>u64\<close>
  quantities are \<^typ>\<open>nat\<close>; where the source saturates, checks or wraps, the operation is
  written out below with its width.
\<close>

named_theorems state_simps \<open>projections and updates of component states\<close>
named_theorems op_defs \<open>defining equations of the operations of a component\<close>

section \<open>Machine integers\<close>

abbreviation u64_max :: nat where
  "u64_max \<equiv> 18446744073709551615"

abbreviation u32_max :: nat where
  "u32_max \<equiv> 4294967295"

definition sat_add :: "nat \<Rightarrow> nat \<Rightarrow> nat" where
  "sat_add a b = min (a + b) u64_max"

definition sat_mul :: "nat \<Rightarrow> nat \<Rightarrow> nat" where
  "sat_mul a b = min (a * b) u64_max"

definition checked_add :: "nat \<Rightarrow> nat \<Rightarrow> nat option" where
  "checked_add a b = (if a + b \<le> u64_max then Some (a + b) else None)"

definition checked_sub :: "nat \<Rightarrow> nat \<Rightarrow> nat option" where
  "checked_sub a b = (if b \<le> a then Some (a - b) else None)"

definition checked_mul :: "nat \<Rightarrow> nat \<Rightarrow> nat option" where
  "checked_mul a b = (if a * b \<le> u64_max then Some (a * b) else None)"

text \<open>\<^verbatim>\<open>clamp\<close> panics when the bounds cross; the model returns \<^const>\<open>None\<close> there.\<close>

definition clamp_opt :: "nat \<Rightarrow> nat \<Rightarrow> nat \<Rightarrow> nat option" where
  "clamp_opt x lo hi = (if lo \<le> hi then Some (max lo (min x hi)) else None)"

definition clamp :: "nat \<Rightarrow> nat \<Rightarrow> nat \<Rightarrow> nat" where
  "clamp x lo hi = max lo (min x hi)"

lemma clamp_opt_Some [simp]: "lo \<le> hi \<Longrightarrow> clamp_opt x lo hi = Some (clamp x lo hi)"
  by (simp add: clamp_opt_def clamp_def)

lemma clamp_bounds: "lo \<le> hi \<Longrightarrow> lo \<le> clamp x lo hi \<and> clamp x lo hi \<le> hi"
  by (simp add: clamp_def)

lemma sat_add_le: "sat_add a b \<le> a + b" "sat_add a b \<le> u64_max"
  by (simp_all add: sat_add_def)

lemma sat_mul_le: "sat_mul a b \<le> a * b" "sat_mul a b \<le> u64_max"
  by (simp_all add: sat_mul_def)

lemma sat_add_mono: "a \<le> c \<Longrightarrow> b \<le> d \<Longrightarrow> sat_add a b \<le> sat_add c d"
  by (simp add: sat_add_def min_def)

lemma sat_mul_mono: "a \<le> c \<Longrightarrow> b \<le> d \<Longrightarrow> sat_mul a b \<le> sat_mul c d"
  using mult_le_mono [of a c b d] by (simp add: sat_mul_def min_def)

lemma checked_add_Some_iff: "checked_add a b = Some c \<longleftrightarrow> c = a + b \<and> a + b \<le> u64_max"
  by (auto simp: checked_add_def)

lemma checked_add_None_iff: "checked_add a b = None \<longleftrightarrow> u64_max < a + b"
  by (simp add: checked_add_def not_le)

lemma checked_sub_Some_iff: "checked_sub a b = Some c \<longleftrightarrow> a = b + c"
  by (auto simp: checked_sub_def)

lemma checked_mul_Some_iff: "checked_mul a b = Some c \<longleftrightarrow> c = a * b \<and> a * b \<le> u64_max"
  by (auto simp: checked_mul_def)

section \<open>Byte strings\<close>

definition is_cont_byte :: "char \<Rightarrow> bool" where
  "is_cont_byte c \<longleftrightarrow> 128 \<le> (of_char c :: nat) \<and> (of_char c :: nat) < 192"

definition is_char_boundary :: "string \<Rightarrow> nat \<Rightarrow> bool" where
  "is_char_boundary s k \<longleftrightarrow>
     (if k < length s then \<not> is_cont_byte (s ! k) else k = length s)"

definition starts_with :: "string \<Rightarrow> string \<Rightarrow> bool" where
  "starts_with s p \<longleftrightarrow> take (length p) s = p"

definition ends_with :: "string \<Rightarrow> string \<Rightarrow> bool" where
  "ends_with s p \<longleftrightarrow> length p \<le> length s \<and> drop (length s - length p) s = p"

lemma starts_with_prefix: "starts_with s p \<longleftrightarrow> prefix p s"
  by (metis append_eq_conv_conj append_take_drop_id prefix_def starts_with_def)

lemma ends_with_suffix: "ends_with s p \<longleftrightarrow> suffix p s"
proof
  assume "ends_with s p"
  then have "s = take (length s - length p) s @ p"
    by (metis append_take_drop_id ends_with_def)
  then show "suffix p s" by (rule suffixI)
next
  assume "suffix p s"
  then obtain q where "s = q @ p" by (auto simp: suffix_def)
  then show "ends_with s p" by (simp add: ends_with_def)
qed

text \<open>\<^verbatim>\<open>str::find\<close>: the byte offset of the first occurrence of a pattern.\<close>

fun str_find :: "string \<Rightarrow> string \<Rightarrow> nat option" where
  "str_find [] p = (if p = [] then Some 0 else None)"
| "str_find (c # s) p =
     (if starts_with (c # s) p then Some 0 else map_option Suc (str_find s p))"

definition occurs_at :: "string \<Rightarrow> string \<Rightarrow> nat \<Rightarrow> bool" where
  "occurs_at s p i \<longleftrightarrow> i + length p \<le> length s \<and> take (length p) (drop i s) = p"

lemma occurs_at_iff: "occurs_at s p i \<longleftrightarrow> (\<exists>u v. s = u @ p @ v \<and> length u = i)"
proof
  assume *: "occurs_at s p i"
  then have "s = take i s @ p @ drop (length p) (drop i s)"
    by (metis append_take_drop_id occurs_at_def)
  moreover have "length (take i s) = i" using * by (simp add: occurs_at_def)
  ultimately show "\<exists>u v. s = u @ p @ v \<and> length u = i" by blast
qed (auto simp: occurs_at_def)

lemma occurs_at_0: "occurs_at s p 0 \<longleftrightarrow> starts_with s p"
  by (auto simp: occurs_at_def starts_with_def dest: arg_cong [where f = length])

lemma occurs_at_Suc: "occurs_at (c # s) p (Suc i) \<longleftrightarrow> occurs_at s p i"
  by (simp add: occurs_at_def)

lemma str_find_Some:
  "str_find s p = Some i \<Longrightarrow> occurs_at s p i \<and> (\<forall>j<i. \<not> occurs_at s p j)"
proof (induction s arbitrary: i)
  case Nil
  then show ?case by (auto simp: occurs_at_def split: if_splits)
next
  case (Cons c s)
  show ?case
  proof (cases "starts_with (c # s) p")
    case True
    with Cons.prems show ?thesis by (simp add: occurs_at_0)
  next
    case False
    with Cons.prems obtain k where "str_find s p = Some k" and i: "i = Suc k" by auto
    with Cons.IH have "occurs_at s p k" and "\<forall>j<k. \<not> occurs_at s p j" by auto
    with False i show ?thesis
      by (auto simp: occurs_at_Suc less_Suc_eq_0_disj occurs_at_0)
  qed
qed

lemma str_find_None: "str_find s p = None \<Longrightarrow> \<not> occurs_at s p i"
proof (induction s arbitrary: i)
  case Nil
  then show ?case by (auto simp: occurs_at_def split: if_splits)
next
  case (Cons c s)
  then show ?case
    by (cases i) (auto simp: occurs_at_Suc occurs_at_0 split: if_splits)
qed

lemma str_find_None_iff: "str_find s p = None \<longleftrightarrow> (\<forall>i. \<not> occurs_at s p i)"
  using str_find_None str_find_Some by (metis not_Some_eq)

text \<open>
  \<^verbatim>\<open>char::is_whitespace\<close> at the front of a byte sequence: how many bytes the
  white-space character there takes, 0 when there is none.  \<open>ws_suffix_len\<close> reads the
  reversed sequence.
\<close>

fun bytes_ws :: "nat list \<Rightarrow> nat" where
  "bytes_ws (b # bs) =
     (if b \<in> {9, 10, 11, 12, 13, 32} then 1
      else if b = 194 then
        (case bs of c # _ \<Rightarrow> if c = 133 \<or> c = 160 then 2 else 0 | [] \<Rightarrow> 0)
      else (case bs of
          c # d # _ \<Rightarrow>
            if (b, c, d) = (225, 154, 128) \<or> (b, c, d) = (227, 128, 128)
               \<or> (b, c, d) = (226, 129, 159)
               \<or> (b = 226 \<and> c = 128 \<and> ((128 \<le> d \<and> d \<le> 138) \<or> d \<in> {168, 169, 175}))
            then 3 else 0
        | _ \<Rightarrow> 0))"
| "bytes_ws [] = 0"

definition ws_prefix_len :: "string \<Rightarrow> nat" where
  "ws_prefix_len s = bytes_ws (map of_char (take 3 s))"

definition ws_suffix_len :: "string \<Rightarrow> nat" where
  "ws_suffix_len s =
     (let n = length s;
          at = (\<lambda>k. k \<le> n \<and> bytes_ws (map of_char (drop (n - k) s)) = k)
      in if at 1 then 1 else if at 2 then 2 else if at 3 then 3 else 0)"

lemma bytes_ws_le: "bytes_ws bs \<le> length bs"
  by (cases bs rule: bytes_ws.cases) (auto split: list.splits)

lemma ws_prefix_len_le: "ws_prefix_len s \<le> length s"
  using bytes_ws_le [of "map of_char (take 3 s)"] by (simp add: ws_prefix_len_def)

lemma ws_suffix_len_le: "ws_suffix_len s \<le> length s"
  by (auto simp: ws_suffix_len_def Let_def)

function trim_start :: "string \<Rightarrow> string" where
  "trim_start s = (if ws_prefix_len s = 0 then s else trim_start (drop (ws_prefix_len s) s))"
  by pat_completeness auto
termination
proof (relation "measure length")
  fix s assume "ws_prefix_len s \<noteq> 0"
  then show "(drop (ws_prefix_len s) s, s) \<in> measure length"
    using ws_prefix_len_le [of s] by simp
qed simp

function trim_end :: "string \<Rightarrow> string" where
  "trim_end s =
     (if ws_suffix_len s = 0 then s else trim_end (take (length s - ws_suffix_len s) s))"
  by pat_completeness auto
termination
proof (relation "measure length")
  fix s assume "ws_suffix_len s \<noteq> 0"
  then show "(take (length s - ws_suffix_len s) s, s) \<in> measure length"
    using ws_suffix_len_le [of s] by simp
qed simp

declare trim_start.simps [simp del] trim_end.simps [simp del]

definition trim :: "string \<Rightarrow> string" where
  "trim s = trim_end (trim_start s)"

lemma length_trim_start: "length (trim_start s) \<le> length s"
proof (induction s rule: trim_start.induct)
  case (1 s)
  then show ?case by (subst trim_start.simps) (auto split: if_splits)
qed

lemma length_trim_end: "length (trim_end s) \<le> length s"
proof (induction s rule: trim_end.induct)
  case (1 s)
  then show ?case by (subst trim_end.simps) (auto split: if_splits)
qed

lemma length_trim: "length (trim s) \<le> length s"
  using length_trim_end length_trim_start le_trans unfolding trim_def by blast

text \<open>Well-formed UTF-8, as \<^verbatim>\<open>String\<close> and \<^verbatim>\<open>BufRead::lines\<close> require.\<close>

definition utf8_cont :: "nat \<Rightarrow> bool" where
  "utf8_cont b \<longleftrightarrow> 128 \<le> b \<and> b \<le> 191"

fun utf8_bytes :: "nat list \<Rightarrow> bool" where
  "utf8_bytes [] = True"
| "utf8_bytes (b # bs) =
     (if b \<le> 127 then utf8_bytes bs
      else case bs of
        c # cs \<Rightarrow>
          if 194 \<le> b \<and> b \<le> 223 then utf8_cont c \<and> utf8_bytes cs
          else (case cs of
            d # ds \<Rightarrow>
              if 224 \<le> b \<and> b \<le> 239 then
                utf8_cont c \<and> utf8_cont d \<and> (b = 224 \<longrightarrow> 160 \<le> c) \<and> (b = 237 \<longrightarrow> c \<le> 159)
                \<and> utf8_bytes ds
              else (case ds of
                e # es \<Rightarrow>
                  240 \<le> b \<and> b \<le> 244 \<and> utf8_cont c \<and> utf8_cont d \<and> utf8_cont e
                  \<and> (b = 240 \<longrightarrow> 144 \<le> c) \<and> (b = 244 \<longrightarrow> c \<le> 143) \<and> utf8_bytes es
              | [] \<Rightarrow> False)
          | [] \<Rightarrow> False)
      | [] \<Rightarrow> False)"

definition utf8_valid :: "string \<Rightarrow> bool" where
  "utf8_valid s = utf8_bytes (map of_char s)"

text \<open>
  \<^verbatim>\<open>BufRead::lines\<close>: a line ends at a newline, which is dropped together with a carriage
  return before it; the text after the last newline is a line when it is not empty.
\<close>

abbreviation nl :: char where "nl \<equiv> CHR 0x0A"

definition strip_cr :: "string \<Rightarrow> string" where
  "strip_cr s = (if s \<noteq> [] \<and> last s = CHR 0x0D then butlast s else s)"

function lines :: "string \<Rightarrow> string list" where
  "lines s =
     (if s = [] then []
      else if nl \<in> set s
      then strip_cr (takeWhile (\<lambda>c. c \<noteq> nl) s) # lines (tl (dropWhile (\<lambda>c. c \<noteq> nl) s))
      else [s])"
  by pat_completeness auto
termination
proof (relation "measure length")
  fix s :: string assume "s \<noteq> []" "nl \<in> set s"
  then have "dropWhile (\<lambda>c. c \<noteq> nl) s \<noteq> []" by (auto simp: dropWhile_eq_Nil_conv)
  then show "(tl (dropWhile (\<lambda>c. c \<noteq> nl) s), s) \<in> measure length"
    using length_dropWhile_le [of "\<lambda>c. c \<noteq> nl" s]
    by (cases "dropWhile (\<lambda>c. c \<noteq> nl) s") auto
qed simp

declare lines.simps [simp del]

lemma lines_Nil [simp]: "lines [] = []"
  by (subst lines.simps) simp

lemma lines_line: "nl \<notin> set l \<Longrightarrow> lines (l @ nl # s) = strip_cr l # lines s"
  by (subst lines.simps) (auto simp: takeWhile_append dropWhile_append)

lemma lines_last: "nl \<notin> set l \<Longrightarrow> l \<noteq> [] \<Longrightarrow> lines l = [l]"
  by (subst lines.simps) simp

text \<open>\<^verbatim>\<open>[String]::join\<close> and decimal \<^verbatim>\<open>Display\<close> of an unsigned number.\<close>

fun join :: "string \<Rightarrow> string list \<Rightarrow> string" where
  "join sep [] = []"
| "join sep [x] = x"
| "join sep (x # xs) = x @ sep @ join sep xs"

fun show_nat :: "nat \<Rightarrow> string" where
  "show_nat n =
     (if n < 10 then [char_of (48 + n)] else show_nat (n div 10) @ [char_of (48 + n mod 10)])"

declare show_nat.simps [simp del]

lemma show_nat_nonempty: "show_nat n \<noteq> []"
  by (subst show_nat.simps) simp

definition show_opt_str :: "string option \<Rightarrow> string" where
  "show_opt_str s = (case s of None \<Rightarrow> [] | Some t \<Rightarrow> t)"

section \<open>Lists\<close>

text \<open>Rust's \<^verbatim>\<open>Vec::retain\<close> is \<^const>\<open>filter\<close>; \<open>windows2\<close> is \<^verbatim>\<open>slice::windows(2)\<close>.\<close>

fun windows2 :: "'a list \<Rightarrow> ('a \<times> 'a) list" where
  "windows2 (x # y # ys) = (x, y) # windows2 (y # ys)"
| "windows2 _ = []"

definition find_first :: "('a \<Rightarrow> bool) \<Rightarrow> 'a list \<Rightarrow> 'a option" where
  "find_first P xs = List.find P xs"

lemma length_windows2 [simp]: "length (windows2 xs) = length xs - 1"
  by (induction xs rule: windows2.induct) auto

lemma sum_list_filter_le: "sum_list (map f (filter P xs)) \<le> (sum_list (map f xs) :: nat)"
  by (induction xs) auto

lemma concat_map_singleton: "concat (map (\<lambda>x. [x]) xs) = xs"
  by (induction xs) auto

lemma subseq_concat_filter: "subseq (concat (filter P xss)) (concat xss)"
proof (induction xss)
  case (Cons xs xss)
  then show ?case by (cases "P xs") (auto intro: list_emb_append_mono)
qed simp

lemma takeWhile_rev_suffix: "suffix (rev (takeWhile P (rev xs))) xs"
  by (metis rev_rev_ident suffix_to_prefix takeWhile_is_prefix)

end
