(* ===== verification/Message.thy ===== *)
theory Message
  imports Prelude
begin

text \<open>
  The wire message (\<^verbatim>\<open>src/types/message.rs\<close>): a role, a body that is either
  content or tool calls, and the id that ties a tool result to its call.  JSON values are
  the six shapes of \<^verbatim>\<open>serde_json::Value\<close> (numbers by their text), \<^verbatim>\<open>f32\<close> samples
  their 32-bit patterns.
\<close>

datatype json_value =
    JNull
  | JBool bool
  | JNumber string
  | JString string
  | JArray "json_value list"
  | JObject "(string \<times> json_value) list"

record function_definition =
  fd_description :: "string option"
  fd_name :: string
  fd_arguments :: json_value

record tool_spec =
  ts_type :: string
  ts_function :: function_definition

record tool_call =
  tc_id :: string
  tc_type :: string
  tc_function :: function_definition

datatype message_chunk =
    TextChunk string
  | ImageUrl string
  | AudioPcm "32 word list"
  | VideoChunk "string list" "32 word list"
  | Microphone

datatype message_content =
    SingleText string
  | MultipleChunks "message_chunk list"
  | StructuredAssistant string "string option"

datatype message_body =
    Content message_content
  | ToolBody "tool_call list"

record message =
  msg_role :: string
  msg_body :: message_body
  msg_name :: "string option"
  msg_tool_call_id :: "string option"

section \<open>Text of a message\<close>

fun chunk_text :: "message_chunk \<Rightarrow> string" where
  "chunk_text (TextChunk t) = t"
| "chunk_text (ImageUrl u) = ''![]('' @ u @ '')''"
| "chunk_text (AudioPcm _) = ''[audio]''"
| "chunk_text (VideoChunk _ _) = ''[video]''"
| "chunk_text Microphone = ''[audio]''"

fun as_visible_text :: "message_content \<Rightarrow> string" where
  "as_visible_text (SingleText t) = t"
| "as_visible_text (MultipleChunks cs) = join [] (map chunk_text cs)"
| "as_visible_text (StructuredAssistant c _) = c"

definition message_text :: "message \<Rightarrow> string" where
  "message_text m = (case msg_body m of Content c \<Rightarrow> as_visible_text c | ToolBody _ \<Rightarrow> [])"

fun content_push :: "message_content \<Rightarrow> message_chunk \<Rightarrow> message_content" where
  "content_push (SingleText t) c = MultipleChunks [TextChunk t, c]"
| "content_push (MultipleChunks cs) c = MultipleChunks (cs @ [c])"
| "content_push (StructuredAssistant t r) c = MultipleChunks [TextChunk t, c]"

section \<open>Constructors\<close>

definition plain_message :: "string \<Rightarrow> message_body \<Rightarrow> message" where
  "plain_message role body =
     \<lparr>msg_role = role, msg_body = body, msg_name = None, msg_tool_call_id = None\<rparr>"

definition user_msg :: "string \<Rightarrow> message" where
  "user_msg t = plain_message ''user'' (Content (SingleText t))"

definition user_with_images :: "string \<Rightarrow> string list \<Rightarrow> message" where
  "user_with_images t urls =
     (let chunks = map ImageUrl urls
      in if chunks = [] then user_msg t
         else plain_message ''user'' (Content (MultipleChunks (TextChunk t # chunks))))"

definition system_msg :: "string \<Rightarrow> message" where
  "system_msg t = plain_message ''system'' (Content (SingleText t))"

definition tool_result :: "string \<Rightarrow> message" where
  "tool_result t = plain_message ''tool'' (Content (SingleText t))"

definition tool_result_for :: "string \<Rightarrow> string \<Rightarrow> message" where
  "tool_result_for i t = (tool_result t)\<lparr>msg_tool_call_id := Some i\<rparr>"

definition assistant_tool_calls :: "tool_call list \<Rightarrow> message" where
  "assistant_tool_calls tcs = plain_message ''assistant'' (ToolBody tcs)"

definition assistant_structured :: "string \<Rightarrow> string option \<Rightarrow> message" where
  "assistant_structured c r = plain_message ''assistant'' (Content (StructuredAssistant c r))"

lemmas message_constructor_defs =
  plain_message_def user_msg_def system_msg_def tool_result_def tool_result_for_def
  assistant_tool_calls_def assistant_structured_def

section \<open>Template view\<close>

record text_message =
  tm_role :: string
  tm_content :: string
  tm_tool_call_id :: "string option"
  tm_name :: "string option"
  tm_tool_calls :: "json_value list"

definition call_json :: "tool_call \<Rightarrow> json_value" where
  "call_json c = JObject
     [(''id'', JString (tc_id c)), (''type'', JString (tc_type c)),
      (''function'', JObject [(''name'', JString (fd_name (tc_function c))),
                              (''arguments'', fd_arguments (tc_function c))])]"

definition text_message_of :: "message \<Rightarrow> text_message" where
  "text_message_of m =
     (let (content, calls) =
        (case msg_body m of
           Content c \<Rightarrow> (c, [])
         | ToolBody tcs \<Rightarrow> (SingleText [], map call_json tcs))
      in \<lparr>tm_role = msg_role m, tm_content = as_visible_text content,
          tm_tool_call_id = msg_tool_call_id m, tm_name = msg_name m,
          tm_tool_calls = calls\<rparr>)"

text \<open>
  The argument codec: arguments travel as a JSON string and come back as an object when the
  string parses to one.  The parser and printer of JSON are the library's: \<open>parse\<close> and
  \<open>print\<close>.
\<close>

definition deserialize_from_string ::
  "(string \<Rightarrow> json_value option) \<Rightarrow> json_value \<Rightarrow> json_value" where
  "deserialize_from_string parse v =
     (case v of
        JString s \<Rightarrow>
          (case parse s of Some (JObject kvs) \<Rightarrow> JObject kvs | _ \<Rightarrow> JString s)
      | other \<Rightarrow> other)"

definition serialize_as_string :: "(json_value \<Rightarrow> string) \<Rightarrow> json_value \<Rightarrow> string" where
  "serialize_as_string print v = (case v of JString s \<Rightarrow> s | other \<Rightarrow> print other)"

definition to_file_url :: "(string \<Rightarrow> string option) \<Rightarrow> string \<Rightarrow> string" where
  "to_file_url from_file_path uri =
     (if starts_with uri ''http://'' \<or> starts_with uri ''https://'' \<or> starts_with uri ''file://''
      then uri
      else case from_file_path uri of Some u \<Rightarrow> u | None \<Rightarrow> ''file://'' @ uri)"

section \<open>Lemmas\<close>

lemma join_Nil_concat: "join [] xs = concat xs"
  by (induction "[] :: string" xs rule: join.induct) auto

lemma visible_text_push:
  "as_visible_text (content_push c k) = as_visible_text c @ chunk_text k"
  by (cases c) (simp_all add: join_Nil_concat)

lemma text_of_constructors [simp]:
  "message_text (user_msg t) = t"
  "message_text (system_msg t) = t"
  "message_text (tool_result_for i t) = t"
  "message_text (assistant_tool_calls tcs) = []"
  "message_text (assistant_structured t r) = t"
  by (simp_all add: message_text_def message_constructor_defs)

lemma msg_role_constructors [simp]:
  "msg_role (user_msg t) = ''user''"
  "msg_role (system_msg t) = ''system''"
  "msg_role (tool_result_for i t) = ''tool''"
  "msg_role (assistant_tool_calls tcs) = ''assistant''"
  by (simp_all add: message_constructor_defs)

text \<open>
  Tool-call arguments survive the argument codec: an object is serialized to its JSON
  text and comes back as the same object whenever the JSON library parses what it printed;
  a free-text string that does not parse to an object comes back as that string.
\<close>

lemma arguments_roundtrip:
  assumes "parse (print (JObject kvs)) = Some (JObject kvs)"
    and "\<And>ps. parse s \<noteq> Some (JObject ps)"
  shows "deserialize_from_string parse (JString (serialize_as_string print (JObject kvs)))
           = JObject kvs"
    and "deserialize_from_string parse (JString (serialize_as_string print (JString s)))
           = JString s"
  using assms
  by (auto simp: deserialize_from_string_def serialize_as_string_def
      split: option.splits json_value.splits)

end
