(* ===== verification/Journal.thy ===== *)
theory Journal
  imports Message
begin

text \<open>
  The append-only journal (\<^verbatim>\<open>src/journal/entry.rs\<close>, \<^verbatim>\<open>src/journal/store.rs\<close>): its
  entries, the in-memory store and the JSON-lines store on disk, with the faults the file
  system may report made explicit.  The interface the rest of the agent uses is the locale
  \<open>honest_journal\<close>.
\<close>

section \<open>Entries\<close>

datatype wake_reason = WakeHeartbeat | WakeUser | WakeExternal string

datatype input_source = FromUser | SelfPrompt | FromExternal string

datatype journal_entry =
    InputEntry input_source message
  | AssistantEntry message
  | ToolCallEntry string string json_value
  | ToolResultEntry string string string bool
  | ScratchSet string string
  | ScratchDelete string
  | WakeEntry wake_reason

record jrecord =
  rec_id :: nat
  rec_at :: int
  rec_entry :: journal_entry

fun call_id :: "journal_entry \<Rightarrow> string option" where
  "call_id (ToolCallEntry i _ _) = Some i"
| "call_id (ToolResultEntry i _ _ _) = Some i"
| "call_id _ = None"

fun is_conversational :: "journal_entry \<Rightarrow> bool" where
  "is_conversational (InputEntry _ _) = True"
| "is_conversational (AssistantEntry _) = True"
| "is_conversational (ToolCallEntry _ _ _) = True"
| "is_conversational (ToolResultEntry _ _ _ _) = True"
| "is_conversational _ = False"

definition entry_messages :: "journal_entry \<Rightarrow> message list" where
  "entry_messages e =
     (case e of
        InputEntry _ m \<Rightarrow> [m]
      | AssistantEntry m \<Rightarrow> [m]
      | ToolCallEntry i tool args \<Rightarrow>
          [assistant_tool_calls
             [\<lparr>tc_id = i, tc_type = ''function'',
               tc_function = \<lparr>fd_description = None, fd_name = tool, fd_arguments = args\<rparr>\<rparr>]]
      | ToolResultEntry i _ output _ \<Rightarrow> [tool_result_for i output]
      | _ \<Rightarrow> [])"

definition to_messages :: "jrecord \<Rightarrow> message list" where
  "to_messages r = entry_messages (rec_entry r)"

lemma to_messages_Nil_iff: "to_messages r = [] \<longleftrightarrow> \<not> is_conversational (rec_entry r)"
  by (cases "rec_entry r") (auto simp: to_messages_def entry_messages_def)

section \<open>The interface\<close>

datatype journal_error = JournalIo string | JournalCorrupt nat string

text \<open>
  What a client of a journal relies on, failures included.  \<open>view\<close> is the history a state of the
  journal holds: an append that reports a position has added that one record at the end, an
  append that reports an error has left the history alone, and a replay that succeeds returns
  it.  Nothing is asked of when appends or replays fail; \<open>ok\<close> are the states for which this
  holds, and they are never left.
\<close>

locale honest_journal =
  fixes app :: "int \<Rightarrow> journal_entry \<Rightarrow> 'j \<Rightarrow> (journal_error + nat) \<times> 'j"
    and replay :: "'j \<Rightarrow> journal_error + jrecord list"
    and view :: "'j \<Rightarrow> jrecord list"
    and ok :: "'j \<Rightarrow> bool"
  assumes appended: "ok j \<Longrightarrow> app t e j = (Inr i, j')
      \<Longrightarrow> view j' = view j @ [\<lparr>rec_id = i, rec_at = t, rec_entry = e\<rparr>]"
    and refused: "ok j \<Longrightarrow> app t e j = (Inl err, j') \<Longrightarrow> view j' = view j"
    and replayed: "ok j \<Longrightarrow> replay j = Inr rs \<Longrightarrow> rs = view j"
    and stays_ok: "ok j \<Longrightarrow> app t e j = (r, j') \<Longrightarrow> ok j'"

text \<open>A journal whose positions are also fresh keeps its history in strictly increasing order.\<close>

locale ordered_journal = honest_journal +
  assumes fresh: "ok j \<Longrightarrow> app t e j = (Inr i, j') \<Longrightarrow> r \<in> set (view j) \<Longrightarrow> rec_id r < i"
begin

lemma append_keeps_order:
  assumes "ok j" "sorted_wrt (<) (map rec_id (view j))" "app t e j = (r, j')"
  shows "sorted_wrt (<) (map rec_id (view j'))"
proof (cases r)
  case (Inl err)
  with assms refused [of j t e err j'] show ?thesis by simp
next
  case (Inr i)
  with assms appended [of j t e i j'] fresh [of j t e i j'] show ?thesis
    by (auto simp: sorted_wrt_append)
qed

end

section \<open>The journal in memory\<close>

text \<open>A poisoned lock (a panic while it was held) makes every later call fail.\<close>

record mem_journal =
  mj_poisoned :: bool
  mj_records :: "jrecord list"

definition mem_new :: mem_journal where
  "mem_new = \<lparr>mj_poisoned = False, mj_records = []\<rparr>"

definition mem_append ::
  "int \<Rightarrow> journal_entry \<Rightarrow> mem_journal \<Rightarrow> (journal_error + nat) \<times> mem_journal" where
  "mem_append now e j =
     (if mj_poisoned j then (Inl (JournalIo ''journal lock poisoned''), j)
      else let i = length (mj_records j)
           in (Inr i, j\<lparr>mj_records := mj_records j @ [\<lparr>rec_id = i, rec_at = now, rec_entry = e\<rparr>]\<rparr>))"

definition mem_replay :: "mem_journal \<Rightarrow> journal_error + jrecord list" where
  "mem_replay j =
     (if mj_poisoned j then Inl (JournalIo ''journal lock poisoned'') else Inr (mj_records j))"

text \<open>It is honest in every state, poisoned or not, and its positions are fresh where each record
  stands at its position.\<close>

definition mem_inv :: "mem_journal \<Rightarrow> bool" where
  "mem_inv j \<longleftrightarrow> (\<forall>r \<in> set (mj_records j). rec_id r < length (mj_records j))"

lemma mem_inv_new: "mem_inv mem_new"
  by (simp add: mem_inv_def mem_new_def)

interpretation mem_honest: honest_journal mem_append mem_replay mj_records "\<lambda>_. True"
  by unfold_locales (auto simp: mem_append_def mem_replay_def Let_def split: if_splits)

interpretation mem: ordered_journal mem_append mem_replay mj_records mem_inv
  by unfold_locales
    (auto simp: mem_inv_def mem_append_def mem_replay_def Let_def less_Suc_eq split: if_splits)

text \<open>The default methods of the trait.\<close>

definition journal_len :: "('j \<Rightarrow> journal_error + jrecord list) \<Rightarrow> 'j \<Rightarrow> journal_error + nat" where
  "journal_len replay j = map_sum id length (replay j)"

definition journal_is_empty :: "('j \<Rightarrow> journal_error + jrecord list) \<Rightarrow> 'j \<Rightarrow> journal_error + bool" where
  "journal_is_empty replay j = map_sum id (\<lambda>n. n = 0) (journal_len replay j)"

end
