(* ===== verification/JournalFile.thy ===== *)
theory JournalFile
  imports Journal
begin

text \<open>
  The JSON-lines journal on disk (\<^verbatim>\<open>JsonlJournal\<close> in \<^verbatim>\<open>src/journal/store.rs\<close>).  The file
  is its byte content (\<^const>\<open>None\<close> when it does not exist); the JSON codec is the library's,
  a pair \<open>enc\<close>, \<open>dec\<close>; what the operating system may report during an append is the value
  \<open>append_fault\<close>, a torn write included.
\<close>

type_synonym encoder = "jrecord \<Rightarrow> string + string"
type_synonym decoder = "string \<Rightarrow> string + jrecord"

record jsonl =
  jl_file :: "string option"
  jl_next :: nat
  jl_poisoned :: bool

datatype append_fault =
    NoFault
  | OpenFails string
  | WriteFails nat string
  | SyncFails string

text \<open>Positions are \<^verbatim>\<open>u64\<close>; the wrap of a release build is written out.\<close>

definition next_position :: "nat \<Rightarrow> nat" where
  "next_position n = (n + 1) mod 2 ^ 64"

definition file_bytes :: "string option \<Rightarrow> string" where
  "file_bytes f = (case f of None \<Rightarrow> [] | Some s \<Rightarrow> s)"

definition jsonl_append ::
  "encoder \<Rightarrow> append_fault \<Rightarrow> int \<Rightarrow> journal_entry \<Rightarrow> jsonl \<Rightarrow> (journal_error + nat) \<times> jsonl" where
  "jsonl_append enc fault now e j =
     (if jl_poisoned j then (Inl (JournalIo ''journal lock poisoned''), j)
      else let r = \<lparr>rec_id = jl_next j, rec_at = now, rec_entry = e\<rparr> in
        case enc r of
          Inl err \<Rightarrow> (Inl (JournalIo err), j)
        | Inr l \<Rightarrow>
            let line = l @ [nl]; old = file_bytes (jl_file j) in
            case fault of
              OpenFails err \<Rightarrow> (Inl (JournalIo err), j)
            | WriteFails n err \<Rightarrow> (Inl (JournalIo err), j\<lparr>jl_file := Some (old @ take n line)\<rparr>)
            | SyncFails err \<Rightarrow> (Inl (JournalIo err), j\<lparr>jl_file := Some (old @ line)\<rparr>)
            | NoFault \<Rightarrow>
                (Inr (rec_id r), j\<lparr>jl_file := Some (old @ line), jl_next := next_position (jl_next j)\<rparr>))"

text \<open>
  \<^verbatim>\<open>read_all\<close>: blank lines are skipped, an unreadable last line ends the history, an
  unreadable line elsewhere is reported with its 1-based number.
\<close>

definition is_last_line :: "string \<Rightarrow> nat \<Rightarrow> bool" where
  "is_last_line file index \<longleftrightarrow> index + 1 = length (lines file)"

fun read_lines ::
  "decoder \<Rightarrow> string \<Rightarrow> nat \<Rightarrow> jrecord list \<Rightarrow> string list \<Rightarrow> journal_error + jrecord list" where
  "read_lines dec file index acc [] = Inr acc"
| "read_lines dec file index acc (l # ls) =
     (if \<not> utf8_valid l then Inl (JournalIo ''stream did not contain valid UTF-8'')
      else if trim l = [] then read_lines dec file (Suc index) acc ls
      else case dec l of
        Inr r \<Rightarrow> read_lines dec file (Suc index) (acc @ [r]) ls
      | Inl e \<Rightarrow>
          if is_last_line file index then Inr acc else Inl (JournalCorrupt (index + 1) e))"

definition read_all :: "decoder \<Rightarrow> string option \<Rightarrow> journal_error + jrecord list" where
  "read_all dec f =
     (case f of None \<Rightarrow> Inr [] | Some s \<Rightarrow> read_lines dec s 0 [] (lines s))"

definition jsonl_open :: "decoder \<Rightarrow> string option \<Rightarrow> journal_error + jsonl" where
  "jsonl_open dec f =
     (case read_all dec f of
        Inl e \<Rightarrow> Inl e
      | Inr rs \<Rightarrow>
          Inr \<lparr>jl_file = f, jl_next = (if rs = [] then 0 else next_position (rec_id (last rs))),
               jl_poisoned = False\<rparr>)"

definition jsonl_replay :: "decoder \<Rightarrow> jsonl \<Rightarrow> journal_error + jrecord list" where
  "jsonl_replay dec j = read_all dec (jl_file j)"

section \<open>Intact files\<close>

text \<open>What the JSON codec does for a record: one non-blank line that reads back.\<close>

definition codec_ok :: "encoder \<Rightarrow> decoder \<Rightarrow> jrecord \<Rightarrow> bool" where
  "codec_ok enc dec r =
     (case enc r of
        Inl _ \<Rightarrow> False
      | Inr l \<Rightarrow> dec l = Inr r \<and> nl \<notin> set l \<and> strip_cr l = l \<and> trim l \<noteq> [] \<and> utf8_valid l)"

definition render :: "encoder \<Rightarrow> jrecord list \<Rightarrow> string" where
  "render enc rs = concat (map (\<lambda>r. (case enc r of Inr l \<Rightarrow> l | Inl _ \<Rightarrow> []) @ [nl]) rs)"

definition junk_line :: "decoder \<Rightarrow> string \<Rightarrow> bool" where
  "junk_line dec l \<longleftrightarrow>
     nl \<notin> set l \<and> strip_cr l = l \<and> trim l \<noteq> [] \<and> utf8_valid l \<and> (\<exists>e. dec l = Inl e)"

lemma codec_okE:
  assumes "codec_ok enc dec r"
  obtains l where "enc r = Inr l" "dec l = Inr r" "nl \<notin> set l" "strip_cr l = l"
    "trim l \<noteq> []" "utf8_valid l"
  using assms by (auto simp: codec_ok_def split: sum.splits)

lemma render_simps [simp]:
  "render enc [] = []"
  "render enc (rs @ rs') = render enc rs @ render enc rs'"
  "enc r = Inr l \<Longrightarrow> render enc (r # rs) = l @ nl # render enc rs"
  by (simp_all add: render_def)

lemma trim_Nil [simp]: "trim [] = []"
  by (simp add: trim_def trim_start.simps trim_end.simps ws_prefix_len_def ws_suffix_len_def)

lemma junk_line_nonempty: "junk_line dec l \<Longrightarrow> l \<noteq> []"
  by (auto simp: junk_line_def)

lemma length_lines_render:
  "list_all (codec_ok enc dec) rs \<Longrightarrow> length (lines (render enc rs @ s)) = length rs + length (lines s)"
proof (induction rs)
  case (Cons r rs)
  from Cons.prems obtain l where "enc r = Inr l" "nl \<notin> set l"
    by (auto elim: codec_okE)
  with Cons show ?case by (simp add: lines_line)
qed simp

lemma read_lines_render:
  assumes "list_all (codec_ok enc dec) rs"
  shows "read_lines dec file i acc (lines (render enc rs @ s))
           = read_lines dec file (i + length rs) (acc @ rs) (lines s)"
  using assms
proof (induction rs arbitrary: i acc)
  case (Cons r rs)
  from Cons.prems obtain l where "enc r = Inr l" "dec l = Inr r" "nl \<notin> set l"
    "strip_cr l = l" "trim l \<noteq> []" "utf8_valid l" by (auto elim: codec_okE)
  moreover have "list_all (codec_ok enc dec) rs" using Cons.prems by simp
  ultimately show ?case by (simp add: lines_line Cons.IH)
qed simp

lemma read_all_render:
  "list_all (codec_ok enc dec) rs \<Longrightarrow> read_all dec (Some (render enc rs)) = Inr rs"
  using read_lines_render [of enc dec rs _ _ _ "[]"] by (simp add: read_all_def)

lemma read_all_render_last_junk:
  assumes "list_all (codec_ok enc dec) rs" "junk_line dec l" "tail = l \<or> tail = l @ [nl]"
  shows "read_all dec (Some (render enc rs @ tail)) = Inr rs"
proof -
  have lines_tail: "lines tail = [l]"
    using assms(2,3) junk_line_nonempty [OF assms(2)] lines_line [of l "[]"]
    by (auto simp: lines_last junk_line_def)
  with assms(1) have "is_last_line (render enc rs @ tail) (length rs)"
    by (simp add: is_last_line_def length_lines_render)
  with assms lines_tail show ?thesis
    by (auto simp: read_all_def read_lines_render junk_line_def)
qed

lemma read_all_render_middle_junk:
  assumes "list_all (codec_ok enc dec) rs" "junk_line dec l" "lines s \<noteq> []"
  shows "\<exists>e. read_all dec (Some (render enc rs @ l @ nl # s)) = Inl (JournalCorrupt (length rs + 1) e)"
proof -
  have lines: "lines (l @ nl # s) = l # lines s"
    using assms(2) by (simp add: lines_line junk_line_def)
  with assms(1,3) have "\<not> is_last_line (render enc rs @ l @ nl # s) (length rs)"
    by (simp add: is_last_line_def length_lines_render)
  with assms lines show ?thesis
    by (auto simp: read_all_def read_lines_render junk_line_def)
qed

section \<open>Properties\<close>

abbreviation next_record :: "jsonl \<Rightarrow> int \<Rightarrow> journal_entry \<Rightarrow> jrecord" where
  "next_record j now e \<equiv> \<lparr>rec_id = jl_next j, rec_at = now, rec_entry = e\<rparr>"

lemma jsonl_append_ok:
  assumes "\<not> jl_poisoned j" "enc (next_record j now e) = Inr l"
  shows "jsonl_append enc NoFault now e j
     = (Inr (jl_next j),
        j\<lparr>jl_file := Some (file_bytes (jl_file j) @ l @ [nl]), jl_next := next_position (jl_next j)\<rparr>)"
  using assms by (simp add: jsonl_append_def Let_def)

text \<open>
  C36: An append to an intact journal file is durable and ordered.  It reports the position it
  wrote, the file read back afterwards is exactly the old history followed by the new record,
  and opening that file again continues the sequence one past the position just written.
\<close>

theorem jsonl_append_then_replay:
  assumes "\<not> jl_poisoned j" "jl_file j = Some (render enc rs)"
    and "list_all (codec_ok enc dec) rs" "codec_ok enc dec (next_record j now e)"
  shows "\<exists>j'. jsonl_append enc NoFault now e j = (Inr (jl_next j), j')
     \<and> jsonl_replay dec j' = Inr (rs @ [next_record j now e])
     \<and> jsonl_open dec (jl_file j') = Inr j'"
proof -
  obtain l where l: "enc (next_record j now e) = Inr l" using assms(4) by (rule codec_okE)
  let ?j' = "j\<lparr>jl_file := Some (render enc rs @ l @ [nl]), jl_next := next_position (jl_next j)\<rparr>"
  have text_eq: "render enc rs @ l @ [nl] = render enc (rs @ [next_record j now e])"
    using l by simp
  have "read_all dec (jl_file ?j') = Inr (rs @ [next_record j now e])"
    using assms(3,4) by (simp del: render_simps(2) add: text_eq read_all_render)
  moreover have "jsonl_append enc NoFault now e j = (Inr (jl_next j), ?j')"
    using jsonl_append_ok [where enc = enc, OF assms(1) l] assms(2) by (simp add: file_bytes_def)
  ultimately show ?thesis
    using assms(1) by (intro exI [of _ ?j']) (simp add: jsonl_replay_def jsonl_open_def)
qed

text \<open>
  A crash in the middle of an append loses only that append: a file whose last line is
  the unreadable beginning of a record still replays to everything before it.
\<close>

lemma jsonl_torn_tail_recovers:
  assumes "list_all (codec_ok enc dec) rs" "junk_line dec torn"
  shows "read_all dec (Some (render enc rs @ torn)) = Inr rs"
  using read_all_render_last_junk [OF assms] by blast

text \<open>
  What recovery does not repair.  After such a crash the journal opens, but the next
  append is glued to the torn line: it is acknowledged with a position and yet missing from
  the very next replay, and one more append turns the glued line into a corrupt middle line,
  after which neither replay nor open succeeds.
\<close>

lemma jsonl_append_after_torn_write:
  assumes "list_all (codec_ok enc dec) rs" "junk_line dec torn"
    and "jsonl_open dec (Some (render enc rs @ torn)) = Inr j"
    and "enc (next_record j t1 e1) = Inr l1" "junk_line dec (torn @ l1)"
    and "enc \<lparr>rec_id = next_position (jl_next j), rec_at = t2, rec_entry = e2\<rparr> = Inr l2"
    and "nl \<notin> set l2"
  shows "\<exists>j1 j2 err. jsonl_append enc NoFault t1 e1 j = (Inr (jl_next j), j1)
     \<and> jsonl_replay dec j1 = Inr rs
     \<and> jsonl_append enc NoFault t2 e2 j1 = (Inr (next_position (jl_next j)), j2)
     \<and> jsonl_replay dec j2 = Inl (JournalCorrupt (length rs + 1) err)
     \<and> jsonl_open dec (jl_file j2) = Inl (JournalCorrupt (length rs + 1) err)"
proof -
  have j: "jl_file j = Some (render enc rs @ torn)" "\<not> jl_poisoned j"
    using assms(3) by (auto simp: jsonl_open_def split: sum.splits)
  let ?j1 = "j\<lparr>jl_file := Some (render enc rs @ (torn @ l1) @ [nl]), jl_next := next_position (jl_next j)\<rparr>"
  let ?j2 = "j\<lparr>jl_file := Some (render enc rs @ (torn @ l1) @ nl # l2 @ [nl]),
               jl_next := next_position (next_position (jl_next j))\<rparr>"
  have a1: "jsonl_append enc NoFault t1 e1 j = (Inr (jl_next j), ?j1)"
    using jsonl_append_ok [where enc = enc, OF j(2) assms(4)] j(1) by (simp add: file_bytes_def)
  have a2: "jsonl_append enc NoFault t2 e2 ?j1 = (Inr (next_position (jl_next j)), ?j2)"
    using jsonl_append_ok [where enc = enc and j = ?j1 and now = t2 and e = e2 and l = l2]
      j(2) assms(6) by (simp add: file_bytes_def)
  have "read_all dec (jl_file ?j1) = Inr rs"
    using read_all_render_last_junk [OF assms(1,5)] by simp
  moreover obtain err where
    "read_all dec (jl_file ?j2) = Inl (JournalCorrupt (length rs + 1) err)"
    using read_all_render_middle_junk [OF assms(1,5), of "l2 @ [nl]"]
      lines_line [OF assms(7), of "[]"] by auto
  ultimately show ?thesis
    using a1 a2
    by (intro exI [of _ ?j1] exI [of _ ?j2] exI [of _ err])
      (simp add: jsonl_replay_def jsonl_open_def)
qed

text \<open>
  A failed flush breaks the uniqueness of positions.  The line of the failed append is
  in the file but the counter did not move, so the next successful append writes a second
  record with the same position and the replayed history holds both.
\<close>

lemma jsonl_sync_failure_duplicates_position:
  assumes "\<not> jl_poisoned j" "jl_file j = Some (render enc rs)"
    and "list_all (codec_ok enc dec) rs"
    and "codec_ok enc dec (next_record j t1 e1)" "codec_ok enc dec (next_record j t2 e2)"
  shows "\<exists>j1 j2. jsonl_append enc (SyncFails err) t1 e1 j = (Inl (JournalIo err), j1)
     \<and> jsonl_append enc NoFault t2 e2 j1 = (Inr (jl_next j), j2)
     \<and> jsonl_replay dec j2 = Inr (rs @ [next_record j t1 e1, next_record j t2 e2])"
proof -
  obtain l1 where l1: "enc (next_record j t1 e1) = Inr l1" using assms(4) by (rule codec_okE)
  obtain l2 where l2: "enc (next_record j t2 e2) = Inr l2" using assms(5) by (rule codec_okE)
  let ?j1 = "j\<lparr>jl_file := Some (render enc rs @ l1 @ [nl])\<rparr>"
  let ?j2 = "?j1\<lparr>jl_file := Some (render enc rs @ l1 @ nl # l2 @ [nl]), jl_next := next_position (jl_next j)\<rparr>"
  have text_eq: "render enc rs @ l1 @ nl # l2 @ [nl]
      = render enc (rs @ [next_record j t1 e1, next_record j t2 e2])"
    using l1 l2 by simp
  have "jsonl_append enc (SyncFails err) t1 e1 j = (Inl (JournalIo err), ?j1)"
    using assms(1,2) l1 by (simp add: jsonl_append_def Let_def file_bytes_def)
  moreover have "jsonl_append enc NoFault t2 e2 ?j1 = (Inr (jl_next j), ?j2)"
    using jsonl_append_ok [where enc = enc and j = ?j1 and l = l2] assms(1) l2
    by (simp add: file_bytes_def)
  moreover have "jsonl_replay dec ?j2 = Inr (rs @ [next_record j t1 e1, next_record j t2 e2])"
    using assms(3-5)
    by (simp del: render_simps(2,3) add: text_eq read_all_render jsonl_replay_def)
  ultimately show ?thesis by blast
qed

section \<open>Concrete instances\<close>

text \<open>A codec for the records of positions 0 and 1 with one fixed entry.\<close>

lemma next_position_small [simp]: "next_position 0 = 1" "next_position 1 = 2" "next_position (Suc 0) = 2"
  by (simp_all add: next_position_def)

definition sample_record :: "nat \<Rightarrow> jrecord" where
  "sample_record n = \<lparr>rec_id = n, rec_at = 0, rec_entry = WakeEntry WakeUser\<rparr>"

definition sample_enc :: encoder where
  "sample_enc r = Inr (CHR ''r'' # show_nat (rec_id r))"

definition sample_dec :: decoder where
  "sample_dec s =
     (if s = ''r0'' then Inr (sample_record 0)
      else if s = ''r1'' then Inr (sample_record 1) else Inl ''expected value'')"

definition sample_journal :: "nat \<Rightarrow> jrecord list \<Rightarrow> jsonl" where
  "sample_journal n rs =
     \<lparr>jl_file = Some (render sample_enc rs), jl_next = n, jl_poisoned = False\<rparr>"

lemma sample_codec:
  "codec_ok sample_enc sample_dec (sample_record 0)"
  "codec_ok sample_enc sample_dec (sample_record 1)"
  "junk_line sample_dec ''{''"
  "junk_line sample_dec ''{r1''"
proof -
  show "codec_ok sample_enc sample_dec (sample_record 0)" by code_simp
  show "codec_ok sample_enc sample_dec (sample_record 1)" by code_simp
  have "nl \<notin> set ''{'' \<and> strip_cr ''{'' = ''{'' \<and> trim ''{'' \<noteq> [] \<and> utf8_valid ''{''" by code_simp
  then show "junk_line sample_dec ''{''" by (simp add: junk_line_def sample_dec_def)
  have "nl \<notin> set ''{r1'' \<and> strip_cr ''{r1'' = ''{r1'' \<and> trim ''{r1'' \<noteq> [] \<and> utf8_valid ''{r1''"
    by code_simp
  then show "junk_line sample_dec ''{r1''" by (simp add: junk_line_def sample_dec_def)
qed

lemma sample_next_record:
  "next_record (sample_journal n rs) 0 (WakeEntry WakeUser) = sample_record n"
  by (simp add: sample_journal_def sample_record_def)

lemma jsonl_append_then_replay_witness:
  "\<exists>j'. jsonl_append sample_enc NoFault 0 (WakeEntry WakeUser) (sample_journal 1 [sample_record 0])
        = (Inr 1, j')
     \<and> jsonl_replay sample_dec j' = Inr [sample_record 0, sample_record 1]
     \<and> jsonl_open sample_dec (jl_file j') = Inr j'"
  using jsonl_append_then_replay [of "sample_journal 1 [sample_record 0]" sample_enc
      "[sample_record 0]" sample_dec 0 "WakeEntry WakeUser"] sample_codec(1,2)
  by (simp add: sample_next_record) (simp add: sample_journal_def)

lemma jsonl_torn_tail_recovers_witness:
  "read_all sample_dec (Some (render sample_enc [sample_record 0] @ ''{'')) = Inr [sample_record 0]"
  by (rule jsonl_torn_tail_recovers) (simp_all add: sample_codec)

lemma jsonl_append_after_torn_write_witness:
  "\<exists>j j1 j2 err. jsonl_open sample_dec (Some (render sample_enc [sample_record 0] @ ''{'')) = Inr j
     \<and> jsonl_append sample_enc NoFault 0 (WakeEntry WakeUser) j = (Inr 1, j1)
     \<and> jsonl_replay sample_dec j1 = Inr [sample_record 0]
     \<and> jsonl_append sample_enc NoFault 0 (WakeEntry WakeUser) j1 = (Inr 2, j2)
     \<and> jsonl_replay sample_dec j2 = Inl (JournalCorrupt 2 err)"
proof -
  let ?j = "\<lparr>jl_file = Some (render sample_enc [sample_record 0] @ ''{''),
              jl_next = 1, jl_poisoned = False\<rparr>"
  have "read_all sample_dec (Some (render sample_enc [sample_record 0] @ ''{''))
      = Inr [sample_record 0]"
    using read_all_render_last_junk [of sample_enc sample_dec "[sample_record 0]" "''{''" "''{''"]
    by (simp add: sample_codec)
  then have op: "jsonl_open sample_dec (Some (render sample_enc [sample_record 0] @ ''{'')) = Inr ?j"
    by (simp add: jsonl_open_def sample_record_def)
  have digits: "show_nat (Suc 0) = ''1''" "show_nat 2 = ''2''" by code_simp+
  have l1: "sample_enc (next_record ?j 0 (WakeEntry WakeUser)) = Inr ''r1''"
    and l2: "sample_enc \<lparr>rec_id = next_position (jl_next ?j), rec_at = 0, rec_entry = WakeEntry WakeUser\<rparr>
               = Inr ''r2''"
    by (simp_all add: sample_enc_def digits)
  obtain j1 j2 err where
    "jsonl_append sample_enc NoFault 0 (WakeEntry WakeUser) ?j = (Inr (jl_next ?j), j1)
     \<and> jsonl_replay sample_dec j1 = Inr [sample_record 0]
     \<and> jsonl_append sample_enc NoFault 0 (WakeEntry WakeUser) j1 = (Inr (next_position (jl_next ?j)), j2)
     \<and> jsonl_replay sample_dec j2 = Inl (JournalCorrupt (length [sample_record 0] + 1) err)"
    using jsonl_append_after_torn_write [of sample_enc sample_dec "[sample_record 0]" "''{''" ?j
        0 "WakeEntry WakeUser" "''r1''" 0 "WakeEntry WakeUser" "''r2''"]
      sample_codec op l1 l2 by auto
  with op show ?thesis by (intro exI [of _ ?j] exI [of _ j1] exI [of _ j2] exI [of _ err])
      simp
qed

lemma jsonl_sync_failure_duplicates_position_witness:
  "\<exists>j1 j2. jsonl_append sample_enc (SyncFails ''disk full'') 0 (WakeEntry WakeUser) (sample_journal 0 [])
        = (Inl (JournalIo ''disk full''), j1)
     \<and> jsonl_append sample_enc NoFault 0 (WakeEntry WakeUser) j1 = (Inr 0, j2)
     \<and> jsonl_replay sample_dec j2 = Inr [sample_record 0, sample_record 0]"
  using jsonl_sync_failure_duplicates_position [of "sample_journal 0 []" sample_enc "[]" sample_dec
      0 "WakeEntry WakeUser" 0 "WakeEntry WakeUser" "''disk full''"] sample_codec(1)
  by (simp add: sample_next_record) (simp add: sample_journal_def)

end
