(* ===== verification/Turn.thy ===== *)
theory Turn
  imports Journal
begin

text \<open>
  Turns (\<^verbatim>\<open>src/journal/turn.rs\<close>): the unit a projection may keep or drop.  \<open>turn_group\<close> is
  the loop of \<^verbatim>\<open>Turn::group\<close>, its open round a pair of the buffered records and the call
  ids still awaited; \<open>round_len\<close> is the same rule over plain messages.
\<close>

type_synonym turn = "jrecord list"
type_synonym open_round = "(jrecord list \<times> string list) option"

section \<open>Grouping records\<close>

fun group_step :: "jrecord \<Rightarrow> turn list \<times> open_round \<Rightarrow> turn list \<times> open_round" where
  "group_step r (turns, Some (buffered, awaiting)) =
     (case rec_entry r of
        ToolResultEntry i _ _ _ \<Rightarrow>
          (let buffered' = buffered @ [r]; awaiting' = filter (\<lambda>a. a \<noteq> i) awaiting in
           if awaiting' = [] then (turns @ [buffered'], None)
           else (turns, Some (buffered', awaiting')))
      | ToolCallEntry i _ _ \<Rightarrow> (turns, Some (buffered @ [r], awaiting @ [i]))
      | _ \<Rightarrow> (turns, Some (buffered @ [r], awaiting)))"
| "group_step r (turns, None) =
     (case rec_entry r of
        ToolCallEntry i _ _ \<Rightarrow> (turns, Some ([r], [i]))
      | _ \<Rightarrow> (turns @ [[r]], None))"

definition turn_group :: "jrecord list \<Rightarrow> turn list" where
  "turn_group rs =
     (let (turns, open_round) = fold group_step rs ([], None) in
      case open_round of None \<Rightarrow> turns | Some (buffered, _) \<Rightarrow> turns @ [buffered])"

definition turn_messages :: "turn \<Rightarrow> message list" where
  "turn_messages t = concat (map to_messages t)"

definition estimated_tokens :: "turn \<Rightarrow> nat" where
  "estimated_tokens t = sum_list (map (\<lambda>m. length (message_text m) div 4 + 4) (turn_messages t))"

definition turn_conversational :: "turn \<Rightarrow> bool" where
  "turn_conversational t \<longleftrightarrow> list_ex (\<lambda>r. is_conversational (rec_entry r)) t"

section \<open>Rounds of plain messages\<close>

text \<open>
  \<open>round_scan\<close> is the loop over \<^verbatim>\<open>messages[at + 1..]\<close>: \<open>offset\<close> its index, \<open>awaiting\<close> the
  ids still unanswered; running off the end means the round never closed.
\<close>

fun round_scan :: "string list \<Rightarrow> nat \<Rightarrow> message list \<Rightarrow> nat" where
  "round_scan awaiting offset [] = 1"
| "round_scan awaiting offset (m # ms) =
     (case msg_body m of
        ToolBody calls \<Rightarrow> round_scan (awaiting @ map tc_id calls) (Suc offset) ms
      | Content _ \<Rightarrow>
          (case msg_tool_call_id m of
             None \<Rightarrow> round_scan awaiting (Suc offset) ms
           | Some i \<Rightarrow>
               (let awaiting' = filter (\<lambda>a. a \<noteq> i) awaiting in
                if awaiting' = [] then offset + 2 else round_scan awaiting' (Suc offset) ms)))"

definition round_len :: "message list \<Rightarrow> nat \<Rightarrow> nat" where
  "round_len ms at =
     (if length ms \<le> at then 0
      else case msg_body (ms ! at) of
        Content _ \<Rightarrow> 1
      | ToolBody calls \<Rightarrow> round_scan (map tc_id calls) 0 (drop (at + 1) ms))"

section \<open>Grouping is a partition\<close>

definition group_flat :: "turn list \<times> open_round \<Rightarrow> jrecord list" where
  "group_flat s = concat (fst s) @ (case snd s of None \<Rightarrow> [] | Some (b, _) \<Rightarrow> b)"

lemma group_step_flat: "group_flat (group_step r s) = group_flat s @ [r]"
  by (cases "(r, s)" rule: group_step.cases)
    (auto simp: group_flat_def Let_def split: journal_entry.splits)

lemma fold_group_flat: "group_flat (fold group_step rs s) = group_flat s @ rs"
  by (induction rs arbitrary: s) (auto simp: group_step_flat)

lemma concat_turn_group: "concat (turn_group rs) = rs"
proof -
  have "group_flat (fold group_step rs ([], None)) = rs"
    using fold_group_flat [of rs "([], None)"] by (simp add: group_flat_def)
  then show ?thesis
    by (auto simp: turn_group_def group_flat_def split: prod.splits option.splits)
qed

definition group_wf :: "turn list \<times> open_round \<Rightarrow> bool" where
  "group_wf s \<longleftrightarrow> (\<forall>t \<in> set (fst s). t \<noteq> []) \<and>
     (case snd s of None \<Rightarrow> True | Some (b, w) \<Rightarrow> b \<noteq> [] \<and> w \<noteq> [])"

lemma group_step_wf: "group_wf s \<Longrightarrow> group_wf (group_step r s)"
  by (cases "(r, s)" rule: group_step.cases)
    (auto simp: group_wf_def Let_def split: journal_entry.splits)

lemma fold_group_wf: "group_wf s \<Longrightarrow> group_wf (fold group_step rs s)"
  by (induction rs arbitrary: s) (auto simp: group_step_wf)

lemma turn_group_nonempty: "t \<in> set (turn_group rs) \<Longrightarrow> t \<noteq> []"
proof -
  obtain ts op where s: "fold group_step rs ([], None) = (ts, op)" by fastforce
  have "group_wf (fold group_step rs ([], None))"
    by (rule fold_group_wf) (simp add: group_wf_def)
  moreover assume "t \<in> set (turn_group rs)"
  ultimately show ?thesis
    using s by (auto simp: turn_group_def group_wf_def split: option.splits)
qed

text \<open>Turns once closed stay as they are: later records only extend the list.\<close>

lemma group_step_closed:
  "\<exists>us. fst (group_step r s) = fst s @ us"
  by (cases "(r, s)" rule: group_step.cases) (auto simp: Let_def split: journal_entry.splits)

lemma fold_group_closed: "\<exists>us. fst (fold group_step rs s) = fst s @ us"
proof (induction rs arbitrary: s)
  case (Cons r rs)
  then show ?case using group_step_closed [of r s] by (metis append.assoc fold_simps(2))
qed simp

lemma turn_group_fold:
  "fold group_step rs ([], None) = (ts, op) \<Longrightarrow>
     turn_group rs = ts @ (case op of None \<Rightarrow> [] | Some (b, _) \<Rightarrow> [b])"
  by (auto simp: turn_group_def split: option.splits)

section \<open>A call and its result share a turn\<close>

abbreviation is_result_of :: "string \<Rightarrow> jrecord \<Rightarrow> bool" where
  "is_result_of i r \<equiv> (\<exists>tool out ok. rec_entry r = ToolResultEntry i tool out ok)"

abbreviation is_call_of :: "string \<Rightarrow> jrecord \<Rightarrow> bool" where
  "is_call_of i r \<equiv> (\<exists>tool args. rec_entry r = ToolCallEntry i tool args)"

text \<open>While a call is unanswered its round stays open and buffers whatever arrives.\<close>

lemma group_step_awaiting:
  assumes "\<not> is_result_of i r" "i \<in> set w"
  shows "\<exists>w'. group_step r (ts, Some (b, w)) = (ts, Some (b @ [r], w')) \<and> i \<in> set w'"
proof (cases "rec_entry r")
  case (ToolResultEntry j tool out ok)
  with assms have "j \<noteq> i" by auto
  then have "i \<in> set (filter (\<lambda>a. a \<noteq> j) w)" using assms(2) by simp
  moreover from this have "filter (\<lambda>a. a \<noteq> j) w \<noteq> []"
    by (metis empty_iff empty_set)
  ultimately show ?thesis using ToolResultEntry by (simp add: Let_def)
qed (use assms(2) in auto)

lemma fold_group_awaiting:
  assumes "\<forall>r \<in> set rs. \<not> is_result_of i r" "i \<in> set w"
  shows "\<exists>w'. fold group_step rs (ts, Some (b, w)) = (ts, Some (b @ rs, w')) \<and> i \<in> set w'"
  using assms
proof (induction rs arbitrary: b w)
  case (Cons r rs)
  obtain w1 where "group_step r (ts, Some (b, w)) = (ts, Some (b @ [r], w1))" "i \<in> set w1"
    using group_step_awaiting [where i = i and r = r and w = w and ts = ts and b = b] Cons.prems by auto
  with Cons.IH [of w1 "b @ [r]"] Cons.prems show ?case by simp
qed auto

lemma group_step_call:
  assumes "is_call_of i c"
  obtains b w where "group_step c (ts, op) = (ts, Some (b @ [c], w))" "i \<in> set w"
    "concat ts @ b = group_flat (ts, op)"
proof (cases op)
  case None
  with assms that [of "[]" "[i]"] show ?thesis by (auto simp: group_flat_def)
next
  case (Some bw)
  obtain b w where "bw = (b, w)" by (cases bw)
  with assms Some that [of b "w @ [i]"] show ?thesis by (auto simp: group_flat_def)
qed

lemma group_step_result:
  assumes "is_result_of i d"
  shows "(\<exists>w'. group_step d (ts, Some (b, w)) = (ts, Some (b @ [d], w')))
       \<or> group_step d (ts, Some (b, w)) = (ts @ [b @ [d]], None)"
  using assms by (auto simp: Let_def)

text \<open>The open round only grows until it is closed as one turn.\<close>


lemma fold_group_from_open:
  assumes "fold group_step rs (ts, Some (b, w)) = (ts2, op)"
  shows "\<exists>v ts'. ts2 @ (case op of None \<Rightarrow> [] | Some (b', _) \<Rightarrow> [b']) = ts @ (b @ v) # ts'"
  using assms
proof (induction rs arbitrary: b w)
  case Nil
  then show ?case by auto
next
  case (Cons r rs)
  have "(\<exists>w'. group_step r (ts, Some (b, w)) = (ts, Some (b @ [r], w')))
      \<or> group_step r (ts, Some (b, w)) = (ts @ [b @ [r]], None)"
    by (auto simp: Let_def split: journal_entry.splits)
  then show ?case
  proof (elim disjE exE)
    fix w' assume "group_step r (ts, Some (b, w)) = (ts, Some (b @ [r], w'))"
    with Cons.prems have "fold group_step rs (ts, Some (b @ [r], w')) = (ts2, op)" by simp
    from Cons.IH [OF this] show ?thesis by (metis append.assoc)
  next
    assume "group_step r (ts, Some (b, w)) = (ts @ [b @ [r]], None)"
    with Cons.prems have "fst (fold group_step rs (ts @ [b @ [r]], None)) = ts2" by simp
    with fold_group_closed [of rs "(ts @ [b @ [r]], None)"] show ?thesis by auto
  qed
qed

text \<open>
  C26: Grouping never separates a tool call from its answer.  For every history, however calls
  and results interleave, a call and the first later result with its id sit in one and the
  same turn, together with everything recorded between them, and the turns before it and the
  turn's own beginning hold exactly what came before the call.
\<close>

theorem turn_group_keeps_pairs:
  assumes "is_call_of i c" "is_result_of i d" "\<forall>r \<in> set mid. \<not> is_result_of i r"
  shows "\<exists>ts u v ts'. turn_group (pre @ c # mid @ d # post) = ts @ (u @ c # mid @ d # v) # ts'
           \<and> concat ts @ u = pre"
proof -
  obtain ts op where s0: "fold group_step pre ([], None) = (ts, op)" by fastforce
  obtain u w where s1: "group_step c (ts, op) = (ts, Some (u @ [c], w))" "i \<in> set w"
    and u: "concat ts @ u = group_flat (ts, op)"
    using assms(1) by (rule group_step_call)
  have pre: "concat ts @ u = pre"
    using u s0 fold_group_flat [of pre "([], None)"] by (simp add: group_flat_def)
  obtain w1 where s2: "fold group_step mid (ts, Some (u @ [c], w)) = (ts, Some (u @ c # mid, w1))"
    using fold_group_awaiting [OF assms(3) s1(2), of ts "u @ [c]"] by auto
  let ?rest = "fold group_step (d # post) (ts, Some (u @ c # mid, w1))"
  obtain ts2 op2 where s3: "?rest = (ts2, op2)" by fastforce
  have "fold group_step (pre @ c # mid @ d # post) ([], None) = (ts2, op2)"
    using s0 s1(1) s2 s3 by simp
  then have grp: "turn_group (pre @ c # mid @ d # post)
      = ts2 @ (case op2 of None \<Rightarrow> [] | Some (b, _) \<Rightarrow> [b])" by (rule turn_group_fold)
  have "\<exists>v ts'. ts2 @ (case op2 of None \<Rightarrow> [] | Some (b, _) \<Rightarrow> [b])
      = ts @ ((u @ c # mid @ [d]) @ v) # ts'"
    using group_step_result [OF assms(2), of ts "u @ c # mid" w1]
  proof (elim disjE exE)
    fix w' assume "group_step d (ts, Some (u @ c # mid, w1)) = (ts, Some ((u @ c # mid) @ [d], w'))"
    with s3 have "fold group_step post (ts, Some (u @ c # mid @ [d], w')) = (ts2, op2)" by simp
    then show ?thesis by (rule fold_group_from_open)
  next
    assume "group_step d (ts, Some (u @ c # mid, w1)) = (ts @ [(u @ c # mid) @ [d]], None)"
    with s3 have "fst (fold group_step post (ts @ [u @ c # mid @ [d]], None)) = ts2" by simp
    with fold_group_closed [of post "(ts @ [u @ c # mid @ [d]], None)"] show ?thesis by auto
  qed
  with grp pre show ?thesis by auto
qed

lemma turn_group_keeps_pairs_witness:
  "\<exists>ts u v ts'. turn_group
       [\<lparr>rec_id = 0, rec_at = 0, rec_entry = ToolCallEntry ''a'' ''ls'' JNull\<rparr>,
        \<lparr>rec_id = 1, rec_at = 0, rec_entry = WakeEntry WakeUser\<rparr>,
        \<lparr>rec_id = 2, rec_at = 0, rec_entry = ToolResultEntry ''a'' ''ls'' ''ok'' True\<rparr>]
     = ts @ (u @ [\<lparr>rec_id = 0, rec_at = 0, rec_entry = ToolCallEntry ''a'' ''ls'' JNull\<rparr>,
        \<lparr>rec_id = 1, rec_at = 0, rec_entry = WakeEntry WakeUser\<rparr>,
        \<lparr>rec_id = 2, rec_at = 0, rec_entry = ToolResultEntry ''a'' ''ls'' ''ok'' True\<rparr>] @ v) # ts'
     \<and> concat ts @ u = []"
  using turn_group_keeps_pairs [where i = "''a''" and
      c = "\<lparr>rec_id = 0, rec_at = 0, rec_entry = ToolCallEntry ''a'' ''ls'' JNull\<rparr>" and
      d = "\<lparr>rec_id = 2, rec_at = 0, rec_entry = ToolResultEntry ''a'' ''ls'' ''ok'' True\<rparr>" and
      mid = "[\<lparr>rec_id = 1, rec_at = 0, rec_entry = WakeEntry WakeUser\<rparr>]" and pre = "[]" and
      post = "[]"]
  by auto

text \<open>
  Grouping loses and reorders nothing: the turns laid end to end are the journal itself,
  none is empty, and rendering them turn by turn gives the messages of all records in order.
\<close>

lemma turn_group_partition:
  "concat (turn_group rs) = rs \<and> [] \<notin> set (turn_group rs)
   \<and> concat (map turn_messages (turn_group rs)) = concat (map to_messages rs)"
proof -
  have "concat (map turn_messages tss) = concat (map to_messages (concat tss))" for tss
    by (induction tss) (auto simp: turn_messages_def)
  then show ?thesis using concat_turn_group turn_group_nonempty by auto
qed

text \<open>
  An unanswered call swallows the rest of the journal: when no result with its id ever
  follows a call that arrives with no round open, that call and everything after it are one
  single indivisible turn, however long the history grows.
\<close>

lemma unanswered_call_swallows_rest:
  assumes "is_call_of i c" "\<forall>r \<in> set rest. \<not> is_result_of i r"
  shows "turn_group (c # rest) = [c # rest]"
proof -
  have "group_step c ([], None) = ([], Some ([c], [i]))" using assms(1) by auto
  with fold_group_awaiting [OF assms(2), of "[i]" "[]" "[c]"] show ?thesis
    by (auto simp: turn_group_def)
qed

lemma unanswered_call_swallows_rest_witness:
  "turn_group
     [\<lparr>rec_id = 0, rec_at = 0, rec_entry = ToolCallEntry ''a'' ''ls'' JNull\<rparr>,
      \<lparr>rec_id = 1, rec_at = 0, rec_entry = AssistantEntry (user_msg ''x'')\<rparr>]
   = [[\<lparr>rec_id = 0, rec_at = 0, rec_entry = ToolCallEntry ''a'' ''ls'' JNull\<rparr>,
      \<lparr>rec_id = 1, rec_at = 0, rec_entry = AssistantEntry (user_msg ''x'')\<rparr>]]"
  by (rule unanswered_call_swallows_rest) auto

section \<open>Rounds close themselves\<close>

definition call_ids :: "message \<Rightarrow> string list" where
  "call_ids m = (case msg_body m of ToolBody calls \<Rightarrow> map tc_id calls | Content _ \<Rightarrow> [])"

definition answered_in :: "string \<Rightarrow> message list \<Rightarrow> bool" where
  "answered_in i ms \<longleftrightarrow> (\<exists>m \<in> set ms. msg_tool_call_id m = Some i \<and> call_ids m = [])"

definition calls_answered :: "message list \<Rightarrow> bool" where
  "calls_answered ms \<longleftrightarrow>
     (\<forall>p < length ms. \<forall>i \<in> set (call_ids (ms ! p)). answered_in i (drop (Suc p) ms))"

lemma answered_in_Cons: "answered_in i ms \<Longrightarrow> answered_in i (m # ms)"
  by (auto simp: answered_in_def)

lemma calls_answered_Cons:
  "calls_answered (m # ms) \<longleftrightarrow> (\<forall>i \<in> set (call_ids m). answered_in i ms) \<and> calls_answered ms"
  by (auto simp: calls_answered_def All_less_Suc2)

lemma round_scan_closed:
  "round_scan w k ms = n \<Longrightarrow> n = 1 \<or>
     (\<exists>j \<ge> 1. j \<le> length ms \<and> n = k + 1 + j \<and> (\<forall>i \<in> set w. answered_in i (take j ms))
        \<and> calls_answered (take j ms))"
proof (induction w k ms rule: round_scan.induct)
  case (1 w k)
  then show ?case by simp
next
  case (2 w k m ms)
  show ?case
  proof (cases "msg_body m")
    case (ToolBody calls)
    with 2 consider "n = 1" | j where "1 \<le> j" "j \<le> length ms" "n = Suc k + 1 + j"
      "\<forall>i \<in> set (w @ map tc_id calls). answered_in i (take j ms)" "calls_answered (take j ms)"
      by auto
    then show ?thesis
    proof cases
      case (2 j)
      with ToolBody show ?thesis
        by (intro disjI2 exI [of _ "Suc j"])
          (auto simp: calls_answered_Cons call_ids_def intro: answered_in_Cons)
    qed simp
  next
    case (Content c)
    then have none: "call_ids m = []" by (simp add: call_ids_def)
    show ?thesis
    proof (cases "msg_tool_call_id m")
      case None
      with 2 Content consider "n = 1" | j where "1 \<le> j" "j \<le> length ms" "n = Suc k + 1 + j"
        "\<forall>i \<in> set w. answered_in i (take j ms)" "calls_answered (take j ms)"
        by auto
      then show ?thesis
      proof cases
        case (2 j)
        with none show ?thesis
          by (intro disjI2 exI [of _ "Suc j"])
            (auto simp: calls_answered_Cons intro: answered_in_Cons)
      qed simp
    next
      case (Some i)
      let ?w = "filter (\<lambda>a. a \<noteq> i) w"
      show ?thesis
      proof (cases "?w = []")
        case True
        then have "\<forall>a \<in> set w. a = i" by (simp add: filter_empty_conv)
        with True 2 Content Some none show ?thesis
          by (intro disjI2 exI [of _ 1])
            (auto simp: Let_def answered_in_def calls_answered_def)
      next
        case False
        have "round_scan ?w (Suc k) ms = n"
          using 2(4) Content Some False by (simp add: Let_def)
        from "2.IH"(2) [OF Content Some refl False this]
        consider "n = 1" | j where "1 \<le> j" "j \<le> length ms"
          "n = Suc k + 1 + j" "\<forall>a \<in> set ?w. answered_in a (take j ms)" "calls_answered (take j ms)"
          by auto
        then show ?thesis
        proof cases
          case (2 j)
          have "answered_in a (m # take j ms)" if "a \<in> set w" for a
          proof (cases "a = i")
            case True
            with Some none show ?thesis by (auto simp: answered_in_def)
          next
            case False
            with that 2 show ?thesis by (auto intro: answered_in_Cons)
          qed
          with 2 none show ?thesis
            by (intro disjI2 exI [of _ "Suc j"]) (auto simp: calls_answered_Cons)
        qed simp
      qed
    qed
  qed
qed

lemma round_len_out_of_range: "length ms \<le> at \<Longrightarrow> round_len ms at = 0"
  by (simp add: round_len_def)

lemma round_len_bounds:
  assumes "at < length ms"
  shows "1 \<le> round_len ms at \<and> at + round_len ms at \<le> length ms"
proof (cases "msg_body (ms ! at)")
  case (ToolBody calls)
  from round_scan_closed [OF refl, of "map tc_id calls" 0 "drop (at + 1) ms"] assms ToolBody
  show ?thesis by (auto simp: round_len_def)
qed (use assms in \<open>simp add: round_len_def\<close>)

text \<open>
  The span measured for a tool round stays inside the conversation and is closed: when it
  is longer than the opening message, every call made anywhere in the span, including calls
  that joined later, is answered further on in the same span.  Removing such a span therefore
  leaves no dangling call or result of its own.
\<close>

lemma round_len_closed:
  assumes "at < length ms" "n = round_len ms at"
  shows "1 \<le> n \<and> at + n \<le> length ms \<and> (1 < n \<longrightarrow> calls_answered (take n (drop at ms)))"
proof -
  have "calls_answered (take n (drop at ms))" if "1 < n"
  proof (cases "msg_body (ms ! at)")
    case (ToolBody calls)
    with assms that round_scan_closed [OF refl, of "map tc_id calls" 0 "drop (at + 1) ms"]
    obtain j where j: "n = 1 + j" "\<forall>i \<in> set (map tc_id calls). answered_in i (take j (drop (at + 1) ms))"
      "calls_answered (take j (drop (at + 1) ms))"
      by (auto simp: round_len_def)
    moreover have "take n (drop at ms) = ms ! at # take j (drop (at + 1) ms)"
      using assms(1) j(1) by (simp add: Cons_nth_drop_Suc [symmetric])
    ultimately show ?thesis using ToolBody by (simp add: calls_answered_Cons call_ids_def)
  qed (use assms that in \<open>simp add: round_len_def\<close>)
  with round_len_bounds [OF assms(1)] assms(2) show ?thesis by simp
qed

definition sample_call :: message where
  "sample_call = assistant_tool_calls [\<lparr>tc_id = ''a'', tc_type = ''function'',
     tc_function = \<lparr>fd_description = None, fd_name = ''ls'', fd_arguments = JNull\<rparr>\<rparr>]"

lemma round_len_closed_witness:
  "round_len [user_msg ''q'', sample_call, tool_result_for ''a'' ''out''] 1 = 2
   \<and> calls_answered (take 2 (drop 1 [user_msg ''q'', sample_call, tool_result_for ''a'' ''out'']))"
  using round_len_closed [of 1 "[user_msg ''q'', sample_call, tool_result_for ''a'' ''out'']" 2]
  by (simp add: round_len_def sample_call_def message_constructor_defs)

end
