(* ===== verification/OrdMap.thy ===== *)
theory OrdMap
  imports Prelude "HOL-Library.List_Lexorder" "HOL-Library.Char_ord"
begin

text \<open>
  \<^verbatim>\<open>BTreeMap\<close> as the sources use it: a key-sorted association list, with the interface its
  clients rely on stated as the locale \<open>finite_map\<close>.  Strings are compared byte by byte.
\<close>

type_synonym ('k, 'v) btree_map = "('k \<times> 'v) list"

fun bt_insert :: "'k::linorder \<Rightarrow> 'v \<Rightarrow> ('k, 'v) btree_map \<Rightarrow> ('k, 'v) btree_map" where
  "bt_insert k v [] = [(k, v)]"
| "bt_insert k v ((a, b) # xs) =
     (if k < a then (k, v) # (a, b) # xs
      else if k = a then (k, v) # xs
      else (a, b) # bt_insert k v xs)"

definition bt_remove :: "'k::linorder \<Rightarrow> ('k, 'v) btree_map \<Rightarrow> ('k, 'v) btree_map" where
  "bt_remove k xs = filter (\<lambda>p. fst p \<noteq> k) xs"

definition bt_wf :: "('k::linorder, 'v) btree_map \<Rightarrow> bool" where
  "bt_wf xs \<longleftrightarrow> sorted_wrt (<) (map fst xs)"

locale finite_map =
  fixes emp :: "'m"
    and ins :: "'k \<Rightarrow> 'v \<Rightarrow> 'm \<Rightarrow> 'm"
    and del :: "'k \<Rightarrow> 'm \<Rightarrow> 'm"
    and look :: "'m \<Rightarrow> 'k \<Rightarrow> 'v option"
    and wf :: "'m \<Rightarrow> bool"
  assumes wf_emp: "wf emp"
    and wf_ins: "wf m \<Longrightarrow> wf (ins k v m)"
    and wf_del: "wf m \<Longrightarrow> wf (del k m)"
    and look_emp: "look emp = Map.empty"
    and look_ins: "wf m \<Longrightarrow> look (ins k v m) = (look m)(k \<mapsto> v)"
    and look_del: "wf m \<Longrightarrow> look (del k m) = (look m)(k := None)"
begin

text \<open>A log of writes (\<open>Some v\<close> stores, \<open>None\<close> deletes): folding it in, the last write wins.\<close>

definition put :: "'k \<times> 'v option \<Rightarrow> 'm \<Rightarrow> 'm" where
  "put w m = (case w of (k, Some v) \<Rightarrow> ins k v m | (k, None) \<Rightarrow> del k m)"

lemma wf_put: "wf m \<Longrightarrow> wf (put w m)"
  by (auto simp: put_def wf_ins wf_del split: prod.splits option.splits)

lemma look_put: "wf m \<Longrightarrow> look (put w m) = (look m)(fst w := snd w)"
  by (auto simp: put_def look_ins look_del split: prod.splits option.splits)

lemma wf_fold_put: "wf m \<Longrightarrow> wf (fold put ws m)"
  by (induction ws arbitrary: m) (auto simp: wf_put)

lemma last_write_wins:
  "wf m \<Longrightarrow> look (fold put ws m) k =
     (case List.find (\<lambda>w. fst w = k) (rev ws) of None \<Rightarrow> look m k | Some w \<Rightarrow> snd w)"
proof (induction ws rule: rev_induct)
  case (snoc w ws)
  then show ?case by (auto simp: look_put wf_fold_put split: option.splits)
qed simp

end

lemma bt_insert_keys: "set (map fst (bt_insert k v xs)) = insert k (set (map fst xs))"
  by (induction k v xs rule: bt_insert.induct) auto

lemma bt_wf_insert: "bt_wf xs \<Longrightarrow> bt_wf (bt_insert k v xs)"
proof (induction k v xs rule: bt_insert.induct)
  case (2 k v a b xs)
  then have "bt_wf (bt_insert k v xs)" if "\<not> k < a" "k \<noteq> a"
    using that by (simp add: bt_wf_def)
  moreover have "\<forall>x \<in> set (map fst (bt_insert k v xs)). a < x" if "a < k"
    using 2(2) that by (auto simp: bt_wf_def bt_insert_keys simp del: set_map)
  ultimately show ?case using 2(2) by (force simp: bt_wf_def)
qed (simp add: bt_wf_def)

lemma bt_wf_remove: "bt_wf xs \<Longrightarrow> bt_wf (bt_remove k xs)"
  by (induction xs) (auto simp: bt_wf_def bt_remove_def)

lemma map_of_above: "\<forall>x \<in> set (map fst xs). k < x \<Longrightarrow> map_of xs (k :: 'k::linorder) = None"
  by (auto simp: map_of_eq_None_iff)

lemma map_of_bt_insert: "map_of (bt_insert k v xs) = (map_of xs)(k \<mapsto> v)"
  by (induction k v xs rule: bt_insert.induct) (auto simp: fun_eq_iff)

lemma map_of_bt_remove: "map_of (bt_remove k xs) = (map_of xs)(k := None)"
  by (induction xs) (auto simp: bt_remove_def fun_eq_iff)

interpretation bt: finite_map "[]" bt_insert bt_remove map_of bt_wf
  by unfold_locales
    (simp_all add: bt_wf_insert bt_wf_remove map_of_bt_insert map_of_bt_remove,
     simp add: bt_wf_def)

lemma bt_wf_distinct: "bt_wf xs \<Longrightarrow> distinct (map fst xs)"
  by (simp add: bt_wf_def strict_sorted_iff)

text \<open>Two well-formed maps with the same contents are the same list.\<close>

lemma bt_wf_unique: "bt_wf xs \<Longrightarrow> bt_wf ys \<Longrightarrow> map_of xs = map_of ys \<Longrightarrow> xs = ys"
proof (induction xs arbitrary: ys)
  case Nil
  then show ?case by (cases ys) (auto simp: fun_eq_iff split: if_splits)
next
  case (Cons p xs)
  obtain k v where p: "p = (k, v)" by fastforce
  from Cons.prems(3) have "map_of ys k = Some v" unfolding p by (metis map_of_Cons_code(2))
  then obtain k' v' ys' where ys: "ys = (k', v') # ys'" by (cases ys) auto
  have k': "\<forall>x \<in> set (map fst ys'). k' < x" and wys: "bt_wf ys'"
    using Cons.prems(2) by (auto simp: bt_wf_def ys)
  have k: "\<forall>x \<in> set (map fst xs). k < x" and wxs: "bt_wf xs"
    using Cons.prems(1) by (auto simp: bt_wf_def p)
  have eq: "map_of ((k, v) # xs) a = map_of ((k', v') # ys') a" for a
    using fun_cong [OF Cons.prems(3), of a] unfolding p ys by blast
  have "k = k'"
  proof (rule linorder_cases [of k k'])
    assume "k < k'"
    with k' have "map_of ((k', v') # ys') k = None" using map_of_above [of ys' k] by force
    with eq [of k] show ?thesis by simp
  next
    assume "k' < k"
    with k have "map_of ((k, v) # xs) k' = None" using map_of_above [of xs k'] by force
    with eq [of k'] show ?thesis by simp
  qed
  moreover from this eq [of k] have "v = v'" by simp
  moreover have "map_of xs = map_of ys'"
  proof
    fix a
    show "map_of xs a = map_of ys' a"
      using eq [of a] \<open>k = k'\<close> map_of_above [OF k] map_of_above [OF k'] by (cases "a = k") auto
  qed
  ultimately show ?case using Cons.IH wxs wys by (simp add: p ys)
qed

end
