(* ===== verification/Scratch.thy ===== *)
theory Scratch
  imports OrdMap Journal
begin

text \<open>
  The agent's notes (\<^verbatim>\<open>src/journal/scratch.rs\<close>): an ordered map that is a fold of the
  journal, its laws taken from the interface \<^verbatim>\<open>finite_map\<close>.
\<close>

type_synonym scratch = "(string, string) btree_map"

fun scratch_apply :: "journal_entry \<Rightarrow> scratch \<Rightarrow> scratch" where
  "scratch_apply (ScratchSet k v) s = bt_insert k v s"
| "scratch_apply (ScratchDelete k) s = bt_remove k s"
| "scratch_apply _ s = s"

definition scratch_replay :: "jrecord list \<Rightarrow> scratch" where
  "scratch_replay rs = fold (\<lambda>r. scratch_apply (rec_entry r)) rs []"

definition scratch_get :: "scratch \<Rightarrow> string \<Rightarrow> string option" where
  "scratch_get s k = map_of s k"

definition scratch_keys :: "scratch \<Rightarrow> string list" where
  "scratch_keys s = map fst s"

definition scratch_len :: "scratch \<Rightarrow> nat" where
  "scratch_len s = length s"

definition scratch_is_empty :: "scratch \<Rightarrow> bool" where
  "scratch_is_empty s \<longleftrightarrow> s = []"

definition to_prompt :: "scratch \<Rightarrow> string" where
  "to_prompt s =
     (if s = [] then []
      else ''Your notes:'' @ [nl] @
        concat (map (\<lambda>(k, v). [nl] @ ''## '' @ k @ [nl] @ v @ [nl]) s))"

definition scratch_set :: "string \<Rightarrow> string \<Rightarrow> journal_entry" where
  "scratch_set k v = ScratchSet k v"

definition scratch_delete :: "string \<Rightarrow> journal_entry" where
  "scratch_delete k = ScratchDelete k"

section \<open>The fold and its specification\<close>

text \<open>The write an entry stands for, if any.\<close>

fun entry_write :: "journal_entry \<Rightarrow> (string \<times> string option) option" where
  "entry_write (ScratchSet k v) = Some (k, Some v)"
| "entry_write (ScratchDelete k) = Some (k, None)"
| "entry_write _ = None"

definition last_write :: "string \<Rightarrow> journal_entry list \<Rightarrow> string option" where
  "last_write k es =
     (case List.find (\<lambda>w. fst w = k) (rev (List.map_filter entry_write es)) of
        None \<Rightarrow> None | Some w \<Rightarrow> snd w)"

lemma scratch_apply_put:
  "scratch_apply e s = (case entry_write e of None \<Rightarrow> s | Some w \<Rightarrow> bt.put w s)"
  by (cases e) (simp_all add: bt.put_def)

lemma fold_apply_put:
  "fold scratch_apply es s = fold bt.put (List.map_filter entry_write es) s"
  by (induction es arbitrary: s) (auto simp: scratch_apply_put map_filter_simps split: option.splits)

lemma scratch_replay_entries: "scratch_replay rs = fold scratch_apply (map rec_entry rs) []"
  by (simp add: scratch_replay_def fold_map comp_def)

lemma scratch_replay_append:
  "scratch_replay (rs @ rs') = fold scratch_apply (map rec_entry rs') (scratch_replay rs)"
  by (simp add: scratch_replay_entries)

lemma scratch_wf: "bt_wf (scratch_replay rs)"
  by (simp add: scratch_replay_entries fold_apply_put bt.wf_fold_put bt.wf_emp)

text \<open>
  The notes rebuilt from a journal hold, under every key, the last value written to it
  and nothing if its last mutation was a delete or there was none; entries that are not notes
  are without effect, and the keys are listed in strictly increasing order.
\<close>

lemma scratch_replay_last_write:
  "scratch_get (scratch_replay rs) k = last_write k (map rec_entry rs)
   \<and> sorted_wrt (<) (scratch_keys (scratch_replay rs))"
  using bt.last_write_wins [OF bt.wf_emp, of "List.map_filter entry_write (map rec_entry rs)" k]
    scratch_wf [of rs]
  by (simp add: scratch_get_def last_write_def scratch_replay_entries fold_apply_put
      scratch_keys_def bt_wf_def split: option.splits)

end
