(* ===== verification/Projection.thy ===== *)
theory Projection
  imports Turn
begin

text \<open>
  Projections (\<^verbatim>\<open>src/journal/projection.rs\<close>): which turns of the journal the model is
  shown.  A projection is its \<^verbatim>\<open>keep\<close> function; \<open>project\<close> is the provided method.
\<close>

definition project :: "(turn list \<Rightarrow> turn list) \<Rightarrow> jrecord list \<Rightarrow> message list" where
  "project keep rs = concat (map turn_messages (keep (turn_group rs)))"

text \<open>
  \<open>recent_loop\<close> is the loop of \<^verbatim>\<open>RecentTurns::keep\<close> over the reversed turns: \<open>kept\<close> and
  \<open>spent\<close> as in the source, \<^verbatim>\<open>break\<close> returning what was kept.
\<close>

fun recent_loop :: "nat \<Rightarrow> turn list \<Rightarrow> nat \<Rightarrow> turn list \<Rightarrow> turn list" where
  "recent_loop budget kept spent [] = kept"
| "recent_loop budget kept spent (t # ts) =
     (if \<not> turn_conversational t then recent_loop budget kept spent ts
      else let cost = estimated_tokens t in
        if spent + cost > budget \<and> kept \<noteq> [] then kept
        else recent_loop budget (kept @ [t]) (spent + cost) ts)"

definition recent_turns :: "nat \<Rightarrow> turn list \<Rightarrow> turn list" where
  "recent_turns budget turns = rev (recent_loop budget [] 0 (rev turns))"

definition everything :: "turn list \<Rightarrow> turn list" where
  "everything turns = filter turn_conversational turns"

definition with_preamble ::
  "message list \<Rightarrow> (jrecord list \<Rightarrow> message list) \<Rightarrow> jrecord list \<Rightarrow> message list" where
  "with_preamble preamble inner rs = preamble @ inner rs"

section \<open>The budgeted suffix\<close>

abbreviation cost_of :: "turn list \<Rightarrow> nat" where
  "cost_of ts \<equiv> sum_list (map estimated_tokens ts)"

text \<open>
  What the loop keeps is a prefix of the conversational turns it is given, of which it takes
  as many as fit, and at least one.
\<close>

definition fits :: "nat \<Rightarrow> nat \<Rightarrow> turn list \<Rightarrow> turn list \<Rightarrow> bool" where
  "fits budget spent given taken \<longleftrightarrow>
     prefix taken given \<and> (taken \<noteq> [] \<longrightarrow> spent + cost_of taken \<le> budget)
     \<and> (\<forall>t rest. given = taken @ t # rest \<longrightarrow> budget < spent + cost_of taken + estimated_tokens t)"

lemma recent_loop_nonempty:
  assumes "kept \<noteq> []"
  shows "\<exists>taken. recent_loop budget kept spent ts = kept @ taken
      \<and> fits budget spent (filter turn_conversational ts) taken"
  using assms
proof (induction budget kept spent ts rule: recent_loop.induct)
  case (1 budget kept spent)
  then show ?case by (simp add: fits_def)
next
  case (2 budget kept spent t ts)
  show ?case
  proof (cases "turn_conversational t")
    case False
    with 2 show ?thesis by simp
  next
    case conv: True
    show ?thesis
    proof (cases "spent + estimated_tokens t > budget")
      case True
      with conv 2 show ?thesis by (auto simp: fits_def Let_def)
    next
      case False
      with conv 2 obtain taken where
        "recent_loop budget (kept @ [t]) (spent + estimated_tokens t) ts = (kept @ [t]) @ taken"
        "fits budget (spent + estimated_tokens t) (filter turn_conversational ts) taken"
        by (auto simp: Let_def)
      with conv False 2(3) show ?thesis
        by (intro exI [of _ "t # taken"]) (auto simp: fits_def Let_def)
    qed
  qed
qed

lemma recent_loop_first:
  "\<exists>taken. recent_loop budget [] 0 ts = taken
     \<and> (filter turn_conversational ts = [] \<longrightarrow> taken = [])
     \<and> (\<forall>t rest. filter turn_conversational ts = t # rest \<longrightarrow>
          (\<exists>more. taken = t # more \<and> fits budget (estimated_tokens t) rest more))"
proof (induction ts)
  case (Cons t ts)
  show ?case
  proof (cases "turn_conversational t")
    case True
    then show ?thesis
      using recent_loop_nonempty [of "[t]" budget "estimated_tokens t" ts] by (simp add: Let_def)
  qed (use Cons in auto)
qed simp

text \<open>
  The default projection keeps a suffix of the conversational turns, newest last, so the
  transcript has no gap.  It is empty only if there is no conversational turn, it stays within
  the token budget unless a single turn alone exceeds it, and it is the longest such suffix:
  the next older turn would not have fitted.
\<close>

lemma recent_turns_suffix:
  "\<exists>dropped. everything turns = dropped @ recent_turns budget turns
     \<and> (recent_turns budget turns = [] \<longrightarrow> everything turns = [])
     \<and> (cost_of (recent_turns budget turns) \<le> budget \<or> length (recent_turns budget turns) = 1)
     \<and> (dropped \<noteq> [] \<longrightarrow>
          budget < cost_of (recent_turns budget turns) + estimated_tokens (last dropped))"
proof (cases "rev (everything turns)")
  case Nil
  then have "recent_turns budget turns = []"
    using recent_loop_first [of budget "rev turns"]
    by (auto simp: recent_turns_def everything_def rev_filter [symmetric])
  with Nil show ?thesis by simp
next
  case (Cons t rest)
  then have f: "filter turn_conversational (rev turns) = t # rest"
    by (simp add: everything_def rev_filter)
  with recent_loop_first [of budget "rev turns"] obtain more where
    l: "recent_loop budget [] 0 (rev turns) = t # more" and m: "fits budget (estimated_tokens t) rest more"
    by auto
  then obtain older where rest: "rest = more @ older" by (auto simp: fits_def prefix_def)
  have r: "recent_turns budget turns = rev more @ [t]" using l by (simp add: recent_turns_def)
  have "everything turns = rev older @ recent_turns budget turns"
    using Cons rest r by (simp add: rev_swap)
  moreover have "cost_of (recent_turns budget turns) \<le> budget \<or> length (recent_turns budget turns) = 1"
    using m r by (cases more) (auto simp: fits_def rev_map [symmetric] max_def split: if_splits)
  moreover have "budget < cost_of (recent_turns budget turns) + estimated_tokens (last (rev older))"
    if nonempty: "older \<noteq> []"
  proof -
    obtain o1 o2 where "older = o1 # o2" using nonempty by (cases older) auto
    with m rest r show ?thesis by (auto simp: fits_def rev_map [symmetric] add_ac)
  qed
  ultimately show ?thesis using r by (intro exI [of _ "rev older"]) auto
qed

abbreviation message_tokens :: "message \<Rightarrow> nat" where
  "message_tokens m \<equiv> length (message_text m) div 4 + 4"

lemma cost_of_messages: "cost_of ts = sum_list (map message_tokens (concat (map turn_messages ts)))"
  by (induction ts) (simp_all add: estimated_tokens_def)

text \<open>
  C37: The transcript shown under a token budget.  The turns of the journal that hold
  conversation are a dropped beginning followed by what is shown, so the transcript is the
  journal's newest part without a gap: exactly the messages of the shown turns' records.  Its
  estimated tokens stay within the budget unless it is a single turn that alone exceeds it, it
  is empty only if no turn holds conversation, and it is the longest such transcript: with the
  next older turn it would exceed the budget.
\<close>

theorem transcript_within_budget:
  "\<exists>dropped shown. filter turn_conversational (turn_group rs) = dropped @ shown
     \<and> project (recent_turns budget) rs = concat (map to_messages (concat shown))
     \<and> (shown = [] \<longrightarrow> filter turn_conversational (turn_group rs) = [])
     \<and> (sum_list (map message_tokens (project (recent_turns budget) rs)) \<le> budget
          \<or> length shown = 1)
     \<and> (dropped \<noteq> [] \<longrightarrow>
          budget < sum_list (map message_tokens (project (recent_turns budget) rs))
                     + sum_list (map message_tokens (turn_messages (last dropped))))"
proof -
  let ?shown = "recent_turns budget (turn_group rs)"
  obtain dropped where d: "everything (turn_group rs) = dropped @ ?shown"
    "?shown = [] \<longrightarrow> everything (turn_group rs) = []"
    "cost_of ?shown \<le> budget \<or> length ?shown = 1"
    "dropped \<noteq> [] \<longrightarrow> budget < cost_of ?shown + estimated_tokens (last dropped)"
    using recent_turns_suffix [of "turn_group rs" budget] by blast
  have "concat (map turn_messages ts) = concat (map to_messages (concat ts))" for ts
    by (induction ts) (simp_all add: turn_messages_def)
  then have "project (recent_turns budget) rs = concat (map to_messages (concat ?shown))"
    by (simp add: project_def)
  moreover have "sum_list (map message_tokens (project (recent_turns budget) rs)) = cost_of ?shown"
    by (simp only: cost_of_messages project_def)
  moreover have "estimated_tokens (last dropped) = sum_list (map message_tokens (turn_messages (last dropped)))"
    by (simp add: estimated_tokens_def)
  ultimately show ?thesis
    using d unfolding everything_def by (intro exI [of _ dropped] exI [of _ ?shown]) simp
qed

definition sample_says :: "nat \<Rightarrow> string \<Rightarrow> jrecord" where
  "sample_says n t = \<lparr>rec_id = n, rec_at = 0, rec_entry = AssistantEntry (user_msg t)\<rparr>"

lemma sample_transcript:
  "project (recent_turns 6) [sample_says 0 ''a'', sample_says 1 ''b''] = [user_msg ''b'']"
  by code_simp

lemma transcript_within_budget_witness:
  "\<exists>dropped shown.
       filter turn_conversational (turn_group [sample_says 0 ''a'', sample_says 1 ''b''])
         = dropped @ shown
     \<and> [user_msg ''b''] = concat (map to_messages (concat shown)) \<and> shown \<noteq> []
     \<and> (sum_list (map message_tokens [user_msg ''b'']) \<le> 6 \<or> length shown = 1)
     \<and> (dropped \<noteq> [] \<longrightarrow>
          6 < sum_list (map message_tokens [user_msg ''b''])
                + sum_list (map message_tokens (turn_messages (last dropped))))"
proof -
  have "filter turn_conversational (turn_group [sample_says 0 ''a'', sample_says 1 ''b'']) \<noteq> []"
    by code_simp
  with transcript_within_budget [of "[sample_says 0 ''a'', sample_says 1 ''b'']" 6]
  show ?thesis unfolding sample_transcript by blast
qed

end
