(* ===== verification/Wake.thy ===== *)
theory Wake
  imports Journal
begin

text \<open>
  When a persistent agent runs (\<^verbatim>\<open>src/journal/wake.rs\<close>): a state machine the caller ticks
  with a clock.  Instants and durations are nanoseconds; the idle counter is a \<^verbatim>\<open>u32\<close>, its
  increment wrapping.
\<close>

definition min_interval :: nat where
  "min_interval = 60 * 10 ^ 9"

record heartbeat =
  hb_interval :: nat
  hb_idle_after :: "nat option"

definition heartbeat_every :: "nat \<Rightarrow> heartbeat" where
  "heartbeat_every interval = \<lparr>hb_interval = max interval min_interval, hb_idle_after = Some 5\<rparr>"

definition heartbeat_idle_after :: "nat \<Rightarrow> heartbeat \<Rightarrow> heartbeat" where
  "heartbeat_idle_after wakes h = h\<lparr>hb_idle_after := Some wakes\<rparr>"

definition heartbeat_never_bored :: "heartbeat \<Rightarrow> heartbeat" where
  "heartbeat_never_bored h = h\<lparr>hb_idle_after := None\<rparr>"

datatype declined = TooSoon | Busy | Bored

record wake_scheduler =
  ws_heartbeat :: heartbeat
  ws_last_wake :: "nat option"
  ws_pending :: "wake_reason option"
  ws_busy :: bool
  ws_idle_wakes :: nat

definition wake_new :: "heartbeat \<Rightarrow> wake_scheduler" where
  "wake_new h = \<lparr>ws_heartbeat = h, ws_last_wake = None, ws_pending = None, ws_busy = False,
                 ws_idle_wakes = 0\<rparr>"

definition began_running :: "wake_scheduler \<Rightarrow> wake_scheduler" where
  "began_running s = s\<lparr>ws_busy := True\<rparr>"

definition finished_running :: "bool \<Rightarrow> wake_scheduler \<Rightarrow> wake_scheduler" where
  "finished_running did_something s =
     (let s' = s\<lparr>ws_busy := False\<rparr> in if did_something then s'\<lparr>ws_idle_wakes := 0\<rparr> else s')"

definition wake_request :: "wake_reason \<Rightarrow> wake_scheduler \<Rightarrow> wake_scheduler" where
  "wake_request reason s = s\<lparr>ws_idle_wakes := 0, ws_pending := Some reason\<rparr>"

text \<open>\<^verbatim>\<open>Instant::duration_since\<close> saturates at zero, as subtraction on \<^typ>\<open>nat\<close> does.\<close>

definition due :: "nat \<Rightarrow> wake_scheduler \<Rightarrow> bool" where
  "due now s \<longleftrightarrow>
     (case ws_last_wake s of None \<Rightarrow> True | Some prev \<Rightarrow> hb_interval (ws_heartbeat s) \<le> now - prev)"

definition is_bored :: "wake_scheduler \<Rightarrow> bool" where
  "is_bored s \<longleftrightarrow>
     (case hb_idle_after (ws_heartbeat s) of None \<Rightarrow> False | Some limit \<Rightarrow> limit \<le> ws_idle_wakes s)"

definition wake_poll :: "nat \<Rightarrow> wake_scheduler \<Rightarrow> (declined + wake_reason) \<times> wake_scheduler" where
  "wake_poll now s =
     (if ws_busy s then
        (Inl Busy,
         if ws_pending s = None \<and> due now s
         then s\<lparr>ws_pending := Some WakeHeartbeat, ws_last_wake := Some now\<rparr> else s)
      else case ws_pending s of
        Some reason \<Rightarrow> (Inr reason, s\<lparr>ws_pending := None, ws_last_wake := Some now\<rparr>)
      | None \<Rightarrow>
          if is_bored s then (Inl Bored, s)
          else if \<not> due now s then (Inl TooSoon, s)
          else (Inr WakeHeartbeat,
                s\<lparr>ws_last_wake := Some now,
                  ws_idle_wakes := (ws_idle_wakes s + 1) mod 2 ^ 32\<rparr>))"

lemmas wake_defs = began_running_def finished_running_def wake_request_def due_def is_bored_def
  wake_poll_def

section \<open>Runs\<close>

datatype wake_event =
    Poll nat
  | Request wake_reason
  | Finished bool

text \<open>
  One event of the agent loop: a poll that says run is followed by the start of the run.  The
  log lists the runs that were started, with their time.
\<close>

fun wake_step :: "wake_event \<Rightarrow> wake_scheduler \<times> (nat \<times> wake_reason) list
    \<Rightarrow> wake_scheduler \<times> (nat \<times> wake_reason) list" where
  "wake_step (Poll now) (s, runs) =
     (case wake_poll now s of
        (Inr reason, s') \<Rightarrow> (began_running s', runs @ [(now, reason)])
      | (Inl _, s') \<Rightarrow> (s', runs))"
| "wake_step (Request r) (s, runs) = (wake_request r s, runs)"
| "wake_step (Finished b) (s, runs) = (finished_running b s, runs)"

definition wake_run :: "wake_event list \<Rightarrow> wake_scheduler \<Rightarrow> wake_scheduler \<times> (nat \<times> wake_reason) list" where
  "wake_run es s = fold wake_step es (s, [])"

lemma fold_wake_step_runs:
  "fold wake_step es (s, runs) = (fst (wake_run es s), runs @ snd (wake_run es s))"
proof -
  have "fold wake_step es (s, runs @ runs') = (fst (fold wake_step es (s, runs')),
      runs @ snd (fold wake_step es (s, runs')))" for runs'
  proof (induction es arbitrary: s runs')
    case (Cons e es)
    show ?case
    proof (cases e)
      case (Poll now)
      with Cons show ?thesis by (cases "wake_poll now s") (auto split: sum.splits)
    qed (use Cons in auto)
  qed simp
  from this [of "[]"] show ?thesis by (simp add: wake_run_def)
qed

lemma wake_run_Cons:
  "wake_run (e # es) s = (fst (wake_run es (fst (wake_step e (s, [])))),
     snd (wake_step e (s, [])) @ snd (wake_run es (fst (wake_step e (s, [])))))"
  using fold_wake_step_runs [of es "fst (wake_step e (s, []))" "snd (wake_step e (s, []))"]
  by (simp add: wake_run_def)

lemma wake_run_Nil [simp]: "wake_run [] s = (s, [])"
  by (simp add: wake_run_def)

lemma wake_run_append:
  "wake_run (es @ es') s = (fst (wake_run es' (fst (wake_run es s))),
     snd (wake_run es s) @ snd (wake_run es' (fst (wake_run es s))))"
  by (induction es arbitrary: s) (simp_all add: wake_run_Cons)

lemma heartbeat_unchanged [simp]: "ws_heartbeat (fst (wake_run es s)) = ws_heartbeat s"
proof (induction es arbitrary: s)
  case (Cons e es)
  then show ?case
    by (cases e) (auto simp: wake_run_Cons wake_defs Let_def split: option.splits)
qed simp

abbreviation is_poll :: "wake_event \<Rightarrow> bool" where
  "is_poll e \<equiv> (case e of Poll _ \<Rightarrow> True | _ \<Rightarrow> False)"

lemma wake_never_concurrent_busy:
  assumes "ws_busy s" "\<forall>b. Finished b \<notin> set es"
  shows "snd (wake_run es s) = [] \<and> ws_busy (fst (wake_run es s))"
  using assms
proof (induction es arbitrary: s)
  case (Cons e es)
  from Cons.prems have "snd (wake_step e (s, [])) = []" "ws_busy (fst (wake_step e (s, [])))"
    by (cases e; auto simp: wake_defs)+
  with Cons show ?case by (simp add: wake_run_Cons)
qed simp

text \<open>The history of runs: each start with its time and reason, and each report of an end.\<close>

datatype run_mark = RunStarted nat wake_reason | RunEnded

fun wake_history :: "wake_event list \<Rightarrow> wake_scheduler \<Rightarrow> run_mark list" where
  "wake_history [] s = []"
| "wake_history (e # es) s =
     (let (s', runs) = wake_step e (s, []) in
      map (\<lambda>(t, r). RunStarted t r) runs @ (case e of Finished _ \<Rightarrow> [RunEnded] | _ \<Rightarrow> []) @ wake_history es s')"

text \<open>Between two starts there is an end, given whether a run is in progress at the beginning.\<close>

fun one_at_a_time :: "bool \<Rightarrow> run_mark list \<Rightarrow> bool" where
  "one_at_a_time busy [] = True"
| "one_at_a_time busy (RunStarted t r # ms) = (\<not> busy \<and> one_at_a_time True ms)"
| "one_at_a_time busy (RunEnded # ms) = one_at_a_time False ms"

lemma one_at_a_time_between:
  "one_at_a_time busy (xs @ RunStarted t r # ys @ RunStarted t' r' # zs) \<Longrightarrow> RunEnded \<in> set ys"
proof (induction xs arbitrary: busy)
  case Nil
  have "one_at_a_time True (ys @ RunStarted t' r' # zs) \<Longrightarrow> RunEnded \<in> set ys"
  proof (induction ys)
    case (Cons m ys)
    then show ?case by (cases m) auto
  qed simp
  with Nil show ?case by simp
next
  case (Cons m xs)
  then show ?case by (cases m) auto
qed

lemma step_marks:
  assumes "wake_step e (s, []) = (s', runs)"
  shows "one_at_a_time (ws_busy s) (map (\<lambda>(t, r). RunStarted t r) runs @ (case e of Finished _ \<Rightarrow> [RunEnded] | _ \<Rightarrow> []) @ ms)
    \<longleftrightarrow> one_at_a_time (ws_busy s') ms"
  using assms by (cases e) (auto simp: wake_defs Let_def split: if_splits option.splits)

lemma history_ok: "one_at_a_time (ws_busy s) (wake_history es s)"
proof (induction es arbitrary: s)
  case (Cons e es)
  obtain s' runs where e: "wake_step e (s, []) = (s', runs)" by fastforce
  from Cons.IH [of s'] show ?case by (simp add: e step_marks [OF e])
qed simp

fun starts :: "run_mark list \<Rightarrow> (nat \<times> wake_reason) list" where
  "starts [] = []"
| "starts (RunStarted t r # ms) = (t, r) # starts ms"
| "starts (RunEnded # ms) = starts ms"

lemma starts_append: "starts (xs @ ys) = starts xs @ starts ys"
  by (induction xs rule: starts.induct) auto

lemma history_starts: "starts (wake_history es s) = snd (wake_run es s)"
proof (induction es arbitrary: s)
  case (Cons e es)
  obtain s' runs where e: "wake_step e (s, []) = (s', runs)" by fastforce
  have "starts (map (\<lambda>(t, r). RunStarted t r) runs) = runs" by (induction runs) auto
  moreover have "starts (case e of Finished _ \<Rightarrow> [RunEnded] | _ \<Rightarrow> []) = []" by (cases e) simp_all
  ultimately show ?case
    unfolding wake_history.simps wake_run_Cons e by (simp add: starts_append Cons.IH)
qed simp

text \<open>
  C29: Never two runs at once. Let a new scheduler be polled, asked for attention and told of ends in any
  order and at any times: between any two runs that its polls start, the end of a run was reported. The
  runs of the history are those of the scheduler's log.\<close>

theorem wake_never_concurrent:
  assumes "wake_history es (wake_new h) = xs @ RunStarted t r # ys @ RunStarted t' r' # zs"
  shows "RunEnded \<in> set ys
    \<and> starts (wake_history es (wake_new h)) = snd (wake_run es (wake_new h))"
  using history_ok [of "wake_new h" es] one_at_a_time_between [of "ws_busy (wake_new h)" xs t r ys t' r' zs]
    history_starts [of es "wake_new h"] assms
  by simp

lemma wake_never_concurrent_witness:
  "wake_history [Poll 0, Request WakeUser, Poll 1, Finished True, Poll 2] (wake_new (heartbeat_every 0))
     = [RunStarted 0 WakeHeartbeat, RunEnded, RunStarted 2 WakeUser]
   \<and> snd (wake_run [Poll 0, Request WakeUser, Poll 1, Finished True, Poll 2] (wake_new (heartbeat_every 0)))
     = [(0, WakeHeartbeat), (2, WakeUser)]"
proof -
  have h: "wake_history [Poll 0, Request WakeUser, Poll 1, Finished True, Poll 2] (wake_new (heartbeat_every 0))
     = [] @ RunStarted 0 WakeHeartbeat # [RunEnded] @ RunStarted 2 WakeUser # []"
    by (simp add: wake_defs wake_new_def heartbeat_every_def min_interval_def Let_def)
  from wake_never_concurrent [OF h] show ?thesis unfolding h by simp
qed

text \<open>
  Busy polls fold into one pending wake: with something pending nothing changes, otherwise the
  first due poll becomes the pending heartbeat.
\<close>

lemma busy_polls_pending:
  assumes "ws_busy s" "ws_pending s = Some r" "\<forall>e \<in> set es. is_poll e"
  shows "wake_run es s = (s, [])"
  using assms
proof (induction es)
  case (Cons e es)
  then obtain now where "e = Poll now" by (cases e) auto
  with Cons show ?case by (simp add: wake_run_Cons wake_poll_def)
qed simp

lemma busy_polls_at_most_one:
  assumes "ws_busy s" "\<forall>e \<in> set es. is_poll e"
  shows "ws_pending s = None \<Longrightarrow> ws_pending (fst (wake_run es s)) \<in> {None, Some WakeHeartbeat}"
  using assms
proof (induction es arbitrary: s)
  case (Cons e es)
  then obtain now where e: "e = Poll now" by (cases e) auto
  show ?case
  proof (cases "due now s")
    case True
    let ?s = "s\<lparr>ws_pending := Some WakeHeartbeat, ws_last_wake := Some now\<rparr>"
    have "wake_run es ?s = (?s, [])" using Cons.prems by (intro busy_polls_pending) auto
    with True e Cons.prems show ?thesis by (simp add: wake_run_Cons wake_poll_def)
  qed (use Cons e in \<open>simp add: wake_run_Cons wake_poll_def\<close>)
qed simp

text \<open>
  Missed heartbeats coalesce.  However many polls fall due while a run is in progress,
  the end of the run is followed by at most one catch-up wake: the first poll afterwards may
  start one run, and when that run ends a poll at the same instant starts none.
\<close>

lemma wake_coalesces:
  assumes "ws_busy s" "ws_pending s = None" "\<forall>e \<in> set es. is_poll e"
    and "0 < hb_interval (ws_heartbeat s)" "ws_pending (fst (wake_run es s)) \<noteq> None"
  shows "snd (wake_run (es @ [Finished b, Poll now, Finished c, Poll now]) s) = [(now, WakeHeartbeat)]"
proof -
  have busy: "ws_busy (fst (wake_run es s))" and none: "snd (wake_run es s) = []"
    using wake_never_concurrent_busy [of s es] assms(1,3) by fastforce+
  have "ws_pending (fst (wake_run es s)) = Some WakeHeartbeat"
    using busy_polls_at_most_one [OF assms(1,3,2)] assms(5) by auto
  with busy none assms(4) show ?thesis
    by (simp add: wake_run_append wake_run_Cons wake_defs Let_def split: option.splits)
qed

lemma wake_coalesces_witness:
  "snd (wake_run ([Poll 1, Poll 2, Poll (2 * min_interval)] @
        [Finished False, Poll 5, Finished False, Poll 5])
      (began_running (wake_new (heartbeat_every 0)))) = [(5, WakeHeartbeat)]"
  by (rule wake_coalesces)
    (simp_all add: wake_new_def heartbeat_every_def min_interval_def wake_run_Cons wake_defs)

text \<open>
  External attention is always honoured next.  After a request, whatever happens while
  the agent is busy short of another request, the first poll after the run ends starts a run
  for that very reason, bored or not.
\<close>

lemma wake_request_honoured:
  assumes "ws_busy s" "\<forall>e \<in> set es. is_poll e"
  shows "snd (wake_run (Request r # es @ [Finished b, Poll now]) s) = [(now, r)]"
proof -
  have "wake_run es (wake_request r s) = (wake_request r s, [])"
    using assms by (intro busy_polls_pending) (auto simp: wake_request_def)
  then show ?thesis
    by (simp add: wake_run_Cons wake_run_append wake_request_def finished_running_def
        wake_poll_def Let_def)
qed

lemma wake_request_honoured_witness:
  "snd (wake_run (Request (WakeExternal ''mail'') # [Poll 3] @ [Finished False, Poll 4])
      (began_running (wake_new (heartbeat_every 0)))) = [(4, WakeExternal ''mail'')]"
  by (rule wake_request_honoured) (simp_all add: began_running_def)

section \<open>Boredom\<close>

text \<open>An idle cycle: one poll, and if it starts a run the run does nothing.\<close>

definition idle_cycles :: "nat list \<Rightarrow> wake_event list" where
  "idle_cycles ts = concat (map (\<lambda>t. [Poll t, Finished False]) ts)"

lemma idle_cycle_step:
  assumes "\<not> ws_busy s" "ws_pending s = None" "hb_idle_after (ws_heartbeat s) = Some n"
    "ws_idle_wakes s \<le> n" "n < 2 ^ 32"
  shows "\<exists>s'. fst (wake_run [Poll t, Finished False] s) = s' \<and> \<not> ws_busy s'
     \<and> ws_pending s' = None \<and> hb_idle_after (ws_heartbeat s') = Some n
     \<and> ws_idle_wakes s' = ws_idle_wakes s + length (snd (wake_run [Poll t, Finished False] s))
     \<and> ws_idle_wakes s' \<le> n"
  using assms by (auto simp: wake_run_Cons wake_defs Let_def)

text \<open>
  An agent with nothing to do stops waking.  With a limit of \<open>n\<close> idle wakes and no
  outside request, polling it at any times whatsoever, with every run ending in nothing done,
  starts at most \<open>n\<close> runs in all.
\<close>

lemma wake_boredom_bound:
  assumes "hb_idle_after h = Some n" "n < 2 ^ 32"
  shows "length (snd (wake_run (idle_cycles ts) (wake_new h))) \<le> n"
proof -
  have "ws_idle_wakes s + length (snd (wake_run (idle_cycles ts) s)) \<le> n"
    if "\<not> ws_busy s" "ws_pending s = None" "hb_idle_after (ws_heartbeat s) = Some n"
      "ws_idle_wakes s \<le> n" for s
    using that
  proof (induction ts arbitrary: s)
    case Nil
    then show ?case by (simp add: idle_cycles_def)
  next
    case (Cons t ts)
    let ?s = "fst (wake_run [Poll t, Finished False] s)"
    from idle_cycle_step [OF Cons.prems assms(2), of t]
    have *: "\<not> ws_busy ?s" "ws_pending ?s = None" "hb_idle_after (ws_heartbeat ?s) = Some n"
      "ws_idle_wakes ?s = ws_idle_wakes s + length (snd (wake_run [Poll t, Finished False] s))"
      "ws_idle_wakes ?s \<le> n"
      by auto
    have "idle_cycles (t # ts) = [Poll t, Finished False] @ idle_cycles ts"
      by (simp add: idle_cycles_def)
    then have "snd (wake_run (idle_cycles (t # ts)) s)
        = snd (wake_run [Poll t, Finished False] s) @ snd (wake_run (idle_cycles ts) ?s)"
      by (simp only: wake_run_append snd_conv)
    with Cons.IH [OF *(1-3,5)] *(4) show ?case by simp
  qed
  from this [of "wake_new h"] assms(1) show ?thesis by (simp add: wake_new_def)
qed

lemma wake_boredom_bound_witness:
  "length (snd (wake_run (idle_cycles [0, 10 ^ 12, 10 ^ 13])
      (wake_new (heartbeat_idle_after 2 (heartbeat_every 0))))) \<le> 2"
  by (rule wake_boredom_bound) (simp_all add: heartbeat_idle_after_def)

text \<open>Runs that each last longer than the interval, polled at every heartbeat.\<close>

fun long_idle_runs :: "nat \<Rightarrow> nat \<Rightarrow> nat \<Rightarrow> wake_event list" where
  "long_idle_runs interval t 0 = []"
| "long_idle_runs interval t (Suc k) =
     [Poll (t + interval), Finished False, Poll (t + interval)]
     @ long_idle_runs interval (t + interval) k"

text \<open>
  The limit does not bind an agent polled while it works.  A heartbeat that falls due
  during a run is queued and started later without being counted, even when the agent is
  already bored; so a schedule of long idle runs goes on for ever and the idle counter never
  moves.
\<close>

lemma coalesced_heartbeats_evade_boredom:
  assumes "ws_busy s" "ws_pending s = None" "ws_last_wake s = Some t"
    and "hb_interval (ws_heartbeat s) = i"
  shows "length (snd (wake_run (long_idle_runs i t k) s)) = k
     \<and> (\<forall>r \<in> set (snd (wake_run (long_idle_runs i t k) s)). snd r = WakeHeartbeat)
     \<and> ws_idle_wakes (fst (wake_run (long_idle_runs i t k) s)) = ws_idle_wakes s"
  using assms
proof (induction k arbitrary: s t)
  case (Suc k)
  let ?es = "[Poll (t + i), Finished False, Poll (t + i)]"
  let ?s = "fst (wake_run ?es s)"
  have run: "snd (wake_run ?es s) = [(t + i, WakeHeartbeat)]"
    and st: "ws_busy ?s" "ws_pending ?s = None" "ws_last_wake ?s = Some (t + i)"
      "hb_interval (ws_heartbeat ?s) = i" "ws_idle_wakes ?s = ws_idle_wakes s"
    using Suc.prems by (simp_all add: wake_run_Cons wake_defs Let_def)
  have "wake_run (long_idle_runs i t (Suc k)) s
      = (fst (wake_run (long_idle_runs i (t + i) k) ?s),
         snd (wake_run ?es s) @ snd (wake_run (long_idle_runs i (t + i) k) ?s))"
    using wake_run_append [of ?es "long_idle_runs i (t + i) k" s] by simp
  with Suc.IH [OF st(1-4)] run st(5) show ?case by simp
qed simp

lemma coalesced_heartbeats_evade_boredom_witness:
  "length (snd (wake_run (long_idle_runs min_interval 0 1000)
      (fst (wake_run [Poll 0] (wake_new (heartbeat_idle_after 1 (heartbeat_every 0))))))) = 1000"
  using coalesced_heartbeats_evade_boredom
    [of "fst (wake_run [Poll 0] (wake_new (heartbeat_idle_after 1 (heartbeat_every 0))))"
      0 min_interval 1000]
  by (simp add: wake_run_Cons wake_new_def heartbeat_idle_after_def heartbeat_every_def wake_defs
      min_interval_def)

text \<open>
  Timer wakes keep their distance.  With nothing pending, a poll that answers with a
  heartbeat comes at least the configured interval after the previous wake, and no
  configuration built by \<^verbatim>\<open>Heartbeat::every\<close> makes that less than a minute.
\<close>

lemma wake_floor:
  assumes "wake_poll now s = (Inr WakeHeartbeat, s')" "ws_pending s = None"
    and "ws_last_wake s = Some prev" "ws_heartbeat s = heartbeat_every i"
  shows "prev + max i min_interval \<le> now \<and> prev + 60000000000 \<le> now"
  using assms
  by (auto simp: wake_poll_def due_def heartbeat_every_def min_interval_def split: if_splits)

lemma wake_floor_witness:
  "(0 :: nat) + max 0 min_interval \<le> 60 * 10 ^ 9"
  using wake_floor [of "60 * 10 ^ 9" "(wake_new (heartbeat_every 0))\<lparr>ws_last_wake := Some 0\<rparr>"
      "(wake_new (heartbeat_every 0))\<lparr>ws_last_wake := Some (60 * 10 ^ 9), ws_idle_wakes := 1\<rparr>"
      0 0]
  by (simp add: wake_poll_def due_def is_bored_def wake_new_def heartbeat_every_def min_interval_def)

end
