(* ===== verification/Resident.thy ===== *)
theory Resident
  imports Projection Scratch Wake JournalFile
begin

text \<open>
  The persistent agent (\<^verbatim>\<open>src/journal/resident.rs\<close>): journal, notes and wake schedule.  The
  journal is \<^verbatim>\<open>Arc<dyn Journal>\<close> in the source, so the operations take its \<open>app\<close> and
  \<open>replay\<close>; what they need of it is the interface \<open>honest_journal\<close>, which both stores meet.
\<close>

definition self_prompt :: string where
  "self_prompt =
     ''You have been woken by your periodic heartbeat. Review your notes and '' @
     ''recent activity. If there is useful work you can do now, do it. If there '' @
     ''is not, say so briefly and stop.''"

record 'j resident =
  res_journal :: 'j
  res_scratch :: scratch
  res_schedule :: wake_scheduler
  res_system :: "string option"
  res_context_budget :: nat

record wake =
  wake_reason_of :: wake_reason
  wake_messages :: "message list"

type_synonym 'j app_op = "int \<Rightarrow> journal_entry \<Rightarrow> 'j \<Rightarrow> (journal_error + nat) \<times> 'j"
type_synonym 'j replay_op = "'j \<Rightarrow> journal_error + jrecord list"

definition resident_open ::
  "'j replay_op \<Rightarrow> heartbeat \<Rightarrow> 'j \<Rightarrow> journal_error + 'j resident" where
  "resident_open replay h j =
     (case replay j of
        Inl e \<Rightarrow> Inl e
      | Inr rs \<Rightarrow> Inr \<lparr>res_journal = j, res_scratch = scratch_replay rs,
                        res_schedule = wake_new h, res_system = None, res_context_budget = 4096\<rparr>)"

definition resident_ephemeral :: "heartbeat \<Rightarrow> journal_error + mem_journal resident" where
  "resident_ephemeral h = resident_open mem_replay h mem_new"

definition resident_system :: "string \<Rightarrow> 'j resident \<Rightarrow> 'j resident" where
  "resident_system t a = a\<lparr>res_system := Some t\<rparr>"

definition resident_context_budget :: "nat \<Rightarrow> 'j resident \<Rightarrow> 'j resident" where
  "resident_context_budget n a = a\<lparr>res_context_budget := n\<rparr>"

text \<open>Append to the journal, then fold the entry in: shared by the two note operations.\<close>

definition write_note ::
  "'j app_op \<Rightarrow> int \<Rightarrow> journal_entry \<Rightarrow> 'j resident \<Rightarrow> (journal_error + unit) \<times> 'j resident" where
  "write_note app now e a =
     (case app now e (res_journal a) of
        (Inl err, j') \<Rightarrow> (Inl err, a\<lparr>res_journal := j'\<rparr>)
      | (Inr _, j') \<Rightarrow>
          (Inr (), a\<lparr>res_journal := j', res_scratch := scratch_apply e (res_scratch a)\<rparr>))"

definition remember ::
  "'j app_op \<Rightarrow> int \<Rightarrow> string \<Rightarrow> string \<Rightarrow> 'j resident \<Rightarrow> (journal_error + unit) \<times> 'j resident" where
  "remember app now k v a = write_note app now (scratch_set k v) a"

definition forget ::
  "'j app_op \<Rightarrow> int \<Rightarrow> string \<Rightarrow> 'j resident \<Rightarrow> (journal_error + unit) \<times> 'j resident" where
  "forget app now k a = write_note app now (scratch_delete k) a"

fun source_reason :: "input_source \<Rightarrow> wake_reason option" where
  "source_reason FromUser = Some WakeUser"
| "source_reason (FromExternal what) = Some (WakeExternal what)"
| "source_reason SelfPrompt = None"

definition receive ::
  "'j app_op \<Rightarrow> int \<Rightarrow> input_source \<Rightarrow> message \<Rightarrow> 'j resident
     \<Rightarrow> (journal_error + unit) \<times> 'j resident" where
  "receive app now src content a =
     (let reason = (case source_reason src of Some r \<Rightarrow> r | None \<Rightarrow> WakeUser) in
      case app now (InputEntry src content) (res_journal a) of
        (Inl err, j') \<Rightarrow> (Inl err, a\<lparr>res_journal := j'\<rparr>)
      | (Inr _, j') \<Rightarrow>
          (Inr (), a\<lparr>res_journal := j', res_schedule := wake_request reason (res_schedule a)\<rparr>))"

definition wake_preamble :: "'j resident \<Rightarrow> wake_reason \<Rightarrow> message list" where
  "wake_preamble a reason =
     (case res_system a of None \<Rightarrow> [] | Some t \<Rightarrow> [system_msg t])
     @ (if scratch_is_empty (res_scratch a) then [] else [system_msg (to_prompt (res_scratch a))])
     @ (if reason = WakeHeartbeat then [system_msg self_prompt] else [])"

definition resident_poll ::
  "'j app_op \<Rightarrow> 'j replay_op \<Rightarrow> int \<Rightarrow> nat \<Rightarrow> 'j resident \<Rightarrow> (declined + wake) \<times> 'j resident" where
  "resident_poll app replay clock now a =
     (case wake_poll now (res_schedule a) of
        (Inl d, s') \<Rightarrow> (Inl d, a\<lparr>res_schedule := s'\<rparr>)
      | (Inr reason, s') \<Rightarrow>
          (let a1 = a\<lparr>res_schedule := s'\<rparr> in
           case replay (res_journal a1) of
             Inl _ \<Rightarrow> (Inl Busy, a1)
           | Inr rs \<Rightarrow>
               (let messages = with_preamble (wake_preamble a1 reason)
                                 (project (recent_turns (res_context_budget a1))) rs in
                case app clock (WakeEntry reason) (res_journal a1) of
                  (Inl _, j') \<Rightarrow> (Inl Busy, a1\<lparr>res_journal := j'\<rparr>)
                | (Inr _, j') \<Rightarrow>
                    (Inr \<lparr>wake_reason_of = reason, wake_messages = messages\<rparr>,
                     a1\<lparr>res_journal := j', res_schedule := began_running s'\<rparr>))))"

text \<open>The loop of \<^verbatim>\<open>finished\<close>; the \<^verbatim>\<open>?\<close> on an append returns before the schedule is told.\<close>

fun finish_entries ::
  "'j app_op \<Rightarrow> int \<Rightarrow> journal_entry list \<Rightarrow> 'j resident \<Rightarrow> (journal_error + unit) \<times> 'j resident" where
  "finish_entries app now [] a = (Inr (), a)"
| "finish_entries app now (e # es) a =
     (case write_note app now e a of
        (Inl err, a') \<Rightarrow> (Inl err, a')
      | (Inr _, a') \<Rightarrow> finish_entries app now es a')"

definition finished ::
  "'j app_op \<Rightarrow> int \<Rightarrow> journal_entry list \<Rightarrow> 'j resident \<Rightarrow> (journal_error + unit) \<times> 'j resident" where
  "finished app now es a =
     (case finish_entries app now es a of
        (Inl err, a') \<Rightarrow> (Inl err, a')
      | (Inr _, a') \<Rightarrow>
          (Inr (), a'\<lparr>res_schedule := finished_running (es \<noteq> []) (res_schedule a')\<rparr>))"

definition resident_is_bored :: "'j resident \<Rightarrow> bool" where
  "resident_is_bored a = is_bored (res_schedule a)"

section \<open>Operations as steps\<close>

datatype agent_event =
    EvRemember string string
  | EvForget string
  | EvReceive input_source message
  | EvPoll nat
  | EvFinished "journal_entry list"

fun agent_step ::
  "'j app_op \<Rightarrow> 'j replay_op \<Rightarrow> int \<Rightarrow> agent_event \<Rightarrow> 'j resident \<Rightarrow> 'j resident" where
  "agent_step app replay t (EvRemember k v) a = snd (remember app t k v a)"
| "agent_step app replay t (EvForget k) a = snd (forget app t k a)"
| "agent_step app replay t (EvReceive src m) a = snd (receive app t src m a)"
| "agent_step app replay t (EvPoll now) a = snd (resident_poll app replay t now a)"
| "agent_step app replay t (EvFinished es) a = snd (finished app t es a)"

section \<open>The notes and the log\<close>

text \<open>From \<open>a\<close> to \<open>b\<close> the notes kept step with the log, which was only extended.\<close>

definition kept_step ::
  "('j \<Rightarrow> jrecord list) \<Rightarrow> ('j \<Rightarrow> bool) \<Rightarrow> 'j resident \<Rightarrow> 'j resident \<Rightarrow> bool" where
  "kept_step view ok a b \<longleftrightarrow> (ok (res_journal a) \<longrightarrow> ok (res_journal b)
     \<and> (\<exists>rs. view (res_journal b) = view (res_journal a) @ rs
          \<and> res_scratch b = fold scratch_apply (map rec_entry rs) (res_scratch a)))"

lemma kept_step_refl [simp]: "kept_step view ok a a"
  by (auto simp: kept_step_def intro!: exI [of _ "[]"])

lemma kept_step_trans:
  assumes "kept_step view ok a b" "kept_step view ok b c"
  shows "kept_step view ok a c"
proof (cases "ok (res_journal a)")
  case True
  with assms(1) obtain rs where b: "ok (res_journal b)" "view (res_journal b) = view (res_journal a) @ rs"
    "res_scratch b = fold scratch_apply (map rec_entry rs) (res_scratch a)" by (auto simp: kept_step_def)
  with assms(2) obtain rs' where "ok (res_journal c)" "view (res_journal c) = view (res_journal b) @ rs'"
    "res_scratch c = fold scratch_apply (map rec_entry rs') (res_scratch b)" by (auto simp: kept_step_def)
  with b show ?thesis by (auto simp: kept_step_def intro!: exI [of _ "rs @ rs'"])
qed (simp add: kept_step_def)

lemma kept_step_schedule [simp]:
  "kept_step view ok a (b\<lparr>res_schedule := s\<rparr>) = kept_step view ok a b"
  "kept_step view ok (a\<lparr>res_schedule := s\<rparr>) b = kept_step view ok a b"
  by (simp_all add: kept_step_def)

context honest_journal
begin

lemma kept_write_note: "kept_step view ok a (snd (write_note app t e a))"
proof -
  obtain r j' where app: "app t e (res_journal a) = (r, j')" by fastforce
  show ?thesis
  proof (cases r)
    case (Inl err)
    then show ?thesis using refused [OF _ app [unfolded Inl]] stays_ok [OF _ app] app
      by (auto simp: write_note_def kept_step_def intro!: exI [of _ "[]"])
  next
    case (Inr i)
    then show ?thesis using appended [OF _ app [unfolded Inr]] stays_ok [OF _ app] app
      by (auto simp: write_note_def kept_step_def)
  qed
qed

text \<open>An entry that is no note leaves the notes alone.\<close>

lemma kept_append:
  assumes app: "app t e (res_journal a) = (r, j')" and "\<And>s. scratch_apply e s = s"
  shows "kept_step view ok a (a\<lparr>res_journal := j'\<rparr>)"
proof (cases r)
  case (Inl err)
  then show ?thesis using refused [OF _ app [unfolded Inl]] stays_ok [OF _ app]
    by (auto simp: kept_step_def intro!: exI [of _ "[]"])
next
  case (Inr i)
  then show ?thesis using appended [OF _ app [unfolded Inr]] stays_ok [OF _ app] assms(2)
    by (auto simp: kept_step_def)
qed

lemma kept_finish_entries: "kept_step view ok a (snd (finish_entries app t es a))"
proof (induction es arbitrary: a)
  case (Cons e es)
  show ?case
    using kept_step_trans [OF kept_write_note [of a t e] Cons.IH] kept_write_note [of a t e]
    by (auto split: prod.splits sum.splits)
qed simp

lemma kept_receive: "kept_step view ok a (snd (receive app t src m a))"
  using kept_append [of t "InputEntry src m" a]
  by (auto simp: receive_def Let_def split: prod.splits sum.splits)

lemma kept_poll: "kept_step view ok a (snd (resident_poll app replay t now a))"
proof -
  obtain d s' where p: "wake_poll now (res_schedule a) = (d, s')" by fastforce
  show ?thesis
  proof (cases d)
    case (Inr reason)
    obtain r j' where app: "app t (WakeEntry reason) (res_journal a) = (r, j')" by fastforce
    from kept_append [of t "WakeEntry reason" "a\<lparr>res_schedule := s'\<rparr>" r j'] app
    have "kept_step view ok a (a\<lparr>res_schedule := s', res_journal := j'\<rparr>)" by simp
    with p Inr app show ?thesis
      by (cases r; cases "replay (res_journal a)") (auto simp: resident_poll_def Let_def kept_step_def)
  qed (simp add: resident_poll_def p)
qed

lemma kept_agent_step: "kept_step view ok a (agent_step app replay t e a)"
proof (cases e)
  case (EvFinished es)
  with kept_finish_entries [of a t es] show ?thesis
    by (auto simp: finished_def split: prod.splits sum.splits)
qed (simp_all add: remember_def forget_def kept_write_note kept_receive kept_poll)

lemma kept_agent_run: "kept_step view ok a (fold (\<lambda>(t, e). agent_step app replay t e) es a)"
proof (induction es arbitrary: a)
  case (Cons te es)
  obtain t e where "te = (t, e)" by fastforce
  with kept_step_trans [OF kept_agent_step Cons.IH] show ?case by simp
qed simp

lemma opened_run:
  assumes "resident_open replay h j = Inr a" "ok j"
    "b = fold (\<lambda>(t, e). agent_step app replay t e) es a"
  shows "res_scratch b = scratch_replay (view (res_journal b)) \<and> prefix (view j) (view (res_journal b))"
proof -
  obtain rs where rs: "replay j = Inr rs" "res_journal a = j" "res_scratch a = scratch_replay rs"
    using assms(1) by (auto simp: resident_open_def split: sum.splits)
  then have "res_scratch a = scratch_replay (view j)" using replayed [OF assms(2) rs(1)] by simp
  with kept_agent_run [of a es] assms(2,3) rs(2) show ?thesis
    by (auto simp: kept_step_def scratch_replay_append)
qed

end

text \<open>
  The journal on disk is honest on an intact file while an append that fails does so before it
  writes: the file cannot be opened, the record has no JSON form, or the lock is poisoned.  (The
  findings on \<^verbatim>\<open>store.rs\<close> are about the others.)
\<close>

definition intact :: "encoder \<Rightarrow> decoder \<Rightarrow> jsonl \<Rightarrow> bool" where
  "intact enc dec j \<longleftrightarrow>
     (\<exists>rs. file_bytes (jl_file j) = render enc rs \<and> list_all (codec_ok enc dec) rs)"

definition file_view :: "decoder \<Rightarrow> jsonl \<Rightarrow> jrecord list" where
  "file_view dec j = (case jsonl_replay dec j of Inl _ \<Rightarrow> [] | Inr rs \<Rightarrow> rs)"

lemma replay_intact:
  assumes "file_bytes (jl_file j) = render enc rs" "list_all (codec_ok enc dec) rs"
  shows "jsonl_replay dec j = Inr rs"
proof (cases "jl_file j")
  case None
  with assms have "rs = []"
    by (cases rs) (auto simp: file_bytes_def elim!: codec_okE)
  with None show ?thesis by (simp add: jsonl_replay_def read_all_def)
next
  case (Some s)
  with assms read_all_render [OF assms(2)] show ?thesis by (simp add: jsonl_replay_def file_bytes_def)
qed

lemma jsonl_append_intact:
  assumes "jsonl_append enc fault t e j = (r, j')" "intact enc dec j"
    and "\<And>r. (\<exists>err. enc r = Inl err) \<or> codec_ok enc dec r" "fault = NoFault \<or> (\<exists>err. fault = OpenFails err)"
  shows "intact enc dec j' \<and> file_view dec j'
     = file_view dec j @ (case r of Inl _ \<Rightarrow> [] | Inr i \<Rightarrow> [\<lparr>rec_id = i, rec_at = t, rec_entry = e\<rparr>])"
proof (cases r)
  case (Inl err)
  then have "j' = j" using assms(1,4)
    by (auto simp: jsonl_append_def Let_def split: if_splits sum.splits append_fault.splits)
  with Inl assms(2) show ?thesis by simp
next
  case (Inr i)
  let ?r = "\<lparr>rec_id = i, rec_at = t, rec_entry = e\<rparr>"
  from Inr assms(1) obtain l where l: "enc ?r = Inr l" "i = jl_next j"
    "jl_file j' = Some (file_bytes (jl_file j) @ l @ [nl])"
    by (auto simp: jsonl_append_def Let_def split: if_splits sum.splits append_fault.splits)
  with assms(3) [of ?r] have "codec_ok enc dec ?r" by simp
  moreover from assms(2) obtain rs where
    rs: "file_bytes (jl_file j) = render enc rs" "list_all (codec_ok enc dec) rs" by (auto simp: intact_def)
  ultimately have rs': "file_bytes (jl_file j') = render enc (rs @ [?r])" "list_all (codec_ok enc dec) (rs @ [?r])"
    using l by (simp_all add: file_bytes_def)
  from replay_intact [OF rs] replay_intact [OF rs'] rs' Inr show ?thesis
    by (auto simp: file_view_def intact_def simp del: render_simps(2))
qed

lemma jsonl_honest:
  assumes "\<And>r. (\<exists>err. enc r = Inl err) \<or> codec_ok enc dec r"
    and "\<And>t. fault t = NoFault \<or> (\<exists>err. fault t = OpenFails err)"
  shows "honest_journal (\<lambda>t. jsonl_append enc (fault t) t) (jsonl_replay dec) (file_view dec) (intact enc dec)"
proof (unfold_locales, goal_cases)
  case (1 j t e i j')
  with jsonl_append_intact [OF 1(2) 1(1) assms] show ?case by simp
next
  case (2 j t e err j')
  with jsonl_append_intact [OF 2(2) 2(1) assms] show ?case by simp
next
  case (3 j rs)
  then show ?case by (simp add: file_view_def)
next
  case (4 j t e r j')
  with jsonl_append_intact [OF 4(2) 4(1) assms] show ?case by simp
qed

section \<open>Properties\<close>

text \<open>
  C38: The notes are the log.  Take any journal whose successful appends add their record to
  its history, whose failed appends add nothing and whose successful replays return it, however
  and whenever appends and replays fail.  An agent opened over it and driven through any
  sequence of notes, inputs, polls and finished runs holds exactly the notes a fresh replay of
  the history gives, and the history was only ever extended.  (The journal in memory meets the
  contract in every state; the one on disk meets it on an intact file as long as no append
  fails with bytes already written, \<open>jsonl_honest\<close>.)
\<close>

theorem resident_scratch_is_replay:
  assumes "honest_journal app replay view ok" "resident_open replay h j = Inr a" "ok j"
    and "b = fold (\<lambda>(t, e). agent_step app replay t e) es a"
  shows "res_scratch b = scratch_replay (view (res_journal b))
     \<and> prefix (view j) (view (res_journal b))"
  using assms(2-4) by (rule honest_journal.opened_run [OF assms(1)])

text \<open>A journal in memory: a note is set, a run finishes with another, and the first is deleted.\<close>

lemma resident_scratch_is_replay_witness:
  "\<exists>a b. resident_open mem_replay (heartbeat_every 0) mem_new = Inr a
     \<and> b = fold (\<lambda>(t, e). agent_step mem_append mem_replay t e)
         [(0, EvRemember ''k'' ''v''), (1, EvFinished [ScratchSet ''w'' ''x'']), (2, EvForget ''k'')] a
     \<and> res_scratch b = [(''w'', ''x'')]
     \<and> res_scratch b = scratch_replay (mj_records (res_journal b))
     \<and> prefix (mj_records mem_new) (mj_records (res_journal b)) \<and> length (mj_records (res_journal b)) = 3"
proof -
  let ?es = "[(0, EvRemember ''k'' ''v''), (1, EvFinished [ScratchSet ''w'' ''x'']), (2, EvForget ''k'')]"
  obtain a where a: "resident_open mem_replay (heartbeat_every 0) mem_new = Inr a"
    by (simp add: resident_open_def mem_replay_def mem_new_def)
  let ?b = "fold (\<lambda>(t, e). agent_step mem_append mem_replay t e) ?es a"
  have "res_scratch ?b = [(''w'', ''x'')] \<and> length (mj_records (res_journal ?b)) = 3"
    using a by (auto simp: resident_open_def mem_replay_def mem_new_def mem_append_def write_note_def
        remember_def forget_def finished_def scratch_set_def scratch_delete_def scratch_replay_def
        bt_remove_def)
  with resident_scratch_is_replay [OF mem_honest.honest_journal_axioms a TrueI refl, of ?es] a
  show ?thesis by blast
qed

text \<open>
  What a wake shows the model.  When a poll starts a run, the transcript is the standing
  instruction, then the notes, then (for the agent's own timer only) the self-prompt, and then
  the budgeted projection of the history as it was before the poll; the wake is recorded in
  the journal as a wake and adds nothing to any later transcript.
\<close>

lemma resident_poll_transcript:
  assumes "resident_poll mem_append mem_replay t now a = (Inr w, a')"
  shows "wake_messages w =
       (case res_system a of None \<Rightarrow> [] | Some s \<Rightarrow> [system_msg s])
       @ (if res_scratch a = [] then [] else [system_msg (to_prompt (res_scratch a))])
       @ (if wake_reason_of w = WakeHeartbeat then [system_msg self_prompt] else [])
       @ project (recent_turns (res_context_budget a)) (mj_records (res_journal a))
     \<and> (\<exists>r. mj_records (res_journal a') = mj_records (res_journal a) @ [r]
           \<and> rec_entry r = WakeEntry (wake_reason_of w) \<and> to_messages r = [])
     \<and> ws_busy (res_schedule a')"
  using assms
  by (auto simp: resident_poll_def Let_def mem_replay_def mem_append_def wake_preamble_def
      with_preamble_def scratch_is_empty_def began_running_def to_messages_def entry_messages_def
      split: prod.splits sum.splits if_splits)

lemma resident_poll_transcript_witness:
  "\<exists>w a'. resident_poll mem_append mem_replay 0 0
        \<lparr>res_journal = mem_new, res_scratch = [], res_schedule = wake_new (heartbeat_every 0),
         res_system = None, res_context_budget = 4096\<rparr> = (Inr w, a')
     \<and> wake_messages w = [system_msg self_prompt] \<and> ws_busy (res_schedule a')"
proof -
  let ?a = "\<lparr>res_journal = mem_new, res_scratch = [], res_schedule = wake_new (heartbeat_every 0),
         res_system = None, res_context_budget = 4096\<rparr>"
  obtain w a' where p: "resident_poll mem_append mem_replay 0 0 ?a = (Inr w, a')"
    and r: "wake_reason_of w = WakeHeartbeat"
    by (simp add: resident_poll_def wake_poll_def wake_new_def heartbeat_every_def is_bored_def
        due_def mem_replay_def mem_append_def mem_new_def Let_def)
  have "project (recent_turns 4096) [] = []"
    by (simp add: project_def turn_group_def recent_turns_def)
  with resident_poll_transcript [OF p] p r show ?thesis by (auto simp: mem_new_def)
qed

text \<open>
  A finished run that fails to record strands the agent.  If the journal refuses an entry
  while the results of a run are written down, the scheduler is never told that the run ended:
  the agent is busy from then on and every later poll declines, whatever is requested.
\<close>

lemma finished_error_stays_busy:
  assumes "ws_busy (res_schedule a)" "finished app t es a = (Inl err, a')"
    and "\<forall>b. Finished b \<notin> set evs"
  shows "res_schedule a' = res_schedule a \<and> snd (wake_run evs (res_schedule a')) = []"
proof -
  have "res_schedule (snd (finish_entries app t es b)) = res_schedule b" for b
  proof (induction es arbitrary: b)
    case (Cons e es)
    have "res_schedule (snd (write_note app t e b)) = res_schedule b"
      by (auto simp: write_note_def split: prod.splits sum.splits)
    with Cons.IH [of "snd (write_note app t e b)"] show ?case
      by (auto split: prod.splits sum.splits)
  qed simp
  from this [of a] assms(2) have "res_schedule a' = res_schedule a"
    by (auto simp: finished_def split: prod.splits sum.splits)
  with assms(1,3) wake_never_concurrent_busy show ?thesis by fastforce
qed

text \<open>
  A request can be lost.  When an agent that is not working has a request pending and its
  journal cannot be replayed, the poll reports \<open>Busy\<close>, yet the request is gone from the
  schedule and the agent is idle: later polls do not bring it back.
\<close>

lemma poll_replay_failure_drops_request:
  assumes "\<not> ws_busy (res_schedule a)" "ws_pending (res_schedule a) = Some r"
    and "replay (res_journal a) = Inl err"
  shows "\<exists>a'. resident_poll app replay t now a = (Inl Busy, a')
     \<and> ws_pending (res_schedule a') = None \<and> \<not> ws_busy (res_schedule a')"
  using assms by (simp add: resident_poll_def wake_poll_def Let_def)

lemma poll_replay_failure_drops_request_witness:
  "\<exists>a'. resident_poll mem_append mem_replay 0 0
       \<lparr>res_journal = \<lparr>mj_poisoned = True, mj_records = []\<rparr>, res_scratch = [],
        res_schedule = wake_request WakeUser (wake_new (heartbeat_every 0)),
        res_system = None, res_context_budget = 4096\<rparr> = (Inl Busy, a')
     \<and> ws_pending (res_schedule a') = None \<and> \<not> ws_busy (res_schedule a')"
  by (rule poll_replay_failure_drops_request [where r = WakeUser])
    (simp_all add: wake_request_def wake_new_def mem_replay_def)

lemma finished_error_stays_busy_witness:
  "\<exists>a' err. finished mem_append 0 [WakeEntry WakeUser]
       \<lparr>res_journal = \<lparr>mj_poisoned = True, mj_records = []\<rparr>, res_scratch = [],
        res_schedule = began_running (wake_new (heartbeat_every 0)),
        res_system = None, res_context_budget = 4096\<rparr> = (Inl err, a')
     \<and> snd (wake_run [Request WakeUser, Poll 10] (res_schedule a')) = []"
proof -
  let ?a = "\<lparr>res_journal = \<lparr>mj_poisoned = True, mj_records = []\<rparr>, res_scratch = [],
        res_schedule = began_running (wake_new (heartbeat_every 0)),
        res_system = None, res_context_budget = 4096\<rparr> :: mem_journal resident"
  have f: "finished mem_append 0 [WakeEntry WakeUser] ?a
      = (Inl (JournalIo ''journal lock poisoned''), ?a)"
    by (simp add: finished_def write_note_def mem_append_def)
  have "ws_busy (res_schedule ?a)" by (simp add: began_running_def)
  from finished_error_stays_busy [OF this f, of "[Request WakeUser, Poll 10]"] f
  show ?thesis by auto
qed

end
