(* ===== verification/StopMatcher.thy ===== *)
theory StopMatcher
  imports Prelude
begin

text \<open>
  Stop patterns over streamed text (\<^verbatim>\<open>src/backend/common/stop_matcher.rs\<close>).  Text arrives in
  chunks, each a whole number of characters; the matcher reports a pattern in its buffer, or how
  much of the buffer's end may still become one.  Strings are their UTF-8 bytes, and
  \<^verbatim>\<open>is_char_boundary\<close> is what the source asks before it slices.
\<close>

record stop_pattern =
  sp_text :: string
  sp_keep_prefix :: nat

datatype stop_state =
    Clean
  | Partial nat
  | Full nat nat nat

record stop_matcher =
  sm_patterns :: "stop_pattern list"
  sm_buf :: string

definition stop_pattern_new :: "string \<Rightarrow> stop_pattern" where
  "stop_pattern_new text = \<lparr>sp_text = text, sp_keep_prefix = 0\<rparr>"

definition stop_pattern_keep :: "nat \<Rightarrow> stop_pattern \<Rightarrow> stop_pattern" where
  "stop_pattern_keep bytes p = p\<lparr>sp_keep_prefix := bytes\<rparr>"

definition stop_matcher_new :: "stop_pattern list \<Rightarrow> stop_matcher" where
  "stop_matcher_new patterns = \<lparr>sm_patterns = patterns, sm_buf = []\<rparr>"

definition from_strings :: "string list \<Rightarrow> stop_matcher" where
  "from_strings patterns = stop_matcher_new (map stop_pattern_new patterns)"

definition stops_empty :: "stop_matcher \<Rightarrow> bool" where
  "stops_empty m \<longleftrightarrow> sm_patterns m = []"

section \<open>One push\<close>

text \<open>The first loop: the leftmost match, the first pattern in the list among equals.\<close>

definition earliest_step ::
  "string \<Rightarrow> stop_pattern \<Rightarrow> (nat \<times> stop_pattern) option \<Rightarrow> (nat \<times> stop_pattern) option" where
  "earliest_step buf p best =
     (if sp_text p = [] then best
      else case str_find buf (sp_text p) of
          None \<Rightarrow> best
        | Some pos \<Rightarrow>
            (case best of
               None \<Rightarrow> Some (pos, p)
             | Some (at, _) \<Rightarrow> if pos < at then Some (pos, p) else best))"

definition earliest :: "stop_pattern list \<Rightarrow> string \<Rightarrow> (nat \<times> stop_pattern) option" where
  "earliest ps buf = fold (earliest_step buf) ps None"

text \<open>The second loop, for one pattern: the longest proper prefix the buffer ends with.\<close>

fun hold_down :: "string \<Rightarrow> string \<Rightarrow> nat \<Rightarrow> nat" where
  "hold_down pattern buf 0 = 0"
| "hold_down pattern buf (Suc k) =
     (if is_char_boundary pattern (Suc k) \<and> ends_with buf (take (Suc k) pattern) then Suc k
      else hold_down pattern buf k)"

definition longest_hold :: "stop_pattern list \<Rightarrow> string \<Rightarrow> nat" where
  "longest_hold ps buf =
     fold (\<lambda>p hold. if sp_text p = [] then hold
        else max hold (hold_down (sp_text p) buf (min (length (sp_text p) - 1) (length buf)))) ps 0"

definition stop_push :: "string \<Rightarrow> stop_matcher \<Rightarrow> stop_state \<times> stop_matcher" where
  "stop_push text m =
     (let buf = sm_buf m @ text; m' = m\<lparr>sm_buf := buf\<rparr> in
      case earliest (sm_patterns m) buf of
        Some (at, p) \<Rightarrow> (Full at (length (sp_text p)) (at + sp_keep_prefix p), m')
      | None \<Rightarrow>
          let hold = longest_hold (sm_patterns m) buf in
          (if 0 < hold then Partial hold else Clean, m'))"

definition stop_reset :: "stop_matcher \<Rightarrow> stop_matcher" where
  "stop_reset m = m\<lparr>sm_buf := []\<rparr>"

definition gemma4_chat_defaults :: "stop_pattern list" where
  "gemma4_chat_defaults =
     concat (map (\<lambda>role.
        stop_pattern_new (role @ [nl])
        # map (\<lambda>p. stop_pattern_keep 1 (stop_pattern_new (p @ role))) [''.'', ''!'', ''?'', '':'', '';''])
       [''user'', ''system'', ''assistant''])
     @ map stop_pattern_new [''<|turn>'', ''<start_of_turn>'', ''<end_of_turn>'']"

section \<open>What the loops compute\<close>

text \<open>Some pattern occurs in \<open>s\<close> at \<open>i\<close>.\<close>

definition stops_at :: "stop_pattern list \<Rightarrow> string \<Rightarrow> nat \<Rightarrow> bool" where
  "stops_at ps s i \<longleftrightarrow> (\<exists>p \<in> set ps. sp_text p \<noteq> [] \<and> occurs_at s (sp_text p) i)"

lemma stops_at_simps [simp]:
  "\<not> stops_at [] s i"
  "stops_at (p # ps) s i \<longleftrightarrow> (sp_text p \<noteq> [] \<and> occurs_at s (sp_text p) i) \<or> stops_at ps s i"
  by (auto simp: stops_at_def)

definition leftmost :: "stop_pattern list \<Rightarrow> string \<Rightarrow> (nat \<times> stop_pattern) option \<Rightarrow> bool" where
  "leftmost ps s r \<longleftrightarrow>
     (case r of None \<Rightarrow> \<forall>i. \<not> stops_at ps s i
      | Some (at, p) \<Rightarrow> p \<in> set ps \<and> sp_text p \<noteq> [] \<and> occurs_at s (sp_text p) at
          \<and> (\<forall>i<at. \<not> stops_at ps s i))"

lemma leftmost_step: "leftmost ps s r \<Longrightarrow> leftmost (ps @ [p]) s (earliest_step s p r)"
  using str_find_Some [of s "sp_text p"] str_find_None [of s "sp_text p"]
  by (cases r; cases "str_find s (sp_text p)")
    (auto simp: leftmost_def earliest_step_def stops_at_def not_less)

lemma earliest_leftmost: "leftmost ps s (earliest ps s)"
proof -
  have "leftmost (qs @ ps) s (fold (earliest_step s) ps r)" if "leftmost qs s r" for qs ps r
    using that
  proof (induction ps arbitrary: qs r)
    case (Cons p ps)
    from Cons.IH [OF leftmost_step [OF Cons.prems]] show ?case by simp
  qed simp
  from this [of "[]" None] show ?thesis by (simp add: earliest_def leftmost_def)
qed

lemma earliest_None_iff: "earliest ps s = None \<longleftrightarrow> (\<forall>i. \<not> stops_at ps s i)"
  using earliest_leftmost [of ps s] by (auto simp: leftmost_def stops_at_def split: option.splits)

lemma earliest_SomeD:
  "earliest ps s = Some (at, p) \<Longrightarrow>
     p \<in> set ps \<and> sp_text p \<noteq> [] \<and> occurs_at s (sp_text p) at \<and> (\<forall>i<at. \<not> stops_at ps s i)"
  using earliest_leftmost [of ps s] by (simp add: leftmost_def)

lemma hold_down_le: "hold_down t b k \<le> k"
  by (induction k) auto

lemma hold_down_sound:
  "0 < hold_down t b k \<Longrightarrow>
     is_char_boundary t (hold_down t b k) \<and> ends_with b (take (hold_down t b k) t)"
  by (induction k) (auto split: if_splits)

lemma hold_down_max:
  "j \<le> k \<Longrightarrow> 0 < j \<Longrightarrow> is_char_boundary t j \<Longrightarrow> ends_with b (take j t) \<Longrightarrow> j \<le> hold_down t b k"
  by (induction k) (auto simp: le_Suc_eq)

definition hold_of :: "string \<Rightarrow> string \<Rightarrow> nat" where
  "hold_of b t = hold_down t b (min (length t - 1) (length b))"

lemma Max_insert_max: "finite A \<Longrightarrow> Max (insert (max n h) A) = Max (insert n (insert h A))"
  by (cases "A = {}") (simp_all add: max.assoc)

lemma hold_of_pos:
  assumes "0 < hold_of b t"
  shows "hold_of b t \<le> length b" "hold_of b t < length t" "is_char_boundary t (hold_of b t)"
    "ends_with b (take (hold_of b t) t)"
proof -
  have "hold_of b t \<le> min (length t - 1) (length b)" unfolding hold_of_def by (rule hold_down_le)
  with assms show "hold_of b t \<le> length b" "hold_of b t < length t" by auto
  show "is_char_boundary t (hold_of b t)" "ends_with b (take (hold_of b t) t)"
    using hold_down_sound assms unfolding hold_of_def by blast+
qed

lemma longest_hold_max: "longest_hold ps b = Max (insert 0 (hold_of b ` sp_text ` {p \<in> set ps. sp_text p \<noteq> []}))"
proof -
  have "fold (\<lambda>p hold. if sp_text p = [] then hold else max hold (hold_of b (sp_text p))) ps n
      = Max (insert n (hold_of b ` sp_text ` {p \<in> set ps. sp_text p \<noteq> []}))" for n
  proof (induction ps arbitrary: n)
    case (Cons p ps)
    have set: "{q \<in> set (p # ps). sp_text q \<noteq> []} =
        (if sp_text p = [] then {} else {p}) \<union> {q \<in> set ps. sp_text q \<noteq> []}" by auto
    show ?case unfolding set fold_simps comp_def by (simp add: Cons.IH Max_insert_max insert_commute)
  qed simp
  from this [of 0] show ?thesis unfolding longest_hold_def hold_of_def .
qed

lemma hold_of_le_longest: "p \<in> set ps \<Longrightarrow> sp_text p \<noteq> [] \<Longrightarrow> hold_of b (sp_text p) \<le> longest_hold ps b"
  unfolding longest_hold_max by (rule Max_ge) auto

lemma longest_hold_attained:
  assumes "0 < longest_hold ps b"
  shows "\<exists>p \<in> set ps. sp_text p \<noteq> [] \<and> longest_hold ps b = hold_of b (sp_text p)"
proof -
  have "longest_hold ps b \<in> insert 0 (hold_of b ` sp_text ` {p \<in> set ps. sp_text p \<noteq> []})"
    unfolding longest_hold_max by (rule Max_in) auto
  with assms show ?thesis by auto
qed

lemma longest_hold_le: "longest_hold ps b \<le> length b"
proof (cases "0 < longest_hold ps b")
  case True
  then obtain p :: stop_pattern where "longest_hold ps b = hold_of b (sp_text p)" using longest_hold_attained by blast
  then show ?thesis using hold_down_le le_trans min.cobounded2 unfolding hold_of_def by metis
qed simp

section \<open>Streaming\<close>

text \<open>A chunk of text starts on a character: its first byte continues none.\<close>

definition chunk_ok :: "string \<Rightarrow> bool" where
  "chunk_ok c \<longleftrightarrow> c = [] \<or> \<not> is_cont_byte (hd c)"

lemma occurs_at_nth: "occurs_at s t i \<longleftrightarrow> i + length t \<le> length s \<and> (\<forall>k<length t. s ! (i + k) = t ! k)"
  by (auto simp: occurs_at_def list_eq_iff_nth_eq)

lemma occurs_at_append1: "occurs_at b t i \<Longrightarrow> occurs_at (b @ c) t i"
  by (auto simp: occurs_at_nth nth_append)

lemma occurs_at_append_left: "i + length t \<le> length b \<Longrightarrow> occurs_at (b @ c) t i \<longleftrightarrow> occurs_at b t i"
  by (auto simp: occurs_at_nth nth_append)

lemma occurs_at_append_right: "occurs_at (b @ c) t (length b + i) \<longleftrightarrow> occurs_at c t i"
  by (auto simp: occurs_at_def)

lemma straddle:
  assumes "occurs_at (b @ c) t i" "i < length b" "length b < i + length t" "chunk_ok c"
  shows "length b - i \<le> hold_of b t"
proof -
  let ?k = "length b - i"
  have nth: "(b @ c) ! (i + k) = t ! k" if "k < length t" for k
    using assms(1) that by (simp add: occurs_at_nth)
  have k: "0 < ?k" "?k < length t" "i + ?k = length b" using assms(2,3) by auto
  have "c \<noteq> []" using assms(1,3) by (auto simp: occurs_at_def)
  then have "t ! ?k = hd c" using nth [OF k(2)] k(3) by (simp add: nth_append hd_conv_nth)
  with assms(4) \<open>c \<noteq> []\<close> k have boundary: "is_char_boundary t ?k" by (simp add: is_char_boundary_def chunk_ok_def)
  have "drop i b = take ?k t"
  proof (rule nth_equalityI)
    show "length (drop i b) = length (take ?k t)" using k by simp
    fix j assume "j < length (drop i b)"
    then have "i + j < length b" "j < ?k" by auto
    with nth [of j] k show "drop i b ! j = take ?k t ! j" by (simp add: nth_append)
  qed
  with k have "ends_with b (take ?k t)" by (simp add: ends_with_def)
  with boundary k show ?thesis unfolding hold_of_def by (intro hold_down_max) auto
qed

text \<open>
  What the matcher reports is exact, as if it saw the future.  When a push finds no match, no
  continuation of the text can bring about a match that starts before the held bytes; and the
  hold is no longer than needed: some continuation does complete a pattern that starts at the
  first held byte.
\<close>

lemma stop_hold_exact:
  assumes "earliest ps b = None"
  shows "(\<forall>c i. chunk_ok c \<and> stops_at ps (b @ c) i \<longrightarrow> length b - longest_hold ps b \<le> i)
     \<and> (0 < longest_hold ps b \<longrightarrow> (\<exists>c. chunk_ok c \<and> stops_at ps (b @ c) (length b - longest_hold ps b)))"
proof (intro conjI allI impI)
  fix c i assume "chunk_ok c \<and> stops_at ps (b @ c) i"
  then obtain p where p: "p \<in> set ps" "sp_text p \<noteq> []" and occ: "occurs_at (b @ c) (sp_text p) i"
    and ok: "chunk_ok c" by (auto simp: stops_at_def)
  have "\<not> occurs_at b (sp_text p) i" using assms p by (auto simp: earliest_None_iff stops_at_def)
  then have "length b < i + length (sp_text p)" using occ occurs_at_append_left by (metis not_le)
  then show "length b - longest_hold ps b \<le> i"
    using straddle [OF occ _ _ ok] hold_of_le_longest [OF p, of b] by (cases "i < length b") force+
next
  assume pos: "0 < longest_hold ps b"
  then obtain p where p: "p \<in> set ps" "sp_text p \<noteq> []" "longest_hold ps b = hold_of b (sp_text p)"
    using longest_hold_attained by blast
  define k where "k = hold_of b (sp_text p)"
  have k: "0 < k" "k \<le> length b" "k < length (sp_text p)" "is_char_boundary (sp_text p) k"
      "ends_with b (take k (sp_text p))"
    using pos p hold_of_pos [of b "sp_text p"] unfolding k_def by auto
  let ?c = "drop k (sp_text p)"
  have c: "chunk_ok ?c" using k by (auto simp: chunk_ok_def is_char_boundary_def hd_drop_conv_nth)
  have "b @ ?c = take (length b - k) b @ sp_text p"
    using k by (metis append.assoc append_take_drop_id ends_with_def length_take less_imp_le min.absorb2)
  then have "occurs_at (b @ ?c) (sp_text p) (length b - k)"
    unfolding occurs_at_iff by (intro exI [of _ "take (length b - k) b"] exI [of _ "[]"]) simp
  with c p show "\<exists>c. chunk_ok c \<and> stops_at ps (b @ c) (length b - longest_hold ps b)"
    by (auto simp: stops_at_def k_def [symmetric] intro!: exI [of _ ?c])
qed

lemma stop_hold_exact_witness:
  "longest_hold [stop_pattern_new ''<end>''] ''abc<e'' = 2
   \<and> (\<exists>c. chunk_ok c \<and> stops_at [stop_pattern_new ''<end>''] (''abc<e'' @ c) 3)"
proof -
  have hold: "longest_hold [stop_pattern_new ''<end>''] ''abc<e'' = 2"
    by (simp add: longest_hold_def stop_pattern_new_def hold_down.simps eval_nat_numeral
        is_char_boundary_def is_cont_byte_def ends_with_def)
  have "earliest [stop_pattern_new ''<end>''] ''abc<e'' = None"
    by (simp add: earliest_def earliest_step_def stop_pattern_new_def starts_with_def)
  from stop_hold_exact [OF this] hold show ?thesis by (simp add: eval_nat_numeral)
qed

end
