(* ===== verification/Healing.thy ===== *)
theory Healing
  imports Message
begin

text \<open>
  Repairing the argument syntax of tool calls (\<^verbatim>\<open>src/backend/common/healing.rs\<close>).  Indices
  are byte offsets, as in the source; slicing a \<^verbatim>\<open>str\<close> off a character boundary panics, and a
  definition in which that can happen returns an option, \<open>None\<close> being the panic.  The JSON
  library is the parameter \<open>json_lib\<close>: \<open>js_parse\<close> is \<^verbatim>\<open>from_str::<Value>\<close>, \<open>js_print\<close>
  \<^verbatim>\<open>to_string\<close>, and \<open>js_next\<close> the first value of a stream with the offset behind it.
\<close>

record json_lib =
  js_parse :: "string \<Rightarrow> json_value option"
  js_print :: "json_value \<Rightarrow> string"
  js_next :: "string \<Rightarrow> (json_value \<times> nat) option"

text \<open>\<open>str_from s i\<close> is \<^verbatim>\<open>&s[i..]\<close>, \<open>str_slice s i j\<close> is \<^verbatim>\<open>&s[i..j]\<close>; \<open>sub\<close> is the same slice
  where both ends lie next to ASCII bytes, so that it cannot fail.\<close>

definition str_from :: "string \<Rightarrow> nat \<Rightarrow> string option" where
  "str_from s i = (if is_char_boundary s i then Some (drop i s) else None)"

definition sub :: "string \<Rightarrow> nat \<Rightarrow> nat \<Rightarrow> string" where
  "sub s i j = take (j - i) (drop i s)"

definition str_slice :: "string \<Rightarrow> nat \<Rightarrow> nat \<Rightarrow> string option" where
  "str_slice s i j =
     (if i \<le> j \<and> is_char_boundary s i \<and> is_char_boundary s j then Some (sub s i j) else None)"

text \<open>The character at the front of a string, \<^verbatim>\<open>chars().next()\<close>, by its length in bytes.\<close>

definition char_len :: "string \<Rightarrow> nat" where
  "char_len s = 1 + length (takeWhile is_cont_byte (tl s))"

definition gemma_quote :: string where
  "gemma_quote = ''<|'' @ [CHR 0x22] @ ''|>''"

abbreviation dquote :: char where "dquote \<equiv> CHR 0x22"
abbreviation backslash :: char where "backslash \<equiv> CHR 0x5C"

definition ascii_range :: "nat \<Rightarrow> nat \<Rightarrow> char \<Rightarrow> bool" where
  "ascii_range a b c \<longleftrightarrow> a \<le> (of_char c :: nat) \<and> (of_char c :: nat) \<le> b"

definition is_ascii_alphabetic :: "char \<Rightarrow> bool" where
  "is_ascii_alphabetic c \<longleftrightarrow> ascii_range 65 90 c \<or> ascii_range 97 122 c"

definition is_ascii_alphanumeric :: "char \<Rightarrow> bool" where
  "is_ascii_alphanumeric c \<longleftrightarrow> is_ascii_alphabetic c \<or> ascii_range 48 57 c"

definition is_ascii_whitespace :: "char \<Rightarrow> bool" where
  "is_ascii_whitespace c \<longleftrightarrow> (of_char c :: nat) \<in> {9, 10, 12, 13, 32}"

text \<open>The end of a run of bytes that satisfy \<open>P\<close>, starting at \<open>i\<close>.\<close>

definition run_end :: "(char \<Rightarrow> bool) \<Rightarrow> string \<Rightarrow> nat \<Rightarrow> nat" where
  "run_end P s i = i + length (takeWhile P (drop i s))"

lemma run_end_ge: "i \<le> run_end P s i"
  by (simp add: run_end_def)

lemma run_end_le: "i \<le> length s \<Longrightarrow> run_end P s i \<le> length s"
  using length_takeWhile_le [of P "drop i s"] by (simp add: run_end_def)

section \<open>Balanced brackets\<close>

function brace_loop :: "string \<Rightarrow> bool \<Rightarrow> nat \<Rightarrow> int \<Rightarrow> bool \<Rightarrow> bool \<Rightarrow> nat option option" where
  "brace_loop content gemma_quotes i depth in_string in_gemma_string =
     (if length content \<le> i then Some None
      else if gemma_quotes \<and> \<not> in_string \<and> \<not> is_char_boundary content i then None
      else if gemma_quotes \<and> \<not> in_string \<and> starts_with (drop i content) gemma_quote
      then brace_loop content gemma_quotes (i + length gemma_quote) depth in_string (\<not> in_gemma_string)
      else if in_gemma_string
      then brace_loop content gemma_quotes (i + 1) depth in_string in_gemma_string
      else let b = content ! i in
        if in_string then
          (if b = backslash \<and> i + 1 < length content
           then brace_loop content gemma_quotes (i + 2) depth in_string in_gemma_string
           else brace_loop content gemma_quotes (i + 1) depth (b \<noteq> dquote) in_gemma_string)
        else if b = dquote then brace_loop content gemma_quotes (i + 1) depth True in_gemma_string
        else if b = CHR ''{''
        then brace_loop content gemma_quotes (i + 1) (depth + 1) in_string in_gemma_string
        else if b = CHR ''}'' then
          (if depth - 1 = 0 then Some (Some i)
           else brace_loop content gemma_quotes (i + 1) (depth - 1) in_string in_gemma_string)
        else brace_loop content gemma_quotes (i + 1) depth in_string in_gemma_string)"
  by pat_completeness auto
termination
  by (relation "measure (\<lambda>(content, _, i, _). length content - i)") (auto simp: gemma_quote_def)

definition balanced_brace_end :: "string \<Rightarrow> nat \<Rightarrow> bool \<Rightarrow> nat option option" where
  "balanced_brace_end content brace_start gemma_quotes =
     brace_loop content gemma_quotes brace_start 0 False False"

function bracket_loop :: "string \<Rightarrow> nat \<Rightarrow> int \<Rightarrow> bool \<Rightarrow> nat option" where
  "bracket_loop src i depth in_string =
     (if length src \<le> i then None
      else let b = src ! i in
        if in_string then
          (if b = backslash \<and> i + 1 < length src then bracket_loop src (i + 2) depth in_string
           else bracket_loop src (i + 1) depth (b \<noteq> dquote))
        else if b = dquote then bracket_loop src (i + 1) depth True
        else if b = CHR ''['' \<or> b = CHR ''{'' then bracket_loop src (i + 1) (depth + 1) in_string
        else if b = CHR '']'' \<or> b = CHR ''}'' then
          (if depth - 1 = 0 then Some i else bracket_loop src (i + 1) (depth - 1) in_string)
        else bracket_loop src (i + 1) depth in_string)"
  by pat_completeness auto
termination
  by (relation "measure (\<lambda>(src, i, _). length src - i)") auto

definition balanced_bracket_end :: "string \<Rightarrow> nat \<Rightarrow> nat option" where
  "balanced_bracket_end src start = bracket_loop src start 0 False"

declare brace_loop.simps [simp del] bracket_loop.simps [simp del]

lemma brace_loop_bounds:
  "brace_loop src g i d s q = Some (Some e) \<Longrightarrow> i \<le> e \<and> e < length src \<and> src ! e = CHR ''}''"
proof (induction "length src - i" arbitrary: i g d s q rule: less_induct)
  case less
  have IH: "i \<le> e \<and> e < length src \<and> src ! e = CHR ''}''" if "brace_loop src g j d s q = Some (Some e)" "i < j" "i < length src" for j g d s q
    using less.hyps [of j g d s q] that diff_less_mono2 [of i j] by fastforce
  note IHs = IH [where j = "Suc i"] IH [where j = "Suc (Suc i)"] IH [where j = "Suc (Suc (Suc (Suc (Suc i))))"]
  show ?case
    using less.prems
    by (subst (asm) brace_loop.simps) (auto simp: Let_def gemma_quote_def split: if_splits dest: IHs)
qed

lemma bracket_loop_bounds:
  "bracket_loop src i d s = Some e \<Longrightarrow> i \<le> e \<and> e < length src \<and> src ! e \<in> {CHR '']'', CHR ''}''}"
proof (induction "length src - i" arbitrary: i d s rule: less_induct)
  case less
  have IH: "i \<le> e \<and> e < length src \<and> src ! e \<in> {CHR '']'', CHR ''}''}" if "bracket_loop src j d s = Some e" "i < j" "i < length src" for j d s
    using less.hyps [of j d s] that diff_less_mono2 [of i j] by fastforce
  note IHs = IH [where j = "Suc i"] IH [where j = "Suc (Suc i)"]
  show ?case
    using less.prems
    by (subst (asm) bracket_loop.simps) (auto simp: Let_def gemma_quote_def split: if_splits dest: IHs)
qed

section \<open>Arrays and quoted spans\<close>

text \<open>\<^verbatim>\<open>decode_array_items\<close>: values with or without commas between them, up to the first that
  does not parse.\<close>

function decode_items :: "json_lib \<Rightarrow> string \<Rightarrow> nat \<Rightarrow> json_value list \<Rightarrow> json_value list option" where
  "decode_items js body i items =
     (let j = run_end (\<lambda>c. c \<in> {CHR '' '', CHR 0x09, CHR 0x0D, CHR 0x0A, CHR '',''}) body i in
      if length body \<le> i \<or> length body \<le> j \<or> body ! j = CHR '']'' then Some items
      else case str_from body j of
          None \<Rightarrow> None
        | Some rest \<Rightarrow>
            (case js_next js rest of
               None \<Rightarrow> Some items
             | Some (v, consumed) \<Rightarrow>
                 if consumed = 0 then Some items else decode_items js body (j + consumed) (items @ [v])))"
  by pat_completeness auto
termination
proof (relation "measure (\<lambda>(js, body, i, items). length body - i)", goal_cases)
  case (2 js body i items j rest x v n)
  then have "i \<le> j" using run_end_ge by blast
  with 2 show ?case by auto
qed simp

definition decode_array_items :: "json_lib \<Rightarrow> string \<Rightarrow> json_value list option" where
  "decode_array_items js body = decode_items js body 0 []"

declare decode_items.simps [simp del]

definition json_quote :: "json_lib \<Rightarrow> string \<Rightarrow> string" where
  "json_quote js s = js_print js (JString s)"

text \<open>\<^verbatim>\<open>normalise_gemma_quoted_strings\<close>, the text from the current index on.\<close>

function normalise_gemma_quoted_strings :: "json_lib \<Rightarrow> string \<Rightarrow> string" where
  "normalise_gemma_quoted_strings js src =
     (if src = [] then []
      else if \<not> starts_with src gemma_quote
      then take (char_len src) src @ normalise_gemma_quoted_strings js (drop (char_len src) src)
      else let body = drop (length gemma_quote) src in
        case str_find body gemma_quote of
          None \<Rightarrow> src
        | Some rel_end \<Rightarrow>
            json_quote js (take rel_end body)
            @ normalise_gemma_quoted_strings js (drop (rel_end + length gemma_quote) body))"
  by pat_completeness auto
termination
  by (relation "measure (\<lambda>(js, src). length src)") (auto simp: char_len_def gemma_quote_def)

declare normalise_gemma_quoted_strings.simps [simp del]

function comma_loop :: "string \<Rightarrow> nat \<Rightarrow> nat \<Rightarrow> int \<Rightarrow> bool \<Rightarrow> string list \<Rightarrow> string list" where
  "comma_loop src start i depth in_string parts =
     (if length src \<le> i then parts @ [drop start src]
      else let b = src ! i in
        if in_string then
          (if b = backslash \<and> i + 1 < length src then comma_loop src start (i + 2) depth in_string parts
           else comma_loop src start (i + 1) depth (b \<noteq> dquote) parts)
        else if b = dquote then comma_loop src start (i + 1) depth True parts
        else if b = CHR ''['' \<or> b = CHR ''{'' then comma_loop src start (i + 1) (depth + 1) in_string parts
        else if b = CHR '']'' \<or> b = CHR ''}'' then comma_loop src start (i + 1) (depth - 1) in_string parts
        else if b = CHR '','' \<and> depth = 0
        then comma_loop src (i + 1) (i + 1) depth in_string (parts @ [sub src start i])
        else comma_loop src start (i + 1) depth in_string parts)"
  by pat_completeness auto
termination
  by (relation "measure (\<lambda>(src, start, i, _). length src - i)") auto

declare comma_loop.simps [simp del]

definition split_top_level_commas :: "string \<Rightarrow> string list" where
  "split_top_level_commas src = comma_loop src 0 0 0 False []"

lemma length_sub [simp]: "length (sub s i j) \<le> length s"
  by (simp add: sub_def)

lemma comma_loop_le:
  "p \<in> set (comma_loop src start i d s parts) \<Longrightarrow> \<forall>q \<in> set parts. length q \<le> length src
     \<Longrightarrow> length p \<le> length src"
proof (induction "length src - i" arbitrary: start i d s parts rule: less_induct)
  case less
  have IH: "length p \<le> length src"
    if "p \<in> set (comma_loop src st j d' s' ps)" "\<forall>q \<in> set ps. length q \<le> length src"
      "i < j" "i < length src" for st j d' s' ps
    using less.hyps [where i = j and parts = ps] that diff_less_mono2 [of i j] by blast
  have split: "length p \<le> length src"
    if "p \<in> set (comma_loop src st (Suc i) d' s' (parts @ [sub src start i]))" "i < length src" for st d' s'
    using IH [OF that(1)] that(2) less.prems(2) by simp
  note IHs = IH [where j = "Suc i"] IH [where j = "Suc (Suc i)"] split
  show ?case
    using less.prems
    by (subst (asm) comma_loop.simps) (auto simp: Let_def split: if_splits dest: IHs)
qed

lemma split_commas_le: "p \<in> set (split_top_level_commas src) \<Longrightarrow> length p \<le> length src"
  using comma_loop_le [of p src 0 0 0 False "[]"] by (simp add: split_top_level_commas_def)

section \<open>Gemma arguments to JSON\<close>

definition key_char :: "char \<Rightarrow> bool" where
  "key_char c \<longleftrightarrow> is_ascii_alphanumeric c \<or> c \<in> {CHR ''_'', CHR ''.'', CHR ''-''}"

definition next_key_follows :: "string \<Rightarrow> nat \<Rightarrow> bool" where
  "next_key_follows src pos =
     (let i = run_end is_ascii_whitespace src pos in
      if length src \<le> i \<or> \<not> (is_ascii_alphabetic (src ! i) \<or> src ! i = CHR ''_'') then False
      else let k = run_end is_ascii_whitespace src (run_end key_char src i)
           in k < length src \<and> src ! k = CHR '':'')"

text \<open>The end of a bare value: a closing brace, or a comma in front of the next key.\<close>

function value_end :: "string \<Rightarrow> nat \<Rightarrow> nat" where
  "value_end src i =
     (if length src \<le> i then i
      else if src ! i = CHR ''}'' \<or> (src ! i = CHR '','' \<and> next_key_follows src (i + 1)) then i
      else value_end src (i + 1))"
  by pat_completeness auto
termination
  by (relation "measure (\<lambda>(src, i). length src - i)") auto

declare value_end.simps [simp del]

lemma value_end_ge: "i \<le> value_end src i"
proof (induction src i rule: value_end.induct)
  case (1 src i)
  then show ?case by (subst value_end.simps) (auto dest: Suc_leD)
qed

primrec widest :: "string list \<Rightarrow> nat" where
  "widest [] = 0"
| "widest (e # es) = max (length e) (widest es)"

lemma widest_le: "(\<And>e. e \<in> set es \<Longrightarrow> length e \<le> n) \<Longrightarrow> widest es \<le> n"
  by (induction es) auto

lemma widest_split: "widest (split_top_level_commas src) \<le> length src"
  by (rule widest_le) (rule split_commas_le)

text \<open>
  What follows a \<^verbatim>\<open>{\<close> or \<^verbatim>\<open>,\<close> at \<open>i\<close>: a key and its colon, up to the value, with the key quoted;
  or no key, up to where the search for one ended.  Then the text that replaces it.
\<close>

definition key_at :: "json_lib \<Rightarrow> string \<Rightarrow> nat \<Rightarrow> bool \<times> nat \<times> string" where
  "key_at js src i =
     (let key_start = i + 1;
          name_start = run_end is_ascii_whitespace src key_start;
          name_end = run_end key_char src name_start;
          colon = run_end is_ascii_whitespace src name_end;
          v = run_end is_ascii_whitespace src (colon + 1)
      in if name_start < name_end \<and> colon < length src \<and> src ! colon = CHR '':'' then
           (True, v, [src ! i] @ sub src key_start name_start @ json_quote js (sub src name_start name_end)
              @ sub src name_end colon @ '':'' @ sub src (colon + 1) v)
         else (False, name_end, [src ! i] @ sub src key_start name_end))"

definition bare_value :: "json_lib \<Rightarrow> string \<Rightarrow> string" where
  "bare_value js raw = (if js_parse js (trim raw) \<noteq> None then raw else json_quote js (trim raw))"

text \<open>
  \<^verbatim>\<open>quote_gemma_array_elements\<close> with its loop over the elements, and
  \<^verbatim>\<open>quote_gemma_object_keys\<close> with its loop at index \<open>i\<close>: the source's recursion between the
  two, on ever shorter text.
\<close>

lemma length_sub_less: "i < j \<Longrightarrow> j < length s \<Longrightarrow> length (sub s (Suc i) j) < length s"
  by (simp add: sub_def)

lemma trim_sub_less: "trim s \<noteq> [] \<Longrightarrow> length (sub (trim s) (Suc 0) (length (trim s) - Suc 0)) < length s"
  using length_trim [of s] by (cases "trim s") (auto simp: sub_def)

lemma trim_le_max: "length (trim e) \<le> max (length e) n"
  using length_trim [of e] by (simp add: le_max_iff_disj)

lemma trim_sub_max:
  "trim s \<noteq> [] \<Longrightarrow> length (sub (trim s) (Suc 0) (length (trim s) - Suc 0)) < max (length s) n"
  using trim_sub_less [of s] by (simp add: less_max_iff_disj)

lemma array_end_past: "run_end P s j < e \<and> e < length s \<Longrightarrow> i < j \<Longrightarrow> length s - Suc e < length s - i"
  using run_end_ge [of j P s] by linarith

lemma run_end_past: "i < j \<Longrightarrow> i < run_end P s j"
  using run_end_ge less_le_trans by blast

lemma value_end_past: "i < j \<Longrightarrow> i < value_end s j"
  using value_end_ge less_le_trans by blast

lemma key_at_past: "key_at js src i = (b, j, t) \<Longrightarrow> i < j"
  unfolding key_at_def Let_def by (auto simp: run_end_past less_SucI split: if_splits)

lemma key_at_less:
  assumes "(b, y) = key_at js src i" "(v, t) = y" "\<not> length src \<le> i"
  shows "length src - v < length src - i" "length src - value_end src v < length src - i"
    "v < e \<and> e < length src \<Longrightarrow> length src - Suc e < length src - i"
  using key_at_past [of js src i b v t] value_end_ge [of v src] assms by auto

function (sequential) quote_array :: "json_lib \<Rightarrow> string \<Rightarrow> string option"
  and quote_elements :: "json_lib \<Rightarrow> string list \<Rightarrow> string list \<Rightarrow> string list option"
  and quote_object :: "json_lib \<Rightarrow> string \<Rightarrow> nat \<Rightarrow> bool \<Rightarrow> string \<Rightarrow> string option" where
  "quote_array js body =
     (case quote_elements js (split_top_level_commas body) [] of
        None \<Rightarrow> None
      | Some out \<Rightarrow> Some (join '','' out))"
| "quote_elements js [] out = Some out"
| "quote_elements js (element # es) out =
     (let stripped = trim element in
      if stripped = [] \<or> starts_with stripped [dquote] then quote_elements js es (out @ [element])
      else if starts_with stripped ''{'' then
        (case quote_object js stripped 0 False [] of
           None \<Rightarrow> None
         | Some q \<Rightarrow> quote_elements js es (out @ [q]))
      else if starts_with stripped ''['' then
        (if balanced_bracket_end stripped 0 = Some (length stripped - 1) then
           (case quote_array js (sub stripped 1 (length stripped - 1)) of
              None \<Rightarrow> None
            | Some q \<Rightarrow> quote_elements js es (out @ [''['' @ q @ '']'']))
         else quote_elements js es (out @ [element]))
      else if js_parse js stripped \<noteq> None then quote_elements js es (out @ [element])
      else quote_elements js es (out @ [json_quote js stripped]))"
| "quote_object js src i in_string out =
     (if length src \<le> i then Some out
      else let b = src ! i in
        if in_string \<and> b = backslash \<and> i + 1 < length src then
          (case str_slice src i (i + 2) of
             None \<Rightarrow> None
           | Some t \<Rightarrow> quote_object js src (i + 2) in_string (out @ t))
        else if \<not> in_string \<and> b = dquote then quote_object js src (i + 1) True (out @ [dquote])
        else if in_string \<or> (b \<noteq> CHR ''{'' \<and> b \<noteq> CHR '','') then
          (case str_from src i of
             None \<Rightarrow> None
           | Some rest \<Rightarrow>
               quote_object js src (i + char_len rest) (in_string \<and> b \<noteq> dquote)
                 (out @ take (char_len rest) rest))
        else
          (case key_at js src i of
             (False, j, t) \<Rightarrow> quote_object js src j False (out @ t)
           | (True, v, t) \<Rightarrow>
               if v < length src \<and> src ! v = CHR ''['' then
                 (case balanced_bracket_end src v of
                    None \<Rightarrow> Some (out @ t @ drop v src)
                  | Some arr_end \<Rightarrow>
                      if v < arr_end \<and> arr_end < length src then
                        (case quote_array js (sub src (v + 1) arr_end) of
                           None \<Rightarrow> None
                         | Some a \<Rightarrow>
                             quote_object js src (arr_end + 1) False (out @ t @ ''['' @ a @ '']''))
                      else None)
               else if v < length src \<and> src ! v \<noteq> dquote \<and> src ! v \<noteq> CHR ''{'' then
                 quote_object js src (value_end src v) False
                   (out @ t @ bare_value js (sub src v (value_end src v)))
               else quote_object js src v False (out @ t)))"
  by pat_completeness auto

termination
proof (relation "measures
    [\<lambda>x. case x of Inl (_, body) \<Rightarrow> length body | Inr (Inl (_, es, _)) \<Rightarrow> widest es
        | Inr (Inr (_, src, _)) \<Rightarrow> length src,
     \<lambda>x. case x of Inl _ \<Rightarrow> 2 | Inr (Inl _) \<Rightarrow> 1 | Inr (Inr _) \<Rightarrow> 0,
     \<lambda>x. case x of Inl _ \<Rightarrow> 0 | Inr (Inl (_, es, _)) \<Rightarrow> length es
        | Inr (Inr (_, src, i, _)) \<Rightarrow> length src - i]",
   simp_all add: le_less [symmetric] widest_split trim_le_max trim_sub_max length_sub_less
     less_SucI char_len_def
     run_end_past value_end_past diff_less_mono2)
qed (blast dest: key_at_less)+

declare quote_array.simps [simp del] quote_elements.simps [simp del] quote_object.simps [simp del]

definition quote_gemma_array_elements :: "json_lib \<Rightarrow> string \<Rightarrow> string option" where
  "quote_gemma_array_elements = quote_array"

definition quote_gemma_object_keys :: "json_lib \<Rightarrow> string \<Rightarrow> string option" where
  "quote_gemma_object_keys js src = quote_object js src 0 False []"

definition gemma_arguments_to_json :: "json_lib \<Rightarrow> string \<Rightarrow> json_value option option" where
  "gemma_arguments_to_json js args_src =
     (let args = trim args_src in
      if args = [] then Some (Some (JObject []))
      else case quote_gemma_object_keys js (''{'' @ normalise_gemma_quoted_strings js args @ ''}'') of
          None \<Rightarrow> None
        | Some src \<Rightarrow> Some (case js_parse js src of Some (JObject kvs) \<Rightarrow> Some (JObject kvs) | _ \<Rightarrow> None))"

section \<open>Panics\<close>

definition is_ascii :: "string \<Rightarrow> bool" where
  "is_ascii s \<longleftrightarrow> (\<forall>c \<in> set s. (of_char c :: nat) < 128)"

lemma ascii_boundary:
  assumes "is_ascii s" "i \<le> length s"
  shows "is_char_boundary s i"
proof (cases "i < length s")
  case True
  with assms(1) have "(of_char (s ! i) :: nat) < 128" by (simp add: is_ascii_def)
  with True show ?thesis by (simp add: is_char_boundary_def is_cont_byte_def)
qed (use assms in \<open>simp add: is_char_boundary_def\<close>)

lemma starts_gemma: "starts_with (drop i s) gemma_quote \<Longrightarrow> i < length s \<Longrightarrow> s ! i = CHR ''<''"
  by (simp add: starts_with_def gemma_quote_def flip: Cons_nth_drop_Suc)

lemma ascii_from: "is_ascii s \<Longrightarrow> i \<le> length s \<Longrightarrow> str_from s i = Some (drop i s)"
  by (simp add: str_from_def ascii_boundary)

lemma ascii_slice: "is_ascii s \<Longrightarrow> i \<le> j \<Longrightarrow> j \<le> length s \<Longrightarrow> str_slice s i j = Some (sub s i j)"
  by (simp add: str_slice_def ascii_boundary)

lemma brace_loop_ascii: "is_ascii src \<Longrightarrow> brace_loop src g i d s q \<noteq> None"
proof (induction "length src - i" arbitrary: i g d s q rule: less_induct)
  case less
  have IH: "brace_loop src g j d' s' q' \<noteq> None" if "i < j" "i < length src" for j g d' s' q'
    using less that diff_less_mono2 [of i j] by blast
  show ?case
  proof (cases "length src \<le> i")
    case False
    then have "i < length src" by simp
    with IH less.prems ascii_boundary [of src i] show ?thesis
      by (subst brace_loop.simps) (simp add: Let_def gemma_quote_def)
  qed (subst brace_loop.simps, simp)
qed

lemma brace_plain:
  assumes "i < length s" "is_char_boundary s i" "\<not> starts_with (drop i s) gemma_quote"
    and "s ! i \<noteq> dquote" "s ! i \<noteq> CHR ''}''"
  shows "brace_loop s True i d False False
    = brace_loop s True (Suc i) (if s ! i = CHR ''{'' then d + 1 else d) False False"
proof -
  define j where "j = Suc i"
  have "brace_loop s True i d False False = brace_loop s True j (if s ! i = CHR ''{'' then d + 1 else d) False False"
    using assms unfolding j_def by (subst brace_loop.simps [of s True i]) (simp add: Let_def)
  then show ?thesis by (simp add: j_def)
qed

text \<open>
  A Gemma tool call that contains a character outside ASCII panics the scanner.  The scan for
  the closing brace slices the text at every byte outside a JSON string, so it stops at the
  second byte of the first such character, whatever follows; over ASCII text it never does.
\<close>

lemma gemma_scan_panics_on_multibyte:
  assumes "\<forall>c \<in> set u. (of_char c :: nat) < 128 \<and> c \<notin> {dquote, CHR ''}'', CHR ''<''}"
    and "\<not> is_cont_byte b" "b \<notin> {dquote, CHR ''}'', CHR ''<''}" "is_cont_byte c"
  shows "balanced_brace_end (''{'' @ u @ [b, c] @ v) 0 True = None
     \<and> (\<forall>s i. is_ascii s \<longrightarrow> balanced_brace_end s i True \<noteq> None)"
proof
  define s where "s = ''{'' @ u @ [b, c] @ v"
  let ?n = "Suc (length u)"
  have nth: "s ! i = (if i = 0 then CHR ''{'' else (u @ [b]) ! (i - 1))" if "i \<le> ?n" for i
    using that by (auto simp: s_def nth_append nth_Cons')
  have plain: "\<not> is_cont_byte (s ! i) \<and> s ! i \<notin> {dquote, CHR ''}'', CHR ''<''}" if "i \<le> ?n" for i
  proof (cases "i = 0 \<or> i = ?n")
    case True
    with assms(2,3) show ?thesis by (auto simp: nth is_cont_byte_def nth_append)
  next
    case False
    with that have "i - 1 < length u" by auto
    with False that have u: "s ! i = u ! (i - 1)" "u ! (i - 1) \<in> set u" by (simp_all add: nth nth_append)
    have "(of_char (s ! i) :: nat) < 128 \<and> s ! i \<notin> {dquote, CHR ''}'', CHR ''<''}"
      unfolding u(1) using assms(1) u(2) by (rule bspec)
    then show ?thesis by (simp add: is_cont_byte_def)
  qed
  have len: "?n + 1 < length s" and last: "s ! (?n + 1) = c"
    by (simp_all add: s_def nth_append)
  have step: "brace_loop s True i d False False = brace_loop s True (Suc i) (if s ! i = CHR ''{'' then d + 1 else d) False False"
    if "i \<le> ?n" for i d
  proof -
    have "i < length s" "is_char_boundary s i" "\<not> starts_with (drop i s) gemma_quote"
      using plain [OF that] that len starts_gemma by (auto simp: is_char_boundary_def)
    with plain [OF that] show ?thesis by (intro brace_plain) auto
  qed
  have "brace_loop s True i d False False = None" if "i \<le> ?n + 1" for i d
    using that
  proof (induction "?n + 1 - i" arbitrary: i d)
    case 0
    then have "i = ?n + 1" by simp
    with len last assms(4) show ?case
      by (subst brace_loop.simps) (simp add: is_char_boundary_def)
  next
    case (Suc k)
    then show ?case using step [of i d] by simp
  qed
  from this [of 0 0] show "balanced_brace_end (''{'' @ u @ [b, c] @ v) 0 True = None"
    by (simp add: balanced_brace_end_def s_def)
qed (simp add: balanced_brace_end_def brace_loop_ascii)

lemma gemma_scan_panics_on_multibyte_witness:
  "balanced_brace_end (''{city:S'' @ [CHR 0xC3, CHR 0xA3] @ ''o Paulo}'') 0 True = None"
  using gemma_scan_panics_on_multibyte [of "''city:S''" "CHR 0xC3" "CHR 0xA3" "''o Paulo}''"]
  by (simp add: is_cont_byte_def)

lemma ascii_parts:
  "is_ascii (take n s)" "is_ascii (drop n s)" "is_ascii (sub s i j)" if "is_ascii s"
  using that by (auto simp: is_ascii_def sub_def dest!: in_set_takeD in_set_dropD)

lemma ascii_append [simp]: "is_ascii (s @ t) \<longleftrightarrow> is_ascii s \<and> is_ascii t"
  by (auto simp: is_ascii_def)

lemma set_trim: "set (trim s) \<subseteq> set s"
proof -
  have 1: "set (trim_start t) \<subseteq> set t" for t
  proof (induction t rule: trim_start.induct)
    case (1 t)
    then show ?case using set_drop_subset [of "ws_prefix_len t" t] by (subst trim_start.simps) auto
  qed
  have 2: "set (trim_end t) \<subseteq> set t" for t
  proof (induction t rule: trim_end.induct)
    case (1 t)
    then show ?case using set_take_subset [of "length t - ws_suffix_len t" t] by (subst trim_end.simps) auto
  qed
  show ?thesis unfolding trim_def using 1 2 by blast
qed

lemma ascii_trim: "is_ascii s \<Longrightarrow> is_ascii (trim s)"
  using set_trim by (force simp: is_ascii_def)

lemma comma_loop_ascii:
  "is_ascii src \<Longrightarrow> \<forall>q \<in> set parts. is_ascii q \<Longrightarrow> \<forall>q \<in> set (comma_loop src start i d s parts). is_ascii q"
proof (induction "length src - i" arbitrary: start i d s parts rule: less_induct)
  case less
  have IH: "Ball (set (comma_loop src st j d' s' ps)) is_ascii"
    if "i < j" "i < length src" "Ball (set ps) is_ascii" for st j d' s' ps
    using less.hyps [where i = j and parts = ps] less.prems(1) that diff_less_mono2 [of i j] by blast
  have parts: "Ball (set (parts @ [sub src start i])) is_ascii" "Ball (set (parts @ [drop start src])) is_ascii"
    "Ball (set parts) is_ascii"
    using less.prems ascii_parts by auto
  show ?case
  proof (cases "length src \<le> i")
    case True
    with parts show ?thesis by (subst comma_loop.simps) simp
  next
    case False
    then have i: "i < length src" by simp
    note IH' = IH [OF _ i parts(1)] IH [OF _ i parts(3)]
    have "P (comma_loop src start i d s parts)"
      if "\<And>st j d' s'. i < j \<Longrightarrow> P (comma_loop src st j d' s' parts)"
        "\<And>st j d' s'. i < j \<Longrightarrow> P (comma_loop src st j d' s' (parts @ [sub src start i]))" for P
      using False by (subst comma_loop.simps) (simp add: Let_def that)
    from this [of "\<lambda>r. Ball (set r) is_ascii"] IH' show ?thesis by blast
  qed
qed

lemma split_commas_ascii: "is_ascii src \<Longrightarrow> e \<in> set (split_top_level_commas src) \<Longrightarrow> is_ascii e"
  using comma_loop_ascii [of src "[]"] by (simp add: split_top_level_commas_def)

lemma quote_object_ascii:
  assumes ascii: "is_ascii src"
    and array: "\<And>body. is_ascii body \<Longrightarrow> length body < length src \<Longrightarrow> quote_array js body \<noteq> None"
  shows "quote_object js src i q out \<noteq> None"
proof (induction "length src - i" arbitrary: i q out rule: less_induct)
  case less
  have IH: "\<exists>y. quote_object js src j q' out' = Some y" if "i < j" "i < length src" for j q' out'
    using less that diff_less_mono2 [of i j] by blast
  show ?case
  proof (cases "length src \<le> i")
    case False
    then have i: "i < length src" by simp
    have slice: "Suc i < length src \<Longrightarrow> str_slice src i (Suc (Suc i)) = Some (sub src i (Suc (Suc i)))"
      "str_from src i = Some (drop i src)"
      using ascii i by (simp_all add: ascii_slice ascii_from)
    have arr: "v < e \<and> e < length src \<and> (\<exists>q. quote_array js (sub src (v + 1) e) = Some q)"
      if "balanced_bracket_end src v = Some e" "src ! v = CHR ''[''" for v e
    proof -
      have "v \<le> e \<and> e < length src \<and> src ! e \<in> {CHR '']'', CHR ''}''}"
        using that(1) bracket_loop_bounds unfolding balanced_bracket_end_def by blast
      with that(2) have "v < e" "e < length src" by (auto intro: le_neq_trans)
      moreover have "quote_array js (sub src (v + 1) e) \<noteq> None"
        using calculation by (intro array ascii_parts ascii) (auto intro: length_sub_less)
      ultimately show ?thesis by blast
    qed
    obtain b v t where k: "key_at js src i = (b, v, t)" by (cases "key_at js src i") auto
    then have past: "i < v" by (rule key_at_past)
    then have past': "i < value_end src v" "\<And>e. v < e \<Longrightarrow> i < Suc e"
      using value_end_ge [of v src] by auto
    have bracket: "\<exists>y. (case balanced_bracket_end src v of
        None \<Rightarrow> Some (out @ t @ drop v src)
      | Some arr_end \<Rightarrow>
          if v < arr_end \<and> arr_end < length src then
            (case quote_array js (sub src (v + 1) arr_end) of
               None \<Rightarrow> None
             | Some a \<Rightarrow> quote_object js src (arr_end + 1) False (out @ t @ ''['' @ a @ '']''))
          else None) = Some y" if "src ! v = CHR ''[''"
    proof (cases "balanced_bracket_end src v")
      case (Some e)
      from arr [OF Some that] obtain a where "v < e" "e < length src" "quote_array js (sub src (v + 1) e) = Some a"
        by blast
      with Some past i show ?thesis by (simp add: IH)
    qed simp
    show ?thesis
      using i past past' bracket
      by (subst quote_object.simps) (cases b; simp add: Let_def slice k char_len_def IH)
  qed (subst quote_object.simps, simp)
qed

lemma quote_elements_ascii:
  assumes object: "\<And>src. is_ascii src \<Longrightarrow> length src \<le> n \<Longrightarrow> quote_object js src 0 False [] \<noteq> None"
    and array: "\<And>body. is_ascii body \<Longrightarrow> length body < n \<Longrightarrow> quote_array js body \<noteq> None"
  shows "\<forall>e \<in> set es. is_ascii e \<and> length e \<le> n \<Longrightarrow> quote_elements js es out \<noteq> None"
proof (induction es arbitrary: out)
  case Nil
  then show ?case by (simp add: quote_elements.simps)
next
  case (Cons e es)
  then have IH: "\<exists>y. quote_elements js es out' = Some y" for out' by simp
  have e: "is_ascii (trim e)" "length (trim e) \<le> n" using Cons.prems length_trim [of e] by (auto simp: ascii_trim)
  have sub: "\<exists>y. quote_array js (sub (trim e) 1 (length (trim e) - 1)) = Some y" if "trim e \<noteq> []"
  proof -
    have "length (sub (trim e) 1 (length (trim e) - 1)) < n"
      using trim_sub_less [OF that] Cons.prems by auto
    with array [OF ascii_parts(3) [OF e(1)]] show ?thesis by blast
  qed
  have obj: "\<exists>y. quote_object js (trim e) 0 False [] = Some y" using object [OF e] by blast
  show ?case
    using IH obj sub
    by (cases "trim e = []") (subst quote_elements.simps, auto simp: Let_def split: option.splits)+
qed

lemma quote_array_ascii: "is_ascii body \<Longrightarrow> quote_array js body \<noteq> None"
proof (induction "length body" arbitrary: body rule: less_induct)
  case less
  have "quote_elements js (split_top_level_commas body) [] \<noteq> None"
  proof (rule quote_elements_ascii [of "length body"])
    show "quote_object js src 0 False [] \<noteq> None" if "is_ascii src" "length src \<le> length body" for src
      using quote_object_ascii [OF that(1)] less.hyps that(2) by (meson le_trans less_le_trans)
    show "quote_array js b \<noteq> None" if "is_ascii b" "length b < length body" for b using less.hyps that by blast
    show "\<forall>e \<in> set (split_top_level_commas body). is_ascii e \<and> length e \<le> length body"
      using less.prems split_commas_ascii split_commas_le by blast
  qed
  then show ?case by (subst quote_array.simps) auto
qed

lemma normalise_ascii:
  assumes "\<And>t. is_ascii t \<Longrightarrow> is_ascii (json_quote js t)"
  shows "is_ascii src \<Longrightarrow> is_ascii (normalise_gemma_quoted_strings js src)"
proof (induction "length src" arbitrary: src rule: less_induct)
  case less
  have IH: "is_ascii (normalise_gemma_quoted_strings js (drop n src))" if "0 < n" "src \<noteq> []" for n
    using less.hyps [of "drop n src"] less.prems that ascii_parts(2) by simp
  have char: "0 < char_len src" "0 < length gemma_quote" "\<And>n. 0 < n + length gemma_quote + length gemma_quote"
    by (simp_all add: char_len_def gemma_quote_def)
  have "is_ascii (if src = [] then []
      else if \<not> starts_with src gemma_quote
      then take (char_len src) src @ normalise_gemma_quoted_strings js (drop (char_len src) src)
      else let body = drop (length gemma_quote) src in
        case str_find body gemma_quote of
          None \<Rightarrow> src
        | Some rel_end \<Rightarrow>
            json_quote js (take rel_end body)
            @ normalise_gemma_quoted_strings js (drop (rel_end + length gemma_quote) body))"
  proof (cases "src = []")
    case False
    let ?body = "drop (length gemma_quote) src"
    have "is_ascii (take (char_len src) src @ normalise_gemma_quoted_strings js (drop (char_len src) src))"
      using IH [OF char(1) False] ascii_parts(1) [OF less.prems] by simp
    moreover have "is_ascii (json_quote js (take r ?body)
        @ normalise_gemma_quoted_strings js (drop (r + length gemma_quote) ?body))" for r
      unfolding ascii_append drop_drop add.assoc
      by (intro conjI assms IH ascii_parts less.prems False) (simp add: gemma_quote_def)
    ultimately show ?thesis using less.prems False by (auto simp: Let_def split: option.split)
  qed (simp add: is_ascii_def)
  then show ?case by (subst normalise_gemma_quoted_strings.simps)
qed

text \<open>
  Repairing ASCII arguments never panics, whatever they contain and however they are nested,
  quoted or cut off, provided the JSON library prints ASCII text in ASCII.
\<close>

lemma heal_ascii_never_panics:
  assumes "\<And>t. is_ascii t \<Longrightarrow> is_ascii (js_print js (JString t))" "is_ascii args"
  shows "gemma_arguments_to_json js args \<noteq> None"
proof -
  have "is_ascii (''{'' @ normalise_gemma_quoted_strings js (trim args) @ ''}'')"
    unfolding ascii_append
  proof (intro conjI)
    show "is_ascii (normalise_gemma_quoted_strings js (trim args))"
      by (rule normalise_ascii) (use assms in \<open>simp_all add: json_quote_def ascii_trim\<close>)
  qed (simp_all add: is_ascii_def)
  then have "quote_gemma_object_keys js (''{'' @ normalise_gemma_quoted_strings js (trim args) @ ''}'') \<noteq> None"
    unfolding quote_gemma_object_keys_def by (intro quote_object_ascii quote_array_ascii)
  then show ?thesis by (auto simp: gemma_arguments_to_json_def Let_def)
qed

definition sample_js :: json_lib where
  "sample_js = \<lparr>js_parse = (\<lambda>_. None),
     js_print = (\<lambda>v. case v of JString t \<Rightarrow> [dquote] @ t @ [dquote] | _ \<Rightarrow> []), js_next = (\<lambda>_. None)\<rparr>"

lemma heal_ascii_never_panics_witness:
  "gemma_arguments_to_json sample_js ''unit:celsius,tags:[a,{b:c'' \<noteq> None"
  by (rule heal_ascii_never_panics) (simp_all add: sample_js_def is_ascii_def)

text \<open>
  A backslash in front of a character outside ASCII, inside a JSON string, panics the repair:
  it copies two bytes behind the backslash's place and cuts the character in half.
\<close>

lemma heal_escape_panics:
  "gemma_arguments_to_json js (''a:'' @ [dquote, backslash, CHR 0xC3, CHR 0xA9, dquote]) = None"
proof -
  let ?a = "''a:'' @ [dquote, backslash, CHR 0xC3, CHR 0xA9, dquote]"
  have t: "trim ?a = ?a"
    by (simp add: trim_def trim_start.simps trim_end.simps ws_prefix_len_def ws_suffix_len_def)
  have n: "normalise_gemma_quoted_strings js ?a = ?a"
    by (simp add: normalise_gemma_quoted_strings.simps char_len_def starts_with_def gemma_quote_def is_cont_byte_def)
  define src where "src = ''{'' @ ?a @ ''}''"
  have at: "length src = 9" "src ! 0 = CHR ''{''" "src ! 3 = dquote" "src ! 4 = backslash"
    by (simp_all add: src_def eval_nat_numeral)
  have k: "key_at js src 0 = (True, 3, ''{'' @ json_quote js ''a'' @ '':'')"
    by (simp add: src_def key_at_def run_end_def sub_def is_ascii_whitespace_def key_char_def
        is_ascii_alphanumeric_def is_ascii_alphabetic_def ascii_range_def eval_nat_numeral)
  have cut: "str_slice src 4 6 = None"
    by (simp add: str_slice_def src_def is_char_boundary_def is_cont_byte_def eval_nat_numeral)
  have 2: "quote_object js src 4 True out = None" for out
    by (subst quote_object.simps) (simp add: at cut)
  have 1: "quote_object js src 3 False out = None" for out
    by (subst quote_object.simps) (simp add: at 2)
  have "quote_object js src 0 False [] = None"
    by (subst quote_object.simps) (simp add: at k 1)
  then show ?thesis
    unfolding gemma_arguments_to_json_def quote_gemma_object_keys_def t n Let_def src_def by simp
qed

end
