(* ===== verification/ToolCalls.thy ===== *)
theory ToolCalls
  imports Healing OrdMap
begin

text \<open>
  The streaming parser that finds tool calls in a model's text
  (\<^verbatim>\<open>src/backend/common/tool_calls.rs\<close>).  It holds a buffer, looks for the first opening marker,
  and resolves it to a call, to text, or to a wait for more input.  An outer option is a panic
  (\<open>None\<close>), as in \<open>Healing\<close>; \<open>json_lib\<close> is the JSON library; \<^verbatim>\<open>serde_json\<close>'s object is a sorted
  map.  The counters of the tally are natural numbers.
\<close>

record parsed_call =
  pc_id :: "string option"
  pc_name :: string
  pc_arguments :: string

datatype parser_output = TextOut string | CallOut parsed_call

datatype protocol = Auto | TagJson | BracketJson | AnthropicXml | GemmaNative | FuncXml

datatype think_kind = ThinkXml | ThinkBracket | ThinkChannel

fun think_close :: "think_kind \<Rightarrow> string" where
  "think_close ThinkXml = ''</think>''"
| "think_close ThinkBracket = ''[/THINK]''"
| "think_close ThinkChannel = ''<channel|>''"

fun think_open :: "think_kind \<Rightarrow> string" where
  "think_open ThinkXml = ''<think>''"
| "think_open ThinkBracket = ''[THINK]''"
| "think_open ThinkChannel = ''<|channel>thought''"

definition tag_open :: string where "tag_open = ''<tool_call>''"
definition tag_close :: string where "tag_close = ''</tool_call>''"
definition bracket_tag :: string where "bracket_tag = ''[TOOL_CALLS]''"
definition bracket_closer :: string where "bracket_closer = ''[/TOOL_CALLS]''"
definition gemma_open :: string where "gemma_open = ''<|tool_call>''"
definition gemma_close :: string where "gemma_close = ''<tool_call|>''"
definition func_open :: string where "func_open = ''<function=''"
definition func_close :: string where "func_close = ''</function>''"
definition param_open :: string where "param_open = ''<parameter=''"
definition param_close :: string where "param_close = ''</parameter>''"
definition args_tag :: string where "args_tag = ''[ARGS]''"
definition call_id_tag :: string where "call_id_tag = ''[CALL_ID]''"
definition max_rehearsal_name_hold :: nat where "max_rehearsal_name_hold = 64"

lemmas tag_defs = tag_open_def tag_close_def bracket_tag_def bracket_closer_def gemma_open_def
  gemma_close_def func_open_def func_close_def param_open_def param_close_def args_tag_def call_id_tag_def

datatype trigger = TagT | BracketT | GemmaT | FuncT | RehearsalT | ThinkOpenT think_kind

datatype call_dialect = CleanJson | GemmaDialect | CommalessArray

record tool_call_tally =
  tt_clean :: nat
  tt_gemma_dialect :: nat
  tt_commaless_array :: nat
  tt_fell_through :: nat

definition tally_zero :: tool_call_tally where
  "tally_zero = \<lparr>tt_clean = 0, tt_gemma_dialect = 0, tt_commaless_array = 0, tt_fell_through = 0\<rparr>"

datatype resolution =
    NeedMore nat
  | NotACall nat bool
  | Complete nat nat call_dialect "parsed_call list"
  | EnterThink think_kind nat

record tool_parser =
  tp_protocol :: protocol
  tp_buf :: string
  tp_in_think :: "think_kind option"
  tp_enabled :: "string list option"
  tp_tally :: tool_call_tally
  tp_at_eos :: bool

definition tool_parser_new :: "protocol \<Rightarrow> tool_parser" where
  "tool_parser_new p = \<lparr>tp_protocol = p, tp_buf = [], tp_in_think = None, tp_enabled = None,
     tp_tally = tally_zero, tp_at_eos = False\<rparr>"

definition with_enabled_tools :: "string list \<Rightarrow> tool_parser \<Rightarrow> tool_parser" where
  "with_enabled_tools tools p = p\<lparr>tp_enabled := Some tools\<rparr>"

section \<open>Scanning\<close>

definition name_char :: "char \<Rightarrow> bool" where
  "name_char c \<longleftrightarrow> is_ascii_alphanumeric c \<or> c = CHR ''_'' \<or> c = CHR ''-''"

definition name_run_end :: "string \<Rightarrow> nat \<Rightarrow> nat" where
  "name_run_end s i = run_end name_char s i"

definition gemma_name_run_end :: "string \<Rightarrow> nat \<Rightarrow> nat" where
  "gemma_name_run_end s i = run_end (\<lambda>c. name_char c \<or> c = CHR ''.'') s i"

definition byte_at :: "string \<Rightarrow> nat \<Rightarrow> char option" where
  "byte_at s i = (if i < length s then Some (s ! i) else None)"

text \<open>\<^verbatim>\<open>i + (rest.len() - rest.trim_start().len())\<close>.\<close>

definition skip_ws :: "string \<Rightarrow> nat \<Rightarrow> nat" where
  "skip_ws s i = i + (length (drop i s) - length (trim_start (drop i s)))"

definition could_extend_meta :: "string \<Rightarrow> nat \<Rightarrow> string \<Rightarrow> bool" where
  "could_extend_meta buf cursor tag =
     (let tail = drop cursor buf in tail \<noteq> [] \<and> length tail < length tag \<and> starts_with tag tail)"

definition name_hold_start :: "string \<Rightarrow> nat" where
  "name_hold_start buf =
     length buf - length (takeWhile name_char (take max_rehearsal_name_hold (rev buf)))"

text \<open>\<^verbatim>\<open>safe_release_end\<close>: in front of the longest suffix that may begin one of the literals.\<close>

fun suffix_hold :: "string \<Rightarrow> string \<Rightarrow> nat \<Rightarrow> nat option" where
  "suffix_hold buf c 0 = None"
| "suffix_hold buf c (Suc k) =
     (if is_char_boundary buf (length buf - Suc k) \<and> starts_with c (drop (length buf - Suc k) buf)
      then Some (length buf - Suc k) else suffix_hold buf c k)"

definition safe_release_end :: "string \<Rightarrow> string list \<Rightarrow> nat" where
  "safe_release_end buf literals =
     (if buf = [] then 0
      else case fold (\<lambda>c best.
          case suffix_hold buf c (min (length c - 1) (length buf)) of
            None \<Rightarrow> best
          | Some start \<Rightarrow> Some (case best of None \<Rightarrow> start | Some b \<Rightarrow> min b start)) literals None of
          Some at \<Rightarrow> at
        | None \<Rightarrow> length buf)"

definition hold_literals :: "protocol \<Rightarrow> string list" where
  "hold_literals p =
     [''<think>'', ''[THINK]'', ''<|channel>thought'']
     @ (case p of
          Auto \<Rightarrow> [tag_open, bracket_tag, gemma_open, func_open, args_tag]
        | TagJson \<Rightarrow> [tag_open]
        | BracketJson \<Rightarrow> [bracket_tag]
        | AnthropicXml \<Rightarrow> [''<function_calls>'']
        | GemmaNative \<Rightarrow> [gemma_open]
        | FuncXml \<Rightarrow> [func_open])"

definition consider_trigger :: "string \<Rightarrow> string \<times> trigger \<Rightarrow> (nat \<times> trigger) option \<Rightarrow> (nat \<times> trigger) option" where
  "consider_trigger buf lt best =
     (case str_find buf (fst lt) of
        None \<Rightarrow> best
      | Some p \<Rightarrow>
          (case best of
             None \<Rightarrow> Some (p, snd lt)
           | Some (bp, _) \<Rightarrow> if p < bp then Some (p, snd lt) else best))"

definition triggers :: "protocol \<Rightarrow> bool \<Rightarrow> (string \<times> trigger) list" where
  "triggers p enabled =
     (let auto = (p = Auto) in
      map (\<lambda>k. (think_open k, ThinkOpenT k)) [ThinkXml, ThinkBracket, ThinkChannel]
      @ (if auto \<or> p = TagJson then [(tag_open, TagT)] else [])
      @ (if auto \<or> p = BracketJson then [(bracket_tag, BracketT)] else [])
      @ (if auto \<or> p = GemmaNative then [(gemma_open, GemmaT)] else [])
      @ (if auto \<or> p = FuncXml then [(func_open, FuncT)] else [])
      @ (if auto \<and> enabled then [(args_tag, RehearsalT)] else []))"

definition find_trigger :: "tool_parser \<Rightarrow> (nat \<times> trigger) option" where
  "find_trigger p = fold (consider_trigger (tp_buf p)) (triggers (tp_protocol p) (tp_enabled p \<noteq> None)) None"

section \<open>Values of calls\<close>

definition jget :: "json_value \<Rightarrow> string \<Rightarrow> json_value option" where
  "jget v k = (case v of JObject kvs \<Rightarrow> map_of kvs k | _ \<Rightarrow> None)"

definition as_str :: "json_value \<Rightarrow> string option" where
  "as_str v = (case v of JString s \<Rightarrow> Some s | _ \<Rightarrow> None)"

definition is_object :: "json_value \<Rightarrow> bool" where
  "is_object v = (case v of JObject _ \<Rightarrow> True | _ \<Rightarrow> False)"

definition first_of :: "json_value \<Rightarrow> string list \<Rightarrow> json_value option" where
  "first_of v ks = fold (\<lambda>k r. case r of None \<Rightarrow> jget v k | Some _ \<Rightarrow> r) ks None"

definition parse_tag_json :: "json_lib \<Rightarrow> string \<Rightarrow> parsed_call option" where
  "parse_tag_json js body =
     (case js_parse js body of
        None \<Rightarrow> None
      | Some v \<Rightarrow>
          (case Option.bind (jget v ''name'') as_str of
             None \<Rightarrow> None
           | Some name \<Rightarrow>
               Some \<lparr>pc_id = Option.bind (jget v ''id'') as_str, pc_name = name,
                 pc_arguments = (case first_of v [''arguments'', ''parameters'', ''args''] of
                    Some (JString s) \<Rightarrow> s
                  | Some a \<Rightarrow> js_print js a
                  | None \<Rightarrow> ''{}'')\<rparr>))"

definition call_from_value :: "json_lib \<Rightarrow> json_value \<Rightarrow> parsed_call option" where
  "call_from_value js v =
     (case Option.bind (jget v ''name'') as_str of
        None \<Rightarrow> None
      | Some name \<Rightarrow>
          Some \<lparr>pc_id = Option.bind (jget v ''id'') as_str, pc_name = name,
            pc_arguments = (case first_of v [''arguments'', ''parameters''] of
               Some (JString s) \<Rightarrow> s
             | Some (JObject kvs) \<Rightarrow> js_print js (JObject kvs)
             | _ \<Rightarrow> ''{}'')\<rparr>)"

text \<open>The start of the last parameter opened before \<open>pos\<close>, searching from \<open>i\<close>.\<close>

function last_param :: "string \<Rightarrow> nat \<Rightarrow> nat \<Rightarrow> nat option \<Rightarrow> nat option" where
  "last_param body pos i found =
     (case str_find (sub body i pos) param_open of
        None \<Rightarrow> found
      | Some rel \<Rightarrow>
          let j = i + rel + length param_open in
          if pos \<le> j then Some (i + rel) else last_param body pos j (Some (i + rel)))"
  by pat_completeness auto
termination
  by (relation "measure (\<lambda>(body, pos, i, found). pos - i)") (auto simp: param_open_def)

declare last_param.simps [simp del]

definition inside_open_parameter :: "string \<Rightarrow> nat \<Rightarrow> bool \<Rightarrow> bool" where
  "inside_open_parameter body pos at_eos =
     (case last_param body pos 0 None of
        None \<Rightarrow> False
      | Some param_start \<Rightarrow>
          (case str_find (drop param_start body) param_close of
             Some rel \<Rightarrow> pos < param_start + rel
           | None \<Rightarrow>
               if \<not> at_eos then True
               else case str_find (drop param_start body) func_close of
                   None \<Rightarrow> True
                 | Some rel \<Rightarrow> pos < param_start + rel))"

function func_close_from :: "string \<Rightarrow> bool \<Rightarrow> nat \<Rightarrow> nat option" where
  "func_close_from body at_eos search_from =
     (case str_find (drop search_from body) func_close of
        None \<Rightarrow> None
      | Some rel \<Rightarrow>
          let idx = search_from + rel in
          if \<not> inside_open_parameter body idx at_eos then Some idx
          else if length body \<le> idx then None
          else func_close_from body at_eos (idx + 1))"
  by pat_completeness auto
termination
  by (relation "measure (\<lambda>(body, at_eos, i). length body - i)") auto

declare func_close_from.simps [simp del]

definition func_close_index :: "string \<Rightarrow> nat \<Rightarrow> bool \<Rightarrow> nat option" where
  "func_close_index buf body_start at_eos = func_close_from (drop body_start buf) at_eos 0"

definition strip_suffix :: "string \<Rightarrow> string \<Rightarrow> string" where
  "strip_suffix s suf = (if ends_with s suf then take (length s - length suf) s else s)"

definition trim_param_value :: "string \<Rightarrow> string" where
  "trim_param_value val =
     (let v1 = (if starts_with val [nl] then tl val else val);
          v2 = strip_suffix v1 [nl]
      in rev (dropWhile (\<lambda>c. c = CHR '' '' \<or> c = CHR 0x09) (rev v2)))"

function param_loop :: "string \<Rightarrow> nat \<Rightarrow> (string, json_value) btree_map \<Rightarrow> json_value option" where
  "param_loop body cursor args =
     (case str_find (drop cursor body) param_open of
        None \<Rightarrow> Some (JObject args)
      | Some rel \<Rightarrow>
          let name_start = cursor + rel + length param_open;
              name_end = name_run_end body name_start
          in if name_end = name_start \<or> byte_at body name_end \<noteq> Some (CHR ''>'') then None
             else
               let val_start = run_end (\<lambda>c. c = CHR '' '' \<or> c = CHR 0x09) body (name_end + 1);
                   val_end = (case str_find (drop val_start body) param_open of
                       Some r \<Rightarrow> val_start + r | None \<Rightarrow> length body);
                   val = trim_param_value (strip_suffix (trim_end (sub body val_start val_end)) param_close)
               in if length body \<le> cursor then None
                  else param_loop body val_end
                     (bt_insert (sub body name_start name_end) (JString val) args))"
  by pat_completeness auto
termination
proof (relation "measure (\<lambda>(body, cursor, args). length body - cursor)", goal_cases)
  case (2 body cursor args rel ns ne vs ve val)
  have "cursor < ne + 1" using 2 run_end_ge [of ns name_char body] by (simp add: name_run_end_def)
  also have "\<dots> \<le> vs" using 2(5) run_end_ge by simp
  finally have vs: "cursor < vs" .
  have "cursor < ve \<or> ve = length body" using 2(6) vs by (auto split: option.splits)
  with 2 show ?case by auto
qed simp

declare param_loop.simps [simp del]

definition parse_parameters :: "string \<Rightarrow> json_value option" where
  "parse_parameters body = param_loop body 0 []"

definition parse_wrapped_func :: "json_lib \<Rightarrow> string \<Rightarrow> parsed_call option" where
  "parse_wrapped_func js body =
     (let name_start = length func_open; name_end = name_run_end body name_start in
      if name_end = name_start \<or> byte_at body name_end \<noteq> Some (CHR ''>'') then None
      else
        let inner_start = name_end + 1;
            inner_end = (case func_close_index body inner_start True of
                Some rel \<Rightarrow> inner_start + rel | None \<Rightarrow> length body)
        in case parse_parameters (sub body inner_start inner_end) of
            None \<Rightarrow> None
          | Some args \<Rightarrow> Some \<lparr>pc_id = None, pc_name = sub body name_start name_end,
                pc_arguments = js_print js args\<rparr>)"

section \<open>Resolving a marker\<close>

definition complete_one :: "nat \<Rightarrow> nat \<Rightarrow> call_dialect \<Rightarrow> parsed_call \<Rightarrow> resolution" where
  "complete_one text_end consumed_end dialect c = Complete text_end consumed_end dialect [c]"

definition resolve_tag :: "json_lib \<Rightarrow> string \<Rightarrow> nat \<Rightarrow> resolution" where
  "resolve_tag js buf at =
     (let body_start = at + length tag_open in
      case str_find (drop body_start buf) tag_close of
        None \<Rightarrow> NeedMore at
      | Some rel_close \<Rightarrow>
          let body = trim (sub buf body_start (body_start + rel_close));
              consumed_end = body_start + rel_close + length tag_close
          in case parse_tag_json js body of
               Some tc \<Rightarrow> complete_one at consumed_end CleanJson tc
             | None \<Rightarrow>
                 (case if starts_with body func_open then parse_wrapped_func js body else None of
                    Some tc \<Rightarrow> complete_one at consumed_end CleanJson tc
                  | None \<Rightarrow> NotACall consumed_end True))"

text \<open>\<^verbatim>\<open>consume_bracket_closer\<close>; \<open>None\<close> while the closer may still be arriving.  The same rule
  serves the closing tag of a Gemma call.\<close>

definition consume_closer :: "string \<Rightarrow> bool \<Rightarrow> string \<Rightarrow> nat \<Rightarrow> nat option" where
  "consume_closer closer at_eos buf i =
     (let j = skip_ws buf i; tail = drop j buf in
      if starts_with tail closer then Some (j + length closer)
      else if \<not> at_eos \<and> (tail = [] \<or> (length tail < length closer \<and> starts_with closer tail)) then None
      else Some i)"

definition resolve_bracket_array :: "json_lib \<Rightarrow> bool \<Rightarrow> string \<Rightarrow> nat \<Rightarrow> nat \<Rightarrow> resolution option" where
  "resolve_bracket_array js at_eos buf at body_at =
     (case balanced_bracket_end buf body_at of
        None \<Rightarrow> Some (NeedMore at)
      | Some close \<Rightarrow>
          (case decode_array_items js (sub buf (body_at + 1) close) of
             None \<Rightarrow> None
           | Some items \<Rightarrow>
               let strict_ok = (case js_parse js (sub buf body_at (close + 1)) of
                     Some (JArray _) \<Rightarrow> True | _ \<Rightarrow> False);
                   calls = List.map_filter (call_from_value js) items
               in Some (case consume_closer bracket_closer at_eos buf (close + 1) of
                     None \<Rightarrow> NeedMore at
                   | Some after \<Rightarrow>
                       if calls = [] then NotACall after True
                       else Complete at after (if strict_ok then CleanJson else CommalessArray) calls)))"

text \<open>A named call: an optional call id, an optional argument marker, then a JSON object.\<close>

definition resolve_named_args ::
  "json_lib \<Rightarrow> bool \<Rightarrow> string \<Rightarrow> nat \<Rightarrow> nat \<Rightarrow> string \<Rightarrow> nat \<Rightarrow> resolution option" where
  "resolve_named_args js at_eos buf at after_tag name cursor0 =
     (if \<not> starts_with (drop cursor0 buf) args_tag \<and> could_extend_meta buf cursor0 args_tag
      then Some (NeedMore at)
      else
        let cursor1 = (if starts_with (drop cursor0 buf) args_tag then cursor0 + length args_tag else cursor0);
            cursor = skip_ws buf cursor1
        in case byte_at buf cursor of
             None \<Rightarrow> Some (NeedMore at)
           | Some b \<Rightarrow>
               if b = CHR ''{'' then
                 (case balanced_brace_end buf cursor False of
                    None \<Rightarrow> None
                  | Some None \<Rightarrow> Some (NeedMore at)
                  | Some (Some brace_end) \<Rightarrow>
                      (case js_parse js (sub buf cursor (brace_end + 1)) of
                         None \<Rightarrow> Some (NotACall (brace_end + 1) True)
                       | Some args \<Rightarrow>
                           if \<not> is_object args then Some (NotACall (brace_end + 1) True)
                           else Some (case consume_closer bracket_closer at_eos buf (brace_end + 1) of
                               None \<Rightarrow> NeedMore at
                             | Some after \<Rightarrow> complete_one at after CleanJson
                                 \<lparr>pc_id = None, pc_name = name, pc_arguments = js_print js args\<rparr>)))
               else Some (NotACall after_tag False))"

definition resolve_bracket :: "json_lib \<Rightarrow> bool \<Rightarrow> string \<Rightarrow> nat \<Rightarrow> resolution option" where
  "resolve_bracket js at_eos buf at =
     (let after_tag = at + length bracket_tag; body_at = skip_ws buf after_tag in
      case byte_at buf body_at of
        None \<Rightarrow> Some (NeedMore at)
      | Some first \<Rightarrow>
          if first = CHR ''['' then resolve_bracket_array js at_eos buf at body_at
          else
            let name_end = name_run_end buf body_at in
            if name_end = body_at then Some (NotACall after_tag False)
            else if name_end = length buf then Some (NeedMore at)
            else
              let name = sub buf body_at name_end in
              if starts_with (drop name_end buf) call_id_tag then
                let id_start = name_end + length call_id_tag; id_end = name_run_end buf id_start in
                if id_end = id_start then
                  Some (if id_start = length buf then NeedMore at else NotACall after_tag False)
                else resolve_named_args js at_eos buf at after_tag name id_end
              else if could_extend_meta buf name_end call_id_tag then Some (NeedMore at)
              else resolve_named_args js at_eos buf at after_tag name name_end)"

definition resolve_gemma_args ::
  "json_lib \<Rightarrow> bool \<Rightarrow> string \<Rightarrow> nat \<Rightarrow> string \<Rightarrow> nat \<Rightarrow> resolution option" where
  "resolve_gemma_args js at_eos buf at name brace_at =
     (case balanced_brace_end buf brace_at True of
        None \<Rightarrow> None
      | Some None \<Rightarrow> Some (NeedMore at)
      | Some (Some brace_end) \<Rightarrow>
          (case consume_closer gemma_close at_eos buf (brace_end + 1) of
             None \<Rightarrow> Some (NeedMore at)
           | Some consumed_end \<Rightarrow>
               (case gemma_arguments_to_json js (sub buf (brace_at + 1) brace_end) of
                  None \<Rightarrow> None
                | Some None \<Rightarrow> Some (NotACall consumed_end True)
                | Some (Some args) \<Rightarrow> Some (complete_one at consumed_end GemmaDialect
                    \<lparr>pc_id = None, pc_name = name, pc_arguments = js_print js args\<rparr>))))"

definition resolve_gemma :: "json_lib \<Rightarrow> bool \<Rightarrow> string \<Rightarrow> nat \<Rightarrow> resolution option" where
  "resolve_gemma js at_eos buf at =
     (let after_tag = at + length gemma_open;
          call_at = skip_ws buf after_tag;
          not_a_call = Some (NotACall after_tag False)
      in if \<not> starts_with (drop call_at buf) ''call''
         then (if starts_with ''call'' (drop call_at buf) then Some (NeedMore at) else not_a_call)
         else
           let colon_at = skip_ws buf (call_at + length ''call'') in
           case byte_at buf colon_at of
             None \<Rightarrow> Some (NeedMore at)
           | Some b \<Rightarrow>
               if b \<noteq> CHR '':'' then not_a_call
               else
                 let name_at = skip_ws buf (colon_at + 1); name_end = gemma_name_run_end buf name_at in
                 if name_end = name_at
                 then (if name_at = length buf then Some (NeedMore at) else not_a_call)
                 else if name_end = length buf then Some (NeedMore at)
                 else
                   let brace_at = skip_ws buf name_end in
                   case byte_at buf brace_at of
                     None \<Rightarrow> Some (NeedMore at)
                   | Some b \<Rightarrow>
                       if b \<noteq> CHR ''{'' then not_a_call
                       else resolve_gemma_args js at_eos buf at (sub buf name_at name_end) brace_at)"

definition resolve_func :: "json_lib \<Rightarrow> bool \<Rightarrow> string \<Rightarrow> nat \<Rightarrow> resolution" where
  "resolve_func js at_eos buf at =
     (let name_start = at + length func_open; name_end = name_run_end buf name_start in
      case byte_at buf name_end of
        None \<Rightarrow> NeedMore at
      | Some b \<Rightarrow>
          if b \<noteq> CHR ''>'' \<or> name_end = name_start then NotACall name_start False
          else
            let body_start = name_end + 1 in
            case func_close_index buf body_start at_eos of
              None \<Rightarrow> NeedMore at
            | Some close_rel \<Rightarrow>
                let consumed_end = body_start + close_rel + length func_close in
                case parse_parameters (sub buf body_start (body_start + close_rel)) of
                  Some args \<Rightarrow> complete_one at consumed_end CleanJson
                    \<lparr>pc_id = None, pc_name = sub buf name_start name_end, pc_arguments = js_print js args\<rparr>
                | None \<Rightarrow> NotACall consumed_end False)"

text \<open>
  \<^verbatim>\<open>rfind\<close> of the last character that cannot belong to a name gives the offset of its first byte;
  the source adds one, which is inside the character when it has several bytes.
\<close>

definition rehearsal_name_start :: "string \<Rightarrow> nat" where
  "rehearsal_name_start before =
     (let rest = dropWhile name_char (rev before) in
      if rest = [] then 0 else length rest - length (takeWhile is_cont_byte rest))"

definition resolve_rehearsal :: "json_lib \<Rightarrow> string list option \<Rightarrow> string \<Rightarrow> nat \<Rightarrow> resolution option" where
  "resolve_rehearsal js enabled buf at =
     (let args_tag_end = at + length args_tag;
          name_start = rehearsal_name_start (take at buf)
      in case str_slice buf name_start at of
           None \<Rightarrow> None
         | Some name \<Rightarrow>
             if name = [] \<or> ends_with (take name_start buf) call_id_tag
                \<or> \<not> (case enabled of None \<Rightarrow> False | Some tools \<Rightarrow> name \<in> set tools)
             then Some (NotACall args_tag_end False)
             else
               let brace_at = skip_ws buf args_tag_end in
               case byte_at buf brace_at of
                 None \<Rightarrow> Some (NeedMore name_start)
               | Some b \<Rightarrow>
                   if b = CHR ''{'' then
                     (case balanced_brace_end buf brace_at False of
                        None \<Rightarrow> None
                      | Some None \<Rightarrow> Some (NeedMore name_start)
                      | Some (Some brace_end) \<Rightarrow>
                          Some (case js_parse js (sub buf brace_at (brace_end + 1)) of
                              Some (JObject kvs) \<Rightarrow> complete_one name_start (brace_end + 1) CleanJson
                                \<lparr>pc_id = None, pc_name = name, pc_arguments = js_print js (JObject kvs)\<rparr>
                            | _ \<Rightarrow> NotACall (brace_end + 1) False))
                   else Some (NotACall args_tag_end False))"

definition resolve :: "json_lib \<Rightarrow> tool_parser \<Rightarrow> nat \<Rightarrow> trigger \<Rightarrow> resolution option" where
  "resolve js p at t =
     (case t of
        ThinkOpenT kind \<Rightarrow> Some (EnterThink kind (at + length (think_open kind)))
      | TagT \<Rightarrow> Some (resolve_tag js (tp_buf p) at)
      | BracketT \<Rightarrow> resolve_bracket js (tp_at_eos p) (tp_buf p) at
      | GemmaT \<Rightarrow> resolve_gemma js (tp_at_eos p) (tp_buf p) at
      | FuncT \<Rightarrow> Some (resolve_func js (tp_at_eos p) (tp_buf p) at)
      | RehearsalT \<Rightarrow> resolve_rehearsal js (tp_enabled p) (tp_buf p) at)"

section \<open>Every resolution makes progress\<close>

text \<open>What a resolution of the marker \<open>tag\<close> found at \<open>at\<close> may ask the loop to do.\<close>

fun res_ok :: "string \<Rightarrow> nat \<Rightarrow> string \<Rightarrow> resolution \<Rightarrow> bool" where
  "res_ok buf at tag (NeedMore h) \<longleftrightarrow> h \<le> at"
| "res_ok buf at tag (NotACall e _) \<longleftrightarrow> at < e \<and> e \<le> length buf"
| "res_ok buf at tag (Complete a b _ cs) \<longleftrightarrow> a \<le> at \<and> at + length tag \<le> b \<and> b \<le> length buf \<and> cs \<noteq> []"
| "res_ok buf at tag (EnterThink _ m) \<longleftrightarrow> at < m \<and> m \<le> length buf"

lemma str_find_bound: "str_find s p = Some i \<Longrightarrow> i + length p \<le> length s"
  using str_find_Some [of s p i] by (simp add: occurs_at_def)

lemma occurs_bound: "occurs_at s t i \<Longrightarrow> i + length t \<le> length s"
  by (simp add: occurs_at_def)

lemma find_from_bound: "str_find (drop k s) p = Some i \<Longrightarrow> p \<noteq> [] \<Longrightarrow> k + i + length p \<le> length s"
  using str_find_bound [of "drop k s" p i] by (cases p) auto

lemma starts_bound: "starts_with (drop k s) p \<Longrightarrow> p \<noteq> [] \<Longrightarrow> k + length p \<le> length s"
  by (cases p) (auto simp: starts_with_def min_def dest!: arg_cong [where f = length] split: if_splits)

lemma skip_ws_ge: "i \<le> skip_ws s i"
  by (simp add: skip_ws_def)

lemma byte_at_Some: "byte_at s i = Some c \<Longrightarrow> i < length s \<and> s ! i = c"
  by (auto simp: byte_at_def split: if_splits)

lemma consume_closer_bounds:
  "consume_closer closer eos buf i = Some j \<Longrightarrow> closer \<noteq> [] \<Longrightarrow> i \<le> length buf \<Longrightarrow> i \<le> j \<and> j \<le> length buf"
  using skip_ws_ge [of i buf] starts_bound [of "skip_ws buf i" buf closer]
  by (auto simp: consume_closer_def Let_def split: if_splits)

lemma brace_bounds: "balanced_brace_end s i g = Some (Some e) \<Longrightarrow> i \<le> e \<and> e < length s"
  unfolding balanced_brace_end_def using brace_loop_bounds by blast

lemma bracket_bounds: "balanced_bracket_end s i = Some e \<Longrightarrow> i \<le> e \<and> e < length s"
  unfolding balanced_bracket_end_def using bracket_loop_bounds by blast

lemma tags_nonempty [simp]:
  "tag_open \<noteq> []" "tag_close \<noteq> []" "bracket_tag \<noteq> []" "bracket_closer \<noteq> []" "gemma_open \<noteq> []"
  "gemma_close \<noteq> []" "func_open \<noteq> []" "func_close \<noteq> []" "param_open \<noteq> []" "args_tag \<noteq> []"
  by (simp_all add: tag_defs)

lemma resolve_tag_ok:
  assumes "occurs_at buf tag_open at"
  shows "res_ok buf at tag_open (resolve_tag js buf at)"
  using find_from_bound [of "at + length tag_open" buf tag_close]
  by (auto simp: resolve_tag_def complete_one_def Let_def tag_defs split: option.split)

lemma resolve_bracket_array_ok:
  assumes "resolve_bracket_array js eos buf at body_at = Some r" "at + length bracket_tag \<le> body_at"
  shows "res_ok buf at bracket_tag r"
  using assms bracket_bounds [of buf body_at] consume_closer_bounds [of bracket_closer eos buf]
  by (fastforce simp: resolve_bracket_array_def Let_def split: option.splits if_splits)

lemma resolve_named_args_ok:
  assumes "resolve_named_args js eos buf at after_tag name c = Some r" "after_tag = at + length bracket_tag" "after_tag \<le> c"
    "after_tag \<le> length buf"
  shows "res_ok buf at bracket_tag r"
proof -
  define cursor where "cursor = skip_ws buf (if starts_with (drop c buf) args_tag then c + length args_tag else c)"
  have "after_tag \<le> cursor"
    using assms(3) skip_ws_ge [of c buf] skip_ws_ge [of "c + length args_tag" buf] by (simp add: cursor_def)
  moreover have "at < after_tag" "at + length bracket_tag = after_tag" using assms(2) by simp_all
  ultimately have c: "at + length bracket_tag \<le> cursor" "at < cursor" "at < after_tag" by simp_all
  have e: "e < length buf \<and> at + length bracket_tag \<le> Suc e \<and> at < Suc e" if "balanced_brace_end buf cursor False = Some (Some e)" for e
    using brace_bounds [OF that] c by simp
  have f: "j \<le> length buf \<and> at + length bracket_tag \<le> j"
    if "balanced_brace_end buf cursor False = Some (Some e)" "consume_closer bracket_closer eos buf (Suc e) = Some j" for e j
    using e [OF that(1)] consume_closer_bounds [OF that(2)] by auto
  show ?thesis
    using assms(1,4) c(3)
    unfolding resolve_named_args_def Let_def complete_one_def cursor_def [symmetric]
    by (auto split: option.splits if_splits dest: e f)
qed

lemma resolve_bracket_ok:
  assumes "resolve_bracket js eos buf at = Some r" "occurs_at buf bracket_tag at"
  shows "res_ok buf at bracket_tag r"
proof -
  define after where "after = at + length bracket_tag"
  define body where "body = skip_ws buf after"
  have a: "length bracket_tag + at = after" "0 < length bracket_tag" "after \<le> length buf" "after \<le> body"
    using assms(2) skip_ws_ge by (simp_all add: after_def body_def occurs_at_def)
  have n: "after \<le> name_run_end buf body" "after \<le> name_run_end buf (name_run_end buf body + length call_id_tag)"
    using a run_end_ge unfolding name_run_end_def by (meson le_trans trans_le_add1)+
  show ?thesis
    using assms(1) a n resolve_bracket_array_ok [of js eos buf at body]
      resolve_named_args_ok [of js eos buf at after]
    unfolding resolve_bracket_def Let_def after_def [symmetric] body_def [symmetric]
    by (fastforce split: option.splits if_splits)
qed

lemma resolve_gemma_ok:
  assumes "resolve_gemma js eos buf at = Some r" "occurs_at buf gemma_open at"
  shows "res_ok buf at gemma_open r"
proof -
  define after where "after = at + length gemma_open"
  have a: "length gemma_open + at = after" "0 < length gemma_open" "after \<le> length buf"
    using assms(2) by (simp_all add: after_def occurs_at_def)
  have args: "res_ok buf at gemma_open r'"
    if "resolve_gemma_args js eos buf at name b = Some r'" "after \<le> b" for r' name b
    using that a brace_bounds [of buf b True] consume_closer_bounds [of gemma_close eos buf]
    by (fastforce simp: resolve_gemma_args_def complete_one_def split: option.splits)
  let ?colon = "skip_ws buf (skip_ws buf after + length ''call'')"
  let ?name = "skip_ws buf (?colon + 1)"
  have "after \<le> skip_ws buf (gemma_name_run_end buf ?name)"
    using skip_ws_ge run_end_ge unfolding gemma_name_run_end_def by (meson le_trans trans_le_add1)
  then show ?thesis
    using assms(1) a args
    unfolding resolve_gemma_def Let_def after_def [symmetric]
    by (fastforce split: option.splits if_splits)
qed

lemma func_close_bound: "func_close_from body eos i = Some r \<Longrightarrow> r + length func_close \<le> length body"
proof (induction body eos i rule: func_close_from.induct)
  case (1 body eos i)
  from "1.prems" show ?case
    using find_from_bound [of i body func_close]
    by (subst (asm) func_close_from.simps)
      (auto simp: Let_def split: option.splits if_splits dest: "1.IH")
qed

lemma resolve_func_ok:
  assumes "occurs_at buf func_open at"
  shows "res_ok buf at func_open (resolve_func js eos buf at)"
proof -
  define start where "start = at + length func_open"
  have a: "length func_open + at = start" "0 < length func_open" "start \<le> length buf"
    using assms by (simp_all add: start_def occurs_at_def)
  have "start \<le> name_run_end buf start" by (simp add: name_run_end_def run_end_ge)
  with a show ?thesis
    using byte_at_Some [of buf "name_run_end buf start"]
      func_close_bound [of "drop (name_run_end buf start + 1) buf" eos 0]
    unfolding resolve_func_def func_close_index_def complete_one_def Let_def start_def [symmetric]
    by (fastforce split: option.split)
qed

lemma resolve_rehearsal_ok:
  assumes "resolve_rehearsal js enabled buf at = Some r" "occurs_at buf args_tag at"
  shows "res_ok buf at args_tag r"
proof -
  define n where "n = rehearsal_name_start (take at buf)"
  have a: "at + length args_tag \<le> length buf" "0 < length args_tag"
    using assms(2) by (simp_all add: occurs_at_def)
  have "n \<le> at" if "str_slice buf n at = Some s" for s using that by (simp add: str_slice_def split: if_splits)
  with assms(1) a show ?thesis
    using brace_bounds [of buf "skip_ws buf (at + length args_tag)" False] skip_ws_ge [of "at + length args_tag" buf]
    unfolding resolve_rehearsal_def Let_def n_def [symmetric]
    by (fastforce simp: complete_one_def split: option.splits if_splits json_value.splits)
qed

lemma find_trigger_occurs:
  assumes "find_trigger p = Some (at, t)"
  shows "\<exists>tag. (tag, t) \<in> set (triggers (tp_protocol p) (tp_enabled p \<noteq> None)) \<and> occurs_at (tp_buf p) tag at"
proof -
  have "case fold (consider_trigger s) ts best of None \<Rightarrow> True
      | Some (a, t) \<Rightarrow> best = Some (a, t) \<or> (\<exists>tag. (tag, t) \<in> set ts \<and> occurs_at s tag a)" for s ts best
  proof (induction ts arbitrary: best)
    case (Cons x ts)
    from Cons.IH [of "consider_trigger s x best"] str_find_Some [of s "fst x"] show ?case
      by (cases x) (fastforce simp: consider_trigger_def split: option.splits if_splits)
  qed (simp split: option.splits)
  from this [where s = "tp_buf p" and ts = "triggers (tp_protocol p) (tp_enabled p \<noteq> None)" and best = None]
    assms show ?thesis by (simp add: find_trigger_def)
qed

lemma resolve_ok:
  assumes "find_trigger p = Some (at, t)" "resolve js p at t = Some r"
  shows "\<exists>tag. (tag, t) \<in> set (triggers (tp_protocol p) (tp_enabled p \<noteq> None))
     \<and> occurs_at (tp_buf p) tag at \<and> res_ok (tp_buf p) at tag r"
proof -
  from find_trigger_occurs [OF assms(1)] obtain tag where
    "(tag, t) \<in> set (triggers (tp_protocol p) (tp_enabled p \<noteq> None))" "occurs_at (tp_buf p) tag at" by blast
  moreover have "res_ok (tp_buf p) at tag r"
    using calculation assms(2) occurs_bound [OF calculation(2)]
    by (auto simp: triggers_def Let_def resolve_def intro: resolve_tag_ok resolve_bracket_ok
        resolve_gemma_ok resolve_func_ok resolve_rehearsal_ok split: if_splits)
  ultimately show ?thesis by blast
qed

lemma triggers_nonempty: "(tag, t) \<in> set (triggers p e) \<Longrightarrow> tag \<noteq> []"
  by (auto simp: triggers_def Let_def tag_defs split: if_splits)

lemma resolve_progress:
  assumes "find_trigger p = Some (at, t)" "resolve js p at t = Some r"
  shows "case r of NeedMore _ \<Rightarrow> True | NotACall e _ \<Rightarrow> 0 < e | Complete a b _ _ \<Rightarrow> a < b | EnterThink _ m \<Rightarrow> 0 < m"
proof -
  from resolve_ok [OF assms] obtain tag where "tag \<noteq> []" "res_ok (tp_buf p) at tag r"
    using triggers_nonempty by blast
  moreover from this obtain n where "length tag = Suc n" by (cases tag) auto
  ultimately show ?thesis by (cases r) auto
qed

section \<open>The loop\<close>

text \<open>\<^verbatim>\<open>buf.drain(..k)\<close>: panics off a character boundary.\<close>

definition release :: "nat \<Rightarrow> tool_parser \<Rightarrow> (string \<times> tool_parser) option" where
  "release k p =
     (if k \<le> length (tp_buf p) \<and> is_char_boundary (tp_buf p) k
      then Some (take k (tp_buf p), p\<lparr>tp_buf := drop k (tp_buf p)\<rparr>) else None)"

text \<open>Release a prefix as text, if there is one.\<close>

definition release_text ::
  "nat \<Rightarrow> tool_parser \<Rightarrow> parser_output list \<Rightarrow> (parser_output list \<times> tool_parser) option" where
  "release_text k p out =
     (if k = 0 then Some (out, p)
      else case release k p of None \<Rightarrow> None | Some (t, p') \<Rightarrow> Some (out @ [TextOut t], p'))"

definition count_call :: "call_dialect \<Rightarrow> nat \<Rightarrow> tool_call_tally \<Rightarrow> tool_call_tally" where
  "count_call d n t =
     (case d of
        CleanJson \<Rightarrow> t\<lparr>tt_clean := tt_clean t + n\<rparr>
      | GemmaDialect \<Rightarrow> t\<lparr>tt_gemma_dialect := tt_gemma_dialect t + n\<rparr>
      | CommalessArray \<Rightarrow> t\<lparr>tt_commaless_array := tt_commaless_array t + n\<rparr>)"

definition count_malformed :: "bool \<Rightarrow> tool_parser \<Rightarrow> tool_parser" where
  "count_malformed malformed p =
     (if malformed
      then p\<lparr>tp_tally := (tp_tally p)\<lparr>tt_fell_through := tt_fell_through (tp_tally p) + 1\<rparr>\<rparr> else p)"

text \<open>
  Giving a non-call back as text.  Malformed markup is logged first, with a snippet of at most
  120 bytes, which is sliced off the buffer at a byte and panics off a character boundary (the
  slice is evaluated when a subscriber listens at that level, as is assumed here).
\<close>

definition fall_through :: "nat \<Rightarrow> bool \<Rightarrow> tool_parser \<Rightarrow> (string \<times> tool_parser) option" where
  "fall_through emit_end malformed p =
     (if malformed \<and> \<not> is_char_boundary (tp_buf p) (min (min emit_end (length (tp_buf p))) 120)
      then None else release emit_end (count_malformed malformed p))"

definition waiting_safe :: "tool_parser \<Rightarrow> nat" where
  "waiting_safe p =
     (let safe = safe_release_end (tp_buf p) (hold_literals (tp_protocol p)) in
      if tp_enabled p \<noteq> None then min safe (name_hold_start (tp_buf p)) else safe)"

lemma release_shorter:
  "release k p = Some (t, p') \<Longrightarrow> 0 < k \<Longrightarrow> length (tp_buf p') < length (tp_buf p)"
  by (auto simp: release_def split: if_splits)

lemma fall_through_release:
  "fall_through e m p = Some x \<Longrightarrow> release e (count_malformed m p) = Some x"
  by (simp add: fall_through_def split: if_splits)

lemma release_text_le: "release_text k p out = Some (out', p') \<Longrightarrow> length (tp_buf p') \<le> length (tp_buf p)"
  by (auto simp: release_text_def release_def split: if_splits option.splits)

lemma count_malformed_simps [simp]:
  "tp_buf (count_malformed m p) = tp_buf p" "tp_protocol (count_malformed m p) = tp_protocol p"
  "tp_enabled (count_malformed m p) = tp_enabled p" "tp_in_think (count_malformed m p) = tp_in_think p"
  "tp_at_eos (count_malformed m p) = tp_at_eos p"
  by (simp_all add: count_malformed_def)

function drain ::
  "json_lib \<Rightarrow> tool_parser \<Rightarrow> parser_output list \<Rightarrow> (parser_output list \<times> tool_parser) option" where
  "drain js p out =
     (case tp_in_think p of
        Some kind \<Rightarrow>
          (case str_find (tp_buf p) (think_close kind) of
             Some at \<Rightarrow>
               (case release (at + length (think_close kind)) p of
                  None \<Rightarrow> None
                | Some (t, p') \<Rightarrow> drain js (p'\<lparr>tp_in_think := None\<rparr>) (out @ [TextOut t]))
           | None \<Rightarrow> release_text (safe_release_end (tp_buf p) [think_close kind]) p out)
      | None \<Rightarrow>
          (case find_trigger p of
             None \<Rightarrow> release_text (waiting_safe p) p out
           | Some (at, trigger) \<Rightarrow>
               (case resolve js p at trigger of
                  None \<Rightarrow> None
                | Some (NeedMore hold_from) \<Rightarrow> release_text hold_from p out
                | Some (NotACall emit_end malformed) \<Rightarrow>
                    (case fall_through emit_end malformed p of
                       None \<Rightarrow> None
                     | Some (t, p') \<Rightarrow> drain js p' (out @ [TextOut t]))
                | Some (Complete text_end consumed_end dialect calls) \<Rightarrow>
                    (case release_text text_end
                        (p\<lparr>tp_tally := count_call dialect (length calls) (tp_tally p)\<rparr>) out of
                       None \<Rightarrow> None
                     | Some (out', p') \<Rightarrow>
                         (case release (consumed_end - text_end) p' of
                            None \<Rightarrow> None
                          | Some (_, p'') \<Rightarrow> drain js p'' (out' @ map CallOut calls)))
                | Some (EnterThink kind marker_end) \<Rightarrow>
                    (case release marker_end p of
                       None \<Rightarrow> None
                     | Some (t, p') \<Rightarrow> drain js (p'\<lparr>tp_in_think := Some kind\<rparr>) (out @ [TextOut t])))))"
  by pat_completeness auto
termination
proof (relation "measure (\<lambda>(js, p, out). length (tp_buf p))", goal_cases)
  case (2 js p out x2 at trigger r e m y t p')
  then show ?case
    using resolve_progress [of p at trigger js "NotACall e m"]
      release_shorter [of e "count_malformed m p" t p'] fall_through_release [of e m p "(t, p')"] by auto
next
  case (3 js p out x2 at trigger r a b d cs y out' p' z t p'')
  then have "a < b" using resolve_progress [of p at trigger js "Complete a b d cs"] by simp
  with 3 release_shorter [of "b - a" p' t p'']
    release_text_le [of a "p\<lparr>tp_tally := count_call d (length cs) (tp_tally p)\<rparr>" out out' p']
  show ?case by simp
next
  case (4 js p out x2 at trigger r k m y t p')
  then show ?case
    using resolve_progress [of p at trigger js "EnterThink k m"] release_shorter [of m p t p'] by auto
next
  case (5 js p out kind at y t p')
  then show ?case
    using release_shorter [of "at + length (think_close kind)" p t p'] by (cases kind) auto
qed simp

declare drain.simps [simp del]

definition tool_push :: "json_lib \<Rightarrow> string \<Rightarrow> tool_parser \<Rightarrow> (parser_output list \<times> tool_parser) option" where
  "tool_push js text p =
     (if text = [] then Some ([], p) else drain js (p\<lparr>tp_buf := tp_buf p @ text\<rparr>) [])"

definition tool_flush :: "json_lib \<Rightarrow> tool_parser \<Rightarrow> (parser_output list \<times> tool_parser) option" where
  "tool_flush js p =
     (if tp_buf p = [] then Some ([], p)
      else case drain js (p\<lparr>tp_at_eos := True\<rparr>) [] of
          None \<Rightarrow> None
        | Some (out, p') \<Rightarrow>
            Some (if tp_buf p' = [] then out else out @ [TextOut (tp_buf p')],
              p'\<lparr>tp_at_eos := False, tp_buf := [], tp_in_think := None\<rparr>))"

section \<open>Nothing is lost\<close>

text \<open>What may be swallowed in exchange for calls: an opening tag with what belongs to it, or a tool's
  name in front of an argument marker.\<close>

definition markup :: "string \<Rightarrow> bool" where
  "markup m \<longleftrightarrow> (\<exists>tag \<in> {tag_open, bracket_tag, gemma_open, func_open}. prefix tag m)
     \<or> (\<exists>name. name \<noteq> [] \<and> prefix (name @ args_tag) m)"

text \<open>The outputs account for the text: it is cut into pieces that are each released as text or
  replaced by one or more calls.\<close>

inductive covers :: "string \<Rightarrow> parser_output list \<Rightarrow> bool" where
  covers_nil: "covers [] []"
| covers_text: "covers s os \<Longrightarrow> covers (t @ s) (TextOut t # os)"
| covers_calls: "covers s os \<Longrightarrow> cs \<noteq> [] \<Longrightarrow> markup m \<Longrightarrow> covers (m @ s) (map CallOut cs @ os)"

lemma covers_append: "covers s os \<Longrightarrow> covers s' os' \<Longrightarrow> covers (s @ s') (os @ os')"
  by (induction rule: covers.induct) (auto intro: covers.intros)

lemma covers_one: "covers t [TextOut t]"
  using covers_text [OF covers_nil, of t] by simp

lemma complete_at:
  "resolve_tag js buf at = Complete a b d cs \<Longrightarrow> a = at"
  "resolve_bracket_array js eos buf at body = Some (Complete a b d cs) \<Longrightarrow> a = at"
  "resolve_named_args js eos buf at after name c = Some (Complete a b d cs) \<Longrightarrow> a = at"
  "resolve_gemma_args js eos buf at name c = Some (Complete a b d cs) \<Longrightarrow> a = at"
  "resolve_func js eos buf at = Complete a b d cs \<Longrightarrow> a = at"
  by (auto simp: resolve_tag_def resolve_bracket_array_def resolve_named_args_def resolve_gemma_args_def
      resolve_func_def complete_one_def Let_def split: option.splits if_splits)

lemma complete_at_bracket: "resolve_bracket js eos buf at = Some (Complete a b d cs) \<Longrightarrow> a = at"
  by (auto simp: resolve_bracket_def Let_def split: option.splits if_splits dest: complete_at)

lemma complete_at_gemma: "resolve_gemma js eos buf at = Some (Complete a b d cs) \<Longrightarrow> a = at"
  by (auto simp: resolve_gemma_def Let_def split: option.splits if_splits dest: complete_at)

lemma complete_rehearsal:
  "resolve_rehearsal js enabled buf at = Some (Complete a b d cs) \<Longrightarrow> a < at"
  by (auto simp: resolve_rehearsal_def Let_def complete_one_def str_slice_def sub_def
      split: option.splits if_splits json_value.splits)

lemma sub_prefix:
  assumes "occurs_at buf tag at" "a \<le> at" "at + length tag \<le> b"
  shows "prefix (sub buf a at @ tag) (sub buf a b)"
proof -
  have "sub buf a b = sub buf a at @ sub buf at b"
    using assms(2,3) take_add [where i = "at - a" and j = "b - at" and xs = "drop a buf"] by (simp add: sub_def)
  moreover have "prefix tag (sub buf at b)"
    using assms(1,3) take_is_prefix [of "length tag" "sub buf at b"] by (simp add: sub_def occurs_at_def min_absorb1)
  ultimately show ?thesis by simp
qed

lemma resolve_markup:
  assumes "find_trigger p = Some (at, t)" "resolve js p at t = Some (Complete a b d cs)"
  shows "markup (sub (tp_buf p) a b)"
proof -
  from resolve_ok [OF assms] obtain tag where
    tag: "(tag, t) \<in> set (triggers (tp_protocol p) (tp_enabled p \<noteq> None))" "occurs_at (tp_buf p) tag at"
    and ok: "a \<le> at" "at + length tag \<le> b" by auto
  from sub_prefix [OF tag(2) ok] have pre: "prefix (sub (tp_buf p) a at @ tag) (sub (tp_buf p) a b)" .
  show ?thesis
  proof (cases t)
    case RehearsalT
    then have "a < at" using assms(2) complete_rehearsal by (auto simp: resolve_def)
    moreover have "at \<le> length (tp_buf p)" using tag(2) by (simp add: occurs_at_def)
    ultimately have "sub (tp_buf p) a at \<noteq> []" by (simp add: sub_def)
    moreover have "tag = args_tag" using tag(1) RehearsalT by (auto simp: triggers_def Let_def split: if_splits)
    ultimately show ?thesis using pre by (auto simp: markup_def)
  qed (use assms(2) tag(1) pre in \<open>auto simp: resolve_def markup_def triggers_def Let_def sub_def
      dest: complete_at complete_at_bracket complete_at_gemma split: if_splits\<close>)
qed

lemma release_split: "release k p = Some (t, p') \<Longrightarrow> tp_buf p = t @ tp_buf p'"
  by (auto simp: release_def split: if_splits)

lemma release_take: "release k p = Some (t, p') \<Longrightarrow> t = take k (tp_buf p)"
  by (auto simp: release_def split: if_splits)

lemma release_text_covers:
  assumes "release_text k p out = Some (out', p')"
  shows "\<exists>os. out' = out @ os \<and> tp_buf p = take k (tp_buf p) @ tp_buf p' \<and> covers (take k (tp_buf p)) os"
proof (cases "k = 0")
  case True
  with assms show ?thesis by (simp add: release_text_def covers_nil)
next
  case False
  with assms obtain t where t: "release k p = Some (t, p')" "out' = out @ [TextOut t]"
    by (auto simp: release_text_def split: option.splits)
  with release_split [OF t(1)] release_take [OF t(1)] covers_one [of t] show ?thesis by auto
qed

lemma drain_covers:
  "drain js p out = Some (out', p') \<Longrightarrow>
     \<exists>os s. out' = out @ os \<and> tp_buf p = s @ tp_buf p' \<and> covers s os"
proof (induction "length (tp_buf p)" arbitrary: p out rule: less_induct)
  case less
  have released: ?case
    if "release k r = Some (t, q)" "tp_buf r = tp_buf p" "0 < k" "tp_buf q' = tp_buf q"
      "drain js q' (out @ [TextOut t]) = Some (out', p')" for k r t q q'
  proof -
    have "length (tp_buf q') < length (tp_buf p)" using release_shorter [OF that(1,3)] that(2,4) by simp
    from less.hyps [OF this that(5)] obtain os s where
      os: "out' = (out @ [TextOut t]) @ os" "tp_buf q' = s @ tp_buf p'" "covers s os" by blast
    have "tp_buf p = t @ tp_buf q" using release_split [OF that(1)] that(2) by simp
    then have "tp_buf p = (t @ s) @ tp_buf p'" using os(2) that(4) by simp
    moreover have "covers (t @ s) (TextOut t # os)" using os(3) by (rule covers_text)
    moreover have "out' = out @ TextOut t # os" using os(1) by simp
    ultimately show ?thesis by blast
  qed
  have wait: ?case if "release_text k p out = Some (out', p')" for k
    using release_text_covers [OF that] by blast
  show ?case
  proof (cases "tp_in_think p")
    case (Some kind)
    note d = less.prems [unfolded drain.simps [of js p out] Some option.case]
    show ?thesis
    proof (cases "str_find (tp_buf p) (think_close kind)")
      case None
      with d show ?thesis by (intro wait [of "safe_release_end (tp_buf p) [think_close kind]"]) simp
    next
      case at: (Some at)
      have "0 < at + length (think_close kind)" by (cases kind) auto
      moreover from d at obtain t q where q: "release (at + length (think_close kind)) p = Some (t, q)"
        "drain js (q\<lparr>tp_in_think := None\<rparr>) (out @ [TextOut t]) = Some (out', p')"
        by (auto split: option.splits prod.splits)
      ultimately show ?thesis by (intro released [OF q(1) refl _ _ q(2)]) simp_all
    qed
  next
    case None
    note d = less.prems [unfolded drain.simps [of js p out] None option.case]
    show ?thesis
    proof (cases "find_trigger p")
      case None
      with d show ?thesis by (intro wait [of "waiting_safe p"]) simp
    next
      case (Some at_t)
      then obtain at t where at: "find_trigger p = Some (at, t)" by (cases at_t) auto
      with d obtain r where r: "resolve js p at t = Some r" by (auto split: option.splits)
      note progress = resolve_progress [OF at r]
      show ?thesis
      proof (cases r)
        case (NeedMore h)
        with d at r show ?thesis by (intro wait [of h]) simp
      next
        case (NotACall e m)
        with d at r obtain t q where q: "release e (count_malformed m p) = Some (t, q)"
          "drain js (q) (out @ [TextOut t]) = Some (out', p')"
          by (auto dest!: fall_through_release split: option.splits prod.splits)
        from progress NotACall show ?thesis by (intro released [OF q(1) _ _ _ q(2)]) simp_all
      next
        case (EnterThink k m)
        with d at r obtain t q where q: "release m p = Some (t, q)"
          "drain js (q\<lparr>tp_in_think := Some k\<rparr>) (out @ [TextOut t]) = Some (out', p')"
          by (auto split: option.splits prod.splits)
        from progress EnterThink show ?thesis by (intro released [OF q(1) _ _ _ q(2)]) simp_all
      next
        case (Complete a b dialect calls)
        with d at r obtain o1 q1 t2 q2 where
          1: "release_text a (p\<lparr>tp_tally := count_call dialect (length calls) (tp_tally p)\<rparr>) out = Some (o1, q1)"
          and 2: "release (b - a) q1 = Some (t2, q2)"
          and 3: "drain js q2 (o1 @ map CallOut calls) = Some (out', p')"
          by (auto split: option.splits prod.splits)
        define s1 where "s1 = take a (tp_buf p)"
        from release_text_covers [OF 1] obtain os1 where
          os1: "o1 = out @ os1" "tp_buf p = s1 @ tp_buf q1" "covers s1 os1"
          unfolding s1_def by auto
        note os1 = os1 s1_def
        have "length (tp_buf q2) < length (tp_buf p)"
          using release_shorter [OF 2] progress Complete os1(2) by (simp add: le_less_trans)
        from less.hyps [OF this 3] obtain os s where
          os: "out' = (o1 @ map CallOut calls) @ os" "tp_buf q2 = s @ tp_buf p'" "covers s os" by blast
        have "calls \<noteq> []" using resolve_ok [OF at r] Complete by auto
        moreover have "markup t2"
        proof -
          have "a \<le> length (tp_buf p)" using resolve_ok [OF at r] Complete by (auto dest: occurs_bound)
          then have "tp_buf q1 = drop a (tp_buf p)"
            using os1(2,4) by (metis append_eq_conv_conj length_take min.absorb2)
          then have "t2 = sub (tp_buf p) a b" using release_take [OF 2] by (simp add: sub_def)
          then show ?thesis using resolve_markup [OF at] r Complete by simp
        qed
        ultimately have "covers (t2 @ s) (map CallOut calls @ os)" using os(3) by (intro covers_calls)
        from covers_append [OF os1(3) this] have "covers (s1 @ t2 @ s) (os1 @ map CallOut calls @ os)" .
        moreover have "tp_buf p = (s1 @ t2 @ s) @ tp_buf p'" using os1(2) os(2) release_split [OF 2] by simp
        moreover have "out' = out @ os1 @ map CallOut calls @ os" using os(1) os1(1) by simp
        ultimately show ?thesis by blast
      qed
    qed
  qed
qed

text \<open>A whole reply: its chunks pushed in order, then the flush.\<close>

fun tool_run :: "json_lib \<Rightarrow> tool_parser \<Rightarrow> string list \<Rightarrow> (parser_output list \<times> tool_parser) option" where
  "tool_run js p [] = tool_flush js p"
| "tool_run js p (c # cs) =
     (case tool_push js c p of
        None \<Rightarrow> None
      | Some (out, p') \<Rightarrow>
          (case tool_run js p' cs of
             None \<Rightarrow> None
           | Some (out', p'') \<Rightarrow> Some (out @ out', p'')))"

lemma tool_flush_covers: "tool_flush js p = Some (out, p') \<Longrightarrow> covers (tp_buf p) out \<and> tp_buf p' = []"
proof (cases "tp_buf p = []")
  case False
  assume "tool_flush js p = Some (out, p')"
  with False obtain o1 q where q: "drain js (p\<lparr>tp_at_eos := True\<rparr>) [] = Some (o1, q)"
    and out: "out = (if tp_buf q = [] then o1 else o1 @ [TextOut (tp_buf q)])" "tp_buf p' = []"
    by (auto simp: tool_flush_def split: option.splits prod.splits)
  from drain_covers [OF q] obtain s where "tp_buf p = s @ tp_buf q" "covers s o1" by auto
  with out covers_append [OF _ covers_one] show ?thesis by auto
qed (auto simp: tool_flush_def covers_nil)

lemma tool_push_covers:
  "tool_push js c p = Some (out, p') \<Longrightarrow> \<exists>s. tp_buf p @ c = s @ tp_buf p' \<and> covers s out"
proof (cases "c = []")
  case False
  assume "tool_push js c p = Some (out, p')"
  with False have "drain js (p\<lparr>tp_buf := tp_buf p @ c\<rparr>) [] = Some (out, p')" by (simp add: tool_push_def)
  from drain_covers [OF this] show ?thesis by auto
qed (auto simp: tool_push_def intro: exI [of _ "[]"] covers_nil)

lemma tool_run_covers:
  "tool_run js p cs = Some (out, p') \<Longrightarrow> covers (tp_buf p @ concat cs) out \<and> tp_buf p' = []"
proof (induction cs arbitrary: p out)
  case Nil
  then show ?case using tool_flush_covers by auto
next
  case (Cons c cs)
  then obtain o1 q o2 where q: "tool_push js c p = Some (o1, q)" "tool_run js q cs = Some (o2, p')" "out = o1 @ o2"
    by (auto split: option.splits prod.splits)
  from tool_push_covers [OF q(1)] obtain s where "tp_buf p @ c = s @ tp_buf q" "covers s o1" by blast
  with Cons.IH [OF q(2)] covers_append [of s o1] q(3) show ?case by (metis append.assoc concat.simps(2))
qed

section \<open>ASCII streams never panic\<close>

definition prints_ascii :: "json_lib \<Rightarrow> bool" where
  "prints_ascii js \<longleftrightarrow> (\<forall>t. is_ascii t \<longrightarrow> is_ascii (js_print js (JString t)))"

lemma decode_items_ascii: "is_ascii body \<Longrightarrow> decode_items js body i items \<noteq> None"
proof (induction "length body - i" arbitrary: i items rule: less_induct)
  case less
  define j where "j = run_end (\<lambda>c. c \<in> {CHR '' '', CHR 0x09, CHR 0x0D, CHR 0x0A, CHR '',''}) body i"
  have j: "i \<le> j" by (simp add: j_def run_end_ge)
  note step = decode_items.simps [of js body i items, folded j_def, unfolded Let_def]
  show ?case
  proof (cases "length body \<le> i \<or> length body \<le> j \<or> body ! j = CHR '']''")
    case True
    then show ?thesis unfolding step by simp
  next
    case False
    then have "str_from body j = Some (drop j body)" using less.prems by (intro ascii_from) auto
    moreover have "decode_items js body (j + n) its \<noteq> None" if "n \<noteq> 0" for n its
      using less.hyps [of "j + n" its] less.prems j False that by auto
    ultimately show ?thesis using False unfolding step by (auto split: option.splits)
  qed
qed

lemma brace_ascii: "is_ascii s \<Longrightarrow> balanced_brace_end s i g = None \<longleftrightarrow> False"
  unfolding balanced_brace_end_def using brace_loop_ascii by blast

lemma rehearsal_slice_ascii:
  assumes "is_ascii buf" "at \<le> length buf"
  shows "str_slice buf (rehearsal_name_start (take at buf)) at \<noteq> None"
proof -
  have "length (dropWhile name_char (rev (take at buf))) \<le> at"
    using length_dropWhile_le [of name_char "rev (take at buf)"] by simp
  then have "rehearsal_name_start (take at buf) \<le> at"
    unfolding rehearsal_name_start_def Let_def by (auto intro: le_trans [OF diff_le_self])
  with assms show ?thesis by (simp add: ascii_slice)
qed

lemma resolve_ascii:
  assumes "prints_ascii js" "is_ascii (tp_buf p)" "occurs_at (tp_buf p) tag at"
  shows "resolve js p at t \<noteq> None"
proof -
  have array: "resolve_bracket_array js eos (tp_buf p) at b \<noteq> None" for eos b
  proof -
    have items: "decode_items js (sub (tp_buf p) i j) 0 [] = None \<longleftrightarrow> False" for i j
      using decode_items_ascii [OF ascii_parts(3) [OF assms(2)]] by blast
    show ?thesis unfolding resolve_bracket_array_def decode_array_items_def Let_def
      by (auto simp: items split: option.splits)
  qed
  have named: "resolve_named_args js eos (tp_buf p) at a n c \<noteq> None" for eos a n c
    by (auto simp: resolve_named_args_def Let_def brace_ascii [OF assms(2)] split: option.splits)
  have "resolve_bracket js eos (tp_buf p) at \<noteq> None" for eos
    using array named by (auto simp: resolve_bracket_def Let_def split: option.splits)
  moreover have heal: "gemma_arguments_to_json js (sub (tp_buf p) i j) = None \<longleftrightarrow> False" for i j
    using heal_ascii_never_panics [OF _ ascii_parts(3) [OF assms(2)]] assms(1) by (simp add: prints_ascii_def)
  moreover have gargs: "resolve_gemma_args js eos (tp_buf p) at n c \<noteq> None" for eos n c
    by (auto simp: resolve_gemma_args_def heal brace_ascii [OF assms(2)] split: option.splits)
  moreover have "resolve_gemma js eos (tp_buf p) at \<noteq> None" for eos
    using gargs by (auto simp: resolve_gemma_def Let_def split: option.splits)
  moreover have "resolve_rehearsal js en (tp_buf p) at \<noteq> None" for en
    using rehearsal_slice_ascii [OF assms(2), of at] occurs_bound [OF assms(3)]
    by (auto simp: resolve_rehearsal_def Let_def brace_ascii [OF assms(2)] split: option.splits)
  ultimately show ?thesis by (simp add: resolve_def split: trigger.split)
qed

lemma suffix_hold_le: "suffix_hold buf c k = Some i \<Longrightarrow> i \<le> length buf"
  by (induction k) (auto split: if_splits)

lemma safe_release_le: "safe_release_end buf literals \<le> length buf"
proof -
  have "case fold (\<lambda>c best. case suffix_hold buf c (min (length c - 1) (length buf)) of None \<Rightarrow> best
      | Some start \<Rightarrow> Some (case best of None \<Rightarrow> start | Some b \<Rightarrow> min b start)) cs r of
      None \<Rightarrow> True | Some i \<Rightarrow> i \<le> length buf"
    if "case r of None \<Rightarrow> True | Some i \<Rightarrow> i \<le> length buf" for cs r
    using that
  proof (induction cs arbitrary: r)
    case (Cons c cs)
    show ?case
      unfolding fold_simps comp_def
      by (rule Cons.IH)
        (use Cons.prems suffix_hold_le in \<open>fastforce split: option.splits simp: min.coboundedI2\<close>)
  qed simp
  from this [of None literals] show ?thesis by (auto simp: safe_release_end_def split: option.splits)
qed

lemma release_ascii: "is_ascii (tp_buf p) \<Longrightarrow> k \<le> length (tp_buf p) \<Longrightarrow> release k p \<noteq> None"
  by (simp add: release_def ascii_boundary)

lemma release_text_ascii: "is_ascii (tp_buf p) \<Longrightarrow> k \<le> length (tp_buf p) \<Longrightarrow> release_text k p out \<noteq> None"
  using release_ascii [of p k] by (auto simp: release_text_def split: option.splits)


lemma name_hold_le: "name_hold_start buf \<le> length buf"
  by (simp add: name_hold_start_def)

lemma waiting_safe_le: "waiting_safe p \<le> length (tp_buf p)"
  using safe_release_le name_hold_le by (simp add: waiting_safe_def Let_def min.coboundedI1)

lemma release_Some: "is_ascii (tp_buf p) \<Longrightarrow> k \<le> length (tp_buf p) \<Longrightarrow>
    release k p = Some (take k (tp_buf p), p\<lparr>tp_buf := drop k (tp_buf p)\<rparr>)"
  by (simp add: release_def ascii_boundary)

lemma release_text_Some: "is_ascii (tp_buf p) \<Longrightarrow> k \<le> length (tp_buf p) \<Longrightarrow>
    \<exists>out'. release_text k p out = Some (out', p\<lparr>tp_buf := drop k (tp_buf p)\<rparr>)"
  by (simp add: release_text_def release_Some)

lemma fall_through_ascii:
  "is_ascii (tp_buf p) \<Longrightarrow> fall_through e m p = release e (count_malformed m p)"
  by (simp add: fall_through_def ascii_boundary)

lemma drain_ascii:
  "prints_ascii js \<Longrightarrow> is_ascii (tp_buf p) \<Longrightarrow> drain js p out \<noteq> None"
proof (induction "length (tp_buf p)" arbitrary: p out rule: less_induct)
  case less
  have IH: "\<exists>o2 q'. drain js q o' = Some (o2, q')" if "tp_buf q = drop k (tp_buf p)" "0 < k" "k \<le> length (tp_buf p)" for q k o'
  proof -
    have "length (tp_buf q) < length (tp_buf p)" using that by simp
    moreover have "is_ascii (tp_buf q)" using that less.prems ascii_parts(2) by simp
    ultimately show ?thesis using less.hyps [of q o'] less.prems by auto
  qed
  note rel = release_Some [OF less.prems(2)]
  show ?case
  proof (cases "tp_in_think p")
    case (Some kind)
    show ?thesis
    proof (cases "str_find (tp_buf p) (think_close kind)")
      case None
      with Some less.prems show ?thesis
        by (subst drain.simps) (simp add: release_text_ascii safe_release_le)
    next
      case at: (Some at)
      have "0 < length (think_close kind)" by (cases kind) simp_all
      with str_find_bound [OF at] show ?thesis
        unfolding drain.simps [of js p out, unfolded Some option.case at]
        by (auto simp: rel simp del: think_close.simps intro!: IH [of _ "at + length (think_close kind)"])
    qed
  next
    case None
    show ?thesis
    proof (cases "find_trigger p")
      case none: None
      with None less.prems show ?thesis
        by (subst drain.simps) (simp add: release_text_ascii waiting_safe_le)
    next
      case (Some at_t)
      then obtain at t where at: "find_trigger p = Some (at, t)" by (cases at_t) auto
      from find_trigger_occurs [OF at] obtain tag where "occurs_at (tp_buf p) tag at" by blast
      with resolve_ascii less.prems obtain r where r: "resolve js p at t = Some r" by blast
      from resolve_ok [OF at r] obtain tg where ok: "res_ok (tp_buf p) at tg r" "occurs_at (tp_buf p) tg at" by blast
      note at_le = occurs_bound [OF ok(2)]
      note progress = resolve_progress [OF at r]
      note step = drain.simps [of js p out, unfolded None option.case at prod.case r]
      show ?thesis
      proof (cases r)
        case (NeedMore h)
        with ok at_le less.prems show ?thesis unfolding step by (simp add: release_text_ascii)
      next
        case (NotACall e m)
        with ok at_le progress less.prems show ?thesis unfolding step
          by (auto simp: fall_through_ascii release_Some intro!: IH [of _ e])
      next
        case (EnterThink k m)
        with ok at_le progress less.prems show ?thesis unfolding step
          by (auto simp: release_Some intro!: IH [of _ m])
      next
        case (Complete a b d cs)
        define q where "q = p\<lparr>tp_tally := count_call d (length cs) (tp_tally p)\<rparr>"
        have q: "tp_buf q = tp_buf p" by (simp add: q_def)
        from Complete ok at_le progress have ab: "a \<le> length (tp_buf p)" "a < b" "b \<le> length (tp_buf p)" by auto
        with release_text_Some [of q a out] less.prems q obtain o1 where
          1: "release_text a q out = Some (o1, q\<lparr>tp_buf := drop a (tp_buf q)\<rparr>)" by auto
        moreover have "release (b - a) (q\<lparr>tp_buf := drop a (tp_buf q)\<rparr>)
            = Some (take (b - a) (drop a (tp_buf q)), q\<lparr>tp_buf := drop b (tp_buf q)\<rparr>)"
          using ab less.prems q by (subst release_Some) (simp_all add: ascii_parts(2))
        ultimately show ?thesis using Complete ab q unfolding step
          by (auto simp: q_def [symmetric] intro!: IH [of _ b])
      qed
    qed
  qed
qed


lemma tool_flush_ascii:
  assumes "prints_ascii js" "is_ascii (tp_buf p)"
  shows "tool_flush js p \<noteq> None"
  using drain_ascii [of js "p\<lparr>tp_at_eos := True\<rparr>" "[]"] assms by (auto simp: tool_flush_def split: option.splits)

lemma tool_run_ascii:
  "prints_ascii js \<Longrightarrow> is_ascii (tp_buf p) \<Longrightarrow> list_all is_ascii cs \<Longrightarrow> tool_run js p cs \<noteq> None"
proof (induction cs arbitrary: p)
  case Nil
  then show ?case using tool_flush_ascii by simp
next
  case (Cons c cs)
  then have ascii: "is_ascii (tp_buf p @ c)" by simp
  have "tool_push js c p \<noteq> None"
    using drain_ascii [of js "p\<lparr>tp_buf := tp_buf p @ c\<rparr>" "[]"] Cons.prems ascii by (auto simp: tool_push_def)
  then obtain out q where q: "tool_push js c p = Some (out, q)" by auto
  from tool_push_covers [OF q] ascii have "is_ascii (tp_buf q)" by (metis ascii_append)
  with Cons q show ?case by (auto split: option.splits)
qed

text \<open>The text of the outputs, with the calls left out.\<close>

fun output_text :: "parser_output list \<Rightarrow> string" where
  "output_text [] = []"
| "output_text (TextOut t # os) = t @ output_text os"
| "output_text (CallOut c # os) = output_text os"

fun no_call :: "parser_output \<Rightarrow> bool" where
  "no_call (TextOut _) = True"
| "no_call (CallOut _) = False"

lemma no_call_map: "list_all no_call (map CallOut cs) \<Longrightarrow> cs = []"
  by (cases cs) auto

lemma covers_no_call: "covers s os \<Longrightarrow> list_all no_call os \<Longrightarrow> output_text os = s"
  by (induction rule: covers.induct) (auto dest: no_call_map)

text \<open>
  C31: For every split of an ASCII reply into chunks the tool-call parser neither panics nor loops, and
  its outputs account for the whole reply: the text is a sequence of pieces, each released unchanged
  as text or, where it starts with a call marker, replaced by one or more calls, and nothing stays in
  the buffer after the flush. (A parse that yields no call gives the reply back byte for byte:
  \<open>covers_no_call\<close>.)\<close>
theorem tool_stream_accounts:
  assumes "prints_ascii js" "list_all is_ascii cs"
  shows "\<exists>out p. tool_run js (tool_parser_new protocol) cs = Some (out, p)
     \<and> covers (concat cs) out \<and> tp_buf p = []"
proof -
  have "is_ascii (tp_buf (tool_parser_new protocol))" by (simp add: tool_parser_new_def is_ascii_def)
  from tool_run_ascii [OF assms(1) this assms(2)] obtain out p where
    run: "tool_run js (tool_parser_new protocol) cs = Some (out, p)" by auto
  from tool_run_covers [OF run] have "covers (concat cs) out \<and> tp_buf p = []"
    by (simp add: tool_parser_new_def)
  with run show ?thesis by blast
qed


lemma tool_stream_accounts_witness:
  "\<exists>out p. tool_run sample_js (tool_parser_new Auto) [''a <tool_c'', ''all>{'', ''} b''] = Some (out, p)
     \<and> covers (concat [''a <tool_c'', ''all>{'', ''} b'']) out \<and> tp_buf p = []"
  by (rule tool_stream_accounts) (simp_all add: sample_js_def is_ascii_def prints_ascii_def)

text \<open>
  The rehearsal gate can panic: in front of an argument marker the tool name is taken to start one
  byte after the last character that is no name character, and when that character is longer than one
  byte the slice starts inside it. Whatever the JSON library does and whichever tools are enabled, a
  reply that holds a two-byte letter and a name before \<open>[ARGS]\<close> brings the parser down.\<close>
lemma rehearsal_panics_after_multibyte:
  "tool_run js (with_enabled_tools tools (tool_parser_new Auto)) [[CHR 0xC3, CHR 0xA9] @ ''ls[ARGS]''] = None"
proof -
  let ?buf = "[CHR 0xC3, CHR 0xA9] @ ''ls[ARGS]''"
  define p where "p = with_enabled_tools tools (tool_parser_new Auto)\<lparr>tp_buf := ?buf\<rparr>"
  have "find_trigger p = Some (4, RehearsalT)"
    by (simp add: p_def find_trigger_def triggers_def consider_trigger_def with_enabled_tools_def
        tool_parser_new_def tag_defs starts_with_def)
  moreover have "resolve js p 4 RehearsalT = None"
  proof -
    have chars: "name_char (CHR ''l'')" "name_char (CHR ''s'')" "\<not> name_char (CHR 0xA9)" "is_cont_byte (CHR 0xA9)"
      "\<not> is_cont_byte (CHR 0xC3)"
      by (simp_all add: name_char_def is_ascii_alphanumeric_def is_ascii_alphabetic_def ascii_range_def is_cont_byte_def)
    then have "rehearsal_name_start (take 4 ?buf) = 1" by (simp add: rehearsal_name_start_def)
    moreover have "str_slice ?buf 1 4 = None" using chars by (simp add: str_slice_def is_char_boundary_def)
    ultimately show ?thesis by (simp add: p_def resolve_def resolve_rehearsal_def del: One_nat_def)
  qed
  ultimately have "drain js p [] = None"
    by (subst drain.simps) (simp add: p_def with_enabled_tools_def tool_parser_new_def)
  then show ?thesis by (simp add: tool_push_def p_def with_enabled_tools_def tool_parser_new_def)
qed

text \<open>
  The log line can panic too: malformed markup whose 120th byte falls inside a character brings
  the parser down where it should be given back as text.\<close>
lemma snippet_panics_on_multibyte:
  "tool_run sample_js (tool_parser_new TagJson)
     [tag_open @ replicate 108 (CHR ''a'') @ [CHR 0xC3, CHR 0xA9] @ tag_close] = None"
  by code_simp

end
