(* ===== verification/OutputFilter.thy ===== *)
theory OutputFilter
  imports StopMatcher ToolCalls
begin

text \<open>
  Between the sampler and the consumer of a reply
  (\<^verbatim>\<open>src/backend/common/output_filter.rs\<close>, \<^verbatim>\<open>src/generation/events.rs\<close>).  Tokens whose text may
  begin a stop pattern are held, a completed pattern ends the stream, and the released text passes
  through the tool-call parser.  An outer option is a panic, as in \<open>ToolCalls\<close>; \<open>'e\<close> is
  \<^verbatim>\<open>ExecError\<close>.  A log probability is the 32 bits of its float.
\<close>

record token =
  tk_id :: nat
  tk_text :: string
  tk_logprob :: "32 word option"

datatype media_boundary = BeginImage nat | EndImage nat | BeginAudio nat | EndAudio nat

record speech_chunk =
  sc_sample_rate :: nat
  sc_samples :: "32 word list"

datatype token_event =
    SpeechEv speech_chunk
  | TokenEv token
  | SpecialEv string
  | MediaBoundaryEv media_boundary
  | ToolCallEv parsed_call
  | PausedEv
  | StoppedEv
  | EosEv

record 'e output_filter =
  of_stop :: stop_matcher
  of_held :: "(nat \<times> string) list"
  of_tool_parser :: "tool_parser option"
  of_pending :: "('e + token_event) list"
  of_done :: bool

definition with_matcher :: "stop_matcher \<Rightarrow> 'e output_filter" where
  "with_matcher m = \<lparr>of_stop = m, of_held = [], of_tool_parser = Some (tool_parser_new Auto),
     of_pending = [], of_done = False\<rparr>"

definition output_filter_new :: "stop_pattern list \<Rightarrow> 'e output_filter" where
  "output_filter_new ps = \<lparr>of_stop = stop_matcher_new ps, of_held = [],
     of_tool_parser = Some (tool_parser_new Auto), of_pending = [], of_done = False\<rparr>"

definition without_tool_calls :: "'e output_filter \<Rightarrow> 'e output_filter" where
  "without_tool_calls f = f\<lparr>of_tool_parser := None\<rparr>"

definition with_tool_protocol :: "protocol \<Rightarrow> 'e output_filter \<Rightarrow> 'e output_filter" where
  "with_tool_protocol protocol f = f\<lparr>of_tool_parser := Some (tool_parser_new protocol)\<rparr>"

definition set_enabled_tools :: "string list \<Rightarrow> 'e output_filter \<Rightarrow> 'e output_filter" where
  "set_enabled_tools tools f = f\<lparr>of_tool_parser := map_option (with_enabled_tools tools) (of_tool_parser f)\<rparr>"

section \<open>Emission\<close>

definition text_token :: "nat \<Rightarrow> string \<Rightarrow> token_event" where
  "text_token i t = TokenEv \<lparr>tk_id = i, tk_text = t, tk_logprob = None\<rparr>"

text \<open>The events of parser outputs; empty text makes none.\<close>

definition output_events :: "nat \<Rightarrow> parser_output list \<Rightarrow> token_event list" where
  "output_events i outs = concat (map (\<lambda>out. case out of
       TextOut s \<Rightarrow> (if s = [] then [] else [text_token i s])
     | CallOut c \<Rightarrow> [ToolCallEv c]) outs)"

definition emit_text_chunk :: "json_lib \<Rightarrow> nat \<Rightarrow> string \<Rightarrow> 'e output_filter \<Rightarrow> 'e output_filter option" where
  "emit_text_chunk js i text f =
     (case of_tool_parser f of
        None \<Rightarrow> Some (f\<lparr>of_pending := of_pending f @ [Inr (text_token i text)]\<rparr>)
      | Some parser \<Rightarrow>
          (case tool_push js text parser of
             None \<Rightarrow> None
           | Some (outs, parser') \<Rightarrow>
               Some (f\<lparr>of_tool_parser := Some parser',
                 of_pending := of_pending f @ map Inr (output_events i outs)\<rparr>)))"

fun emit_chunks :: "json_lib \<Rightarrow> (nat \<times> string) list \<Rightarrow> 'e output_filter \<Rightarrow> 'e output_filter option" where
  "emit_chunks js [] f = Some f"
| "emit_chunks js ((i, t) # hs) f =
     (case emit_text_chunk js i t f of None \<Rightarrow> None | Some f' \<Rightarrow> emit_chunks js hs f')"

text \<open>The parser's flush, as \<open>Full\<close> and \<open>flush_text\<close> do it.\<close>

definition flush_parser :: "json_lib \<Rightarrow> 'e output_filter \<Rightarrow> 'e output_filter option" where
  "flush_parser js f =
     (case of_tool_parser f of
        None \<Rightarrow> Some f
      | Some parser \<Rightarrow>
          (case tool_flush js parser of
             None \<Rightarrow> None
           | Some (outs, parser') \<Rightarrow>
               Some (f\<lparr>of_tool_parser := Some parser',
                 of_pending := of_pending f @ map Inr (output_events 0 outs)\<rparr>)))"

text \<open>The loop \<^verbatim>\<open>while cut > 0 && !t.is_char_boundary(cut)\<close>.\<close>

fun floor_boundary :: "string \<Rightarrow> nat \<Rightarrow> nat" where
  "floor_boundary t 0 = 0"
| "floor_boundary t (Suc n) = (if is_char_boundary t (Suc n) then Suc n else floor_boundary t n)"

text \<open>What a match lets out of the held tokens: \<open>remain\<close> bytes, the last token cut on a character.\<close>

fun held_until :: "nat \<Rightarrow> (nat \<times> string) list \<Rightarrow> (nat \<times> string) list" where
  "held_until remain [] = []"
| "held_until remain ((i, t) # hs) =
     (if remain = 0 then []
      else if length t \<le> remain then (i, t) # held_until (remain - length t) hs
      else let cut = floor_boundary t remain in if 0 < cut then [(i, take cut t)] else [])"

definition filter_reset :: "'e output_filter \<Rightarrow> 'e output_filter" where
  "filter_reset f = f\<lparr>of_stop := stop_reset (of_stop f)\<rparr>"

definition push_token ::
  "json_lib \<Rightarrow> nat \<Rightarrow> string \<Rightarrow> 'e output_filter \<Rightarrow> (bool \<times> 'e output_filter) option" where
  "push_token js i text f =
     (if of_done f then Some (False, f)
      else if stops_empty (of_stop f) then map_option (Pair True) (emit_text_chunk js i text f)
      else
        let (state, stop) = stop_push text (of_stop f);
            held = of_held f @ [(i, text)]
        in case state of
             Clean \<Rightarrow>
               (case emit_chunks js held (f\<lparr>of_stop := stop, of_held := []\<rparr>) of
                  None \<Rightarrow> None
                | Some g \<Rightarrow> Some (True, filter_reset g))
           | Partial _ \<Rightarrow> Some (False, f\<lparr>of_stop := stop, of_held := held\<rparr>)
           | Full _ _ emit_at \<Rightarrow>
               (case emit_chunks js (held_until emit_at held) (f\<lparr>of_stop := stop, of_held := []\<rparr>) of
                  None \<Rightarrow> None
                | Some g \<Rightarrow>
                    (case flush_parser js g of
                       None \<Rightarrow> None
                     | Some h \<Rightarrow>
                         Some (True, filter_reset (h\<lparr>of_pending := of_pending h @ [Inr EosEv], of_done := True\<rparr>)))))"

definition flush_held :: "json_lib \<Rightarrow> 'e output_filter \<Rightarrow> 'e output_filter option" where
  "flush_held js f = map_option filter_reset (emit_chunks js (of_held f) (f\<lparr>of_held := []\<rparr>))"

definition flush_text :: "json_lib \<Rightarrow> 'e output_filter \<Rightarrow> 'e output_filter option" where
  "flush_text js f = (case flush_held js f of None \<Rightarrow> None | Some g \<Rightarrow> flush_parser js g)"

definition finalize :: "json_lib \<Rightarrow> token_event \<Rightarrow> 'e output_filter \<Rightarrow> 'e output_filter option" where
  "finalize js extra f =
     (case flush_text js f of
        None \<Rightarrow> None
      | Some g \<Rightarrow> Some (g\<lparr>of_pending := of_pending g @ [Inr extra], of_done := True\<rparr>))"

definition filter_pop :: "'e output_filter \<Rightarrow> ('e + token_event) option \<times> 'e output_filter" where
  "filter_pop f =
     (case of_pending f of [] \<Rightarrow> (None, f) | e # es \<Rightarrow> (Some e, f\<lparr>of_pending := es\<rparr>))"

definition push_event :: "token_event \<Rightarrow> 'e output_filter \<Rightarrow> 'e output_filter" where
  "push_event ev f = f\<lparr>of_pending := of_pending f @ [Inr ev]\<rparr>"

definition push_err :: "'e \<Rightarrow> 'e output_filter \<Rightarrow> 'e output_filter" where
  "push_err err f = f\<lparr>of_pending := of_pending f @ [Inl err], of_done := True\<rparr>"

section \<open>What a stream of chunks should show\<close>

text \<open>
  The reference: the first push after which the text so far holds a pattern ends the stream, and
  what was said before the leftmost pattern, with its kept prefix, is shown; without one, everything.
\<close>

definition cut_text :: "nat \<Rightarrow> string \<Rightarrow> string" where
  "cut_text n s = (if length s \<le> n then s else take (floor_boundary s n) s)"

fun visible :: "stop_pattern list \<Rightarrow> string \<Rightarrow> string list \<Rightarrow> string" where
  "visible ps seen [] = seen"
| "visible ps seen (t # ts) =
     (case earliest ps (seen @ t) of
        Some (at, p) \<Rightarrow> cut_text (at + sp_keep_prefix p) (seen @ t)
      | None \<Rightarrow> visible ps (seen @ t) ts)"

section \<open>Matching in the rest of a text\<close>

lemma occurs_at_shift: "length r \<le> i \<Longrightarrow> occurs_at (r @ s) t i \<longleftrightarrow> occurs_at s t (i - length r)"
  using occurs_at_append_right [of r s t "i - length r"] by simp

lemma str_find_unique: "occurs_at s t i \<Longrightarrow> (\<And>j. j < i \<Longrightarrow> \<not> occurs_at s t j) \<Longrightarrow> str_find s t = Some i"
  using str_find_Some [of s t] str_find_None [of s t i] by (cases "str_find s t") (auto, metis linorder_neqE_nat)

lemma str_find_shift:
  assumes "\<And>i. occurs_at (r @ s) t i \<Longrightarrow> length r \<le> i"
  shows "str_find (r @ s) t = map_option ((+) (length r)) (str_find s t)"
proof (cases "str_find s t")
  case None
  have "str_find (r @ s) t = None"
    unfolding str_find_None_iff using assms occurs_at_shift str_find_None [OF None] by blast
  with None show ?thesis by simp
next
  case (Some i)
  note i = str_find_Some [OF Some]
  have "str_find (r @ s) t = Some (length r + i)"
  proof (rule str_find_unique)
    show "occurs_at (r @ s) t (length r + i)" using i by (simp add: occurs_at_append_right)
    fix j assume "j < length r + i"
    with i assms [of j] occurs_at_shift [of r j s t] show "\<not> occurs_at (r @ s) t j" by auto
  qed
  with Some show ?thesis by simp
qed

lemma earliest_shift:
  assumes "\<And>i. stops_at ps (r @ s) i \<Longrightarrow> length r \<le> i"
  shows "earliest ps (r @ s) = map_option (apfst ((+) (length r))) (earliest ps s)"
proof -
  have "fold (earliest_step (r @ s)) qs (map_option (apfst ((+) (length r))) best)
      = map_option (apfst ((+) (length r))) (fold (earliest_step s) qs best)"
    if "set qs \<subseteq> set ps" for qs best
    using that
  proof (induction qs arbitrary: best)
    case (Cons p qs)
    have "str_find (r @ s) (sp_text p) = map_option ((+) (length r)) (str_find s (sp_text p))"
      if "sp_text p \<noteq> []"
      using that assms Cons.prems by (intro str_find_shift) (auto simp: stops_at_def)
    then have "earliest_step (r @ s) p (map_option (apfst ((+) (length r))) best)
        = map_option (apfst ((+) (length r))) (earliest_step s p best)"
      by (auto simp: earliest_step_def split: option.split)
    with Cons show ?case by simp
  qed simp
  from this [of ps None] show ?thesis by (simp add: earliest_def)
qed

section \<open>Cutting held tokens\<close>

lemma floor_boundary_le: "floor_boundary t n \<le> n"
  by (induction n) auto

lemma floor_boundary_append: "n < length t \<Longrightarrow> floor_boundary (t @ u) n = floor_boundary t n"
  by (induction n) (auto simp: is_char_boundary_def nth_append)

lemma floor_boundary_shift:
  "chunk_ok u \<Longrightarrow> n < length u \<Longrightarrow> floor_boundary (t @ u) (length t + n) = length t + floor_boundary u n"
proof (induction n)
  case 0
  then have "\<not> is_cont_byte (u ! 0)" by (auto simp: chunk_ok_def hd_conv_nth)
  with 0 show ?case by (cases "length t") (auto simp: is_char_boundary_def nth_append)
next
  case (Suc n)
  then show ?case by (auto simp: is_char_boundary_def nth_append)
qed

lemma chunk_ok_append: "chunk_ok s \<Longrightarrow> chunk_ok t \<Longrightarrow> chunk_ok (s @ t)"
  by (cases s) (auto simp: chunk_ok_def)

lemma chunk_ok_concat: "list_all chunk_ok ts \<Longrightarrow> chunk_ok (concat ts)"
  by (induction ts) (auto intro: chunk_ok_append, simp add: chunk_ok_def)

lemma cut_text_append:
  "chunk_ok u \<Longrightarrow> cut_text n (t @ u) = (if length t \<le> n then t @ cut_text (n - length t) u else cut_text n t)"
proof (cases "length t \<le> n \<and> n < length t + length u")
  case True
  assume "chunk_ok u"
  moreover from True obtain m where "n = length t + m" "m < length u"
    by (metis add_less_cancel_left le_add_diff_inverse)
  ultimately show ?thesis by (simp add: cut_text_def floor_boundary_shift)
next
  case False
  have "floor_boundary t n \<le> length t" if "n < length t" using floor_boundary_le [of t n] that by simp
  with False show ?thesis by (auto simp: cut_text_def floor_boundary_append)
qed

lemma held_until_text:
  "list_all chunk_ok (map snd hs) \<Longrightarrow> concat (map snd (held_until n hs)) = cut_text n (concat (map snd hs))"
proof (induction hs arbitrary: n)
  case (Cons h hs)
  obtain i t where h: "h = (i, t)" by (cases h)
  have "chunk_ok (concat (map snd hs))" using Cons.prems chunk_ok_concat by simp
  note app = cut_text_append [OF this, of n t]
  show ?case
  proof (cases "n = 0")
    case True
    then show ?thesis using app h by (auto simp: cut_text_def)
  next
    case False
    with app h Cons show ?thesis by (auto simp: cut_text_def Let_def)
  qed
qed (simp add: cut_text_def)

section \<open>What was emitted accounts for what was released\<close>

definition event_outputs :: "'e + token_event \<Rightarrow> parser_output list" where
  "event_outputs e =
     (case e of Inr (TokenEv t) \<Rightarrow> [TextOut (tk_text t)] | Inr (ToolCallEv c) \<Rightarrow> [CallOut c] | _ \<Rightarrow> [])"

definition shown :: "('e + token_event) list \<Rightarrow> parser_output list" where
  "shown evs = concat (map event_outputs evs)"

lemma shown_simps [simp]:
  "shown [] = []" "shown (xs @ ys) = shown xs @ shown ys" "shown [Inr EosEv] = []"
  "shown [Inr (text_token i t)] = [TextOut t]"
  by (simp_all add: shown_def event_outputs_def text_token_def)

lemma shown_output_events: "shown (map Inr (output_events i outs)) = filter (\<lambda>out. out \<noteq> TextOut []) outs"
  by (induction outs)
    (auto simp: output_events_def shown_def event_outputs_def text_token_def split: parser_output.split)

lemma covers_drop_empty: "covers s os \<Longrightarrow> covers s (filter (\<lambda>out. out \<noteq> TextOut []) os)"
proof (induction rule: covers.induct)
  case (covers_calls s os cs m)
  have "filter (\<lambda>out. out \<noteq> TextOut []) (map CallOut cs) = map CallOut cs" by (induction cs) auto
  with covers_calls covers.covers_calls show ?case by simp
qed (auto intro: covers.intros)

text \<open>The released text \<open>r\<close> is in the events, but for what the tool-call parser still holds.\<close>

definition accounted :: "string \<Rightarrow> 'e output_filter \<Rightarrow> bool" where
  "accounted r f \<longleftrightarrow> Inr EosEv \<notin> set (of_pending f) \<and>
     (case of_tool_parser f of
        None \<Rightarrow> covers r (shown (of_pending f)) \<and> list_all no_call (shown (of_pending f))
      | Some p \<Rightarrow> \<exists>s. r = s @ tp_buf p \<and> covers s (shown (of_pending f)))"

lemma output_events_no_eos [simp]: "EosEv \<notin> set (output_events i outs)" "text_token i t \<noteq> EosEv" "EosEv \<noteq> text_token i t"
  by (auto simp: output_events_def text_token_def split: parser_output.splits if_splits)

text \<open>No panic is to be expected: there is no parser, or all it sees is ASCII.\<close>

definition calm :: "json_lib \<Rightarrow> bool \<Rightarrow> string \<Rightarrow> bool" where
  "calm js parser text \<longleftrightarrow> (parser \<longrightarrow> prints_ascii js \<and> is_ascii text)"

text \<open>A step that touches only the events and the parser.\<close>

definition only_emits :: "'e output_filter \<Rightarrow> 'e output_filter \<Rightarrow> bool" where
  "only_emits f f' \<longleftrightarrow> of_stop f' = of_stop f \<and> of_held f' = of_held f \<and> of_done f' = of_done f
     \<and> (of_tool_parser f' = None \<longleftrightarrow> of_tool_parser f = None)"

lemma emit_accounted:
  assumes "accounted r f" "calm js (of_tool_parser f \<noteq> None) (r @ t)"
  shows "\<exists>f'. emit_text_chunk js i t f = Some f' \<and> accounted (r @ t) f'
     \<and> only_emits f f'"
proof (cases "of_tool_parser f")
  case None
  with assms(1) have "covers (r @ t) (shown (of_pending f) @ [TextOut t])"
    by (intro covers_append covers_one) (simp add: accounted_def)
  with None assms(1) show ?thesis by (auto simp: emit_text_chunk_def accounted_def only_emits_def)
next
  case (Some p)
  with assms(1) obtain s where s: "r = s @ tp_buf p" "covers s (shown (of_pending f))"
    by (auto simp: accounted_def)
  with assms(2) Some have ascii: "prints_ascii js" "is_ascii (tp_buf p @ t)" by (auto simp: calm_def)
  have "tool_push js t p \<noteq> None"
    using drain_ascii [of js "p\<lparr>tp_buf := tp_buf p @ t\<rparr>" "[]"] ascii by (auto simp: tool_push_def)
  then obtain outs p' where push: "tool_push js t p = Some (outs, p')" by auto
  from tool_push_covers [OF push] obtain s' where s': "tp_buf p @ t = s' @ tp_buf p'" "covers s' outs" by blast
  have "covers (s @ s') (shown (of_pending f) @ filter (\<lambda>out. out \<noteq> TextOut []) outs)"
    using s(2) covers_drop_empty [OF s'(2)] by (rule covers_append)
  moreover have "r @ t = (s @ s') @ tp_buf p'" using s(1) s'(1) by simp
  ultimately show ?thesis
    using Some push assms(1) by (auto simp: emit_text_chunk_def accounted_def shown_output_events only_emits_def)
qed

lemma emit_chunks_accounted:
  "accounted r f \<Longrightarrow> calm js (of_tool_parser f \<noteq> None) (r @ concat (map snd hs)) \<Longrightarrow>
     \<exists>f'. emit_chunks js hs f = Some f' \<and> accounted (r @ concat (map snd hs)) f'
     \<and> only_emits f f'"
proof (induction hs arbitrary: r f)
  case (Cons h hs)
  obtain i t where h: "h = (i, t)" by (cases h)
  with Cons.prems have "calm js (of_tool_parser f \<noteq> None) (r @ t)" by (auto simp: calm_def)
  from emit_accounted [OF Cons.prems(1) this] obtain g where
    g: "emit_text_chunk js i t f = Some g" "accounted (r @ t) g"
      "only_emits f g" by blast
  from Cons.IH [OF g(2)] Cons.prems(2) g(3) h obtain f' where
    "emit_chunks js hs g = Some f'" "accounted ((r @ t) @ concat (map snd hs)) f'" "only_emits g f'"
    by (auto simp: only_emits_def)
  with g h show ?case by (auto simp: only_emits_def)
qed (auto simp: only_emits_def)

lemma flush_accounted:
  assumes "accounted r f" "calm js (of_tool_parser f \<noteq> None) r"
  shows "\<exists>f'. flush_parser js f = Some f' \<and> covers r (shown (of_pending f'))
     \<and> (of_tool_parser f = None \<longrightarrow> list_all no_call (shown (of_pending f')))
     \<and> Inr EosEv \<notin> set (of_pending f')
     \<and> only_emits f f'"
proof (cases "of_tool_parser f")
  case None
  with assms(1) show ?thesis by (simp add: flush_parser_def accounted_def only_emits_def)
next
  case (Some p)
  with assms(1) obtain s where s: "r = s @ tp_buf p" "covers s (shown (of_pending f))"
    by (auto simp: accounted_def)
  with assms(2) Some have "tool_flush js p \<noteq> None" by (intro tool_flush_ascii) (auto simp: calm_def)
  then obtain outs p' where flush: "tool_flush js p = Some (outs, p')" by auto
  from tool_flush_covers [OF this] have "covers (tp_buf p) outs" by simp
  from covers_append [OF s(2) covers_drop_empty [OF this]] s(1) flush Some assms(1) show ?thesis
    by (auto simp: flush_parser_def shown_output_events only_emits_def accounted_def)
qed

section \<open>The filter shows what the stream should show\<close>

text \<open>
  Between pushes: \<open>seen\<close> came in, \<open>r\<close> of it was released and the rest is held; no pattern is in
  \<open>seen\<close>, and none that comes can reach back into \<open>r\<close>.
\<close>

definition waiting :: "stop_pattern list \<Rightarrow> string \<Rightarrow> string \<Rightarrow> 'e output_filter \<Rightarrow> bool" where
  "waiting ps seen r f \<longleftrightarrow>
     \<not> of_done f \<and> sm_patterns (of_stop f) = ps \<and> sm_buf (of_stop f) = concat (map snd (of_held f))
     \<and> list_all chunk_ok (map snd (of_held f)) \<and> seen = r @ sm_buf (of_stop f) \<and> accounted r f
     \<and> (ps = [] \<longrightarrow> of_held f = [])
     \<and> (\<forall>i. \<not> stops_at ps seen i) \<and> (\<forall>c i. chunk_ok c \<longrightarrow> stops_at ps (seen @ c) i \<longrightarrow> length r \<le> i)"

lemma accounted_cong:
  fixes f g :: "'e output_filter"
  assumes "of_pending g = of_pending f" "of_tool_parser g = of_tool_parser f"
  shows "accounted r g \<longleftrightarrow> accounted r f"
  unfolding accounted_def assms ..

lemma waiting_release:
  assumes "waiting ps seen r f" "chunk_ok t" "earliest ps (seen @ t) = None" "ps \<noteq> []"
    "longest_hold ps (sm_buf (of_stop f) @ t) = 0" "chunk_ok c" "stops_at ps (seen @ t @ c) i"
  shows "length (seen @ t) \<le> i"
proof -
  let ?b = "sm_buf (of_stop f) @ t"
  have seen: "seen = r @ sm_buf (of_stop f)" using assms(1) by (simp add: waiting_def)
  have i: "length r \<le> i" using assms(1,2,6,7) chunk_ok_append [of t c] by (auto simp: waiting_def)
  have "earliest ps ?b = None"
    using assms(3) occurs_at_append_right unfolding earliest_None_iff seen stops_at_def append_assoc by metis
  from conjunct1 [OF stop_hold_exact [OF this]] assms(5,6)
  have "stops_at ps (?b @ c) j \<Longrightarrow> length ?b \<le> j" for j by auto
  moreover have "stops_at ps (?b @ c) (i - length r)"
    using assms(7) i occurs_at_shift [of r i "?b @ c"] unfolding seen stops_at_def by auto
  ultimately have "length ?b \<le> i - length r" by blast
  with i seen show ?thesis by simp
qed

lemma push_waiting:
  fixes f :: "'e output_filter"
  assumes "waiting ps seen r f" "chunk_ok t" "earliest ps (seen @ t) = None"
    "calm js (of_tool_parser f \<noteq> None) (seen @ t)"
  shows "\<exists>b f' r'. push_token js i t f = Some (b, f') \<and> waiting ps (seen @ t) r' f'
     \<and> (of_tool_parser f' = None \<longleftrightarrow> of_tool_parser f = None)"
proof -
  from assms(1) have w: "\<not> of_done f" "sm_patterns (of_stop f) = ps" "seen = r @ sm_buf (of_stop f)"
    "sm_buf (of_stop f) = concat (map snd (of_held f))" "list_all chunk_ok (map snd (of_held f))"
    "accounted r f" by (auto simp: waiting_def)
  have clean: "\<forall>i. \<not> stops_at ps (seen @ t) i" using assms(3) by (simp add: earliest_None_iff)
  have later: "length r \<le> j" if "chunk_ok c" "stops_at ps (seen @ t @ c) j" for c j
    using assms(1,2) that chunk_ok_append [of t c] by (auto simp: waiting_def)
  show ?thesis
  proof (cases "ps = []")
    case True
    with assms(1) have held: "of_held f = []" "seen = r" by (auto simp: waiting_def)
    with assms(4) w(6) obtain f' where "emit_text_chunk js i t f = Some f'" "accounted (seen @ t) f'"
      "only_emits f f'" using emit_accounted [of r f js t i] by auto
    with True w held show ?thesis
      by (intro exI [of _ True] exI [of _ f'] exI [of _ "seen @ t"])
        (auto simp: push_token_def stops_empty_def waiting_def only_emits_def)
  next
    case False
    let ?b = "sm_buf (of_stop f) @ t"
    let ?m = "(of_stop f)\<lparr>sm_buf := ?b\<rparr>"
    have "earliest ps ?b = None"
      using assms(3) occurs_at_append_right unfolding earliest_None_iff w(3) stops_at_def append_assoc by metis
    then have push: "stop_push t (of_stop f) = (if 0 < longest_hold ps ?b then Partial (longest_hold ps ?b) else Clean, ?m)"
      using w(2) by (simp add: stop_push_def Let_def)
    note step = push_token_def [of js i t f, unfolded push prod.case Let_def stops_empty_def w(2)]
    show ?thesis
    proof (cases "0 < longest_hold ps ?b")
      case True
      define f' where "f' = f\<lparr>of_stop := ?m, of_held := of_held f @ [(i, t)]\<rparr>"
      have "push_token js i t f = Some (False, f')" using step True False w(1) by (simp add: f'_def)
      moreover have "accounted r f'" using w(6) by (subst accounted_cong [of _ f]) (simp_all add: f'_def)
      then have "waiting ps (seen @ t) r f'"
        using w False clean later assms(2) by (auto simp: waiting_def f'_def)
      ultimately show ?thesis by (auto simp: f'_def)
    next
      case hold: False
      define g where "g = f\<lparr>of_stop := ?m, of_held := []\<rparr>"
      have "accounted r g" using w(6) by (subst accounted_cong [of _ f]) (simp_all add: g_def)
      moreover have all: "seen @ t = r @ concat (map snd (of_held f @ [(i, t)]))" using w(3,4) by simp
      ultimately obtain h where h: "emit_chunks js (of_held f @ [(i, t)]) g = Some h"
        "accounted (seen @ t) h" "only_emits g h"
        using emit_chunks_accounted [of r g js "of_held f @ [(i, t)]"] assms(4) by (auto simp: g_def)
      from h step hold False w(1) have "push_token js i t f = Some (True, filter_reset h)" by (simp add: g_def)
      moreover have "accounted (seen @ t) (filter_reset h)"
        using h(2) by (subst accounted_cong [of _ h]) (simp_all add: filter_reset_def)
      then have "waiting ps (seen @ t) (seen @ t) (filter_reset h)"
        using h(3) w(1,2) clean False waiting_release [OF assms(1-3) False] hold
        by (auto simp: waiting_def filter_reset_def only_emits_def g_def stop_reset_def)
      ultimately show ?thesis using h(3) by (auto simp: only_emits_def g_def filter_reset_def)
    qed
  qed
qed

text \<open>The end of a stream: \<open>v\<close> was shown, and a single end event follows.\<close>

definition ended_with :: "bool \<Rightarrow> string \<Rightarrow> 'e output_filter \<Rightarrow> bool" where
  "ended_with parser v f \<longleftrightarrow> of_done f \<and>
     (\<exists>evs. of_pending f = evs @ [Inr EosEv] \<and> Inr EosEv \<notin> set evs \<and> covers v (shown evs)
        \<and> (\<not> parser \<longrightarrow> list_all no_call (shown evs)))"

lemma push_match:
  fixes f :: "'e output_filter"
  assumes "waiting ps seen r f" "chunk_ok t" "earliest ps (seen @ t) = Some (at, p)"
    "calm js (of_tool_parser f \<noteq> None) (seen @ t)"
  shows "\<exists>f'. push_token js i t f = Some (True, f')
     \<and> ended_with (of_tool_parser f \<noteq> None) (cut_text (at + sp_keep_prefix p) (seen @ t)) f'"
proof -
  from assms(1) have w: "\<not> of_done f" "sm_patterns (of_stop f) = ps" "seen = r @ sm_buf (of_stop f)"
    "sm_buf (of_stop f) = concat (map snd (of_held f))" "list_all chunk_ok (map snd (of_held f))"
    "accounted r f" by (auto simp: waiting_def)
  let ?b = "sm_buf (of_stop f) @ t"
  let ?held = "of_held f @ [(i, t)]"
  define g where "g = f\<lparr>of_stop := (of_stop f)\<lparr>sm_buf := ?b\<rparr>, of_held := []\<rparr>"
  have all: "seen @ t = r @ ?b" "?b = concat (map snd ?held)" using w(3,4) by simp_all
  have ok: "list_all chunk_ok (map snd ?held)" using w(5) assms(2) by simp
  then have b_ok: "chunk_ok ?b" unfolding all(2) by (rule chunk_ok_concat)
  have "length r \<le> j" if "stops_at ps (r @ ?b) j" for j
    using assms(1,2) that unfolding all(1) [symmetric] by (auto simp: waiting_def)
  from earliest_shift [OF this] assms(3) obtain a where a: "earliest ps ?b = Some (a, p)" "at = length r + a"
    unfolding all(1) by auto
  let ?n = "a + sp_keep_prefix p"
  have cut: "cut_text (at + sp_keep_prefix p) (seen @ t) = r @ cut_text ?n ?b"
    using cut_text_append [OF b_ok, of "at + sp_keep_prefix p" r] a(2) unfolding all(1) by simp
  have shown_text: "concat (map snd (held_until ?n ?held)) = cut_text ?n ?b"
    using held_until_text [OF ok, of ?n] all(2) by simp
  have "is_ascii (cut_text ?n ?b)" if "is_ascii (seen @ t)"
    using that ascii_parts(1) by (auto simp: cut_text_def all(1))
  then have calm: "calm js (of_tool_parser g \<noteq> None) (r @ cut_text ?n ?b)"
    using assms(4) by (auto simp: calm_def all(1) g_def)
  have "accounted r g" using w(6) by (subst accounted_cong [of _ f]) (simp_all add: g_def)
  from emit_chunks_accounted [OF this, of js "held_until ?n ?held"] calm shown_text
  obtain h where h: "emit_chunks js (held_until ?n ?held) g = Some h" "accounted (r @ cut_text ?n ?b) h"
    "only_emits g h" by auto
  from flush_accounted [OF h(2), of js] calm h(3) obtain k where
    k: "flush_parser js h = Some k" "covers (r @ cut_text ?n ?b) (shown (of_pending k))" "Inr EosEv \<notin> set (of_pending k)"
      "of_tool_parser h = None \<longrightarrow> list_all no_call (shown (of_pending k))" by (auto simp: only_emits_def)
  have nonempty: "ps \<noteq> []" using a(1) by (auto simp: earliest_def)
  have push: "stop_push t (of_stop f) = (Full a (length (sp_text p)) ?n, (of_stop f)\<lparr>sm_buf := ?b\<rparr>)"
    using w(2) a(1) by (simp add: stop_push_def Let_def)
  have "push_token js i t f
      = Some (True, filter_reset (k\<lparr>of_pending := of_pending k @ [Inr EosEv], of_done := True\<rparr>))"
    using push nonempty w(1,2) h(1) k(1) by (simp add: push_token_def stops_empty_def g_def)
  with k h(3) cut show ?thesis by (auto simp: ended_with_def filter_reset_def only_emits_def g_def)
qed

text \<open>A whole reply: its tokens in order, until the filter is done; at the end of the stream the
  caller finalizes with the end event.\<close>

fun filter_run :: "json_lib \<Rightarrow> (nat \<times> string) list \<Rightarrow> 'e output_filter \<Rightarrow> 'e output_filter option" where
  "filter_run js [] f = (if of_done f then Some f else finalize js EosEv f)"
| "filter_run js ((i, t) # ts) f =
     (if of_done f then Some f
      else case push_token js i t f of None \<Rightarrow> None | Some (_, f') \<Rightarrow> filter_run js ts f')"

lemma filter_run_done: "of_done f \<Longrightarrow> filter_run js ts f = Some f"
  by (cases ts) auto

lemma finalize_waiting:
  fixes f :: "'e output_filter"
  assumes "waiting ps seen r f" "calm js (of_tool_parser f \<noteq> None) seen"
  shows "\<exists>f'. finalize js EosEv f = Some f' \<and> ended_with (of_tool_parser f \<noteq> None) seen f'"
proof -
  from assms(1) have w: "seen = r @ concat (map snd (of_held f))" "accounted r f" by (auto simp: waiting_def)
  have "accounted r (f\<lparr>of_held := []\<rparr>)" using w(2) by (subst accounted_cong [of _ f]) simp_all
  from emit_chunks_accounted [OF this, of js "of_held f"] assms(2) w(1) obtain g where
    g: "emit_chunks js (of_held f) (f\<lparr>of_held := []\<rparr>) = Some g" "accounted seen g" "only_emits (f\<lparr>of_held := []\<rparr>) g"
    by auto
  have "accounted seen (filter_reset g)" using g(2) by (subst accounted_cong [of _ g]) (simp_all add: filter_reset_def)
  from flush_accounted [OF this, of js] assms(2) g(3) obtain h where
    "flush_parser js (filter_reset g) = Some h" "covers seen (shown (of_pending h))" "Inr EosEv \<notin> set (of_pending h)"
      "of_tool_parser f = None \<longrightarrow> list_all no_call (shown (of_pending h))"
    by (auto simp: only_emits_def filter_reset_def)
  with g(1) show ?thesis by (simp add: finalize_def flush_text_def flush_held_def ended_with_def)
qed

lemma filter_run_visible:
  fixes f :: "'e output_filter"
  assumes "waiting ps seen r f" "list_all chunk_ok (map snd ts)"
    "calm js (of_tool_parser f \<noteq> None) (seen @ concat (map snd ts))"
  shows "\<exists>f'. filter_run js ts f = Some f' \<and> ended_with (of_tool_parser f \<noteq> None) (visible ps seen (map snd ts)) f'"
  using assms
proof (induction ts arbitrary: seen r f)
  case Nil
  then show ?case using finalize_waiting [of ps seen r f js] by (auto simp: waiting_def)
next
  case (Cons it ts)
  obtain i t where it: "it = (i, t)" by (cases it)
  from Cons.prems(3) it have calm: "calm js (of_tool_parser f \<noteq> None) (seen @ t)"
    "calm js (of_tool_parser f \<noteq> None) ((seen @ t) @ concat (map snd ts))" by (auto simp: calm_def)
  have ok: "chunk_ok t" and busy: "\<not> of_done f" using Cons.prems it by (auto simp: waiting_def)
  show ?case
  proof (cases "earliest ps (seen @ t)")
    case None
    from push_waiting [OF Cons.prems(1) ok None calm(1), of i] obtain b :: bool and f' :: "'e output_filter" and r' where
      "push_token js i t f = Some (b, f')" "waiting ps (seen @ t) r' f'"
      "of_tool_parser f' = None \<longleftrightarrow> of_tool_parser f = None" by (elim exE conjE) (rule that)
    with Cons.IH [of "seen @ t" r' f'] Cons.prems(2) calm(2) it busy None show ?thesis by auto
  next
    case (Some m)
    obtain at p where m: "m = (at, p)" by (cases m)
    from push_match [OF Cons.prems(1) ok Some [unfolded m] calm(1), of i] obtain f' :: "'e output_filter" where
      "push_token js i t f = Some (True, f')"
      "ended_with (of_tool_parser f \<noteq> None) (cut_text (at + sp_keep_prefix p) (seen @ t)) f'" by blast
    with it busy Some m show ?thesis by (auto simp: filter_run_done ended_with_def)
  qed
qed

lemma waiting_new: "waiting ps [] [] (output_filter_new ps)" "waiting ps [] [] (without_tool_calls (output_filter_new ps))"
proof -
  have "\<not> stops_at ps [] i" for i by (auto simp: stops_at_def occurs_at_def)
  then show "waiting ps [] [] (output_filter_new ps)" "waiting ps [] [] (without_tool_calls (output_filter_new ps))"
    by (auto simp: waiting_def output_filter_new_def without_tool_calls_def stop_matcher_new_def accounted_def
        tool_parser_new_def covers_nil)
qed

text \<open>The text of a list of events, in order.\<close>

definition event_text :: "('e + token_event) list \<Rightarrow> string" where
  "event_text evs = output_text (shown evs)"

text \<open>
  C30: Refinement. However a reply is split into tokens, the filter without a tool-call parser
  never panics and shows exactly what the reference says: the text up to the first completed stop
  pattern and its kept prefix, or all of it when none completes, held bytes included; then exactly
  one end event. Only whole characters per token are assumed.\<close>
theorem filter_refines_visible:
  fixes js :: json_lib
  assumes "list_all chunk_ok (map snd ts)"
  shows "\<exists>f evs. filter_run js ts (without_tool_calls (output_filter_new ps) :: 'e output_filter) = Some f
     \<and> of_pending f = evs @ [Inr EosEv] \<and> Inr EosEv \<notin> set evs
     \<and> event_text evs = visible ps [] (map snd ts)"
proof -
  have "calm js (of_tool_parser (without_tool_calls (output_filter_new ps) :: 'e output_filter) \<noteq> None) ([] @ concat (map snd ts))"
    by (simp add: calm_def without_tool_calls_def)
  from filter_run_visible [OF waiting_new(2) assms this] show ?thesis
    by (auto simp: ended_with_def without_tool_calls_def event_text_def dest: covers_no_call)
qed

text \<open>
  The whole output path on ASCII replies: stop filter and tool-call parser together neither
  panic nor lose anything. The events before the single end event account for the text the
  reference shows: every piece of it is there as text, or was a call's markup.\<close>
lemma filter_with_tools_accounts:
  assumes "list_all is_ascii (map snd ts)" "prints_ascii js"
  shows "\<exists>f evs. filter_run js ts (output_filter_new ps :: 'e output_filter) = Some f
     \<and> of_pending f = evs @ [Inr EosEv] \<and> Inr EosEv \<notin> set evs
     \<and> covers (visible ps [] (map snd ts)) (shown evs)"
proof -
  have "chunk_ok t" if "is_ascii t" for t
    using that ascii_boundary [OF that, of 0] by (cases t) (auto simp: chunk_ok_def is_char_boundary_def)
  with assms(1) have ok: "list_all chunk_ok (map snd ts)" by (auto simp: list_all_iff)
  have "is_ascii (concat (map snd ts))" using assms(1) by (induction ts) (auto simp: is_ascii_def)
  with assms(2) have "calm js (of_tool_parser (output_filter_new ps :: 'e output_filter) \<noteq> None) ([] @ concat (map snd ts))"
    by (simp add: calm_def)
  from filter_run_visible [OF waiting_new(1) ok this] show ?thesis by (auto simp: ended_with_def)
qed

lemma filter_refines_visible_witness:
  "\<exists>f evs. filter_run sample_js [(1, ''hello '' @ [CHR 0xC3, CHR 0xA9]), (2, ''<e''), (3, ''nd> more'')]
       (without_tool_calls (output_filter_new [stop_pattern_new ''<end>'']) :: nat output_filter) = Some f
     \<and> of_pending f = evs @ [Inr EosEv] \<and> Inr EosEv \<notin> set evs
     \<and> event_text evs = ''hello '' @ [CHR 0xC3, CHR 0xA9]"
proof -
  let ?ts = "[(1, ''hello '' @ [CHR 0xC3, CHR 0xA9]), (2, ''<e''), (3, ''nd> more'')]"
  have ok: "list_all chunk_ok (map snd ?ts)" by (simp add: chunk_ok_def is_cont_byte_def)
  have "visible [stop_pattern_new ''<end>''] [] (map snd ?ts) = ''hello '' @ [CHR 0xC3, CHR 0xA9]"
    by (simp add: earliest_def earliest_step_def stop_pattern_new_def starts_with_def cut_text_def
        eval_nat_numeral is_char_boundary_def is_cont_byte_def)
  with filter_refines_visible [OF ok, of sample_js "[stop_pattern_new ''<end>'']", where 'e = nat]
  show ?thesis by simp
qed

text \<open>Held text is not dropped when the stream ends: the tokens held come out before the end event.\<close>

lemma finalize_shows_held:
  assumes "of_tool_parser f = None"
  shows "\<exists>g. finalize js ev f = Some g
    \<and> of_pending g = of_pending f @ map (\<lambda>(i, t). Inr (text_token i t)) (of_held f) @ [Inr ev]"
proof -
  have "\<exists>g. emit_chunks js hs h = Some g \<and> of_tool_parser g = None
      \<and> of_pending g = of_pending h @ map (\<lambda>(i, t). Inr (text_token i t)) hs"
    if "of_tool_parser h = None" for hs and h :: "'a output_filter"
    using that
  proof (induction hs arbitrary: h)
    case (Cons x hs)
    obtain i t where x: "x = (i, t)" by (cases x)
    have "of_tool_parser (h\<lparr>of_pending := of_pending h @ [Inr (text_token i t)]\<rparr>) = None" using Cons.prems by simp
    from Cons.IH [OF this] show ?case using Cons.prems by (auto simp: x emit_text_chunk_def)
  qed simp
  from this [of "f\<lparr>of_held := []\<rparr>" "of_held f"] assms obtain g where
    "emit_chunks js (of_held f) (f\<lparr>of_held := []\<rparr>) = Some g" "of_tool_parser g = None"
    "of_pending g = of_pending f @ map (\<lambda>(i, t). Inr (text_token i t)) (of_held f)" by auto
  then show ?thesis
    by (simp add: finalize_def flush_text_def flush_held_def flush_parser_def filter_reset_def)
qed

lemma filter_with_tools_accounts_witness:
  "\<exists>f evs. filter_run sample_js [(1, ''a <tool_''), (2, ''call>{} b'')]
       (output_filter_new [stop_pattern_new ''<end>''] :: nat output_filter) = Some f
     \<and> of_pending f = evs @ [Inr EosEv] \<and> Inr EosEv \<notin> set evs
     \<and> covers (visible [stop_pattern_new ''<end>''] [] [''a <tool_'', ''call>{} b'']) (shown evs)"
  using filter_with_tools_accounts [of "[(1, ''a <tool_''), (2, ''call>{} b'')]" sample_js
      "[stop_pattern_new ''<end>'']", where 'e = nat]
  by (simp add: sample_js_def is_ascii_def prints_ascii_def del: visible.simps)

end
