(* ===== verification/Pullers.thy ===== *)
theory Pullers
  imports OutputFilter
begin

text \<open>
  Two token pullers that apply stop patterns themselves
  (\<^verbatim>\<open>src/backend/onnx/puller.rs\<close>, \<^verbatim>\<open>src/backend/litertlm/puller.rs\<close> and \<^verbatim>\<open>decode_chunk\<close> of
  \<^verbatim>\<open>litertlm/convert.rs\<close>).  The token source is the list of what it will return, its end the
  \<^verbatim>\<open>None\<close> it then keeps returning; the channel is the list of what \<^verbatim>\<open>recv_timeout\<close> will return, its
  end a disconnect.  \<open>flags n\<close> is the stop and the pause flag as the iteration reads them that has
  \<open>n\<close> items of its input left (the LiteRT-LM puller reads the stop flag again when the wait is
  over): other threads set them at any time.  An outer option is a panic.
  Clocks, hooks and the rate statistics are left out.
\<close>

section \<open>The ONNX puller\<close>

record 'e onnx_puller =
  op_source :: "('e + nat \<times> string) list"
  op_parser :: tool_parser
  op_stops :: stop_matcher
  op_stop_ids :: "nat list"
  op_emitted :: nat
  op_ready :: "token_event list"
  op_ended :: bool
  op_decode_tokens :: nat

definition onnx_puller_new ::
  "('e + nat \<times> string) list \<Rightarrow> tool_parser \<Rightarrow> stop_matcher \<Rightarrow> nat list \<Rightarrow> 'e onnx_puller" where
  "onnx_puller_new source parser stops stop_ids =
     \<lparr>op_source = source, op_parser = parser, op_stops = stops, op_stop_ids = stop_ids, op_emitted = 0,
       op_ready = [], op_ended = False, op_decode_tokens = 0\<rparr>"

definition onnx_absorb :: "parser_output list \<Rightarrow> nat \<Rightarrow> 'e onnx_puller \<Rightarrow> 'e onnx_puller" where
  "onnx_absorb outs i p = p\<lparr>op_ready := op_ready p @ output_events i outs\<rparr>"

definition onnx_emit_text :: "json_lib \<Rightarrow> string \<Rightarrow> nat \<Rightarrow> 'e onnx_puller \<Rightarrow> 'e onnx_puller option" where
  "onnx_emit_text js text i p =
     (case tool_push js text (op_parser p) of
        None \<Rightarrow> None
      | Some (outs, parser) \<Rightarrow> Some (onnx_absorb outs i (p\<lparr>op_parser := parser\<rparr>)))"

definition onnx_finish :: "json_lib \<Rightarrow> token_event option \<Rightarrow> 'e onnx_puller \<Rightarrow> 'e onnx_puller option" where
  "onnx_finish js terminal p =
     (if op_ended p then Some p
      else case tool_flush js (op_parser p) of
          None \<Rightarrow> None
        | Some (tail, parser) \<Rightarrow>
            let q = onnx_absorb tail 0 (p\<lparr>op_ended := True, op_parser := parser\<rparr>) in
            Some (case terminal of None \<Rightarrow> q | Some event \<Rightarrow> q\<lparr>op_ready := op_ready q @ [event]\<rparr>))"

definition onnx_flush_held :: "json_lib \<Rightarrow> 'e onnx_puller \<Rightarrow> 'e onnx_puller option" where
  "onnx_flush_held js p =
     (if stops_empty (op_stops p) then Some p
      else case str_from (sm_buf (op_stops p)) (op_emitted p) of
          None \<Rightarrow> None
        | Some rest \<Rightarrow> onnx_emit_text js rest 0 (p\<lparr>op_emitted := length (sm_buf (op_stops p))\<rparr>))"

definition onnx_end :: "json_lib \<Rightarrow> token_event \<Rightarrow> 'e onnx_puller \<Rightarrow> 'e onnx_puller option" where
  "onnx_end js event p =
     (case onnx_flush_held js p of None \<Rightarrow> None | Some q \<Rightarrow> onnx_finish js (Some event) q)"

text \<open>The part of the loop's body that handles one token.\<close>

definition onnx_token :: "json_lib \<Rightarrow> nat \<Rightarrow> string \<Rightarrow> 'e onnx_puller \<Rightarrow> 'e onnx_puller option" where
  "onnx_token js i text p0 =
     (let p = p0\<lparr>op_decode_tokens := min (op_decode_tokens p0 + 1) u32_max\<rparr> in
      if i \<in> set (op_stop_ids p) then onnx_end js EosEv p
      else if stops_empty (op_stops p) then onnx_emit_text js text i p
      else
        let (state, stops) = stop_push text (op_stops p);
            buffer = sm_buf stops;
            (end_at, hit) = (case state of
                Clean \<Rightarrow> (length buffer, False)
              | Partial hold \<Rightarrow> (length buffer - hold, False)
              | Full _ _ emit_at \<Rightarrow> (emit_at, True))
        in case str_slice buffer (op_emitted p) end_at of
             None \<Rightarrow> None
           | Some visible_text \<Rightarrow>
               (case onnx_emit_text js visible_text i (p\<lparr>op_stops := stops, op_emitted := end_at\<rparr>) of
                  None \<Rightarrow> None
                | Some q \<Rightarrow> if hit then onnx_finish js (Some EosEv) q else Some q))"

lemma onnx_finish_ended: "onnx_finish js t p = Some q \<Longrightarrow> op_ended q \<and> op_source q = op_source p"
  by (auto simp: onnx_finish_def onnx_absorb_def Let_def split: option.splits if_splits)

lemma onnx_emit_source: "onnx_emit_text js t i p = Some q \<Longrightarrow> op_source q = op_source p"
  by (auto simp: onnx_emit_text_def onnx_absorb_def split: option.splits)

lemma onnx_end_ended: "onnx_end js e p = Some q \<Longrightarrow> op_ended q \<and> op_source q = op_source p"
  by (auto simp: onnx_end_def onnx_flush_held_def split: option.splits if_splits
      dest!: onnx_finish_ended onnx_emit_source)

lemma onnx_token_source: "onnx_token js i t p = Some q \<Longrightarrow> op_source q = op_source p"
  by (auto simp: onnx_token_def Let_def split: option.splits if_splits prod.splits
      dest!: onnx_finish_ended onnx_emit_source onnx_end_ended)

function onnx_next ::
  "json_lib \<Rightarrow> (nat \<Rightarrow> bool \<times> bool) \<Rightarrow> 'e onnx_puller \<Rightarrow> (('e + token_event) option \<times> 'e onnx_puller) option" where
  "onnx_next js flags p =
     (if op_ready p \<noteq> [] then Some (Some (Inr (hd (op_ready p))), p\<lparr>op_ready := tl (op_ready p)\<rparr>)
      else if op_ended p then Some (None, p)
      else if fst (flags (length (op_source p))) then
        (case onnx_end js StoppedEv p of None \<Rightarrow> None | Some q \<Rightarrow> onnx_next js flags q)
      else if snd (flags (length (op_source p))) then Some (Some (Inr PausedEv), p)
      else case op_source p of
          [] \<Rightarrow> (case onnx_end js EosEv p of None \<Rightarrow> None | Some q \<Rightarrow> onnx_next js flags q)
        | Inl error # rest \<Rightarrow>
            (case onnx_finish js None (p\<lparr>op_source := rest\<rparr>) of
               None \<Rightarrow> None
             | Some q \<Rightarrow> Some (Some (Inl error), q\<lparr>op_ready := []\<rparr>))
        | Inr (i, t) # rest \<Rightarrow>
            (case onnx_token js i t (p\<lparr>op_source := rest\<rparr>) of
               None \<Rightarrow> None
             | Some q \<Rightarrow> onnx_next js flags q))"
  by pat_completeness auto
termination
  by (relation "measure (\<lambda>(js, flags, p). length (op_source p) + (if op_ended p then 0 else 1))")
    (auto dest!: onnx_end_ended onnx_token_source)

declare onnx_next.simps [simp del]

section \<open>The LiteRT-LM puller\<close>

datatype chunk_part = PartText string | PartCall parsed_call

datatype litert_chunk = ChunkText string | ChunkFailed string | ChunkDone | RecvTimeout

definition jget_or_null :: "json_value \<Rightarrow> string \<Rightarrow> json_value" where
  "jget_or_null v k = (case jget v k of None \<Rightarrow> JNull | Some w \<Rightarrow> w)"

definition absorb_message :: "json_lib \<Rightarrow> json_value \<Rightarrow> chunk_part list" where
  "absorb_message js v =
     (case jget_or_null v ''content'' of
        JString t \<Rightarrow> (if t = [] then [] else [PartText t])
      | JArray chunks \<Rightarrow>
          concat (map (\<lambda>chunk. case as_str (jget_or_null chunk ''text'') of
              Some t \<Rightarrow> (if t = [] then [] else [PartText t])
            | None \<Rightarrow> []) chunks)
      | _ \<Rightarrow> [])
     @ (case jget_or_null v ''tool_calls'' of
          JArray calls \<Rightarrow>
            concat (map (\<lambda>call.
              let f = jget_or_null call ''function'' in
              case as_str (jget_or_null f ''name'') of
                None \<Rightarrow> []
              | Some name \<Rightarrow>
                  [PartCall \<lparr>pc_id = as_str (jget_or_null call ''id''), pc_name = name,
                     pc_arguments = (case jget_or_null f ''arguments'' of
                         JString s \<Rightarrow> s | other \<Rightarrow> js_print js other)\<rparr>]) calls)
        | _ \<Rightarrow> [])"

text \<open>The values of a stream; reading one takes at least a byte.\<close>

function stream_values :: "json_lib \<Rightarrow> string \<Rightarrow> json_value list" where
  "stream_values js rest =
     (case js_next js rest of
        None \<Rightarrow> []
      | Some (v, n) \<Rightarrow> if n = 0 \<or> rest = [] then [] else v # stream_values js (drop n rest))"
  by pat_completeness auto
termination by (relation "measure (\<lambda>(js, rest). length rest)") auto

declare stream_values.simps [simp del]

definition decode_chunk :: "json_lib \<Rightarrow> string \<Rightarrow> chunk_part list" where
  "decode_chunk js raw =
     (let values = stream_values js raw in
      concat (map (absorb_message js) values)
      @ (if values = [] \<and> raw \<noteq> [] then [PartText raw] else []))"

record litert_puller =
  lp_chunks :: "litert_chunk list"
  lp_parser :: tool_parser
  lp_stops :: stop_matcher
  lp_emitted :: nat
  lp_ready :: "token_event list"
  lp_ending :: "token_event option"
  lp_done :: bool
  lp_saw_final :: bool
  lp_cancels :: nat

definition litert_puller_new :: "litert_chunk list \<Rightarrow> protocol \<Rightarrow> stop_matcher \<Rightarrow> litert_puller" where
  "litert_puller_new chunks protocol stops =
     \<lparr>lp_chunks = chunks, lp_parser = tool_parser_new protocol, lp_stops = stops, lp_emitted = 0,
       lp_ready = [], lp_ending = None, lp_done = False, lp_saw_final = False, lp_cancels = 0\<rparr>"

definition lp_absorb :: "parser_output list \<Rightarrow> litert_puller \<Rightarrow> litert_puller" where
  "lp_absorb outs p = p\<lparr>lp_ready := lp_ready p @ output_events 0 outs\<rparr>"

definition apply_stops :: "string \<Rightarrow> litert_puller \<Rightarrow> (string \<times> bool) \<times> litert_puller" where
  "apply_stops text p =
     (if stops_empty (lp_stops p) then ((text, False), p)
      else
        let (state, stops) = stop_push text (lp_stops p);
            buffer = sm_buf stops;
            (emit_to, hit) = (case state of
                Clean \<Rightarrow> (length buffer, False)
              | Partial hold \<Rightarrow> (length buffer - hold, False)
              | Full _ _ emit_at \<Rightarrow> (emit_at, True));
            from_at = min (lp_emitted p) (length buffer);
            to_at = max from_at (min emit_to (length buffer));
            out = (if is_char_boundary buffer from_at \<and> is_char_boundary buffer to_at
                   then drop from_at (take to_at buffer) else [])
        in ((out, hit), p\<lparr>lp_stops := stops, lp_emitted := to_at\<rparr>))"

definition end_with :: "json_lib \<Rightarrow> token_event \<Rightarrow> litert_puller \<Rightarrow> litert_puller option" where
  "end_with js event p =
     (case tool_flush js (lp_parser p) of
        None \<Rightarrow> None
      | Some (tail, parser) \<Rightarrow> Some ((lp_absorb tail (p\<lparr>lp_parser := parser\<rparr>))\<lparr>lp_ending := Some event\<rparr>))"

text \<open>The parts of one chunk; a hit ends the reply and leaves the rest of the chunk.\<close>

fun lp_parts :: "json_lib \<Rightarrow> chunk_part list \<Rightarrow> litert_puller \<Rightarrow> litert_puller option" where
  "lp_parts js [] p = Some p"
| "lp_parts js (PartCall c # parts) p = lp_parts js parts (p\<lparr>lp_ready := lp_ready p @ [ToolCallEv c]\<rparr>)"
| "lp_parts js (PartText t # parts) p =
     (let ((visible_text, hit), p1) = apply_stops t p in
      case (if visible_text = [] then Some ([], lp_parser p1) else tool_push js visible_text (lp_parser p1)) of
        None \<Rightarrow> None
      | Some (outs, parser) \<Rightarrow>
          let p2 = lp_absorb outs (p1\<lparr>lp_parser := parser\<rparr>) in
          if hit then end_with js EosEv (p2\<lparr>lp_cancels := lp_cancels p2 + 1\<rparr>)
          else lp_parts js parts p2)"

lemma apply_stops_chunks: "apply_stops t p = (r, q) \<Longrightarrow> lp_chunks q = lp_chunks p"
  by (auto simp: apply_stops_def Let_def split: if_splits prod.splits)

lemma end_with_chunks: "end_with js e p = Some q \<Longrightarrow> lp_chunks q = lp_chunks p"
  by (auto simp: end_with_def lp_absorb_def split: option.splits)

lemma lp_parts_chunks: "lp_parts js parts p = Some q \<Longrightarrow> lp_chunks q = lp_chunks p"
  by (induction js parts p rule: lp_parts.induct)
    (auto simp: Let_def lp_absorb_def split: prod.splits option.splits if_splits
      dest!: apply_stops_chunks end_with_chunks)

definition failed_message :: "string \<Rightarrow> string" where
  "failed_message m = ''LiteRT-LM generation failed: '' @ m"

definition incomplete_message :: string where
  "incomplete_message = ''LiteRT-LM stopped streaming without ending the turn; the reply is incomplete''"

function litert_next ::
  "json_lib \<Rightarrow> (nat \<Rightarrow> bool \<times> bool \<times> bool) \<Rightarrow> litert_puller \<Rightarrow> ((string + token_event) option \<times> litert_puller) option" where
  "litert_next js flags p =
     (if lp_done p then Some (None, p)
      else if lp_ready p \<noteq> [] then Some (Some (Inr (hd (lp_ready p))), p\<lparr>lp_ready := tl (lp_ready p)\<rparr>)
      else case lp_ending p of
          Some event \<Rightarrow> Some (Some (Inr event), p\<lparr>lp_ending := None, lp_done := True\<rparr>)
        | None \<Rightarrow>
            let (stopped, paused, stopped_now) = flags (length (lp_chunks p));
                q = (if stopped \<and> \<not> lp_saw_final p then p\<lparr>lp_cancels := lp_cancels p + 1\<rparr> else p)
            in if paused then Some (Some (Inr PausedEv), q)
               else case lp_chunks p of
                   [] \<Rightarrow> Some (Some (if stopped_now then Inr StoppedEv else Inl incomplete_message),
                        q\<lparr>lp_saw_final := True, lp_done := True\<rparr>)
                 | ChunkText raw # rest \<Rightarrow>
                     (case lp_parts js (decode_chunk js raw) (q\<lparr>lp_chunks := rest\<rparr>) of
                        None \<Rightarrow> None | Some r \<Rightarrow> litert_next js flags r)
                 | ChunkFailed m # rest \<Rightarrow>
                     Some (Some (Inl (failed_message m)),
                        q\<lparr>lp_chunks := rest, lp_saw_final := True, lp_done := True\<rparr>)
                 | ChunkDone # rest \<Rightarrow>
                     (case end_with js (if stopped_now then StoppedEv else EosEv)
                          (q\<lparr>lp_chunks := rest, lp_saw_final := True\<rparr>) of
                        None \<Rightarrow> None | Some r \<Rightarrow> litert_next js flags r)
                 | RecvTimeout # rest \<Rightarrow> litert_next js flags (q\<lparr>lp_chunks := rest\<rparr>))"
  by pat_completeness auto
termination
  by (relation "measure (\<lambda>(js, flags, p). length (lp_chunks p))")
    (auto split: if_splits dest!: lp_parts_chunks end_with_chunks)

declare litert_next.simps [simp del]

definition lp_drop :: "bool \<Rightarrow> litert_puller \<Rightarrow> nat" where
  "lp_drop finished p = (if lp_saw_final p \<or> finished then lp_cancels p else lp_cancels p + 1)"

section \<open>Pulling to the end\<close>

text \<open>\<open>n\<close> calls of \<^verbatim>\<open>next_event\<close>, up to the first that returns \<^verbatim>\<open>None\<close>.\<close>

fun pulls :: "('s \<Rightarrow> ('ev option \<times> 's) option) \<Rightarrow> nat \<Rightarrow> 's \<Rightarrow> ('ev list \<times> 's) option" where
  "pulls next 0 s = Some ([], s)"
| "pulls next (Suc n) s =
     (case next s of
        None \<Rightarrow> None
      | Some (None, s') \<Rightarrow> Some ([], s')
      | Some (Some e, s') \<Rightarrow>
          (case pulls next n s' of None \<Rightarrow> None | Some (es, s'') \<Rightarrow> Some (e # es, s'')))"

text \<open>From \<open>s\<close> on, the events \<open>es\<close> are all there are.\<close>

definition yields :: "('s \<Rightarrow> ('ev option \<times> 's) option) \<Rightarrow> 's \<Rightarrow> 'ev list \<Rightarrow> bool" where
  "yields next s es \<longleftrightarrow> (\<exists>n. \<exists>s'. pulls next n s = Some (es, s') \<and> next s' = Some (None, s'))"

lemma yields_end: "next s = Some (None, s) \<Longrightarrow> yields next s []"
  unfolding yields_def by (intro exI [of _ 0] exI [of _ s]) simp

lemma yields_step: "next s = Some (Some e, s') \<Longrightarrow> yields next s' es \<Longrightarrow> yields next s (e # es)"
proof -
  assume "next s = Some (Some e, s')" "yields next s' es"
  then obtain n s'' where "pulls next n s' = Some (es, s'')" "next s'' = Some (None, s'')"
    unfolding yields_def by blast
  with \<open>next s = Some (Some e, s')\<close> show ?thesis
    unfolding yields_def by (intro exI [of _ "Suc n"] exI [of _ s'']) simp
qed

lemma yields_same: "next s = next s' \<Longrightarrow> yields next s' es \<Longrightarrow> es \<noteq> [] \<Longrightarrow> yields next s es"
proof -
  assume eq: "next s = next s'" and ne: "es \<noteq> []" and "yields next s' es"
  then obtain n s'' where n: "pulls next n s' = Some (es, s'')" "next s'' = Some (None, s'')"
    unfolding yields_def by blast
  from n(1) ne obtain m where "n = Suc m" by (cases n) auto
  with n eq show ?thesis unfolding yields_def by (intro exI [of _ n] exI [of _ s'']) simp
qed

lemma yields_unique: "yields next s es \<Longrightarrow> yields next s fs \<Longrightarrow> es = fs"
proof -
  have "es = fs" if "pulls next n s = Some (es, t)" "next t = Some (None, t)"
    "pulls next m s = Some (fs, u)" "next u = Some (None, u)" for n m t u
    using that
  proof (induction n arbitrary: s es m fs)
    case 0
    then show ?case by (cases m) auto
  next
    case (Suc n)
    show ?case
    proof (cases m)
      case 0
      with Suc.prems show ?thesis by auto
    next
      case (Suc k)
      with Suc.prems Suc.IH [where m = k] show ?thesis
        by (auto split: option.splits prod.splits)
    qed
  qed
  then show "yields next s es \<Longrightarrow> yields next s fs \<Longrightarrow> es = fs" unfolding yields_def by blast
qed

section \<open>The ONNX puller shows what the reference shows\<close>

definition safe_len :: "stop_pattern list \<Rightarrow> string \<Rightarrow> nat" where
  "safe_len ps seen = length seen - longest_hold ps seen"

lemma safe_len_le: "safe_len ps seen \<le> length seen"
  by (simp add: safe_len_def)

lemma safe_len_none [simp]: "safe_len [] seen = length seen"
  by (simp add: safe_len_def longest_hold_def)

lemma safe_len_bound:
  assumes "\<forall>i. \<not> stops_at ps seen i" "chunk_ok c" "stops_at ps (seen @ c) i"
  shows "safe_len ps seen \<le> i"
  using conjunct1 [OF stop_hold_exact [of ps seen]] assms unfolding safe_len_def earliest_None_iff by blast

lemma safe_len_mono:
  assumes "\<forall>i. \<not> stops_at ps (seen @ t) i" "chunk_ok t"
  shows "safe_len ps seen \<le> safe_len ps (seen @ t)"
proof (cases "0 < longest_hold ps (seen @ t)")
  case True
  have before: "\<forall>i. \<not> stops_at ps seen i" using assms(1) occurs_at_append1 unfolding stops_at_def by blast
  from True assms(1) obtain c where "chunk_ok c" "stops_at ps ((seen @ t) @ c) (safe_len ps (seen @ t))"
    using conjunct2 [OF stop_hold_exact [of ps "seen @ t"]] unfolding safe_len_def earliest_None_iff by blast
  with safe_len_bound [OF before chunk_ok_append [OF assms(2)]] show ?thesis by simp
qed (simp add: safe_len_def)

lemma ascii_chunk_ok: "is_ascii t \<Longrightarrow> chunk_ok t"
  using ascii_boundary [of t 0] by (cases t) (auto simp: chunk_ok_def is_char_boundary_def)

lemma ascii_floor: "is_ascii s \<Longrightarrow> n \<le> length s \<Longrightarrow> floor_boundary s n = n"
  by (cases n) (auto simp: ascii_boundary)

lemma ascii_cut: "is_ascii s \<Longrightarrow> n \<le> length s \<Longrightarrow> cut_text n s = take n s"
  by (auto simp: cut_text_def ascii_floor)

text \<open>Pushes without the flush, and what the tool-call parser \<open>p0\<close> makes of a text that reaches
  it in pieces: the outputs of a run over some division of the text, but for empty texts, of which
  no event is made.\<close>

fun tool_pushes :: "json_lib \<Rightarrow> tool_parser \<Rightarrow> string list \<Rightarrow> (parser_output list \<times> tool_parser) option" where
  "tool_pushes js p [] = Some ([], p)"
| "tool_pushes js p (c # cs) =
     (case tool_push js c p of
        None \<Rightarrow> None
      | Some (out, p') \<Rightarrow>
          (case tool_pushes js p' cs of
             None \<Rightarrow> None
           | Some (out', p'') \<Rightarrow> Some (out @ out', p'')))"

lemma tool_pushes_snoc:
  "tool_pushes js p cs = Some (out, q) \<Longrightarrow> tool_push js t q = Some (outs, q')
     \<Longrightarrow> tool_pushes js p (cs @ [t]) = Some (out @ outs, q')"
  by (induction cs arbitrary: p out) (auto split: option.splits prod.splits)

lemma tool_pushes_flush:
  "tool_pushes js p cs = Some (out, q) \<Longrightarrow> tool_flush js q = Some (outs, q')
     \<Longrightarrow> tool_run js p cs = Some (out @ outs, q')"
  by (induction cs arbitrary: p out) (auto split: option.splits prod.splits)

abbreviation nonempty_outputs :: "parser_output list \<Rightarrow> parser_output list" where
  "nonempty_outputs \<equiv> filter (\<lambda>out. out \<noteq> TextOut [])"

definition parsed_as :: "json_lib \<Rightarrow> tool_parser \<Rightarrow> string \<Rightarrow> parser_output list \<Rightarrow> bool" where
  "parsed_as js p0 v outs \<longleftrightarrow>
     (\<exists>cs out q. concat cs = v \<and> tool_run js p0 cs = Some (out, q) \<and> outs = nonempty_outputs out)"

abbreviation shown_of :: "token_event list \<Rightarrow> parser_output list" where
  "shown_of evs \<equiv> shown (map Inr evs :: (unit + token_event) list)"

text \<open>\<open>r\<close> was pushed into the parser, and what came out is in the events \<open>dn\<close>, already pulled, and in
  the ready ones.\<close>

definition tallied ::
  "json_lib \<Rightarrow> tool_parser \<Rightarrow> token_event list \<Rightarrow> token_event list \<Rightarrow> tool_parser \<Rightarrow> string \<Rightarrow> bool" where
  "tallied js p0 dn ready parser r \<longleftrightarrow> EosEv \<notin> set ready \<and> (\<exists>s. r = s @ tp_buf parser)
     \<and> (\<exists>cs out. concat cs = r \<and> tool_pushes js p0 cs = Some (out, parser)
          \<and> shown_of (dn @ ready) = nonempty_outputs out)"

lemma tallied_start: "tallied js p0 [] [] p0 [] \<longleftrightarrow> tp_buf p0 = []"
  by (auto simp: tallied_def intro!: exI [of _ "[] :: string list"])

lemma tool_parser_new_empty [simp]: "tp_buf (tool_parser_new protocol) = []"
  by (simp add: tool_parser_new_def)

lemma tallied_push:
  assumes "tallied js p0 dn ready parser r" "prints_ascii js" "is_ascii (r @ t)"
  shows "\<exists>outs parser'. tool_push js t parser = Some (outs, parser')
     \<and> tallied js p0 dn (ready @ output_events i outs) parser' (r @ t)"
proof -
  from assms(1) obtain s where s: "r = s @ tp_buf parser" by (auto simp: tallied_def)
  from assms(1) obtain cs out where cs: "concat cs = r" "tool_pushes js p0 cs = Some (out, parser)"
    "shown_of (dn @ ready) = nonempty_outputs out" by (auto simp: tallied_def)
  have "tool_push js t parser \<noteq> None"
    using drain_ascii [of js "parser\<lparr>tp_buf := tp_buf parser @ t\<rparr>" "[]"] assms(2,3) s by (auto simp: tool_push_def)
  then obtain outs parser' where push: "tool_push js t parser = Some (outs, parser')" by auto
  from tool_push_covers [OF push] obtain s' where s': "tp_buf parser @ t = s' @ tp_buf parser'" by blast
  have "\<exists>cs out. concat cs = r @ t \<and> tool_pushes js p0 cs = Some (out, parser')
      \<and> shown_of (dn @ ready @ output_events i outs) = nonempty_outputs out"
    using cs tool_pushes_snoc [OF cs(2) push]
    by (intro exI [of _ "cs @ [t]"] exI [of _ "out @ outs"]) (simp add: shown_output_events)
  moreover have "r @ t = (s @ s') @ tp_buf parser'" using s s' by simp
  ultimately show ?thesis using assms(1) push by (auto simp: tallied_def)
qed

lemma tallied_flush:
  assumes "tallied js p0 dn ready parser r" "prints_ascii js" "is_ascii r"
  shows "\<exists>outs parser'. tool_flush js parser = Some (outs, parser') \<and> EosEv \<notin> set (ready @ output_events i outs)
     \<and> parsed_as js p0 r (shown_of (dn @ ready @ output_events i outs))"
proof -
  from assms(1) obtain s where s: "r = s @ tp_buf parser" by (auto simp: tallied_def)
  from assms(1) obtain cs out where cs: "concat cs = r" "tool_pushes js p0 cs = Some (out, parser)"
    "shown_of (dn @ ready) = nonempty_outputs out" by (auto simp: tallied_def)
  have "tool_flush js parser \<noteq> None" using tool_flush_ascii [of js parser] assms(2,3) s by simp
  then obtain outs parser' where flush: "tool_flush js parser = Some (outs, parser')" by auto
  have "parsed_as js p0 r (shown_of (dn @ ready @ output_events i outs))"
    unfolding parsed_as_def using cs tool_pushes_flush [OF cs(2) flush]
    by (intro exI [of _ cs] exI [of _ "out @ outs"] exI [of _ parser']) (simp add: shown_output_events)
  then show ?thesis using assms(1) flush by (auto simp: tallied_def)
qed

lemma parsed_as_covers: "parsed_as js (tool_parser_new protocol) v outs \<Longrightarrow> covers v outs"
  unfolding parsed_as_def using tool_run_covers covers_drop_empty
  by (fastforce simp: tool_parser_new_def)

text \<open>The ONNX puller between two tokens.\<close>

definition onnx_inv :: "json_lib \<Rightarrow> tool_parser \<Rightarrow> stop_pattern list \<Rightarrow> nat list \<Rightarrow> token_event list \<Rightarrow> string \<Rightarrow> 'e onnx_puller \<Rightarrow> bool" where
  "onnx_inv js p0 ps ids dn seen p \<longleftrightarrow>
     \<not> op_ended p \<and> sm_patterns (op_stops p) = ps \<and> op_stop_ids p = ids
     \<and> (ps \<noteq> [] \<longrightarrow> sm_buf (op_stops p) = seen \<and> op_emitted p = safe_len ps seen)
     \<and> (\<forall>i. \<not> stops_at ps seen i) \<and> tallied js p0 dn (op_ready p) (op_parser p) (take (safe_len ps seen) seen)"

text \<open>Everything there will be: the ready events, then those that end the reply.\<close>

definition onnx_finishes :: "json_lib \<Rightarrow> tool_parser \<Rightarrow> token_event list \<Rightarrow> string \<Rightarrow> 'e onnx_puller \<Rightarrow> bool" where
  "onnx_finishes js p0 dn v p \<longleftrightarrow> op_ended p \<and>
     (\<exists>evs. op_ready p = evs @ [EosEv] \<and> EosEv \<notin> set evs
        \<and> parsed_as js p0 v (shown_of (dn @ evs)))"

lemma onnx_finish_covers:
  fixes p :: "'e onnx_puller"
  assumes "tallied js p0 dn (op_ready p) (op_parser p) r" "prints_ascii js" "is_ascii r" "\<not> op_ended p"
  shows "\<exists>q. onnx_finish js (Some EosEv) p = Some q \<and> onnx_finishes js p0 dn r q"
  using tallied_flush [OF assms(1-3), of 0] assms(4)
  by (auto simp: onnx_finish_def onnx_absorb_def onnx_finishes_def)

lemma onnx_end_covers:
  fixes p :: "'e onnx_puller"
  assumes "onnx_inv js p0 ps ids dn seen p" "prints_ascii js" "is_ascii seen"
  shows "\<exists>q. onnx_end js EosEv p = Some q \<and> onnx_finishes js p0 dn seen q"
proof (cases "ps = []")
  case True
  with assms show ?thesis
    using onnx_finish_covers [of js p0 dn p seen] by (simp add: onnx_end_def onnx_flush_held_def stops_empty_def onnx_inv_def)
next
  case False
  let ?n = "safe_len ps seen"
  let ?p = "p\<lparr>op_emitted := length seen\<rparr>"
  have rest: "str_from seen ?n = Some (drop ?n seen)" using ascii_from [OF assms(3) safe_len_le] .
  have "tallied js p0 dn (op_ready p) (op_parser p) (take ?n seen)" "is_ascii (take ?n seen @ drop ?n seen)"
    using assms by (simp_all add: onnx_inv_def)
  from tallied_push [OF this(1) assms(2) this(2), of 0] obtain outs parser' where
    push: "tool_push js (drop ?n seen) (op_parser p) = Some (outs, parser')"
      "tallied js p0 dn (op_ready p @ output_events 0 outs) parser' seen" by auto
  define q where "q = onnx_absorb outs 0 (?p\<lparr>op_parser := parser'\<rparr>)"
  have "onnx_flush_held js p = Some q"
    using False assms(1) rest push(1)
    by (simp add: onnx_flush_held_def stops_empty_def onnx_inv_def onnx_emit_text_def q_def)
  moreover have "\<exists>r. onnx_finish js (Some EosEv) q = Some r \<and> onnx_finishes js p0 dn seen r"
    by (rule onnx_finish_covers)
      (use push(2) assms in \<open>auto simp: q_def onnx_absorb_def onnx_inv_def\<close>)
  ultimately show ?thesis by (simp add: onnx_end_def)
qed

lemma onnx_token_goes_on:
  fixes p :: "'e onnx_puller"
  assumes inv: "onnx_inv js p0 ps ids dn seen p" and js: "prints_ascii js" "is_ascii (seen @ t)"
    and i: "i \<notin> set ids" and none: "earliest ps (seen @ t) = None"
  shows "\<exists>q. onnx_token js i t p = Some q \<and> onnx_inv js p0 ps ids dn (seen @ t) q"
proof -
  have p: "\<not> op_ended p" "sm_patterns (op_stops p) = ps" "op_stop_ids p = ids"
    "tallied js p0 dn (op_ready p) (op_parser p) (take (safe_len ps seen) seen)" using inv by (auto simp: onnx_inv_def)
  have clean: "\<forall>i. \<not> stops_at ps (seen @ t) i" using none by (simp add: earliest_None_iff)
  let ?m = "safe_len ps seen" let ?n = "safe_len ps (seen @ t)"
  let ?t = "drop ?m (take ?n (seen @ t))"
  have mono: "?m \<le> ?n" using safe_len_mono [OF clean] ascii_chunk_ok js(2) by simp
  have split: "take ?m seen @ ?t = take ?n (seen @ t)"
    using mono safe_len_le [of ps seen] append_take_drop_id [of ?m "take ?n (seen @ t)"]
    by (simp add: min_absorb1)
  have "is_ascii (take ?m seen @ ?t)" unfolding split by (rule ascii_parts(1) [OF js(2)])
  from tallied_push [OF p(4) js(1) this, of i] obtain outs parser' where
    push: "tool_push js ?t (op_parser p) = Some (outs, parser')"
      "tallied js p0 dn (op_ready p @ output_events i outs) parser' (take ?n (seen @ t))" unfolding split by blast
  show ?thesis
  proof (cases "ps = []")
    case True
    with p push i clean show ?thesis
      by (auto simp: onnx_token_def Let_def stops_empty_def onnx_emit_text_def onnx_inv_def onnx_absorb_def)
  next
    case False
    with inv have b: "sm_buf (op_stops p) = seen" "op_emitted p = ?m" by (auto simp: onnx_inv_def)
    have slice: "str_slice (seen @ t) ?m ?n = Some ?t"
      using ascii_slice [OF js(2) mono safe_len_le] unfolding sub_def drop_take .
    show ?thesis
    proof (cases "0 < longest_hold ps (seen @ t)")
      case True
      with False p b slice push i none clean show ?thesis
        by (auto simp: onnx_token_def Let_def stops_empty_def stop_push_def onnx_emit_text_def onnx_inv_def
            onnx_absorb_def safe_len_def)
    next
      case hold: False
      then have "?n = length (seen @ t)" by (simp add: safe_len_def)
      with hold False p b slice push i none clean show ?thesis
        by (auto simp: onnx_token_def Let_def stops_empty_def stop_push_def onnx_emit_text_def onnx_inv_def
            onnx_absorb_def)
    qed
  qed
qed

lemma onnx_token_hits:
  fixes p :: "'e onnx_puller"
  assumes inv: "onnx_inv js p0 ps ids dn seen p" and js: "prints_ascii js" "is_ascii (seen @ t)"
    and i: "i \<notin> set ids" and hit: "earliest ps (seen @ t) = Some (at, pat)" "sp_keep_prefix pat = 0"
  shows "\<exists>q. onnx_token js i t p = Some q \<and> onnx_finishes js p0 dn (take at (seen @ t)) q"
proof -
  from hit(1) have ps: "ps \<noteq> []" by (auto simp: earliest_def)
  have p: "\<not> op_ended p" "sm_patterns (op_stops p) = ps" "op_stop_ids p = ids" "\<forall>i. \<not> stops_at ps seen i"
    "tallied js p0 dn (op_ready p) (op_parser p) (take (safe_len ps seen) seen)"
    "sm_buf (op_stops p) = seen" "op_emitted p = safe_len ps seen" using inv ps by (auto simp: onnx_inv_def)
  let ?m = "safe_len ps seen"
  let ?t = "drop ?m (take at (seen @ t))"
  have at: "stops_at ps (seen @ t) at" using earliest_SomeD [OF hit(1)] by (auto simp: stops_at_def)
  then have at_le: "at \<le> length (seen @ t)" by (auto simp: stops_at_def occurs_at_def)
  have m_le: "?m \<le> at" using safe_len_bound [OF p(4) _ at] ascii_chunk_ok js(2) by simp
  have split: "take ?m seen @ ?t = take at (seen @ t)"
    using m_le safe_len_le [of ps seen] append_take_drop_id [of ?m "take at (seen @ t)"] by (simp add: min_absorb1)
  have ascii: "is_ascii (take at (seen @ t))" by (rule ascii_parts(1) [OF js(2)])
  from tallied_push [OF p(5) js(1), of ?t i] ascii obtain outs parser' where
    push: "tool_push js ?t (op_parser p) = Some (outs, parser')"
      "tallied js p0 dn (op_ready p @ output_events i outs) parser' (take at (seen @ t))" unfolding split by blast
  have slice: "str_slice (seen @ t) ?m at = Some ?t"
    using ascii_slice [OF js(2) m_le at_le] unfolding sub_def drop_take .
  define q where "q = onnx_absorb outs i (p\<lparr>op_decode_tokens := min (op_decode_tokens p + 1) u32_max,
      op_stops := (op_stops p)\<lparr>sm_buf := seen @ t\<rparr>, op_emitted := at, op_parser := parser'\<rparr>)"
  have "\<exists>r. onnx_finish js (Some EosEv) q = Some r \<and> onnx_finishes js p0 dn (take at (seen @ t)) r"
    by (rule onnx_finish_covers) (use push(2) js ascii p(1) in \<open>auto simp: q_def onnx_absorb_def\<close>)
  moreover have "onnx_token js i t p = onnx_finish js (Some EosEv) q"
    using ps p slice push i hit
    by (simp add: onnx_token_def Let_def stops_empty_def stop_push_def onnx_emit_text_def q_def)
  ultimately show ?thesis by simp
qed

abbreviation no_flags :: "nat \<Rightarrow> bool \<times> bool" where
  "no_flags \<equiv> \<lambda>_. (False, False)"

lemma onnx_yields_ready:
  fixes p :: "'e onnx_puller"
  shows "yields (onnx_next js flags) (p\<lparr>op_ready := []\<rparr>) es \<Longrightarrow>
    yields (onnx_next js flags) p (map Inr (op_ready p) @ es)"
proof (induction "op_ready p" arbitrary: p)
  case Nil
  then show ?case by (metis (mono_tags, lifting) append_Nil list.map_disc_iff onnx_puller.surjective onnx_puller.update_convs(6))
next
  case (Cons e es')
  let ?q = "p\<lparr>op_ready := es'\<rparr>"
  have "onnx_next js flags p = Some (Some (Inr e), ?q)"
    using Cons.hyps(2) by (subst onnx_next.simps) (simp flip: Cons.hyps(2))
  moreover have "yields (onnx_next js flags) ?q (map Inr (op_ready ?q) @ es)"
    using Cons.hyps(1) [of ?q] Cons.prems by simp
  ultimately have "yields (onnx_next js flags) p (Inr e # (map Inr (op_ready ?q) @ es))" by (rule yields_step)
  with Cons.hyps(2) show ?case by (simp flip: Cons.hyps(2))
qed

lemma onnx_yields_finished:
  fixes p :: "'e onnx_puller"
  assumes "op_ended p"
  shows "yields (onnx_next js flags) p (map Inr (op_ready p))"
proof -
  have "yields (onnx_next js flags) (p\<lparr>op_ready := []\<rparr>) []"
    by (rule yields_end) (use assms in \<open>subst onnx_next.simps, simp\<close>)
  from onnx_yields_ready [OF this] show ?thesis by simp
qed

text \<open>The whole of what the rest of the stream makes the puller return.\<close>

definition onnx_shows :: "json_lib \<Rightarrow> tool_parser \<Rightarrow> token_event list \<Rightarrow> string \<Rightarrow> 'e onnx_puller \<Rightarrow> bool" where
  "onnx_shows js p0 dn v p \<longleftrightarrow>
     (\<exists>evs. yields (onnx_next js no_flags) p (map Inr (evs @ [EosEv])) \<and> EosEv \<notin> set evs
        \<and> parsed_as js p0 v (shown_of (dn @ evs)))"

lemma onnx_shows_finished:
  fixes p :: "'e onnx_puller"
  shows "onnx_finishes js p0 dn v p \<Longrightarrow> onnx_shows js p0 dn v p"
  using onnx_yields_finished [of p js no_flags] by (auto simp: onnx_finishes_def onnx_shows_def)

lemma onnx_shows_ready:
  fixes p :: "'e onnx_puller"
  assumes "onnx_shows js p0 (dn @ op_ready p) v (p\<lparr>op_ready := []\<rparr>)" "EosEv \<notin> set (op_ready p)"
  shows "onnx_shows js p0 dn v p"
proof -
  from assms(1) obtain evs where "yields (onnx_next js no_flags) (p\<lparr>op_ready := []\<rparr>) (map Inr (evs @ [EosEv]))"
    "EosEv \<notin> set evs" "parsed_as js p0 v (shown_of ((dn @ op_ready p) @ evs))"
    by (auto simp: onnx_shows_def)
  with onnx_yields_ready [OF this(1)] assms(2) show ?thesis
    unfolding onnx_shows_def by (intro exI [of _ "op_ready p @ evs"]) simp
qed

lemma onnx_shows_same:
  fixes p q :: "'e onnx_puller"
  assumes "onnx_next js no_flags p = onnx_next js no_flags q" "onnx_shows js p0 dn v q"
  shows "onnx_shows js p0 dn v p"
  using assms(2) yields_same [of "onnx_next js no_flags", OF assms(1)] unfolding onnx_shows_def by fastforce

lemma onnx_run_shows:
  fixes p :: "'e onnx_puller"
  assumes "onnx_inv js p0 ps ids dn seen p" "prints_ascii js" "op_source p = map Inr ts"
    "is_ascii (seen @ concat (map snd ts))" "\<forall>q \<in> set ps. sp_keep_prefix q = 0"
  shows "onnx_shows js p0 dn (visible ps seen (map snd (takeWhile (\<lambda>t. fst t \<notin> set ids) ts))) p"
  using assms
proof (induction ts arbitrary: dn seen p)
  case Nil
  let ?p = "p\<lparr>op_ready := []\<rparr>"
  have inv: "onnx_inv js p0 ps ids (dn @ op_ready p) seen ?p" using Nil.prems(1) by (auto simp: onnx_inv_def tallied_def)
  from onnx_end_covers [OF inv] Nil.prems obtain q where
    q: "onnx_end js EosEv ?p = Some q" "onnx_finishes js p0 (dn @ op_ready p) seen q" by auto
  have "onnx_next js no_flags ?p = onnx_next js no_flags q"
    using Nil.prems(1,3) q(1) by (subst onnx_next.simps) (simp add: onnx_inv_def)
  from onnx_shows_same [OF this onnx_shows_finished [OF q(2)]] Nil.prems(1) show ?case
    by (auto intro: onnx_shows_ready simp: onnx_inv_def tallied_def)
next
  case (Cons it ts)
  obtain i t where it: "it = (i, t)" by (cases it)
  let ?p = "p\<lparr>op_ready := []\<rparr>" let ?dn = "dn @ op_ready p"
  let ?r = "?p\<lparr>op_source := map Inr ts\<rparr>"
  let ?v = "visible ps seen (map snd (takeWhile (\<lambda>t. fst t \<notin> set ids) (it # ts)))"
  have inv: "onnx_inv js p0 ps ids ?dn seen ?r" using Cons.prems(1) by (auto simp: onnx_inv_def tallied_def)
  have ascii: "is_ascii (seen @ t)" "is_ascii ((seen @ t) @ concat (map snd ts))" "is_ascii seen"
    using Cons.prems(4) it by auto
  have next_eq: "onnx_next js no_flags ?p = (case onnx_token js i t ?r of None \<Rightarrow> None | Some q \<Rightarrow> onnx_next js no_flags q)"
    using Cons.prems(1,3) it by (subst onnx_next.simps) (simp add: onnx_inv_def)
  have "onnx_shows js p0 ?dn ?v ?p"
  proof (cases "i \<in> set ids")
    case True
    have inv': "onnx_inv js p0 ps ids ?dn seen (?r\<lparr>op_decode_tokens := min (op_decode_tokens ?r + 1) u32_max\<rparr>)"
      using inv by (simp add: onnx_inv_def)
    from onnx_end_covers [OF inv' Cons.prems(2) ascii(3)] obtain q where
      q: "onnx_end js EosEv (?r\<lparr>op_decode_tokens := min (op_decode_tokens ?r + 1) u32_max\<rparr>) = Some q"
        "onnx_finishes js p0 ?dn seen q" by blast
    then have "onnx_token js i t ?r = Some q"
      using True inv by (simp add: onnx_token_def Let_def onnx_inv_def)
    with next_eq have "onnx_next js no_flags ?p = onnx_next js no_flags q" by simp
    from onnx_shows_same [OF this onnx_shows_finished [OF q(2)]] True it show ?thesis by simp
  next
    case False
    show ?thesis
    proof (cases "earliest ps (seen @ t)")
      case None
      from onnx_token_goes_on [OF inv Cons.prems(2) ascii(1) False None] obtain q where
        q: "onnx_token js i t ?r = Some q" "onnx_inv js p0 ps ids ?dn (seen @ t) q" by blast
      from onnx_token_source [OF q(1)] have "op_source q = map Inr ts" by simp
      from Cons.IH [OF q(2) Cons.prems(2) this ascii(2) Cons.prems(5)] next_eq q(1) None False it
      show ?thesis by (intro onnx_shows_same [of js ?p q]) simp_all
    next
      case (Some m)
      obtain at pat where m: "m = (at, pat)" by (cases m)
      from earliest_SomeD [OF Some [unfolded m]] Cons.prems(5)
      have keep: "sp_keep_prefix pat = 0" and le: "at \<le> length (seen @ t)" by (auto simp: occurs_at_def)
      from onnx_token_hits [OF inv Cons.prems(2) ascii(1) False Some [unfolded m] keep] obtain q where
        q: "onnx_token js i t ?r = Some q" "onnx_finishes js p0 ?dn (take at (seen @ t)) q" by blast
      have "onnx_shows js p0 ?dn (take at (seen @ t)) ?p"
        by (rule onnx_shows_same [OF _ onnx_shows_finished [OF q(2)]]) (use next_eq q(1) in simp)
      moreover have "?v = take at (seen @ t)"
        using False it Some m keep ascii_cut [OF ascii(1) le] by simp
      ultimately show ?thesis by simp
    qed
  qed
  then show ?case by (rule onnx_shows_ready) (use Cons.prems(1) in \<open>simp add: onnx_inv_def tallied_def\<close>)
qed

text \<open>
  C32: What the ONNX puller shows of an ASCII reply whose source reports no error, with the caller's
  stop strings and while nobody asks it to stop or pause. Pulled to its end it neither panics nor
  loops; what it shows is exactly what the tool-call parser makes of the reference's text, the
  tokens before the first end-of-turn token cut at the first completed stop string, handed to the
  parser in some pieces and flushed; so the text and calls shown account for all of that text. Then
  comes exactly one end event.\<close>
theorem onnx_shows_reference:
  assumes "prints_ascii js" "list_all is_ascii (map snd ts)"
  shows "\<exists>evs. yields (onnx_next js no_flags)
       (onnx_puller_new (map Inr ts) (tool_parser_new protocol) (from_strings stops) ids :: 'e onnx_puller)
       (map Inr (evs @ [EosEv]))
     \<and> EosEv \<notin> set evs
     \<and> parsed_as js (tool_parser_new protocol)
         (visible (map stop_pattern_new stops) [] (map snd (takeWhile (\<lambda>t. fst t \<notin> set ids) ts)))
         (shown_of evs)
     \<and> covers (visible (map stop_pattern_new stops) [] (map snd (takeWhile (\<lambda>t. fst t \<notin> set ids) ts)))
         (shown_of evs)"
proof -
  let ?p = "onnx_puller_new (map Inr ts) (tool_parser_new protocol) (from_strings stops) ids :: 'e onnx_puller"
  have "\<not> stops_at ps [] i" for ps i by (auto simp: stops_at_def occurs_at_def)
  moreover have "longest_hold ps [] = 0" for ps using longest_hold_le [of ps "[]"] by simp
  ultimately have "onnx_inv js (tool_parser_new protocol) (map stop_pattern_new stops) ids [] [] ?p"
    by (simp add: onnx_inv_def onnx_puller_new_def from_strings_def stop_matcher_new_def safe_len_def tallied_start)
  moreover have "is_ascii ([] @ concat (map snd ts))" using assms(2) by (induction ts) (auto simp: is_ascii_def)
  moreover have "\<forall>q \<in> set (map stop_pattern_new stops). sp_keep_prefix q = 0" by (simp add: stop_pattern_new_def)
  ultimately have "onnx_shows js (tool_parser_new protocol) [] (visible (map stop_pattern_new stops) []
      (map snd (takeWhile (\<lambda>t. fst t \<notin> set ids) ts))) ?p"
    using assms(1) by (intro onnx_run_shows) (simp_all add: onnx_puller_new_def)
  then show ?thesis using parsed_as_covers unfolding onnx_shows_def by fastforce
qed

lemma sample_js_prints: "prints_ascii sample_js"
  by (simp add: prints_ascii_def sample_js_def is_ascii_def)

lemma onnx_shows_reference_witness:
  "\<exists>evs. yields (onnx_next sample_js no_flags)
       (onnx_puller_new (map Inr [(1, ''hello ''), (1, ''EN''), (2, ''D'')]) (tool_parser_new Auto)
         (from_strings [''END'']) [2] :: nat onnx_puller)
       (map Inr (evs @ [EosEv]))
     \<and> EosEv \<notin> set evs
     \<and> parsed_as sample_js (tool_parser_new Auto) ''hello EN'' (shown_of evs)
     \<and> covers ''hello EN'' (shown_of evs)"
proof -
  have "visible [stop_pattern_new ''END''] [] [''hello '', ''EN''] = ''hello EN''"
    by (simp add: earliest_def earliest_step_def stop_pattern_new_def starts_with_def)
  with onnx_shows_reference [of sample_js "[(1, ''hello ''), (1, ''EN''), (2, ''D'')]" Auto "[''END'']" "[2]",
      where 'e = nat]
  show ?thesis by (simp add: sample_js_prints is_ascii_def del: visible.simps)
qed

section \<open>The LiteRT-LM puller loses what it holds\<close>

text \<open>What it shows of text chunks: the reference, but without the held end of a reply that no
  pattern ended.\<close>

fun visible_unflushed :: "stop_pattern list \<Rightarrow> string \<Rightarrow> string list \<Rightarrow> string" where
  "visible_unflushed ps seen [] = take (safe_len ps seen) seen"
| "visible_unflushed ps seen (t # ts) =
     (case earliest ps (seen @ t) of
        Some (at, p) \<Rightarrow> cut_text (at + sp_keep_prefix p) (seen @ t)
      | None \<Rightarrow> visible_unflushed ps (seen @ t) ts)"

definition litert_inv :: "json_lib \<Rightarrow> tool_parser \<Rightarrow> stop_pattern list \<Rightarrow> token_event list \<Rightarrow> string \<Rightarrow> litert_puller \<Rightarrow> bool" where
  "litert_inv js p0 ps dn seen p \<longleftrightarrow>
     \<not> lp_done p \<and> lp_ending p = None \<and> sm_patterns (lp_stops p) = ps
     \<and> (ps \<noteq> [] \<longrightarrow> sm_buf (lp_stops p) = seen \<and> lp_emitted p = safe_len ps seen)
     \<and> (\<forall>i. \<not> stops_at ps seen i) \<and> tallied js p0 dn (lp_ready p) (lp_parser p) (take (safe_len ps seen) seen)"

definition litert_finishes :: "json_lib \<Rightarrow> tool_parser \<Rightarrow> token_event list \<Rightarrow> string \<Rightarrow> litert_puller \<Rightarrow> bool" where
  "litert_finishes js p0 dn v p \<longleftrightarrow> \<not> lp_done p \<and> lp_ending p = Some EosEv \<and> EosEv \<notin> set (lp_ready p)
     \<and> parsed_as js p0 v (shown_of (dn @ lp_ready p))"

lemma end_with_covers:
  assumes "tallied js p0 dn (lp_ready p) (lp_parser p) r" "prints_ascii js" "is_ascii r" "\<not> lp_done p"
  shows "\<exists>q. end_with js EosEv p = Some q \<and> litert_finishes js p0 dn r q"
  using tallied_flush [OF assms(1-3), of 0] assms(4)
  by (auto simp: end_with_def lp_absorb_def litert_finishes_def)

lemma apply_stops_goes_on:
  assumes inv: "litert_inv js p0 ps dn seen p" and ascii: "is_ascii (seen @ t)"
    and none: "earliest ps (seen @ t) = None"
  shows "\<exists>q. apply_stops t p = ((drop (safe_len ps seen) (take (safe_len ps (seen @ t)) (seen @ t)), False), q)
     \<and> q = p\<lparr>lp_stops := lp_stops q, lp_emitted := lp_emitted q\<rparr> \<and> sm_patterns (lp_stops q) = ps
     \<and> (ps \<noteq> [] \<longrightarrow> sm_buf (lp_stops q) = seen @ t \<and> lp_emitted q = safe_len ps (seen @ t))"
proof (cases "ps = []")
  case True
  with inv show ?thesis by (simp add: apply_stops_def stops_empty_def litert_inv_def)
next
  case False
  let ?m = "safe_len ps seen" let ?n = "safe_len ps (seen @ t)"
  from inv False have p: "sm_patterns (lp_stops p) = ps" "sm_buf (lp_stops p) = seen" "lp_emitted p = ?m"
    by (auto simp: litert_inv_def)
  have clean: "\<forall>i. \<not> stops_at ps (seen @ t) i" using none by (simp add: earliest_None_iff)
  have mono: "?m \<le> ?n" using safe_len_mono [OF clean] ascii_chunk_ok ascii by simp
  have n: "?n \<le> length (seen @ t)" by (rule safe_len_le)
  have ends: "min ?m (length (seen @ t)) = ?m" "max ?m (min ?n (length (seen @ t))) = ?n"
    using mono n by (simp_all add: min_absorb1 max_absorb2)
  have bounds: "is_char_boundary (seen @ t) ?m" "is_char_boundary (seen @ t) ?n"
    using ascii_boundary [OF ascii] mono n le_trans by blast+
  let ?m' = "(lp_stops p)\<lparr>sm_buf := seen @ t\<rparr>"
  have "apply_stops t p = ((drop ?m (take ?n (seen @ t)), False), p\<lparr>lp_stops := ?m', lp_emitted := ?n\<rparr>)"
  proof (cases "0 < longest_hold ps (seen @ t)")
    case True
    have len: "length (seen @ t) - longest_hold ps (seen @ t) = ?n" by (simp add: safe_len_def)
    have push: "stop_push t (lp_stops p) = (Partial (longest_hold ps (seen @ t)), ?m')"
      using none p True by (simp add: stop_push_def Let_def)
    show ?thesis
      using False p ends bounds by (simp add: apply_stops_def stops_empty_def Let_def push len del: length_append)
  next
    case hold: False
    then have len: "?n = length (seen @ t)" by (simp add: safe_len_def)
    have push: "stop_push t (lp_stops p) = (Clean, ?m')"
      using none p hold by (simp add: stop_push_def Let_def)
    show ?thesis
      using False p ends bounds unfolding len
      by (simp add: apply_stops_def stops_empty_def Let_def push del: length_append)
  qed
  with p(1) show ?thesis by simp
qed

lemma apply_stops_hits:
  assumes inv: "litert_inv js p0 ps dn seen p" and ascii: "is_ascii (seen @ t)"
    and hit: "earliest ps (seen @ t) = Some (at, pat)" "sp_keep_prefix pat = 0"
  shows "apply_stops t p = ((drop (safe_len ps seen) (take at (seen @ t)), True),
     p\<lparr>lp_stops := (lp_stops p)\<lparr>sm_buf := seen @ t\<rparr>, lp_emitted := at\<rparr>)"
    and "safe_len ps seen \<le> at" "at \<le> length (seen @ t)"
proof -
  let ?m = "safe_len ps seen"
  from hit(1) have ps: "ps \<noteq> []" by (auto simp: earliest_def)
  with inv have p: "sm_patterns (lp_stops p) = ps" "sm_buf (lp_stops p) = seen" "lp_emitted p = ?m"
    "\<forall>i. \<not> stops_at ps seen i" by (auto simp: litert_inv_def)
  have at: "stops_at ps (seen @ t) at" using earliest_SomeD [OF hit(1)] by (auto simp: stops_at_def)
  then show at_le: "at \<le> length (seen @ t)" by (auto simp: stops_at_def occurs_at_def)
  show m_le: "?m \<le> at" using safe_len_bound [OF p(4) _ at] ascii_chunk_ok ascii by simp
  have ends: "min ?m (length (seen @ t)) = ?m" "max ?m (min at (length (seen @ t))) = at"
    using m_le at_le le_trans [OF m_le at_le] by (simp_all add: min_absorb1 max_absorb2)
  have bounds: "is_char_boundary (seen @ t) ?m" "is_char_boundary (seen @ t) at"
    using ascii_boundary [OF ascii] m_le at_le le_trans by blast+
  have push: "stop_push t (lp_stops p) = (Full at (length (sp_text pat)) at, (lp_stops p)\<lparr>sm_buf := seen @ t\<rparr>)"
    using hit p by (simp add: stop_push_def Let_def)
  show "apply_stops t p = ((drop (safe_len ps seen) (take at (seen @ t)), True),
     p\<lparr>lp_stops := (lp_stops p)\<lparr>sm_buf := seen @ t\<rparr>, lp_emitted := at\<rparr>)"
    using ps p(1,3) ends bounds by (simp add: apply_stops_def stops_empty_def Let_def push del: length_append)
qed

lemma lp_part_goes_on:
  assumes inv: "litert_inv js p0 ps dn seen p" and js: "prints_ascii js" "is_ascii (seen @ t)"
    and none: "earliest ps (seen @ t) = None"
  shows "\<exists>q. lp_parts js [PartText t] p = Some q \<and> litert_inv js p0 ps dn (seen @ t) q \<and> lp_chunks q = lp_chunks p"
proof -
  let ?m = "safe_len ps seen" let ?n = "safe_len ps (seen @ t)"
  let ?t = "drop ?m (take ?n (seen @ t))"
  from apply_stops_goes_on [OF inv js(2) none] obtain q where
    q: "apply_stops t p = ((?t, False), q)" "q = p\<lparr>lp_stops := lp_stops q, lp_emitted := lp_emitted q\<rparr>"
      "sm_patterns (lp_stops q) = ps"
      "ps \<noteq> [] \<longrightarrow> sm_buf (lp_stops q) = seen @ t \<and> lp_emitted q = ?n" by blast
  from q(2) have same: "lp_parser q = lp_parser p" "lp_ready q = lp_ready p" "lp_done q = lp_done p"
    "lp_ending q = lp_ending p" "lp_chunks q = lp_chunks p"
    by (metis litert_puller.ext_inject litert_puller.surjective litert_puller.update_convs)+
  have clean: "\<forall>i. \<not> stops_at ps (seen @ t) i" using none by (simp add: earliest_None_iff)
  have mono: "?m \<le> ?n" using safe_len_mono [OF clean] ascii_chunk_ok js(2) by simp
  have split: "take ?m seen @ ?t = take ?n (seen @ t)"
    using mono safe_len_le [of ps seen] append_take_drop_id [of ?m "take ?n (seen @ t)"] by (simp add: min_absorb1)
  have tallied: "tallied js p0 dn (lp_ready p) (lp_parser p) (take ?m seen)" using inv by (simp add: litert_inv_def)
  show ?thesis
  proof (cases "?t = []")
    case True
    then have "take ?n (seen @ t) = take ?m seen" using split by simp
    with True inv q same clean tallied show ?thesis
      by (auto simp: lp_absorb_def output_events_def litert_inv_def)
  next
    case False
    have "is_ascii (take ?m seen @ ?t)" unfolding split by (rule ascii_parts(1) [OF js(2)])
    from tallied_push [OF tallied js(1) this, of 0] obtain outs parser' where
      push: "tool_push js ?t (lp_parser p) = Some (outs, parser')"
        "tallied js p0 dn (lp_ready p @ output_events 0 outs) parser' (take ?n (seen @ t))" unfolding split by blast
    with False inv q same clean show ?thesis by (auto simp: lp_absorb_def litert_inv_def)
  qed
qed

lemma lp_part_hits:
  assumes inv: "litert_inv js p0 ps dn seen p" and js: "prints_ascii js" "is_ascii (seen @ t)"
    and hit: "earliest ps (seen @ t) = Some (at, pat)" "sp_keep_prefix pat = 0"
  shows "\<exists>q. lp_parts js [PartText t] p = Some q \<and> litert_finishes js p0 dn (take at (seen @ t)) q"
proof -
  let ?m = "safe_len ps seen"
  let ?t = "drop ?m (take at (seen @ t))"
  let ?q = "p\<lparr>lp_stops := (lp_stops p)\<lparr>sm_buf := seen @ t\<rparr>, lp_emitted := at\<rparr>"
  note stops = apply_stops_hits [OF inv js(2) hit]
  have split: "take ?m seen @ ?t = take at (seen @ t)"
    using stops(2) safe_len_le [of ps seen] append_take_drop_id [of ?m "take at (seen @ t)"] by (simp add: min_absorb1)
  have ascii: "is_ascii (take at (seen @ t))" by (rule ascii_parts(1) [OF js(2)])
  have "tallied js p0 dn (lp_ready p) (lp_parser p) (take ?m seen)" using inv by (simp add: litert_inv_def)
  from tallied_push [OF this js(1), of ?t 0] ascii obtain outs parser' where
    push: "tool_push js ?t (lp_parser p) = Some (outs, parser')"
      "tallied js p0 dn (lp_ready p @ output_events 0 outs) parser' (take at (seen @ t))" unfolding split by blast
  have "\<exists>outs parser'. (if ?t = [] then Some ([], lp_parser p) else tool_push js ?t (lp_parser p)) = Some (outs, parser')
      \<and> tallied js p0 dn (lp_ready p @ output_events 0 outs) parser' (take at (seen @ t))"
  proof (cases "?t = []")
    case True
    then show ?thesis using \<open>tallied js p0 dn (lp_ready p) (lp_parser p) (take ?m seen)\<close> split
      by (simp add: output_events_def)
  next
    case False
    show ?thesis using push unfolding if_not_P [OF False] by blast
  qed
  then obtain o2 parser2 where
    step: "(if ?t = [] then Some ([], lp_parser p) else tool_push js ?t (lp_parser p)) = Some (o2, parser2)"
      "tallied js p0 dn (lp_ready p @ output_events 0 o2) parser2 (take at (seen @ t))" by blast
  define u where "u = ?t"
  define r where "r = (lp_absorb o2 (?q\<lparr>lp_parser := parser2\<rparr>))\<lparr>lp_cancels := lp_cancels p + 1\<rparr>"
  have "\<exists>s. end_with js EosEv r = Some s \<and> litert_finishes js p0 dn (take at (seen @ t)) s"
    by (rule end_with_covers) (use step(2) js ascii inv in \<open>auto simp: r_def lp_absorb_def litert_inv_def\<close>)
  moreover have "lp_parts js [PartText t] p = end_with js EosEv r"
    using stops(1) [folded u_def] step(1) [folded u_def]
    by (cases "u = []") (auto simp: r_def lp_absorb_def Let_def)
  ultimately show ?thesis by simp
qed

abbreviation calm_flags :: "nat \<Rightarrow> bool \<times> bool \<times> bool" where
  "calm_flags \<equiv> \<lambda>_. (False, False, False)"

lemma litert_yields_ready:
  "\<not> lp_done p \<Longrightarrow> yields (litert_next js flags) (p\<lparr>lp_ready := []\<rparr>) es \<Longrightarrow>
    yields (litert_next js flags) p (map Inr (lp_ready p) @ es)"
proof (induction "lp_ready p" arbitrary: p)
  case Nil
  have "p\<lparr>lp_ready := []\<rparr> = p" using Nil.hyps by simp
  with Nil show ?case by simp
next
  case (Cons e es')
  let ?q = "p\<lparr>lp_ready := es'\<rparr>"
  have "litert_next js flags p = Some (Some (Inr e), ?q)"
    using Cons.hyps(2) Cons.prems(1) by (subst litert_next.simps) (simp flip: Cons.hyps(2))
  moreover have "yields (litert_next js flags) ?q (map Inr (lp_ready ?q) @ es)"
    using Cons.hyps(1) [of ?q] Cons.prems by simp
  ultimately have "yields (litert_next js flags) p (Inr e # (map Inr (lp_ready ?q) @ es))" by (rule yields_step)
  with Cons.hyps(2) show ?case by (simp flip: Cons.hyps(2))
qed

definition litert_shows :: "json_lib \<Rightarrow> tool_parser \<Rightarrow> token_event list \<Rightarrow> string \<Rightarrow> litert_puller \<Rightarrow> bool" where
  "litert_shows js p0 dn v p \<longleftrightarrow>
     (\<exists>evs. yields (litert_next js calm_flags) p (map Inr (evs @ [EosEv])) \<and> EosEv \<notin> set evs
        \<and> parsed_as js p0 v (shown_of (dn @ evs)))"

lemma litert_shows_finished:
  assumes "litert_finishes js p0 dn v p"
  shows "litert_shows js p0 dn v p"
proof -
  let ?p = "p\<lparr>lp_ready := []\<rparr>"
  let ?q = "?p\<lparr>lp_ending := None, lp_done := True\<rparr>"
  have "litert_next js calm_flags ?p = Some (Some (Inr EosEv), ?q)"
    using assms by (subst litert_next.simps) (simp add: litert_finishes_def)
  moreover have "yields (litert_next js calm_flags) ?q []"
    by (rule yields_end) (subst litert_next.simps, simp)
  ultimately have "yields (litert_next js calm_flags) ?p [Inr EosEv]" by (rule yields_step)
  from litert_yields_ready [OF _ this] assms show ?thesis
    unfolding litert_shows_def by (intro exI [of _ "lp_ready p"]) (simp add: litert_finishes_def)
qed

lemma litert_shows_ready:
  assumes "litert_shows js p0 (dn @ lp_ready p) v (p\<lparr>lp_ready := []\<rparr>)" "EosEv \<notin> set (lp_ready p)" "\<not> lp_done p"
  shows "litert_shows js p0 dn v p"
proof -
  from assms(1) obtain evs where "yields (litert_next js calm_flags) (p\<lparr>lp_ready := []\<rparr>) (map Inr (evs @ [EosEv]))"
    "EosEv \<notin> set evs" "parsed_as js p0 v (shown_of ((dn @ lp_ready p) @ evs))"
    by (auto simp: litert_shows_def)
  with litert_yields_ready [OF assms(3) this(1)] assms(2) show ?thesis
    unfolding litert_shows_def by (intro exI [of _ "lp_ready p @ evs"]) simp
qed

lemma litert_shows_same:
  assumes "litert_next js calm_flags p = litert_next js calm_flags q" "litert_shows js p0 dn v q"
  shows "litert_shows js p0 dn v p"
  using assms(2) yields_same [of "litert_next js calm_flags", OF assms(1)] unfolding litert_shows_def by fastforce

lemma litert_run_shows:
  assumes "litert_inv js p0 ps dn seen p" "prints_ascii js" "lp_chunks p = map ChunkText raws @ [ChunkDone]"
    "list_all2 (\<lambda>raw t. decode_chunk js raw = [PartText t]) raws ts"
    "is_ascii (seen @ concat ts)" "\<forall>q \<in> set ps. sp_keep_prefix q = 0"
  shows "litert_shows js p0 dn (visible_unflushed ps seen ts) p"
  using assms
proof (induction ts arbitrary: dn seen p raws)
  case Nil
  let ?p = "p\<lparr>lp_ready := []\<rparr>"
  have tallied: "tallied js p0 (dn @ lp_ready p) (lp_ready ?p) (lp_parser p) (take (safe_len ps seen) seen)"
    using Nil.prems(1) by (auto simp: litert_inv_def tallied_def)
  let ?last = "?p\<lparr>lp_chunks := [], lp_saw_final := True\<rparr>"
  have "\<exists>q. end_with js EosEv ?last = Some q \<and> litert_finishes js p0 (dn @ lp_ready p) (take (safe_len ps seen) seen) q"
    by (rule end_with_covers)
      (use tallied Nil.prems ascii_parts(1) in \<open>auto simp: litert_inv_def\<close>)
  then obtain q where q: "end_with js EosEv ?last = Some q"
    "litert_finishes js p0 (dn @ lp_ready p) (take (safe_len ps seen) seen) q" by blast
  have "litert_next js calm_flags ?p = litert_next js calm_flags q"
    using Nil.prems(1,3,4) q(1) by (subst litert_next.simps) (simp add: litert_inv_def)
  from litert_shows_same [OF this litert_shows_finished [OF q(2)]] have
    "litert_shows js p0 (dn @ lp_ready p) (visible_unflushed ps seen []) ?p" by simp
  then show ?case by (rule litert_shows_ready) (use Nil.prems(1) in \<open>simp_all add: litert_inv_def tallied_def\<close>)
next
  case (Cons t ts)
  from Cons.prems(4) obtain raw raws' where raws: "raws = raw # raws'" "decode_chunk js raw = [PartText t]"
    "list_all2 (\<lambda>raw t. decode_chunk js raw = [PartText t]) raws' ts" by (auto simp: list_all2_Cons2)
  let ?p = "p\<lparr>lp_ready := []\<rparr>" let ?dn = "dn @ lp_ready p"
  let ?r = "?p\<lparr>lp_chunks := map ChunkText raws' @ [ChunkDone]\<rparr>"
  have inv: "litert_inv js p0 ps ?dn seen ?r" using Cons.prems(1) by (auto simp: litert_inv_def tallied_def)
  have ascii: "is_ascii (seen @ t)" "is_ascii ((seen @ t) @ concat ts)" using Cons.prems(5) by auto
  have next_eq: "litert_next js calm_flags ?p
      = (case lp_parts js [PartText t] ?r of None \<Rightarrow> None | Some q \<Rightarrow> litert_next js calm_flags q)"
    using Cons.prems(1,3) raws by (subst litert_next.simps) (simp add: litert_inv_def del: lp_parts.simps)
  have "litert_shows js p0 ?dn (visible_unflushed ps seen (t # ts)) ?p"
  proof (cases "earliest ps (seen @ t)")
    case None
    from lp_part_goes_on [OF inv Cons.prems(2) ascii(1) None] obtain q where
      q: "lp_parts js [PartText t] ?r = Some q" "litert_inv js p0 ps ?dn (seen @ t) q" "lp_chunks q = lp_chunks ?r" by blast
    from q(3) have "lp_chunks q = map ChunkText raws' @ [ChunkDone]" by simp
    from Cons.IH [OF q(2) Cons.prems(2) this raws(3) ascii(2) Cons.prems(6)] next_eq q(1) None
    show ?thesis by (intro litert_shows_same [of js ?p q]) (simp_all del: lp_parts.simps)
  next
    case (Some m)
    obtain at pat where m: "m = (at, pat)" by (cases m)
    from earliest_SomeD [OF Some [unfolded m]] Cons.prems(6)
    have keep: "sp_keep_prefix pat = 0" and le: "at \<le> length (seen @ t)" by (auto simp: occurs_at_def)
    from lp_part_hits [OF inv Cons.prems(2) ascii(1) Some [unfolded m] keep] obtain q where
      q: "lp_parts js [PartText t] ?r = Some q" "litert_finishes js p0 ?dn (take at (seen @ t)) q" by blast
    have "litert_shows js p0 ?dn (take at (seen @ t)) ?p"
      by (rule litert_shows_same [OF _ litert_shows_finished [OF q(2)]]) (use next_eq q(1) in \<open>simp del: lp_parts.simps\<close>)
    moreover have "visible_unflushed ps seen (t # ts) = take at (seen @ t)"
      using Some m keep ascii_cut [OF ascii(1) le] by simp
    ultimately show ?thesis by simp
  qed
  then show ?case by (rule litert_shows_ready) (use Cons.prems(1) in \<open>simp_all add: litert_inv_def tallied_def\<close>)
qed

text \<open>
  C33: What the LiteRT-LM puller shows of an ASCII reply in chunks that each decode to one piece of
  text, which the runtime ends, while nobody asks to stop or pause. It does not panic, and it shows
  exactly what the tool-call parser makes of a text: where a stop string completes, the text of the
  reference; but a reply no stop string ended without its held end. The end event flushes the
  tool-call parser and not the stop matcher, so the last bytes are lost whenever they could have
  begun a stop string.\<close>
theorem litert_shows_unflushed:
  assumes "prints_ascii js" "list_all2 (\<lambda>raw t. decode_chunk js raw = [PartText t]) raws ts"
    "list_all is_ascii ts"
  shows "\<exists>evs. yields (litert_next js calm_flags)
       (litert_puller_new (map ChunkText raws @ [ChunkDone]) protocol (from_strings stops))
       (map Inr (evs @ [EosEv]))
     \<and> EosEv \<notin> set evs
     \<and> parsed_as js (tool_parser_new protocol)
         (visible_unflushed (map stop_pattern_new stops) [] ts) (shown_of evs)
     \<and> covers (visible_unflushed (map stop_pattern_new stops) [] ts) (shown_of evs)"
proof -
  let ?p = "litert_puller_new (map ChunkText raws @ [ChunkDone]) protocol (from_strings stops)"
  have "\<not> stops_at ps [] i" for ps i by (auto simp: stops_at_def occurs_at_def)
  moreover have "longest_hold ps [] = 0" for ps using longest_hold_le [of ps "[]"] by simp
  ultimately have "litert_inv js (tool_parser_new protocol) (map stop_pattern_new stops) [] [] ?p"
    by (simp add: litert_inv_def litert_puller_new_def from_strings_def stop_matcher_new_def safe_len_def tallied_start)
  moreover have "is_ascii ([] @ concat ts)" using assms(3) by (induction ts) (auto simp: is_ascii_def)
  moreover have "\<forall>q \<in> set (map stop_pattern_new stops). sp_keep_prefix q = 0" by (simp add: stop_pattern_new_def)
  ultimately have "litert_shows js (tool_parser_new protocol) [] (visible_unflushed (map stop_pattern_new stops) [] ts) ?p"
    using assms(1,2) by (intro litert_run_shows) (simp_all add: litert_puller_new_def)
  then show ?thesis using parsed_as_covers unfolding litert_shows_def by fastforce
qed

lemma litert_shows_unflushed_witness:
  "\<exists>evs. yields (litert_next sample_js calm_flags)
       (litert_puller_new [ChunkText ''the '', ChunkText ''EN'', ChunkDone] Auto (from_strings [''END'']))
       (map Inr (evs @ [EosEv]))
     \<and> EosEv \<notin> set evs
     \<and> parsed_as sample_js (tool_parser_new Auto) ''the '' (shown_of evs)
     \<and> covers ''the '' (shown_of evs)"
proof -
  have decode: "decode_chunk sample_js t = [PartText t]" if "t \<noteq> []" for t
    using that by (simp add: decode_chunk_def stream_values.simps sample_js_def)
  have "visible_unflushed (map stop_pattern_new [''END'']) [] [''the '', ''EN''] = ''the ''"
    by (simp add: earliest_def earliest_step_def stop_pattern_new_def starts_with_def safe_len_def
        longest_hold_def eval_nat_numeral is_char_boundary_def is_cont_byte_def ends_with_def)
  with litert_shows_unflushed [of sample_js "[''the '', ''EN'']" "[''the '', ''EN'']" Auto "[''END'']"] decode
  show ?thesis by (simp add: sample_js_prints is_ascii_def del: visible_unflushed.simps)
qed

text \<open>The same reply through the reference is complete.\<close>

lemma litert_loses_reply_end:
  "visible (map stop_pattern_new [''END'']) [] [''the '', ''EN''] = ''the EN''"
  by (simp add: earliest_def earliest_step_def stop_pattern_new_def starts_with_def)

end
