(* ===== verification/Compaction.thy ===== *)
theory Compaction
  imports Turn
begin

text \<open>
  Algorithmic compaction (\<^verbatim>\<open>src/session_rt/compaction.rs\<close>): the older part of a conversation
  becomes one digest message.  Also the error type of the engine
  (\<^verbatim>\<open>src/engine/error.rs\<close>), which the truncation above it returns.
\<close>

datatype exec_error =
    ModelNotLoaded
  | EmbedderNotLoaded
  | FeatureUnsupported string
  | InvalidArg string
  | MmprojIncompatible string
  | SettingsError string
  | KvIncompatible string
  | KvCorrupt string
  | InvalidModelFile string
  | UnsupportedArchitecture string
  | ExecIo string
  | ContextOverflow string
  | TemplateError string
  | SessionPoisoned string
  | OutOfMemory string
  | Unimplemented
  | Generation string
  | Coded string string
  | ExecOther string

definition default_keep_recent :: nat where
  "default_keep_recent = 6"

datatype compaction_strategy = NoCompaction | Algorithmic

fun strategy_as_str :: "compaction_strategy \<Rightarrow> string" where
  "strategy_as_str NoCompaction = ''none''"
| "strategy_as_str Algorithmic = ''algorithmic''"

record compact_result =
  cr_messages :: "message list"
  cr_compacted_count :: nat
  cr_strategy :: compaction_strategy

fun chunk_only_text :: "message_chunk \<Rightarrow> string option" where
  "chunk_only_text (TextChunk t) = Some t"
| "chunk_only_text _ = None"

definition text_of :: "message \<Rightarrow> string" where
  "text_of m =
     (case msg_body m of
        Content (SingleText s) \<Rightarrow> s
      | Content (StructuredAssistant c _) \<Rightarrow> c
      | Content (MultipleChunks cs) \<Rightarrow> join '' '' (List.map_filter chunk_only_text cs)
      | ToolBody _ \<Rightarrow> [])"

text \<open>The byte offsets at which characters start, as \<^verbatim>\<open>char_indices\<close> enumerates them.\<close>

definition char_starts :: "string \<Rightarrow> nat list" where
  "char_starts s = filter (\<lambda>i. \<not> is_cont_byte (s ! i)) [0..<length s]"

definition truncate_text :: "string \<Rightarrow> nat \<Rightarrow> string" where
  "truncate_text s max_chars =
     (if length s \<le> max_chars then s
      else let starts = char_starts s;
               boundary = (if max_chars < length starts then starts ! max_chars else length s)
           in take boundary s @ ''...'')"

section \<open>The digest\<close>

definition pair_of :: "message \<times> message \<Rightarrow> (message \<times> message) option" where
  "pair_of w = (if msg_role (fst w) = ''user'' \<and> msg_role (snd w) = ''assistant'' then Some w else None)"

definition topic_line :: "message \<times> message \<Rightarrow> string" where
  "topic_line p =
     ''- Q: '' @ truncate_text (text_of (fst p)) 120 @ [nl] @ ''  A: '' @ truncate_text (text_of (snd p)) 120"

text \<open>
  The sampling loop: \<open>i\<close> steps over the middle pairs until they or the five samples are used up.
\<close>

function topic_loop :: "(message \<times> message) list \<Rightarrow> nat \<Rightarrow> nat \<Rightarrow> string list \<Rightarrow> string list" where
  "topic_loop middle step i topics =
     (if i < length middle \<and> length topics < 5
      then topic_loop middle step (i + step) (topics @ [topic_line (middle ! i)])
      else topics)"
  by pat_completeness auto
termination
  by (relation "measure (\<lambda>(middle, step, i, topics). 5 - length topics)") auto

declare topic_loop.simps [simp del]

definition digest_topics :: "(message \<times> message) list \<Rightarrow> string list" where
  "digest_topics pairs =
     (if 2 < length pairs then
        let middle = take (length pairs - 2) (drop 1 pairs);
            step = max 1 (max 1 (length middle) div max 1 (min 5 (length middle)));
            topics = topic_loop middle step 0 []
        in if topics = [] then []
           else [''Key exchanges:'' @ [nl] @ join [nl] topics]
      else [])"

definition digest_parts :: "message list \<Rightarrow> nat \<Rightarrow> string list" where
  "digest_parts head compacted_count =
     [''['' @ show_nat compacted_count @ '' earlier messages compacted]'']
     @ (case List.find (\<lambda>m. msg_role m = ''user'') head of
          None \<Rightarrow> []
        | Some m \<Rightarrow> [''Original question: '' @ truncate_text (text_of m) 300])
     @ digest_topics (List.map_filter pair_of (windows2 head))
     @ (case List.find (\<lambda>m. msg_role m = ''assistant'') (rev head) of
          None \<Rightarrow> []
        | Some m \<Rightarrow> [''Last context before this window: '' @ truncate_text (text_of m) 400])"

definition build_algorithmic_digest :: "message list \<Rightarrow> nat \<Rightarrow> string" where
  "build_algorithmic_digest head n =
     ''<compact-summary>'' @ [nl] @ join [nl, nl] (digest_parts head n) @ [nl] @ ''</compact-summary>''"

section \<open>Compaction\<close>

definition first_is_system :: "message list \<Rightarrow> bool" where
  "first_is_system ms = (case ms of [] \<Rightarrow> False | m # _ \<Rightarrow> msg_role m = ''system'')"

definition compact_algorithmic :: "message list \<Rightarrow> nat \<Rightarrow> compact_result" where
  "compact_algorithmic ms keep_recent =
     (let total = length ms;
          unchanged = \<lparr>cr_messages = ms, cr_compacted_count = 0, cr_strategy = NoCompaction\<rparr> in
      if total \<le> keep_recent + 3 then unchanged
      else let body_start = (if first_is_system ms then 1 else 0);
               split_at = total - keep_recent in
        if split_at \<le> body_start then unchanged
        else let head = take (split_at - body_start) (drop body_start ms);
                 tail = drop split_at ms in
          if head = [] then unchanged
          else let n = length head;
                   summary = plain_message ''system'' (Content (SingleText (build_algorithmic_digest head n)))
            in \<lparr>cr_messages = take body_start ms @ [summary] @ tail, cr_compacted_count = n,
                cr_strategy = Algorithmic\<rparr>)"

section \<open>Lemmas\<close>

lemma length_topic_loop: "length topics \<le> 5 \<Longrightarrow> length (topic_loop middle step i topics) \<le> 5"
proof (induction middle step i topics rule: topic_loop.induct)
  case (1 middle step i topics)
  then show ?case by (subst topic_loop.simps) auto
qed

lemma char_starts_bound: "i \<in> set (char_starts s) \<Longrightarrow> i < length s"
  by (auto simp: char_starts_def)

lemma length_truncate_text: "length (truncate_text s n) \<le> length s + 3"
  by (auto simp: truncate_text_def Let_def)

text \<open>What compaction keeps: the system message if there is one, and the recent tail.\<close>

lemma compact_shape:
  assumes "keep + 3 < length ms"
  shows "compact_algorithmic ms keep =
     \<lparr>cr_messages = (if first_is_system ms then [hd ms] else [])
        @ [plain_message ''system'' (Content (SingleText
             (build_algorithmic_digest
               (drop (if first_is_system ms then 1 else 0) (take (length ms - keep) ms))
               (length ms - keep - (if first_is_system ms then 1 else 0)))))]
        @ drop (length ms - keep) ms,
      cr_compacted_count = length ms - keep - (if first_is_system ms then 1 else 0),
      cr_strategy = Algorithmic\<rparr>"
proof -
  obtain m rest where "ms = m # rest" using assms by (cases ms) auto
  with assms show ?thesis
    by (auto simp: compact_algorithmic_def Let_def drop_take)
qed

lemma compact_small:
  "length ms \<le> keep + 3 \<Longrightarrow> compact_algorithmic ms keep
     = \<lparr>cr_messages = ms, cr_compacted_count = 0, cr_strategy = NoCompaction\<rparr>"
  by (simp add: compact_algorithmic_def)

lemma compact_count_0_iff:
  "cr_compacted_count (compact_algorithmic ms keep) = 0 \<longleftrightarrow> length ms \<le> keep + 3"
  by (cases "length ms \<le> keep + 3") (auto simp: compact_small compact_shape not_le)

lemma length_compact_less:
  "keep + 3 < length ms \<Longrightarrow> length (cr_messages (compact_algorithmic ms keep)) < length ms"
  by (simp add: compact_shape)

lemma compact_last:
  assumes "0 < keep" "ms \<noteq> []"
  shows "cr_messages (compact_algorithmic ms keep) \<noteq> []
    \<and> last (cr_messages (compact_algorithmic ms keep)) = last ms"
proof (cases "length ms \<le> keep + 3")
  case True
  with assms show ?thesis by (simp add: compact_small)
next
  case False
  with assms show ?thesis by (auto simp: compact_shape not_le)
qed

text \<open>
  Compaction keeps the beginning and the end.  A conversation longer than the kept tail
  plus three becomes the system message (if it had one), one digest and exactly the last
  \<open>keep\<close> messages, the count it reports is the number of messages replaced, and a second
  compaction finds nothing more to do; a shorter conversation is returned unchanged.
\<close>

lemma compact_keeps_ends:
  "if length ms \<le> keep + 3
   then cr_messages (compact_algorithmic ms keep) = ms \<and> cr_compacted_count (compact_algorithmic ms keep) = 0
   else (\<exists>summary. cr_messages (compact_algorithmic ms keep)
            = (if first_is_system ms then [hd ms] else []) @ [system_msg summary]
                @ drop (length ms - keep) ms)
     \<and> cr_compacted_count (compact_algorithmic ms keep) + keep
          + (if first_is_system ms then 1 else 0) = length ms
     \<and> cr_compacted_count (compact_algorithmic (cr_messages (compact_algorithmic ms keep)) keep) = 0"
  using compact_shape [of keep ms]
  by (auto simp: compact_small compact_count_0_iff not_le system_msg_def)

text \<open>A conversation in which the cut falls between a call and its result.\<close>

definition split_sample :: "message list" where
  "split_sample =
     [user_msg ''a'', user_msg ''b'', user_msg ''c'', sample_call, tool_result_for ''a'' ''out'',
      user_msg ''d'', user_msg ''e'', user_msg ''f'', user_msg ''g'', user_msg ''h'']"

text \<open>
  Compaction, unlike the round-wise dropping next to it, can separate a tool call from its
  result: in this well-paired conversation of ten messages, compacted as a warm session does
  it, the result survives at the start of the tail while no call is left to which it belongs.
\<close>

lemma compaction_orphans_result:
  "calls_answered split_sample
   \<and> tool_result_for ''a'' ''out'' \<in> set (cr_messages (compact_algorithmic split_sample default_keep_recent))
   \<and> list_all (\<lambda>m. call_ids m = []) (cr_messages (compact_algorithmic split_sample default_keep_recent))"
proof -
  have "calls_answered split_sample"
    by (simp add: split_sample_def calls_answered_Cons)
      (simp add: calls_answered_def sample_call_def call_ids_def answered_in_def message_constructor_defs)
  moreover have "\<exists>s. cr_messages (compact_algorithmic split_sample default_keep_recent)
      = plain_message ''system'' (Content (SingleText s)) # drop 4 split_sample"
    by (subst compact_shape)
      (auto simp: split_sample_def default_keep_recent_def first_is_system_def user_msg_def
        plain_message_def)
  ultimately show ?thesis
    by (auto simp: split_sample_def call_ids_def message_constructor_defs)
qed

text \<open>
  The digest's truncation marks text it did not shorten: a text of more bytes but no more
  characters than the limit is returned whole, with an ellipsis behind it.
\<close>

lemma truncate_text_false_ellipsis:
  assumes "max_chars < length s" "length (char_starts s) \<le> max_chars"
  shows "truncate_text s max_chars = s @ ''...''"
  using assms by (simp add: truncate_text_def Let_def)

lemma truncate_text_false_ellipsis_witness:
  "truncate_text [CHR 0xC3, CHR 0xA9] 1 = [CHR 0xC3, CHR 0xA9] @ ''...''"
  by (rule truncate_text_false_ellipsis) (simp_all add: char_starts_def is_cont_byte_def upt_rec)

end
