(* ===== verification/Truncate.thy ===== *)
theory Truncate
  imports Compaction
begin

text \<open>
  Fitting a conversation into the context window (\<^verbatim>\<open>src/session_rt/truncate.rs\<close>, with
  \<^verbatim>\<open>generation_reserve\<close> of \<^verbatim>\<open>src/session_rt/prompt.rs\<close>).  The session's tokenizer is a
  backend object, a parameter \<open>count\<close> that may fail.  The batch loop of the cold start has no
  termination argument in the source, so it is a partial function: \<^const>\<open>None\<close> is \<open>never returns\<close>.
\<close>

type_synonym counter = "message list \<Rightarrow> exec_error + nat"

definition generation_reserve :: "nat \<Rightarrow> nat option \<Rightarrow> nat" where
  "generation_reserve ctx_size max_tokens =
     (let half = ctx_size div 2; min_reserve = min half 64; dflt = ctx_size div 4 in
      clamp (case max_tokens of Some n \<Rightarrow> n | None \<Rightarrow> dflt) (max min_reserve 1) (max half 1))"

record truncation_outcome =
  to_kept :: "message list"
  to_dropped :: nat

definition drop_oldest_round :: "message list \<Rightarrow> nat \<Rightarrow> nat \<times> message list" where
  "drop_oldest_round ms at =
     (if length ms \<le> at \<or> length ms \<le> 2 then (0, ms)
      else let span = round_len ms at in
        if span = 0 \<or> length ms - span < 2 then (0, ms)
        else (span, take at ms @ drop (at + span) ms))"

section \<open>Cold start\<close>

partial_function (option) cold_batch ::
  "nat \<Rightarrow> nat \<Rightarrow> message list \<Rightarrow> nat \<Rightarrow> message list option" where
  "cold_batch at est_remove ms removed =
     (if removed < est_remove \<and> 2 < length ms
      then cold_batch at est_remove (snd (drop_oldest_round ms at))
             (removed + fst (drop_oldest_round ms at))
      else Some ms)"

lemma drop_oldest_round_less:
  "fst (drop_oldest_round ms at) \<noteq> 0 \<Longrightarrow> length (snd (drop_oldest_round ms at)) < length ms"
  using round_len_bounds [of at ms]
  by (auto simp: drop_oldest_round_def Let_def split: if_splits)

function cold_trim ::
  "counter \<Rightarrow> nat \<Rightarrow> nat \<Rightarrow> message list \<Rightarrow> nat \<Rightarrow> exec_error + message list" where
  "cold_trim count at ctx_limit ms token_count =
     (if ctx_limit < token_count \<and> 2 < length ms \<and> fst (drop_oldest_round ms at) \<noteq> 0
      then let ms' = snd (drop_oldest_round ms at) in
        (case count ms' of Inl e \<Rightarrow> Inl e | Inr n \<Rightarrow> cold_trim count at ctx_limit ms' n)
      else Inr ms)"
  by pat_completeness auto
termination
  by (relation "measure (\<lambda>(count, at, limit, ms, n). length ms)") (auto intro: drop_oldest_round_less)

declare cold_trim.simps [simp del]

text \<open>
  \<^verbatim>\<open>avg_per_msg\<close> and the other divisions guard their divisor with \<^verbatim>\<open>max(1)\<close>; \<^verbatim>\<open>removable\<close> only
  subtracts below a length above two.
\<close>

definition cold_estimate :: "nat \<Rightarrow> nat \<Rightarrow> message list \<Rightarrow> nat" where
  "cold_estimate token_count ctx_limit ms =
     (let removable = length ms - (if first_is_system ms then 2 else 1);
          avg_per_msg = token_count div max 1 (length ms);
          excess = token_count - ctx_limit
      in min (excess div max 1 avg_per_msg) removable)"

definition remove_index :: "message list \<Rightarrow> nat" where
  "remove_index ms = (if first_is_system ms then 1 else 0)"

definition cold_start ::
  "counter \<Rightarrow> nat option \<Rightarrow> nat \<Rightarrow> message list \<Rightarrow> (exec_error + truncation_outcome) option" where
  "cold_start count max_tokens ctx_size ms =
     (let ctx_limit = ctx_size - generation_reserve ctx_size max_tokens;
          outcome = (\<lambda>ms'. Inr \<lparr>to_kept = ms', to_dropped = length ms - length ms'\<rparr>) in
      case count ms of
        Inl e \<Rightarrow> Some (Inl e)
      | Inr token_count \<Rightarrow>
          if ctx_limit < token_count \<and> 2 < length ms then
            (case cold_batch (remove_index ms) (cold_estimate token_count ctx_limit ms) ms 0 of
               None \<Rightarrow> None
             | Some ms1 \<Rightarrow>
                 (case count ms1 of
                    Inl e \<Rightarrow> Some (Inl e)
                  | Inr n \<Rightarrow>
                      (case cold_trim count (remove_index ms) ctx_limit ms1 n of
                         Inl e \<Rightarrow> Some (Inl e)
                       | Inr ms2 \<Rightarrow> Some (outcome ms2))))
          else Some (outcome ms))"

section \<open>Warm start\<close>

function compact_phase ::
  "counter \<Rightarrow> nat \<Rightarrow> message list \<Rightarrow> nat \<Rightarrow> exec_error + (message list \<times> nat)" where
  "compact_phase count ctx_limit working dropped =
     (case count working of
        Inl e \<Rightarrow> Inl e
      | Inr n \<Rightarrow>
          if n \<le> ctx_limit then Inr (working, dropped)
          else let cr = compact_algorithmic working default_keep_recent in
            if cr_compacted_count cr = 0 then Inr (cr_messages cr, dropped)
            else compact_phase count ctx_limit (cr_messages cr)
                   (sat_add dropped (cr_compacted_count cr)))"
  by pat_completeness auto
termination
  by (relation "measure (\<lambda>(count, limit, ms, d). length ms)")
    (auto simp: compact_count_0_iff not_le intro: length_compact_less)

function drop_phase ::
  "counter \<Rightarrow> nat \<Rightarrow> message list \<Rightarrow> nat \<Rightarrow> exec_error + (message list \<times> nat)" where
  "drop_phase count ctx_limit working dropped =
     (if length working \<le> 2 then Inr (working, dropped)
      else case count working of
        Inl e \<Rightarrow> Inl e
      | Inr n \<Rightarrow>
          if n \<le> ctx_limit then Inr (working, dropped)
          else let (removed, working') = drop_oldest_round working (remove_index working) in
            if removed = 0 then Inr (working', dropped)
            else drop_phase count ctx_limit working' (dropped + removed))"
  by pat_completeness auto
termination
proof (relation "measure (\<lambda>(count, limit, ms, d). length ms)")
  fix count :: counter and ctx_limit working dropped n x removed working'
  assume "x = drop_oldest_round working (remove_index working)" "(removed, working') = x" "removed \<noteq> 0"
  then show "((count, ctx_limit, working', dropped + removed), count, ctx_limit, working, dropped)
      \<in> measure (\<lambda>(count, limit, ms, d). length ms)"
    using drop_oldest_round_less [of working "remove_index working"] by (metis case_prod_conv fst_conv in_measure snd_conv)
qed simp

declare compact_phase.simps [simp del] drop_phase.simps [simp del]

definition warm_start ::
  "counter \<Rightarrow> nat option \<Rightarrow> nat \<Rightarrow> message list \<Rightarrow> exec_error + truncation_outcome" where
  "warm_start count max_tokens ctx_size ms =
     (let ctx_limit = ctx_size - generation_reserve ctx_size max_tokens in
      case compact_phase count ctx_limit ms 0 of
        Inl e \<Rightarrow> Inl e
      | Inr (w1, d1) \<Rightarrow>
          (case drop_phase count ctx_limit w1 d1 of
             Inl e \<Rightarrow> Inl e
           | Inr (w2, d2) \<Rightarrow>
               (case count w2 of
                  Inl e \<Rightarrow> Inl e
                | Inr n \<Rightarrow>
                    if ctx_limit < n
                    then Inl (ExecOther (''conversation too long even after compaction (ctx_size=''
                                @ show_nat ctx_size @ '')''))
                    else Inr \<lparr>to_kept = w2, to_dropped = d2\<rparr>)))"

section \<open>Lemmas\<close>

text \<open>
  The generation reserve is well defined and bounded: the bounds handed to \<^verbatim>\<open>clamp\<close> never
  cross (it cannot panic), at least one token is reserved, never more than half the context
  (one token for the smallest contexts), and every context of two tokens or more leaves room
  for a prompt.
\<close>

lemma generation_reserve_bounds:
  "max (min (c div 2) 64) 1 \<le> max (c div 2) 1
   \<and> 1 \<le> generation_reserve c m \<and> generation_reserve c m \<le> max (c div 2) 1
   \<and> (if 2 \<le> c then c div 2 \<le> c - generation_reserve c m \<and> 0 < c - generation_reserve c m
      else c - generation_reserve c m = 0)"
  by (auto simp: generation_reserve_def Let_def clamp_def)

text \<open>Dropping a round keeps everything before and after it.\<close>

lemma drop_oldest_roundE:
  assumes "at < length ms"
  obtains "drop_oldest_round ms at = (0, ms)"
  | k where "0 < k" "at + k \<le> length ms" "k = round_len ms at" "2 \<le> length ms - k"
      "drop_oldest_round ms at = (k, take at ms @ drop (at + k) ms)"
  using round_len_bounds [OF assms] assms
  by (cases "length ms \<le> 2 \<or> length ms - round_len ms at < 2")
    (auto simp: drop_oldest_round_def Let_def)

text \<open>
  \<open>trimmed\<close>: what is left when whole pieces are removed behind the first \<open>at\<close> messages.
\<close>

definition trimmed :: "nat \<Rightarrow> message list \<Rightarrow> message list \<Rightarrow> bool" where
  "trimmed at ms ms' \<longleftrightarrow>
     (\<exists>k. ms' = take at ms @ drop (at + k) ms \<and> at + k \<le> length ms) \<and> min 2 (length ms) \<le> length ms'"

lemma trimmed_refl: "at \<le> length ms \<Longrightarrow> trimmed at ms ms"
  by (auto simp: trimmed_def intro: exI [of _ 0])

lemma trimmed_drop:
  assumes "trimmed at ms ms'" "at < 2" "2 \<le> length ms'"
  shows "trimmed at ms (snd (drop_oldest_round ms' at))"
proof -
  have "at < length ms'" using assms(2,3) by simp
  then show ?thesis
  proof (cases rule: drop_oldest_roundE)
    case 1
    with assms show ?thesis by simp
  next
    case (2 k)
    from assms(1) obtain j where j: "ms' = take at ms @ drop (at + j) ms" "at + j \<le> length ms"
      by (auto simp: trimmed_def)
    have "take at ms' = take at ms" using j by simp
    moreover have "drop (at + k) ms' = drop (at + (j + k)) ms"
      using j by (simp add: ac_simps)
    moreover have "at + (j + k) \<le> length ms" using 2(2) j by simp
    moreover have "length ms' = length ms - j" using j by simp
    then have "min 2 (length ms) \<le> length ms - (j + k)" using 2(4) by simp
    ultimately show ?thesis using 2 j(2) by (auto simp: trimmed_def intro!: exI [of _ "j + k"])
  qed
qed

lemma remove_index_less: "remove_index ms < 2"
  by (simp add: remove_index_def)

lemma cold_batch_trimmed:
  assumes "cold_batch at est ms' r = Some out" "trimmed at ms ms'" "at < 2"
  shows "trimmed at ms out"
proof -
  have "trimmed at ms ms' \<and> at < 2 \<longrightarrow> trimmed at ms out"
  proof (rule cold_batch.raw_induct
      [where P = "\<lambda>at est ms' r out. trimmed at ms ms' \<and> at < 2 \<longrightarrow> trimmed at ms out", OF _ assms(1)])
    fix f at est ms' r out
    assume IH: "\<And>at est ms' r out. f at est ms' r = Some out
        \<Longrightarrow> trimmed at ms ms' \<and> at < 2 \<longrightarrow> trimmed at ms out"
      and eq: "(if r < est \<and> 2 < length ms'
        then f at est (snd (drop_oldest_round ms' at)) (r + fst (drop_oldest_round ms' at))
        else Some ms') = Some out"
    show "trimmed at ms ms' \<and> at < 2 \<longrightarrow> trimmed at ms out"
    proof (cases "r < est \<and> 2 < length ms'")
      case True
      with eq IH [of at est "snd (drop_oldest_round ms' at)" "r + fst (drop_oldest_round ms' at)" out]
      show ?thesis using trimmed_drop [of at ms ms'] by auto
    qed (use eq in auto)
  qed
  with assms show ?thesis by simp
qed

lemma cold_trim_trimmed:
  "cold_trim count at limit ms' n = Inr out \<Longrightarrow> trimmed at ms ms' \<Longrightarrow> at < 2 \<Longrightarrow> trimmed at ms out"
proof (induction count at limit ms' n rule: cold_trim.induct)
  case (1 count at limit ms' n)
  from "1.prems" show ?case
    by (subst (asm) cold_trim.simps)
      (auto simp: Let_def split: if_splits sum.splits intro!: "1.IH" trimmed_drop)
qed

text \<open>
  A cold start that returns never damages the conversation: what it keeps is the system
  message (if there was one) followed by an unbroken run of the most recent messages, at least
  two messages stay of any conversation that had two, and the number reported as dropped is
  the number that is gone.
\<close>

lemma cold_start_keeps_recent:
  assumes "cold_start count max_tokens ctx_size ms = Some (Inr out)"
  shows "(\<exists>k. to_kept out = take (remove_index ms) ms @ drop (remove_index ms + k) ms
            \<and> to_dropped out = k)
       \<and> min 2 (length ms) \<le> length (to_kept out)"
proof -
  have le: "remove_index ms \<le> length ms"
    by (cases ms) (auto simp: remove_index_def first_is_system_def)
  let ?limit = "ctx_size - generation_reserve ctx_size max_tokens"
  from assms consider "out = \<lparr>to_kept = ms, to_dropped = 0\<rparr>"
    | tc ms1 n ms2 where
      "cold_batch (remove_index ms) (cold_estimate tc ?limit ms) ms 0 = Some ms1"
      "cold_trim count (remove_index ms) ?limit ms1 n = Inr ms2"
      "out = \<lparr>to_kept = ms2, to_dropped = length ms - length ms2\<rparr>"
    by (auto simp: cold_start_def Let_def split: sum.splits option.splits if_splits)
  then have "trimmed (remove_index ms) ms (to_kept out)
      \<and> to_dropped out = length ms - length (to_kept out)"
  proof cases
    case 1
    with trimmed_refl [OF le] show ?thesis by simp
  next
    case (2 tc ms1 n ms2)
    from cold_batch_trimmed [OF 2(1) trimmed_refl [OF le] remove_index_less]
    have "trimmed (remove_index ms) ms ms1" .
    from cold_trim_trimmed [OF 2(2) this remove_index_less] 2(3) show ?thesis by simp
  qed
  moreover from this obtain k where k: "remove_index ms + k \<le> length ms"
    "to_kept out = take (remove_index ms) ms @ drop (remove_index ms + k) ms"
    by (auto simp: trimmed_def)
  moreover from this have "length ms - length (to_kept out) = k" by simp
  ultimately show ?thesis by (auto simp: trimmed_def intro!: exI [of _ k])
qed

text \<open>Tokens counted as 100 per message, for concrete instances.\<close>

definition per_message :: counter where
  "per_message ms = Inr (100 * length ms)"

lemma cold_start_keeps_recent_witness:
  "\<exists>out. cold_start per_message None 400 (map user_msg [''a'', ''b'', ''c'', ''d'']) = Some (Inr out)
     \<and> to_dropped out = 1 \<and> 2 \<le> length (to_kept out)"
proof -
  let ?ms = "map user_msg [''a'', ''b'', ''c'', ''d'']"
  have u: "\<forall>t. msg_body (user_msg t) = Content (SingleText t) \<and> msg_role (user_msg t) = ''user''"
    by (simp add: message_constructor_defs)
  have "generation_reserve 400 None = 100"
    by (simp add: generation_reserve_def Let_def clamp_def)
  then have run: "cold_start per_message None 400 ?ms = Some (Inr \<lparr>to_kept = tl ?ms, to_dropped = 1\<rparr>)"
    using u by (simp add: cold_start_def Let_def per_message_def remove_index_def
        first_is_system_def cold_estimate_def cold_batch.simps drop_oldest_round_def round_len_def
        cold_trim.simps)
  from cold_start_keeps_recent [OF run] run show ?thesis by auto
qed

text \<open>Without tool calls every round is one message, so the batch loop makes progress.\<close>

lemma round_len_plain:
  "at < length ms \<Longrightarrow> \<forall>m \<in> set ms. \<exists>c. msg_body m = Content c \<Longrightarrow> round_len ms at = 1"
  by (metis message_body.simps(5) nth_mem round_len_def not_le)

lemma drop_oldest_round_plain:
  assumes "at < 2" "2 < length ms" "\<forall>m \<in> set ms. \<exists>c. msg_body m = Content c"
  shows "drop_oldest_round ms at = (1, take at ms @ drop (at + 1) ms)"
  using assms round_len_plain [of at ms] by (auto simp: drop_oldest_round_def)

lemma cold_batch_plain:
  assumes "at < 2" "\<forall>m \<in> set ms. \<exists>c. msg_body m = Content c"
  shows "\<exists>out. cold_batch at est ms r = Some out \<and> set out \<subseteq> set ms"
  using assms
proof (induction "length ms" arbitrary: ms r rule: less_induct)
  case less
  show ?case
  proof (cases "r < est \<and> 2 < length ms")
    case True
    with less.prems have d: "drop_oldest_round ms at = (1, take at ms @ drop (at + 1) ms)"
      by (simp add: drop_oldest_round_plain)
    let ?ms = "take at ms @ drop (at + 1) ms"
    have sub: "set ?ms \<subseteq> set ms" using set_take_subset set_drop_subset by fastforce
    have "length ?ms < length ms" using True less.prems(1) by auto
    from less.hyps [OF this, of "r + 1"] less.prems sub
    obtain out where "cold_batch at est ?ms (r + 1) = Some out" "set out \<subseteq> set ?ms" by blast
    with True d sub show ?thesis by (subst cold_batch.simps) auto
  next
    case False
    then show ?thesis by (subst cold_batch.simps) auto
  qed
qed

lemma cold_trim_plain:
  "at < 2 \<Longrightarrow> \<forall>m \<in> set ms. \<exists>c. msg_body m = Content c \<Longrightarrow> count ms = Inr n \<Longrightarrow>
   cold_trim count at limit ms n = Inr out \<Longrightarrow> \<exists>k. count out = Inr k \<and> (k \<le> limit \<or> length out \<le> 2)"
proof (induction count at limit ms n rule: cold_trim.induct)
  case (1 count at limit ms n)
  show ?case
  proof (cases "limit < n \<and> 2 < length ms")
    case True
    with "1.prems" have d: "drop_oldest_round ms at = (1, take at ms @ drop (Suc at) ms)"
      by (simp add: drop_oldest_round_plain)
    let ?ms = "take at ms @ drop (Suc at) ms"
    have sub: "\<forall>m \<in> set ?ms. \<exists>c. msg_body m = Content c"
      using "1.prems"(2) by (auto dest: in_set_takeD in_set_dropD)
    have run: "(case count ?ms of Inl e \<Rightarrow> Inl e | Inr k \<Rightarrow> cold_trim count at limit ?ms k) = Inr out"
      using "1.prems"(4) True d by (subst (asm) cold_trim.simps) (simp add: Let_def)
    then obtain k where "count ?ms = Inr k" "cold_trim count at limit ?ms k = Inr out"
      by (auto split: sum.splits)
    moreover have "limit < n \<and> 2 < length ms \<and> fst (drop_oldest_round ms at) \<noteq> 0"
      "?ms = snd (drop_oldest_round ms at)" using True d by auto
    ultimately show ?thesis using "1.IH" [of ?ms k] "1.prems"(1) sub by metis
  next
    case False
    with "1.prems" show ?thesis by (subst (asm) cold_trim.simps) (auto split: if_splits)
  qed
qed

text \<open>
  For a conversation without tool calls the cold start always returns, and unless the
  tokenizer fails what it returns fits the context limit or has come down to two messages.
\<close>

lemma cold_start_plain_returns:
  assumes "\<forall>m \<in> set ms. \<exists>c. msg_body m = Content c"
  shows "\<exists>res. cold_start count max_tokens ctx_size ms = Some res
     \<and> (\<forall>out. res = Inr out \<longrightarrow> (\<exists>k. count (to_kept out) = Inr k
           \<and> (k \<le> ctx_size - generation_reserve ctx_size max_tokens \<or> length (to_kept out) \<le> 2)))"
proof (cases "count ms")
  case (Inr tc)
  let ?limit = "ctx_size - generation_reserve ctx_size max_tokens"
  obtain ms1 where b: "cold_batch (remove_index ms) (cold_estimate tc ?limit ms) ms 0 = Some ms1"
    "set ms1 \<subseteq> set ms"
    using cold_batch_plain [OF remove_index_less assms] by blast
  have "\<exists>k. count out = Inr k \<and> (k \<le> ?limit \<or> length out \<le> 2)"
    if "count ms1 = Inr n" "cold_trim count (remove_index ms) ?limit ms1 n = Inr out" for n out
    using cold_trim_plain [OF remove_index_less _ that] assms b(2) by blast
  with Inr b(1) show ?thesis
    by (auto simp: cold_start_def Let_def split: sum.splits)
qed (simp add: cold_start_def Let_def)

lemma cold_start_plain_returns_witness:
  "\<exists>res. cold_start per_message None 200 [user_msg ''a'', user_msg ''b'', user_msg ''c''] = Some res"
  using cold_start_plain_returns [of "[user_msg ''a'', user_msg ''b'', user_msg ''c'']" per_message None 200]
  by (auto simp: message_constructor_defs)

lemma cold_batch_stuck:
  assumes "r < est" "2 < length ms" "drop_oldest_round ms at = (0, ms)"
  shows "cold_batch at est ms r = None"
proof (rule ccontr)
  assume "cold_batch at est ms r \<noteq> None"
  then obtain out where ret: "cold_batch at est ms r = Some out" by auto
  have "\<not> (r < est \<and> 2 < length ms \<and> drop_oldest_round ms at = (0, ms))"
  proof (rule cold_batch.raw_induct
      [where P = "\<lambda>at est ms r out. \<not> (r < est \<and> 2 < length ms \<and> drop_oldest_round ms at = (0, ms))",
       OF _ ret])
    fix f at est ms r out
    assume IH: "\<And>at est ms r out. f at est ms r = Some out
        \<Longrightarrow> \<not> (r < est \<and> 2 < length ms \<and> drop_oldest_round ms at = (0, ms))"
      and eq: "(if r < est \<and> 2 < length ms
        then f at est (snd (drop_oldest_round ms at)) (r + fst (drop_oldest_round ms at))
        else Some ms) = Some out"
    show "\<not> (r < est \<and> 2 < length ms \<and> drop_oldest_round ms at = (0, ms))"
    proof
      assume *: "r < est \<and> 2 < length ms \<and> drop_oldest_round ms at = (0, ms)"
      with eq have "f at est ms r = Some out" by simp
      from IH [OF this] * show False by simp
    qed
  qed
  with assms show False by blast
qed

definition hang_sample :: "message list" where
  "hang_sample = [sample_call, tool_result_for ''a'' ''out'', user_msg ''q'']"

text \<open>
  C40: With tool calls the cold start can hang.  When the oldest round cannot be dropped
  without leaving fewer than two messages, the batch loop drops nothing and counts nothing,
  for ever: a call, its result and one question, over the limit, never come back.
\<close>

theorem cold_start_can_hang:
  "cold_start per_message None 200 hang_sample = None"
proof -
  have r: "generation_reserve 200 None = 64" by (simp add: generation_reserve_def Let_def clamp_def)
  have l: "round_len hang_sample 0 = 2"
    by (simp add: round_len_def hang_sample_def sample_call_def message_constructor_defs)
  have "drop_oldest_round hang_sample 0 = (0, hang_sample)"
    using l by (simp add: drop_oldest_round_def hang_sample_def)
  moreover have "remove_index hang_sample = 0"
    by (simp add: remove_index_def first_is_system_def hang_sample_def sample_call_def
        message_constructor_defs)
  moreover have "0 < cold_estimate 300 136 hang_sample" "2 < length hang_sample"
    by (simp_all add: cold_estimate_def Let_def hang_sample_def first_is_system_def sample_call_def
        message_constructor_defs)
  ultimately have "cold_batch (remove_index hang_sample) (cold_estimate 300 136 hang_sample) hang_sample 0 = None"
    using cold_batch_stuck [of 0 "cold_estimate 300 136 hang_sample" hang_sample 0] by simp
  with r show ?thesis
    by (simp add: cold_start_def per_message_def Let_def hang_sample_def)
qed

section \<open>Warm start\<close>

lemma compact_phase_last:
  "compact_phase count limit w d = Inr (w', d') \<Longrightarrow> w \<noteq> [] \<Longrightarrow> w' \<noteq> [] \<and> last w' = last w"
proof (induction count limit w d rule: compact_phase.induct)
  case (1 count limit w d)
  from "1.prems" compact_last [of default_keep_recent w] "1.IH" show ?case
    by (auto simp: compact_phase.simps [of count limit w d] Let_def default_keep_recent_def
        split: sum.splits if_splits)
qed

lemma drop_round_last:
  assumes "2 < length w"
  shows "snd (drop_oldest_round w (remove_index w)) \<noteq> []
    \<and> last (snd (drop_oldest_round w (remove_index w))) = last w"
proof -
  have "remove_index w < length w" using assms remove_index_less [of w] by simp
  then show ?thesis
  proof (cases rule: drop_oldest_roundE)
    case 1
    with assms show ?thesis by auto
  next
    case (2 k)
    then have "drop (remove_index w + k) w \<noteq> []" using remove_index_less [of w] by auto
    with 2(5) show ?thesis by (simp add: last_drop)
  qed
qed

lemma drop_phase_last:
  "drop_phase count limit w d = Inr (w', d') \<Longrightarrow> w \<noteq> [] \<Longrightarrow> w' \<noteq> [] \<and> last w' = last w"
proof (induction count limit w d rule: drop_phase.induct)
  case (1 count limit w d)
  show ?case
  proof (cases "length w \<le> 2")
    case True
    with "1.prems" show ?thesis by (simp add: drop_phase.simps [of count limit w d])
  next
    case False
    obtain k w1 where k: "drop_oldest_round w (remove_index w) = (k, w1)" by fastforce
    with drop_round_last [of w] False have "w1 \<noteq> []" "last w1 = last w" by auto
    with "1.prems" "1.IH" False k show ?thesis
      by (auto simp: drop_phase.simps [of count limit w d] Let_def split: sum.splits if_splits)
  qed
qed

text \<open>
  C35: A warm start always returns, and when it succeeds the conversation it hands on really
  fits: its token count is within the context less the generation reserve, and its last
  message is still the last message of the conversation it was given.
\<close>

theorem warm_start_fits:
  assumes "warm_start count max_tokens ctx_size ms = Inr out" "ms \<noteq> []"
  shows "\<exists>n. count (to_kept out) = Inr n
       \<and> n \<le> ctx_size - generation_reserve ctx_size max_tokens
       \<and> to_kept out \<noteq> [] \<and> last (to_kept out) = last ms"
proof -
  let ?limit = "ctx_size - generation_reserve ctx_size max_tokens"
  from assms(1) obtain w1 d1 w2 d2 n where
    "compact_phase count ?limit ms 0 = Inr (w1, d1)" "drop_phase count ?limit w1 d1 = Inr (w2, d2)"
    "count w2 = Inr n" "\<not> ?limit < n" "to_kept out = w2"
    by (auto simp: warm_start_def Let_def split: sum.splits if_splits)
  with assms(2) compact_phase_last drop_phase_last show ?thesis by (metis not_le)
qed

lemma warm_start_fits_witness:
  "\<exists>out. warm_start per_message None 400 [user_msg ''a'', user_msg ''b'', user_msg ''c'', user_msg ''d''] = Inr out
     \<and> last (to_kept out) = user_msg ''d''"
proof -
  let ?ms = "[user_msg ''a'', user_msg ''b'', user_msg ''c'', user_msg ''d'']"
  have u: "\<forall>t. msg_body (user_msg t) = Content (SingleText t) \<and> msg_role (user_msg t) = ''user''"
    by (simp add: message_constructor_defs)
  have c: "compact_phase per_message 300 ?ms 0 = Inr (?ms, 0)"
    by (subst compact_phase.simps)
      (simp add: per_message_def compact_small default_keep_recent_def)
  have d: "drop_phase per_message 300 ?ms 0 = Inr (tl ?ms, 1)"
    using u by (subst drop_phase.simps)
      (simp add: per_message_def drop_oldest_round_def round_len_def remove_index_def
        first_is_system_def drop_phase.simps)
  have "generation_reserve 400 None = 100"
    by (simp add: generation_reserve_def Let_def clamp_def)
  with c d have "warm_start per_message None 400 ?ms = Inr \<lparr>to_kept = tl ?ms, to_dropped = 1\<rparr>"
    by (simp add: warm_start_def Let_def per_message_def)
  from this warm_start_fits [OF this] show ?thesis by auto
qed

end
