(* ===== verification/Memory.thy ===== *)
theory Memory
  imports Prelude
begin

text \<open>
  Memory policy (\<^verbatim>\<open>src/memory\<close>): machine tiers, budgets, pressure, the snapshot taken at a
  moment and the governor that answers questions about it.  All quantities are megabytes in
  \<^verbatim>\<open>u64\<close>; saturating and checked operations are those of the prelude.
\<close>

datatype machine_tier =
  MobileConstrained | DesktopConstrained | DesktopMainstream | DesktopPower | Workstation

record policy_input =
  total_memory_mb :: nat
  available_memory_mb :: nat
  is_mobile :: bool

record budgets =
  process_soft_limit_mb :: nat
  process_hard_limit_mb :: nat
  search_working_set_mb :: nat
  kg_derived_state_mb :: nat
  ingestion_peak_mb :: nat
  inference_resident_mb :: nat
  multimodal_peak_mb :: nat

definition detect_machine_tier :: "policy_input \<Rightarrow> machine_tier" where
  "detect_machine_tier i =
     (if is_mobile i then MobileConstrained
      else let t = total_memory_mb i in
        if t \<le> 7935 then DesktopConstrained
        else if t \<le> 16127 then DesktopMainstream
        else if t \<le> 32511 then DesktopPower
        else Workstation)"

fun base_budgets_for_tier :: "machine_tier \<Rightarrow> budgets" where
  "base_budgets_for_tier MobileConstrained =
     \<lparr>process_soft_limit_mb = 4608, process_hard_limit_mb = 6144, search_working_set_mb = 200,
      kg_derived_state_mb = 100, ingestion_peak_mb = 400, inference_resident_mb = 4096,
      multimodal_peak_mb = 400\<rparr>"
| "base_budgets_for_tier DesktopConstrained =
     \<lparr>process_soft_limit_mb = 1536, process_hard_limit_mb = 2048, search_working_set_mb = 200,
      kg_derived_state_mb = 100, ingestion_peak_mb = 400, inference_resident_mb = 800,
      multimodal_peak_mb = 400\<rparr>"
| "base_budgets_for_tier DesktopMainstream =
     \<lparr>process_soft_limit_mb = 3072, process_hard_limit_mb = 4096, search_working_set_mb = 400,
      kg_derived_state_mb = 200, ingestion_peak_mb = 800, inference_resident_mb = 2048,
      multimodal_peak_mb = 768\<rparr>"
| "base_budgets_for_tier DesktopPower =
     \<lparr>process_soft_limit_mb = 6144, process_hard_limit_mb = 8192, search_working_set_mb = 800,
      kg_derived_state_mb = 400, ingestion_peak_mb = 1536, inference_resident_mb = 4096,
      multimodal_peak_mb = 1536\<rparr>"
| "base_budgets_for_tier Workstation =
     \<lparr>process_soft_limit_mb = 32768, process_hard_limit_mb = 49152, search_working_set_mb = 1600,
      kg_derived_state_mb = 800, ingestion_peak_mb = 3072, inference_resident_mb = 24576,
      multimodal_peak_mb = 3072\<rparr>"

definition effective_budgets :: "policy_input \<Rightarrow> budgets" where
  "effective_budgets i =
     (let base = base_budgets_for_tier (detect_machine_tier i); avail = available_memory_mb i in
      if avail = 0 then base
      else let soft_cap = avail div 2;
               hard_cap = avail * 3 div 4;
               soft = min (process_soft_limit_mb base) soft_cap;
               hard = max (min (process_hard_limit_mb base) hard_cap) soft in
        if soft < process_soft_limit_mb base \<and> 0 < process_soft_limit_mb base then
          let scale = (\<lambda>v. max (v * soft div process_soft_limit_mb base) 1) in
          \<lparr>process_soft_limit_mb = soft, process_hard_limit_mb = hard,
           search_working_set_mb = scale (search_working_set_mb base),
           kg_derived_state_mb = scale (kg_derived_state_mb base),
           ingestion_peak_mb = scale (ingestion_peak_mb base),
           inference_resident_mb = scale (inference_resident_mb base),
           multimodal_peak_mb = scale (multimodal_peak_mb base)\<rparr>
        else base\<lparr>process_soft_limit_mb := soft, process_hard_limit_mb := hard\<rparr>)"

section \<open>Pressure\<close>

datatype pressure = Normal | Constrained | Severe | Emergency

text \<open>The order the source derives for the levels, least pressure first.\<close>

fun pressure_rank :: "pressure \<Rightarrow> nat" where
  "pressure_rank Normal = 0"
| "pressure_rank Constrained = 1"
| "pressure_rank Severe = 2"
| "pressure_rank Emergency = 3"

instantiation pressure :: linorder
begin

definition less_eq_pressure :: "pressure \<Rightarrow> pressure \<Rightarrow> bool" where
  "less_eq_pressure a b \<longleftrightarrow> pressure_rank a \<le> pressure_rank b"

definition less_pressure :: "pressure \<Rightarrow> pressure \<Rightarrow> bool" where
  "less_pressure a b \<longleftrightarrow> pressure_rank a < pressure_rank b"

instance
proof
  fix a b :: pressure
  assume "a \<le> b" "b \<le> a"
  then show "a = b" by (cases a; cases b) (simp_all add: less_eq_pressure_def)
qed (auto simp: less_eq_pressure_def less_pressure_def)

end

definition classify_pressure :: "nat \<Rightarrow> budgets \<Rightarrow> pressure" where
  "classify_pressure cur b =
     (let soft = process_soft_limit_mb b; hard = process_hard_limit_mb b in
      if hard \<le> cur then Emergency
      else if soft \<le> cur then Severe
      else if soft * 8 \<le> cur * 10 then Constrained
      else Normal)"

section \<open>Snapshot\<close>

record desktop_policy =
  dp_system_reserve_mb :: "nat option"
  dp_max_paging_mb :: nat

record desktop_status =
  ds_system_reserve_mb :: nat
  ds_paging_allowance_mb :: nat
  ds_available_commit_mb :: "nat option"

record snapshot =
  sn_tier :: machine_tier
  sn_budgets :: budgets
  sn_pressure :: pressure
  sn_estimated_process_mb :: nat
  sn_available_memory_mb :: nat
  sn_desktop :: "desktop_status option"

definition desktop_system_reserve_mb :: "nat \<Rightarrow> nat" where
  "desktop_system_reserve_mb total_mb = clamp (total_mb div 16) 512 4096"

definition mobile_budgets :: "policy_input \<Rightarrow> nat \<Rightarrow> budgets" where
  "mobile_budgets i est =
     (let base = base_budgets_for_tier (detect_machine_tier i);
          available = min (available_memory_mb i) (total_memory_mb i - est);
          soft = min (min (sat_add est (available div 2)) (process_soft_limit_mb base))
                   (total_memory_mb i div 2);
          hard = max (min (min (sat_add est (sat_mul available 3 div 4)) (process_hard_limit_mb base))
                   (total_memory_mb i div 4 * 3)) soft
      in (effective_budgets i)\<lparr>process_soft_limit_mb := soft, process_hard_limit_mb := hard\<rparr>)"

definition desktop_reserve :: "policy_input \<Rightarrow> desktop_policy \<Rightarrow> nat" where
  "desktop_reserve i p =
     min (max (case dp_system_reserve_mb p of
                 Some r \<Rightarrow> r | None \<Rightarrow> desktop_system_reserve_mb (total_memory_mb i)) 256)
       (total_memory_mb i)"

definition desktop_paging :: "policy_input \<Rightarrow> nat option \<Rightarrow> desktop_policy \<Rightarrow> nat" where
  "desktop_paging i commit p =
     (if commit \<noteq> None \<and> 256 \<le> available_memory_mb i
      then min (min (dp_max_paging_mb p) (total_memory_mb i div 8)) 2048 else 0)"

definition desktop_budgets ::
  "policy_input \<Rightarrow> nat \<Rightarrow> nat option \<Rightarrow> desktop_policy \<Rightarrow> budgets" where
  "desktop_budgets i est commit p =
     (let reserve = desktop_reserve i p;
          paging = desktop_paging i commit p;
          capacity = sat_add (sat_add est (available_memory_mb i)) paging;
          commit_cap = (case commit of None \<Rightarrow> u64_max | Some c \<Rightarrow> sat_add est (c - reserve));
          process_cap = total_memory_mb i div 4 * 3;
          soft = min (min (capacity - reserve) process_cap) commit_cap;
          hard = max (min (min (capacity - reserve div 2) (total_memory_mb i - reserve div 2))
                   commit_cap) soft
      in (effective_budgets i)\<lparr>process_soft_limit_mb := soft, process_hard_limit_mb := hard,
            inference_resident_mb := soft\<rparr>)"

definition with_desktop_policy ::
  "policy_input \<Rightarrow> nat \<Rightarrow> nat option \<Rightarrow> desktop_policy \<Rightarrow> snapshot" where
  "with_desktop_policy i est commit p =
     (let b = (if is_mobile i then mobile_budgets i est else desktop_budgets i est commit p);
          d = (if is_mobile i then None
               else Some \<lparr>ds_system_reserve_mb = desktop_reserve i p,
                          ds_paging_allowance_mb = desktop_paging i commit p,
                          ds_available_commit_mb = commit\<rparr>)
      in \<lparr>sn_tier = detect_machine_tier i, sn_budgets = b, sn_pressure = classify_pressure est b,
          sn_estimated_process_mb = est, sn_available_memory_mb = available_memory_mb i,
          sn_desktop = d\<rparr>)"

definition snapshot_new :: "policy_input \<Rightarrow> nat \<Rightarrow> snapshot" where
  "snapshot_new i est =
     with_desktop_policy i est None \<lparr>dp_system_reserve_mb = None, dp_max_paging_mb = 0\<rparr>"

section \<open>Governor\<close>

text \<open>The governor wraps a snapshot; it is the snapshot here.\<close>

type_synonym governor = snapshot

record load_conditions =
  lc_projected_process_mb :: "nat option"
  lc_process_allows :: bool
  lc_pressure_allows :: bool

definition load_allows :: "load_conditions \<Rightarrow> bool" where
  "load_allows c \<longleftrightarrow> lc_process_allows c \<and> lc_pressure_allows c"

definition with_inference_budget :: "nat option \<Rightarrow> governor \<Rightarrow> governor" where
  "with_inference_budget budget g =
     (case budget of None \<Rightarrow> g
      | Some mb \<Rightarrow> g\<lparr>sn_budgets := (sn_budgets g)\<lparr>inference_resident_mb := mb\<rparr>\<rparr>)"

definition can_start_import :: "governor \<Rightarrow> bool" where
  "can_start_import g \<longleftrightarrow> sn_pressure g = Normal \<or> sn_pressure g = Constrained"

definition can_start_ocr :: "governor \<Rightarrow> bool" where
  "can_start_ocr g \<longleftrightarrow> sn_pressure g = Normal"

definition can_start_background_rebuild :: "governor \<Rightarrow> bool" where
  "can_start_background_rebuild g \<longleftrightarrow> sn_pressure g = Normal"

definition should_skip_eager_kg :: "governor \<Rightarrow> bool" where
  "should_skip_eager_kg g \<longleftrightarrow> sn_pressure g = Severe \<or> sn_pressure g = Emergency"

definition should_shrink_search_candidates :: "governor \<Rightarrow> bool" where
  "should_shrink_search_candidates g \<longleftrightarrow> Constrained \<le> sn_pressure g"

definition model_load_conditions :: "governor \<Rightarrow> nat \<Rightarrow> load_conditions" where
  "model_load_conditions g extra =
     (let projected = checked_add (sn_estimated_process_mb g) extra in
      \<lparr>lc_projected_process_mb = projected,
       lc_process_allows =
         (case projected of None \<Rightarrow> False | Some v \<Rightarrow> v < process_soft_limit_mb (sn_budgets g)),
       lc_pressure_allows = sn_pressure g < Severe\<rparr>)"

definition can_load_additional_model :: "governor \<Rightarrow> nat \<Rightarrow> bool" where
  "can_load_additional_model g extra = load_allows (model_load_conditions g extra)"

section \<open>Lemmas\<close>

lemma pressure_cases_le:
  "p < Severe \<longleftrightarrow> p = Normal \<or> p = Constrained"
  "Constrained \<le> p \<longleftrightarrow> p \<noteq> Normal"
  "Severe \<le> p \<longleftrightarrow> p = Severe \<or> p = Emergency"
  by (cases p; simp add: less_pressure_def less_eq_pressure_def)+

lemma base_soft_pos: "0 < process_soft_limit_mb (base_budgets_for_tier t)"
  by (cases t) auto

lemma base_soft_le_hard:
  "process_soft_limit_mb (base_budgets_for_tier t) \<le> process_hard_limit_mb (base_budgets_for_tier t)"
  by (cases t) auto

lemma classify_mono_cur: "c \<le> c' \<Longrightarrow> classify_pressure c b \<le> classify_pressure c' b"
  by (auto simp: classify_pressure_def Let_def less_eq_pressure_def)

text \<open>
  Effective budgets respect the machine.  Every effective limit is at most the tier's, the
  soft limit never exceeds the hard one, and when the free memory is known neither passes half
  (soft) or, beyond the soft limit, three quarters (hard) of it; no working-set budget becomes
  zero, and the scaling products stay far inside 64 bits.
\<close>

lemma effective_budgets_bounded:
  "let b = effective_budgets i; base = base_budgets_for_tier (detect_machine_tier i) in
     process_soft_limit_mb b \<le> process_hard_limit_mb b
   \<and> process_soft_limit_mb b \<le> process_soft_limit_mb base
   \<and> process_hard_limit_mb b \<le> process_hard_limit_mb base
   \<and> inference_resident_mb b \<le> inference_resident_mb base \<and> 1 \<le> inference_resident_mb b
   \<and> 1 \<le> search_working_set_mb b \<and> 1 \<le> kg_derived_state_mb b
   \<and> (available_memory_mb i = 0 \<or>
        process_soft_limit_mb b \<le> available_memory_mb i div 2
        \<and> process_hard_limit_mb b \<le> max (available_memory_mb i * 3 div 4) (process_soft_limit_mb b))
   \<and> inference_resident_mb base * process_soft_limit_mb base \<le> u64_max"
proof -
  let ?t = "detect_machine_tier i"
  let ?base = "base_budgets_for_tier ?t"
  have scale: "v * s div d \<le> v" if "s < d" for v s d :: nat
  proof -
    have "v * s div d \<le> v * d div d" using that by (intro div_le_mono mult_le_mono2) simp
    also have "\<dots> = v" using that by simp
    finally show ?thesis .
  qed
  have pos: "1 \<le> inference_resident_mb ?base" "1 \<le> search_working_set_mb ?base"
    "1 \<le> kg_derived_state_mb ?base"
    "inference_resident_mb ?base * process_soft_limit_mb ?base \<le> u64_max"
    by (cases ?t; simp)+
  show ?thesis
    using scale pos base_soft_le_hard [of ?t]
    by (auto simp: effective_budgets_def Let_def min_def max_def)
qed

lemma soft_le_hard_updates:
  "process_soft_limit_mb (b\<lparr>process_soft_limit_mb := x, process_hard_limit_mb := max y x\<rparr>)
     \<le> process_hard_limit_mb (b\<lparr>process_soft_limit_mb := x, process_hard_limit_mb := max y x\<rparr>)"
  "process_soft_limit_mb (b\<lparr>process_soft_limit_mb := x, process_hard_limit_mb := max y x,
       inference_resident_mb := z\<rparr>)
     \<le> process_hard_limit_mb (b\<lparr>process_soft_limit_mb := x, process_hard_limit_mb := max y x,
       inference_resident_mb := z\<rparr>)"
  by simp_all

text \<open>
  Whatever the machine, free memory, paging policy or current footprint, the snapshot's
  soft limit never exceeds its hard limit, so the pressure levels are ordered thresholds: more
  memory in use never lowers the reported pressure, a process at the hard limit is an
  emergency and one below 80% of the soft limit is under no pressure.
\<close>

lemma snapshot_limits_ordered:
  "let b = sn_budgets (with_desktop_policy i est commit p) in
     process_soft_limit_mb b \<le> process_hard_limit_mb b
   \<and> (\<forall>c c'. c \<le> c' \<longrightarrow> classify_pressure c b \<le> classify_pressure c' b)
   \<and> (\<forall>c. classify_pressure c b = Emergency \<longleftrightarrow> process_hard_limit_mb b \<le> c)
   \<and> (\<forall>c. Severe \<le> classify_pressure c b \<longleftrightarrow> process_soft_limit_mb b \<le> c)
   \<and> (\<forall>c. classify_pressure c b = Normal \<longleftrightarrow> 10 * c < 8 * process_soft_limit_mb b)"
proof -
  let ?b = "sn_budgets (with_desktop_policy i est commit p)"
  have "process_soft_limit_mb ?b \<le> process_hard_limit_mb ?b"
    unfolding with_desktop_policy_def mobile_budgets_def desktop_budgets_def Let_def
    by (cases "is_mobile i") (simp_all only: if_True if_False snapshot.simps soft_le_hard_updates)
  then show ?thesis
    using classify_mono_cur
    by (auto simp: Let_def classify_pressure_def less_eq_pressure_def)
qed

lemma snapshot_limits_ordered_witness:
  "classify_pressure 0 (sn_budgets (snapshot_new \<lparr>total_memory_mb = 16000, available_memory_mb = 8000,
      is_mobile = False\<rparr> 100)) \<le> classify_pressure 9000 (sn_budgets (snapshot_new
      \<lparr>total_memory_mb = 16000, available_memory_mb = 8000, is_mobile = False\<rparr> 100))"
  using snapshot_limits_ordered [of "\<lparr>total_memory_mb = 16000, available_memory_mb = 8000,
      is_mobile = False\<rparr>" 100 None "\<lparr>dp_system_reserve_mb = None, dp_max_paging_mb = 0\<rparr>"]
  by (auto simp: Let_def snapshot_new_def)

text \<open>
  A desktop keeps its reserve.  When paging is off the soft limit leaves the system reserve
  untouched: whatever the process may still grow by fits into the memory that is free now less
  the reserve, and the limit stays within three quarters of the machine.
\<close>

lemma desktop_soft_limit_keeps_reserve:
  assumes "\<not> is_mobile i" "est + available_memory_mb i \<le> u64_max"
  shows "process_soft_limit_mb (sn_budgets (with_desktop_policy i est None p)) - est
           \<le> available_memory_mb i - desktop_reserve i p
       \<and> process_soft_limit_mb (sn_budgets (with_desktop_policy i est None p))
           \<le> total_memory_mb i div 4 * 3"
proof -
  define reserve where "reserve = desktop_reserve i p"
  define quarter where "quarter = total_memory_mb i div 4 * 3"
  have "process_soft_limit_mb (sn_budgets (with_desktop_policy i est None p))
      = min (min (est + available_memory_mb i - reserve) quarter) u64_max"
    using assms
    by (simp add: with_desktop_policy_def desktop_budgets_def desktop_paging_def Let_def sat_add_def
        reserve_def quarter_def)
  then show ?thesis unfolding reserve_def [symmetric] quarter_def [symmetric] by linarith
qed

lemma desktop_soft_limit_keeps_reserve_witness:
  "process_soft_limit_mb (sn_budgets (with_desktop_policy \<lparr>total_memory_mb = 16000,
      available_memory_mb = 8000, is_mobile = False\<rparr> 100 None
      \<lparr>dp_system_reserve_mb = Some 1000, dp_max_paging_mb = 0\<rparr>)) - 100 \<le> 7000"
  using desktop_soft_limit_keeps_reserve [of "\<lparr>total_memory_mb = 16000, available_memory_mb = 8000,
      is_mobile = False\<rparr>" 100 "\<lparr>dp_system_reserve_mb = Some 1000, dp_max_paging_mb = 0\<rparr>"]
  by (simp add: desktop_reserve_def)

lemma can_load_additional_model_iff:
  "can_load_additional_model g extra \<longleftrightarrow>
     sn_estimated_process_mb g + extra \<le> u64_max
     \<and> sn_estimated_process_mb g + extra < process_soft_limit_mb (sn_budgets g)
     \<and> (sn_pressure g = Normal \<or> sn_pressure g = Constrained)"
  by (auto simp: can_load_additional_model_def load_allows_def model_load_conditions_def Let_def
      checked_add_def pressure_cases_le)

end
