(* ===== verification/ModelFit.thy ===== *)
theory ModelFit
  imports Prelude
begin

text \<open>
  Will a model fit (\<^verbatim>\<open>src/bundle/gguf.rs\<close>, the sizing half, and \<^verbatim>\<open>src/api/fit.rs\<close>): the
  KV-cache cost of a token, the memory a context needs, the largest context a budget allows and
  the verdict shown to the user.  Two steps of the source go through \<^verbatim>\<open>f64\<close>; they are the
  parameter functions \<open>times_1_2\<close> (1.2 times a size) and, for parameter counts,
  \<open>times_2_67\<close> and \<open>params_of_size\<close>.
\<close>

record model_metadata =
  mm_architecture :: "string option"
  mm_quantization :: "string option"
  mm_file_type :: "nat option"
  mm_parameter_count :: "nat option"
  mm_context_length :: "nat option"
  mm_embedding_length :: "nat option"
  mm_block_count :: "nat option"
  mm_head_count :: "nat option"
  mm_head_count_kv :: "nat option"
  mm_head_count_kv_per_layer :: "nat list option"
  mm_key_length :: "nat option"
  mm_value_length :: "nat option"
  mm_key_length_swa :: "nat option"
  mm_value_length_swa :: "nat option"
  mm_vocab_size :: "nat option"
  mm_feed_forward_length :: "nat option"
  mm_supports_tools :: "bool option"
  mm_expert_count :: "nat option"
  mm_expert_used_count :: "nat option"

definition kv_bytes_with_widths :: "nat \<Rightarrow> nat \<Rightarrow> nat \<Rightarrow> nat \<Rightarrow> nat" where
  "kv_bytes_with_widths layers kv_heads key value =
     sat_mul (sat_mul (sat_mul layers kv_heads) (sat_add key value)) 2"

definition kv_bytes_per_token :: "nat \<Rightarrow> nat \<Rightarrow> nat \<Rightarrow> nat" where
  "kv_bytes_per_token n_layer n_head_kv head_dim =
     max (kv_bytes_with_widths n_layer n_head_kv head_dim head_dim) 1"

definition or_else :: "'a option \<Rightarrow> 'a option \<Rightarrow> 'a option" where
  "or_else a b = (case a of Some x \<Rightarrow> Some x | None \<Rightarrow> b)"

definition derived_width :: "model_metadata \<Rightarrow> nat \<Rightarrow> nat option" where
  "derived_width m heads =
     Option.bind (mm_embedding_length m)
       (\<lambda>width. if heads \<le> width \<and> width mod heads = 0 then Some (width div heads) else None)"

definition model_kv_bytes_per_token :: "model_metadata \<Rightarrow> nat option" where
  "model_kv_bytes_per_token m =
     (if Some 0 \<in> {mm_key_length m, mm_value_length m, mm_key_length_swa m, mm_value_length_swa m}
      then Some u64_max
      else do {
        layers \<leftarrow> mm_block_count m;
        heads \<leftarrow> mm_head_count m;
        if layers = 0 \<or> heads = 0 then None
        else do {
          key \<leftarrow> or_else (mm_key_length m) (derived_width m heads);
          value \<leftarrow> or_else (mm_value_length m) (derived_width m heads);
          let key' = max key (case mm_key_length_swa m of Some k \<Rightarrow> k | None \<Rightarrow> key);
              value' = max value (case mm_value_length_swa m of Some v \<Rightarrow> v | None \<Rightarrow> value) in
          (case mm_head_count_kv_per_layer m of
             Some per_layer \<Rightarrow>
               if length per_layer \<noteq> layers \<or> (\<exists>n \<in> set per_layer. heads < n) then None
               else Some (max (kv_bytes_with_widths 1 (fold (\<lambda>n s. sat_add s n) per_layer 0) key' value') 1)
           | None \<Rightarrow>
               Option.bind (mm_head_count_kv m)
                 (\<lambda>kv. Some (max (kv_bytes_with_widths layers kv key' value') 1)))
        }
      })"

definition runtime_overhead :: nat where
  "runtime_overhead = 500 * 1024 * 1024"

definition fit_context :: "nat \<Rightarrow> nat \<Rightarrow> nat \<Rightarrow> nat \<Rightarrow> nat option \<Rightarrow> nat" where
  "fit_context budget resident kv_per_token train_ctx tier_cap =
     (let remaining = budget - resident - runtime_overhead;
          max_tokens = min (remaining div max kv_per_token 1) u32_max;
          fitted = max (max_tokens div 1024 * 1024) 2048;
          capped = (case tier_cap of None \<Rightarrow> fitted | Some cap \<Rightarrow> min fitted (max cap 2048))
      in min capped (max train_ctx 2048))"

definition estimate_ram_bytes :: "(nat \<Rightarrow> nat) \<Rightarrow> model_metadata \<Rightarrow> nat \<Rightarrow> nat \<Rightarrow> nat" where
  "estimate_ram_bytes times_1_2 m file_size context_size =
     (case model_kv_bytes_per_token m of
        Some per_token \<Rightarrow>
          sat_add (sat_add file_size (sat_mul per_token context_size)) runtime_overhead
      | None \<Rightarrow> sat_add (times_1_2 file_size) runtime_overhead)"

section \<open>Model information\<close>

record model_info =
  mi_file_bytes :: nat
  mi_train_context :: "nat option"
  mi_metadata :: model_metadata

datatype kv_cost = HeaderDerived nat | Assumed nat

definition assumed_kv_bytes_per_token :: nat where
  "assumed_kv_bytes_per_token = 2 * 32 * 8 * 128 * 2"

definition kv_cost_of :: "model_info \<Rightarrow> kv_cost" where
  "kv_cost_of i =
     (case model_kv_bytes_per_token (mi_metadata i) of
        Some b \<Rightarrow> HeaderDerived b | None \<Rightarrow> Assumed assumed_kv_bytes_per_token)"

definition kv_per_token :: "model_info \<Rightarrow> nat" where
  "kv_per_token i = (case kv_cost_of i of HeaderDerived b \<Rightarrow> b | Assumed b \<Rightarrow> b)"

definition memory_needed :: "(nat \<Rightarrow> nat) \<Rightarrow> model_info \<Rightarrow> nat \<Rightarrow> nat" where
  "memory_needed times_1_2 i context =
     (let base = estimate_ram_bytes times_1_2 (mi_metadata i) (mi_file_bytes i) context in
      case kv_cost_of i of
        HeaderDerived _ \<Rightarrow> base
      | Assumed per_token \<Rightarrow> sat_add base (sat_mul per_token context))"

record hardware =
  hw_total_ram_bytes :: nat
  hw_vram_bytes :: nat

definition budget_bytes :: "hardware \<Rightarrow> nat" where
  "budget_bytes hw =
     (if 0 < hw_vram_bytes hw then hw_vram_bytes hw else hw_total_ram_bytes hw) div 4 * 3"

definition max_context_for :: "model_info \<Rightarrow> hardware \<Rightarrow> nat \<Rightarrow> nat" where
  "max_context_for i hw concurrent =
     fit_context (budget_bytes hw) (mi_file_bytes i) (sat_mul (kv_per_token i) (max concurrent 1))
       (case mi_train_context i of Some t \<Rightarrow> t | None \<Rightarrow> 4096) None"

definition max_context :: "model_info \<Rightarrow> hardware \<Rightarrow> nat" where
  "max_context i hw = max_context_for i hw 1"

datatype fit_verdict = Fits | ContextTooLarge | TooLarge

record fit =
  ft_verdict :: fit_verdict
  ft_context :: nat
  ft_max_context :: nat
  ft_needed_bytes :: nat
  ft_available_bytes :: nat
  ft_model_bytes :: nat

definition fits :: "(nat \<Rightarrow> nat) \<Rightarrow> model_info \<Rightarrow> hardware \<Rightarrow> nat option \<Rightarrow> fit" where
  "fits times_1_2 i hw requested =
     (let budget = budget_bytes hw;
          mx = max_context i hw;
          context = (case requested of Some c \<Rightarrow> c | None \<Rightarrow> mx);
          needed = memory_needed times_1_2 i context;
          verdict = (if budget \<le> mi_file_bytes i then TooLarge
                     else if needed \<le> budget then Fits
                     else if budget < memory_needed times_1_2 i mx then TooLarge
                     else ContextTooLarge)
      in \<lparr>ft_verdict = verdict, ft_context = context, ft_max_context = mx,
          ft_needed_bytes = needed, ft_available_bytes = budget, ft_model_bytes = mi_file_bytes i\<rparr>)"

definition fit_ok :: "fit \<Rightarrow> bool" where
  "fit_ok f \<longleftrightarrow> ft_verdict f = Fits"

section \<open>Lemmas\<close>

lemma memory_needed_mono: "c \<le> c' \<Longrightarrow> memory_needed f i c \<le> memory_needed f i c'"
  by (auto simp: memory_needed_def estimate_ram_bytes_def Let_def
      intro!: sat_add_mono sat_mul_mono split: kv_cost.splits option.splits)

lemma fit_context_floor: "2048 \<le> fit_context b r k t c"
  unfolding fit_context_def Let_def
  by (cases c) (simp_all only: option.case min.bounded_iff max.cobounded2)

lemma fit_context_trained: "fit_context b r k t c \<le> max t 2048"
  unfolding fit_context_def Let_def by (rule min.cobounded2)

lemma fit_context_capped: "fit_context b r k t (Some c) \<le> max c 2048"
  unfolding fit_context_def Let_def option.case by (rule min.coboundedI1, rule min.cobounded2)

lemma fit_context_le_fitted:
  "fit_context b r k t cap
     \<le> max (min ((b - r - runtime_overhead) div max k 1) u32_max div 1024 * 1024) 2048"
proof -
  have cap: "(case cap of None \<Rightarrow> x | Some c \<Rightarrow> min x (max c 2048)) \<le> x" for x :: nat
    by (cases cap) simp_all
  show ?thesis unfolding fit_context_def Let_def by (rule min.coboundedI1, rule cap)
qed

lemma fit_context_in_budget:
  assumes "2048 < fit_context b r k t cap"
  shows "r + runtime_overhead + k * fit_context b r k t cap \<le> b"
proof -
  let ?rem = "b - r - runtime_overhead"
  let ?mt = "min (?rem div max k 1) u32_max"
  let ?c = "fit_context b r k t cap"
  have "?c \<le> max (?mt div 1024 * 1024) 2048"
    by (rule fit_context_le_fitted)
  with assms have "?c \<le> ?mt div 1024 * 1024" by simp
  also have "\<dots> \<le> ?mt" by (rule div_times_less_eq_dividend)
  also have "\<dots> \<le> ?rem div max k 1" by simp
  finally have c: "?c \<le> ?rem div max k 1" .
  have "k * ?c \<le> max k 1 * (?rem div max k 1)" using c by (intro mult_le_mono) simp_all
  also have "\<dots> \<le> ?rem" by (simp add: mult.commute div_times_less_eq_dividend)
  finally have "k * ?c \<le> ?rem" .
  moreover have "0 < ?rem"
  proof (rule ccontr)
    assume "\<not> 0 < ?rem"
    with c assms show False by simp
  qed
  ultimately show ?thesis by linarith
qed

text \<open>
  The context chosen by the closed form fits.  It is never below the floor of 2048 nor
  above the larger of the training context and the floor nor above a tier cap that is itself
  above the floor; and whenever it is above the floor, weights, runtime overhead and the
  KV cache of that many tokens together stay within the budget.
\<close>

lemma fit_context_fits:
  "2048 \<le> fit_context b r k t cap
   \<and> fit_context b r k t cap \<le> max t 2048
   \<and> (\<forall>c. cap = Some c \<longrightarrow> fit_context b r k t cap \<le> max c 2048)
   \<and> (2048 < fit_context b r k t cap \<longrightarrow> r + runtime_overhead + k * fit_context b r k t cap \<le> b)"
  using fit_context_in_budget [of b r k t cap]
  by (intro conjI allI impI) (simp_all only: fit_context_floor fit_context_trained fit_context_capped)

lemma fit_context_fits_witness:
  "fit_context (16 * 1024 ^ 3) (4 * 1024 ^ 3) 131072 131072 None = 94208
   \<and> 4 * 1024 ^ 3 + runtime_overhead + 131072 * 94208 \<le> 16 * 1024 ^ 3"
proof -
  have v: "fit_context (16 * 1024 ^ 3) (4 * 1024 ^ 3) 131072 131072 None = 94208"
    by (simp add: fit_context_def runtime_overhead_def)
  from fit_context_fits [of "16 * 1024 ^ 3" "4 * 1024 ^ 3" 131072 131072 None] v
  show ?thesis by simp
qed

text \<open>
  The verdict keeps its word.  \<open>Fits\<close> means the estimate for the asked context is within
  the budget; \<open>ContextTooLarge\<close> means the weights fit, the asked context does not, and the
  maximum it offers instead is smaller and does fit; and a model asked at its own maximum
  context is never told that the context is too large.
\<close>

lemma fit_verdict_sound:
  "let f = fits g i hw req in
     (ft_verdict f = Fits \<longrightarrow> ft_needed_bytes f \<le> ft_available_bytes f \<and> ft_model_bytes f < ft_available_bytes f)
   \<and> (ft_verdict f = ContextTooLarge \<longrightarrow>
        ft_model_bytes f < ft_available_bytes f \<and> ft_available_bytes f < ft_needed_bytes f
        \<and> ft_max_context f < ft_context f
        \<and> memory_needed g i (ft_max_context f) \<le> ft_available_bytes f)
   \<and> (ft_verdict f = TooLarge \<longrightarrow>
        ft_available_bytes f \<le> ft_model_bytes f \<or> ft_available_bytes f < memory_needed g i (ft_max_context f))
   \<and> (req = None \<longrightarrow> ft_verdict f \<noteq> ContextTooLarge)"
proof -
  have "max_context i hw < c"
    if "memory_needed g i (max_context i hw) \<le> b" "\<not> memory_needed g i c \<le> b" for b c
    using that memory_needed_mono [of c "max_context i hw" g i] by (meson le_trans not_le_imp_less)
  then show ?thesis by (auto simp: fits_def Let_def not_less split: option.splits)
qed

definition sample_info :: model_info where
  "sample_info = \<lparr>mi_file_bytes = 4 * 1024 ^ 3, mi_train_context = Some 131072,
     mi_metadata = \<lparr>mm_architecture = Some ''llama'', mm_quantization = None, mm_file_type = None,
       mm_parameter_count = None, mm_context_length = Some 131072, mm_embedding_length = Some 4096,
       mm_block_count = Some 32, mm_head_count = Some 32, mm_head_count_kv = Some 8,
       mm_head_count_kv_per_layer = None, mm_key_length = None, mm_value_length = None,
       mm_key_length_swa = None, mm_value_length_swa = None, mm_vocab_size = None,
       mm_feed_forward_length = None, mm_supports_tools = None, mm_expert_count = None,
       mm_expert_used_count = None\<rparr>\<rparr>"

lemma sample_info_kv: "model_kv_bytes_per_token (mi_metadata sample_info) = Some 131072"
  by (simp add: sample_info_def model_kv_bytes_per_token_def or_else_def derived_width_def
      kv_bytes_with_widths_def sat_mul_def sat_add_def)

lemma fit_verdict_sound_witness:
  "ft_verdict (fits id sample_info \<lparr>hw_total_ram_bytes = 8 * 1024 ^ 3, hw_vram_bytes = 0\<rparr> (Some 131072))
     = ContextTooLarge
   \<and> ft_max_context (fits id sample_info \<lparr>hw_total_ram_bytes = 8 * 1024 ^ 3, hw_vram_bytes = 0\<rparr> (Some 131072))
       < 131072"
proof -
  let ?f = "fits id sample_info \<lparr>hw_total_ram_bytes = 8 * 1024 ^ 3, hw_vram_bytes = 0\<rparr> (Some 131072)"
  let ?hw = "\<lparr>hw_total_ram_bytes = 8 * 1024 ^ 3, hw_vram_bytes = 0\<rparr>"
  have sizes: "mi_file_bytes sample_info = 4294967296" "mi_train_context sample_info = Some 131072"
    by (simp_all add: sample_info_def)
  have budget: "budget_bytes ?hw = 6442450944" by (simp add: budget_bytes_def)
  have mx: "max_context sample_info ?hw = 12288"
    unfolding max_context_def max_context_for_def budget sizes
    by (simp add: kv_per_token_def kv_cost_of_def sample_info_kv sat_mul_def fit_context_def
        runtime_overhead_def)
  have needed: "memory_needed id sample_info 131072 = 21999124480"
    "memory_needed id sample_info 12288 = 6429868032"
    by (simp_all add: memory_needed_def estimate_ram_bytes_def kv_cost_of_def sample_info_kv sizes
        runtime_overhead_def sat_add_def sat_mul_def)
  have "ft_verdict ?f = ContextTooLarge" "ft_context ?f = 131072"
    unfolding fits_def Let_def budget mx sizes option.case needed by simp_all
  with fit_verdict_sound [of id sample_info "\<lparr>hw_total_ram_bytes = 8 * 1024 ^ 3, hw_vram_bytes = 0\<rparr>"
      "Some 131072"]
  show ?thesis by (simp add: Let_def)
qed

text \<open>
  Declared dimensions can only make a model look more expensive: a zero attention width in
  the header costs the maximum and is refused by every budget below the 64-bit maximum.
\<close>

lemma zero_width_never_fits:
  assumes "mm_key_length (mi_metadata i) = Some 0" "budget_bytes hw < u64_max" "0 < c"
  shows "ft_verdict (fits g i hw (Some c)) \<noteq> Fits"
proof -
  have "model_kv_bytes_per_token (mi_metadata i) = Some u64_max"
    using assms(1) by (simp add: model_kv_bytes_per_token_def)
  moreover have "sat_mul u64_max c = u64_max"
    using assms(3) by (cases c) (simp_all add: sat_mul_def)
  ultimately have "memory_needed g i c = u64_max"
    by (simp add: memory_needed_def kv_cost_of_def estimate_ram_bytes_def sat_add_def Let_def)
  with assms(2) show ?thesis by (simp add: fits_def Let_def)
qed

lemma zero_width_never_fits_witness:
  "ft_verdict (fits id (sample_info\<lparr>mi_metadata := (mi_metadata sample_info)\<lparr>mm_key_length := Some 0\<rparr>\<rparr>)
     \<lparr>hw_total_ram_bytes = 1024 ^ 4, hw_vram_bytes = 0\<rparr> (Some 1)) \<noteq> Fits"
  by (rule zero_width_never_fits) (simp_all add: budget_bytes_def)

end
