(* ===== verification/Residency.thy ===== *)
theory Residency
  imports Memory
begin

text \<open>
  Which runtimes are resident (\<^verbatim>\<open>src/residency.rs\<close>, \<^verbatim>\<open>src/residency_stats.rs\<close>): one slot
  per kind, admission against the governor's budgets, eviction of idle helpers and unloading
  under pressure.  Unix seconds are \<^verbatim>\<open>i64\<close>; the timeout is cast from \<^verbatim>\<open>u64\<close> and the cast
  wraps.  \<^verbatim>\<open>Iterator::sum\<close> on \<^verbatim>\<open>u64\<close> wraps in a release build; the wrap is written out.
\<close>

datatype runtime_kind = Llm | Embedder | Reranker | Stt | Tts

record runtime =
  rt_kind :: runtime_kind
  rt_name :: string
  rt_estimated_mb :: nat
  rt_last_used :: int

record inventory =
  inv_llm :: "runtime option"
  inv_embedder :: "runtime option"
  inv_reranker :: "runtime option"
  inv_stt :: "runtime option"
  inv_tts :: "runtime option"

record residency_policy =
  helper_idle_timeout_secs :: nat
  llm_swap_requires_unload :: bool

definition default_residency_policy :: residency_policy where
  "default_residency_policy = \<lparr>helper_idle_timeout_secs = 300, llm_swap_requires_unload = True\<rparr>"

definition empty_inventory :: inventory where
  "empty_inventory = \<lparr>inv_llm = None, inv_embedder = None, inv_reranker = None, inv_stt = None,
     inv_tts = None\<rparr>"

definition loaded :: "inventory \<Rightarrow> runtime list" where
  "loaded v = List.map_filter id [inv_llm v, inv_embedder v, inv_reranker v, inv_stt v, inv_tts v]"

definition total_estimated_mb :: "inventory \<Rightarrow> nat" where
  "total_estimated_mb v = sum_list (map rt_estimated_mb (loaded v)) mod 2 ^ 64"

definition loaded_runtime_count :: "inventory \<Rightarrow> nat" where
  "loaded_runtime_count v = length (loaded v)"

record residency_stats =
  rs_total_estimated_mb :: nat
  rs_loaded_runtime_count :: nat

definition stats_from_inventory :: "inventory \<Rightarrow> residency_stats" where
  "stats_from_inventory v = \<lparr>rs_total_estimated_mb = total_estimated_mb v,
     rs_loaded_runtime_count = loaded_runtime_count v\<rparr>"

fun slot :: "runtime_kind \<Rightarrow> inventory \<Rightarrow> runtime option" where
  "slot Llm v = inv_llm v"
| "slot Embedder v = inv_embedder v"
| "slot Reranker v = inv_reranker v"
| "slot Stt v = inv_stt v"
| "slot Tts v = inv_tts v"

fun set_slot :: "runtime_kind \<Rightarrow> runtime option \<Rightarrow> inventory \<Rightarrow> inventory" where
  "set_slot Llm r v = v\<lparr>inv_llm := r\<rparr>"
| "set_slot Embedder r v = v\<lparr>inv_embedder := r\<rparr>"
| "set_slot Reranker r v = v\<lparr>inv_reranker := r\<rparr>"
| "set_slot Stt r v = v\<lparr>inv_stt := r\<rparr>"
| "set_slot Tts r v = v\<lparr>inv_tts := r\<rparr>"

definition can_admit :: "runtime_kind \<Rightarrow> nat \<Rightarrow> governor \<Rightarrow> inventory \<Rightarrow> bool" where
  "can_admit k extra g v \<longleftrightarrow>
     (if slot k v \<noteq> None then False
      else sat_add (total_estimated_mb v) extra \<le> inference_resident_mb (sn_budgets g)
           \<and> can_load_additional_model g extra)"

definition admit :: "runtime \<Rightarrow> governor \<Rightarrow> inventory \<Rightarrow> inventory \<times> bool" where
  "admit r g v =
     (if \<not> can_admit (rt_kind r) (rt_estimated_mb r) g v then (v, False)
      else (set_slot (rt_kind r) (Some r) v, True))"

definition unload :: "runtime_kind \<Rightarrow> inventory \<Rightarrow> inventory \<times> runtime option" where
  "unload k v = (set_slot k None v, slot k v)"

definition touch :: "runtime_kind \<Rightarrow> int \<Rightarrow> inventory \<Rightarrow> inventory" where
  "touch k now v =
     (case slot k v of None \<Rightarrow> v | Some r \<Rightarrow> set_slot k (Some (r\<lparr>rt_last_used := now\<rparr>)) v)"

definition replace :: "runtime \<Rightarrow> inventory \<Rightarrow> inventory \<times> runtime option" where
  "replace r v = (set_slot (rt_kind r) (Some r) v, slot (rt_kind r) v)"

definition i64_sat_sub :: "int \<Rightarrow> int \<Rightarrow> int" where
  "i64_sat_sub a b = max (- (2 ^ 63)) (min (a - b) (2 ^ 63 - 1))"

definition u64_as_i64 :: "nat \<Rightarrow> int" where
  "u64_as_i64 n = (if n < 2 ^ 63 then int n else int n - 2 ^ 64)"

definition helper_kinds :: "runtime_kind list" where
  "helper_kinds = [Embedder, Reranker, Stt, Tts]"

definition should_evict :: "int \<Rightarrow> residency_policy \<Rightarrow> inventory \<Rightarrow> runtime_kind \<Rightarrow> bool" where
  "should_evict now p v k =
     (case slot k v of None \<Rightarrow> False
      | Some r \<Rightarrow> u64_as_i64 (helper_idle_timeout_secs p) \<le> i64_sat_sub now (rt_last_used r))"

text \<open>Both eviction loops take what their guard selects, in the order of the kinds.\<close>

fun take_while_kinds ::
  "(inventory \<Rightarrow> runtime_kind \<Rightarrow> bool) \<Rightarrow> runtime_kind list \<Rightarrow> inventory \<Rightarrow> inventory \<times> runtime list" where
  "take_while_kinds g [] v = (v, [])"
| "take_while_kinds g (k # ks) v =
     (if g v k then
        (case unload k v of
           (v', None) \<Rightarrow> take_while_kinds g ks v'
         | (v', Some r) \<Rightarrow>
             (let (w, out) = take_while_kinds g ks v' in (w, r # out)))
      else take_while_kinds g ks v)"

definition evict_idle_helpers :: "int \<Rightarrow> residency_policy \<Rightarrow> inventory \<Rightarrow> inventory \<times> runtime list" where
  "evict_idle_helpers now p v = take_while_kinds (should_evict now p) helper_kinds v"

definition unload_for_pressure ::
  "governor \<Rightarrow> runtime_kind option \<Rightarrow> inventory \<Rightarrow> inventory \<times> runtime list" where
  "unload_for_pressure g foreground v =
     (let (v1, out1) =
            (if Constrained \<le> sn_pressure g
             then take_while_kinds (\<lambda>_ k. foreground \<noteq> Some k) helper_kinds v
             else (v, []));
          (v2, out2) =
            (if Severe \<le> sn_pressure g \<and> foreground \<noteq> Some Llm
             then take_while_kinds (\<lambda>_ _. True) [Llm] v1
             else (v1, []))
      in (v2, out1 @ out2))"

section \<open>Slots\<close>

lemma if_option_Some: "(if b then x else None) = Some y \<longleftrightarrow> b \<and> x = Some y"
  by simp

lemma set_map_filter: "set (List.map_filter f xs) = {y. \<exists>x \<in> set xs. f x = Some y}"
  by (force simp: List.map_filter_def)

lemma helper_kinds_distinct: "distinct helper_kinds"
  by (simp add: helper_kinds_def)

lemma slot_set [simp, state_simps]:
  "slot k (set_slot j r v) = (if k = j then r else slot k v)"
  by (cases k; cases j) auto

lemma inventory_eqI: "(\<And>k. slot k v = slot k w) \<Longrightarrow> v = (w :: inventory)"
proof -
  assume a: "\<And>k. slot k v = slot k w"
  from a [of Llm] a [of Embedder] a [of Reranker] a [of Stt] a [of Tts] show "v = w"
    by (cases v; cases w) simp
qed

definition slot_mb :: "inventory \<Rightarrow> runtime_kind \<Rightarrow> nat" where
  "slot_mb v k = (case slot k v of None \<Rightarrow> 0 | Some r \<Rightarrow> rt_estimated_mb r)"

definition exact_total :: "inventory \<Rightarrow> nat" where
  "exact_total v = slot_mb v Llm + slot_mb v Embedder + slot_mb v Reranker + slot_mb v Stt + slot_mb v Tts"

lemma exact_total_sum: "sum_list (map rt_estimated_mb (loaded v)) = exact_total v"
  by (auto simp: exact_total_def slot_mb_def loaded_def List.map_filter_def split: option.splits)

lemma total_estimated_exact: "exact_total v \<le> u64_max \<Longrightarrow> total_estimated_mb v = exact_total v"
  by (simp add: total_estimated_mb_def exact_total_sum)

lemma exact_total_set_slot:
  "exact_total (set_slot k r v) + slot_mb v k =
     exact_total v + (case r of None \<Rightarrow> 0 | Some x \<Rightarrow> rt_estimated_mb x)"
  by (cases k) (auto simp: exact_total_def slot_mb_def split: option.splits)

definition well_slotted :: "inventory \<Rightarrow> bool" where
  "well_slotted v \<longleftrightarrow> (\<forall>k r. slot k v = Some r \<longrightarrow> rt_kind r = k)"

lemma well_slotted_set:
  "well_slotted v \<Longrightarrow> (\<And>x. r = Some x \<Longrightarrow> rt_kind x = k) \<Longrightarrow> well_slotted (set_slot k r v)"
  by (simp add: well_slotted_def)

section \<open>Eviction loops\<close>

text \<open>Where a guard looks only at the slot it is asked about, the loop is a per-slot filter.\<close>

lemma take_kinds_spec:
  assumes "\<And>v w k. slot k v = slot k w \<Longrightarrow> g v k = g w k" "distinct ks"
  shows "slot k (fst (take_while_kinds g ks v)) = (if k \<in> set ks \<and> g v k then None else slot k v)
    \<and> snd (take_while_kinds g ks v) = List.map_filter (\<lambda>k. if g v k then slot k v else None) ks"
  using assms(2)
proof (induction ks arbitrary: v)
  case Nil
  then show ?case by (simp add: List.map_filter_def)
next
  case (Cons j ks)
  have same: "g (set_slot j None v) i = g v i" if "i \<in> set ks" for i
    using that Cons.prems by (intro assms(1)) auto
  have rest: "List.map_filter (\<lambda>k. if g (set_slot j None v) k then slot k (set_slot j None v) else None) ks
      = List.map_filter (\<lambda>k. if g v k then slot k v else None) ks"
    using same Cons.prems by (auto simp: List.map_filter_def intro!: map_cong filter_cong)
  note ih = Cons.IH [of v] Cons.IH [of "set_slot j None v"]
  show ?case
    using Cons.prems ih same [of k] rest
    by (auto simp: unload_def split_beta map_filter_simps split: option.splits)
qed

lemma take_kinds_total: "exact_total (fst (take_while_kinds g ks v)) \<le> exact_total v"
proof (induction ks arbitrary: v)
  case (Cons j ks)
  have "exact_total (set_slot j None v) \<le> exact_total v"
    using exact_total_set_slot [of j None v] by simp
  then show ?case
    using Cons.IH [of v] Cons.IH [of "set_slot j None v"]
    by (auto simp: unload_def split_beta split: option.splits intro: order_trans)
qed simp

lemma take_kinds_slotted: "well_slotted v \<Longrightarrow> well_slotted (fst (take_while_kinds g ks v))"
proof (induction ks arbitrary: v)
  case (Cons j ks)
  have "well_slotted (set_slot j None v)" using Cons.prems by (intro well_slotted_set) auto
  then show ?case
    using Cons.IH [of v] Cons.IH [of "set_slot j None v"] Cons.prems
    by (auto simp: unload_def split_beta split: option.splits)
qed simp

lemma should_evict_local: "slot k v = slot k w \<Longrightarrow> should_evict now p v k = should_evict now p w k"
  by (simp add: should_evict_def)

section \<open>The admission contract\<close>

text \<open>
  A component that hands out a budget: a refusal never raises the use, a grant leaves it within
  every cap that the environment's limits respect, giving memory back never raises it, and each
  of them keeps the component well formed.  \<open>bounded\<close> are the caps for which its counters are
  exact.
\<close>

locale admission_control =
  fixes valid :: "'s \<Rightarrow> bool" and used :: "'s \<Rightarrow> nat" and request :: "'r \<Rightarrow> 'g \<Rightarrow> 's \<Rightarrow> 's \<times> bool"
    and within :: "'g \<Rightarrow> nat \<Rightarrow> bool" and release :: "'e \<Rightarrow> 's \<Rightarrow> 's" and bounded :: "nat \<Rightarrow> bool"
  assumes refused: "valid s \<Longrightarrow> used s \<le> cap \<Longrightarrow> bounded cap \<Longrightarrow> within g cap
      \<Longrightarrow> request r g s = (s', False) \<Longrightarrow> valid s' \<and> used s' \<le> used s"
    and granted: "valid s \<Longrightarrow> used s \<le> cap \<Longrightarrow> bounded cap \<Longrightarrow> within g cap
      \<Longrightarrow> request r g s = (s', True) \<Longrightarrow> valid s' \<and> used s' \<le> cap"
    and released: "valid s \<Longrightarrow> used s \<le> cap \<Longrightarrow> bounded cap
      \<Longrightarrow> valid (release e s) \<and> used (release e s) \<le> used s"
begin

inductive reaches :: "nat \<Rightarrow> 's \<Rightarrow> 's \<Rightarrow> bool" for cap where
  reaches_refl: "reaches cap s s"
| reaches_request: "reaches cap s t \<Longrightarrow> within g cap \<Longrightarrow> reaches cap s (fst (request r g t))"
| reaches_release: "reaches cap s t \<Longrightarrow> reaches cap s (release e t)"

lemma stays_within:
  assumes "reaches cap s t" "valid s" "used s \<le> cap" "bounded cap"
  shows "valid t \<and> used t \<le> cap"
  using assms
proof (induction rule: reaches.induct)
  case (reaches_request s t g r)
  then have t: "valid t" "used t \<le> cap" by simp_all
  obtain t' ok where eq: "request r g t = (t', ok)" by fastforce
  with granted [of t cap g r t'] refused [of t cap g r t'] reaches_request t show ?case
    by (cases ok) auto
next
  case (reaches_release s t e)
  then show ?case using released [of t cap e] by (simp add: order_trans)
qed simp

end

datatype residency_event =
    Unload runtime_kind
  | Touch runtime_kind int
  | EvictIdle int residency_policy
  | UnloadForPressure governor "runtime_kind option"

fun residency_step :: "residency_event \<Rightarrow> inventory \<Rightarrow> inventory" where
  "residency_step (Unload k) v = fst (unload k v)"
| "residency_step (Touch k now) v = touch k now v"
| "residency_step (EvictIdle now p) v = fst (evict_idle_helpers now p v)"
| "residency_step (UnloadForPressure g f) v = fst (unload_for_pressure g f v)"

lemma admit_total:
  assumes "exact_total v < u64_max" "inference_resident_mb (sn_budgets g) < u64_max"
    "admit r g v = (v', True)"
  shows "exact_total v' \<le> inference_resident_mb (sn_budgets g)"
proof -
  from assms(3) have v': "v' = set_slot (rt_kind r) (Some r) v" and free: "slot (rt_kind r) v = None"
    and fit: "sat_add (total_estimated_mb v) (rt_estimated_mb r) \<le> inference_resident_mb (sn_budgets g)"
    by (auto simp: admit_def can_admit_def split: if_splits)
  have "exact_total v' = exact_total v + rt_estimated_mb r"
    using exact_total_set_slot [of "rt_kind r" "Some r" v] free v' by (simp add: slot_mb_def)
  with fit total_estimated_exact [of v] assms(1,2) show ?thesis by (simp add: sat_add_def)
qed

lemma unload_for_pressure_total: "exact_total (fst (unload_for_pressure g f v)) \<le> exact_total v"
  using take_kinds_total [of "\<lambda>_ k. f \<noteq> Some k" helper_kinds v]
    take_kinds_total [of "\<lambda>_ _. True" "[Llm]" v]
    take_kinds_total [of "\<lambda>_ _. True" "[Llm]" "fst (take_while_kinds (\<lambda>_ k. f \<noteq> Some k) helper_kinds v)"]
  by (auto simp: unload_for_pressure_def split_beta Let_def simp del: take_while_kinds.simps
      intro: order_trans)

lemma residency_step_total: "exact_total (residency_step e v) \<le> exact_total v"
proof (cases e)
  case (Unload k)
  then show ?thesis using exact_total_set_slot [of k None v] by (simp add: unload_def)
next
  case (Touch k now)
  show ?thesis
  proof (cases "slot k v")
    case (Some r)
    then show ?thesis
      using exact_total_set_slot [of k "Some (r\<lparr>rt_last_used := now\<rparr>)" v] Touch
      by (simp add: touch_def slot_mb_def)
  qed (simp add: Touch touch_def)
qed (simp_all add: evict_idle_helpers_def take_kinds_total unload_for_pressure_total)

lemma admit_slotted: "well_slotted v \<Longrightarrow> well_slotted (fst (admit r g v))"
  by (auto simp: admit_def intro: well_slotted_set)

lemma residency_step_slotted: "well_slotted v \<Longrightarrow> well_slotted (residency_step e v)"
proof (cases e)
  case (Touch k now)
  assume "well_slotted v"
  then show ?thesis using Touch
    by (auto simp: touch_def intro!: well_slotted_set split: option.splits) (simp add: well_slotted_def)
qed (auto simp: unload_def evict_idle_helpers_def unload_for_pressure_def split_beta Let_def
    simp del: take_while_kinds.simps set_slot.simps intro: well_slotted_set take_kinds_slotted)

interpretation residency: admission_control well_slotted exact_total admit
  "\<lambda>g cap. inference_resident_mb (sn_budgets g) \<le> cap" residency_step "\<lambda>n. n < u64_max"
proof (unfold_locales, goal_cases)
  case (1 s cap g r s')
  then show ?case by (simp add: admit_def split: if_splits)
next
  case (2 s cap g r s')
  then have "exact_total s' \<le> inference_resident_mb (sn_budgets g)"
    by (intro admit_total [of s g r s']) simp_all
  with 2 admit_slotted [of s r g] show ?case by simp
next
  case (3 s cap e)
  then show ?case by (simp add: residency_step_total residency_step_slotted)
qed

text \<open>
  A history of the inventory with the account of what was allowed so far: every operation of
  \<^verbatim>\<open>ResidencyInventory\<close>, each admission under the governor of its moment.  A granted
  admission sets the account to the inference budget it was granted under; \<open>replace\<close> checks
  nothing and adds its runtime's size; everything else leaves the account alone.
\<close>

abbreviation inference_budget :: "governor \<Rightarrow> nat" where
  "inference_budget g \<equiv> inference_resident_mb (sn_budgets g)"

inductive residency_history :: "inventory \<Rightarrow> nat \<Rightarrow> bool" where
  history_empty: "residency_history empty_inventory 0"
| history_granted: "residency_history v allowed \<Longrightarrow> admit r g v = (v', True)
    \<Longrightarrow> inference_budget g < u64_max \<Longrightarrow> residency_history v' (inference_budget g)"
| history_refused: "residency_history v allowed \<Longrightarrow> admit r g v = (v', False)
    \<Longrightarrow> residency_history v' allowed"
| history_replace: "residency_history v allowed \<Longrightarrow> allowed + rt_estimated_mb r < u64_max
    \<Longrightarrow> residency_history (fst (replace r v)) (allowed + rt_estimated_mb r)"
| history_step: "residency_history v allowed \<Longrightarrow> residency_history (residency_step e v) allowed"

lemma replace_total: "exact_total (fst (replace r v)) \<le> exact_total v + rt_estimated_mb r"
  using exact_total_set_slot [of "rt_kind r" "Some r" v] by (simp add: replace_def)

lemma history_invariant:
  "residency_history v allowed
     \<Longrightarrow> allowed < u64_max \<and> well_slotted v \<and> exact_total v \<le> allowed"
proof (induction rule: residency_history.induct)
  case history_empty
  have "slot k empty_inventory = None" for k by (cases k) (simp_all add: empty_inventory_def)
  then show ?case
    by (simp add: well_slotted_def exact_total_def slot_mb_def empty_inventory_def)
next
  case (history_granted v allowed r g v')
  then show ?case using admit_total [of v g r v'] admit_slotted [of v r g] by simp
next
  case (history_refused v allowed r g v')
  then show ?case by (simp add: admit_def split: if_splits)
next
  case (history_replace v allowed r)
  then show ?case
    using replace_total [of r v] by (auto simp: replace_def intro: well_slotted_set)
next
  case (history_step v allowed e)
  then show ?case using residency.released [of v allowed e] by simp
qed

lemma admit_granted_iff:
  assumes "exact_total v < u64_max" "inference_budget g < u64_max"
  shows "snd (admit r g v) \<longleftrightarrow> slot (rt_kind r) v = None
     \<and> exact_total v + rt_estimated_mb r \<le> inference_budget g
     \<and> can_load_additional_model g (rt_estimated_mb r)"
  using assms total_estimated_exact [of v] by (auto simp: admit_def can_admit_def sat_add_def)

text \<open>
  C34: Admission is the budget.  Whatever sequence of admissions, replacements, unloads,
  touches, idle evictions and pressure unloads an inventory goes through, the estimated memory
  of the resident runtimes is at most the inference budget under which the last admission was
  granted, plus what \<open>replace\<close>, which checks no budget, has put in since.  The reported 64-bit
  total is exact (the sum never wraps), every slot holds a runtime of its own kind, and the next
  admission is granted exactly if its slot is free, the sum with it is within the budget of the
  governor at hand, and that governor lets the model be loaded.  The bounds on 64 bits are on
  the account: budgets, and the account with a replacement, stay below the largest \<^verbatim>\<open>u64\<close>.
\<close>

theorem residency_within_budget:
  assumes "residency_history v allowed" "inference_budget g < u64_max"
  shows "total_estimated_mb v \<le> allowed \<and> total_estimated_mb v = exact_total v \<and> well_slotted v
     \<and> (snd (admit r g v) \<longleftrightarrow> slot (rt_kind r) v = None
          \<and> exact_total v + rt_estimated_mb r \<le> inference_budget g
          \<and> can_load_additional_model g (rt_estimated_mb r))"
proof -
  have v: "allowed < u64_max" "well_slotted v" "exact_total v \<le> allowed"
    using history_invariant [OF assms(1)] by auto
  with admit_granted_iff [OF _ assms(2), of v r] total_estimated_exact [of v] show ?thesis by simp
qed

definition sample_governor :: "pressure \<Rightarrow> governor" where
  "sample_governor p = \<lparr>sn_tier = DesktopMainstream,
     sn_budgets = base_budgets_for_tier DesktopMainstream, sn_pressure = p,
     sn_estimated_process_mb = 200, sn_available_memory_mb = 8000, sn_desktop = None\<rparr>"

definition sample_runtime :: "runtime_kind \<Rightarrow> nat \<Rightarrow> int \<Rightarrow> runtime" where
  "sample_runtime k mb t = \<lparr>rt_kind = k, rt_name = ''r'', rt_estimated_mb = mb, rt_last_used = t\<rparr>"

definition sample_resident :: inventory where
  "sample_resident =
     fst (admit (sample_runtime Llm 1500 5) (sample_governor Normal) empty_inventory)"

lemma residency_within_budget_witness:
  "total_estimated_mb (residency_step (EvictIdle 9 default_residency_policy)
       (fst (replace (sample_runtime Stt 500 6) sample_resident))) = 2000
   \<and> (2000::nat) \<le> 2048 + 500
   \<and> \<not> snd (admit (sample_runtime Tts 100 7) (sample_governor Normal)
         (residency_step (EvictIdle 9 default_residency_policy)
            (fst (replace (sample_runtime Stt 500 6) sample_resident))))"
proof -
  have b: "inference_budget (sample_governor Normal) = 2048" by (simp add: sample_governor_def)
  have adm: "admit (sample_runtime Llm 1500 5) (sample_governor Normal) empty_inventory
      = (sample_resident, True)"
    by (simp add: sample_resident_def admit_def can_admit_def empty_inventory_def sample_runtime_def
        sample_governor_def total_estimated_mb_def loaded_def List.map_filter_def
        can_load_additional_model_iff sat_add_def)
  have "residency_history sample_resident 2048"
    using history_granted [OF history_empty adm] b by simp
  from history_replace [OF this, of "sample_runtime Stt 500 6"]
  have "residency_history (fst (replace (sample_runtime Stt 500 6) sample_resident)) (2048 + 500)"
    by (simp add: sample_runtime_def)
  from history_step [OF this]
  have h: "residency_history (residency_step (EvictIdle 9 default_residency_policy)
      (fst (replace (sample_runtime Stt 500 6) sample_resident))) (2048 + 500)" .
  have t: "exact_total (residency_step (EvictIdle 9 default_residency_policy)
      (fst (replace (sample_runtime Stt 500 6) sample_resident))) = 2000"
    by (simp add: sample_resident_def admit_def can_admit_def empty_inventory_def
        sample_runtime_def sample_governor_def total_estimated_mb_def loaded_def List.map_filter_def
        can_load_additional_model_iff sat_add_def replace_def evict_idle_helpers_def
        helper_kinds_def should_evict_def default_residency_policy_def u64_as_i64_def
        i64_sat_sub_def exact_total_def slot_mb_def)
  from residency_within_budget [OF h, of "sample_governor Normal" "sample_runtime Tts 100 7"] t b
  show ?thesis by (simp add: sample_runtime_def)
qed

text \<open>
  Unloading under pressure.  Under no pressure nothing is unloaded; under pressure every
  helper slot except the active foreground one is emptied; the language model goes only at
  severe or emergency pressure and only when it is not in the foreground.  The foreground
  runtime always stays, and the list returned is exactly what left the inventory.
\<close>

lemma unload_for_pressure_exact:
  "slot k (fst (unload_for_pressure g f v)) =
     (if f = Some k then slot k v
      else if k = Llm then (if Severe \<le> sn_pressure g then None else slot k v)
      else (if Constrained \<le> sn_pressure g then None else slot k v))
   \<and> set (snd (unload_for_pressure g f v)) =
       {r. \<exists>j. slot j v = Some r \<and> slot j (fst (unload_for_pressure g f v)) = None}"
proof -
  define A where "A = take_while_kinds (\<lambda>_ k. f \<noteq> Some k) helper_kinds"
  define B where "B = take_while_kinds (\<lambda>_ _. True) [Llm]"
  have A: "slot k (fst (A v)) = (if k \<in> set helper_kinds \<and> f \<noteq> Some k then None else slot k v)"
    "r \<in> set (snd (A v)) \<longleftrightarrow> (\<exists>k \<in> set helper_kinds. f \<noteq> Some k \<and> slot k v = Some r)" for k v r
    using take_kinds_spec [of "\<lambda>_ k. f \<noteq> Some k" helper_kinds k v]
    by (simp_all add: A_def helper_kinds_distinct set_map_filter if_option_Some)
  have B: "slot k (fst (B v)) = (if k = Llm then None else slot k v)"
    "r \<in> set (snd (B v)) \<longleftrightarrow> slot Llm v = Some r" for k v r
    using take_kinds_spec [of "\<lambda>_ _. True" "[Llm]" k v]
    by (cases "slot Llm v") (auto simp: B_def map_filter_simps unload_def split: option.splits)
  have def: "unload_for_pressure g f v =
      (let (v1, out1) = (if Constrained \<le> sn_pressure g then A v else (v, []));
           (v2, out2) = (if Severe \<le> sn_pressure g \<and> f \<noteq> Some Llm then B v1 else (v1, []))
       in (v2, out1 @ out2))"
    by (simp only: unload_for_pressure_def A_def B_def)
  have order: "Severe \<le> sn_pressure g \<Longrightarrow> Constrained \<le> sn_pressure g"
    by (cases "sn_pressure g") (simp_all add: less_eq_pressure_def)
  have helpers: "j \<in> set helper_kinds \<longleftrightarrow> j \<noteq> Llm" for j by (cases j) (simp_all add: helper_kinds_def)
  have slots: "slot j (fst (unload_for_pressure g f v)) =
     (if f = Some j then slot j v
      else if j = Llm then (if Severe \<le> sn_pressure g then None else slot j v)
      else (if Constrained \<le> sn_pressure g then None else slot j v))" for j
    using order by (auto simp: def split_beta Let_def A B helpers simp del: slot.simps)
  have out: "r \<in> set (snd (unload_for_pressure g f v)) \<longleftrightarrow>
      (Constrained \<le> sn_pressure g \<and> (\<exists>k \<in> set helper_kinds. f \<noteq> Some k \<and> slot k v = Some r))
      \<or> (Severe \<le> sn_pressure g \<and> f \<noteq> Some Llm \<and> slot Llm v = Some r)" for r
    unfolding def using order
    by (cases "Constrained \<le> sn_pressure g"; cases "Severe \<le> sn_pressure g"; cases "f = Some Llm")
      (simp_all add: split_beta Let_def A B set_map_filter helpers if_option_Some del: slot.simps)
  have left: "slot j v = Some r \<and> slot j (fst (unload_for_pressure g f v)) = None \<longleftrightarrow>
      slot j v = Some r \<and> f \<noteq> Some j
        \<and> (if j = Llm then Severe \<le> sn_pressure g else Constrained \<le> sn_pressure g)" for j r
    by (simp only: slots) simp
  have split: "(\<exists>j. P j \<and> Q j \<and> (if j = Llm then S else C)) \<longleftrightarrow>
      (C \<and> (\<exists>j. j \<noteq> Llm \<and> Q j \<and> P j)) \<or> (S \<and> Q Llm \<and> P Llm)" for P Q and S C :: bool
    by (auto split: if_splits)
  have "set (snd (unload_for_pressure g f v)) =
      {r. \<exists>j. slot j v = Some r \<and> f \<noteq> Some j
             \<and> (if j = Llm then Severe \<le> sn_pressure g else Constrained \<le> sn_pressure g)}"
    by (rule set_eqI) (simp only: out mem_Collect_eq split Bex_def helpers)
  then show ?thesis unfolding left using slots [of k] by (intro conjI)
qed

lemma unload_for_pressure_exact_witness:
  "slot Llm (fst (unload_for_pressure (sample_governor Severe) (Some Llm)
     (set_slot Llm (Some (sample_runtime Llm 2000 5)) empty_inventory))) = Some (sample_runtime Llm 2000 5)"
  using unload_for_pressure_exact [of Llm "sample_governor Severe" "Some Llm"
      "set_slot Llm (Some (sample_runtime Llm 2000 5)) empty_inventory"]
  by (simp add: sample_governor_def less_eq_pressure_def empty_inventory_def)

text \<open>
  Idle eviction.  A helper leaves exactly when it has been unused for the policy's timeout;
  the language model is never touched, and eviction is idempotent at one instant.
\<close>

lemma evict_idle_helpers_exact:
  "slot k (fst (evict_idle_helpers now p v)) =
     (if k \<noteq> Llm \<and> should_evict now p v k then None else slot k v)
   \<and> snd (evict_idle_helpers now p (fst (evict_idle_helpers now p v))) = []"
proof -
  let ?E = "\<lambda>v. take_while_kinds (should_evict now p) helper_kinds v"
  have helpers: "j \<in> set helper_kinds \<longleftrightarrow> j \<noteq> Llm" for j by (cases j) (simp_all add: helper_kinds_def)
  have E: "slot k (fst (?E v)) = (if k \<in> set helper_kinds \<and> should_evict now p v k then None else slot k v)"
    "snd (?E v) = List.map_filter (\<lambda>k. if should_evict now p v k then slot k v else None) helper_kinds" for k v
    using take_kinds_spec [of "should_evict now p" helper_kinds k v] should_evict_local
    by (metis helper_kinds_distinct)+
  have gone: "\<not> should_evict now p (fst (?E v)) j" if "j \<in> set helper_kinds" for j
  proof (cases "should_evict now p v j")
    case True
    with that E(1) [of j v] show ?thesis by (simp add: should_evict_def)
  next
    case False
    with E(1) [of j v] show ?thesis by (simp add: should_evict_def)
  qed
  have "snd (?E (fst (?E v))) = []"
    unfolding E(2) using gone by (auto simp: List.map_filter_def filter_empty_conv)
  with E(1) helpers show ?thesis by (simp add: evict_idle_helpers_def)
qed

end
