(* ===== verification/MemoryPlan.thy ===== *)
theory MemoryPlan
  imports Residency ModelFit
begin

text \<open>
  Memory plans for GGUF models (\<^verbatim>\<open>src/residency_policy.rs\<close>), the budget the controller and the
  runtime plan against (\<^verbatim>\<open>src/controller/commands.rs\<close>) and the runtime's admission ledger
  (\<^verbatim>\<open>src/api/runtime/admission.rs\<close>).  The file system is the record \<open>fs\<close> of the questions
  the source asks it; reading a model's header is the function \<open>read_info\<close>.
\<close>

definition default_context_budget_for_tier :: "machine_tier \<Rightarrow> nat" where
  "default_context_budget_for_tier t =
     (case t of MobileConstrained \<Rightarrow> 4096 | DesktopConstrained \<Rightarrow> 8192 | DesktopMainstream \<Rightarrow> 16384
      | DesktopPower \<Rightarrow> 24576 | Workstation \<Rightarrow> 32768)"

definition sat_mul32 :: "nat \<Rightarrow> nat \<Rightarrow> nat" where
  "sat_mul32 a b = min (a * b) u32_max"

definition effective_context_budget :: "machine_tier \<Rightarrow> pressure \<Rightarrow> bool \<Rightarrow> nat" where
  "effective_context_budget t p multimodal =
     (let m0 = default_context_budget_for_tier t;
          m1 = (case p of Normal \<Rightarrow> m0
                | Constrained \<Rightarrow> sat_mul32 m0 3 div 4
                | Severe \<Rightarrow> sat_mul32 m0 1 div 2
                | Emergency \<Rightarrow> sat_mul32 m0 1 div 2);
          m2 = (if multimodal then sat_mul32 m1 3 div 4 else m1)
      in max m2 2048)"

record memory_plan =
  mp_weights_mb :: nat
  mp_context_mb :: nat
  mp_working_mb :: nat
  mp_total_mb :: nat
  mp_context_tokens :: nat
  mp_concurrent_sessions :: nat
  mp_context_reduced :: bool
  mp_admission_budget_mb :: nat

definition mib :: nat where
  "mib = 1024 * 1024"

definition div_ceil :: "nat \<Rightarrow> nat \<Rightarrow> nat" where
  "div_ceil a b = (if a mod b = 0 then a div b else a div b + 1)"

definition plan_estimate ::
  "(nat \<Rightarrow> nat) \<Rightarrow> model_info \<Rightarrow> nat \<Rightarrow> nat \<Rightarrow> nat \<Rightarrow> bool \<Rightarrow> memory_plan" where
  "plan_estimate f i weights context concurrent vision =
     (let fixed = memory_needed f i 0;
          working = sat_add (max (div_ceil (fixed - mi_file_bytes i) mib) 500)
                      (if vision then 1024 else 0);
          ctx = div_ceil (sat_mul (memory_needed f i context - fixed) (max concurrent 1)) mib
      in \<lparr>mp_weights_mb = weights, mp_context_mb = ctx, mp_working_mb = working,
          mp_total_mb = sat_add (sat_add weights ctx) working, mp_context_tokens = context,
          mp_concurrent_sessions = max concurrent 1, mp_context_reduced = False,
          mp_admission_budget_mb = 0\<rparr>)"

function candidate_loop ::
  "(nat \<Rightarrow> memory_plan) \<Rightarrow> nat \<Rightarrow> bool \<Rightarrow> nat \<Rightarrow> nat \<Rightarrow> memory_plan" where
  "candidate_loop est initial fixed_context budget context =
     (let plan = (est context)\<lparr>mp_context_reduced := context < initial,
                               mp_admission_budget_mb := budget\<rparr>
      in if mp_total_mb plan \<le> budget \<or> fixed_context \<or> context \<le> 2048 then plan
         else candidate_loop est initial fixed_context budget (max (context div 2) 2048))"
  by pat_completeness auto
termination
  by (relation "measure (\<lambda>(_, _, _, _, context). context)") auto

declare candidate_loop.simps [simp del]

definition initial_context :: "model_info \<Rightarrow> nat option \<Rightarrow> nat" where
  "initial_context i requested =
     (case requested of Some c \<Rightarrow> c
      | None \<Rightarrow> min 4096 (case mi_train_context i of Some t \<Rightarrow> t | None \<Rightarrow> 4096))"

definition plan_candidate ::
  "(nat \<Rightarrow> nat) \<Rightarrow> model_info \<Rightarrow> nat \<Rightarrow> nat option \<Rightarrow> nat \<Rightarrow> nat \<Rightarrow> bool \<Rightarrow> memory_plan" where
  "plan_candidate f i weights requested concurrent budget vision =
     (let initial = initial_context i requested in
      candidate_loop (\<lambda>context. plan_estimate f i weights context concurrent vision)
        initial (requested \<noteq> None) budget initial)"

datatype plan_error = AdmissionDenied memory_plan | InvalidGeometry string | DraftUnreadable string

definition plan_select ::
  "(nat \<Rightarrow> nat) \<Rightarrow> model_info \<Rightarrow> nat \<Rightarrow> nat option \<Rightarrow> nat \<Rightarrow> nat \<Rightarrow> bool \<Rightarrow> plan_error + memory_plan" where
  "plan_select f i weights requested concurrent budget vision =
     (let plan = plan_candidate f i weights requested concurrent budget vision in
      if mp_total_mb plan \<le> budget then Inr plan else Inl (AdmissionDenied plan))"

section \<open>Host memory of a file\<close>

datatype gpu_backend = Metal | Cuda | Vulkan | CpuOnly

definition resident_mb_from_file_mb :: "nat \<Rightarrow> gpu_backend \<Rightarrow> nat option \<Rightarrow> nat" where
  "resident_mb_from_file_mb file_mb backend gpu_layers =
     (if backend = CpuOnly then max file_mb 256
      else let est_layers = clamp ((file_mb div 100) mod 2 ^ 32) 12 80;
               offloaded = (case gpu_layers of None \<Rightarrow> est_layers | Some n \<Rightarrow> min n est_layers)
           in if offloaded = 0 then max file_mb 256
              else let resident_layers = est_layers - offloaded;
                       resident = sat_mul file_mb resident_layers div max est_layers 1
                   in max (sat_add resident 384) 256)"

text \<open>
  What a directory listing yields: a directory (its children, or unreadable), or anything else,
  of which only what resolves to a regular file counts.
\<close>

datatype fs_entry = SubDirectory "fs_entry list option" | ResolvesToFile nat | OtherEntry

fun bundle_bytes :: "fs_entry list option \<Rightarrow> nat" and entry_bytes :: "fs_entry \<Rightarrow> nat" where
  "bundle_bytes None = 0"
| "bundle_bytes (Some es) = fold (\<lambda>e bytes. sat_add bytes e) (map entry_bytes es) 0"
| "entry_bytes (SubDirectory es) = bundle_bytes es"
| "entry_bytes (ResolvesToFile n) = n"
| "entry_bytes OtherEntry = 0"

record 'p fs =
  fs_is_dir :: "'p \<Rightarrow> bool"
  fs_parent :: "'p \<Rightarrow> 'p option"
  fs_has_genai_config :: "'p \<Rightarrow> bool"
  fs_listing :: "'p \<Rightarrow> fs_entry list option"
  fs_metadata_len :: "'p \<Rightarrow> nat option"

definition onnx_bundle_directory :: "'p fs \<Rightarrow> 'p \<Rightarrow> 'p option" where
  "onnx_bundle_directory w path = do {
     directory \<leftarrow> (if fs_is_dir w path then Some path else fs_parent w path);
     if fs_has_genai_config w directory then Some directory else None
   }"

definition file_mb_of :: "'p fs \<Rightarrow> 'p \<Rightarrow> nat" where
  "file_mb_of w path =
     (let bytes = (case onnx_bundle_directory w path of
            Some d \<Rightarrow> bundle_bytes (fs_listing w d)
          | None \<Rightarrow> (case fs_metadata_len w path of Some n \<Rightarrow> n | None \<Rightarrow> 0))
      in sat_add bytes (mib - 1) div mib)"

definition estimate_resident_mb_for_path :: "'p fs \<Rightarrow> 'p \<Rightarrow> nat" where
  "estimate_resident_mb_for_path w path =
     resident_mb_from_file_mb (file_mb_of w path) CpuOnly (Some 0)"

definition estimate_resident_mb_for_path_offloaded ::
  "'p fs \<Rightarrow> gpu_backend \<Rightarrow> 'p \<Rightarrow> nat option \<Rightarrow> nat" where
  "estimate_resident_mb_for_path_offloaded w detected path gpu_layers =
     (if onnx_bundle_directory w path \<noteq> None
      then resident_mb_from_file_mb (file_mb_of w path) CpuOnly (Some 0)
      else resident_mb_from_file_mb (file_mb_of w path) detected gpu_layers)"

section \<open>Planning a GGUF\<close>

datatype read_error = InvalidModelFile string | OtherReadError string

record 'p plan_settings =
  ps_ctx_size :: "nat option"
  ps_gpu_layers :: "nat option"
  ps_draft :: "'p option"

record 'p planner =
  pl_fs :: "'p fs"
  pl_backend :: gpu_backend
  pl_read_info :: "'p \<Rightarrow> read_error + model_info"
  pl_times_1_2 :: "nat \<Rightarrow> nat"

definition plan_draft ::
  "'p planner \<Rightarrow> 'p plan_settings \<Rightarrow> nat \<Rightarrow> plan_error + memory_plan option" where
  "plan_draft w s concurrent =
     (case ps_draft s of
        None \<Rightarrow> Inr None
      | Some path \<Rightarrow>
          (case pl_read_info w path of
             Inl (InvalidModelFile e) \<Rightarrow> Inl (DraftUnreadable e)
           | Inl (OtherReadError e) \<Rightarrow> Inl (DraftUnreadable e)
           | Inr info \<Rightarrow>
               (let plan = plan_estimate (pl_times_1_2 w) info
                      (estimate_resident_mb_for_path_offloaded (pl_fs w) (pl_backend w) path (ps_gpu_layers s))
                      (case ps_ctx_size s of Some c \<Rightarrow> c | None \<Rightarrow> 4096) concurrent False;
                    working = sat_mul (mp_working_mb plan) (max concurrent 1)
                in Inr (Some (plan\<lparr>mp_working_mb := working,
                     mp_total_mb := sat_add (sat_add (mp_weights_mb plan) (mp_context_mb plan)) working\<rparr>)))))"

definition add_draft :: "memory_plan option \<Rightarrow> memory_plan \<Rightarrow> memory_plan" where
  "add_draft draft plan =
     (case draft of None \<Rightarrow> plan
      | Some d \<Rightarrow> plan\<lparr>mp_weights_mb := sat_add (mp_weights_mb plan) (mp_weights_mb d),
                     mp_context_mb := sat_add (mp_context_mb plan) (mp_context_mb d),
                     mp_working_mb := sat_add (mp_working_mb plan) (mp_working_mb d),
                     mp_total_mb := sat_add (mp_total_mb plan) (mp_total_mb d)\<rparr>)"

definition plan_gguf_inner ::
  "'p planner \<Rightarrow> 'p \<Rightarrow> 'p option \<Rightarrow> 'p plan_settings \<Rightarrow> nat \<Rightarrow> nat \<Rightarrow> bool
     \<Rightarrow> plan_error + memory_plan option" where
  "plan_gguf_inner w path projector s concurrent budget retain_denied =
     (case pl_read_info w path of
        Inl (InvalidModelFile reason) \<Rightarrow> Inl (InvalidGeometry reason)
      | Inl (OtherReadError _) \<Rightarrow> Inr None
      | Inr info \<Rightarrow>
          (let size = (\<lambda>p. estimate_resident_mb_for_path_offloaded (pl_fs w) (pl_backend w) p (ps_gpu_layers s));
               weights = sat_add (size path) (case projector of None \<Rightarrow> 0 | Some p \<Rightarrow> size p)
           in case plan_draft w s concurrent of
                Inl e \<Rightarrow> Inl e
              | Inr draft \<Rightarrow>
                  (let draft_mb = (case draft of None \<Rightarrow> 0 | Some d \<Rightarrow> mp_total_mb d);
                       chosen = (if retain_denied
                         then Inr (plan_candidate (pl_times_1_2 w) info weights (ps_ctx_size s) concurrent
                                     (budget - draft_mb) (projector \<noteq> None))
                         else plan_select (pl_times_1_2 w) info weights (ps_ctx_size s) concurrent
                                     (budget - draft_mb) (projector \<noteq> None))
                   in case chosen of
                        Inl e \<Rightarrow> Inl e
                      | Inr plan \<Rightarrow> Inr (Some ((add_draft draft plan)\<lparr>mp_admission_budget_mb := budget\<rparr>)))))"

definition plan_gguf ::
  "'p planner \<Rightarrow> 'p \<Rightarrow> 'p option \<Rightarrow> 'p plan_settings \<Rightarrow> nat \<Rightarrow> nat \<Rightarrow> plan_error + memory_plan option" where
  "plan_gguf w path projector s concurrent budget =
     plan_gguf_inner w path projector s concurrent budget False"

definition inspect_gguf_plan ::
  "'p planner \<Rightarrow> 'p \<Rightarrow> 'p plan_settings \<Rightarrow> nat \<Rightarrow> nat \<Rightarrow> plan_error + memory_plan option" where
  "inspect_gguf_plan w path s concurrent budget =
     plan_gguf_inner w path None s concurrent budget True"

definition available_for_model_mb :: "governor \<Rightarrow> nat" where
  "available_for_model_mb g =
     min (inference_resident_mb (sn_budgets g))
         (process_soft_limit_mb (sn_budgets g) - sn_estimated_process_mb g - 1)"

text \<open>The budget \<^verbatim>\<open>attempt_load\<close> plans against.\<close>

definition load_budget :: "governor \<Rightarrow> inventory \<Rightarrow> nat" where
  "load_budget g v =
     min (available_for_model_mb g) (inference_resident_mb (sn_budgets g) - total_estimated_mb v)"

section \<open>The admission ledger\<close>

record admission_ledger =
  al_resident_models_mb :: nat
  al_speech_reserved_mb :: nat
  al_decision_reserved_mb :: nat
  al_diarization_reserved_mb :: nat
  al_working_reserved_mb :: nat
  al_total_mb :: "nat option"

record admission_checks =
  ac_projected_ledger_mb :: "nat option"
  ac_projected_process_mb :: "nat option"
  ac_quota_allows :: bool
  ac_process_allows :: bool
  ac_pressure_allows :: bool
  ac_overflowed :: bool

definition available_mb :: "governor \<Rightarrow> admission_ledger \<Rightarrow> nat" where
  "available_mb g l =
     (case al_total_mb l of None \<Rightarrow> 0
      | Some t \<Rightarrow> min (available_for_model_mb g) (inference_resident_mb (sn_budgets g) - t))"

definition checks_allow :: "admission_checks \<Rightarrow> bool" where
  "checks_allow c \<longleftrightarrow> \<not> ac_overflowed c \<and> ac_quota_allows c \<and> ac_process_allows c \<and> ac_pressure_allows c"

text \<open>\<^verbatim>\<open>try_fold\<close> with a checked addition.\<close>

fun try_sum :: "nat option \<Rightarrow> nat list \<Rightarrow> nat option" where
  "try_sum None _ = None"
| "try_sum (Some s) [] = Some s"
| "try_sum (Some s) (x # xs) = try_sum (checked_add s x) xs"

record model_entry =
  me_is_local :: bool
  me_is_resident :: bool
  me_estimated_mb :: nat

record image_entry =
  ie_resident :: bool
  ie_total_mb :: nat

definition make_ledger ::
  "model_entry list \<Rightarrow> image_entry list \<Rightarrow> nat \<Rightarrow> nat \<Rightarrow> nat \<Rightarrow> nat \<Rightarrow> admission_ledger" where
  "make_ledger models images speech decision diarization working =
     (let resident = try_sum (Some 0)
            (map me_estimated_mb (filter (\<lambda>m. me_is_local m \<and> me_is_resident m) models));
          resident' = try_sum resident (map ie_total_mb (filter ie_resident images))
      in \<lparr>al_resident_models_mb = (case resident' of Some r \<Rightarrow> r | None \<Rightarrow> u64_max),
          al_speech_reserved_mb = speech, al_decision_reserved_mb = decision,
          al_diarization_reserved_mb = diarization, al_working_reserved_mb = working,
          al_total_mb = try_sum resident' [speech, decision, diarization, working]\<rparr>)"

definition check_admission :: "admission_ledger \<Rightarrow> nat \<Rightarrow> governor \<Rightarrow> admission_checks" where
  "check_admission l extra g =
     (let projected = Option.bind (al_total_mb l) (\<lambda>t. checked_add t extra);
          process = model_load_conditions g extra
      in \<lparr>ac_projected_ledger_mb = projected,
          ac_projected_process_mb = lc_projected_process_mb process,
          ac_quota_allows = (case projected of None \<Rightarrow> False
             | Some v \<Rightarrow> v \<le> inference_resident_mb (sn_budgets g)),
          ac_process_allows = lc_process_allows process,
          ac_pressure_allows = lc_pressure_allows process,
          ac_overflowed = (projected = None \<or> lc_projected_process_mb process = None)\<rparr>)"

text \<open>
  \<^verbatim>\<open>inspect_local_admission\<close>: the plan an unloaded local file would get and whether it would be
  admitted, without loading it.  \<open>None\<close> is the answer for a path that is not a plannable file.
\<close>

record admission_report =
  ar_plan :: memory_plan
  ar_remaining_quota_mb :: nat
  ar_remaining_process_mb :: nat
  ar_checks :: admission_checks
  ar_fits_without_eviction :: bool

definition inspect_local_admission ::
  "'p planner \<Rightarrow> 'p plan_settings \<Rightarrow> nat \<Rightarrow> admission_ledger \<Rightarrow> governor \<Rightarrow> 'p
     \<Rightarrow> admission_report option" where
  "inspect_local_admission w s max_active l g path =
     (case inspect_gguf_plan w path s max_active (available_mb g l) of
        Inl _ \<Rightarrow> None
      | Inr None \<Rightarrow> None
      | Inr (Some plan) \<Rightarrow>
          (let checks = check_admission l (mp_total_mb plan) g in
           Some \<lparr>ar_plan = plan,
             ar_remaining_quota_mb = (case al_total_mb l of None \<Rightarrow> 0
               | Some t \<Rightarrow> inference_resident_mb (sn_budgets g) - t),
             ar_remaining_process_mb =
               process_soft_limit_mb (sn_budgets g) - sn_estimated_process_mb g - 1,
             ar_checks = checks, ar_fits_without_eviction = checks_allow checks\<rparr>))"

section \<open>Plans\<close>

lemma effective_context_budget_bounds:
  "2048 \<le> effective_context_budget t p m
   \<and> effective_context_budget t p m \<le> default_context_budget_for_tier t"
proof -
  have "2048 \<le> default_context_budget_for_tier t \<and> default_context_budget_for_tier t \<le> 32768"
    by (cases t) (simp_all add: default_context_budget_for_tier_def)
  then show ?thesis
    unfolding effective_context_budget_def Let_def sat_mul32_def
    by (cases p; cases m) (simp_all only: pressure.case if_True if_False, linarith+)
qed

lemma plan_estimate_context [simp]: "mp_context_tokens (plan_estimate f i w c n v) = c"
  by (simp add: plan_estimate_def Let_def)

lemma plan_estimate_working: "500 \<le> mp_working_mb (plan_estimate f i w c n v)"
  by (simp add: plan_estimate_def Let_def sat_add_def)

lemma plan_estimate_total:
  "mp_total_mb (plan_estimate f i w c n v) =
     sat_add (sat_add (mp_weights_mb (plan_estimate f i w c n v)) (mp_context_mb (plan_estimate f i w c n v)))
       (mp_working_mb (plan_estimate f i w c n v))"
  by (simp add: plan_estimate_def Let_def)

lemma plan_estimate_total_pos: "500 \<le> mp_total_mb (plan_estimate f i w c n v)"
  using plan_estimate_working [of f i w c n v] by (simp add: plan_estimate_total sat_add_def)

text \<open>The contexts the loop tries, largest first.\<close>

fun halvings :: "nat \<Rightarrow> nat \<Rightarrow> nat" where
  "halvings initial 0 = initial"
| "halvings initial (Suc k) = max (halvings initial k div 2) 2048"

lemma halvings_shift: "halvings (max (c div 2) 2048) k = halvings c (Suc k)"
  by (induction k) simp_all

lemma candidate_loop_spec:
  assumes "\<And>c. mp_context_tokens (est c) = c"
  shows "\<exists>k. candidate_loop est initial fixed b c =
        (est (halvings c k))\<lparr>mp_context_reduced := halvings c k < initial, mp_admission_budget_mb := b\<rparr>
     \<and> (\<forall>j<k. b < mp_total_mb (est (halvings c j)) \<and> 2048 < halvings c j \<and> \<not> fixed)
     \<and> (mp_total_mb (est (halvings c k)) \<le> b \<or> fixed \<or> halvings c k \<le> 2048)"
proof (induction est initial fixed b c rule: candidate_loop.induct)
  case (1 est initial fixed b c)
  show ?case
  proof (cases "mp_total_mb (est c) \<le> b \<or> fixed \<or> c \<le> 2048")
    case True
    then show ?thesis
      by (intro exI [of _ 0]) (simp add: candidate_loop.simps [of est] Let_def)
  next
    case False
    then have step: "candidate_loop est initial fixed b c =
        candidate_loop est initial fixed b (max (c div 2) 2048)"
      by (subst candidate_loop.simps) (simp add: Let_def)
    from False 1 [OF refl] obtain k where k:
      "candidate_loop est initial fixed b (max (c div 2) 2048) =
        (est (halvings c (Suc k)))\<lparr>mp_context_reduced := halvings c (Suc k) < initial,
           mp_admission_budget_mb := b\<rparr>"
      "\<forall>j<k. b < mp_total_mb (est (halvings c (Suc j))) \<and> 2048 < halvings c (Suc j) \<and> \<not> fixed"
      "mp_total_mb (est (halvings c (Suc k))) \<le> b \<or> fixed \<or> halvings c (Suc k) \<le> 2048"
      unfolding halvings_shift by auto
    have "\<forall>j<Suc k. b < mp_total_mb (est (halvings c j)) \<and> 2048 < halvings c j \<and> \<not> fixed"
      using k(2) False by (metis halvings.simps(1) less_Suc_eq_0_disj not_le)
    then show ?thesis using k step by (intro exI [of _ "Suc k"]) simp
  qed
qed

lemma plan_candidate_spec:
  fixes f i w requested n b v
  defines "initial \<equiv> initial_context i requested"
    and "est \<equiv> \<lambda>c. plan_estimate f i w c n v"
  shows "\<exists>k. plan_candidate f i w requested n b v =
        (est (halvings initial k))\<lparr>mp_context_reduced := halvings initial k < initial,
           mp_admission_budget_mb := b\<rparr>
     \<and> (\<forall>j<k. b < mp_total_mb (est (halvings initial j)) \<and> 2048 < halvings initial j \<and> requested = None)
     \<and> (mp_total_mb (est (halvings initial k)) \<le> b \<or> requested \<noteq> None \<or> halvings initial k \<le> 2048)"
  using candidate_loop_spec [of est initial "requested \<noteq> None" b initial]
  unfolding plan_candidate_def Let_def initial_def [symmetric] est_def [symmetric]
  by (simp add: est_def)

lemma halvings_le: "(\<forall>j<k. 2048 < halvings c j) \<Longrightarrow> halvings c k \<le> c \<and> min c 2048 \<le> halvings c k"
proof (induction k)
  case (Suc k)
  then have "halvings c k \<le> c" "2048 < halvings c k" by auto
  moreover have "halvings c k div 2 \<le> c" using calculation div_le_dividend le_trans by blast
  ultimately show ?case by (simp add: max_def)
qed simp

text \<open>
  The context loop picks the largest context that fits.  Asked for an explicit context it
  plans exactly that one.  Otherwise it tries the initial context and its halvings down to 2048
  and stops at the first that fits: every larger one tried was over the budget, the context
  never leaves the range from \<open>min initial 2048\<close> to the initial one, the \<open>reduced\<close> flag tells
  whether it shrank, and a plan over the budget is returned only at or below 2048.
\<close>

lemma plan_candidate_largest:
  "let p = plan_candidate f i w requested n b v; initial = initial_context i requested in
     (requested = Some c \<longrightarrow> mp_context_tokens p = c \<and> \<not> mp_context_reduced p)
   \<and> min initial 2048 \<le> mp_context_tokens p \<and> mp_context_tokens p \<le> initial
   \<and> (mp_context_reduced p \<longleftrightarrow> mp_context_tokens p < initial)
   \<and> (\<exists>k. mp_context_tokens p = halvings initial k
        \<and> (\<forall>j<k. b < mp_total_mb (plan_estimate f i w (halvings initial j) n v)))
   \<and> (requested = None \<and> b < mp_total_mb p \<longrightarrow> mp_context_tokens p \<le> 2048)"
proof -
  let ?init = "initial_context i requested"
  from plan_candidate_spec [of f i w requested n b v] obtain k where
    p: "plan_candidate f i w requested n b v =
        (plan_estimate f i w (halvings ?init k) n v)\<lparr>mp_context_reduced := halvings ?init k < ?init,
           mp_admission_budget_mb := b\<rparr>"
    and over: "\<forall>j<k. b < mp_total_mb (plan_estimate f i w (halvings ?init j) n v)
        \<and> 2048 < halvings ?init j \<and> requested = None"
    and stop: "mp_total_mb (plan_estimate f i w (halvings ?init k) n v) \<le> b \<or> requested \<noteq> None
        \<or> halvings ?init k \<le> 2048" by auto
  have explicit: "k = 0" if "requested = Some c" using over that by (cases k) auto
  have init: "?init = c" if "requested = Some c" using that by (simp add: initial_context_def)
  have range: "halvings ?init k \<le> ?init \<and> min ?init 2048 \<le> halvings ?init k"
    using over by (intro halvings_le) blast
  have tokens: "mp_context_tokens (plan_candidate f i w requested n b v) = halvings ?init k"
    "mp_context_reduced (plan_candidate f i w requested n b v) \<longleftrightarrow> halvings ?init k < ?init"
    "mp_total_mb (plan_candidate f i w requested n b v) =
       mp_total_mb (plan_estimate f i w (halvings ?init k) n v)"
    by (simp_all add: p)
  show ?thesis
    unfolding Let_def tokens using range over stop explicit init by (intro conjI) auto
qed

lemma plan_candidate_total_pos: "500 \<le> mp_total_mb (plan_candidate f i w requested n b v)"
proof -
  from plan_candidate_spec [of f i w requested n b v] obtain c where
    "mp_total_mb (plan_candidate f i w requested n b v) = mp_total_mb (plan_estimate f i w c n v)" by force
  then show ?thesis by (simp add: plan_estimate_total_pos)
qed

lemma plan_candidate_tokens:
  "requested = Some c \<Longrightarrow> mp_context_tokens (plan_candidate f i w requested n b v) = c"
  by (simp add: plan_candidate_def Let_def initial_context_def candidate_loop.simps)

lemma add_draft_total:
  "mp_total_mb (add_draft d p) = (case d of None \<Rightarrow> mp_total_mb p | Some x \<Rightarrow> sat_add (mp_total_mb p) (mp_total_mb x))"
  by (simp add: add_draft_def split: option.splits)

lemma add_draft_tokens [simp]: "mp_context_tokens (add_draft d p) = mp_context_tokens p"
  by (simp add: add_draft_def split: option.splits)

lemma sat_fits_iff:
  "0 < t \<Longrightarrow> b < u64_max \<Longrightarrow> sat_add t d \<le> b \<longleftrightarrow> t \<le> b - d"
  by (auto simp: sat_add_def)

lemma plan_gguf_inner_Inr:
  assumes "plan_gguf_inner w path proj s n b retain = Inr (Some p)"
  obtains info weights d where
    "pl_read_info w path = Inr info" "plan_draft w s n = Inr d"
    "p = (add_draft d (plan_candidate (pl_times_1_2 w) info weights (ps_ctx_size s) n
            (b - (case d of None \<Rightarrow> 0 | Some x \<Rightarrow> mp_total_mb x)) (proj \<noteq> None)))\<lparr>mp_admission_budget_mb := b\<rparr>"
    "retain \<or> mp_total_mb (plan_candidate (pl_times_1_2 w) info weights (ps_ctx_size s) n
            (b - (case d of None \<Rightarrow> 0 | Some x \<Rightarrow> mp_total_mb x)) (proj \<noteq> None))
          \<le> b - (case d of None \<Rightarrow> 0 | Some x \<Rightarrow> mp_total_mb x)"
  using assms
  by (simp add: plan_gguf_inner_def plan_select_def Let_def
      split: sum.splits read_error.splits if_splits) (blast, metis that)

lemma accepted_plan_fits:
  assumes "plan_gguf w path proj s n b = Inr (Some p)"
  shows "mp_total_mb p \<le> b \<and> 500 \<le> mp_total_mb p \<and> mp_admission_budget_mb p = b
       \<and> (ps_ctx_size s = Some c \<longrightarrow> mp_context_tokens p = c)"
proof -
  from assms obtain info weights d q dm where
    p: "p = (add_draft d q)\<lparr>mp_admission_budget_mb := b\<rparr>"
    and q: "q = plan_candidate (pl_times_1_2 w) info weights (ps_ctx_size s) n (b - dm) (proj \<noteq> None)"
    and dm: "dm = (case d of None \<Rightarrow> 0 | Some x \<Rightarrow> mp_total_mb x)"
    and fit: "mp_total_mb q \<le> b - dm"
    unfolding plan_gguf_def by (elim plan_gguf_inner_Inr) auto
  have "500 \<le> mp_total_mb q" unfolding q by (rule plan_candidate_total_pos)
  with fit have "mp_total_mb q + dm \<le> b" "500 \<le> mp_total_mb q" by linarith+
  then have "mp_total_mb p \<le> b \<and> 500 \<le> mp_total_mb p"
    by (cases d) (auto simp: p dm add_draft_total sat_add_def)
  then show ?thesis by (auto simp: p q plan_candidate_tokens)
qed

text \<open>
  An accepted plan fits.  When planning succeeds, target and draft together (weights,
  context and working memory, each already rounded up) are within the budget, the plan records
  that budget, and an explicitly requested context is kept as it is, never silently reduced.
\<close>

lemma plan_gguf_within_budget:
  assumes "plan_gguf w path proj s n b = Inr (Some p)"
  shows "mp_total_mb p \<le> b \<and> 500 \<le> mp_total_mb p \<and> mp_admission_budget_mb p = b
       \<and> (ps_ctx_size s = Some c \<longrightarrow> mp_context_tokens p = c)"
  using assms by (rule accepted_plan_fits)

definition sample_planner :: "unit planner" where
  "sample_planner = \<lparr>pl_fs = \<lparr>fs_is_dir = (\<lambda>_. False), fs_parent = (\<lambda>_. None),
       fs_has_genai_config = (\<lambda>_. False), fs_listing = (\<lambda>_. None),
       fs_metadata_len = (\<lambda>_. Some (4 * 1024 ^ 3))\<rparr>,
     pl_backend = CpuOnly, pl_read_info = (\<lambda>_. Inr sample_info), pl_times_1_2 = id\<rparr>"

definition sample_settings :: "unit plan_settings" where
  "sample_settings = \<lparr>ps_ctx_size = None, ps_gpu_layers = None, ps_draft = None\<rparr>"

lemma sample_info_sizes: "mi_file_bytes sample_info = 4294967296" "mi_train_context sample_info = Some 131072"
  by (simp_all add: sample_info_def)

definition sample_plan :: "nat \<Rightarrow> nat \<Rightarrow> bool \<Rightarrow> nat \<Rightarrow> memory_plan" where
  "sample_plan ctx context_mb reduced b = \<lparr>mp_weights_mb = 4096, mp_context_mb = context_mb,
     mp_working_mb = 500, mp_total_mb = 4596 + context_mb, mp_context_tokens = ctx,
     mp_concurrent_sessions = 1, mp_context_reduced = reduced, mp_admission_budget_mb = b\<rparr>"

lemma sample_weights:
  "sat_add (estimate_resident_mb_for_path_offloaded (pl_fs sample_planner) (pl_backend sample_planner) ()
     (ps_gpu_layers sample_settings)) 0 = 4096"
  by (simp add: estimate_resident_mb_for_path_offloaded_def onnx_bundle_directory_def file_mb_of_def
      resident_mb_from_file_mb_def sample_planner_def sample_settings_def sat_add_def mib_def)

lemma sample_needed:
  "memory_needed id sample_info 0 = 4819255296"
  "memory_needed id sample_info 4096 = 5356126208"
  "memory_needed id sample_info 2048 = 5087690752"
  by (simp_all add: memory_needed_def estimate_ram_bytes_def kv_cost_of_def sample_info_kv
      runtime_overhead_def sat_add_def sat_mul_def sample_info_sizes)

lemma sample_estimates:
  "plan_estimate id sample_info 4096 4096 1 False = sample_plan 4096 512 False 0"
  "plan_estimate id sample_info 4096 2048 1 False = sample_plan 2048 256 False 0"
  unfolding plan_estimate_def sample_needed sample_info_sizes sample_plan_def Let_def mib_def
  by (simp_all add: div_ceil_def sat_add_def sat_mul_def)

lemma sample_candidate:
  "plan_candidate id sample_info 4096 None 1 b False =
     (if 5108 \<le> b then sample_plan 4096 512 False b else sample_plan 2048 256 True b)"
  by (simp add: plan_candidate_def initial_context_def sample_info_sizes candidate_loop.simps
      sample_estimates del: One_nat_def) (simp add: sample_plan_def)

lemma plan_candidate_largest_witness:
  "mp_context_tokens (plan_candidate id sample_info 4096 None 1 100 False) \<le> 2048"
  using plan_candidate_largest [of id sample_info 4096 None 1 100 False 0]
  unfolding Let_def by (simp add: sample_candidate sample_plan_def del: One_nat_def)

lemma sample_inner:
  "plan_gguf_inner sample_planner () None sample_settings 1 b retain =
     (let p = (if 5108 \<le> b then sample_plan 4096 512 False b else sample_plan 2048 256 True b)
      in if retain \<or> mp_total_mb p \<le> b then Inr (Some p) else Inl (AdmissionDenied p))"
proof -
  have s: "pl_read_info sample_planner () = Inr sample_info" "pl_times_1_2 sample_planner = id"
    "ps_ctx_size sample_settings = None" "plan_draft sample_planner sample_settings 1 = Inr None"
    by (simp_all add: sample_planner_def sample_settings_def plan_draft_def)
  show ?thesis
    by (simp add: plan_gguf_inner_def plan_select_def s sample_weights sample_candidate Let_def
          add_draft_def del: One_nat_def)
      (simp add: sample_plan_def)
qed

lemma plan_reduced: "plan_gguf sample_planner () None sample_settings 1 5000 = Inr (Some (sample_plan 2048 256 True 5000))"
  by (simp add: plan_gguf_def sample_inner del: One_nat_def) (simp add: sample_plan_def)

lemma plan_gguf_within_budget_witness:
  "mp_total_mb (sample_plan 2048 256 True 5000) \<le> 5000"
  using plan_gguf_within_budget [OF plan_reduced] by blast

text \<open>
  Inspection agrees with loading.  The plan shown for a file by inspection is the one a
  load would get: loading with the same budget succeeds with exactly that plan when its total
  is within the budget, and is refused otherwise.
\<close>

lemma inspection_predicts_load:
  assumes "inspect_gguf_plan w path s n b = Inr (Some p)" "b < u64_max"
  shows "if mp_total_mb p \<le> b then plan_gguf w path None s n b = Inr (Some p)
         else (\<exists>q. plan_gguf w path None s n b = Inl (AdmissionDenied q))"
proof -
  from assms(1) obtain info weights d q dm where
    info: "pl_read_info w path = Inr info" "plan_draft w s n = Inr d"
    and weights: "weights = sat_add (estimate_resident_mb_for_path_offloaded (pl_fs w) (pl_backend w) path (ps_gpu_layers s)) 0"
    and p: "p = (add_draft d q)\<lparr>mp_admission_budget_mb := b\<rparr>"
    and q: "q = plan_candidate (pl_times_1_2 w) info weights (ps_ctx_size s) n (b - dm) False"
    and dm: "dm = (case d of None \<Rightarrow> 0 | Some x \<Rightarrow> mp_total_mb x)"
    by (auto simp: inspect_gguf_plan_def plan_gguf_inner_def Let_def split: sum.splits read_error.splits)
  have pos: "0 < mp_total_mb q"
    using plan_candidate_total_pos [of "pl_times_1_2 w" info weights "ps_ctx_size s" n "b - dm" False]
    by (simp add: q)
  have "mp_total_mb p \<le> b \<longleftrightarrow> mp_total_mb q \<le> b - dm"
  proof (cases d)
    case None
    then show ?thesis by (simp add: p dm add_draft_total)
  next
    case (Some x)
    then show ?thesis using sat_fits_iff [OF pos assms(2), of dm] by (simp add: p dm add_draft_total)
  qed
  then show ?thesis
    using info by (simp add: plan_gguf_def plan_gguf_inner_def plan_select_def Let_def weights [symmetric]
        dm [symmetric] q [symmetric] p)
qed

lemma inspection_predicts_load_witness:
  "inspect_gguf_plan sample_planner () sample_settings 1 4000 = Inr (Some (sample_plan 2048 256 True 4000))
   \<and> (\<exists>q. plan_gguf sample_planner () None sample_settings 1 4000 = Inl (AdmissionDenied q))"
proof -
  have i: "inspect_gguf_plan sample_planner () sample_settings 1 4000 = Inr (Some (sample_plan 2048 256 True 4000))"
    by (simp add: inspect_gguf_plan_def sample_inner del: One_nat_def)
  from inspection_predicts_load [OF i] i show ?thesis by (simp add: sample_plan_def)
qed

text \<open>
  What planning accepts, admission accepts.  A plan made against the controller's load
  budget is never refused for its size: once the language-model slot is free, the inventory
  admits it whenever the pressure allows loading at all.
\<close>

lemma planned_load_is_admitted:
  assumes "plan_gguf w path proj s n (load_budget g v) = Inr (Some p)"
    and "slot Llm v = None" "sn_pressure g < Severe"
    and "process_soft_limit_mb (sn_budgets g) \<le> u64_max" "inference_resident_mb (sn_budgets g) \<le> u64_max"
  shows "can_admit Llm (mp_total_mb p) g v"
proof -
  from accepted_plan_fits [OF assms(1), of 0]
  have t: "mp_total_mb p \<le> load_budget g v" "0 < mp_total_mb p" by simp_all
  then have "sn_estimated_process_mb g + mp_total_mb p < process_soft_limit_mb (sn_budgets g)"
    "total_estimated_mb v + mp_total_mb p \<le> inference_resident_mb (sn_budgets g)"
    by (auto simp: load_budget_def available_for_model_mb_def)
  with assms(2-5) show ?thesis
    by (auto simp: can_admit_def can_load_additional_model_iff sat_add_def pressure_cases_le)
qed

lemma planned_load_is_admitted_witness:
  "can_admit Llm 5108 ((sample_governor Normal)\<lparr>sn_budgets := base_budgets_for_tier Workstation\<rparr>) empty_inventory"
proof -
  let ?g = "(sample_governor Normal)\<lparr>sn_budgets := base_budgets_for_tier Workstation\<rparr>"
  have "load_budget ?g empty_inventory = 24576"
    by (simp add: load_budget_def available_for_model_mb_def sample_governor_def total_estimated_mb_def
        loaded_def empty_inventory_def List.map_filter_def)
  then have "plan_gguf sample_planner () None sample_settings 1 (load_budget ?g empty_inventory)
      = Inr (Some (sample_plan 4096 512 False 24576))"
    by (simp add: plan_gguf_def sample_inner del: One_nat_def) (simp add: sample_plan_def)
  from planned_load_is_admitted [OF this] show ?thesis
    by (simp add: sample_plan_def sample_governor_def empty_inventory_def less_pressure_def)
qed

section \<open>The ledger\<close>

lemma try_sum_iff:
  "s \<le> u64_max \<Longrightarrow> try_sum (Some s) xs =
     (if s + sum_list xs \<le> u64_max then Some (s + sum_list xs) else None)"
  by (induction xs arbitrary: s) (auto simp: checked_add_def add.assoc)

lemma try_sum_append: "try_sum s (xs @ ys) = try_sum (try_sum s xs) ys"
  by (induction s xs rule: try_sum.induct) simp_all

definition ledger_sum :: "model_entry list \<Rightarrow> image_entry list \<Rightarrow> nat \<Rightarrow> nat \<Rightarrow> nat \<Rightarrow> nat \<Rightarrow> nat" where
  "ledger_sum models images sp de di wo =
     sum_list (map me_estimated_mb (filter (\<lambda>m. me_is_local m \<and> me_is_resident m) models))
     + sum_list (map ie_total_mb (filter ie_resident images)) + sp + de + di + wo"

lemma ledger_total:
  "al_total_mb (make_ledger models images sp de di wo) =
     (if ledger_sum models images sp de di wo \<le> u64_max
      then Some (ledger_sum models images sp de di wo) else None)"
proof -
  define r where "r = sum_list (map me_estimated_mb (filter (\<lambda>m. me_is_local m \<and> me_is_resident m) models))"
  define q where "q = sum_list (map ie_total_mb (filter ie_resident images))"
  have fold: "try_sum (try_sum (try_sum (Some 0) xs) ys) zs = try_sum (Some 0) (xs @ ys @ zs)" for xs ys zs
    by (simp add: try_sum_append)
  have "al_total_mb (make_ledger models images sp de di wo) = try_sum (Some 0)
      (map me_estimated_mb (filter (\<lambda>m. me_is_local m \<and> me_is_resident m) models)
       @ map ie_total_mb (filter ie_resident images) @ [sp, de, di, wo])"
    unfolding fold [symmetric] by (simp add: make_ledger_def Let_def del: try_sum.simps)
  also have "\<dots> = (if ledger_sum models images sp de di wo \<le> u64_max
      then Some (ledger_sum models images sp de di wo) else None)"
    by (simp add: try_sum_iff ledger_sum_def ac_simps)
  finally show ?thesis .
qed

text \<open>
  The runtime's ledger is sound.  An admission check that allows an extra reservation means
  that the exact sum of everything resident or reserved plus the extra is within the inference
  budget, the process stays below its soft limit, the pressure is below severe, and nothing
  overflowed 64 bits; a ledger whose sum overflows admits nothing.
\<close>

lemma check_admission_sound:
  "checks_allow (check_admission (make_ledger models images sp de di wo) extra g) \<longleftrightarrow>
     ledger_sum models images sp de di wo + extra \<le> min u64_max (inference_resident_mb (sn_budgets g))
     \<and> can_load_additional_model g extra"
  using ledger_total [of models images sp de di wo]
  by (auto simp: check_admission_def checks_allow_def can_load_additional_model_def load_allows_def
      model_load_conditions_def Let_def checked_add_def split: if_splits)

lemma check_admission_sound_instance:
  "checks_allow (check_admission (make_ledger [] [] 0 0 0 0) 500 (sample_governor Normal))"
  by (simp add: check_admission_def make_ledger_def checks_allow_def sample_governor_def
      model_load_conditions_def checked_add_def less_pressure_def Let_def)

text \<open>
  Offloading never makes the host estimate worse than the file itself plus the fixed
  overhead, and the estimate never falls below its floor of 256 MB; without a GPU backend the
  layer setting is irrelevant.
\<close>

lemma resident_mb_bounds:
  "256 \<le> resident_mb_from_file_mb file_mb backend layers
   \<and> resident_mb_from_file_mb file_mb backend layers \<le> max file_mb 256 + 384
   \<and> resident_mb_from_file_mb file_mb CpuOnly layers = max file_mb 256
   \<and> (backend \<noteq> CpuOnly \<longrightarrow> resident_mb_from_file_mb file_mb backend None = 384)"
proof -
  have part: "sat_mul file_mb (k - x) div max k 1 \<le> file_mb" for k x
  proof -
    have "sat_mul file_mb (k - x) div max k 1 \<le> file_mb * max k 1 div max k 1"
      by (intro div_le_mono order_trans [OF sat_mul_le(1)] mult_le_mono2) simp
    then show ?thesis by simp
  qed
  have clamp: "12 \<le> clamp y 12 80" for y by (simp add: clamp_def)
  have over: "max (sat_add x 384) 256 \<le> max file_mb 256 + 384" if "x \<le> file_mb" for x
    using that by (simp add: sat_add_def)
  have floor: "m \<le> a \<Longrightarrow> m \<le> b \<Longrightarrow> m \<le> (if c then a else b)" for a b m :: nat and c by simp
  have pick: "a \<le> m \<Longrightarrow> b \<le> m \<Longrightarrow> (if c then a else b) \<le> m" for a b m :: nat and c by simp
  have "resident_mb_from_file_mb file_mb backend layers \<le> max file_mb 256 + 384"
    unfolding resident_mb_from_file_mb_def Let_def by (intro pick over part) simp_all
  moreover have "resident_mb_from_file_mb file_mb backend None = 384" if "backend \<noteq> CpuOnly"
  proof -
    obtain e where e: "clamp (file_mb div 100 mod 2 ^ 32) 12 80 = e" "12 \<le> e" using clamp by blast
    show ?thesis
      unfolding resident_mb_from_file_mb_def Let_def e(1) using that e(2)
      by (simp add: sat_add_def sat_mul_def)
  qed
  moreover have "256 \<le> resident_mb_from_file_mb file_mb backend layers"
    unfolding resident_mb_from_file_mb_def Let_def by (intro floor) simp_all
  moreover have "resident_mb_from_file_mb file_mb CpuOnly layers = max file_mb 256"
    by (simp add: resident_mb_from_file_mb_def)
  ultimately show ?thesis by blast
qed

end
