(* ===== verification/Registry.thy ===== *)
theory Registry
  imports MemoryPlan "HOL-Library.Option_ord" "HOL-Library.Product_Lexorder"
begin

text \<open>
  The runtime's models and reservations (\<^verbatim>\<open>src/api/runtime.rs\<close>, \<^verbatim>\<open>src/image/mod.rs\<close>): text and
  image models share one ledger with the peak reservations of speech, decision, diarization and
  working memory.  Under the admission lock an operation makes room by evicting the least
  recently used models, asks for admission, and only then loads.  The record \<open>world\<close> answers
  what the machine does: the governor's samples (one per question, numbered), whether an engine
  unloads, reloads or builds.  Poisoned locks are not modelled.
\<close>

record text_entry =
  te_local :: bool
  te_resident :: bool
  te_engine_loaded :: bool
  te_mb :: nat
  te_last_used :: "nat option"

record img_entry =
  ig_mb :: nat
  ig_resident :: bool
  ig_busy :: bool
  ig_last_used :: "nat option"

datatype reservation_kind = SpeechR | DecisionR | DiarizationR | WorkingR

record registry =
  rg_models :: "(nat \<times> text_entry) list"
  rg_images :: "(nat \<times> img_entry) list"
  rg_next_id :: nat
  rg_reserved :: "reservation_kind \<Rightarrow> nat"
  rg_handles :: "(reservation_kind \<times> nat) list"
  rg_evictions :: nat
  rg_samples :: nat
  rg_clock :: nat

record world =
  wo_governor :: "nat \<Rightarrow> governor"
  wo_unload_ok :: "nat \<Rightarrow> nat \<Rightarrow> bool"
  wo_reload_ok :: "nat \<Rightarrow> nat \<Rightarrow> bool"
  wo_build_ok :: "nat \<Rightarrow> bool"

definition is_resident :: "text_entry \<Rightarrow> bool" where
  "is_resident e \<longleftrightarrow> \<not> te_local e \<or> te_resident e"

definition model_entry_of :: "text_entry \<Rightarrow> model_entry" where
  "model_entry_of e = \<lparr>me_is_local = te_local e, me_is_resident = is_resident e, me_estimated_mb = te_mb e\<rparr>"

definition image_entry_of :: "img_entry \<Rightarrow> image_entry" where
  "image_entry_of g = \<lparr>ie_resident = ig_resident g, ie_total_mb = ig_mb g\<rparr>"

definition ledger :: "registry \<Rightarrow> admission_ledger" where
  "ledger r = make_ledger (map (model_entry_of \<circ> snd) (rg_models r)) (map (image_entry_of \<circ> snd) (rg_images r))
     (rg_reserved r SpeechR) (rg_reserved r DecisionR) (rg_reserved r DiarizationR) (rg_reserved r WorkingR)"

definition can_admit_mb :: "world \<Rightarrow> nat \<Rightarrow> registry \<Rightarrow> registry \<times> bool" where
  "can_admit_mb w extra r =
     (r\<lparr>rg_samples := Suc (rg_samples r)\<rparr>,
      checks_allow (check_admission (ledger r) extra (wo_governor w (rg_samples r))))"

section \<open>Eviction\<close>

definition adjust :: "nat \<Rightarrow> ('a \<Rightarrow> 'a) \<Rightarrow> (nat \<times> 'a) list \<Rightarrow> (nat \<times> 'a) list" where
  "adjust i f xs = map (\<lambda>(j, e). if j = i then (j, f e) else (j, e)) xs"

datatype candidate = TextCandidate nat text_entry | ImageCandidate nat img_entry

definition text_evictable :: "nat option \<Rightarrow> nat \<times> text_entry \<Rightarrow> bool" where
  "text_evictable keep = (\<lambda>(i, e). Some i \<noteq> keep \<and> te_local e \<and> is_resident e)"

definition image_evictable :: "nat option \<Rightarrow> nat \<times> img_entry \<Rightarrow> bool" where
  "image_evictable keep = (\<lambda>(i, g). Some i \<noteq> keep \<and> ig_resident g \<and> \<not> ig_busy g)"

definition candidates :: "nat option \<Rightarrow> registry \<Rightarrow> ((nat option \<times> nat) \<times> candidate) list" where
  "candidates keep r =
     map (\<lambda>(i, e). ((te_last_used e, i), TextCandidate i e)) (filter (text_evictable keep) (rg_models r))
     @ map (\<lambda>(i, g). ((ig_last_used g, i), ImageCandidate i g)) (filter (image_evictable keep) (rg_images r))"

text \<open>\<^verbatim>\<open>Iterator::min_by_key\<close>: the first of the smallest.\<close>

definition min_by_key :: "('k::linorder \<times> 'a) list \<Rightarrow> ('k \<times> 'a) option" where
  "min_by_key xs =
     (case xs of [] \<Rightarrow> None
      | x # xs \<Rightarrow> Some (fold (\<lambda>y best. if fst y < fst best then y else best) xs x))"

definition least_recently_used :: "nat option \<Rightarrow> registry \<Rightarrow> candidate option" where
  "least_recently_used keep r = map_option snd (min_by_key (candidates keep r))"

definition unload_text :: "world \<Rightarrow> nat \<Rightarrow> text_entry \<Rightarrow> registry \<Rightarrow> registry \<times> bool" where
  "unload_text w i e r =
     (if \<not> te_local e \<or> \<not> is_resident e then (r, True)
      else if \<not> wo_unload_ok w i (rg_samples r) then (r, False)
      else (r\<lparr>rg_models := adjust i (\<lambda>e. e\<lparr>te_resident := False, te_engine_loaded := False\<rparr>) (rg_models r)\<rparr>, True))"

definition unload_image :: "nat \<Rightarrow> img_entry \<Rightarrow> registry \<Rightarrow> registry \<times> bool" where
  "unload_image i g r =
     (if ig_busy g then (r, False)
      else (r\<lparr>rg_images := adjust i (\<lambda>g. g\<lparr>ig_resident := False\<rparr>) (rg_images r)\<rparr>, True))"

fun unload_candidate :: "world \<Rightarrow> candidate \<Rightarrow> registry \<Rightarrow> registry \<times> bool" where
  "unload_candidate w (TextCandidate i e) r = unload_text w i e r"
| "unload_candidate w (ImageCandidate i g) r = unload_image i g r"

lemma min_by_key_in: "min_by_key xs = Some x \<Longrightarrow> x \<in> set xs"
proof -
  have "fold (\<lambda>y best. if fst y < fst best then y else best) ys z \<in> insert z (set ys)" for ys and z :: "'a \<times> 'b"
    by (induction ys arbitrary: z) auto
  then show "min_by_key xs = Some x \<Longrightarrow> x \<in> set xs"
    by (cases xs) (auto simp: min_by_key_def)
qed

lemma min_by_key_least: "min_by_key xs = Some x \<Longrightarrow> y \<in> set xs \<Longrightarrow> fst x \<le> fst y"
proof -
  have "\<forall>y \<in> insert z (set ys). fst (fold (\<lambda>y best. if fst y < fst best then y else best) ys z) \<le> fst y"
    for ys and z :: "'a \<times> 'b"
  proof (induction ys arbitrary: z)
    case (Cons a ys)
    show ?case using Cons.IH [of a] Cons.IH [of z] by (auto split: if_splits intro: order_trans)
  qed simp
  then show "min_by_key xs = Some x \<Longrightarrow> y \<in> set xs \<Longrightarrow> fst x \<le> fst y"
    by (cases xs) (auto simp: min_by_key_def)
qed

lemma min_by_key_None: "min_by_key xs = None \<longleftrightarrow> xs = []"
  by (simp add: min_by_key_def split: list.splits)

lemma adjust_keys [simp]: "map fst (adjust i f xs) = map fst xs"
  by (induction xs) (auto simp: adjust_def)

text \<open>The number of models that could still be evicted.\<close>

definition evictable :: "nat option \<Rightarrow> registry \<Rightarrow> nat" where
  "evictable keep r = length (candidates keep r)"

lemma length_filter_adjust_less:
  assumes "(i, e) \<in> set xs" "P (i, e)" "\<And>e. \<not> P (i, f e)"
  shows "length (filter P (adjust i f xs)) < length (filter P xs)"
  using assms(1)
proof (induction xs)
  case (Cons x xs)
  have le: "length (filter P (adjust i f ys)) \<le> length (filter P ys)" for ys
    using assms(3) by (induction ys) (auto simp: adjust_def le_SucI split: if_splits)
  show ?case
  proof (cases "x = (i, e)")
    case True
    then show ?thesis using le [of xs] assms(2,3) by (simp add: adjust_def)
  next
    case False
    then have "length (filter P (adjust i f xs)) < length (filter P xs)" using Cons by auto
    then show ?thesis using assms(3) by (auto simp: adjust_def split: prod.splits)
  qed
qed simp

lemma lru_text:
  assumes "least_recently_used keep r = Some (TextCandidate i e)"
  shows "(i, e) \<in> set (rg_models r) \<and> text_evictable keep (i, e)"
  using assms by (auto simp: least_recently_used_def candidates_def dest!: min_by_key_in)

lemma lru_image:
  assumes "least_recently_used keep r = Some (ImageCandidate i g)"
  shows "(i, g) \<in> set (rg_images r) \<and> image_evictable keep (i, g)"
  using assms by (auto simp: least_recently_used_def candidates_def dest!: min_by_key_in)

lemma unload_candidate_less:
  assumes "least_recently_used keep r = Some c" "unload_candidate w c r = (r', True)"
  shows "evictable keep r' < evictable keep r"
proof (cases c)
  case (TextCandidate i e)
  with assms(1) lru_text have e: "(i, e) \<in> set (rg_models r)" "text_evictable keep (i, e)" by blast+
  with assms(2) TextCandidate have r': "r' = r\<lparr>rg_models := adjust i
      (\<lambda>e. e\<lparr>te_resident := False, te_engine_loaded := False\<rparr>) (rg_models r)\<rparr>"
    by (auto simp: unload_text_def text_evictable_def split: if_splits)
  show ?thesis
    using length_filter_adjust_less [OF e(1), of "text_evictable keep"
        "\<lambda>e. e\<lparr>te_resident := False, te_engine_loaded := False\<rparr>"] e(2)
    by (auto simp: evictable_def candidates_def r' text_evictable_def is_resident_def)
next
  case (ImageCandidate i g)
  with assms(1) lru_image have g: "(i, g) \<in> set (rg_images r)" "image_evictable keep (i, g)" by blast+
  with assms(2) ImageCandidate have r': "r' = r\<lparr>rg_images := adjust i (\<lambda>g. g\<lparr>ig_resident := False\<rparr>) (rg_images r)\<rparr>"
    by (auto simp: unload_image_def image_evictable_def split: if_splits)
  show ?thesis
    using length_filter_adjust_less [OF g(1), of "image_evictable keep" "\<lambda>g. g\<lparr>ig_resident := False\<rparr>"] g(2)
    by (auto simp: evictable_def candidates_def r' image_evictable_def)
qed

lemma evictable_samples [simp]: "evictable keep (r\<lparr>rg_samples := n\<rparr>) = evictable keep r"
  "evictable keep (r\<lparr>rg_evictions := m\<rparr>) = evictable keep r"
  by (simp_all add: evictable_def candidates_def)

text \<open>\<^verbatim>\<open>make_room\<close>: evict until the extra is admitted, nothing is left, or an unload fails.\<close>

function make_room :: "world \<Rightarrow> nat \<Rightarrow> nat option \<Rightarrow> registry \<Rightarrow> registry" where
  "make_room w extra keep r =
     (case can_admit_mb w extra r of
        (r1, True) \<Rightarrow> r1
      | (r1, False) \<Rightarrow>
          (case least_recently_used keep r1 of
             None \<Rightarrow> r1
           | Some c \<Rightarrow>
               (case unload_candidate w c r1 of
                  (r2, True) \<Rightarrow> make_room w extra keep (r2\<lparr>rg_evictions := Suc (rg_evictions r2)\<rparr>)
                | (r2, False) \<Rightarrow> r2)))"
  by pat_completeness auto
termination
  by (relation "measure (\<lambda>(w, extra, keep, r). evictable keep r)")
    (auto simp: can_admit_mb_def dest!: unload_candidate_less [OF _ sym])

declare make_room.simps [simp del]

section \<open>Operations\<close>

definition touch_text :: "nat \<Rightarrow> registry \<Rightarrow> registry" where
  "touch_text i r =
     r\<lparr>rg_models := adjust i (\<lambda>e. e\<lparr>te_last_used := Some (rg_clock r)\<rparr>) (rg_models r),
       rg_clock := Suc (rg_clock r)\<rparr>"

definition touch_image :: "nat \<Rightarrow> registry \<Rightarrow> registry" where
  "touch_image i r =
     r\<lparr>rg_images := adjust i (\<lambda>g. g\<lparr>ig_last_used := Some (rg_clock r)\<rparr>) (rg_images r),
       rg_clock := Suc (rg_clock r)\<rparr>"

definition restore :: "world \<Rightarrow> nat \<Rightarrow> registry \<Rightarrow> registry \<times> bool" where
  "restore w i r =
     (case map_of (rg_models r) i of
        None \<Rightarrow> (r, True)
      | Some e \<Rightarrow>
          if \<not> te_local e then (r, True)
          else if is_resident e \<and> te_engine_loaded e then (r, True)
          else
            let r1 = r\<lparr>rg_models := adjust i (\<lambda>e. e\<lparr>te_resident := False\<rparr>) (rg_models r)\<rparr>;
                r2 = make_room w (te_mb e) (Some i) r1;
                (r3, ok) = can_admit_mb w (te_mb e) r2
            in if \<not> ok then (r3, False)
               else if \<not> wo_reload_ok w i (rg_samples r3) then (r3, False)
               else (r3\<lparr>rg_models := adjust i (\<lambda>e. e\<lparr>te_resident := True, te_engine_loaded := True\<rparr>)
                       (rg_models r3)\<rparr>, True))"

definition preload :: "world \<Rightarrow> nat \<Rightarrow> registry \<Rightarrow> registry \<times> bool" where
  "preload w i r =
     (case restore w i r of (r', True) \<Rightarrow> (touch_text i r', True) | (r', False) \<Rightarrow> (r', False))"

definition evict :: "world \<Rightarrow> nat \<Rightarrow> registry \<Rightarrow> registry \<times> bool" where
  "evict w i r = (case map_of (rg_models r) i of None \<Rightarrow> (r, False) | Some e \<Rightarrow> unload_text w i e r)"

definition register :: "text_entry \<Rightarrow> registry \<Rightarrow> registry \<times> nat" where
  "register e r = (r\<lparr>rg_models := rg_models r @ [(rg_next_id r, e)], rg_next_id := Suc (rg_next_id r)\<rparr>,
     rg_next_id r)"

text \<open>The last part of \<^verbatim>\<open>load_local\<close>: admission, the engine, registration.\<close>

definition admit_and_build :: "world \<Rightarrow> nat \<Rightarrow> registry \<Rightarrow> registry \<times> bool" where
  "admit_and_build w mb r =
     (let (r3, ok) = can_admit_mb w mb r
      in if \<not> ok then (r3, False)
         else if \<not> wo_build_ok w (rg_samples r3) then (r3, False)
         else let (r4, i) = register \<lparr>te_local = True, te_resident = True,
                     te_engine_loaded = True, te_mb = mb, te_last_used = None\<rparr> r3
              in (touch_text i r4, True))"

text \<open>\<^verbatim>\<open>load_local\<close>: plan against an unlimited budget to know how much room to make, make it,
  plan again against what is really available, and admit that plan before building the engine.\<close>

definition load_local ::
  "world \<Rightarrow> 'p planner \<Rightarrow> 'p plan_settings \<Rightarrow> nat \<Rightarrow> 'p \<Rightarrow> 'p option \<Rightarrow> registry \<Rightarrow> registry \<times> bool" where
  "load_local w pl s max_active path mmproj r =
     (let weight = estimate_resident_mb_for_path_offloaded (pl_fs pl) (pl_backend pl) path (ps_gpu_layers s)
      in case plan_gguf pl path mmproj s max_active u64_max of
           Inl _ \<Rightarrow> (r, False)
         | Inr ideal \<Rightarrow>
             (let r1 = make_room w (case ideal of None \<Rightarrow> weight | Some p \<Rightarrow> mp_total_mb p) None r;
                  budget = available_mb (wo_governor w (rg_samples r1)) (ledger r1);
                  r2 = r1\<lparr>rg_samples := Suc (rg_samples r1)\<rparr>
              in case plan_gguf pl path mmproj s max_active budget of
                   Inl _ \<Rightarrow> (r2, False)
                 | Inr plan \<Rightarrow>
                     admit_and_build w (case plan of None \<Rightarrow> weight | Some p \<Rightarrow> mp_total_mb p) r2))"

definition reserve :: "world \<Rightarrow> reservation_kind \<Rightarrow> nat \<Rightarrow> registry \<Rightarrow> registry \<times> bool" where
  "reserve w k mb r =
     (if k = WorkingR \<and> mb = 0 then (r, False)
      else let (r1, ok) = can_admit_mb w mb (make_room w mb None r)
           in if \<not> ok then (r1, False)
              else (r1\<lparr>rg_reserved := (rg_reserved r1)(k := (rg_reserved r1 k + mb) mod 2 ^ 64),
                      rg_handles := (k, mb) # rg_handles r1\<rparr>, True))"

text \<open>Dropping a reservation handle gives its memory back; only a handle that exists can drop.\<close>

definition drop_reservation :: "reservation_kind \<Rightarrow> nat \<Rightarrow> registry \<Rightarrow> registry" where
  "drop_reservation k mb r =
     (if (k, mb) \<in> set (rg_handles r)
      then r\<lparr>rg_reserved := (rg_reserved r)(k := (rg_reserved r k + (2 ^ 64 - mb mod 2 ^ 64)) mod 2 ^ 64),
             rg_handles := remove1 (k, mb) (rg_handles r)\<rparr>
      else r)"

definition load_image :: "world \<Rightarrow> nat \<Rightarrow> registry \<Rightarrow> registry \<times> bool" where
  "load_image w mb r =
     (let (r1, ok) = can_admit_mb w mb (make_room w mb None r)
      in if \<not> ok then (r1, False)
         else if \<not> wo_build_ok w (rg_samples r1) then (r1, False)
         else (r1\<lparr>rg_images := rg_images r1 @ [(rg_next_id r1, \<lparr>ig_mb = mb, ig_resident = True,
                   ig_busy = False, ig_last_used = Some (rg_clock r1)\<rparr>)],
                 rg_next_id := Suc (rg_next_id r1), rg_clock := Suc (rg_clock r1)\<rparr>, True))"

definition restore_image :: "world \<Rightarrow> nat \<Rightarrow> registry \<Rightarrow> registry \<times> bool" where
  "restore_image w i r =
     (case map_of (rg_images r) i of
        None \<Rightarrow> (r, False)
      | Some g \<Rightarrow>
          let (r1, ok) = can_admit_mb w (ig_mb g) (make_room w (ig_mb g) (Some i) r)
          in if \<not> ok then (r1, False)
             else if \<not> wo_build_ok w (rg_samples r1) then (r1, False)
             else (touch_image i (r1\<lparr>rg_images := adjust i (\<lambda>g. g\<lparr>ig_resident := True\<rparr>) (rg_images r1)\<rparr>), True))"

definition preload_image :: "world \<Rightarrow> nat \<Rightarrow> registry \<Rightarrow> registry \<times> bool" where
  "preload_image w i r =
     (case map_of (rg_images r) i of
        None \<Rightarrow> (r, False)
      | Some g \<Rightarrow>
          if \<not> ig_resident g
          then (case restore_image w i r of (r1, True) \<Rightarrow> (touch_image i r1, True) | (r1, False) \<Rightarrow> (r1, False))
          else (touch_image i r, True))"

definition begin_image_job :: "world \<Rightarrow> nat \<Rightarrow> registry \<Rightarrow> registry \<times> bool" where
  "begin_image_job w i r =
     (case map_of (rg_images r) i of
        None \<Rightarrow> (r, False)
      | Some g \<Rightarrow>
          if ig_busy g then (r, False)
          else
            let (r1, ok) = (if \<not> ig_resident g then restore_image w i r
                            else can_admit_mb w 0 (make_room w 0 (Some i) r))
            in if \<not> ok then (r1, False)
               else (touch_image i (r1\<lparr>rg_images := adjust i (\<lambda>g. g\<lparr>ig_busy := True\<rparr>) (rg_images r1)\<rparr>), True))"

definition finish_image_job :: "nat \<Rightarrow> registry \<Rightarrow> registry" where
  "finish_image_job i r =
     (let r1 = touch_image i r
      in r1\<lparr>rg_images := adjust i (\<lambda>g. g\<lparr>ig_busy := False\<rparr>) (rg_images r1)\<rparr>)"

definition evict_image :: "nat \<Rightarrow> registry \<Rightarrow> registry \<times> bool" where
  "evict_image i r = (case map_of (rg_images r) i of None \<Rightarrow> (r, False) | Some g \<Rightarrow> unload_image i g r)"

text \<open>The controller below may unload an idle engine by itself.\<close>

definition engine_idle_unload :: "nat \<Rightarrow> registry \<Rightarrow> registry" where
  "engine_idle_unload i r =
     r\<lparr>rg_models := adjust i (\<lambda>e. e\<lparr>te_engine_loaded := False\<rparr>) (rg_models r)\<rparr>"

section \<open>What making room changes\<close>

lemma make_room_induct:
  assumes "P r"
    and sample: "\<And>r n. P r \<Longrightarrow> P (r\<lparr>rg_samples := n\<rparr>)"
    and counted: "\<And>r n. P r \<Longrightarrow> P (r\<lparr>rg_evictions := n\<rparr>)"
    and unloaded: "\<And>r c. P r \<Longrightarrow> least_recently_used keep r = Some c \<Longrightarrow> P (fst (unload_candidate w c r))"
  shows "P (make_room w extra keep r)"
  using assms(1)
proof (induction "evictable keep r" arbitrary: r rule: less_induct)
  case less
  let ?r1 = "r\<lparr>rg_samples := Suc (rg_samples r)\<rparr>"
  have p1: "P ?r1" using sample less.prems .
  show ?case
  proof (cases "snd (can_admit_mb w extra r)")
    case True
    then show ?thesis using p1 by (subst make_room.simps) (auto simp: can_admit_mb_def)
  next
    case denied: False
    show ?thesis
    proof (cases "least_recently_used keep ?r1")
      case None
      then show ?thesis using p1 denied by (subst make_room.simps) (auto simp: can_admit_mb_def)
    next
      case (Some c)
      obtain r2 ok where u: "unload_candidate w c ?r1 = (r2, ok)" by fastforce
      have p2: "P r2" using unloaded [OF p1 Some] u by simp
      show ?thesis
      proof (cases ok)
        case True
        have "evictable keep (r2\<lparr>rg_evictions := Suc (rg_evictions r2)\<rparr>) < evictable keep r"
          using unload_candidate_less [OF Some, of w r2] u True by simp
        from less.hyps [OF this counted [OF p2]] show ?thesis
          using u True denied Some by (subst make_room.simps) (simp add: can_admit_mb_def)
      next
        case False
        then show ?thesis using u p2 denied Some by (subst make_room.simps) (simp add: can_admit_mb_def)
      qed
    qed
  qed
qed

definition text_charge :: "nat \<times> text_entry \<Rightarrow> nat" where
  "text_charge x = (if te_local (snd x) \<and> te_resident (snd x) then te_mb (snd x) else 0)"

definition image_charge :: "nat \<times> img_entry \<Rightarrow> nat" where
  "image_charge x = (if ig_resident (snd x) then ig_mb (snd x) else 0)"

definition in_use :: "registry \<Rightarrow> nat" where
  "in_use r = sum_list (map text_charge (rg_models r)) + sum_list (map image_charge (rg_images r))
     + rg_reserved r SpeechR + rg_reserved r DecisionR + rg_reserved r DiarizationR + rg_reserved r WorkingR"

lemma sum_list_filter_if: "sum_list (map f (filter P xs)) = sum_list (map (\<lambda>x. if P x then f x else (0 :: nat)) xs)"
  by (induction xs) auto

lemma in_use_ledger:
  "in_use r = ledger_sum (map (model_entry_of \<circ> snd) (rg_models r)) (map (image_entry_of \<circ> snd) (rg_images r))
     (rg_reserved r SpeechR) (rg_reserved r DecisionR) (rg_reserved r DiarizationR) (rg_reserved r WorkingR)"
  by (simp add: in_use_def ledger_sum_def sum_list_filter_if comp_def text_charge_def [abs_def]
      image_charge_def [abs_def] model_entry_of_def image_entry_of_def is_resident_def cong: if_cong conj_cong)

lemma ledger_total_in_use: "al_total_mb (ledger r) = (if in_use r \<le> u64_max then Some (in_use r) else None)"
  by (simp add: ledger_def ledger_total in_use_ledger)

lemma admitted_fits:
  "can_admit_mb w extra r = (r', True) \<Longrightarrow>
     in_use r + extra \<le> inference_resident_mb (sn_budgets (wo_governor w (rg_samples r)))
     \<and> in_use r + extra \<le> u64_max"
  using ledger_total_in_use [of r]
  by (auto simp: can_admit_mb_def check_admission_def checks_allow_def Let_def checked_add_def split: if_splits)

lemma can_admit_mb_state: "can_admit_mb w extra r = (r', ok) \<Longrightarrow> r' = r\<lparr>rg_samples := Suc (rg_samples r)\<rparr>"
  by (simp add: can_admit_mb_def)

lemma sum_adjust_le:
  "(\<And>e. c (i, f e) \<le> c (i, e)) \<Longrightarrow> sum_list (map c (adjust i f xs)) \<le> (sum_list (map c xs) :: nat)"
  by (induction xs) (auto simp: adjust_def add_mono)

lemma adjust_absent: "i \<notin> fst ` set xs \<Longrightarrow> adjust i f xs = xs"
  by (induction xs) (auto simp: adjust_def)

lemma sum_adjust_eq:
  "distinct (map fst xs) \<Longrightarrow> map_of xs i = Some e \<Longrightarrow>
     sum_list (map c (adjust i f xs)) + c (i, e) = sum_list (map c xs) + (c (i, f e) :: nat)"
proof (induction xs)
  case (Cons x xs)
  show ?case
  proof (cases "fst x = i")
    case True
    with Cons.prems have "adjust i f xs = xs" by (intro adjust_absent) auto
    with True Cons.prems show ?thesis by (cases x) (simp add: adjust_def)
  next
    case False
    with Cons show ?thesis by (cases x) (auto simp: adjust_def)
  qed
qed simp

lemma map_of_adjust: "map_of (adjust i f xs) j = (if j = i then map_option f (map_of xs i) else map_of xs j)"
  by (induction xs) (auto simp: adjust_def)

definition registry_ok :: "registry \<Rightarrow> bool" where
  "registry_ok r \<longleftrightarrow>
     distinct (map fst (rg_models r)) \<and> distinct (map fst (rg_images r))
   \<and> (\<forall>i \<in> set (map fst (rg_models r)) \<union> set (map fst (rg_images r)). i < rg_next_id r)
   \<and> (\<forall>k. rg_reserved r k = sum_list (map snd (filter (\<lambda>h. fst h = k) (rg_handles r))))
   \<and> (\<forall>(i, g) \<in> set (rg_images r). ig_busy g \<longrightarrow> ig_resident g)"

lemma registry_ok_samples [simp]:
  "registry_ok (r\<lparr>rg_samples := n\<rparr>) = registry_ok r" "registry_ok (r\<lparr>rg_evictions := m\<rparr>) = registry_ok r"
  "in_use (r\<lparr>rg_samples := n\<rparr>) = in_use r" "in_use (r\<lparr>rg_evictions := m\<rparr>) = in_use r"
  by (simp_all add: registry_ok_def in_use_def)

lemma registry_ok_adjust_models:
  "registry_ok r \<Longrightarrow> registry_ok (r\<lparr>rg_models := adjust i f (rg_models r)\<rparr>)"
  by (simp add: registry_ok_def del: set_map)

lemma registry_ok_adjust_images:
  assumes "registry_ok r" "\<And>g. (i, g) \<in> set (rg_images r) \<Longrightarrow> ig_busy g \<longrightarrow> ig_resident g \<Longrightarrow> ig_busy (f g) \<longrightarrow> ig_resident (f g)"
  shows "registry_ok (r\<lparr>rg_images := adjust i f (rg_images r)\<rparr>)"
proof -
  have "\<forall>(j, g) \<in> set (adjust i f (rg_images r)). ig_busy g \<longrightarrow> ig_resident g"
    using assms by (auto simp: adjust_def registry_ok_def split: if_splits)
  with assms(1) show ?thesis by (simp add: registry_ok_def del: set_map)
qed

lemma unload_text_ok: "registry_ok r \<Longrightarrow> registry_ok (fst (unload_text w i e r))"
  by (simp add: unload_text_def registry_ok_adjust_models)

lemma unload_text_in_use: "in_use (fst (unload_text w i e r)) \<le> in_use r"
  using sum_adjust_le [of text_charge i "\<lambda>e. e\<lparr>te_resident := False, te_engine_loaded := False\<rparr>" "rg_models r"]
  by (simp add: unload_text_def in_use_def text_charge_def)

lemma unload_image_ok:
  "registry_ok r \<Longrightarrow> map_of (rg_images r) i = Some g \<Longrightarrow> registry_ok (fst (unload_image i g r))"
proof -
  assume ok: "registry_ok r" and g: "map_of (rg_images r) i = Some g"
  have "h = g" if "(i, h) \<in> set (rg_images r)" for h
    using that g ok by (metis registry_ok_def map_of_eq_Some_iff option.inject)
  then show ?thesis
    using ok by (auto simp: unload_image_def intro!: registry_ok_adjust_images)
qed

lemma unload_image_in_use: "in_use (fst (unload_image i g r)) \<le> in_use r"
  using sum_adjust_le [of image_charge i "\<lambda>g. g\<lparr>ig_resident := False\<rparr>" "rg_images r"]
  by (simp add: unload_image_def in_use_def image_charge_def)

lemma lru_unload_ok:
  assumes "registry_ok r" "least_recently_used keep r = Some c"
  shows "registry_ok (fst (unload_candidate w c r)) \<and> in_use (fst (unload_candidate w c r)) \<le> in_use r"
proof (cases c)
  case (TextCandidate i e)
  then show ?thesis using assms(1) by (simp add: unload_text_ok unload_text_in_use)
next
  case (ImageCandidate i g)
  with assms(2) lru_image have "(i, g) \<in> set (rg_images r)" by blast
  with assms(1) have "map_of (rg_images r) i = Some g" by (simp add: registry_ok_def)
  with assms(1) ImageCandidate show ?thesis by (simp add: unload_image_ok unload_image_in_use)
qed

lemma make_room_ok:
  "registry_ok r \<Longrightarrow> registry_ok (make_room w extra keep r) \<and> in_use (make_room w extra keep r) \<le> in_use r"
proof -
  assume "registry_ok r"
  then have "registry_ok r \<and> in_use r \<le> in_use r" by simp
  then show ?thesis
    by (rule make_room_induct [where P = "\<lambda>s. registry_ok s \<and> in_use s \<le> in_use r"])
      (simp_all, meson lru_unload_ok order_trans)
qed

lemma make_room_keeps_text:
  "map_of (rg_models (make_room w extra (Some i) r)) i = map_of (rg_models r) i"
proof (rule make_room_induct [where P = "\<lambda>s. map_of (rg_models s) i = map_of (rg_models r) i"])
  fix s c
  assume s: "map_of (rg_models s) i = map_of (rg_models r) i" and c: "least_recently_used (Some i) s = Some c"
  show "map_of (rg_models (fst (unload_candidate w c s))) i = map_of (rg_models r) i"
  proof (cases c)
    case (TextCandidate j e)
    with lru_text c have "j \<noteq> i" by (force simp: text_evictable_def)
    with s TextCandidate show ?thesis by (simp add: unload_text_def map_of_adjust)
  qed (simp add: s unload_image_def)
qed simp_all

lemma make_room_keeps_image:
  "map_of (rg_images (make_room w extra (Some i) r)) i = map_of (rg_images r) i"
proof (rule make_room_induct [where P = "\<lambda>s. map_of (rg_images s) i = map_of (rg_images r) i"])
  fix s c
  assume s: "map_of (rg_images s) i = map_of (rg_images r) i" and c: "least_recently_used (Some i) s = Some c"
  show "map_of (rg_images (fst (unload_candidate w c s))) i = map_of (rg_images r) i"
  proof (cases c)
    case (ImageCandidate j g)
    with lru_image c have "j \<noteq> i" by (force simp: image_evictable_def)
    with s ImageCandidate show ?thesis by (simp add: unload_image_def map_of_adjust)
  qed (simp add: s unload_text_def)
qed simp_all

text \<open>The charge of an entry switched on: the sum grows by its size.\<close>

lemma in_use_text_on:
  assumes "registry_ok r" "map_of (rg_models r) i = Some e" "\<not> te_resident e"
    and f: "\<And>e. te_local (f e) = te_local e" "\<And>e. te_mb (f e) = te_mb e"
  shows "in_use (r\<lparr>rg_models := adjust i f (rg_models r)\<rparr>) \<le> in_use r + te_mb e"
proof -
  have "distinct (map fst (rg_models r))" using assms(1) by (simp add: registry_ok_def)
  from sum_adjust_eq [OF this assms(2), of text_charge f] show ?thesis
    using assms(3) by (simp add: in_use_def text_charge_def f)
qed

lemma in_use_image_on:
  assumes "registry_ok r" "map_of (rg_images r) i = Some g" "\<not> ig_resident g" "ig_mb (f g) = ig_mb g"
  shows "in_use (r\<lparr>rg_images := adjust i f (rg_images r)\<rparr>) \<le> in_use r + ig_mb g"
proof -
  have "distinct (map fst (rg_images r))" using assms(1) by (simp add: registry_ok_def)
  from sum_adjust_eq [OF this assms(2), of image_charge f] show ?thesis
    using assms(3,4) by (simp add: in_use_def image_charge_def)
qed

lemma in_use_adjust_models:
  "(\<And>e. text_charge (i, f e) \<le> text_charge (i, e)) \<Longrightarrow>
     in_use (r\<lparr>rg_models := adjust i f (rg_models r)\<rparr>) \<le> in_use r"
  using sum_adjust_le [of text_charge i f "rg_models r"] by (simp add: in_use_def)

lemma in_use_adjust_images:
  "(\<And>g. image_charge (i, f g) \<le> image_charge (i, g)) \<Longrightarrow>
     in_use (r\<lparr>rg_images := adjust i f (rg_images r)\<rparr>) \<le> in_use r"
  using sum_adjust_le [of image_charge i f "rg_images r"] by (simp add: in_use_def)

lemma clock_update [simp]:
  "registry_ok (r\<lparr>rg_clock := n\<rparr>) = registry_ok r" "in_use (r\<lparr>rg_clock := n\<rparr>) = in_use r"
  by (simp_all add: registry_ok_def in_use_def)

lemma touch_text_ok:
  "registry_ok r \<Longrightarrow> registry_ok (touch_text i r) \<and> in_use (touch_text i r) \<le> in_use r"
  unfolding touch_text_def
  by (simp add: registry_ok_adjust_models in_use_adjust_models text_charge_def)

lemma touch_image_ok:
  "registry_ok r \<Longrightarrow> registry_ok (touch_image i r) \<and> in_use (touch_image i r) \<le> in_use r"
  unfolding touch_image_def
  by (auto intro!: registry_ok_adjust_images in_use_adjust_images simp: image_charge_def)

definition within_cap :: "world \<Rightarrow> nat \<Rightarrow> bool" where
  "within_cap w cap \<longleftrightarrow> (\<forall>n. inference_resident_mb (sn_budgets (wo_governor w n)) \<le> cap)"

text \<open>Every operation that asks for memory, in one shape: the outcome is well formed, a refusal
  uses no more than before, and a grant stays within the cap.\<close>

definition safe_outcome :: "nat \<Rightarrow> registry \<Rightarrow> registry \<times> bool \<Rightarrow> bool" where
  "safe_outcome cap r out \<longleftrightarrow>
     registry_ok (fst out)
   \<and> (\<not> snd out \<longrightarrow> in_use (fst out) \<le> in_use r)
   \<and> (snd out \<longrightarrow> in_use (fst out) \<le> max cap (in_use r))"

lemma admitted_within:
  "within_cap w cap \<Longrightarrow> can_admit_mb w extra r = (r', True) \<Longrightarrow> in_use r + extra \<le> cap"
  using admitted_fits [of w extra r r'] by (fastforce simp: within_cap_def intro: order_trans)

lemma restore_reload:
  assumes "map_of (rg_models r) i = Some e" "te_local e" "\<not> (is_resident e \<and> te_engine_loaded e)"
  shows "restore w i r =
     (case can_admit_mb w (te_mb e) (make_room w (te_mb e) (Some i)
         (r\<lparr>rg_models := adjust i (\<lambda>e. e\<lparr>te_resident := False\<rparr>) (rg_models r)\<rparr>)) of
        (r3, ok) \<Rightarrow> if \<not> ok then (r3, False) else if \<not> wo_reload_ok w i (rg_samples r3) then (r3, False)
          else (r3\<lparr>rg_models := adjust i (\<lambda>e. e\<lparr>te_resident := True, te_engine_loaded := True\<rparr>) (rg_models r3)\<rparr>, True))"
  using assms by (auto simp: restore_def Let_def)

lemma restore_safe:
  assumes "registry_ok r" "within_cap w cap"
  shows "safe_outcome cap r (restore w i r)"
proof (cases "map_of (rg_models r) i")
  case None
  then show ?thesis using assms(1) by (simp add: restore_def safe_outcome_def)
next
  case (Some e)
  show ?thesis
  proof (cases "\<not> te_local e \<or> (is_resident e \<and> te_engine_loaded e)")
    case True
    then show ?thesis using Some assms(1) by (auto simp: restore_def safe_outcome_def)
  next
    case False
    define r1 where "r1 = r\<lparr>rg_models := adjust i (\<lambda>e. e\<lparr>te_resident := False\<rparr>) (rg_models r)\<rparr>"
    define r2 where "r2 = make_room w (te_mb e) (Some i) r1"
    obtain r3 ok where a: "can_admit_mb w (te_mb e) r2 = (r3, ok)" by fastforce
    have r3: "r3 = r2\<lparr>rg_samples := Suc (rg_samples r2)\<rparr>" using can_admit_mb_state [OF a] .
    have r1: "registry_ok r1" "in_use r1 \<le> in_use r"
      unfolding r1_def using assms(1)
      by (simp_all add: registry_ok_adjust_models in_use_adjust_models text_charge_def)
    with make_room_ok [OF r1(1), of w "te_mb e" "Some i"]
    have r2: "registry_ok r2" "in_use r2 \<le> in_use r" by (simp_all add: r2_def)
    have entry: "map_of (rg_models r3) i = Some (e\<lparr>te_resident := False\<rparr>)"
      by (simp add: r3 r2_def make_room_keeps_text r1_def map_of_adjust Some)
    let ?f = "\<lambda>e. e\<lparr>te_resident := True, te_engine_loaded := True\<rparr>"
    have eq: "restore w i r =
        (if \<not> ok then (r3, False) else if \<not> wo_reload_ok w i (rg_samples r3) then (r3, False)
         else (r3\<lparr>rg_models := adjust i ?f (rg_models r3)\<rparr>, True))"
      using False by (auto simp: restore_def Some r1_def [symmetric] r2_def [symmetric] a)
    have on: "in_use (r3\<lparr>rg_models := adjust i ?f (rg_models r3)\<rparr>) \<le> in_use r2 + te_mb e"
      using in_use_text_on [of r3 i, OF _ entry, of ?f] r2 by (simp add: r3)
    have grant: "in_use r2 + te_mb e \<le> cap" if ok
      using admitted_within [OF assms(2), of "te_mb e" r2 r3] a that by simp
    have "registry_ok r3" "in_use r3 \<le> in_use r" using r2 by (simp_all add: r3)
    with on grant show ?thesis
      unfolding eq safe_outcome_def by (auto simp: registry_ok_adjust_models)
  qed
qed

lemma safe_after:
  assumes "safe_outcome cap r (s, True)" "registry_ok s \<Longrightarrow> registry_ok t \<and> in_use t \<le> in_use s"
  shows "safe_outcome cap r (t, True)"
  using assms by (auto simp: safe_outcome_def)

lemma preload_safe:
  assumes "registry_ok r" "within_cap w cap"
  shows "safe_outcome cap r (preload w i r)"
proof -
  obtain s ok where "restore w i r = (s, ok)" by fastforce
  then show ?thesis
    using restore_safe [OF assms, of i] safe_after [of cap r s "touch_text i s"] touch_text_ok [of s i]
    by (cases ok) (simp_all add: preload_def)
qed

text \<open>Making room and asking: the prelude that every load shares.\<close>

lemma room_and_admission:
  assumes "registry_ok r" "within_cap w cap" "can_admit_mb w mb (make_room w mb keep r) = (s, ok)"
  shows "registry_ok s \<and> in_use s \<le> in_use r \<and> (ok \<longrightarrow> in_use s + mb \<le> cap \<and> in_use s + mb \<le> u64_max)
    \<and> rg_models s = rg_models (make_room w mb keep r) \<and> rg_images s = rg_images (make_room w mb keep r)"
  using make_room_ok [OF assms(1), of w mb keep] can_admit_mb_state [OF assms(3)] assms(3)
    admitted_within [OF assms(2)] admitted_fits [of w mb "make_room w mb keep r" s]
  by auto

lemma reserved_bound: "rg_reserved r k \<le> in_use r"
  by (cases k) (simp_all add: in_use_def)

lemma reserve_counter:
  assumes "registry_ok r" "rg_reserved r k + mb \<le> u64_max"
  shows "registry_ok (r\<lparr>rg_reserved := (rg_reserved r)(k := (rg_reserved r k + mb) mod 2 ^ 64),
            rg_handles := (k, mb) # rg_handles r\<rparr>)
       \<and> in_use (r\<lparr>rg_reserved := (rg_reserved r)(k := (rg_reserved r k + mb) mod 2 ^ 64),
            rg_handles := (k, mb) # rg_handles r\<rparr>) = in_use r + mb"
  using assms by (cases k) (simp_all add: registry_ok_def in_use_def del: set_map)

lemma reserve_safe:
  assumes "registry_ok r" "within_cap w cap"
  shows "safe_outcome cap r (reserve w k mb r)"
proof -
  obtain s ok where a: "can_admit_mb w mb (make_room w mb None r) = (s, ok)" by fastforce
  note room = room_and_admission [OF assms a]
  have "ok \<Longrightarrow> rg_reserved s k + mb \<le> u64_max" using room reserved_bound [of s k] by simp
  with room reserve_counter [of s k mb] assms(1) show ?thesis
    by (cases ok) (auto simp: reserve_def safe_outcome_def a)
qed

lemma sum_list_remove1: "x \<in> set xs \<Longrightarrow> sum_list (map f xs) = f x + (sum_list (map f (remove1 x xs)) :: nat)"
  by (induction xs) auto

lemma drop_reservation_ok:
  assumes "registry_ok r" "in_use r \<le> u64_max"
  shows "registry_ok (drop_reservation k mb r) \<and> in_use (drop_reservation k mb r) \<le> in_use r"
proof (cases "(k, mb) \<in> set (rg_handles r)")
  case True
  let ?h = "filter (\<lambda>h. fst h = k) (rg_handles r)"
  have k: "rg_reserved r k = mb + sum_list (map snd (remove1 (k, mb) ?h))"
    using True assms(1) sum_list_remove1 [of "(k, mb)" ?h snd] by (simp add: registry_ok_def)
  have big: "rg_reserved r k \<le> u64_max" using assms(2) reserved_bound [of r k] by simp
  have wrap: "(rg_reserved r k + (2 ^ 64 - mb mod 2 ^ 64)) mod 2 ^ 64 = rg_reserved r k - mb"
  proof -
    have "(rg_reserved r k + (2 ^ 64 - mb mod 2 ^ 64)) = rg_reserved r k - mb + 2 ^ 64"
      using k big by simp
    then show ?thesis using big by simp
  qed
  have other: "filter (\<lambda>h. fst h = j) (remove1 (k, mb) (rg_handles r)) = remove1 (k, mb) (filter (\<lambda>h. fst h = j) (rg_handles r))" for j
    by (simp add: filter_remove1)
  have same: "remove1 (k, mb) (filter (\<lambda>h. fst h = j) (rg_handles r)) = filter (\<lambda>h. fst h = j) (rg_handles r)"
    if "j \<noteq> k" for j using that by (intro remove1_idem) auto
  let ?r = "r\<lparr>rg_reserved := (rg_reserved r)(k := rg_reserved r k - mb), rg_handles := remove1 (k, mb) (rg_handles r)\<rparr>"
  have "drop_reservation k mb r = ?r" using True wrap by (simp add: drop_reservation_def)
  moreover have "registry_ok ?r"
    using assms(1) k by (auto simp: registry_ok_def other same simp del: set_map)
  moreover have "in_use ?r \<le> in_use r" by (cases k) (simp_all add: in_use_def)
  ultimately show ?thesis by simp
qed (simp add: assms drop_reservation_def)

lemma fresh_id:
  "registry_ok r \<Longrightarrow> rg_next_id r \<notin> set (map fst (rg_models r)) \<and> rg_next_id r \<notin> set (map fst (rg_images r))"
  by (simp only: registry_ok_def) (metis UnCI less_irrefl)

lemma ids_step: "\<forall>i \<in> A \<union> B. i < (n :: nat) \<Longrightarrow> \<forall>i \<in> insert n (A \<union> B). i < Suc n"
  by (simp add: less_SucI)

lemma register_ok:
  assumes "registry_ok r"
  shows "registry_ok (fst (register e r)) \<and> in_use (fst (register e r)) = in_use r + text_charge (rg_next_id r, e)"
proof -
  have ids: "\<forall>i \<in> insert (rg_next_id r) (set (map fst (rg_models r)) \<union> set (map fst (rg_images r))). i < Suc (rg_next_id r)"
    using assms unfolding registry_ok_def by (elim conjE) (rule ids_step)
  then show ?thesis
    using assms fresh_id [OF assms]
    by (simp add: registry_ok_def register_def in_use_def Un_insert_left del: set_map)
qed

lemma admit_and_build_safe:
  assumes "within_cap w cap" "registry_ok r2" "in_use r2 \<le> in_use r"
  shows "safe_outcome cap r (admit_and_build w mb r2)"
proof -
  let ?e = "\<lparr>te_local = True, te_resident = True, te_engine_loaded = True, te_mb = mb, te_last_used = None\<rparr>"
  obtain r3 ok where a: "can_admit_mb w mb r2 = (r3, ok)" by fastforce
  have r3: "registry_ok r3" "in_use r3 = in_use r2" using can_admit_mb_state [OF a] assms by simp_all
  have "in_use r2 + mb \<le> cap" if ok using admitted_within [OF assms(1), of mb r2 r3] a that by simp
  moreover have "text_charge (rg_next_id r3, ?e) = mb" by (simp add: text_charge_def)
  ultimately show ?thesis
    using register_ok [OF r3(1), of ?e] r3 assms(3)
      touch_text_ok [of "fst (register ?e r3)" "snd (register ?e r3)"]
    by (auto simp: admit_and_build_def a safe_outcome_def split_beta Let_def)
qed

lemma load_local_safe:
  assumes "registry_ok r" "within_cap w cap"
  shows "safe_outcome cap r (load_local w pl s n path mm r)"
proof (cases "plan_gguf pl path mm s n u64_max")
  case (Inl err)
  then show ?thesis using assms(1) by (simp add: load_local_def safe_outcome_def)
next
  case (Inr ideal)
  define want where "want = (case ideal of None \<Rightarrow> estimate_resident_mb_for_path_offloaded (pl_fs pl)
      (pl_backend pl) path (ps_gpu_layers s) | Some p \<Rightarrow> mp_total_mb p)"
  define r1 where "r1 = make_room w want None r"
  define r2 where "r2 = r1\<lparr>rg_samples := Suc (rg_samples r1)\<rparr>"
  have r2: "registry_ok r2" "in_use r2 \<le> in_use r"
    using make_room_ok [OF assms(1), of w want None] by (simp_all add: r2_def r1_def)
  then have "safe_outcome cap r (r2, False)" by (simp add: safe_outcome_def)
  with admit_and_build_safe [OF assms(2) r2] show ?thesis
    by (simp add: load_local_def Inr want_def [symmetric] r1_def [symmetric] r2_def [symmetric]
        Let_def split: sum.splits)
qed

lemma append_image_ok:
  assumes "registry_ok r" "ig_busy g \<longrightarrow> ig_resident g"
  shows "registry_ok (r\<lparr>rg_images := rg_images r @ [(rg_next_id r, g)], rg_next_id := Suc (rg_next_id r),
           rg_clock := n\<rparr>)
       \<and> in_use (r\<lparr>rg_images := rg_images r @ [(rg_next_id r, g)], rg_next_id := Suc (rg_next_id r),
           rg_clock := n\<rparr>) = in_use r + image_charge (rg_next_id r, g)"
proof -
  have ids: "\<forall>i \<in> insert (rg_next_id r) (set (map fst (rg_models r)) \<union> set (map fst (rg_images r))). i < Suc (rg_next_id r)"
    using assms(1) unfolding registry_ok_def by (elim conjE) (rule ids_step)
  then show ?thesis
    using assms fresh_id [OF assms(1)] by (simp add: registry_ok_def in_use_def ball_Un del: set_map)
qed

lemma load_image_safe:
  assumes "registry_ok r" "within_cap w cap"
  shows "safe_outcome cap r (load_image w mb r)"
proof -
  obtain s ok where a: "can_admit_mb w mb (make_room w mb None r) = (s, ok)" by fastforce
  note room = room_and_admission [OF assms a]
  from room append_image_ok [of s "\<lparr>ig_mb = mb, ig_resident = True, ig_busy = False,
      ig_last_used = Some (rg_clock s)\<rparr>" "Suc (rg_clock s)"]
  show ?thesis by (auto simp: load_image_def safe_outcome_def a image_charge_def)
qed

lemma restore_image_spec:
  assumes "registry_ok r" "within_cap w cap" "map_of (rg_images r) i = Some g" "\<not> ig_resident g"
  shows "safe_outcome cap r (restore_image w i r)
    \<and> (snd (restore_image w i r) \<longrightarrow>
         (\<exists>h. map_of (rg_images (fst (restore_image w i r))) i = Some h \<and> ig_resident h))"
proof -
  obtain s ok where a: "can_admit_mb w (ig_mb g) (make_room w (ig_mb g) (Some i) r) = (s, ok)" by fastforce
  note room = room_and_admission [OF assms(1,2) a]
  have entry: "map_of (rg_images s) i = Some g" using room make_room_keeps_image assms(3) by simp
  let ?s = "s\<lparr>rg_images := adjust i (\<lambda>g. g\<lparr>ig_resident := True\<rparr>) (rg_images s)\<rparr>"
  have ok: "registry_ok ?s" using room by (intro registry_ok_adjust_images) auto
  have "in_use ?s \<le> in_use s + ig_mb g"
    using room entry assms(4) by (intro in_use_image_on) simp_all
  with touch_image_ok [OF ok, of i] room
  have "safe_outcome cap r (restore_image w i r)"
    by (auto simp: restore_image_def assms(3) a safe_outcome_def)
  moreover have "snd (restore_image w i r) \<longrightarrow>
      (\<exists>h. map_of (rg_images (fst (restore_image w i r))) i = Some h \<and> ig_resident h)"
    using entry by (auto simp: restore_image_def assms(3) a touch_image_def map_of_adjust)
  ultimately show ?thesis by blast
qed

lemma preload_image_safe:
  assumes "registry_ok r" "within_cap w cap"
  shows "safe_outcome cap r (preload_image w i r)"
proof (cases "map_of (rg_images r) i")
  case None
  then show ?thesis using assms(1) by (simp add: preload_image_def safe_outcome_def)
next
  case (Some g)
  show ?thesis
  proof (cases "ig_resident g")
    case True
    then show ?thesis
      using Some touch_image_ok [OF assms(1), of i] by (auto simp: preload_image_def safe_outcome_def)
  next
    case False
    obtain s ok where "restore_image w i r = (s, ok)" by fastforce
    then show ?thesis
      using restore_image_spec [OF assms Some False] Some False
        safe_after [of cap r s "touch_image i s"] touch_image_ok [of s i]
      by (cases ok) (simp_all add: preload_image_def)
  qed
qed

lemma begin_image_job_safe:
  assumes "registry_ok r" "within_cap w cap"
  shows "safe_outcome cap r (begin_image_job w i r)"
proof (cases "map_of (rg_images r) i")
  case None
  then show ?thesis using assms(1) by (simp add: begin_image_job_def safe_outcome_def)
next
  case (Some g)
  show ?thesis
  proof (cases "ig_busy g")
    case True
    then show ?thesis using Some assms(1) by (simp add: begin_image_job_def safe_outcome_def)
  next
    case False
    define out where "out = (if \<not> ig_resident g then restore_image w i r
        else can_admit_mb w 0 (make_room w 0 (Some i) r))"
    obtain s ok where s: "out = (s, ok)" by fastforce
    have safe: "safe_outcome cap r (s, ok)"
      and entry: "ok \<Longrightarrow> \<exists>h. map_of (rg_images s) i = Some h \<and> ig_resident h"
    proof (atomize (full), cases "ig_resident g")
      case True
      then have a: "can_admit_mb w 0 (make_room w 0 (Some i) r) = (s, ok)" using s by (simp add: out_def)
      from room_and_admission [OF assms a] True Some make_room_keeps_image [of w 0 i r]
      show "safe_outcome cap r (s, ok) \<and> (ok \<longrightarrow> (\<exists>h. map_of (rg_images s) i = Some h \<and> ig_resident h))"
        by (auto simp: safe_outcome_def)
    next
      case False
      with restore_image_spec [OF assms Some False] s
      show "safe_outcome cap r (s, ok) \<and> (ok \<longrightarrow> (\<exists>h. map_of (rg_images s) i = Some h \<and> ig_resident h))"
        by (simp add: out_def)
    qed
    have eq: "begin_image_job w i r = (if \<not> ok then (s, False)
        else (touch_image i (s\<lparr>rg_images := adjust i (\<lambda>g. g\<lparr>ig_busy := True\<rparr>) (rg_images s)\<rparr>), True))"
      using False s by (simp add: begin_image_job_def Some out_def [symmetric])
    show ?thesis
    proof (cases ok)
      case True
      let ?s = "s\<lparr>rg_images := adjust i (\<lambda>g. g\<lparr>ig_busy := True\<rparr>) (rg_images s)\<rparr>"
      from entry True obtain h where h: "map_of (rg_images s) i = Some h" "ig_resident h" by blast
      have "safe_outcome cap r (?s, True)"
      proof (rule safe_after)
        show "safe_outcome cap r (s, True)" using safe True by simp
        assume sok: "registry_ok s"
        have "registry_ok ?s"
        proof (rule registry_ok_adjust_images [OF sok])
          fix g'
          assume "(i, g') \<in> set (rg_images s)"
          with sok h(1) have "g' = h" by (metis registry_ok_def map_of_eq_Some_iff option.inject)
          then show "ig_busy (g'\<lparr>ig_busy := True\<rparr>) \<longrightarrow> ig_resident (g'\<lparr>ig_busy := True\<rparr>)" using h by simp
        qed
        then show "registry_ok ?s \<and> in_use ?s \<le> in_use s"
          by (simp add: in_use_adjust_images image_charge_def)
      qed
      then show ?thesis unfolding eq using True touch_image_ok [of ?s i] safe_after by auto
    next
      case False
      then show ?thesis unfolding eq using safe by simp
    qed
  qed
qed

section \<open>Histories\<close>

text \<open>Paths are strings here.\<close>

datatype demand =
    Restore nat | Preload nat
  | LoadLocal "string planner" "string plan_settings" nat string "string option"
  | Reserve reservation_kind nat | LoadImage nat | PreloadImage nat | BeginImageJob nat

fun serve :: "demand \<Rightarrow> world \<Rightarrow> registry \<Rightarrow> registry \<times> bool" where
  "serve (Restore i) w r = restore w i r"
| "serve (Preload i) w r = preload w i r"
| "serve (LoadLocal pl s n path mm) w r = load_local w pl s n path mm r"
| "serve (Reserve k mb) w r = reserve w k mb r"
| "serve (LoadImage mb) w r = load_image w mb r"
| "serve (PreloadImage i) w r = preload_image w i r"
| "serve (BeginImageJob i) w r = begin_image_job w i r"

datatype giving_back =
    Evict world nat | EvictImage nat | FinishImageJob nat | DropReservation reservation_kind nat
  | Touch nat | EngineIdleUnload nat

fun give_back :: "giving_back \<Rightarrow> registry \<Rightarrow> registry" where
  "give_back (Evict w i) r = fst (evict w i r)"
| "give_back (EvictImage i) r = fst (evict_image i r)"
| "give_back (FinishImageJob i) r = finish_image_job i r"
| "give_back (DropReservation k mb) r = drop_reservation k mb r"
| "give_back (Touch i) r = touch_text i r"
| "give_back (EngineIdleUnload i) r = engine_idle_unload i r"

lemma serve_safe: "registry_ok r \<Longrightarrow> within_cap w cap \<Longrightarrow> safe_outcome cap r (serve d w r)"
  by (cases d) (simp_all add: restore_safe preload_safe load_local_safe reserve_safe load_image_safe
      preload_image_safe begin_image_job_safe)

lemma give_back_ok:
  assumes "registry_ok r" "in_use r \<le> u64_max"
  shows "registry_ok (give_back e r) \<and> in_use (give_back e r) \<le> in_use r"
proof (cases e)
  case (FinishImageJob i)
  from touch_image_ok [OF assms(1), of i] show ?thesis
    unfolding FinishImageJob give_back.simps finish_image_job_def Let_def
    by (auto intro!: registry_ok_adjust_images order_trans [OF in_use_adjust_images] simp: image_charge_def)
next
  case (EngineIdleUnload i)
  show ?thesis
    unfolding EngineIdleUnload give_back.simps engine_idle_unload_def
    using assms(1) by (auto intro!: registry_ok_adjust_models in_use_adjust_models simp: text_charge_def)
qed (use assms in \<open>auto simp: evict_def evict_image_def unload_text_ok unload_text_in_use unload_image_ok
    unload_image_in_use drop_reservation_ok touch_text_ok split: option.splits\<close>)

interpretation registry: admission_control registry_ok in_use serve within_cap give_back "\<lambda>n. n \<le> u64_max"
proof (unfold_locales, goal_cases)
  case (1 s cap g r s')
  with serve_safe [of s g cap r] show ?case by (simp add: safe_outcome_def)
next
  case (2 s cap g r s')
  with serve_safe [of s g cap r] show ?case by (simp add: safe_outcome_def)
next
  case (3 s cap e)
  with give_back_ok [of s e] show ?case by simp
qed

definition empty_registry :: registry where
  "empty_registry = \<lparr>rg_models = [], rg_images = [], rg_next_id = 0, rg_reserved = (\<lambda>_. 0),
     rg_handles = [], rg_evictions = 0, rg_samples = 0, rg_clock = 0\<rparr>"

inductive registry_history :: "nat \<Rightarrow> registry \<Rightarrow> bool" for cap where
  started: "registry_history cap empty_registry"
| demanded: "registry_history cap r \<Longrightarrow> within_cap w cap \<Longrightarrow> registry_history cap (fst (serve d w r))"
| given_back: "registry_history cap r \<Longrightarrow> registry_history cap (give_back e r)"

inductive_cases registry_historyE: "registry_history cap r"

lemma registry_history_reaches: "registry_history cap r \<Longrightarrow> registry.reaches cap empty_registry r"
  by (induction rule: registry_history.induct) (auto intro: registry.reaches.intros)

lemma registry_history_ok:
  assumes "registry_history cap r" "cap \<le> u64_max"
  shows "registry_ok r \<and> in_use r \<le> cap"
proof -
  have "registry_ok empty_registry" "in_use empty_registry = 0"
    by (simp_all add: empty_registry_def registry_ok_def in_use_def)
  with registry.stays_within [OF registry_history_reaches [OF assms(1)]] assms(2) show ?thesis by simp
qed

text \<open>
  C28: The runtime never commits more than its quota.  Whatever is loaded, restored, preloaded,
  reserved, evicted, dropped or unloaded by the controller, in any order and against any
  samples of the machine whose inference budgets are at most \<open>cap\<close>, the models and
  reservations in use add up to at most \<open>cap\<close>, the ledger reports that sum exactly (it never
  overflows), each reservation counter equals the handles still held, and a busy image model
  stays resident.
\<close>

theorem registry_within_quota:
  assumes "registry_history cap r" "cap \<le> u64_max"
  shows "al_total_mb (ledger r) = Some (in_use r) \<and> in_use r \<le> cap
    \<and> (\<forall>k. rg_reserved r k = sum_list (map snd (filter (\<lambda>h. fst h = k) (rg_handles r))))
    \<and> (\<forall>(i, g) \<in> set (rg_images r). ig_busy g \<longrightarrow> ig_resident g)"
  using registry_history_ok [OF assms] ledger_total_in_use [of r] assms(2)
  by (simp add: registry_ok_def)

definition sample_world :: world where
  "sample_world = \<lparr>wo_governor = (\<lambda>_. sample_governor Normal), wo_unload_ok = (\<lambda>_ _. True),
     wo_reload_ok = (\<lambda>_ _. True), wo_build_ok = (\<lambda>_. True)\<rparr>"

lemma sample_admits:
  "can_admit_mb sample_world extra r =
     (r\<lparr>rg_samples := Suc (rg_samples r)\<rparr>, in_use r + extra \<le> 2048)"
proof -
  have "checks_allow (check_admission (ledger r) extra (sample_governor Normal)) \<longleftrightarrow> in_use r + extra \<le> 2048"
    using ledger_total_in_use [of r]
    by (auto simp: check_admission_def checks_allow_def model_load_conditions_def sample_governor_def
        checked_add_def less_pressure_def Let_def split: if_splits)
  then show ?thesis by (simp add: can_admit_mb_def sample_world_def)
qed

lemma registry_within_quota_witness:
  "in_use (fst (serve (Reserve SpeechR 500) sample_world empty_registry)) = 500
   \<and> al_total_mb (ledger (fst (serve (Reserve SpeechR 500) sample_world empty_registry))) = Some 500"
proof -
  let ?r = "fst (serve (Reserve SpeechR 500) sample_world empty_registry)"
  have "registry_history 2048 ?r"
    by (intro demanded started) (simp add: within_cap_def sample_world_def sample_governor_def)
  note q = registry_within_quota [OF this]
  have "in_use ?r = 500"
    by (simp add: reserve_def make_room.simps sample_admits) (simp add: in_use_def empty_registry_def)
  with q show ?thesis by simp
qed

text \<open>
  Making room always returns, for one of three reasons only: the extra memory is admitted by
  the last sample taken, nothing evictable is left, or the least recently used candidate
  refused to unload.
\<close>

lemma make_room_outcome:
  "(\<exists>t. can_admit_mb w extra t = (make_room w extra keep r, True))
   \<or> least_recently_used keep (make_room w extra keep r) = None
   \<or> (\<exists>c. least_recently_used keep (make_room w extra keep r) = Some c
        \<and> snd (unload_candidate w c (make_room w extra keep r)) = False)"
proof (induction "evictable keep r" arbitrary: r rule: less_induct)
  case less
  let ?r1 = "r\<lparr>rg_samples := Suc (rg_samples r)\<rparr>"
  show ?case
  proof (cases "snd (can_admit_mb w extra r)")
    case True
    then have "make_room w extra keep r = ?r1" by (subst make_room.simps) (simp add: can_admit_mb_def)
    moreover have "can_admit_mb w extra r = (?r1, True)" using True by (simp add: can_admit_mb_def)
    ultimately show ?thesis by metis
  next
    case denied: False
    show ?thesis
    proof (cases "least_recently_used keep ?r1")
      case None
      then show ?thesis using denied by (subst (2) make_room.simps) (simp add: can_admit_mb_def)
    next
      case (Some c)
      obtain r2 ok where u: "unload_candidate w c ?r1 = (r2, ok)" by fastforce
      show ?thesis
      proof (cases ok)
        case True
        have "evictable keep (r2\<lparr>rg_evictions := Suc (rg_evictions r2)\<rparr>) < evictable keep r"
          using unload_candidate_less [OF Some, of w r2] u True by simp
        from less [OF this] u True denied Some show ?thesis
          by (simp add: make_room.simps [of w extra keep r] can_admit_mb_def)
      next
        case False
        then have "r2 = ?r1"
          using u by (cases c) (auto simp: unload_text_def unload_image_def split: if_splits)
        then show ?thesis using u False denied Some by (simp add: make_room.simps [of w extra keep r] can_admit_mb_def)
      qed
    qed
  qed
qed

lemma spare_text:
  assumes "registry_ok r" "map_of (rg_models r) i = Some e" "\<not> text_evictable keep (i, e)"
  shows "map_of (rg_models (make_room w extra keep r)) i = Some e"
proof -
  have "registry_ok (make_room w extra keep r) \<and> map_of (rg_models (make_room w extra keep r)) i = Some e"
  proof (rule make_room_induct [where P = "\<lambda>s. registry_ok s \<and> map_of (rg_models s) i = Some e"])
    fix s c
    assume s: "registry_ok s \<and> map_of (rg_models s) i = Some e" and c: "least_recently_used keep s = Some c"
    have "map_of (rg_models (fst (unload_candidate w c s))) i = Some e"
    proof (cases c)
      case (TextCandidate j f)
      with c lru_text have "(j, f) \<in> set (rg_models s)" "text_evictable keep (j, f)" by blast+
      with s assms(3) have "j \<noteq> i" by (auto simp: registry_ok_def)
      with s TextCandidate show ?thesis by (simp add: unload_text_def map_of_adjust)
    qed (simp add: s unload_image_def)
    with s c lru_unload_ok show "registry_ok (fst (unload_candidate w c s))
        \<and> map_of (rg_models (fst (unload_candidate w c s))) i = Some e" by blast
  qed (use assms in simp_all)
  then show ?thesis by simp
qed

lemma spare_image:
  assumes "registry_ok r" "map_of (rg_images r) i = Some g" "\<not> image_evictable keep (i, g)"
  shows "map_of (rg_images (make_room w extra keep r)) i = Some g"
proof -
  have "registry_ok (make_room w extra keep r) \<and> map_of (rg_images (make_room w extra keep r)) i = Some g"
  proof (rule make_room_induct [where P = "\<lambda>s. registry_ok s \<and> map_of (rg_images s) i = Some g"])
    fix s c
    assume s: "registry_ok s \<and> map_of (rg_images s) i = Some g" and c: "least_recently_used keep s = Some c"
    have "map_of (rg_images (fst (unload_candidate w c s))) i = Some g"
    proof (cases c)
      case (ImageCandidate j f)
      with c lru_image have "(j, f) \<in> set (rg_images s)" "image_evictable keep (j, f)" by blast+
      with s assms(3) have "j \<noteq> i" by (auto simp: registry_ok_def)
      with s ImageCandidate show ?thesis by (simp add: unload_image_def map_of_adjust)
    qed (simp add: s unload_text_def)
    with s c lru_unload_ok show "registry_ok (fst (unload_candidate w c s))
        \<and> map_of (rg_images (fst (unload_candidate w c s))) i = Some g" by blast
  qed (use assms in simp_all)
  then show ?thesis by simp
qed

text \<open>
  What eviction spares and whom it picks.  Making room never touches a remote model, the
  model it must keep, or an image model that is busy; and the candidate it unloads is one used
  no later than any other candidate, never-used models first.
\<close>

lemma make_room_spares:
  assumes "registry_ok r"
  shows "(map_of (rg_models r) i = Some e \<longrightarrow> \<not> te_local e \<or> keep = Some i \<longrightarrow>
            map_of (rg_models (make_room w extra keep r)) i = Some e)
       \<and> (map_of (rg_images r) i = Some g \<longrightarrow> ig_busy g \<or> keep = Some i \<longrightarrow>
            map_of (rg_images (make_room w extra keep r)) i = Some g)
       \<and> (least_recently_used keep r = Some c \<longrightarrow>
            (\<exists>k. (k, c) \<in> set (candidates keep r) \<and> (\<forall>(k', c') \<in> set (candidates keep r). k \<le> k')))"
proof (intro conjI impI)
  assume "map_of (rg_models r) i = Some e" "\<not> te_local e \<or> keep = Some i"
  with assms show "map_of (rg_models (make_room w extra keep r)) i = Some e"
    by (intro spare_text) (auto simp: text_evictable_def)
next
  assume "map_of (rg_images r) i = Some g" "ig_busy g \<or> keep = Some i"
  with assms show "map_of (rg_images (make_room w extra keep r)) i = Some g"
    by (intro spare_image) (auto simp: image_evictable_def)
next
  assume "least_recently_used keep r = Some c"
  then obtain k where k: "min_by_key (candidates keep r) = Some (k, c)"
    by (auto simp: least_recently_used_def)
  from min_by_key_in [OF k] min_by_key_least [OF k]
  show "\<exists>k. (k, c) \<in> set (candidates keep r) \<and> (\<forall>(k', c') \<in> set (candidates keep r). k \<le> k')" by fastforce
qed

definition sample_registry :: registry where
  "sample_registry = empty_registry\<lparr>rg_models :=
     [(0, \<lparr>te_local = True, te_resident = True, te_engine_loaded = True, te_mb = 900, te_last_used = Some 4\<rparr>),
      (1, \<lparr>te_local = True, te_resident = True, te_engine_loaded = True, te_mb = 900, te_last_used = Some 2\<rparr>)],
     rg_next_id := 2\<rparr>"

lemma sample_make_room:
  "map_of (rg_models (make_room sample_world 900 (Some 1) sample_registry)) 0
     = Some \<lparr>te_local = True, te_resident = False, te_engine_loaded = False, te_mb = 900, te_last_used = Some 4\<rparr>"
proof -
  define s where "s = (fst (unload_text sample_world 0 \<lparr>te_local = True, te_resident = True,
      te_engine_loaded = True, te_mb = 900, te_last_used = Some 4\<rparr> (sample_registry\<lparr>rg_samples := 1\<rparr>)))\<lparr>rg_evictions := 1\<rparr>"
  have s: "rg_models s = [(0, \<lparr>te_local = True, te_resident = False, te_engine_loaded = False, te_mb = 900, te_last_used = Some 4\<rparr>),
      (1, \<lparr>te_local = True, te_resident = True, te_engine_loaded = True, te_mb = 900, te_last_used = Some 2\<rparr>)]"
    "in_use s = 900"
    by (simp_all add: s_def unload_text_def is_resident_def sample_world_def sample_registry_def adjust_def
        empty_registry_def in_use_def text_charge_def)
  have "in_use sample_registry = 1800"
    by (simp add: sample_registry_def empty_registry_def in_use_def text_charge_def)
  then have "make_room sample_world 900 (Some 1) sample_registry = make_room sample_world 900 (Some 1) s"
    by (subst make_room.simps)
      (simp add: sample_admits s_def, simp add: sample_registry_def empty_registry_def least_recently_used_def
        candidates_def text_evictable_def is_resident_def min_by_key_def unload_text_def sample_world_def)
  also have "\<dots> = s\<lparr>rg_samples := Suc (rg_samples s)\<rparr>"
    by (subst make_room.simps) (simp add: sample_admits s)
  finally show ?thesis by (simp add: s)
qed

lemma make_room_spares_witness:
  "map_of (rg_models (make_room sample_world 900 (Some 1) sample_registry)) 1 = map_of (rg_models sample_registry) 1
   \<and> map_of (rg_models (make_room sample_world 900 (Some 1) sample_registry)) 0 \<noteq> map_of (rg_models sample_registry) 0"
proof -
  have ok: "registry_ok sample_registry" by (simp add: sample_registry_def empty_registry_def registry_ok_def)
  have "\<exists>e. map_of (rg_models sample_registry) 1 = Some e" by (simp add: sample_registry_def)
  with make_room_spares [OF ok, where i = 1 and keep = "Some 1" and w = sample_world and extra = 900]
  have "map_of (rg_models (make_room sample_world 900 (Some 1) sample_registry)) 1
      = map_of (rg_models sample_registry) 1" by auto
  moreover have "map_of (rg_models (make_room sample_world 900 (Some 1) sample_registry)) 0
      \<noteq> map_of (rg_models sample_registry) 0"
    unfolding sample_make_room by (simp add: sample_registry_def)
  ultimately show ?thesis by simp
qed

text \<open>
  A successful restore really restores: afterwards the model's weights are resident in the
  ledger and loaded in the engine, whatever happened to it before; a failed one leaves it not
  resident, so that the ledger never charges memory that is not held.
\<close>

lemma restore_outcome:
  assumes "map_of (rg_models r) i = Some e" "te_local e"
  shows "\<exists>e'. map_of (rg_models (fst (restore w i r))) i = Some e' \<and> te_mb e' = te_mb e
     \<and> (if snd (restore w i r) then te_resident e' \<and> te_engine_loaded e' else \<not> te_resident e')"
proof (cases "is_resident e \<and> te_engine_loaded e")
  case True
  then show ?thesis using assms by (simp add: restore_def is_resident_def)
next
  case False
  define r2 where "r2 = make_room w (te_mb e) (Some i)
      (r\<lparr>rg_models := adjust i (\<lambda>e. e\<lparr>te_resident := False\<rparr>) (rg_models r)\<rparr>)"
  obtain r3 ok where a: "can_admit_mb w (te_mb e) r2 = (r3, ok)" by fastforce
  have "map_of (rg_models r3) i = Some (e\<lparr>te_resident := False\<rparr>)"
    using can_admit_mb_state [OF a] by (simp add: r2_def make_room_keeps_text map_of_adjust assms(1))
  then show ?thesis
    using restore_reload [OF assms False, of w, folded r2_def] a by (simp add: map_of_adjust)
qed

lemma restore_outcome_witness:
  "\<not> te_resident (the (map_of (rg_models (fst (restore (sample_world\<lparr>wo_reload_ok := (\<lambda>_ _. False)\<rparr>) 0
     (engine_idle_unload 0 sample_registry)))) 0))"
proof -
  let ?r = "engine_idle_unload 0 sample_registry" and ?w = "sample_world\<lparr>wo_reload_ok := (\<lambda>_ _. False)\<rparr>"
  obtain e where e: "map_of (rg_models ?r) 0 = Some e" "te_local e" "\<not> te_engine_loaded e"
    by (simp add: engine_idle_unload_def sample_registry_def adjust_def)
  have "\<not> snd (restore ?w 0 ?r)" using e by (subst restore_reload [OF e(1,2)]) (auto simp: split_beta)
  with restore_outcome [OF e(1,2), of ?w] show ?thesis by auto
qed

end
