(* ===== verification/Gguf.thy ===== *)
theory Gguf
  imports ModelFit
begin

text \<open>
  The GGUF header parser (\<^verbatim>\<open>src/bundle/gguf.rs\<close>).  A reader over a file is a function on the
  bytes that are left: it fails, or returns a value and the bytes after it.  Integers are little
  endian; every declared length is checked against the bytes that are really there.
  \<^verbatim>\<open>String::from_utf8_lossy\<close> is written out (a maximal invalid part becomes U+FFFD).
\<close>

datatype gguf_error =
    UnexpectedEof | StringTooLong | NestedTooDeep | ArrayTooLarge | UnsupportedType nat
  | NotGguf | UnsupportedVersion nat | HeadArrayLength | CannotOpen
  | InvalidWidthKey | WidthNotInteger | WidthUnreadable gguf_error | WidthNotPositive | WidthWithoutArchitecture

text \<open>Which of them the source reports as \<^verbatim>\<open>InvalidModelFile\<close>; the rest are \<^verbatim>\<open>Io\<close>.\<close>

fun is_invalid_model :: "gguf_error \<Rightarrow> bool" where
  "is_invalid_model InvalidWidthKey = True"
| "is_invalid_model WidthNotInteger = True"
| "is_invalid_model (WidthUnreadable _) = True"
| "is_invalid_model WidthNotPositive = True"
| "is_invalid_model WidthWithoutArchitecture = True"
| "is_invalid_model _ = False"

type_synonym 'a parser = "string \<Rightarrow> gguf_error + 'a \<times> string"

definition ret :: "'a \<Rightarrow> 'a parser" where
  "ret x = (\<lambda>bs. Inr (x, bs))"

definition fail :: "gguf_error \<Rightarrow> 'a parser" where
  "fail e = (\<lambda>_. Inl e)"

definition bindp :: "'a parser \<Rightarrow> ('a \<Rightarrow> 'b parser) \<Rightarrow> 'b parser" where
  "bindp p f = (\<lambda>bs. case p bs of Inl e \<Rightarrow> Inl e | Inr (x, rest) \<Rightarrow> f x rest)"

primrec repeat_p :: "nat \<Rightarrow> unit parser \<Rightarrow> unit parser" where
  "repeat_p 0 p = ret ()"
| "repeat_p (Suc n) p = bindp p (\<lambda>_. repeat_p n p)"

lemma bindp_cong [fundef_cong]:
  "bs = cs \<Longrightarrow> p cs = q cs \<Longrightarrow> (\<And>x r. q cs = Inr (x, r) \<Longrightarrow> f x r = g x r) \<Longrightarrow> bindp p f bs = bindp q g cs"
  by (auto simp: bindp_def split: sum.splits)

lemma repeat_p_cong [fundef_cong]:
  "n = m \<Longrightarrow> bs = cs \<Longrightarrow> (\<And>x. p x = q x) \<Longrightarrow> repeat_p n p bs = repeat_p m q cs"
proof -
  assume "n = m" "bs = cs" "\<And>x. p x = q x"
  moreover from this have "p = q" by blast
  ultimately show ?thesis by simp
qed

section \<open>Bytes\<close>

definition le_nat :: "string \<Rightarrow> nat" where
  "le_nat bs = foldr (\<lambda>c acc. of_char c + 256 * acc) bs 0"

definition read_exact :: "nat \<Rightarrow> string parser" where
  "read_exact n = (\<lambda>bs. if n \<le> length bs then Inr (take n bs, drop n bs) else Inl UnexpectedEof)"

definition read_le :: "nat \<Rightarrow> nat parser" where
  "read_le n = bindp (read_exact n) (\<lambda>bs. ret (le_nat bs))"

text \<open>The length of the first scalar value, or of the maximal part of an ill-formed one.\<close>

definition utf8_scan :: "nat list \<Rightarrow> bool \<times> nat" where
  "utf8_scan bs =
     (case bs of [] \<Rightarrow> (True, 0)
      | b # cs \<Rightarrow>
          if b \<le> 127 then (True, 1)
          else if 194 \<le> b \<and> b \<le> 223 then
            (case cs of c # _ \<Rightarrow> if utf8_cont c then (True, 2) else (False, 1) | [] \<Rightarrow> (False, 1))
          else if 224 \<le> b \<and> b \<le> 239 then
            (case cs of [] \<Rightarrow> (False, 1)
             | c # ds \<Rightarrow>
                 if \<not> (utf8_cont c \<and> (b = 224 \<longrightarrow> 160 \<le> c) \<and> (b = 237 \<longrightarrow> c \<le> 159)) then (False, 1)
                 else (case ds of d # _ \<Rightarrow> if utf8_cont d then (True, 3) else (False, 2) | [] \<Rightarrow> (False, 2)))
          else if 240 \<le> b \<and> b \<le> 244 then
            (case cs of [] \<Rightarrow> (False, 1)
             | c # ds \<Rightarrow>
                 if \<not> (utf8_cont c \<and> (b = 240 \<longrightarrow> 144 \<le> c) \<and> (b = 244 \<longrightarrow> c \<le> 143)) then (False, 1)
                 else (case ds of [] \<Rightarrow> (False, 2)
                   | d # es \<Rightarrow>
                       if \<not> utf8_cont d then (False, 2)
                       else (case es of e # _ \<Rightarrow> if utf8_cont e then (True, 4) else (False, 3) | [] \<Rightarrow> (False, 3))))
          else (False, 1))"

lemma utf8_scan_pos: "bs \<noteq> [] \<Longrightarrow> 0 < snd (utf8_scan bs)"
  by (cases bs) (auto simp: utf8_scan_def split: list.splits)

function lossy_bytes :: "nat list \<Rightarrow> nat list" where
  "lossy_bytes bs =
     (if bs = [] then []
      else case utf8_scan bs of (ok, n) \<Rightarrow>
        (if ok then take n bs else [239, 191, 189]) @ lossy_bytes (drop n bs))"
  by pat_completeness auto
termination
proof (relation "measure length")
  fix bs ok n
  assume "bs \<noteq> []" "(ok, n) = utf8_scan bs"
  then show "(drop n bs, bs) \<in> measure length"
    using utf8_scan_pos [of bs] by (cases "utf8_scan bs") simp
qed simp

declare lossy_bytes.simps [simp del]

definition from_utf8_lossy :: "string \<Rightarrow> string" where
  "from_utf8_lossy s = map char_of (lossy_bytes (map of_char s))"

section \<open>Values\<close>

definition max_string_bytes :: nat where "max_string_bytes = 64 * 1024 * 1024"
definition max_array_depth :: nat where "max_array_depth = 64"

definition read_len_prefixed_string :: "string parser" where
  "read_len_prefixed_string =
     bindp (read_le 8) (\<lambda>len.
       if max_string_bytes < len then fail StringTooLong
       else bindp (read_exact len) (\<lambda>buf. ret (from_utf8_lossy buf)))"

definition skip_exact :: "nat \<Rightarrow> unit parser" where
  "skip_exact len = bindp (read_exact len) (\<lambda>_. ret ())"

definition skip_len_prefixed_string :: "unit parser" where
  "skip_len_prefixed_string = bindp (read_le 8) skip_exact"

definition primitive_byte_size :: "nat \<Rightarrow> nat option" where
  "primitive_byte_size ty =
     (if ty \<in> {0, 1, 7} then Some 1
      else if ty \<in> {2, 3} then Some 2
      else if ty \<in> {4, 5, 6} then Some 4
      else if ty \<in> {10, 11, 12} then Some 8
      else None)"

function skip_array :: "nat \<Rightarrow> nat \<Rightarrow> nat \<Rightarrow> unit parser" where
  "skip_array element_type len depth bs =
     (if max_array_depth < depth then Inl NestedTooDeep
      else if element_type = 8 then repeat_p len skip_len_prefixed_string bs
      else if element_type = 9 then
        repeat_p len (\<lambda>cs. bindp (read_le 4) (\<lambda>nested_type ds. bindp (read_le 8)
          (\<lambda>nested_len es. skip_array nested_type nested_len (depth + 1) es) ds) cs) bs
      else case primitive_byte_size element_type of
          Some width \<Rightarrow>
            (case checked_mul width len of None \<Rightarrow> Inl ArrayTooLarge | Some n \<Rightarrow> skip_exact n bs)
        | None \<Rightarrow> Inl (UnsupportedType element_type))"
  by pat_completeness auto
termination
  by (relation "measure (\<lambda>(_, _, depth, _). 65 - depth)") (auto simp: max_array_depth_def)

declare skip_array.simps [simp del]

definition skip_value_at_depth :: "nat \<Rightarrow> nat \<Rightarrow> unit parser" where
  "skip_value_at_depth ty depth =
     (if ty = 8 then skip_len_prefixed_string
      else if ty = 9 then bindp (read_le 4) (\<lambda>t. bindp (read_le 8) (\<lambda>len. skip_array t len depth))
      else case primitive_byte_size ty of Some width \<Rightarrow> skip_exact width | None \<Rightarrow> fail (UnsupportedType ty))"

definition skip_value :: "nat \<Rightarrow> unit parser" where
  "skip_value ty = skip_value_at_depth ty 0"

definition read_value_as_string :: "nat \<Rightarrow> string option parser" where
  "read_value_as_string ty =
     (if ty = 8 then bindp read_len_prefixed_string (\<lambda>s. ret (Some s))
      else bindp (skip_value ty) (\<lambda>_. ret None))"

definition nonneg :: "nat \<Rightarrow> nat \<Rightarrow> nat option" where
  "nonneg bits v = (if v < 2 ^ (bits - 1) then Some v else None)"

definition read_value_as_u64 :: "nat \<Rightarrow> nat option parser" where
  "read_value_as_u64 ty =
     (if ty = 0 then bindp (read_le 1) (\<lambda>v. ret (Some v))
      else if ty = 1 then bindp (read_le 1) (\<lambda>v. ret (nonneg 8 v))
      else if ty = 2 then bindp (read_le 2) (\<lambda>v. ret (Some v))
      else if ty = 3 then bindp (read_le 2) (\<lambda>v. ret (nonneg 16 v))
      else if ty = 4 then bindp (read_le 4) (\<lambda>v. ret (Some v))
      else if ty = 5 then bindp (read_le 4) (\<lambda>v. ret (nonneg 32 v))
      else if ty = 10 then bindp (read_le 8) (\<lambda>v. ret (Some v))
      else if ty = 11 then bindp (read_le 8) (\<lambda>v. ret (nonneg 64 v))
      else bindp (skip_value ty) (\<lambda>_. ret None))"

section \<open>The header\<close>

record gguf_metadata =
  gm_name :: "string option"
  gm_description :: "string option"
  gm_author :: "string option"
  gm_organization :: "string option"
  gm_contact :: "string option"
  gm_license :: "string option"
  gm_context_length :: "nat option"
  gm_architecture :: "string option"
  gm_file_type :: "nat option"
  gm_embedding_length :: "nat option"
  gm_block_count :: "nat option"
  gm_head_count :: "nat option"
  gm_head_count_kv :: "nat option"
  gm_head_count_kv_per_layer :: "nat list option"
  gm_key_length :: "nat option"
  gm_value_length :: "nat option"
  gm_key_length_swa :: "nat option"
  gm_value_length_swa :: "nat option"
  gm_vocab_size :: "nat option"
  gm_feed_forward_length :: "nat option"
  gm_chat_template :: "string option"
  gm_expert_count :: "nat option"
  gm_expert_used_count :: "nat option"

definition default_metadata :: gguf_metadata where
  "default_metadata = \<lparr>gm_name = None, gm_description = None, gm_author = None, gm_organization = None,
     gm_contact = None, gm_license = None, gm_context_length = None, gm_architecture = None,
     gm_file_type = None, gm_embedding_length = None, gm_block_count = None, gm_head_count = None,
     gm_head_count_kv = None, gm_head_count_kv_per_layer = None, gm_key_length = None,
     gm_value_length = None, gm_key_length_swa = None, gm_value_length_swa = None, gm_vocab_size = None,
     gm_feed_forward_length = None, gm_chat_template = None, gm_expert_count = None,
     gm_expert_used_count = None\<rparr>"

text \<open>The parser's state: the metadata so far and the explicit attention widths seen.\<close>

type_synonym header_state = "gguf_metadata \<times> (string \<times> nat) list"

definition on_string :: "nat \<Rightarrow> (string \<Rightarrow> gguf_metadata \<Rightarrow> gguf_metadata) \<Rightarrow> header_state \<Rightarrow> header_state parser" where
  "on_string ty upd st =
     bindp (read_value_as_string ty)
       (\<lambda>v. ret (case v of None \<Rightarrow> st | Some s \<Rightarrow> (upd s (fst st), snd st)))"

definition on_u64 :: "nat \<Rightarrow> (nat \<Rightarrow> gguf_metadata \<Rightarrow> gguf_metadata) \<Rightarrow> header_state \<Rightarrow> header_state parser" where
  "on_u64 ty upd st =
     bindp (read_value_as_u64 ty)
       (\<lambda>v. ret (case v of None \<Rightarrow> st | Some n \<Rightarrow> (upd n (fst st), snd st)))"

text \<open>What a key is for.  Exact keys first, then suffixes: \<^verbatim>\<open>.attention.head_count_kv\<close> is asked
  before \<^verbatim>\<open>.attention.head_count\<close>.\<close>

datatype field =
    TextField "string \<Rightarrow> gguf_metadata \<Rightarrow> gguf_metadata"
  | NumberField "nat \<Rightarrow> gguf_metadata \<Rightarrow> gguf_metadata"
  | WidthField | KvHeadsField | SkipField

definition general_field :: "string \<Rightarrow> field option" where
  "general_field key =
     (if key = ''general.name'' then Some (TextField (\<lambda>s m. m\<lparr>gm_name := Some (trim s)\<rparr>))
      else if key = ''general.description'' then Some (TextField (\<lambda>s m. m\<lparr>gm_description := Some (trim s)\<rparr>))
      else if key = ''general.author'' then Some (TextField (\<lambda>s m. m\<lparr>gm_author := Some (trim s)\<rparr>))
      else if key = ''general.organization'' then Some (TextField (\<lambda>s m. m\<lparr>gm_organization := Some (trim s)\<rparr>))
      else if key = ''general.contact'' then Some (TextField (\<lambda>s m. m\<lparr>gm_contact := Some (trim s)\<rparr>))
      else if key = ''general.license'' then Some (TextField (\<lambda>s m. m\<lparr>gm_license := Some (trim s)\<rparr>))
      else if key = ''general.architecture'' then Some (TextField (\<lambda>s m. m\<lparr>gm_architecture := Some (trim s)\<rparr>))
      else if key = ''general.file_type'' then Some (NumberField (\<lambda>n m. m\<lparr>gm_file_type := Some n\<rparr>))
      else if key = ''tokenizer.chat_template'' then Some (TextField (\<lambda>s m. m\<lparr>gm_chat_template := Some s\<rparr>))
      else None)"

definition is_width_key :: "string \<Rightarrow> bool" where
  "is_width_key key \<longleftrightarrow> (\<exists>suffix \<in> set [''.attention.key_length'', ''.attention.value_length'',
     ''.attention.key_length_swa'', ''.attention.value_length_swa'']. ends_with key suffix)"

definition arch_field :: "string \<Rightarrow> field" where
  "arch_field key =
     (if is_width_key key then WidthField
      else if ends_with key ''.context_length'' then NumberField (\<lambda>n m. m\<lparr>gm_context_length := Some n\<rparr>)
      else if ends_with key ''.embedding_length'' then NumberField (\<lambda>n m. m\<lparr>gm_embedding_length := Some n\<rparr>)
      else if ends_with key ''.block_count'' then NumberField (\<lambda>n m. m\<lparr>gm_block_count := Some n\<rparr>)
      else if ends_with key ''.attention.head_count_kv'' then KvHeadsField
      else if ends_with key ''.attention.head_count'' then NumberField (\<lambda>n m. m\<lparr>gm_head_count := Some n\<rparr>)
      else if ends_with key ''.vocab_size'' then NumberField (\<lambda>n m. m\<lparr>gm_vocab_size := Some n\<rparr>)
      else if ends_with key ''.feed_forward_length'' then NumberField (\<lambda>n m. m\<lparr>gm_feed_forward_length := Some n\<rparr>)
      else if ends_with key ''.expert_count'' then NumberField (\<lambda>n m. m\<lparr>gm_expert_count := Some n\<rparr>)
      else if ends_with key ''.expert_used_count'' then NumberField (\<lambda>n m. m\<lparr>gm_expert_used_count := Some n\<rparr>)
      else SkipField)"

definition field_of :: "string \<Rightarrow> field" where
  "field_of key = (case general_field key of Some f \<Rightarrow> f | None \<Rightarrow> arch_field key)"

text \<open>Explicit attention widths: short unique keys, positive integers, kept until the
  architecture is known.\<close>

definition integer_types :: "nat set" where
  "integer_types = {0, 1, 2, 3, 4, 5, 10, 11}"

definition read_width :: "string \<Rightarrow> nat \<Rightarrow> header_state \<Rightarrow> header_state parser" where
  "read_width key ty st =
     (if 256 < length key \<or> 16 \<le> length (snd st) \<or> key \<in> fst ` set (snd st) then fail InvalidWidthKey
      else if ty \<notin> integer_types then fail WidthNotInteger
      else (\<lambda>bs. case read_value_as_u64 ty bs of
               Inl e \<Rightarrow> Inl (WidthUnreadable e)
             | Inr (None, _) \<Rightarrow> Inl WidthNotPositive
             | Inr (Some v, rest) \<Rightarrow>
                 if v = 0 then Inl WidthNotPositive else Inr ((fst st, snd st @ [(key, v)]), rest)))"

text \<open>Per-layer KV heads: every element is read even after one is not a nonnegative integer.\<close>

primrec read_heads :: "nat \<Rightarrow> nat \<Rightarrow> (nat list \<times> bool) parser" where
  "read_heads 0 kind = ret ([], True)"
| "read_heads (Suc n) kind =
     bindp (read_value_as_u64 kind) (\<lambda>v. bindp (read_heads n kind) (\<lambda>(vs, valid).
       ret (case v of Some x \<Rightarrow> (x # vs, valid) | None \<Rightarrow> (vs, False))))"

definition read_kv_heads :: "nat \<Rightarrow> header_state \<Rightarrow> header_state parser" where
  "read_kv_heads ty st =
     (if ty = 9 then
        bindp (read_le 4) (\<lambda>kind. bindp (read_le 8) (\<lambda>count.
          if count = 0 \<or> 4096 < count then fail HeadArrayLength
          else bindp (read_heads count kind) (\<lambda>(values, valid).
            ret ((fst st)\<lparr>gm_head_count_kv_per_layer := if valid then Some values else None\<rparr>, snd st))))
      else on_u64 ty (\<lambda>n m. m\<lparr>gm_head_count_kv := Some n\<rparr>) st)"

definition read_kv :: "header_state \<Rightarrow> header_state parser" where
  "read_kv st =
     bindp read_len_prefixed_string (\<lambda>key. bindp (read_le 4) (\<lambda>ty.
       case field_of key of
         TextField upd \<Rightarrow> on_string ty upd st
       | NumberField upd \<Rightarrow> on_u64 ty upd st
       | WidthField \<Rightarrow> read_width key ty st
       | KvHeadsField \<Rightarrow> read_kv_heads ty st
       | SkipField \<Rightarrow> bindp (skip_value ty) (\<lambda>_. ret st)))"

primrec kv_loop :: "nat \<Rightarrow> header_state \<Rightarrow> header_state parser" where
  "kv_loop 0 st = ret st"
| "kv_loop (Suc n) st = bindp (read_kv st) (kv_loop n)"

definition bind_width :: "string \<Rightarrow> string \<times> nat \<Rightarrow> gguf_metadata \<Rightarrow> gguf_metadata" where
  "bind_width arch kv m =
     (let (key, v) = kv;
          m1 = (if key = arch @ ''.attention.key_length'' then m\<lparr>gm_key_length := Some v\<rparr> else m);
          m2 = (if key = arch @ ''.attention.value_length'' then m1\<lparr>gm_value_length := Some v\<rparr> else m1);
          m3 = (if key = arch @ ''.attention.key_length_swa'' then m2\<lparr>gm_key_length_swa := Some v\<rparr> else m2)
      in if key = arch @ ''.attention.value_length_swa'' then m3\<lparr>gm_value_length_swa := Some v\<rparr> else m3)"

definition bind_widths :: "header_state \<Rightarrow> gguf_metadata parser" where
  "bind_widths st =
     (if snd st = [] then ret (fst st)
      else case gm_architecture (fst st) of
          None \<Rightarrow> fail WidthWithoutArchitecture
        | Some arch \<Rightarrow> ret (fold (bind_width arch) (snd st) (fst st)))"

definition gguf_header :: "gguf_metadata parser" where
  "gguf_header =
     bindp (read_exact 4) (\<lambda>magic.
       if magic \<noteq> ''GGUF'' then fail NotGguf
       else bindp (read_le 4) (\<lambda>version.
         if version = 0 \<or> 3 < version then fail (UnsupportedVersion version)
         else bindp (read_le 8) (\<lambda>_. bindp (read_le 8) (\<lambda>kv_count.
           bindp (kv_loop kv_count (default_metadata, [])) bind_widths))))"

definition parse_gguf_metadata :: "string option \<Rightarrow> gguf_error + gguf_metadata" where
  "parse_gguf_metadata contents =
     (case contents of None \<Rightarrow> Inl CannotOpen
      | Some bs \<Rightarrow> (case gguf_header bs of Inl e \<Rightarrow> Inl e | Inr (m, _) \<Rightarrow> Inr m))"

section \<open>Readers consume what they read\<close>

text \<open>A reader is stable when what it returns depends only on the bytes it consumes.\<close>

definition stable :: "'a parser \<Rightarrow> bool" where
  "stable p \<longleftrightarrow> (\<forall>bs x r. p bs = Inr (x, r) \<longrightarrow>
     (\<exists>c. bs = c @ r \<and> (\<forall>more. p (c @ more) = Inr (x, more))))"

named_theorems stable_rules \<open>stability of readers\<close>

lemma stable_ret [stable_rules]: "stable (ret x)"
  by (simp add: stable_def ret_def)

lemma stable_fail [stable_rules]: "stable (fail e)"
  by (simp add: stable_def fail_def)

lemma stable_bindp [stable_rules]:
  assumes "stable p" "\<And>x. stable (f x)"
  shows "stable (bindp p f)"
  unfolding stable_def
proof (intro allI impI)
  fix bs y r
  assume "bindp p f bs = Inr (y, r)"
  then obtain x r1 where p: "p bs = Inr (x, r1)" and f: "f x r1 = Inr (y, r)"
    by (auto simp: bindp_def split: sum.splits)
  from assms(1) p obtain c1 where c1: "bs = c1 @ r1" "\<And>more. p (c1 @ more) = Inr (x, more)"
    unfolding stable_def by blast
  from assms(2) [of x] f obtain c2 where c2: "r1 = c2 @ r" "\<And>more. f x (c2 @ more) = Inr (y, more)"
    unfolding stable_def by blast
  show "\<exists>c. bs = c @ r \<and> (\<forall>more. bindp p f (c @ more) = Inr (y, more))"
    using c1 c2 by (intro exI [of _ "c1 @ c2"]) (simp add: bindp_def)
qed

lemma stable_if [stable_rules]: "stable p \<Longrightarrow> stable q \<Longrightarrow> stable (if b then p else q)"
  by simp

lemma stable_read_exact [stable_rules]: "stable (read_exact n)"
  unfolding stable_def
proof (intro allI impI)
  fix bs x r
  assume "read_exact n bs = Inr (x, r)"
  then have "n \<le> length bs" "x = take n bs" "r = drop n bs" by (auto simp: read_exact_def split: if_splits)
  then show "\<exists>c. bs = c @ r \<and> (\<forall>more. read_exact n (c @ more) = Inr (x, more))"
    by (intro exI [of _ "take n bs"]) (simp add: read_exact_def)
qed

lemma stable_read_le [stable_rules]: "stable (read_le n)"
  unfolding read_le_def by (intro stable_rules)

lemma stable_repeat [stable_rules]: "stable p \<Longrightarrow> stable (repeat_p n p)"
  by (induction n) (simp_all add: stable_rules)

lemma stable_string [stable_rules]: "stable read_len_prefixed_string"
  unfolding read_len_prefixed_string_def by (intro stable_rules)

lemma stable_skip_exact [stable_rules]: "stable (skip_exact n)"
  unfolding skip_exact_def by (intro stable_rules)

lemma stable_skip_string [stable_rules]: "stable skip_len_prefixed_string"
  unfolding skip_len_prefixed_string_def by (intro stable_rules)

text \<open>One array nested inside another: its type, its length, its elements.\<close>

definition skip_nested :: "nat \<Rightarrow> unit parser" where
  "skip_nested depth = bindp (read_le 4) (\<lambda>t. bindp (read_le 8) (\<lambda>len. skip_array t len depth))"

lemma skip_array_eq:
  "skip_array t len depth =
     (if max_array_depth < depth then fail NestedTooDeep
      else if t = 8 then repeat_p len skip_len_prefixed_string
      else if t = 9 then repeat_p len (skip_nested (depth + 1))
      else case primitive_byte_size t of
          Some w \<Rightarrow> (case checked_mul w len of None \<Rightarrow> fail ArrayTooLarge | Some n \<Rightarrow> skip_exact n)
        | None \<Rightarrow> fail (UnsupportedType t))"
proof
  fix bs
  have eta: "(\<lambda>cs. bindp (read_le 4) (\<lambda>t ds. bindp (read_le 8) (\<lambda>l es. skip_array t l (depth + 1) es) ds) cs)
      = skip_nested (depth + 1)"
    by (simp add: skip_nested_def fun_eq_iff)
  show "skip_array t len depth bs = (if max_array_depth < depth then fail NestedTooDeep
      else if t = 8 then repeat_p len skip_len_prefixed_string
      else if t = 9 then repeat_p len (skip_nested (depth + 1))
      else case primitive_byte_size t of
          Some w \<Rightarrow> (case checked_mul w len of None \<Rightarrow> fail ArrayTooLarge | Some n \<Rightarrow> skip_exact n)
        | None \<Rightarrow> fail (UnsupportedType t)) bs"
    by (subst skip_array.simps, subst eta) (simp add: fail_def split: option.splits)
qed

lemma stable_skip_array [stable_rules]: "stable (skip_array t len depth)"
proof (induction "65 - depth" arbitrary: t len depth rule: less_induct)
  case less
  have prim: "stable (case primitive_byte_size t of
      Some w \<Rightarrow> (case checked_mul w len of None \<Rightarrow> fail ArrayTooLarge | Some n \<Rightarrow> skip_exact n)
    | None \<Rightarrow> fail (UnsupportedType t))"
    by (auto intro: stable_rules split: option.splits)
  show ?case
  proof (cases "max_array_depth < depth")
    case True
    then show ?thesis by (simp add: skip_array_eq stable_rules)
  next
    case False
    then have "stable (skip_nested (depth + 1))"
      unfolding skip_nested_def by (intro stable_rules less) (simp add: max_array_depth_def)
    with False prim show ?thesis by (simp add: skip_array_eq stable_rules)
  qed
qed

lemma stable_skip_value [stable_rules]: "stable (skip_value t)"
  unfolding skip_value_def skip_value_at_depth_def
  by (auto intro!: stable_rules split: option.splits)

lemma stable_as_string [stable_rules]: "stable (read_value_as_string t)"
  unfolding read_value_as_string_def by (intro stable_rules)

lemma stable_as_u64 [stable_rules]: "stable (read_value_as_u64 t)"
  unfolding read_value_as_u64_def by (intro stable_rules)

lemma stable_heads [stable_rules]: "stable (read_heads n kind)"
  by (induction n) (auto intro!: stable_rules split: prod.splits)

lemma stable_width [stable_rules]: "stable (read_width key t st)"
proof -
  have eq: "read_width key t st =
      (if 256 < length key \<or> 16 \<le> length (snd st) \<or> key \<in> fst ` set (snd st) then fail InvalidWidthKey
       else if t \<notin> integer_types then fail WidthNotInteger
       else (\<lambda>bs. case read_value_as_u64 t bs of Inl e \<Rightarrow> Inl (WidthUnreadable e)
          | Inr (v, rest) \<Rightarrow> (case v of None \<Rightarrow> fail WidthNotPositive
              | Some v \<Rightarrow> if v = 0 then fail WidthNotPositive else ret (fst st, snd st @ [(key, v)])) rest))"
    by (auto simp: read_width_def fun_eq_iff fail_def ret_def split: sum.splits option.splits)
  have "stable (\<lambda>bs. case p bs of Inl e \<Rightarrow> Inl (WidthUnreadable e) | Inr (v, rest) \<Rightarrow> f v rest)"
    if "stable p" "\<And>v. stable (f v)" for p :: "nat option parser" and f :: "nat option \<Rightarrow> header_state parser"
    unfolding stable_def
  proof (intro allI impI)
    fix bs y r
    assume "(case p bs of Inl e \<Rightarrow> Inl (WidthUnreadable e) | Inr (v, rest) \<Rightarrow> f v rest) = Inr (y, r)"
    then have "bindp p f bs = Inr (y, r)" by (auto simp: bindp_def split: sum.splits)
    with stable_bindp [of p f, OF that] obtain c where c: "bs = c @ r" "\<And>more. bindp p f (c @ more) = Inr (y, more)"
      unfolding stable_def by blast
    have "(case p (c @ more) of Inl e \<Rightarrow> Inl (WidthUnreadable e) | Inr (v, rest) \<Rightarrow> f v rest) = Inr (y, more)"
      for more using c(2) [of more] by (auto simp: bindp_def split: sum.splits)
    with c(1) show "\<exists>c. bs = c @ r \<and> (\<forall>more. (case p (c @ more) of Inl e \<Rightarrow> Inl (WidthUnreadable e)
        | Inr (v, rest) \<Rightarrow> f v rest) = Inr (y, more))" by blast
  qed
  note wrap = this
  show ?thesis
    unfolding eq by (intro stable_if stable_fail wrap stable_as_u64) (auto intro!: stable_rules split: option.splits)
qed

lemma stable_kv [stable_rules]: "stable (read_kv st)"
  unfolding read_kv_def on_string_def on_u64_def read_kv_heads_def
  by (intro stable_rules) (auto intro!: stable_rules split: field.splits prod.splits)

lemma stable_kv_loop [stable_rules]: "stable (kv_loop n st)"
  by (induction n arbitrary: st) (auto intro!: stable_rules)

lemma stable_bind_widths [stable_rules]: "stable (bind_widths st)"
  unfolding bind_widths_def by (auto intro!: stable_rules split: option.splits)

lemma stable_header: "stable gguf_header"
  unfolding gguf_header_def by (intro stable_rules)

lemma stable_consumes: "stable p \<Longrightarrow> p bs = Inr (x, r) \<Longrightarrow> \<exists>c. bs = c @ r \<and> (\<forall>more. p (c @ more) = Inr (x, more))"
  by (simp add: stable_def)

lemma stable_no_shorter:
  assumes "stable p" "p (c @ r) = Inr (x, r)" "strict_prefix d c"
  shows "\<exists>e. p d = Inl e"
proof (cases "p d")
  case (Inr y)
  obtain x' r' where y: "p d = Inr (x', r')" using Inr by (cases y) auto
  from stable_consumes [OF assms(1) assms(2)] have c: "p c = Inr (x, [])"
    by (metis append.right_neutral append_same_eq)
  from stable_consumes [OF assms(1) y] obtain d' where d': "d = d' @ r'" "\<And>more. p (d' @ more) = Inr (x', more)"
    by blast
  from assms(3) obtain u where "c = d @ u" "u \<noteq> []" by (auto simp: strict_prefix_def prefix_def)
  with d' have "p c = Inr (x', r' @ u)" by simp
  with c \<open>u \<noteq> []\<close> show ?thesis by simp
qed simp

text \<open>
  A truncated header never parses.  When a file parses, its header is a definite prefix of
  the file: the same metadata is returned whatever tensor data follows it, and every file cut
  off anywhere inside that prefix is rejected with an error.
\<close>

lemma truncated_header_rejected:
  assumes "parse_gguf_metadata (Some bs) = Inr m"
  shows "\<exists>header. prefix header bs
    \<and> (\<forall>more. parse_gguf_metadata (Some (header @ more)) = Inr m)
    \<and> (\<forall>cut. strict_prefix cut header \<longrightarrow> (\<exists>e. parse_gguf_metadata (Some cut) = Inl e))"
proof -
  from assms obtain r where r: "gguf_header bs = Inr (m, r)"
    by (auto simp: parse_gguf_metadata_def split: sum.splits)
  from stable_consumes [OF stable_header r] obtain c where
    c: "bs = c @ r" "\<And>more. gguf_header (c @ more) = Inr (m, more)" by blast
  have "\<exists>e. parse_gguf_metadata (Some cut) = Inl e" if "strict_prefix cut c" for cut
    using stable_no_shorter [OF stable_header, of c r m cut] c that
    by (auto simp: parse_gguf_metadata_def)
  then show ?thesis using c by (intro exI [of _ c]) (auto simp: parse_gguf_metadata_def)
qed

section \<open>Writing headers\<close>

text \<open>The format as a writer: little-endian integers, length-prefixed strings, typed arrays.\<close>

definition enc_le :: "nat \<Rightarrow> nat \<Rightarrow> string" where
  "enc_le n v = map (\<lambda>i. char_of (v div 256 ^ i mod 256)) [0..<n]"

definition enc_string :: "string \<Rightarrow> string" where
  "enc_string t = enc_le 8 (length t) @ t"

datatype gguf_array = Prims nat "nat list" | Texts "string list" | Arrays "gguf_array list"

fun array_count :: "gguf_array \<Rightarrow> nat" where
  "array_count (Prims _ vs) = length vs"
| "array_count (Texts ss) = length ss"
| "array_count (Arrays as) = length as"

fun array_type :: "gguf_array \<Rightarrow> nat" where
  "array_type (Prims t _) = t"
| "array_type (Texts _) = 8"
| "array_type (Arrays _) = 9"

definition prim_width :: "nat \<Rightarrow> nat" where
  "prim_width t = (case primitive_byte_size t of Some w \<Rightarrow> w | None \<Rightarrow> 0)"

fun enc_elements :: "gguf_array \<Rightarrow> string" where
  "enc_elements (Prims t vs) = concat (map (enc_le (prim_width t)) vs)"
| "enc_elements (Texts ss) = concat (map enc_string ss)"
| "enc_elements (Arrays as) =
     concat (map (\<lambda>a. enc_le 4 (array_type a) @ enc_le 8 (array_count a) @ enc_elements a) as)"

definition enc_array :: "gguf_array \<Rightarrow> string" where
  "enc_array a = enc_le 4 (array_type a) @ enc_le 8 (array_count a) @ enc_elements a"

fun array_depth :: "gguf_array \<Rightarrow> nat" where
  "array_depth (Arrays as) = Suc (fold max (map array_depth as) 0)"
| "array_depth _ = 1"

fun wf_array :: "gguf_array \<Rightarrow> bool" where
  "wf_array (Prims t vs) \<longleftrightarrow> primitive_byte_size t \<noteq> None \<and> 8 * length vs < 2 ^ 64
     \<and> (\<forall>v \<in> set vs. v < 256 ^ prim_width t)"
| "wf_array (Texts ss) \<longleftrightarrow> length ss < 2 ^ 64 \<and> (\<forall>t \<in> set ss. length t < 2 ^ 64)"
| "wf_array (Arrays as) \<longleftrightarrow> length as < 2 ^ 64 \<and> (\<forall>a \<in> set as. wf_array a)"

lemma length_enc_le [simp]: "length (enc_le n v) = n"
  by (simp add: enc_le_def)

lemma enc_le_Suc: "enc_le (Suc n) v = char_of (v mod 256) # enc_le n (v div 256)"
  by (simp add: enc_le_def upt_conv_Cons map_Suc_upt [symmetric] div_mult2_eq del: upt_Suc)

lemma le_nat_enc: "v < 256 ^ n \<Longrightarrow> le_nat (enc_le n v) = v"
proof (induction n arbitrary: v)
  case 0
  then show ?case by (simp add: enc_le_def le_nat_def)
next
  case (Suc n)
  then have "v div 256 < 256 ^ n" by (simp add: less_mult_imp_div_less mult.commute)
  with Suc.IH show ?case by (simp add: enc_le_Suc le_nat_def)
qed

lemma read_exact_append [simp]: "length bs = n \<Longrightarrow> read_exact n (bs @ rest) = Inr (bs, rest)"
  by (auto simp: read_exact_def)

lemma read_le_enc [simp]: "v < 256 ^ n \<Longrightarrow> read_le n (enc_le n v @ rest) = Inr (v, rest)"
  by (simp add: read_le_def bindp_def ret_def le_nat_enc)

lemma bindp_Inr: "p bs = Inr (x, r) \<Longrightarrow> bindp p f bs = f x r"
  by (simp add: bindp_def)

lemma bindp_Inl: "p bs = Inl e \<Longrightarrow> bindp p f bs = Inl e"
  by (simp add: bindp_def)

lemma skip_string_enc: "length t < 2 ^ 64 \<Longrightarrow> skip_len_prefixed_string (enc_string t @ rest) = Inr ((), rest)"
  by (simp add: skip_len_prefixed_string_def enc_string_def bindp_def skip_exact_def ret_def)

lemma repeat_strings:
  "\<forall>t \<in> set ss. length t < 2 ^ 64 \<Longrightarrow>
     repeat_p (length ss) skip_len_prefixed_string (concat (map enc_string ss) @ rest) = Inr ((), rest)"
  by (induction ss) (simp_all add: ret_def bindp_def skip_string_enc)

lemma length_concat_enc: "length (concat (map (enc_le w) vs)) = w * length vs"
  by (induction vs) simp_all

lemma array_depth_pos: "1 \<le> array_depth a"
  by (cases a) simp_all

lemma array_type_small: "wf_array a \<Longrightarrow> array_type a < 256 ^ 4"
  by (cases a) (auto simp: primitive_byte_size_def split: if_splits)

lemma array_count_small: "wf_array a \<Longrightarrow> array_count a < 256 ^ 8"
  by (cases a) auto

lemma fold_max_le: "fold max (xs :: nat list) m \<le> k \<longleftrightarrow> m \<le> k \<and> (\<forall>x \<in> set xs. x \<le> k)"
  by (induction xs arbitrary: m) auto

lemma skip_nested_enc:
  "wf_array a \<Longrightarrow> skip_nested d (enc_array a @ rest) = skip_array (array_type a) (array_count a) d (enc_elements a @ rest)"
  using array_type_small [of a] array_count_small [of a]
  by (simp add: skip_nested_def enc_array_def bindp_def)

lemma skip_array_too_deep: "max_array_depth < d \<Longrightarrow> skip_array t n d bs = Inl NestedTooDeep"
  by (subst skip_array.simps) simp

text \<open>Skipping an array consumes exactly its elements, or refuses it for its depth.\<close>

lemma skip_array_enc:
  "wf_array a \<Longrightarrow>
     skip_array (array_type a) (array_count a) d (enc_elements a @ rest) =
       (if d + array_depth a \<le> 65 then Inr ((), rest) else Inl NestedTooDeep)"
proof (induction a arbitrary: d rest)
  case (Prims t vs)
  then obtain w where w: "primitive_byte_size t = Some w" by auto
  then have t: "t \<noteq> 8" "t \<noteq> 9" "w \<le> 8" by (auto simp: primitive_byte_size_def split: if_splits)
  have "w * length vs \<le> 8 * length vs" using t(3) by (rule mult_le_mono1)
  moreover have "8 * length vs < 18446744073709551616" using Prims by simp
  ultimately have "w * length vs \<le> u64_max" by linarith
  then have "checked_mul w (length vs) = Some (w * length vs)" by (simp add: checked_mul_def)
  then show ?case
    using w t by (simp add: skip_array_eq max_array_depth_def skip_exact_def bindp_def ret_def prim_width_def
        length_concat_enc fail_def)
next
  case (Texts ss)
  then show ?case by (simp add: skip_array_eq repeat_strings max_array_depth_def fail_def)
next
  case (Arrays as)
  show ?case
  proof (cases "max_array_depth < d")
    case True
    then show ?thesis using array_depth_pos [of "Arrays as"]
      by (simp add: skip_array_too_deep max_array_depth_def del: array_depth.simps)
  next
    case False
    have "repeat_p (length as) (skip_nested (d + 1)) (concat (map enc_array as) @ rest) =
        (if \<forall>a \<in> set as. d + 1 + array_depth a \<le> 65 then Inr ((), rest) else Inl NestedTooDeep)"
      using Arrays
    proof (induction as)
      case Nil
      then show ?case by (simp add: ret_def)
    next
      case (Cons a as)
      then have "skip_nested (d + 1) (enc_array a @ concat (map enc_array as) @ rest) =
          (if d + 1 + array_depth a \<le> 65 then Inr ((), concat (map enc_array as) @ rest) else Inl NestedTooDeep)"
        by (simp add: skip_nested_enc)
      then show ?case using Cons by (simp add: bindp_def)
    qed
    moreover have "(\<forall>a \<in> set as. d + 1 + array_depth a \<le> 65) \<longleftrightarrow> d + array_depth (Arrays as) \<le> 65"
      using False fold_max_le [of "map array_depth as" 0 "64 - d"]
      by (auto simp: max_array_depth_def)
    moreover have "enc_elements (Arrays as) = concat (map enc_array as)"
      by (simp add: enc_array_def [abs_def])
    ultimately show ?thesis using False
      by (simp add: skip_array_eq del: enc_elements.simps array_depth.simps)
  qed
qed

lemma skip_value_exact_aux:
  assumes "wf_array a"
  shows "skip_value 9 (enc_array a @ rest) =
    (if array_depth a \<le> 65 then Inr ((), rest) else Inl NestedTooDeep)"
  using skip_nested_enc [OF assms, of 0 rest] skip_array_enc [OF assms, of 0 rest]
  by (simp add: skip_value_def skip_value_at_depth_def skip_nested_def)

text \<open>
  C39: Skipping is exact and bounded.  For every well-formed array value, nested in any way, the
  parser skips precisely the bytes the value occupies when it is nested at most 65 levels
  deep, and refuses it with the nesting error otherwise, however much input is left.
\<close>

theorem skip_value_exact:
  assumes "wf_array a"
  shows "skip_value 9 (enc_array a @ rest) =
    (if array_depth a \<le> 65 then Inr ((), rest) else Inl NestedTooDeep)"
  using assms by (rule skip_value_exact_aux)

lemma skip_value_exact_witness:
  "skip_value 9 (enc_array (Arrays [Texts [''ab''], Prims 4 [7, 9], Arrays []]) @ ''rest'') = Inr ((), ''rest'')"
  by (subst skip_value_exact) (simp_all add: primitive_byte_size_def prim_width_def)

section \<open>What a header means\<close>

datatype kv_value = Number nat nat | Text string | ArrayOf gguf_array

fun value_type :: "kv_value \<Rightarrow> nat" where
  "value_type (Number t _) = t"
| "value_type (Text _) = 8"
| "value_type (ArrayOf _) = 9"

fun enc_value :: "kv_value \<Rightarrow> string" where
  "enc_value (Number t v) = enc_le (prim_width t) v"
| "enc_value (Text t) = enc_string t"
| "enc_value (ArrayOf a) = enc_array a"

fun wf_value :: "kv_value \<Rightarrow> bool" where
  "wf_value (Number t v) \<longleftrightarrow> primitive_byte_size t \<noteq> None \<and> v < 256 ^ prim_width t"
| "wf_value (Text t) \<longleftrightarrow> length t \<le> max_string_bytes"
| "wf_value (ArrayOf a) \<longleftrightarrow> wf_array a"

definition enc_kv :: "string \<times> kv_value \<Rightarrow> string" where
  "enc_kv = (\<lambda>(key, v). enc_string key @ enc_le 4 (value_type v) @ enc_value v)"

definition wf_kv :: "string \<times> kv_value \<Rightarrow> bool" where
  "wf_kv = (\<lambda>(key, v). length key \<le> max_string_bytes \<and> wf_value v)"

definition enc_header :: "nat \<Rightarrow> nat \<Rightarrow> (string \<times> kv_value) list \<Rightarrow> string" where
  "enc_header version tensors kvs =
     ''GGUF'' @ enc_le 4 version @ enc_le 8 tensors @ enc_le 8 (length kvs) @ concat (map enc_kv kvs)"

text \<open>The number a value stands for: integers only, and only when not negative.\<close>

definition int_value :: "nat \<Rightarrow> nat \<Rightarrow> nat option" where
  "int_value t v =
     (if t \<in> {0, 2, 4, 10} then Some v
      else if t \<in> {1, 3, 5, 11} then nonneg (8 * prim_width t) v
      else None)"

fun as_number :: "kv_value \<Rightarrow> nat option" where
  "as_number (Number t v) = int_value t v"
| "as_number _ = None"

fun as_text :: "kv_value \<Rightarrow> string option" where
  "as_text (Text t) = Some (from_utf8_lossy t)"
| "as_text _ = None"

fun skippable :: "kv_value \<Rightarrow> bool" where
  "skippable (ArrayOf a) \<longleftrightarrow> array_depth a \<le> 65"
| "skippable _ \<longleftrightarrow> True"

fun width_meaning :: "string \<Rightarrow> kv_value \<Rightarrow> header_state \<Rightarrow> gguf_error + header_state" where
  "width_meaning key v (m, ws) =
     (if 256 < length key \<or> 16 \<le> length ws \<or> key \<in> fst ` set ws then Inl InvalidWidthKey
      else if value_type v \<notin> integer_types then Inl WidthNotInteger
      else case as_number v of
          None \<Rightarrow> Inl WidthNotPositive
        | Some n \<Rightarrow> if n = 0 then Inl WidthNotPositive else Inr (m, ws @ [(key, n)]))"

text \<open>Plain values only: per-layer head counts are arrays of numbers here.\<close>

fun heads_meaning :: "kv_value \<Rightarrow> header_state \<Rightarrow> gguf_error + header_state" where
  "heads_meaning (ArrayOf (Prims t vs)) (m, ws) =
     (if vs = [] \<or> 4096 < length vs then Inl HeadArrayLength
      else Inr (m\<lparr>gm_head_count_kv_per_layer :=
        (if \<forall>v \<in> set vs. int_value t v \<noteq> None then Some (map (\<lambda>v. the (int_value t v)) vs) else None)\<rparr>, ws))"
| "heads_meaning v (m, ws) =
     (if \<not> skippable v then Inl NestedTooDeep
      else case as_number v of None \<Rightarrow> Inr (m, ws) | Some n \<Rightarrow> Inr (m\<lparr>gm_head_count_kv := Some n\<rparr>, ws))"

fun kv_meaning :: "string \<times> kv_value \<Rightarrow> header_state \<Rightarrow> gguf_error + header_state" where
  "kv_meaning (key, v) (m, ws) =
     (case field_of (from_utf8_lossy key) of
        WidthField \<Rightarrow> width_meaning (from_utf8_lossy key) v (m, ws)
      | KvHeadsField \<Rightarrow> heads_meaning v (m, ws)
      | TextField upd \<Rightarrow>
          (if \<not> skippable v then Inl NestedTooDeep
           else Inr (case as_text v of None \<Rightarrow> m | Some t \<Rightarrow> upd t m, ws))
      | NumberField upd \<Rightarrow>
          (if \<not> skippable v then Inl NestedTooDeep
           else Inr (case as_number v of None \<Rightarrow> m | Some n \<Rightarrow> upd n m, ws))
      | SkipField \<Rightarrow> (if \<not> skippable v then Inl NestedTooDeep else Inr (m, ws)))"

primrec kvs_meaning :: "(string \<times> kv_value) list \<Rightarrow> header_state \<Rightarrow> gguf_error + header_state" where
  "kvs_meaning [] st = Inr st"
| "kvs_meaning (kv # kvs) st = (case kv_meaning kv st of Inl e \<Rightarrow> Inl e | Inr st' \<Rightarrow> kvs_meaning kvs st')"

text \<open>The explicit widths of an architecture: for each of the four names the last value declared.\<close>

definition with_widths :: "string \<Rightarrow> (string \<times> nat) list \<Rightarrow> gguf_metadata \<Rightarrow> gguf_metadata" where
  "with_widths arch ws m =
     (let declared = (\<lambda>name d. case map_of (rev ws) (arch @ name) of None \<Rightarrow> d | Some v \<Rightarrow> Some v) in
      m\<lparr>gm_key_length := declared ''.attention.key_length'' (gm_key_length m),
        gm_value_length := declared ''.attention.value_length'' (gm_value_length m),
        gm_key_length_swa := declared ''.attention.key_length_swa'' (gm_key_length_swa m),
        gm_value_length_swa := declared ''.attention.value_length_swa'' (gm_value_length_swa m)\<rparr>)"

lemma if_width:
  "(if p then m\<lparr>gm_key_length := x\<rparr> else m) = m\<lparr>gm_key_length := if p then x else gm_key_length m\<rparr>"
  "(if p then m\<lparr>gm_value_length := x\<rparr> else m) = m\<lparr>gm_value_length := if p then x else gm_value_length m\<rparr>"
  "(if p then m\<lparr>gm_key_length_swa := x\<rparr> else m) = m\<lparr>gm_key_length_swa := if p then x else gm_key_length_swa m\<rparr>"
  "(if p then m\<lparr>gm_value_length_swa := x\<rparr> else m) = m\<lparr>gm_value_length_swa := if p then x else gm_value_length_swa m\<rparr>"
  by simp_all

lemma declared_snoc:
  "(case map_of (rev (ws @ [(k, v)])) n of None \<Rightarrow> d | Some u \<Rightarrow> Some u)
   = (if k = n then Some v else case map_of (rev ws) n of None \<Rightarrow> d | Some u \<Rightarrow> Some u)"
  by simp

lemma bind_width_after:
  "bind_width arch (k, v) (with_widths arch ws m) = with_widths arch (ws @ [(k, v)]) m"
  unfolding bind_width_def with_widths_def Let_def prod.case if_width declared_snoc
  by simp

lemma fold_bind_width: "fold (bind_width arch) ws m = with_widths arch ws m"
proof (induction ws rule: rev_induct)
  case Nil
  show ?case by (simp add: with_widths_def)
next
  case (snoc kv ws)
  then show ?case by (cases kv) (simp add: bind_width_after)
qed

definition header_meaning :: "(string \<times> kv_value) list \<Rightarrow> gguf_error + gguf_metadata" where
  "header_meaning kvs =
     (case kvs_meaning kvs (default_metadata, []) of
        Inl e \<Rightarrow> Inl e
      | Inr (m, ws) \<Rightarrow>
          if ws = [] then Inr m
          else case gm_architecture m of
              None \<Rightarrow> Inl WidthWithoutArchitecture
            | Some arch \<Rightarrow> Inr (with_widths arch ws m))"

text \<open>Head arrays of strings or arrays make no sense to write; they are left out of the claim.\<close>

fun plain_heads :: "string \<times> kv_value \<Rightarrow> bool" where
  "plain_heads (key, ArrayOf (Prims _ _)) = True"
| "plain_heads (key, ArrayOf _) = (field_of (from_utf8_lossy key) \<noteq> KvHeadsField)"
| "plain_heads _ = True"

lemma value_type_small: "wf_value v \<Longrightarrow> value_type v < 256 ^ 4"
  by (cases v) (auto simp: primitive_byte_size_def split: if_splits)

lemma read_string_enc:
  "length t \<le> max_string_bytes \<Longrightarrow> read_len_prefixed_string (enc_string t @ rest) = Inr (from_utf8_lossy t, rest)"
  by (simp add: read_len_prefixed_string_def enc_string_def bindp_def ret_def max_string_bytes_def)

lemma skip_value_enc:
  "wf_value v \<Longrightarrow> skip_value (value_type v) (enc_value v @ rest) =
     (if skippable v then Inr ((), rest) else Inl NestedTooDeep)"
proof (cases v)
  case (Number t n)
  assume "wf_value v"
  with Number obtain w where w: "primitive_byte_size t = Some w" by auto
  then have "t \<noteq> 8" "t \<noteq> 9" by (auto simp: primitive_byte_size_def)
  with w Number show ?thesis
    by (simp add: skip_value_def skip_value_at_depth_def skip_exact_def bindp_def ret_def prim_width_def)
next
  case (Text t)
  assume "wf_value v"
  with Text show ?thesis
    by (simp add: skip_value_def skip_value_at_depth_def skip_string_enc max_string_bytes_def)
next
  case (ArrayOf a)
  assume "wf_value v"
  with ArrayOf skip_value_exact_aux show ?thesis by simp
qed

lemma read_u64_number:
  assumes "primitive_byte_size t \<noteq> None" "v < 256 ^ prim_width t"
  shows "read_value_as_u64 t (enc_le (prim_width t) v @ rest) = Inr (int_value t v, rest)"
proof -
  have skip: "skip_value t (enc_le (prim_width t) v @ rest) = Inr ((), rest)"
    using skip_value_enc [of "Number t v" rest] assms by simp
  have "t \<in> {0, 1, 2, 3, 4, 5, 6, 7, 10, 11, 12}"
    using assms(1) by (auto simp: primitive_byte_size_def split: if_splits)
  then consider "t = 0" | "t = 1" | "t = 2" | "t = 3" | "t = 4" | "t = 5" | "t \<in> {6, 7, 12}" | "t = 10" | "t = 11"
    by auto
  then show ?thesis
  proof cases
    case 7
    then have "read_value_as_u64 t = bindp (skip_value t) (\<lambda>_. ret None)" "int_value t v = None"
      by (auto simp: read_value_as_u64_def int_value_def)
    with skip show ?thesis by (simp add: bindp_def ret_def)
  qed (use assms(2) in \<open>simp_all add: read_value_as_u64_def int_value_def prim_width_def
      primitive_byte_size_def bindp_def ret_def\<close>)
qed

lemma read_u64_enc:
  assumes "wf_value v"
  shows "read_value_as_u64 (value_type v) (enc_value v @ rest) =
    (if skippable v then Inr (as_number v, rest) else Inl NestedTooDeep)"
proof (cases v)
  case (Number t n)
  with assms read_u64_number [of t n rest] show ?thesis by simp
next
  case (Text t)
  with skip_value_enc [OF assms, of rest] show ?thesis by (simp add: read_value_as_u64_def bindp_def ret_def)
next
  case (ArrayOf a)
  with skip_value_enc [OF assms, of rest] show ?thesis by (simp add: read_value_as_u64_def bindp_def ret_def)
qed

lemma read_text_enc:
  assumes "wf_value v"
  shows "read_value_as_string (value_type v) (enc_value v @ rest) =
    (if skippable v then Inr (as_text v, rest) else Inl NestedTooDeep)"
proof (cases v)
  case (Text t)
  with assms show ?thesis by (simp add: read_value_as_string_def read_string_enc bindp_def ret_def)
next
  case (Number t n)
  with assms have "t \<noteq> 8" by (auto simp: primitive_byte_size_def)
  with Number skip_value_enc [OF assms, of rest] show ?thesis
    by (simp add: read_value_as_string_def bindp_def ret_def)
next
  case (ArrayOf a)
  with skip_value_enc [OF assms, of rest] show ?thesis by (simp add: read_value_as_string_def bindp_def ret_def)
qed

lemma read_heads_enc:
  assumes "primitive_byte_size t \<noteq> None" "\<forall>v \<in> set vs. v < 256 ^ prim_width t"
  shows "\<exists>xs. read_heads (length vs) t (concat (map (enc_le (prim_width t)) vs) @ rest)
      = Inr ((xs, \<forall>v \<in> set vs. int_value t v \<noteq> None), rest)
    \<and> ((\<forall>v \<in> set vs. int_value t v \<noteq> None) \<longrightarrow> xs = map (\<lambda>v. the (int_value t v)) vs)"
  using assms(2)
proof (induction vs)
  case Nil
  then show ?case by (simp add: ret_def)
next
  case (Cons v vs)
  then obtain xs where xs: "read_heads (length vs) t (concat (map (enc_le (prim_width t)) vs) @ rest)
      = Inr ((xs, \<forall>v \<in> set vs. int_value t v \<noteq> None), rest)"
    "(\<forall>v \<in> set vs. int_value t v \<noteq> None) \<longrightarrow> xs = map (\<lambda>v. the (int_value t v)) vs" by auto
  have v: "read_value_as_u64 t (enc_le (prim_width t) v @ concat (map (enc_le (prim_width t)) vs) @ rest)
      = Inr (int_value t v, concat (map (enc_le (prim_width t)) vs) @ rest)"
    using Cons.prems by (intro read_u64_number [OF assms(1)]) simp
  show ?case
    using xs v by (cases "int_value t v") (auto simp: bindp_def ret_def)
qed

lemma read_kv_heads_enc:
  assumes "wf_value v" "case v of ArrayOf (Prims _ _) \<Rightarrow> True | ArrayOf _ \<Rightarrow> False | _ \<Rightarrow> True"
  shows "read_kv_heads (value_type v) (m, ws) (enc_value v @ rest) =
    (case heads_meaning v (m, ws) of Inl e \<Rightarrow> Inl e | Inr st' \<Rightarrow> Inr (st', rest))"
proof (cases "\<exists>a. v = ArrayOf a")
  case True
  then obtain t vs where v: "v = ArrayOf (Prims t vs)"
    using assms(2) by (auto elim: gguf_array.exhaust split: gguf_array.splits)
  then have wf: "primitive_byte_size t \<noteq> None" "8 * length vs < 2 ^ 64" "\<forall>v \<in> set vs. v < 256 ^ prim_width t"
    using assms(1) by auto
  from wf(1) have t: "t < 4294967296" by (auto simp: primitive_byte_size_def split: if_splits)
  obtain xs where xs: "read_heads (length vs) t (concat (map (enc_le (prim_width t)) vs) @ rest)
      = Inr ((xs, \<forall>v \<in> set vs. int_value t v \<noteq> None), rest)"
    "(\<forall>v \<in> set vs. int_value t v \<noteq> None) \<longrightarrow> xs = map (\<lambda>v. the (int_value t v)) vs"
    using read_heads_enc [OF wf(1,3), of rest] by blast
  show ?thesis
    using xs wf(2) t by (auto simp: v read_kv_heads_def enc_array_def bindp_def ret_def fail_def)
next
  case False
  then have t: "value_type v \<noteq> 9" using assms(1) by (cases v) (auto simp: primitive_byte_size_def)
  have skip: "skippable v" using False by (cases v) auto
  have "heads_meaning v (m, ws) =
      (case as_number v of None \<Rightarrow> Inr (m, ws) | Some n \<Rightarrow> Inr (m\<lparr>gm_head_count_kv := Some n\<rparr>, ws))"
    using False skip by (cases v) simp_all
  then show ?thesis
    using t skip read_u64_enc [OF assms(1), of rest]
    by (auto simp: read_kv_heads_def on_u64_def bindp_def ret_def split: option.splits)
qed

lemma read_width_enc:
  assumes "wf_value v"
  shows "read_width key (value_type v) (m, ws) (enc_value v @ rest) =
    (case width_meaning key v (m, ws) of Inl e \<Rightarrow> Inl e | Inr st' \<Rightarrow> Inr (st', rest))"
proof -
  have "skippable v" if "value_type v \<in> integer_types" using that by (cases v) (auto simp: integer_types_def)
  then show ?thesis
    using read_u64_enc [OF assms, of rest]
    by (auto simp: read_width_def fail_def split: option.splits)
qed

lemma read_kv_enc:
  assumes "wf_kv kv" "plain_heads kv"
  shows "read_kv st (enc_kv kv @ rest) =
    (case kv_meaning kv st of Inl e \<Rightarrow> Inl e | Inr st' \<Rightarrow> Inr (st', rest))"
proof -
  obtain key v where kv: "kv = (key, v)" by fastforce
  obtain m ws where st: "st = (m, ws)" by fastforce
  have wf: "length key \<le> max_string_bytes" "wf_value v" using assms(1) by (simp_all add: wf_kv_def kv)
  have "read_kv st (enc_kv kv @ rest) =
      (case field_of (from_utf8_lossy key) of
         TextField upd \<Rightarrow> on_string (value_type v) upd st
       | NumberField upd \<Rightarrow> on_u64 (value_type v) upd st
       | WidthField \<Rightarrow> read_width (from_utf8_lossy key) (value_type v) st
       | KvHeadsField \<Rightarrow> read_kv_heads (value_type v) st
       | SkipField \<Rightarrow> bindp (skip_value (value_type v)) (\<lambda>_. ret st)) (enc_value v @ rest)"
    using read_string_enc [OF wf(1)] value_type_small [OF wf(2)]
    by (simp add: read_kv_def kv enc_kv_def bindp_def)
  also have "\<dots> = (case kv_meaning kv st of Inl e \<Rightarrow> Inl e | Inr st' \<Rightarrow> Inr (st', rest))"
  proof (cases "field_of (from_utf8_lossy key)")
    case (TextField upd)
    then show ?thesis
      using read_text_enc [OF wf(2), of rest]
      by (simp add: kv st on_string_def bindp_def ret_def split: option.splits)
  next
    case (NumberField upd)
    then show ?thesis
      using read_u64_enc [OF wf(2), of rest]
      by (simp add: kv st on_u64_def bindp_def ret_def split: option.splits)
  next
    case WidthField
    then show ?thesis using read_width_enc [OF wf(2)] by (simp add: kv st)
  next
    case KvHeadsField
    then have "case v of ArrayOf (Prims _ _) \<Rightarrow> True | ArrayOf _ \<Rightarrow> False | _ \<Rightarrow> True"
      using assms(2) by (auto simp: kv split: kv_value.splits gguf_array.splits)
    with KvHeadsField show ?thesis using read_kv_heads_enc [OF wf(2)] by (simp add: kv st)
  next
    case SkipField
    then show ?thesis
      using skip_value_enc [OF wf(2), of rest] by (simp add: kv st bindp_def ret_def)
  qed
  finally show ?thesis .
qed

lemma kv_loop_enc:
  "\<forall>kv \<in> set kvs. wf_kv kv \<and> plain_heads kv \<Longrightarrow>
     kv_loop (length kvs) st (concat (map enc_kv kvs) @ rest) =
       (case kvs_meaning kvs st of Inl e \<Rightarrow> Inl e | Inr st' \<Rightarrow> Inr (st', rest))"
proof (induction kvs arbitrary: st)
  case Nil
  then show ?case by (simp add: ret_def)
next
  case (Cons kv kvs)
  then show ?case
    using read_kv_enc [of kv st "concat (map enc_kv kvs) @ rest"]
    by (auto simp: bindp_def split: sum.splits)
qed

text \<open>
  C27: The parser implements the format.  For every list of well-formed key/value pairs written
  as a version 1 to 3 header, followed by any tensor data, parsing returns exactly what the
  list means: the last value of each field wins, values of another type are skipped, and
  explicit attention widths are bound to the architecture wherever it appears in the header;
  where the meaning is an error (a duplicate, non-positive or non-integer width, a head array
  of illegal length, too deep an array) the parser returns that error.
\<close>

theorem parse_refines_meaning:
  assumes "\<forall>kv \<in> set kvs. wf_kv kv \<and> plain_heads kv" "length kvs < 2 ^ 64"
    "1 \<le> version" "version \<le> 3" "tensors < 2 ^ 64"
  shows "parse_gguf_metadata (Some (enc_header version tensors kvs @ rest)) = header_meaning kvs"
proof -
  have "gguf_header (enc_header version tensors kvs @ rest) =
      bindp (kv_loop (length kvs) (default_metadata, [])) bind_widths (concat (map enc_kv kvs) @ rest)"
    using assms(2-5) read_exact_append [of "''GGUF''" 4]
    by (simp add: gguf_header_def enc_header_def bindp_def)
  also have "\<dots> = (case header_meaning kvs of Inl e \<Rightarrow> Inl e | Inr m \<Rightarrow> Inr (m, rest))"
    using kv_loop_enc [OF assms(1), of "(default_metadata, [])" rest]
    by (auto simp: bindp_def header_meaning_def bind_widths_def fold_bind_width ret_def fail_def split: sum.splits option.splits)
  finally show ?thesis by (auto simp: parse_gguf_metadata_def split: sum.splits)
qed

definition sample_kvs :: "(string \<times> kv_value) list" where
  "sample_kvs = [(''a.attention.key_length'', Number 4 64), (''general.architecture'', Text ''a''),
     (''a.block_count'', Number 4 7), (''a.block_count'', Number 10 8)]"

lemma lossy_ascii:
  "\<forall>b \<in> set bs. b \<le> 127 \<Longrightarrow> lossy_bytes bs = bs"
  by (induction bs) (simp_all add: lossy_bytes.simps [of "_ # _"] lossy_bytes.simps [of "[]"] utf8_scan_def)

lemma from_utf8_lossy_ascii: "\<forall>c \<in> set s. (of_char c :: nat) \<le> 127 \<Longrightarrow> from_utf8_lossy s = s"
  by (simp add: from_utf8_lossy_def lossy_ascii comp_def)

lemma sample_lossy:
  "from_utf8_lossy ''a.attention.key_length'' = ''a.attention.key_length''"
  "from_utf8_lossy ''general.architecture'' = ''general.architecture''"
  "from_utf8_lossy ''a.block_count'' = ''a.block_count''" "from_utf8_lossy ''a'' = ''a''"
  by (simp_all add: from_utf8_lossy_ascii)

lemma sample_meaning:
  "header_meaning sample_kvs =
     Inr (default_metadata\<lparr>gm_architecture := Some ''a'', gm_block_count := Some 8, gm_key_length := Some 64\<rparr>)"
proof -
  have f: "field_of ''a.attention.key_length'' = WidthField"
    "field_of ''general.architecture'' = TextField (\<lambda>s m. m\<lparr>gm_architecture := Some (trim s)\<rparr>)"
    "field_of ''a.block_count'' = NumberField (\<lambda>n m. m\<lparr>gm_block_count := Some n\<rparr>)"
    by (simp_all add: field_of_def general_field_def arch_field_def is_width_key_def ends_with_def)
  have t: "trim ''a'' = ''a''"
    by (simp add: trim_def trim_start.simps trim_end.simps ws_prefix_len_def ws_suffix_len_def)
  show ?thesis
    by (simp add: header_meaning_def with_widths_def sample_kvs_def sample_lossy f t int_value_def default_metadata_def
        bind_width_def integer_types_def)
qed

lemma parse_refines_meaning_witness:
  "parse_gguf_metadata (Some (enc_header 3 0 sample_kvs @ ''tensor data'')) =
     Inr (default_metadata\<lparr>gm_architecture := Some ''a'', gm_block_count := Some 8, gm_key_length := Some 64\<rparr>)"
proof -
  have "\<forall>kv \<in> set sample_kvs. wf_kv kv \<and> plain_heads kv" "length sample_kvs < 2 ^ 64"
    by (simp_all add: sample_kvs_def wf_kv_def max_string_bytes_def primitive_byte_size_def prim_width_def)
  from parse_refines_meaning [OF this, of 3 0 "''tensor data''"] show ?thesis
    by (simp add: sample_meaning)
qed

lemma empty_header_parses: "parse_gguf_metadata (Some (enc_header 3 0 [] @ rest)) = Inr default_metadata"
  using read_exact_append [of "''GGUF''" 4 "enc_le 4 3 @ enc_le 8 0 @ enc_le 8 0 @ rest"]
  by (simp add: parse_gguf_metadata_def gguf_header_def enc_header_def bindp_def ret_def bind_widths_def)

lemma truncated_header_rejected_witness:
  "\<exists>header. prefix header (enc_header 3 0 []) \<and> (\<forall>cut. strict_prefix cut header \<longrightarrow>
     (\<exists>e. parse_gguf_metadata (Some cut) = Inl e))"
  using truncated_header_rejected [OF empty_header_parses [of "[]", simplified]] by blast

section \<open>Explicit widths\<close>

definition no_zero_width :: "gguf_metadata \<Rightarrow> bool" where
  "no_zero_width m \<longleftrightarrow> gm_key_length m \<noteq> Some 0 \<and> gm_value_length m \<noteq> Some 0
     \<and> gm_key_length_swa m \<noteq> Some 0 \<and> gm_value_length_swa m \<noteq> Some 0"

definition state_ok :: "header_state \<Rightarrow> bool" where
  "state_ok st \<longleftrightarrow> no_zero_width (fst st) \<and> (\<forall>(k, v) \<in> set (snd st). 0 < v)
     \<and> distinct (map fst (snd st)) \<and> length (snd st) \<le> 16
     \<and> (\<forall>hs. gm_head_count_kv_per_layer (fst st) = Some hs \<longrightarrow> length hs \<le> 4096)"

text \<open>Updates that leave widths and per-layer heads alone.\<close>

definition harmless :: "(gguf_metadata \<Rightarrow> gguf_metadata) \<Rightarrow> bool" where
  "harmless f \<longleftrightarrow> (\<forall>m. gm_key_length (f m) = gm_key_length m \<and> gm_value_length (f m) = gm_value_length m
     \<and> gm_key_length_swa (f m) = gm_key_length_swa m \<and> gm_value_length_swa (f m) = gm_value_length_swa m
     \<and> gm_head_count_kv_per_layer (f m) = gm_head_count_kv_per_layer m)"

lemma harmless_state: "harmless f \<Longrightarrow> state_ok (m, ws) \<Longrightarrow> state_ok (f m, ws)"
  by (simp add: state_ok_def harmless_def no_zero_width_def)

lemma field_harmless:
  "field_of key = TextField f \<Longrightarrow> harmless (f s)" "field_of key = NumberField g \<Longrightarrow> harmless (g n)"
proof -
  have g: "general_field key = Some (TextField f) \<Longrightarrow> harmless (f s)"
    "general_field key = Some (NumberField g) \<Longrightarrow> harmless (g n)" for f s g n
    by (auto simp: general_field_def harmless_def split: if_split_asm)
  have a: "arch_field key \<noteq> TextField f" "arch_field key = NumberField g \<Longrightarrow> harmless (g n)" for f g n
    by (auto simp: arch_field_def harmless_def split: if_split_asm)
  show "field_of key = TextField f \<Longrightarrow> harmless (f s)" "field_of key = NumberField g \<Longrightarrow> harmless (g n)"
    using g a by (auto simp: field_of_def split: option.splits)
qed

lemma bindp_InrD: "bindp p f bs = Inr (y, r) \<Longrightarrow> \<exists>x s. p bs = Inr (x, s) \<and> f x s = Inr (y, r)"
  by (auto simp: bindp_def split: sum.splits)

lemma read_heads_length: "read_heads n k bs = Inr ((vs, ok), r) \<Longrightarrow> length vs \<le> n"
proof (induction n arbitrary: bs vs ok r)
  case (Suc n)
  then obtain v s ws b r' where "read_heads n k s = Inr ((ws, b), r')"
    "(case v of Some x \<Rightarrow> (x # ws, b) | None \<Rightarrow> (ws, False)) = (vs, ok)"
    by (auto simp: ret_def dest!: bindp_InrD)
  with Suc.IH [of s ws b r'] show ?case by (auto split: option.splits)
qed (simp add: ret_def)

lemma read_kv_heads_ok:
  assumes "state_ok st" "read_kv_heads t st bs = Inr (st', r)"
  shows "state_ok st'"
proof (cases "t = 9")
  case True
  with assms(2) obtain n k s vs ok where "read_heads n k s = Inr ((vs, ok), r)" "n \<le> 4096"
    "st' = ((fst st)\<lparr>gm_head_count_kv_per_layer := if ok then Some vs else None\<rparr>, snd st)"
    by (auto simp: read_kv_heads_def ret_def fail_def dest!: bindp_InrD split: if_splits)
  with assms(1) read_heads_length [of n k s vs ok r] show ?thesis
    by (auto simp: state_ok_def no_zero_width_def split: if_splits)
next
  case False
  then show ?thesis
    using assms by (auto simp: read_kv_heads_def on_u64_def ret_def state_ok_def no_zero_width_def
        dest!: bindp_InrD split: option.splits)
qed

lemma read_width_ok:
  assumes "state_ok st" "read_width key t st bs = Inr (st', r)"
  shows "state_ok st'"
  using assms
  by (auto simp: read_width_def fail_def state_ok_def case_prod_beta split: if_splits sum.splits option.splits)

lemma read_kv_ok:
  assumes "state_ok st" "read_kv st bs = Inr (st', r)"
  shows "state_ok st'"
proof -
  obtain m ws where st: "st = (m, ws)" by fastforce
  from assms(2) obtain key t s where
    s: "(case field_of key of
         TextField upd \<Rightarrow> on_string t upd st
       | NumberField upd \<Rightarrow> on_u64 t upd st
       | WidthField \<Rightarrow> read_width key t st
       | KvHeadsField \<Rightarrow> read_kv_heads t st
       | SkipField \<Rightarrow> bindp (skip_value t) (\<lambda>_. ret st)) s = Inr (st', r)"
    unfolding read_kv_def by (auto dest!: bindp_InrD)
  show ?thesis
  proof (cases "field_of key")
    case (TextField upd)
    with s assms(1) show ?thesis
      using harmless_state [OF field_harmless(1) [OF TextField]]
      by (auto simp: on_string_def ret_def st dest!: bindp_InrD split: option.splits)
  next
    case (NumberField upd)
    with s assms(1) show ?thesis
      using harmless_state [OF field_harmless(2) [OF NumberField]]
      by (auto simp: on_u64_def ret_def st dest!: bindp_InrD split: option.splits)
  next
    case WidthField
    with s assms(1) read_width_ok show ?thesis by simp
  next
    case KvHeadsField
    with s assms(1) read_kv_heads_ok show ?thesis by simp
  next
    case SkipField
    with s assms(1) show ?thesis by (auto simp: ret_def dest!: bindp_InrD)
  qed
qed

lemma kv_loop_ok: "state_ok st \<Longrightarrow> kv_loop n st bs = Inr (st', r) \<Longrightarrow> state_ok st'"
proof (induction n arbitrary: st bs)
  case (Suc n)
  then obtain st1 s where "read_kv st bs = Inr (st1, s)" "kv_loop n st1 s = Inr (st', r)"
    by (auto dest!: bindp_InrD)
  with Suc read_kv_ok show ?case by blast
qed (simp add: ret_def)

lemma bind_width_ok:
  "0 < snd kv \<Longrightarrow> no_zero_width m \<Longrightarrow> no_zero_width (bind_width arch kv m)
     \<and> gm_head_count_kv_per_layer (bind_width arch kv m) = gm_head_count_kv_per_layer m"
  by (cases kv) (simp add: bind_width_def no_zero_width_def Let_def)

lemma fold_bind_width_ok:
  "\<forall>kv \<in> set ws. 0 < snd kv \<Longrightarrow> no_zero_width m \<Longrightarrow> no_zero_width (fold (bind_width arch) ws m)
     \<and> gm_head_count_kv_per_layer (fold (bind_width arch) ws m) = gm_head_count_kv_per_layer m"
  by (induction ws arbitrary: m) (simp_all add: bind_width_ok)

text \<open>
  No header smuggles in a free KV cache.  Whatever bytes are parsed, metadata that comes out
  has no zero attention width and at most 4096 per-layer head counts.
\<close>

lemma parsed_widths_positive:
  assumes "parse_gguf_metadata (Some bs) = Inr m"
  shows "no_zero_width m \<and> (\<forall>hs. gm_head_count_kv_per_layer m = Some hs \<longrightarrow> length hs \<le> 4096)"
proof -
  from assms obtain r where "gguf_header bs = Inr (m, r)"
    by (auto simp: parse_gguf_metadata_def split: sum.splits)
  then obtain n s st s' where loop: "kv_loop n (default_metadata, []) s = Inr (st, s')"
    and bind: "bind_widths st s' = Inr (m, r)"
    by (auto simp: gguf_header_def fail_def dest!: bindp_InrD split: if_splits)
  have "state_ok (default_metadata, [])"
    by (simp add: state_ok_def no_zero_width_def default_metadata_def)
  from kv_loop_ok [OF this loop] have ok: "state_ok st" .
  then have "\<forall>kv \<in> set (snd st). 0 < snd kv" "no_zero_width (fst st)" by (auto simp: state_ok_def)
  with bind ok fold_bind_width_ok [of "snd st" "fst st"] show ?thesis
    by (auto simp: bind_widths_def ret_def fail_def state_ok_def split: if_splits option.splits)
qed

lemma parsed_widths_positive_witness: "no_zero_width default_metadata"
  using parsed_widths_positive [OF empty_header_parses [of "[]"]] by blast

section \<open>From the header to a model's metadata\<close>

definition trim_optional :: "string option \<Rightarrow> string option" where
  "trim_optional input = Option.bind input (\<lambda>v. if trim v = [] then None else Some (trim v))"

definition file_type_to_quantization_label :: "nat \<Rightarrow> string option" where
  "file_type_to_quantization_label = map_of
     [
      (0, ''F32''), (1, ''F16''), (2, ''Q4_0''), (3, ''Q4_1''), (7, ''Q8_0''), (8, ''Q5_0''),
      (9, ''Q5_1''), (10, ''Q2_K''), (11, ''Q3_K_S''), (12, ''Q3_K_M''), (13, ''Q3_K_L''), (14,
      ''Q4_K_S''), (15, ''Q4_K_M''), (16, ''Q5_K_S''), (17, ''Q5_K_M''), (18, ''Q6_K''), (19,
      ''IQ2_XXS''), (20, ''IQ2_XS''), (21, ''IQ3_XXS''), (22, ''IQ1_S''), (23, ''IQ4_NL''), (24,
      ''IQ3_S''), (25, ''IQ3_M''), (26, ''IQ2_S''), (27, ''IQ2_M''), (28, ''IQ4_XS''), (29,
      ''IQ1_M''), (30, ''BF16''), (31, ''Q4_0_4_4''), (32, ''Q4_0_4_8''), (33, ''Q4_0_8_8''),
      (34, ''TQ1_0''), (35, ''TQ2_0'')]"

text \<open>Bits per weight, in hundredths.\<close>

definition file_type_bits_per_weight :: "nat \<Rightarrow> nat option" where
  "file_type_bits_per_weight = map_of
     [
      (0, 3200), (1, 1600), (2, 450), (3, 500), (7, 850), (8, 550), (9, 550), (10, 335), (11,
      350), (12, 370), (13, 390), (14, 458), (15, 483), (16, 554), (17, 569), (18, 659), (19,
      206), (20, 231), (21, 306), (22, 156), (23, 450), (24, 344), (25, 344), (26, 250), (27,
      270), (28, 425), (29, 175), (30, 1600), (34, 169), (35, 206)]"

text \<open>
  The parameter estimate.  Its two floating-point steps are the functions \<open>times_2_67\<close> (the
  default feed-forward width) and \<open>params_of_size\<close> (90% of the file in bits over the bits per
  weight).
\<close>

definition arch_parameters :: "nat \<Rightarrow> nat \<Rightarrow> nat \<Rightarrow> nat \<Rightarrow> nat \<Rightarrow> nat option" where
  "arch_parameters d n_layer d_ff vocab n_experts = do {
     a1 \<leftarrow> checked_mul n_layer 4;
     a2 \<leftarrow> checked_mul a1 d;
     attention \<leftarrow> checked_mul a2 d;
     f1 \<leftarrow> checked_mul n_layer 3;
     f2 \<leftarrow> checked_mul f1 d;
     f3 \<leftarrow> checked_mul f2 d_ff;
     ffn \<leftarrow> checked_mul f3 n_experts;
     embed \<leftarrow> checked_mul vocab d;
     s \<leftarrow> checked_add attention ffn;
     checked_add s embed
   }"

definition estimate_parameter_count ::
  "(nat \<Rightarrow> nat) \<Rightarrow> (nat \<Rightarrow> nat \<Rightarrow> nat) \<Rightarrow> gguf_metadata \<Rightarrow> nat option \<Rightarrow> nat option" where
  "estimate_parameter_count times_2_67 params_of_size m file_size =
     (let from_arch = do {
            d \<leftarrow> gm_embedding_length m;
            n_layer \<leftarrow> gm_block_count m;
            arch_parameters d n_layer
              (case gm_feed_forward_length m of Some f \<Rightarrow> f | None \<Rightarrow> times_2_67 d)
              (case gm_vocab_size m of Some v \<Rightarrow> v | None \<Rightarrow> 32000)
              (case gm_expert_count m of Some e \<Rightarrow> e | None \<Rightarrow> 1)
          }
      in case from_arch of
           Some t \<Rightarrow> Some t
         | None \<Rightarrow> do {
             bytes \<leftarrow> file_size;
             ft \<leftarrow> gm_file_type m;
             bpw \<leftarrow> file_type_bits_per_weight ft;
             Some (params_of_size bytes bpw)
           })"

definition build_model_metadata ::
  "(nat \<Rightarrow> nat) \<Rightarrow> (nat \<Rightarrow> nat \<Rightarrow> nat) \<Rightarrow> gguf_metadata \<Rightarrow> nat option \<Rightarrow> model_metadata option" where
  "build_model_metadata times_2_67 params_of_size m file_size =
     (if gm_architecture m = None \<and> gm_file_type m = None \<and> gm_block_count m = None then None
      else Some \<lparr>mm_architecture = gm_architecture m,
        mm_quantization = Option.bind (gm_file_type m) file_type_to_quantization_label,
        mm_file_type = map_option (\<lambda>v. v mod 2 ^ 32) (gm_file_type m),
        mm_parameter_count = estimate_parameter_count times_2_67 params_of_size m file_size,
        mm_context_length = gm_context_length m, mm_embedding_length = gm_embedding_length m,
        mm_block_count = gm_block_count m, mm_head_count = gm_head_count m,
        mm_head_count_kv = gm_head_count_kv m,
        mm_head_count_kv_per_layer = gm_head_count_kv_per_layer m,
        mm_key_length = gm_key_length m, mm_value_length = gm_value_length m,
        mm_key_length_swa = gm_key_length_swa m, mm_value_length_swa = gm_value_length_swa m,
        mm_vocab_size = gm_vocab_size m, mm_feed_forward_length = gm_feed_forward_length m,
        mm_supports_tools = map_option (\<lambda>t. str_find t ''tools'' \<noteq> None) (gm_chat_template m),
        mm_expert_count = gm_expert_count m, mm_expert_used_count = gm_expert_used_count m\<rparr>)"

text \<open>What \<^verbatim>\<open>detect_format_from_path\<close> and \<^verbatim>\<open>backfill_metadata\<close> ask of a path.\<close>

record path_view =
  pv_is_file :: bool
  pv_extension :: "string option"
  pv_is_dir :: bool
  pv_has_model_onnx :: bool
  pv_entry_extensions :: "string option list option"
  pv_contents :: "string option"
  pv_len :: "nat option"

definition detect_format :: "path_view \<Rightarrow> string" where
  "detect_format p =
     (case (pv_is_file p, pv_extension p) of
        (True, Some ext) \<Rightarrow>
          (if ext = ''gguf'' then ''gguf'' else if ext = ''onnx'' then ''onnx''
           else if ext = ''safetensors'' then ''mlx'' else ''gguf'')
      | _ \<Rightarrow>
          (if pv_is_dir p then
             if pv_has_model_onnx p then ''onnx''
             else (case pv_entry_extensions p of
                 Some exts \<Rightarrow> if Some ''safetensors'' \<in> set exts then ''mlx'' else ''gguf''
               | None \<Rightarrow> ''gguf'')
           else ''gguf''))"

record stored_model =
  sm_path :: "string option"
  sm_metadata :: "model_metadata option"
  sm_context_size :: nat

definition backfill_metadata ::
  "(nat \<Rightarrow> nat) \<Rightarrow> (nat \<Rightarrow> nat \<Rightarrow> nat) \<Rightarrow> (string \<Rightarrow> path_view) \<Rightarrow> stored_model \<Rightarrow> stored_model \<times> bool" where
  "backfill_metadata times_2_67 params_of_size view m =
     (if sm_metadata m \<noteq> None then (m, False)
      else case sm_path m of
          None \<Rightarrow> (m, False)
        | Some path \<Rightarrow>
            if \<not> ends_with path ''.gguf'' \<or> \<not> pv_is_file (view path) then (m, False)
            else (case parse_gguf_metadata (pv_contents (view path)) of
                Inl _ \<Rightarrow> (m, False)
              | Inr g \<Rightarrow>
                  (case build_model_metadata times_2_67 params_of_size g (pv_len (view path)) of
                     None \<Rightarrow> (m, False)
                   | Some meta \<Rightarrow>
                       (m\<lparr>sm_context_size := (case gm_context_length g of
                            Some c \<Rightarrow> if sm_context_size m = 8192 \<and> 0 < c \<and> c \<noteq> 8192
                                      then min c u32_max else sm_context_size m
                          | None \<Rightarrow> sm_context_size m),
                          sm_metadata := Some meta\<rparr>, True))))"

lemma arch_parameters_exact:
  "arch_parameters d n f v e = Some t \<Longrightarrow>
     t = n * 4 * d * d + n * 3 * d * f * e + v * d \<and> t \<le> u64_max"
  by (auto simp: arch_parameters_def bind_eq_Some_conv checked_mul_Some_iff checked_add_Some_iff)

text \<open>A parsed file cannot ask for the saturated KV cost that only a zero width produces.\<close>

lemma built_width_positive:
  assumes "parse_gguf_metadata (Some bs) = Inr g" "build_model_metadata p q g n = Some m"
    "no_zero_width g"
  shows "Some 0 \<notin> {mm_key_length m, mm_value_length m, mm_key_length_swa m, mm_value_length_swa m}"
  using assms(2,3) by (auto simp: build_model_metadata_def no_zero_width_def split: if_splits)

end
