(* ===== verification/Zoo.thy ===== *)
theory Zoo
  imports Prelude
begin

text \<open>
  The catalogue of known models (\<^verbatim>\<open>src/zoo.rs\<close>): its entries, the families they belong to with the
  sampling recipe of each, and the choice of a bundle for a device.  A float of a recipe is a
  literal with at most two decimals and is modelled by its hundredths.  A hash map is an association
  list, whose order is the order of iteration.  The platform the build runs on, what operating
  system it is for and which backends are compiled in are the parameters \<open>build\<close>.
\<close>

record platform_bundle =
  pb_backend :: string
  pb_source :: string
  pb_file :: "string option"
  pb_min_ram_mb :: nat

record zoo_entry =
  ze_display_name :: string
  ze_family :: string
  ze_default_quant :: string
  ze_platforms :: "(string \<times> platform_bundle) list"

record model_zoo =
  mz_schema_version :: nat
  mz_models :: "(string \<times> zoo_entry) list"

definition default_min_ram_mb :: nat where "default_min_ram_mb = 4096"
definition default_quant :: string where "default_quant = ''q4_k_m''"

definition zoo_get :: "model_zoo \<Rightarrow> string \<Rightarrow> zoo_entry option" where
  "zoo_get zoo model_id = map_of (mz_models zoo) model_id"

section \<open>Families\<close>

datatype model_family =
  Llama3 | Qwen25 | Qwen35 | Gemma2 | Gemma3 | Gemma4 | MistralSmall3 | Glm4 | MiniMaxM2
  | DeepSeekCoderV2 | DeepSeekR1 | SmolLm2 | GptOss | UnknownFamily

datatype template_kind =
  TLlama3 | TChatMl | TQwen3 | TGemma | TGemma4 | TMistral | TDeepSeek | TGlm4 | TMiniMax | THarmony | TAuto

datatype thinking_default = ThinkUnsupported | ThinkOff | ThinkOn | ThinkAuto

datatype thinking_mode = ModeOff | ModeOn | ModeAuto

record family_defaults =
  fd_temperature :: nat
  fd_top_p :: "nat option"
  fd_top_k :: "int option"
  fd_min_p :: "nat option"
  fd_repetition_penalty :: "nat option"
  fd_presence_penalty :: "nat option"
  fd_template_kind :: template_kind
  fd_thinking :: thinking_default

fun family_as_str :: "model_family \<Rightarrow> string" where
  "family_as_str Llama3 = ''llama3''"
| "family_as_str Qwen25 = ''qwen2.5''"
| "family_as_str Qwen35 = ''qwen3.5''"
| "family_as_str Gemma2 = ''gemma2''"
| "family_as_str Gemma3 = ''gemma3''"
| "family_as_str Gemma4 = ''gemma4''"
| "family_as_str MistralSmall3 = ''mistral-small-3''"
| "family_as_str Glm4 = ''glm4''"
| "family_as_str MiniMaxM2 = ''minimax-m2''"
| "family_as_str DeepSeekCoderV2 = ''deepseek-coder-v2''"
| "family_as_str DeepSeekR1 = ''deepseek-r1''"
| "family_as_str SmolLm2 = ''smollm2''"
| "family_as_str GptOss = ''gpt-oss''"
| "family_as_str UnknownFamily = ''unknown''"

definition family_kind :: "zoo_entry \<Rightarrow> model_family" where
  "family_kind e =
     (let s = ze_family e in
      if s = ''llama3'' then Llama3
      else if s = ''qwen2.5'' then Qwen25
      else if s = ''qwen3.5'' then Qwen35
      else if s = ''gemma2'' then Gemma2
      else if s = ''gemma3'' then Gemma3
      else if s = ''gemma4'' then Gemma4
      else if s = ''mistral-small-3'' then MistralSmall3
      else if s = ''glm4'' then Glm4
      else if s = ''minimax-m2'' then MiniMaxM2
      else if s = ''deepseek-coder-v2'' then DeepSeekCoderV2
      else if s = ''deepseek-r1'' then DeepSeekR1
      else if s = ''smollm2'' then SmolLm2
      else if s = ''gpt-oss'' then GptOss
      else UnknownFamily)"

fun defaults_of :: "model_family \<Rightarrow> family_defaults" where
  "defaults_of Llama3 = \<lparr>fd_temperature = 60, fd_top_p = Some 90, fd_top_k = Some 50, fd_min_p = None,
     fd_repetition_penalty = Some 100, fd_presence_penalty = None, fd_template_kind = TLlama3,
     fd_thinking = ThinkUnsupported\<rparr>"
| "defaults_of Qwen25 = \<lparr>fd_temperature = 70, fd_top_p = Some 80, fd_top_k = Some 20, fd_min_p = None,
     fd_repetition_penalty = Some 105, fd_presence_penalty = None, fd_template_kind = TChatMl,
     fd_thinking = ThinkUnsupported\<rparr>"
| "defaults_of Qwen35 = \<lparr>fd_temperature = 70, fd_top_p = Some 80, fd_top_k = Some 20, fd_min_p = Some 0,
     fd_repetition_penalty = Some 100, fd_presence_penalty = Some 150, fd_template_kind = TQwen3,
     fd_thinking = ThinkOff\<rparr>"
| "defaults_of Gemma2 = \<lparr>fd_temperature = 100, fd_top_p = Some 95, fd_top_k = Some 64, fd_min_p = None,
     fd_repetition_penalty = Some 100, fd_presence_penalty = None, fd_template_kind = TGemma,
     fd_thinking = ThinkUnsupported\<rparr>"
| "defaults_of Gemma3 = \<lparr>fd_temperature = 100, fd_top_p = Some 95, fd_top_k = Some 64, fd_min_p = None,
     fd_repetition_penalty = Some 100, fd_presence_penalty = None, fd_template_kind = TGemma,
     fd_thinking = ThinkUnsupported\<rparr>"
| "defaults_of Gemma4 = \<lparr>fd_temperature = 100, fd_top_p = Some 95, fd_top_k = Some 64, fd_min_p = None,
     fd_repetition_penalty = Some 100, fd_presence_penalty = None, fd_template_kind = TGemma4,
     fd_thinking = ThinkOff\<rparr>"
| "defaults_of MistralSmall3 = \<lparr>fd_temperature = 15, fd_top_p = Some 100, fd_top_k = None, fd_min_p = None,
     fd_repetition_penalty = None, fd_presence_penalty = None, fd_template_kind = TMistral,
     fd_thinking = ThinkUnsupported\<rparr>"
| "defaults_of Glm4 = \<lparr>fd_temperature = 70, fd_top_p = Some 100, fd_top_k = None, fd_min_p = None,
     fd_repetition_penalty = None, fd_presence_penalty = None, fd_template_kind = TGlm4,
     fd_thinking = ThinkOff\<rparr>"
| "defaults_of MiniMaxM2 = \<lparr>fd_temperature = 100, fd_top_p = Some 95, fd_top_k = Some 40, fd_min_p = None,
     fd_repetition_penalty = None, fd_presence_penalty = None, fd_template_kind = TMiniMax,
     fd_thinking = ThinkUnsupported\<rparr>"
| "defaults_of DeepSeekCoderV2 = \<lparr>fd_temperature = 60, fd_top_p = Some 95, fd_top_k = Some 50, fd_min_p = None,
     fd_repetition_penalty = Some 100, fd_presence_penalty = None, fd_template_kind = TDeepSeek,
     fd_thinking = ThinkUnsupported\<rparr>"
| "defaults_of DeepSeekR1 = \<lparr>fd_temperature = 60, fd_top_p = Some 95, fd_top_k = Some 50, fd_min_p = None,
     fd_repetition_penalty = Some 100, fd_presence_penalty = None, fd_template_kind = TAuto,
     fd_thinking = ThinkOn\<rparr>"
| "defaults_of SmolLm2 = \<lparr>fd_temperature = 60, fd_top_p = Some 95, fd_top_k = Some 50, fd_min_p = None,
     fd_repetition_penalty = Some 120, fd_presence_penalty = None, fd_template_kind = TChatMl,
     fd_thinking = ThinkUnsupported\<rparr>"
| "defaults_of GptOss = \<lparr>fd_temperature = 100, fd_top_p = Some 100, fd_top_k = None, fd_min_p = None,
     fd_repetition_penalty = None, fd_presence_penalty = None, fd_template_kind = THarmony,
     fd_thinking = ThinkOn\<rparr>"
| "defaults_of UnknownFamily = \<lparr>fd_temperature = 70, fd_top_p = Some 95, fd_top_k = Some 40, fd_min_p = None,
     fd_repetition_penalty = None, fd_presence_penalty = None, fd_template_kind = TAuto,
     fd_thinking = ThinkUnsupported\<rparr>"

definition default_enable_thinking :: "model_family \<Rightarrow> bool" where
  "default_enable_thinking f \<longleftrightarrow> f = Gemma4"

definition entry_defaults :: "zoo_entry \<Rightarrow> family_defaults" where
  "entry_defaults e = defaults_of (family_kind e)"

definition recommended_thinking :: "model_zoo \<Rightarrow> string \<Rightarrow> thinking_mode option" where
  "recommended_thinking zoo model_id =
     (case zoo_get zoo model_id of
        None \<Rightarrow> None
      | Some entry \<Rightarrow>
          (case fd_thinking (entry_defaults entry) of
             ThinkUnsupported \<Rightarrow> None
           | ThinkOff \<Rightarrow> Some ModeOff
           | ThinkOn \<Rightarrow> Some ModeOn
           | ThinkAuto \<Rightarrow> Some ModeAuto))"

text \<open>The recipe as sampling settings; the settings it leaves at their defaults are left out.\<close>

record sampling_settings =
  sa_temperature :: "nat option"
  sa_top_p :: "nat option"
  sa_top_k :: "int option"
  sa_min_p :: "nat option"
  sa_penalty_repeat :: "nat option"
  sa_penalty_present :: "nat option"

definition recommended_sampling :: "model_zoo \<Rightarrow> string \<Rightarrow> sampling_settings option" where
  "recommended_sampling zoo model_id =
     (case zoo_get zoo model_id of
        None \<Rightarrow> None
      | Some entry \<Rightarrow>
          let d = entry_defaults entry in
          Some \<lparr>sa_temperature = Some (fd_temperature d), sa_top_p = fd_top_p d, sa_top_k = fd_top_k d,
            sa_min_p = fd_min_p d, sa_penalty_repeat = fd_repetition_penalty d,
            sa_penalty_present = fd_presence_penalty d\<rparr>)"

section \<open>Detecting a family\<close>

definition contains_str :: "string \<Rightarrow> string \<Rightarrow> bool" where
  "contains_str s p \<longleftrightarrow> str_find s p \<noteq> None"

definition to_ascii_lowercase :: "string \<Rightarrow> string" where
  "to_ascii_lowercase s = map (\<lambda>c. let n = of_char c :: nat in if 65 \<le> n \<and> n \<le> 90 then char_of (n + 32) else c) s"

text \<open>The first stage: what the repository's name says.\<close>

definition detect_by_repo :: "string \<Rightarrow> model_family option" where
  "detect_by_repo repo =
     (if contains_str repo ''deepseek-r1'' \<or> contains_str repo ''r1-distill'' \<or> contains_str repo ''r1-0528''
      then Some DeepSeekR1
      else if contains_str repo ''smollm2'' then Some SmolLm2
      else if contains_str repo ''gemma-4'' then Some Gemma4
      else if contains_str repo ''gemma-3'' then Some Gemma3
      else if contains_str repo ''gemma-2'' then Some Gemma2
      else if contains_str repo ''qwen3.5'' \<or> contains_str repo ''qwen3.6'' then Some Qwen35
      else if contains_str repo ''qwen2.5'' then Some Qwen25
      else if contains_str repo ''mistral-small-3'' then Some MistralSmall3
      else if contains_str repo ''glm-4'' then Some Glm4
      else if contains_str repo ''minimax-m2'' then Some MiniMaxM2
      else if contains_str repo ''deepseek-coder-v2'' then Some DeepSeekCoderV2
      else if contains_str repo ''gpt-oss'' then Some GptOss
      else None)"

text \<open>The second: what the header's architecture says.\<close>

definition detect_by_arch :: "string \<Rightarrow> model_family" where
  "detect_by_arch arch =
     (if starts_with arch ''gemma4'' then Gemma4
      else if starts_with arch ''gemma3'' then Gemma3
      else if starts_with arch ''gemma2'' then Gemma2
      else if starts_with arch ''gemma'' then Gemma2
      else if starts_with arch ''qwen3'' then Qwen35
      else if starts_with arch ''qwen2'' then Qwen25
      else if arch = ''llama'' \<or> starts_with arch ''llama'' then Llama3
      else if starts_with arch ''mistral'' then Llama3
      else if starts_with arch ''glm'' then Glm4
      else if starts_with arch ''minimax'' then MiniMaxM2
      else if starts_with arch ''deepseek2'' then DeepSeekCoderV2
      else if starts_with arch ''gpt_oss'' \<or> starts_with arch ''gpt-oss'' then GptOss
      else UnknownFamily)"

definition detect_family :: "string option \<Rightarrow> string option \<Rightarrow> model_family" where
  "detect_family arch repo_hint =
     (let a = to_ascii_lowercase (case arch of None \<Rightarrow> [] | Some s \<Rightarrow> s);
          r = to_ascii_lowercase (case repo_hint of None \<Rightarrow> [] | Some s \<Rightarrow> s)
      in case detect_by_repo r of Some f \<Rightarrow> f | None \<Rightarrow> detect_by_arch a)"

section \<open>Bundles and quantization\<close>

record build =
  bd_platform :: string
  bd_apple :: bool
  bd_compiled :: "string \<Rightarrow> bool"

definition os_compatible :: "build \<Rightarrow> platform_bundle \<Rightarrow> bool" where
  "os_compatible bd b \<longleftrightarrow> bd_compiled bd (pb_backend b) \<and> (pb_backend b = ''mlx'' \<longrightarrow> bd_apple bd)"

text \<open>\<^verbatim>\<open>Iterator::max_by_key\<close>: the last of the greatest.\<close>

fun max_by_key :: "('a \<Rightarrow> nat) \<Rightarrow> 'a list \<Rightarrow> 'a option" where
  "max_by_key key [] = None"
| "max_by_key key (x # xs) =
     (case max_by_key key xs of None \<Rightarrow> Some x | Some y \<Rightarrow> if key x \<le> key y then Some y else Some x)"

definition select_for_device :: "build \<Rightarrow> model_zoo \<Rightarrow> string \<Rightarrow> nat \<Rightarrow> platform_bundle option" where
  "select_for_device bd zoo model_id ram_mb =
     (case zoo_get zoo model_id of
        None \<Rightarrow> None
      | Some entry \<Rightarrow>
          (let fallback = max_by_key pb_min_ram_mb
               (filter (\<lambda>b. os_compatible bd b \<and> pb_min_ram_mb b \<le> ram_mb) (map snd (ze_platforms entry)))
           in case map_of (ze_platforms entry) (bd_platform bd) of
                Some primary \<Rightarrow>
                  if pb_min_ram_mb primary \<le> ram_mb \<and> bd_compiled bd (pb_backend primary)
                  then Some primary else fallback
              | None \<Rightarrow> fallback))"

datatype quant_tier = Q2 | Q3 | Q4KM | Q5 | Q6 | Q8 | F16

fun quant_as_str :: "quant_tier \<Rightarrow> string" where
  "quant_as_str Q2 = ''q2''" | "quant_as_str Q3 = ''q3''" | "quant_as_str Q4KM = ''q4_k_m''"
| "quant_as_str Q5 = ''q5''" | "quant_as_str Q6 = ''q6''" | "quant_as_str Q8 = ''q8''"
| "quant_as_str F16 = ''f16''"

fun quant_rank :: "quant_tier \<Rightarrow> nat" where
  "quant_rank Q2 = 0" | "quant_rank Q3 = 1" | "quant_rank Q4KM = 2" | "quant_rank Q5 = 3"
| "quant_rank Q6 = 4" | "quant_rank Q8 = 5" | "quant_rank F16 = 6"

definition auto_quant_for_ram :: "nat \<Rightarrow> quant_tier" where
  "auto_quant_for_ram ram_mb =
     (if ram_mb \<le> 6 * 1024 then Q4KM
      else if ram_mb \<le> 12 * 1024 then Q4KM
      else if ram_mb \<le> 20 * 1024 then Q6
      else if ram_mb \<le> 40 * 1024 then Q8
      else F16)"

section \<open>Properties\<close>

lemma family_names_roundtrip: "family_kind (e\<lparr>ze_family := family_as_str f\<rparr>) = f"
  by (cases f) (simp_all add: family_kind_def)

lemma family_as_str_inj: "family_as_str f = family_as_str g \<Longrightarrow> f = g"
  using family_names_roundtrip by metis

lemma auto_quant_mono: "a \<le> b \<Longrightarrow> quant_rank (auto_quant_for_ram a) \<le> quant_rank (auto_quant_for_ram b)"
  by (simp add: auto_quant_for_ram_def)

lemma max_by_key_None [simp]: "max_by_key key xs = None \<longleftrightarrow> xs = []"
  by (cases xs) (auto split: option.splits)

lemma max_by_key_Some: "max_by_key key xs = Some y \<Longrightarrow> y \<in> set xs \<and> (\<forall>x \<in> set xs. key x \<le> key y)"
  by (induction xs arbitrary: y) (fastforce split: option.splits if_splits)+

text \<open>A bundle this build can load on a device with so much memory.\<close>

definition hostable :: "build \<Rightarrow> nat \<Rightarrow> platform_bundle \<Rightarrow> bool" where
  "hostable bd ram_mb b \<longleftrightarrow> pb_min_ram_mb b \<le> ram_mb \<and> bd_compiled bd (pb_backend b)"

lemma select_entry:
  assumes "zoo_get zoo m = Some e"
  shows "select_for_device bd zoo m ram =
    (case map_of (ze_platforms e) (bd_platform bd) of
       Some b \<Rightarrow> if hostable bd ram b then Some b
         else max_by_key pb_min_ram_mb (filter (\<lambda>b. os_compatible bd b \<and> pb_min_ram_mb b \<le> ram) (map snd (ze_platforms e)))
     | None \<Rightarrow> max_by_key pb_min_ram_mb (filter (\<lambda>b. os_compatible bd b \<and> pb_min_ram_mb b \<le> ram) (map snd (ze_platforms e))))"
  using assms by (simp add: select_for_device_def hostable_def Let_def split: option.split)

text \<open>
  C25: Choosing a bundle. What is chosen belongs to the model, fits the memory and is compiled into the
  build; the bundle of the device's own platform is chosen whenever it qualifies; otherwise no
  compatible bundle that fits asks for more memory than the one chosen; and more memory never
  takes a model away from a device.\<close>
theorem select_for_device_spec:
  assumes "zoo_get zoo m = Some e"
  shows "(case select_for_device bd zoo m ram of
       Some b \<Rightarrow> b \<in> snd ` set (ze_platforms e) \<and> hostable bd ram b
         \<and> (map_of (ze_platforms e) (bd_platform bd) = Some b
            \<or> list_all (\<lambda>b'. \<not> (os_compatible bd b' \<and> pb_min_ram_mb b' \<le> ram) \<or> pb_min_ram_mb b' \<le> pb_min_ram_mb b)
                (map snd (ze_platforms e)))
     | None \<Rightarrow> list_all (\<lambda>b. \<not> (os_compatible bd b \<and> pb_min_ram_mb b \<le> ram)) (map snd (ze_platforms e)))
     \<and> (case map_of (ze_platforms e) (bd_platform bd) of
          Some b \<Rightarrow> \<not> hostable bd ram b \<or> select_for_device bd zoo m ram = Some b | None \<Rightarrow> True)
     \<and> (select_for_device bd zoo m ram = None \<or> select_for_device bd zoo m (ram + extra) \<noteq> None)"
proof -
  let ?fits = "\<lambda>r. filter (\<lambda>b. os_compatible bd b \<and> pb_min_ram_mb b \<le> r) (map snd (ze_platforms e))"
  have fallback: "b \<in> snd ` set (ze_platforms e) \<and> hostable bd ram b
      \<and> list_all (\<lambda>b'. \<not> (os_compatible bd b' \<and> pb_min_ram_mb b' \<le> ram) \<or> pb_min_ram_mb b' \<le> pb_min_ram_mb b)
          (map snd (ze_platforms e))"
    if "max_by_key pb_min_ram_mb (?fits ram) = Some b" for b
    using max_by_key_Some [OF that] by (auto simp: hostable_def os_compatible_def list_all_iff)
  have none: "list_all (\<lambda>b. \<not> (os_compatible bd b \<and> pb_min_ram_mb b \<le> ram)) (map snd (ze_platforms e))"
    if "?fits ram = []" using that by (auto simp: filter_empty_conv list_all_iff)
  have more: "?fits (ram + extra) \<noteq> []" if "max_by_key pb_min_ram_mb (?fits ram) = Some b" for b
    using max_by_key_Some [OF that] by (auto simp: filter_empty_conv intro: trans_le_add1)
  have own: "b \<in> snd ` set (ze_platforms e)" if "map_of (ze_platforms e) (bd_platform bd) = Some b" for b
    using map_of_SomeD [OF that] by force
  have grows: "hostable bd (ram + extra) b" if "hostable bd ram b" for b using that by (simp add: hostable_def)
  have select: "select_for_device bd zoo m r = (case map_of (ze_platforms e) (bd_platform bd) of
      Some b \<Rightarrow> if hostable bd r b then Some b else max_by_key pb_min_ram_mb (?fits r)
    | None \<Rightarrow> max_by_key pb_min_ram_mb (?fits r))" for r by (rule select_entry [OF assms])
  show ?thesis
  proof (cases "\<exists>b. map_of (ze_platforms e) (bd_platform bd) = Some b \<and> hostable bd ram b")
    case True
    then obtain b where b: "map_of (ze_platforms e) (bd_platform bd) = Some b" "hostable bd ram b" by blast
    then have "select_for_device bd zoo m ram = Some b" "select_for_device bd zoo m (ram + extra) = Some b"
      using grows by (simp_all add: select)
    with b own show ?thesis by simp
  next
    case False
    then have chosen: "select_for_device bd zoo m ram = max_by_key pb_min_ram_mb (?fits ram)"
      by (auto simp: select split: option.split)
    have primary: "case map_of (ze_platforms e) (bd_platform bd) of
        Some b \<Rightarrow> \<not> hostable bd ram b \<or> select_for_device bd zoo m ram = Some b | None \<Rightarrow> True"
      using False by (simp split: option.split)
    show ?thesis
    proof (cases "max_by_key pb_min_ram_mb (?fits ram)")
      case None
      then have "?fits ram = []" unfolding max_by_key_None .
      from none [OF this] show ?thesis using primary unfolding chosen None by simp
    next
      case (Some b)
      obtain b' where "max_by_key pb_min_ram_mb (?fits (ram + extra)) = Some b'"
        using more [OF Some] by (metis max_by_key_None not_None_eq)
      then have "select_for_device bd zoo m (ram + extra) \<noteq> None" unfolding select by (simp split: option.split)
      with fallback [OF Some] show ?thesis using primary unfolding chosen Some by simp
    qed
  qed
qed

definition sample_bundle :: "string \<Rightarrow> nat \<Rightarrow> platform_bundle" where
  "sample_bundle backend mb = \<lparr>pb_backend = backend, pb_source = ''repo'', pb_file = None, pb_min_ram_mb = mb\<rparr>"

definition sample_entry :: zoo_entry where
  "sample_entry = \<lparr>ze_display_name = ''Gemma'', ze_family = ''gemma4'', ze_default_quant = default_quant,
     ze_platforms = [(''ios'', sample_bundle ''mlx'' 6144), (''linux_cpu'', sample_bundle ''llamacpp'' 8192),
       (''android'', sample_bundle ''llamacpp'' 6000)]\<rparr>"

definition sample_zoo :: model_zoo where
  "sample_zoo = \<lparr>mz_schema_version = 1, mz_models = [(''gemma-4'', sample_entry)]\<rparr>"

definition sample_build :: build where
  "sample_build = \<lparr>bd_platform = ''linux_cpu'', bd_apple = False, bd_compiled = (\<lambda>b. b = ''llamacpp'')\<rparr>"

lemmas sample_zoo_defs = sample_zoo_def sample_entry_def sample_bundle_def sample_build_def

lemma select_for_device_spec_witness:
  "select_for_device sample_build sample_zoo ''gemma-4'' 7000 = Some (sample_bundle ''llamacpp'' 6000)
   \<and> select_for_device sample_build sample_zoo ''gemma-4'' (7000 + 2000) \<noteq> None"
proof -
  have get: "zoo_get sample_zoo ''gemma-4'' = Some sample_entry" by (simp add: zoo_get_def sample_zoo_def)
  have "select_for_device sample_build sample_zoo ''gemma-4'' 7000 = Some (sample_bundle ''llamacpp'' 6000)"
    by (simp add: select_for_device_def get os_compatible_def) (simp add: sample_zoo_defs)
  with select_for_device_spec [OF get, of sample_build 7000 2000] show ?thesis by simp
qed

lemma toggleable_families_default_off:
  "zoo_get zoo m = Some e \<Longrightarrow> family_kind e \<in> {Qwen35, Gemma4, Glm4} \<Longrightarrow> recommended_thinking zoo m = Some ModeOff"
  by (auto simp: recommended_thinking_def entry_defaults_def)

end
