(* ===== verification/Router.thy ===== *)
theory Router
  imports Zoo
begin

text \<open>
  Which device runs a request (\<^verbatim>\<open>src/router.rs\<close>): this one, a paired peer, or none.  The platform id
  of this build is a parameter.
\<close>

record peer =
  pr_did :: string
  pr_pubkey :: string
  pr_name :: string
  pr_platform :: string
  pr_cores :: nat
  pr_ram_mb :: nat
  pr_vram_mb :: nat
  pr_gpu :: string
  pr_models :: "string list"
  pr_idx_fp :: string
  pr_ver :: string

datatype route_priority = NormalPriority | Urgent

record route_request =
  rr_model_id :: string
  rr_priority :: route_priority
  rr_max_tokens :: "nat option"

record local_capability =
  lc_ram_mb :: nat
  lc_vram_mb :: nat
  lc_cached_models :: "string list"

datatype route_decision =
    RunLocal string string
  | RunRemote peer string
  | Fallback string

definition local_bundle_for :: "string \<Rightarrow> string \<Rightarrow> model_zoo \<Rightarrow> platform_bundle option" where
  "local_bundle_for here model_id zoo =
     (case zoo_get zoo model_id of None \<Rightarrow> None | Some entry \<Rightarrow> map_of (ze_platforms entry) here)"

definition peer_can_host :: "peer \<Rightarrow> string \<Rightarrow> model_zoo \<Rightarrow> bool" where
  "peer_can_host p model_id zoo =
     (if model_id \<notin> set (pr_models p) then False
      else case zoo_get zoo model_id of
          None \<Rightarrow> False
        | Some entry \<Rightarrow>
            (case map_of (ze_platforms entry) (pr_platform p) of
               None \<Rightarrow> False
             | Some bundle \<Rightarrow> pb_min_ram_mb bundle \<le> pr_ram_mb p))"

text \<open>\<^verbatim>\<open>str\<close> comparison: bytes in lexicographic order.\<close>

fun str_less :: "string \<Rightarrow> string \<Rightarrow> bool" where
  "str_less [] [] = False"
| "str_less [] (_ # _) = True"
| "str_less (_ # _) [] = False"
| "str_less (a # s) (b # t) =
     ((of_char a :: nat) < of_char b \<or> (a = b \<and> str_less s t))"

definition peer_ranks_higher :: "peer \<Rightarrow> peer \<Rightarrow> bool" where
  "peer_ranks_higher a b =
     (if pr_vram_mb a \<noteq> pr_vram_mb b then pr_vram_mb b < pr_vram_mb a
      else if pr_ram_mb a \<noteq> pr_ram_mb b then pr_ram_mb b < pr_ram_mb a
      else str_less (pr_did a) (pr_did b))"

fun best_of :: "peer option \<Rightarrow> peer list \<Rightarrow> string \<Rightarrow> model_zoo \<Rightarrow> peer option" where
  "best_of best [] model_id zoo = best"
| "best_of best (p # ps) model_id zoo =
     (if \<not> peer_can_host p model_id zoo then best_of best ps model_id zoo
      else best_of (case best of None \<Rightarrow> Some p
          | Some cur \<Rightarrow> Some (if peer_ranks_higher p cur then p else cur)) ps model_id zoo)"

definition best_remote_peer :: "route_request \<Rightarrow> peer list \<Rightarrow> model_zoo \<Rightarrow> peer option" where
  "best_remote_peer request peers zoo = best_of None peers (rr_model_id request) zoo"

definition local_fits :: "string \<Rightarrow> route_request \<Rightarrow> local_capability \<Rightarrow> model_zoo \<Rightarrow> bool" where
  "local_fits here request local zoo =
     (case local_bundle_for here (rr_model_id request) zoo of
        None \<Rightarrow> False | Some b \<Rightarrow> pb_min_ram_mb b \<le> lc_ram_mb local)"

definition route :: "string \<Rightarrow> route_request \<Rightarrow> local_capability \<Rightarrow> peer list \<Rightarrow> model_zoo \<Rightarrow> route_decision" where
  "route here request local peers zoo =
     (let fits = local_fits here request local zoo;
          cached = rr_model_id request \<in> set (lc_cached_models local);
          backend = (case local_bundle_for here (rr_model_id request) zoo of None \<Rightarrow> [] | Some b \<Rightarrow> pb_backend b)
      in if fits \<and> cached then RunLocal backend ''local device has model cached and enough RAM''
         else if rr_priority request = Urgent \<and> fits
         then RunLocal backend ''urgent -- forcing local even without cached model''
         else case best_remote_peer request peers zoo of
             Some p \<Rightarrow> RunRemote p ''remote peer has model + capacity''
           | None \<Rightarrow>
               if fits then RunLocal backend ''no remote available -- will download model locally then run''
               else Fallback ''no device can host this model -- falling back to smaller model'')"

section \<open>The ranking is a strict total order\<close>

lemma str_less_irrefl [simp]: "\<not> str_less s s"
  by (induction s) auto

lemma str_less_trans: "str_less s t \<Longrightarrow> str_less t u \<Longrightarrow> str_less s u"
proof (induction s t arbitrary: u rule: str_less.induct)
  case (4 a s b t)
  then show ?case by (cases u) auto
qed (auto elim: str_less.elims)

lemma str_less_total: "s \<noteq> t \<Longrightarrow> str_less s t \<or> str_less t s"
proof (induction s t rule: str_less.induct)
  case (4 a s b t)
  have "a = b" if "(of_char a :: nat) = of_char b" using that by (metis char_of_char)
  with 4 show ?case by (auto simp: linorder_neq_iff)
qed auto

lemma ranks_irrefl [simp]: "\<not> peer_ranks_higher p p"
  by (simp add: peer_ranks_higher_def)

lemma ranks_trans: "peer_ranks_higher a b \<Longrightarrow> peer_ranks_higher b c \<Longrightarrow> peer_ranks_higher a c"
  unfolding peer_ranks_higher_def by (auto split: if_splits) (erule (1) str_less_trans)?

lemma ranks_total: "pr_did a \<noteq> pr_did b \<Longrightarrow> peer_ranks_higher a b \<or> peer_ranks_higher b a"
  using str_less_total by (auto simp: peer_ranks_higher_def)

lemma ranks_asym: "peer_ranks_higher a b \<Longrightarrow> \<not> peer_ranks_higher b a"
  using ranks_trans ranks_irrefl by blast

text \<open>\<open>p\<close> can host the model and no other host of the list ranks higher.\<close>

definition top_host :: "string \<Rightarrow> model_zoo \<Rightarrow> peer set \<Rightarrow> peer \<Rightarrow> bool" where
  "top_host m zoo P p \<longleftrightarrow> p \<in> P \<and> peer_can_host p m zoo
     \<and> (\<forall>q \<in> P. peer_can_host q m zoo \<longrightarrow> q = p \<or> peer_ranks_higher p q)"

lemma best_of_top:
  assumes "inj_on pr_did (P \<union> set ps)"
    "case best of None \<Rightarrow> \<forall>q \<in> P. \<not> peer_can_host q m zoo | Some p \<Rightarrow> top_host m zoo P p"
  shows "case best_of best ps m zoo of
      None \<Rightarrow> \<forall>q \<in> P \<union> set ps. \<not> peer_can_host q m zoo | Some p \<Rightarrow> top_host m zoo (P \<union> set ps) p"
  using assms
proof (induction ps arbitrary: P best)
  case Nil
  then show ?case by (cases best) simp_all
next
  case (Cons p ps)
  define best' where "best' = (if \<not> peer_can_host p m zoo then best
      else case best of None \<Rightarrow> Some p | Some cur \<Rightarrow> Some (if peer_ranks_higher p cur then p else cur))"
  have inj: "inj_on pr_did (insert p P \<union> set ps)" using Cons.prems(1) by simp
  have total: "q = p \<or> peer_ranks_higher p q \<or> peer_ranks_higher q p" if "q \<in> P" for q
  proof -
    have "p \<in> insert p P \<union> set ps" "q \<in> insert p P \<union> set ps" using that by simp_all
    with inj have "pr_did p = pr_did q \<Longrightarrow> p = q" unfolding inj_on_def by blast
    then show ?thesis using ranks_total [of p q] by blast
  qed
  have "case best' of None \<Rightarrow> \<forall>q \<in> insert p P. \<not> peer_can_host q m zoo | Some b \<Rightarrow> top_host m zoo (insert p P) b"
  proof (cases best)
    case None
    with Cons.prems(2) show ?thesis by (auto simp: best'_def top_host_def)
  next
    case (Some cur)
    with Cons.prems(2) have cur: "top_host m zoo P cur" by simp
    then have in_P: "cur \<in> P" by (simp add: top_host_def)
    show ?thesis
    proof (cases "peer_can_host p m zoo \<and> peer_ranks_higher p cur")
      case True
      then have "best' = Some p" using Some by (simp add: best'_def)
      moreover have "top_host m zoo (insert p P) p"
        using True cur ranks_trans unfolding top_host_def by blast
      ultimately show ?thesis by simp
    next
      case False
      then have "best' = Some cur" using Some by (auto simp: best'_def)
      moreover have "top_host m zoo (insert p P) cur"
        using False cur total [OF in_P] unfolding top_host_def by blast
      ultimately show ?thesis by simp
    qed
  qed
  have "best_of best (p # ps) m zoo = best_of best' ps m zoo" by (simp add: best'_def)
  moreover have "P \<union> set (p # ps) = insert p P \<union> set ps" by simp
  moreover note Cons.IH [OF inj \<open>case best' of None \<Rightarrow> _ | Some b \<Rightarrow> _\<close>]
  ultimately show ?case by (simp only:)
qed

lemma best_remote_top:
  assumes "inj_on pr_did (set peers)"
  shows "case best_remote_peer r peers zoo of
      None \<Rightarrow> \<forall>q \<in> set peers. \<not> peer_can_host q (rr_model_id r) zoo
    | Some p \<Rightarrow> top_host (rr_model_id r) zoo (set peers) p"
  using best_of_top [where P = "{}" and best = None and ps = peers and m = "rr_model_id r" and zoo = zoo] assms
  unfolding best_remote_peer_def by (simp only: Un_empty_left option.case ball_simps)

lemma top_host_unique: "top_host m zoo P p \<Longrightarrow> top_host m zoo P q \<Longrightarrow> p = q"
  using ranks_asym unfolding top_host_def by blast

text \<open>
  The decision does not depend on the order in which peers were discovered: for peers with
  distinct identities any two lists of the same peers are routed alike.\<close>
lemma route_order_independent:
  assumes "inj_on pr_did (set peers)" "set peers' = set peers"
  shows "route here r local peers zoo = route here r local peers' zoo"
proof -
  have inj': "inj_on pr_did (set peers')" using assms by simp
  have "best_remote_peer r peers zoo = best_remote_peer r peers' zoo"
  proof (cases "best_remote_peer r peers zoo"; cases "best_remote_peer r peers' zoo")
    fix p q assume "best_remote_peer r peers zoo = Some p" "best_remote_peer r peers' zoo = Some q"
    then show ?thesis
      using best_remote_top [OF assms(1), of r zoo] best_remote_top [OF inj', of r zoo] assms(2) top_host_unique
      by fastforce
  qed (use best_remote_top [OF assms(1), of r zoo] best_remote_top [OF inj', of r zoo] assms(2) in
      \<open>auto simp: top_host_def\<close>)
  then show ?thesis unfolding route_def by (simp only:)
qed

text \<open>
  C24: A request never leaves this device needlessly, and never lands where it cannot run. If the
  model is cached here and fits, it runs here; a peer is chosen only if it advertises the model, has
  a build for its platform and the memory, and no other such peer ranks higher; and a request
  falls through only if it fits neither here nor on any peer.\<close>
theorem route_sound:
  assumes "inj_on pr_did (set peers)"
  shows "case route here r local peers zoo of
      RunLocal _ _ \<Rightarrow> local_fits here r local zoo
    | RunRemote p _ \<Rightarrow> \<not> (local_fits here r local zoo \<and> (rr_model_id r \<in> set (lc_cached_models local) \<or> rr_priority r = Urgent))
        \<and> top_host (rr_model_id r) zoo (set peers) p
    | Fallback _ \<Rightarrow> \<not> local_fits here r local zoo \<and> list_all (\<lambda>p. \<not> peer_can_host p (rr_model_id r) zoo) peers"
  using best_remote_top [OF assms, of r zoo]
  by (auto simp: route_def Let_def list_all_iff split: option.split)

text \<open>
  Privacy does not win. The module's documentation says that a model this device could host is
  downloaded rather than run on a peer; the code asks the peers first: a normal request for a model
  that fits here but is not cached goes to a peer as soon as one can host it.\<close>
lemma normal_request_leaves_device:
  assumes "local_fits here r local zoo" "rr_priority r = NormalPriority"
    "rr_model_id r \<notin> set (lc_cached_models local)" "p \<in> set peers" "peer_can_host p (rr_model_id r) zoo"
    "inj_on pr_did (set peers)"
  shows "\<exists>q reason. route here r local peers zoo = RunRemote q reason"
proof -
  have "best_remote_peer r peers zoo \<noteq> None"
  proof
    assume "best_remote_peer r peers zoo = None"
    with best_remote_top [OF assms(6), of r zoo] assms(4,5) show False by simp
  qed
  then obtain q where "best_remote_peer r peers zoo = Some q" by blast
  with assms(1-3) show ?thesis by (simp add: route_def Let_def)
qed

definition sample_peer :: "string \<Rightarrow> nat \<Rightarrow> peer" where
  "sample_peer did ram = \<lparr>pr_did = did, pr_pubkey = [], pr_name = did, pr_platform = ''linux_cpu'', pr_cores = 8,
     pr_ram_mb = ram, pr_vram_mb = 0, pr_gpu = ''cpu'', pr_models = [''gemma-4''], pr_idx_fp = [], pr_ver = ''1''\<rparr>"

definition sample_request :: route_request where
  "sample_request = \<lparr>rr_model_id = ''gemma-4'', rr_priority = NormalPriority, rr_max_tokens = None\<rparr>"

definition sample_local :: "nat \<Rightarrow> local_capability" where
  "sample_local ram = \<lparr>lc_ram_mb = ram, lc_vram_mb = 0, lc_cached_models = []\<rparr>"

lemmas sample_route_defs = sample_peer_def sample_request_def sample_local_def local_fits_def local_bundle_for_def
  peer_can_host_def zoo_get_def sample_zoo_defs

lemma route_order_independent_witness:
  "route ''linux_cpu'' sample_request (sample_local 16000) [sample_peer ''a'' 9000, sample_peer ''b'' 20000] sample_zoo
   = route ''linux_cpu'' sample_request (sample_local 16000) [sample_peer ''b'' 20000, sample_peer ''a'' 9000] sample_zoo"
  by (rule route_order_independent) (auto simp: sample_peer_def)

lemma route_sound_witness:
  "route ''linux_cpu'' sample_request (sample_local 4000) [sample_peer ''a'' 9000, sample_peer ''b'' 20000] sample_zoo
     = RunRemote (sample_peer ''b'' 20000) ''remote peer has model + capacity''
   \<and> top_host ''gemma-4'' sample_zoo {sample_peer ''a'' 9000, sample_peer ''b'' 20000} (sample_peer ''b'' 20000)"
proof -
  let ?r = "route ''linux_cpu'' sample_request (sample_local 4000) [sample_peer ''a'' 9000, sample_peer ''b'' 20000] sample_zoo"
  have hosts: "peer_can_host (sample_peer did ram) ''gemma-4'' sample_zoo \<longleftrightarrow> 8192 \<le> ram" for did ram
    by (simp add: sample_route_defs)
  have local: "\<not> local_fits ''linux_cpu'' sample_request (sample_local 4000) sample_zoo"
    by (simp add: sample_route_defs)
  have best: "best_remote_peer sample_request [sample_peer ''a'' 9000, sample_peer ''b'' 20000] sample_zoo
      = Some (sample_peer ''b'' 20000)"
    using hosts by (simp add: best_remote_peer_def sample_request_def) (simp add: peer_ranks_higher_def sample_peer_def)
  have routed: "?r = RunRemote (sample_peer ''b'' 20000) ''remote peer has model + capacity''"
    using local best by (simp add: route_def Let_def)
  have "inj_on pr_did (set [sample_peer ''a'' 9000, sample_peer ''b'' 20000])" by (auto simp: sample_peer_def)
  from route_sound [OF this, of "''linux_cpu''" sample_request "sample_local 4000" sample_zoo] routed
  show ?thesis by (simp add: sample_request_def)
qed

lemma normal_request_leaves_device_witness:
  "\<exists>q reason. route ''linux_cpu'' sample_request (sample_local 16000) [sample_peer ''a'' 9000] sample_zoo = RunRemote q reason"
  by (rule normal_request_leaves_device [of _ _ _ _ "sample_peer ''a'' 9000"]) (simp_all add: sample_route_defs)

end
