(* ===== verification/ChatState.thy ===== *)
theory ChatState
  imports OutputFilter Compaction Zoo
begin

text \<open>
  The data of the inference controller (\<^verbatim>\<open>src/controller\<close>): what a resident chat is
  (\<^verbatim>\<open>mod.rs\<close>), when it may start a turn, which chats a tick serves and which one is evicted
  (\<^verbatim>\<open>scheduler.rs\<close>), when a session counts as poisoned (\<^verbatim>\<open>backend/health.rs\<close>), and the snapshot
  of all that (\<^verbatim>\<open>runtime_snapshot.rs\<close>).  An \<^verbatim>\<open>Instant\<close> is a number of nanoseconds; a session, a
  puller and an event channel are known by a number.  A \<^verbatim>\<open>HashMap\<close> is an association list with
  distinct keys whose order says nothing.
\<close>

section \<open>Requests\<close>

datatype output_mode = TextOutput | SpeechOutput | TextAndSpeech

text \<open>Of a \<^verbatim>\<open>GenSpec\<close> the controller reads these fields; the others it passes on unread.\<close>

record gen_spec =
  gs_output_mode :: output_mode
  gs_require_full_context :: bool
  gs_max_tokens :: "nat option"
  gs_temperature :: "32 word option"
  gs_others :: string

definition default_gen_spec :: gen_spec where
  "default_gen_spec = \<lparr>gs_output_mode = TextOutput, gs_require_full_context = False, gs_max_tokens = None,
     gs_temperature = None, gs_others = []\<rparr>"

datatype system_task = TitleTask | SuggestionsTask | CompactTask | SummaryTask | CustomTask string

definition task_label :: "system_task \<Rightarrow> string" where
  "task_label t = (case t of TitleTask \<Rightarrow> ''title'' | SuggestionsTask \<Rightarrow> ''suggestions''
     | CompactTask \<Rightarrow> ''compact'' | SummaryTask \<Rightarrow> ''summary'' | CustomTask l \<Rightarrow> l)"

datatype workload_kind = PrimaryChat | SystemTask system_task

definition is_system_task :: "workload_kind \<Rightarrow> bool" where
  "is_system_task w = (case w of SystemTask _ \<Rightarrow> True | PrimaryChat \<Rightarrow> False)"

section \<open>Events\<close>

datatype controller_event =
    EvToken string
  | EvMediaBoundary media_boundary
  | EvSpeech speech_chunk
  | EvToolCall parsed_call
  | EvEos
  | EvStopped
  | EvError string string
  | EvFinalStats string
  | EvContextTruncated nat
  | EvContextCompacted nat string
  | EvAccepted nat

definition backend_failure :: "(exec_error \<Rightarrow> string) \<Rightarrow> exec_error \<Rightarrow> controller_event" where
  "backend_failure debug e =
     EvError (case e of ContextOverflow _ \<Rightarrow> ''context_overflow'' | Coded code _ \<Rightarrow> code
        | _ \<Rightarrow> ''generation_error'') (debug e)"

section \<open>A chat and its run state\<close>

datatype completion_reason =
  EosReached | StoppedByUser | Evicted | ReceiverDropped | ModelReloaded | ControllerShutdown

datatype failure_reason =
  Timeout | GenerationError | PoisonedSession | StartSessionFailed | PullerCreateFailed

datatype chat_run_state =
    Idle
  | CapturingMicrophone
  | Generating (gen_puller: nat) (gen_started: nat) (gen_last_spec: gen_spec)
      (gen_pending: "speech_chunk option")
  | Paused gen_spec
  | Completed completion_reason
  | Failed failure_reason

fun is_generating :: "chat_run_state \<Rightarrow> bool" where
  "is_generating (Generating _ _ _ _) = True"
| "is_generating _ = False"

fun is_capturing_microphone :: "chat_run_state \<Rightarrow> bool" where
  "is_capturing_microphone CapturingMicrophone = True"
| "is_capturing_microphone _ = False"

definition is_in_flight :: "chat_run_state \<Rightarrow> bool" where
  "is_in_flight s \<longleftrightarrow> is_generating s \<or> is_capturing_microphone s"

fun is_paused :: "chat_run_state \<Rightarrow> bool" where
  "is_paused (Paused _) = True"
| "is_paused _ = False"

fun is_terminal :: "chat_run_state \<Rightarrow> bool" where
  "is_terminal (Completed _) = True"
| "is_terminal (Failed _) = True"
| "is_terminal _ = False"

definition allows_user_pull_start :: "chat_run_state \<Rightarrow> bool" where
  "allows_user_pull_start s \<longleftrightarrow> \<not> is_in_flight s"

definition generation_started_at :: "chat_run_state \<Rightarrow> nat option" where
  "generation_started_at s = (case s of Generating _ t _ _ \<Rightarrow> Some t | _ \<Rightarrow> None)"

record session_health =
  sh_decode_panics :: nat
  sh_consecutive_errors :: nat
  sh_poisoned_by_backend :: bool

definition default_health :: session_health where
  "default_health = \<lparr>sh_decode_panics = 0, sh_consecutive_errors = 0, sh_poisoned_by_backend = False\<rparr>"

definition is_unhealthy :: "session_health \<Rightarrow> bool" where
  "is_unhealthy h \<longleftrightarrow> sh_poisoned_by_backend h \<or> 0 < sh_decode_panics h \<or> 3 \<le> sh_consecutive_errors h"

record chat_runtime =
  cr_session :: nat
  cr_tx :: nat
  cr_workload :: workload_kind
  cr_last_used :: nat
  cr_last_gen_spec :: gen_spec
  cr_state :: chat_run_state
  cr_health :: session_health

definition should_tick :: "chat_runtime \<Rightarrow> bool" where
  "should_tick c = is_generating (cr_state c)"

definition apply_receiver_disconnect_override :: "bool \<Rightarrow> chat_run_state \<Rightarrow> chat_run_state" where
  "apply_receiver_disconnect_override receiver_dead s =
     (if receiver_dead then Completed ReceiverDropped else s)"

definition attach_generating_puller :: "nat \<Rightarrow> nat \<Rightarrow> gen_spec \<Rightarrow> chat_runtime \<Rightarrow> chat_runtime" where
  "attach_generating_puller now puller spec c =
     c\<lparr>cr_last_gen_spec := spec, cr_state := Generating puller now spec None\<rparr>"

datatype runtime_outcome = OutcomeCompleted completion_reason | OutcomeFailed failure_reason

definition runtime_outcome_from_state :: "chat_runtime \<Rightarrow> runtime_outcome" where
  "runtime_outcome_from_state c =
     (case cr_state c of Completed r \<Rightarrow> OutcomeCompleted r | Failed f \<Rightarrow> OutcomeFailed f
      | _ \<Rightarrow> OutcomeCompleted StoppedByUser)"

definition chunk_is_microphone :: "message_chunk \<Rightarrow> bool" where
  "chunk_is_microphone k \<longleftrightarrow> k = Microphone"

definition has_microphone :: "message list \<Rightarrow> bool" where
  "has_microphone ms =
     list_ex (\<lambda>m. case msg_body m of Content (MultipleChunks ks) \<Rightarrow> list_ex chunk_is_microphone ks | _ \<Rightarrow> False) ms"

section \<open>Scheduling\<close>

type_synonym chats = "(string \<times> chat_runtime) list"

record schedule_view =
  sv_ephemeral :: bool
  sv_paused :: bool
  sv_finished :: bool
  sv_has_puller :: bool
  sv_last_used :: nat

definition schedule_view_of :: "chat_runtime \<Rightarrow> schedule_view" where
  "schedule_view_of c = \<lparr>sv_ephemeral = is_system_task (cr_workload c), sv_paused = is_paused (cr_state c),
     sv_finished = is_terminal (cr_state c), sv_has_puller = is_generating (cr_state c),
     sv_last_used = cr_last_used c\<rparr>"

definition views :: "chats \<Rightarrow> (string \<times> schedule_view) list" where
  "views cs = map (\<lambda>(k, c). (k, schedule_view_of c)) cs"

text \<open>\<^verbatim>\<open>Iterator::min_by_key\<close> returns the first of several minima.\<close>

fun min_by_last_used :: "(string \<times> schedule_view) list \<Rightarrow> (string \<times> schedule_view) option" where
  "min_by_last_used [] = None"
| "min_by_last_used (v # vs) =
     (case min_by_last_used vs of
        None \<Rightarrow> Some v
      | Some w \<Rightarrow> Some (if sv_last_used (snd v) \<le> sv_last_used (snd w) then v else w))"

definition pick_eviction_target :: "(string \<times> schedule_view) list \<Rightarrow> string option" where
  "pick_eviction_target vs = map_option fst (min_by_last_used vs)"

definition insert_at :: "nat \<Rightarrow> 'a \<Rightarrow> 'a list \<Rightarrow> 'a list" where
  "insert_at i x xs = take i xs @ x # drop i xs"

fun tick_loop :: "string list \<Rightarrow> nat \<Rightarrow> (string \<times> schedule_view) list \<Rightarrow> string list" where
  "tick_loop keys ephemeral_start [] = keys"
| "tick_loop keys ephemeral_start ((i, v) # vs) =
     (if sv_paused v \<or> sv_finished v \<or> \<not> sv_has_puller v then tick_loop keys ephemeral_start vs
      else if \<not> sv_ephemeral v then tick_loop (insert_at ephemeral_start i keys) (ephemeral_start + 1) vs
      else tick_loop (keys @ [i]) ephemeral_start vs)"

definition tick_order :: "(string \<times> schedule_view) list \<Rightarrow> string list" where
  "tick_order vs = tick_loop [] 0 vs"

definition should_cleanup :: "schedule_view \<Rightarrow> bool" where
  "should_cleanup v \<longleftrightarrow> sv_finished v \<and> sv_ephemeral v"

section \<open>Snapshot\<close>

datatype lifecycle_snapshot =
  SnapIdle | SnapCapturing | SnapGenerating nat | SnapPaused | SnapCompleted completion_reason | SnapFailed failure_reason

definition lifecycle_from_state :: "nat \<Rightarrow> chat_run_state \<Rightarrow> lifecycle_snapshot" where
  "lifecycle_from_state now s =
     (case s of Idle \<Rightarrow> SnapIdle | CapturingMicrophone \<Rightarrow> SnapCapturing
      | Generating _ t _ _ \<Rightarrow> SnapGenerating ((now - t) div 1000000 mod 2 ^ 64) | Paused _ \<Rightarrow> SnapPaused
      | Completed r \<Rightarrow> SnapCompleted r | Failed f \<Rightarrow> SnapFailed f)"

record chat_snapshot =
  cn_chat_id :: string
  cn_session_id :: nat
  cn_workload :: workload_kind
  cn_lifecycle :: lifecycle_snapshot

definition chat_rows :: "nat \<Rightarrow> chats \<Rightarrow> chat_snapshot list" where
  "chat_rows now cs =
     map (\<lambda>(k, c). \<lparr>cn_chat_id = k, cn_session_id = cr_session c, cn_workload = cr_workload c,
        cn_lifecycle = lifecycle_from_state now (cr_state c)\<rparr>) cs"

section \<open>Lemmas: run states\<close>

lemma in_flight_cases: "is_in_flight s \<longleftrightarrow> is_generating s \<or> s = CapturingMicrophone"
  by (cases s) (simp_all add: is_in_flight_def)

lemma generating_iff: "is_generating s \<longleftrightarrow> (\<exists>p t g q. s = Generating p t g q)"
  by (cases s) simp_all

lemma tick_ready_iff: "\<not> (is_paused s \<or> is_terminal s \<or> \<not> is_generating s) \<longleftrightarrow> is_generating s"
  by (cases s) simp_all

section \<open>Lemmas: scheduling\<close>

definition ready :: "schedule_view \<Rightarrow> bool" where
  "ready v \<longleftrightarrow> \<not> (sv_paused v \<or> sv_finished v \<or> \<not> sv_has_puller v)"

definition ready_ids :: "bool \<Rightarrow> (string \<times> schedule_view) list \<Rightarrow> string list" where
  "ready_ids ephemeral vs = map fst (filter (\<lambda>(i, v). ready v \<and> sv_ephemeral v = ephemeral) vs)"

lemma tick_loop_spec:
  "tick_loop (ps @ es) (length ps) vs = ps @ ready_ids False vs @ es @ ready_ids True vs"
proof (induction vs arbitrary: ps es)
  case Nil
  then show ?case by (simp add: ready_ids_def)
next
  case (Cons iv vs)
  obtain i v where iv: "iv = (i, v)" by (cases iv)
  show ?case
  proof (cases "ready v")
    case False
    then show ?thesis using Cons.IH [of ps es] by (auto simp: iv ready_def ready_ids_def)
  next
    case r: True
    show ?thesis
    proof (cases "sv_ephemeral v")
      case True
      then show ?thesis using r Cons.IH [of ps "es @ [i]"] by (simp add: iv ready_def ready_ids_def)
    next
      case False
      then show ?thesis using r Cons.IH [of "ps @ [i]" es]
        by (simp add: iv ready_def ready_ids_def insert_at_def)
    qed
  qed
qed

lemma tick_order_split: "tick_order vs = ready_ids False vs @ ready_ids True vs"
  using tick_loop_spec [of "[]" "[]" vs] by (simp add: tick_order_def)

lemma ready_view [simp]: "ready (schedule_view_of c) \<longleftrightarrow> is_generating (cr_state c)"
  using tick_ready_iff [of "cr_state c"] by (simp add: ready_def schedule_view_of_def)

lemma view_projections [simp]:
  "sv_ephemeral (schedule_view_of c) \<longleftrightarrow> is_system_task (cr_workload c)"
  "sv_finished (schedule_view_of c) \<longleftrightarrow> is_terminal (cr_state c)"
  "sv_last_used (schedule_view_of c) = cr_last_used c"
  by (simp_all add: schedule_view_of_def)

lemma ready_ids_views:
  "ready_ids e (views cs) =
     map fst (filter (\<lambda>(k, c). is_generating (cr_state c) \<and> is_system_task (cr_workload c) = e) cs)"
  unfolding ready_ids_def views_def
  by (induction cs) auto

text \<open>
  A tick serves the user's chats before background work, and serves every chat that is
  generating: the order is exactly the generating primary chats followed by the generating system
  tasks.\<close>
lemma tick_order_primary_first:
  "tick_order (views cs) =
     map fst (filter (\<lambda>(k, c). is_generating (cr_state c) \<and> \<not> is_system_task (cr_workload c)) cs)
     @ map fst (filter (\<lambda>(k, c). is_generating (cr_state c) \<and> is_system_task (cr_workload c)) cs)"
  using ready_ids_views [of False cs] ready_ids_views [of True cs] by (simp add: tick_order_split)

lemma tick_order_set:
  "set (tick_order (views cs)) = {k. \<exists>c. (k, c) \<in> set cs \<and> is_generating (cr_state c)}"
  by (force simp: tick_order_split ready_ids_views)

lemma tick_order_distinct:
  assumes "distinct (map fst cs)"
  shows "distinct (tick_order (views cs))"
proof -
  have "set (ready_ids False (views cs)) \<inter> set (ready_ids True (views cs)) = {}"
    using assms by (auto simp: ready_ids_views dest: eq_key_imp_eq_value)
  with assms show ?thesis by (simp add: tick_order_split) (simp add: ready_ids_views distinct_map_filter)
qed

lemma min_by_last_used_spec:
  "case min_by_last_used vs of None \<Rightarrow> vs = []
   | Some v \<Rightarrow> v \<in> set vs \<and> (\<forall>w \<in> set vs. sv_last_used (snd v) \<le> sv_last_used (snd w))"
proof (induction vs)
  case Nil
  then show ?case by simp
next
  case (Cons v vs)
  then show ?case by (cases "min_by_last_used vs") auto
qed

lemma pick_eviction_target_oldest:
  assumes "pick_eviction_target (views cs) = Some k"
  shows "\<exists>c. (k, c) \<in> set cs \<and> (\<forall>(j, d) \<in> set cs. cr_last_used c \<le> cr_last_used d)"
proof -
  obtain v where v: "min_by_last_used (views cs) = Some (k, v)"
    using assms by (auto simp: pick_eviction_target_def)
  have "(k, v) \<in> set (views cs)" "\<forall>w \<in> set (views cs). sv_last_used v \<le> sv_last_used (snd w)"
    using min_by_last_used_spec [of "views cs"] v by simp_all
  then show ?thesis by (force simp: views_def schedule_view_of_def)
qed

lemma pick_eviction_target_None: "pick_eviction_target (views cs) = None \<longleftrightarrow> cs = []"
  using min_by_last_used_spec [of "views cs"]
  by (cases "min_by_last_used (views cs)") (auto simp: pick_eviction_target_def views_def)

end
