(* ===== verification/Control.thy ===== *)
theory Control
  imports ChatState MemoryPlan "HOL-Library.State_Monad"
begin

text \<open>
  The controller's state and the steps its commands are made of (\<^verbatim>\<open>src/controller/state.rs\<close>,
  \<^verbatim>\<open>metrics.rs\<close>, \<^verbatim>\<open>lifecycle.rs\<close>).  Everything behind the controller is an argument: the record
  \<open>env\<close> holds the engine, its sessions and token pullers, the clocks, the receiving ends of the
  event channels, the helper worker and the file system, each operation a function on a world
  \<open>'w\<close> that it may change.  Two fields of the state are not in the code: \<open>cs_log\<close> remembers every
  event the controller tried to deliver with the result, and \<open>cs_world\<close> is the world.  Hook listeners are kept as the channel
  each session's statistics go to.  The destructor of a replaced puller belongs to the world and
  happens with the next operation on its session.
\<close>

section \<open>The world\<close>

datatype emit_result = Sent | Full | Disconnected

datatype next_result = Panicked | Exhausted | Yielded "exec_error + token_event"

record session_spec =
  ss_strict_request :: "gen_spec option"
  ss_messages :: "message list"
  ss_cache :: "string option"
  ss_thinking :: thinking_mode
  ss_tools :: "(tool_spec list \<times> string) option"

record load_settings =
  ls_plan :: "string plan_settings"
  ls_threads :: "nat option"
  ls_others :: string

record load_request =
  lr_model_path :: string
  lr_mmproj_path :: "string option"
  lr_n_ctx :: "nat option"
  lr_threads :: "nat option"
  lr_gpu_layers :: "nat option"
  lr_api_key :: "string option"
  lr_api_format :: "string option"
  lr_api_model :: "string option"

datatype engine_query =
    QueryCapabilities
  | QueryBackendName
  | QueryEmbedderLoaded
  | QueryUtilityStatus
  | QueryMmprojLoaded
  | QueryArchitecture
  | QueryContextWindow
  | QueryGpuOffload
  | QueryGrammarOwnership

record 'w env =
  ev_try_send :: "nat \<Rightarrow> controller_event \<Rightarrow> 'w \<Rightarrow> emit_result \<times> 'w"
  ev_caller_gone :: "'w \<Rightarrow> bool \<times> 'w"
  ev_now :: "'w \<Rightarrow> nat \<times> 'w"
  ev_unix_now :: "'w \<Rightarrow> int \<times> 'w"
  ev_unix_millis :: "'w \<Rightarrow> nat \<times> 'w"
  ev_debug :: "exec_error \<Rightarrow> string"
  ev_display :: "exec_error \<Rightarrow> string"
  ev_defaults :: "'w \<Rightarrow> nat option \<times> 32 word option"
  ev_start_session :: "session_spec \<Rightarrow> 'w \<Rightarrow> (exec_error + nat) \<times> 'w"
  ev_initial_dropped :: "nat \<Rightarrow> 'w \<Rightarrow> nat"
  ev_end_session :: "nat \<Rightarrow> 'w \<Rightarrow> 'w"
  ev_pull :: "nat \<Rightarrow> gen_spec \<Rightarrow> 'w \<Rightarrow> (exec_error + nat) \<times> 'w"
  ev_next :: "nat \<Rightarrow> 'w \<Rightarrow> next_result \<times> 'w"
  ev_append_messages :: "nat \<Rightarrow> message list \<Rightarrow> 'w \<Rightarrow> (exec_error + nat) \<times> 'w"
  ev_capturing :: "nat \<Rightarrow> 'w \<Rightarrow> bool"
  ev_poisoned :: "nat \<Rightarrow> 'w \<Rightarrow> bool"
  ev_push_microphone :: "nat \<Rightarrow> 32 word list \<Rightarrow> 'w \<Rightarrow> (exec_error + nat) option \<times> 'w"
  ev_commit_microphone :: "nat \<Rightarrow> 'w \<Rightarrow> (exec_error + 32 word list) option \<times> 'w"
  ev_pause :: "nat \<Rightarrow> 'w \<Rightarrow> 'w"
  ev_resume :: "nat \<Rightarrow> 'w \<Rightarrow> 'w"
  ev_stop :: "nat \<Rightarrow> 'w \<Rightarrow> 'w"
  ev_save_cache :: "nat \<Rightarrow> string \<Rightarrow> 'w \<Rightarrow> 'w"
  ev_keepwarm_enabled :: "'w \<Rightarrow> bool"
  ev_idle_unload_secs :: "'w \<Rightarrow> int option"
  ev_kv_candidate :: "string \<Rightarrow> 'w \<Rightarrow> string option"
  ev_kv_create_dir :: "'w \<Rightarrow> bool \<times> 'w"
  ev_kv_enforce_budget :: "'w \<Rightarrow> 'w"
  ev_is_model_loaded :: "'w \<Rightarrow> bool"
  ev_load_model :: "load_request \<Rightarrow> 'w \<Rightarrow> exec_error option \<times> 'w"
  ev_unload_model :: "'w \<Rightarrow> 'w"
  ev_reload_model :: "'w \<Rightarrow> exec_error option \<times> 'w"
  ev_upload_settings :: "load_settings \<Rightarrow> 'w \<Rightarrow> exec_error option \<times> 'w"
  ev_backend_caps :: "'w \<Rightarrow> string"
  ev_governor :: "'w \<Rightarrow> governor \<times> 'w"
  ev_planner :: "'w \<Rightarrow> string planner"
  ev_plan_message :: "plan_error \<Rightarrow> string"
  ev_load_embedder :: "string \<Rightarrow> string option \<Rightarrow> nat \<Rightarrow> 'w \<Rightarrow> (string + unit) \<times> 'w"
  ev_load_reranker :: "string \<Rightarrow> nat \<Rightarrow> 'w \<Rightarrow> (string + unit) \<times> 'w"
  ev_unload_embedder :: "'w \<Rightarrow> 'w"
  ev_unload_reranker :: "'w \<Rightarrow> 'w"
  ev_embed :: "string list \<Rightarrow> 'w \<Rightarrow> (string + unit) \<times> 'w"
  ev_rerank :: "string \<Rightarrow> string list \<Rightarrow> 'w \<Rightarrow> (string + unit) \<times> 'w"
  ev_warm_model :: "string \<Rightarrow> 'w \<Rightarrow> 'w"
  ev_answer :: "engine_query \<Rightarrow> 'w \<Rightarrow> string"

section \<open>The state\<close>

record metrics =
  mt_dropped_token_events :: nat
  mt_dropped_must_deliver :: nat
  mt_receiver_disconnects :: nat
  mt_generation_timeouts :: nat
  mt_session_poisonings :: nat
  mt_evictions :: nat
  mt_model_reload_terminations :: nat

record controller_config =
  cc_max_active_chats :: nat
  cc_generation_timeout :: nat
  cc_event_channel_capacity :: nat
  cc_tick_idle :: nat

record 'w cstate =
  cs_chats :: chats
  cs_residency :: inventory
  cs_residency_policy :: residency_policy
  cs_caps :: string
  cs_config :: controller_config
  cs_metrics :: metrics
  cs_loaded_file_bytes :: "nat option"
  cs_last_llm_activity :: int
  cs_idle_unloaded :: "(string \<times> nat) option"
  cs_last_maintenance :: "nat option"
  cs_hooks :: "nat \<rightharpoonup> nat"
  cs_log :: "(nat \<times> controller_event \<times> emit_result) list"
  cs_world :: 'w

definition zero_metrics :: metrics where
  "zero_metrics = \<lparr>mt_dropped_token_events = 0, mt_dropped_must_deliver = 0, mt_receiver_disconnects = 0,
     mt_generation_timeouts = 0, mt_session_poisonings = 0, mt_evictions = 0, mt_model_reload_terminations = 0\<rparr>"

definition initial_state :: "'w env \<Rightarrow> controller_config \<Rightarrow> int \<Rightarrow> 'w \<Rightarrow> 'w cstate" where
  "initial_state env config now w =
     \<lparr>cs_chats = [], cs_residency = empty_inventory, cs_residency_policy = default_residency_policy,
      cs_caps = ev_backend_caps env w, cs_config = config, cs_metrics = zero_metrics,
      cs_loaded_file_bytes = None, cs_last_llm_activity = now, cs_idle_unloaded = None,
      cs_last_maintenance = None, cs_hooks = Map.empty, cs_log = [], cs_world = w\<rparr>"

definition chats_remove :: "string \<Rightarrow> chats \<Rightarrow> chats" where
  "chats_remove k cs = filter (\<lambda>(j, _). j \<noteq> k) cs"

definition chats_insert :: "string \<Rightarrow> chat_runtime \<Rightarrow> chats \<Rightarrow> chats" where
  "chats_insert k c cs = (k, c) # chats_remove k cs"

definition chats_update :: "string \<Rightarrow> (chat_runtime \<Rightarrow> chat_runtime) \<Rightarrow> chats \<Rightarrow> chats" where
  "chats_update k f cs = map (\<lambda>(j, c). (j, if j = k then f c else c)) cs"

section \<open>Computations over the state\<close>

type_synonym ('w, 'a) ctl = "('w cstate, 'a) state"

definition asks :: "('s \<Rightarrow> 'a) \<Rightarrow> ('s, 'a) state" where
  "asks f = State (\<lambda>s. (f s, s))"

definition modify :: "('s \<Rightarrow> 's) \<Rightarrow> ('s, unit) state" where
  "modify f = State (\<lambda>s. ((), f s))"

definition world_op :: "('w \<Rightarrow> 'a \<times> 'w) \<Rightarrow> ('w, 'a) ctl" where
  "world_op f = State (\<lambda>s. case f (cs_world s) of (x, w) \<Rightarrow> (x, s\<lparr>cs_world := w\<rparr>))"

definition world_do :: "('w \<Rightarrow> 'w) \<Rightarrow> ('w, unit) ctl" where
  "world_do f = modify (\<lambda>s. s\<lparr>cs_world := f (cs_world s)\<rparr>)"

definition ask_world :: "('w \<Rightarrow> 'a) \<Rightarrow> ('w, 'a) ctl" where
  "ask_world f = asks (\<lambda>s. f (cs_world s))"

definition on_chats :: "(chats \<Rightarrow> chats) \<Rightarrow> ('w, unit) ctl" where
  "on_chats f = modify (\<lambda>s. s\<lparr>cs_chats := f (cs_chats s)\<rparr>)"

definition on_metrics :: "(metrics \<Rightarrow> metrics) \<Rightarrow> ('w, unit) ctl" where
  "on_metrics f = modify (\<lambda>s. s\<lparr>cs_metrics := f (cs_metrics s)\<rparr>)"

definition get_chat :: "string \<Rightarrow> ('w, chat_runtime option) ctl" where
  "get_chat k = asks (\<lambda>s. map_of (cs_chats s) k)"

definition when_do :: "bool \<Rightarrow> ('s, unit) state \<Rightarrow> ('s, unit) state" where
  "when_do b m = (if b then m else State_Monad.return ())"

fun for_each :: "('a \<Rightarrow> ('s, unit) state) \<Rightarrow> 'a list \<Rightarrow> ('s, unit) state" where
  "for_each f [] = State_Monad.return ()"
| "for_each f (x # xs) = do { f x; for_each f xs }"

section \<open>Delivering events\<close>

definition wrap_inc :: "nat \<Rightarrow> nat" where
  "wrap_inc n = (n + 1) mod 2 ^ 64"

definition bump_dropped_token :: "('w, unit) ctl" where
  "bump_dropped_token = on_metrics (\<lambda>m. m\<lparr>mt_dropped_token_events := wrap_inc (mt_dropped_token_events m)\<rparr>)"

definition bump_dropped_must :: "('w, unit) ctl" where
  "bump_dropped_must = on_metrics (\<lambda>m. m\<lparr>mt_dropped_must_deliver := wrap_inc (mt_dropped_must_deliver m)\<rparr>)"

definition bump_disconnects :: "('w, unit) ctl" where
  "bump_disconnects = on_metrics (\<lambda>m. m\<lparr>mt_receiver_disconnects := wrap_inc (mt_receiver_disconnects m)\<rparr>)"

definition bump_timeouts :: "('w, unit) ctl" where
  "bump_timeouts = on_metrics (\<lambda>m. m\<lparr>mt_generation_timeouts := wrap_inc (mt_generation_timeouts m)\<rparr>)"

definition bump_poisonings :: "('w, unit) ctl" where
  "bump_poisonings = on_metrics (\<lambda>m. m\<lparr>mt_session_poisonings := wrap_inc (mt_session_poisonings m)\<rparr>)"

definition bump_evictions :: "('w, unit) ctl" where
  "bump_evictions = on_metrics (\<lambda>m. m\<lparr>mt_evictions := wrap_inc (mt_evictions m)\<rparr>)"

definition bump_reload_terminations :: "('w, unit) ctl" where
  "bump_reload_terminations =
     on_metrics (\<lambda>m. m\<lparr>mt_model_reload_terminations := wrap_inc (mt_model_reload_terminations m)\<rparr>)"

definition try_send :: "'w env \<Rightarrow> nat \<Rightarrow> controller_event \<Rightarrow> ('w, emit_result) ctl" where
  "try_send env tx e = world_op (ev_try_send env tx e)"

definition log_emit :: "nat \<Rightarrow> controller_event \<Rightarrow> emit_result \<Rightarrow> ('w, unit) ctl" where
  "log_emit tx e r = modify (\<lambda>s. s\<lparr>cs_log := cs_log s @ [(tx, e, r)]\<rparr>)"

definition is_droppable :: "controller_event \<Rightarrow> bool" where
  "is_droppable e = (case e of EvToken _ \<Rightarrow> True | EvMediaBoundary _ \<Rightarrow> True | _ \<Rightarrow> False)"

definition emit_best_effort :: "'w env \<Rightarrow> nat \<Rightarrow> controller_event \<Rightarrow> ('w, emit_result) ctl" where
  "emit_best_effort env tx e = do {
     r \<leftarrow> try_send env tx e;
     when_do (is_droppable e \<and> r = Full) bump_dropped_token;
     when_do (r = Disconnected) bump_disconnects;
     log_emit tx e r;
     State_Monad.return r
   }"

fun emit_spins :: "nat \<Rightarrow> 'w env \<Rightarrow> nat \<Rightarrow> controller_event \<Rightarrow> ('w, emit_result) ctl" where
  "emit_spins 0 env tx e = do { bump_dropped_must; State_Monad.return Full }"
| "emit_spins (Suc n) env tx e = do {
     r \<leftarrow> try_send env tx e;
     (case r of
        Sent \<Rightarrow> State_Monad.return Sent
      | Disconnected \<Rightarrow> do { bump_disconnects; State_Monad.return Disconnected }
      | Full \<Rightarrow> emit_spins n env tx e)
   }"

definition emit_must_deliver :: "'w env \<Rightarrow> nat \<Rightarrow> controller_event \<Rightarrow> ('w, emit_result) ctl" where
  "emit_must_deliver env tx e = do {
     r \<leftarrow> emit_spins 64 env tx e;
     log_emit tx e r;
     State_Monad.return r
   }"

section \<open>Ending a runtime\<close>

definition deregister_hook :: "nat \<Rightarrow> ('w, unit) ctl" where
  "deregister_hook sid = modify (\<lambda>s. s\<lparr>cs_hooks := (cs_hooks s)(sid := None)\<rparr>)"

definition register_hook :: "nat \<Rightarrow> nat \<Rightarrow> ('w, unit) ctl" where
  "register_hook sid tx = modify (\<lambda>s. s\<lparr>cs_hooks := (cs_hooks s)(sid \<mapsto> tx)\<rparr>)"

definition deregister_and_end_session :: "'w env \<Rightarrow> nat \<Rightarrow> ('w, unit) ctl" where
  "deregister_and_end_session env sid = do { deregister_hook sid; world_do (ev_end_session env sid) }"

definition finalize_runtime_session :: "'w env \<Rightarrow> chat_runtime \<Rightarrow> controller_event \<Rightarrow> ('w, unit) ctl" where
  "finalize_runtime_session env c e = do {
     world_do (ev_stop env (cr_session c));
     emit_must_deliver env (cr_tx c) e;
     deregister_and_end_session env (cr_session c)
   }"

definition microphone_timeout :: exec_error where
  "microphone_timeout = Coded ''timeout'' ''microphone capture timed out waiting for audio''"

definition terminal_event :: "'w env \<Rightarrow> chat_runtime \<Rightarrow> runtime_outcome \<Rightarrow> controller_event" where
  "terminal_event env c outcome =
     (if is_capturing_microphone (cr_state c) \<and> outcome = OutcomeFailed Timeout
      then backend_failure (ev_debug env) microphone_timeout else EvStopped)"

definition settle :: "runtime_outcome \<Rightarrow> chat_runtime \<Rightarrow> chat_runtime" where
  "settle outcome c =
     (if is_terminal (cr_state c) then c
      else c\<lparr>cr_state := (case outcome of OutcomeCompleted r \<Rightarrow> Completed r | OutcomeFailed f \<Rightarrow> Failed f)\<rparr>)"

definition terminate_runtime_owned :: "'w env \<Rightarrow> chat_runtime \<Rightarrow> runtime_outcome \<Rightarrow> ('w, unit) ctl" where
  "terminate_runtime_owned env c outcome = do {
     when_do (is_capturing_microphone (cr_state c) \<and> outcome = OutcomeFailed Timeout) bump_timeouts;
     when_do (outcome = OutcomeCompleted Evicted) bump_evictions;
     when_do (outcome = OutcomeCompleted ModelReloaded) bump_reload_terminations;
     finalize_runtime_session env (settle outcome c) (terminal_event env c outcome)
   }"

definition terminate_runtime :: "'w env \<Rightarrow> string \<Rightarrow> runtime_outcome \<Rightarrow> ('w, unit) ctl" where
  "terminate_runtime env k outcome = do {
     found \<leftarrow> get_chat k;
     (case found of
        None \<Rightarrow> State_Monad.return ()
      | Some c \<Rightarrow> do { on_chats (chats_remove k); terminate_runtime_owned env c outcome })
   }"

definition evict_lru :: "('w, chat_runtime option) ctl" where
  "evict_lru = do {
     cs \<leftarrow> asks cs_chats;
     (case pick_eviction_target (views cs) of
        None \<Rightarrow> State_Monad.return None
      | Some k \<Rightarrow> do { on_chats (chats_remove k); State_Monad.return (map_of cs k) })
   }"

text \<open>\<^verbatim>\<open>HashMap::drain\<close>: every chat leaves the map, then each is ended.\<close>

definition drain_chats :: "'w env \<Rightarrow> runtime_outcome \<Rightarrow> ('w, unit) ctl" where
  "drain_chats env outcome = do {
     cs \<leftarrow> asks cs_chats;
     on_chats (\<lambda>_. []);
     for_each (\<lambda>(k, c). terminate_runtime_owned env c outcome) cs
   }"

definition apply_generation_defaults :: "'w env \<Rightarrow> gen_spec \<Rightarrow> ('w, gen_spec) ctl" where
  "apply_generation_defaults env spec = do {
     d \<leftarrow> ask_world (ev_defaults env);
     State_Monad.return (spec\<lparr>
       gs_max_tokens := (case gs_max_tokens spec of None \<Rightarrow> fst d | Some n \<Rightarrow> Some n),
       gs_temperature := (case gs_temperature spec of None \<Rightarrow> snd d | Some t \<Rightarrow> Some t)\<rparr>)
   }"

section \<open>Weakest preconditions\<close>

definition wp :: "('s, 'a) state \<Rightarrow> ('a \<Rightarrow> 's \<Rightarrow> bool) \<Rightarrow> 's \<Rightarrow> bool" where
  "wp m Q s \<longleftrightarrow> Q (fst (run_state m s)) (snd (run_state m s))"

definition valid :: "('s \<Rightarrow> bool) \<Rightarrow> ('s, 'a) state \<Rightarrow> ('a \<Rightarrow> 's \<Rightarrow> bool) \<Rightarrow> bool" where
  "valid P m Q \<longleftrightarrow> (\<forall>s. P s \<longrightarrow> wp m Q s)"

named_theorems wp_simps \<open>weakest preconditions of the basic computations\<close>
named_theorems valid_rules \<open>triples of the controller's steps\<close>

lemma wp_return [wp_simps]: "wp (State_Monad.return x) Q = Q x"
  by (rule ext) (simp add: wp_def)

lemma wp_bind [wp_simps]: "wp (State_Monad.bind m f) Q = wp m (\<lambda>x. wp (f x) Q)"
  by (rule ext) (simp add: wp_def case_prod_beta)

lemma wp_asks [wp_simps]: "wp (asks f) Q = (\<lambda>s. Q (f s) s)"
  by (rule ext) (simp add: wp_def asks_def)

lemma wp_ask_world [wp_simps]: "wp (ask_world f) Q = (\<lambda>s. Q (f (cs_world s)) s)"
  by (simp add: ask_world_def wp_asks)

lemma wp_get_chat [wp_simps]: "wp (get_chat k) Q = (\<lambda>s. Q (map_of (cs_chats s) k) s)"
  by (simp add: get_chat_def wp_asks)

lemma wp_modify [wp_simps]: "wp (modify f) Q = (\<lambda>s. Q () (f s))"
  by (rule ext) (simp add: wp_def modify_def)

lemma wp_on_chats [wp_simps]: "wp (on_chats f) Q = (\<lambda>s. Q () (s\<lparr>cs_chats := f (cs_chats s)\<rparr>))"
  by (simp add: on_chats_def wp_modify)

lemma wp_on_metrics [wp_simps]: "wp (on_metrics f) Q = (\<lambda>s. Q () (s\<lparr>cs_metrics := f (cs_metrics s)\<rparr>))"
  by (simp add: on_metrics_def wp_modify)

lemma wp_world_op [wp_simps]:
  "wp (world_op f) Q = (\<lambda>s. Q (fst (f (cs_world s))) (s\<lparr>cs_world := snd (f (cs_world s))\<rparr>))"
  by (rule ext) (simp add: wp_def world_op_def case_prod_beta)

lemma wp_world_do [wp_simps]: "wp (world_do f) Q = (\<lambda>s. Q () (s\<lparr>cs_world := f (cs_world s)\<rparr>))"
  by (simp add: world_do_def wp_modify)

lemma wp_when_do [wp_simps]: "wp (when_do b m) Q = (if b then wp m Q else Q ())"
  by (simp add: when_do_def wp_return)

lemma wp_mono: "wp m Q s \<Longrightarrow> (\<And>x t. Q x t \<Longrightarrow> R x t) \<Longrightarrow> wp m R s"
  by (simp add: wp_def)

lemma validI: "(\<And>s. P s \<Longrightarrow> wp m Q s) \<Longrightarrow> valid P m Q"
  by (simp add: valid_def)

lemma validD: "valid P m Q \<Longrightarrow> P s \<Longrightarrow> wp m Q s"
  by (simp add: valid_def)

lemma valid_return: "(\<And>s. P s \<Longrightarrow> Q x s) \<Longrightarrow> valid P (State_Monad.return x) Q"
  by (simp add: valid_def wp_return)

lemma valid_bind: "valid P m R \<Longrightarrow> (\<And>x. valid (R x) (f x) Q) \<Longrightarrow> valid P (State_Monad.bind m f) Q"
  by (simp add: valid_def wp_def case_prod_beta)

lemma valid_if: "(b \<Longrightarrow> valid P m Q) \<Longrightarrow> (\<not> b \<Longrightarrow> valid P n Q) \<Longrightarrow> valid P (if b then m else n) Q"
  by simp

lemma valid_when: "(b \<Longrightarrow> valid P m Q) \<Longrightarrow> (\<And>s. \<not> b \<Longrightarrow> P s \<Longrightarrow> Q () s) \<Longrightarrow> valid P (when_do b m) Q"
  by (simp add: valid_def wp_when_do)

lemma valid_option:
  "(x = None \<Longrightarrow> valid P m Q) \<Longrightarrow> (\<And>y. x = Some y \<Longrightarrow> valid P (f y) Q) \<Longrightarrow>
     valid P (case x of None \<Rightarrow> m | Some y \<Rightarrow> f y) Q"
  by (cases x) simp_all

lemma valid_sum:
  "(\<And>e. x = Inl e \<Longrightarrow> valid P (m e) Q) \<Longrightarrow> (\<And>y. x = Inr y \<Longrightarrow> valid P (f y) Q) \<Longrightarrow>
     valid P (case x of Inl e \<Rightarrow> m e | Inr y \<Rightarrow> f y) Q"
  by (cases x) simp_all

lemma valid_pre: "valid P m Q \<Longrightarrow> (\<And>s. P' s \<Longrightarrow> P s) \<Longrightarrow> valid P' m Q"
  by (simp add: valid_def)

lemma valid_post: "valid P m Q \<Longrightarrow> (\<And>x s. Q x s \<Longrightarrow> Q' x s) \<Longrightarrow> valid P m Q'"
  by (simp add: valid_def wp_def)

text \<open>A computation that keeps a predicate.\<close>

definition keeps :: "('s \<Rightarrow> bool) \<Rightarrow> ('s, 'a) state \<Rightarrow> bool" where
  "keeps I m \<longleftrightarrow> valid I m (\<lambda>_. I)"

lemma keepsI: "(\<And>s. I s \<Longrightarrow> wp m (\<lambda>_. I) s) \<Longrightarrow> keeps I m"
  by (simp add: keeps_def valid_def)

lemma keepsD: "keeps I m \<Longrightarrow> I s \<Longrightarrow> wp m (\<lambda>_. I) s"
  by (simp add: keeps_def valid_def)

lemma keeps_return: "keeps I (State_Monad.return x)"
  by (simp add: keeps_def valid_return)

lemma keeps_bind: "keeps I m \<Longrightarrow> (\<And>x. keeps I (f x)) \<Longrightarrow> keeps I (State_Monad.bind m f)"
  unfolding keeps_def by (rule valid_bind)

lemma keeps_asks: "keeps I (asks f)" "keeps I (get_chat k)" "keeps I (ask_world g)"
  by (simp_all add: keeps_def valid_def wp_simps)

lemma keeps_when: "keeps I m \<Longrightarrow> keeps I (when_do b m)"
  by (simp add: keeps_def valid_def wp_when_do)

lemma keeps_if: "keeps I m \<Longrightarrow> keeps I n \<Longrightarrow> keeps I (if b then m else n)"
  by simp

lemma keeps_option:
  "keeps I m \<Longrightarrow> (\<And>y. keeps I (f y)) \<Longrightarrow> keeps I (case x of None \<Rightarrow> m | Some y \<Rightarrow> f y)"
  by (cases x) simp_all

lemma keeps_sum:
  "(\<And>e. keeps I (m e)) \<Longrightarrow> (\<And>y. keeps I (f y)) \<Longrightarrow> keeps I (case x of Inl e \<Rightarrow> m e | Inr y \<Rightarrow> f y)"
  by (cases x) simp_all

lemma keeps_for_each: "(\<And>x. x \<in> set xs \<Longrightarrow> keeps I (f x)) \<Longrightarrow> keeps I (for_each f xs)"
  by (induction xs) (auto intro: keeps_return keeps_bind)

lemmas keeps_rules = keeps_return keeps_bind keeps_asks keeps_when keeps_if keeps_option keeps_sum

section \<open>Delivery\<close>

text \<open>Emitting touches the counters, the log and the world, and logs its result.\<close>

definition quiet_env :: "'w env \<Rightarrow> ('w \<Rightarrow> 'v) \<Rightarrow> bool" where
  "quiet_env env v \<longleftrightarrow> (\<forall>tx e w. v (snd (ev_try_send env tx e w)) = v w)"

definition same_core :: "'w cstate \<Rightarrow> 'w cstate \<Rightarrow> bool" where
  "same_core s t \<longleftrightarrow> cs_chats t = cs_chats s \<and> cs_residency t = cs_residency s
     \<and> cs_residency_policy t = cs_residency_policy s \<and> cs_caps t = cs_caps s \<and> cs_config t = cs_config s
     \<and> cs_loaded_file_bytes t = cs_loaded_file_bytes s \<and> cs_last_llm_activity t = cs_last_llm_activity s
     \<and> cs_idle_unloaded t = cs_idle_unloaded s \<and> cs_last_maintenance t = cs_last_maintenance s
     \<and> cs_hooks t = cs_hooks s"

lemma same_core_refl [simp]: "same_core s s"
  by (simp add: same_core_def)

lemma same_core_trans: "same_core s t \<Longrightarrow> same_core t u \<Longrightarrow> same_core s u"
  by (simp add: same_core_def)

lemma same_core_simps [simp]:
  "same_core s (t\<lparr>cs_world := w\<rparr>) \<longleftrightarrow> same_core s t"
  "same_core s (t\<lparr>cs_metrics := m\<rparr>) \<longleftrightarrow> same_core s t"
  "same_core s (t\<lparr>cs_log := l\<rparr>) \<longleftrightarrow> same_core s t"
  by (simp_all add: same_core_def)

lemma same_core_from [simp]:
  "same_core (s\<lparr>cs_world := w\<rparr>) t \<longleftrightarrow> same_core s t"
  "same_core (s\<lparr>cs_metrics := m\<rparr>) t \<longleftrightarrow> same_core s t"
  by (simp_all add: same_core_def)

lemma wp_emit_spins:
  assumes "quiet_env env v"
    and "\<And>r t. same_core s t \<Longrightarrow> v (cs_world t) = v (cs_world s) \<Longrightarrow> cs_log t = cs_log s \<Longrightarrow> Q r t"
  shows "wp (emit_spins n env tx e) Q s"
  using assms(2)
proof (induction n arbitrary: s)
  case 0
  show ?case by (simp add: wp_simps bump_dropped_must_def) (rule 0; simp)
next
  case (Suc n)
  let ?t = "s\<lparr>cs_world := snd (ev_try_send env tx e (cs_world s))\<rparr>"
  have v: "v (cs_world ?t) = v (cs_world s)" using assms(1) by (simp add: quiet_env_def)
  have later: "Q r t" if "same_core ?t t" "v (cs_world t) = v (cs_world ?t)" "cs_log t = cs_log ?t" for r t
    using Suc.prems [of t r] that v by simp
  show ?case
  proof (cases "fst (ev_try_send env tx e (cs_world s))")
    case Sent
    have "Q Sent ?t" by (rule later) simp_all
    with Sent show ?thesis by (simp add: wp_simps try_send_def)
  next
    case Full
    have "wp (emit_spins n env tx e) Q ?t" by (rule Suc.IH) (rule later)
    with Full show ?thesis by (simp add: wp_simps try_send_def)
  next
    case Disconnected
    then show ?thesis
      by (simp add: wp_simps try_send_def bump_disconnects_def) (rule later; simp)
  qed
qed

lemma wp_emit_must_deliver:
  assumes "quiet_env env v"
    and "\<And>r t. same_core s t \<Longrightarrow> v (cs_world t) = v (cs_world s) \<Longrightarrow>
      cs_log t = cs_log s @ [(tx, e, r)] \<Longrightarrow> Q r t"
  shows "wp (emit_must_deliver env tx e) Q s"
  unfolding emit_must_deliver_def wp_bind
  by (rule wp_emit_spins [OF assms(1)]) (simp add: wp_simps log_emit_def assms(2))

lemma wp_emit_best_effort:
  assumes "quiet_env env v"
    and "\<And>r t. same_core s t \<Longrightarrow> v (cs_world t) = v (cs_world s) \<Longrightarrow>
      cs_log t = cs_log s @ [(tx, e, r)] \<Longrightarrow> Q r t"
  shows "wp (emit_best_effort env tx e) Q s"
proof -
  have v: "v (snd (ev_try_send env tx e (cs_world s))) = v (cs_world s)"
    using assms(1) by (simp add: quiet_env_def)
  show ?thesis
    unfolding emit_best_effort_def try_send_def log_emit_def bump_dropped_token_def bump_disconnects_def
    by (simp add: wp_simps) (intro conjI impI; rule assms(2); simp add: v)
qed

end
