(* ===== verification/ModelCommands.thy ===== *)
theory ModelCommands
  imports Control
begin

text \<open>
  The commands that load and unload models (\<^verbatim>\<open>src/controller/commands.rs\<close>): the ladder of ever safer
  load attempts, unloading with its remembered identity, reloading through admission, idle
  unloading and the residency maintenance of a tick, and the two helper loads.  The size of a
  file, its plan and the estimate of its memory are those of \<open>MemoryPlan\<close>, asked of the world.
\<close>

section \<open>The ladder\<close>

record load_rung =
  lg_label :: string
  lg_drop_mmproj :: bool
  lg_cpu_only :: bool

definition rung_apply :: "load_rung \<Rightarrow> load_settings \<Rightarrow> load_settings" where
  "rung_apply g s = (if lg_cpu_only g then s\<lparr>ls_plan := (ls_plan s)\<lparr>ps_gpu_layers := Some 0\<rparr>\<rparr> else s)"

definition load_fallback_rungs :: "load_settings \<Rightarrow> bool \<Rightarrow> load_rung list" where
  "load_fallback_rungs s has_mmproj =
     [\<lparr>lg_label = ''requested'', lg_drop_mmproj = False, lg_cpu_only = False\<rparr>]
     @ (if has_mmproj then [\<lparr>lg_label = ''no-mmproj'', lg_drop_mmproj = True, lg_cpu_only = False\<rparr>] else [])
     @ (if ps_gpu_layers (ls_plan s) \<noteq> Some 0
        then [\<lparr>lg_label = ''cpu-only'', lg_drop_mmproj = has_mmproj, lg_cpu_only = True\<rparr>] else [])"

datatype degraded = VisionProjector | GpuOffload

record load_attempt_error =
  la_message :: string
  la_fatal :: bool

definition load_error_is_fatal :: "exec_error \<Rightarrow> bool" where
  "load_error_is_fatal e =
     (case e of exec_error.InvalidModelFile _ \<Rightarrow> True | UnsupportedArchitecture _ \<Rightarrow> True
      | SettingsError _ \<Rightarrow> True | InvalidArg _ \<Rightarrow> True | FeatureUnsupported _ \<Rightarrow> True | ModelNotLoaded \<Rightarrow> True
      | _ \<Rightarrow> False)"

definition fatal_str :: "string \<Rightarrow> load_attempt_error" where
  "fatal_str m = \<lparr>la_message = m, la_fatal = True\<rparr>"

definition from_exec :: "'w env \<Rightarrow> exec_error \<Rightarrow> load_attempt_error" where
  "from_exec env e = \<lparr>la_message = ev_debug env e, la_fatal = load_error_is_fatal e\<rparr>"

record load_command =
  lm_model_path :: string
  lm_mmproj_path :: "string option"
  lm_settings :: load_settings
  lm_api_key :: "string option"
  lm_api_format :: "string option"
  lm_api_model :: "string option"

definition build_load_request :: "string \<Rightarrow> string option \<Rightarrow> load_settings \<Rightarrow> load_request" where
  "build_load_request path mmproj s =
     \<lparr>lr_model_path = path, lr_mmproj_path = mmproj, lr_n_ctx = ps_ctx_size (ls_plan s),
      lr_threads = ls_threads s, lr_gpu_layers = ps_gpu_layers (ls_plan s),
      lr_api_key = None, lr_api_format = None, lr_api_model = None\<rparr>"

definition model_file_bytes_of :: "string fs \<Rightarrow> string \<Rightarrow> nat option" where
  "model_file_bytes_of w path =
     (case fs_metadata_len w path of None \<Rightarrow> None | Some n \<Rightarrow> if fs_is_dir w path then None else Some n)"

definition pressure_name :: "pressure \<Rightarrow> string" where
  "pressure_name p = (case p of Normal \<Rightarrow> ''Normal'' | Constrained \<Rightarrow> ''Constrained''
     | Severe \<Rightarrow> ''Severe'' | Emergency \<Rightarrow> ''Emergency'')"

definition denial_message :: "nat \<Rightarrow> governor \<Rightarrow> string" where
  "denial_message mb g =
     ''llm admission denied by residency policy: model_mb='' @ show_nat mb
     @ '', inference_budget_mb='' @ show_nat (inference_resident_mb (sn_budgets g))
     @ '', process_mb='' @ show_nat (sn_estimated_process_mb g)
     @ '', process_soft_limit_mb='' @ show_nat (process_soft_limit_mb (sn_budgets g))
     @ '', available_mb='' @ show_nat (sn_available_memory_mb g)
     @ '', pressure='' @ pressure_name (sn_pressure g)"

definition new_runtime :: "runtime_kind \<Rightarrow> string \<Rightarrow> nat \<Rightarrow> int \<Rightarrow> runtime" where
  "new_runtime k name mb now = \<lparr>rt_kind = k, rt_name = name, rt_estimated_mb = mb, rt_last_used = now\<rparr>"

definition admit_runtime :: "runtime \<Rightarrow> governor \<Rightarrow> ('w, bool) ctl" where
  "admit_runtime r g = do {
     v \<leftarrow> asks cs_residency;
     modify (\<lambda>s. s\<lparr>cs_residency := fst (admit r g v)\<rparr>);
     State_Monad.return (snd (admit r g v))
   }"

definition unload_residency :: "runtime_kind \<Rightarrow> ('w, runtime option) ctl" where
  "unload_residency k = do {
     v \<leftarrow> asks cs_residency;
     modify (\<lambda>s. s\<lparr>cs_residency := fst (unload k v)\<rparr>);
     State_Monad.return (snd (unload k v))
   }"

text \<open>The end of an attempt: settings, the engine's load, registration.\<close>

definition register_load :: "'w env \<Rightarrow> string \<Rightarrow> nat \<Rightarrow> governor \<Rightarrow> ('w, load_attempt_error + unit) ctl" where
  "register_load env name mb g = do {
     now \<leftarrow> world_op (ev_unix_now env);
     admitted \<leftarrow> admit_runtime (new_runtime Llm name mb now) g;
     (if admitted then State_Monad.return (Inr ())
      else do { world_do (ev_unload_model env);
                State_Monad.return (Inl (fatal_str ''llm residency registration denied after load'')) })
   }"

definition engine_load ::
  "'w env \<Rightarrow> load_request \<Rightarrow> load_settings \<Rightarrow> nat \<Rightarrow> governor \<Rightarrow> ('w, load_attempt_error + unit) ctl" where
  "engine_load env req s mb g = do {
     up \<leftarrow> world_op (ev_upload_settings env s);
     (case up of
        Some e \<Rightarrow>
          if e \<noteq> ModelNotLoaded then State_Monad.return (Inl (from_exec env e))
          else do {
            ld \<leftarrow> world_op (ev_load_model env req);
            (case ld of
               Some e' \<Rightarrow> State_Monad.return (Inl (from_exec env e'))
             | None \<Rightarrow> do {
                 up' \<leftarrow> world_op (ev_upload_settings env s);
                 (case up' of
                    Some e'' \<Rightarrow> State_Monad.return (Inl (from_exec env e''))
                  | None \<Rightarrow> register_load env (lr_model_path req) mb g)
               })
          }
      | None \<Rightarrow> do {
          ld \<leftarrow> world_op (ev_load_model env req);
          (case ld of
             Some e' \<Rightarrow> State_Monad.return (Inl (from_exec env e'))
           | None \<Rightarrow> register_load env (lr_model_path req) mb g)
        })
   }"

definition unload_for_swap :: "'w env \<Rightarrow> ('w, unit) ctl" where
  "unload_for_swap env = do {
     policy \<leftarrow> asks cs_residency_policy;
     v \<leftarrow> asks cs_residency;
     when_do (llm_swap_requires_unload policy \<and> inv_llm v \<noteq> None)
       (do { world_do (ev_unload_model env); unload_residency Llm; State_Monad.return () })
   }"

text \<open>The result of an attempt, and the file size it last saw.\<close>

definition attempt_load ::
  "'w env \<Rightarrow> load_command \<Rightarrow> string option \<Rightarrow> load_settings \<Rightarrow> nat option
     \<Rightarrow> ('w, (load_attempt_error + unit) \<times> nat option) ctl" where
  "attempt_load env c mmproj settings seen = do {
     unload_for_swap env;
     g \<leftarrow> world_op (ev_governor env);
     v \<leftarrow> asks cs_residency;
     planner \<leftarrow> ask_world (ev_planner env);
     config \<leftarrow> asks cs_config;
     (case plan_gguf planner (lm_model_path c) mmproj (ls_plan settings)
             (cc_max_active_chats config) (load_budget g v) of
        Inl e \<Rightarrow> State_Monad.return (Inl (fatal_str (ev_plan_message env e)), seen)
      | Inr plan \<Rightarrow>
          let settings' = (case plan of None \<Rightarrow> settings
                | Some p \<Rightarrow> settings\<lparr>ls_plan := (ls_plan settings)\<lparr>ps_ctx_size := Some (mp_context_tokens p)\<rparr>\<rparr>);
              req = (build_load_request (lm_model_path c) mmproj settings')\<lparr>lr_api_key := lm_api_key c,
                lr_api_format := lm_api_format c, lr_api_model := lm_api_model c\<rparr>;
              seen' = model_file_bytes_of (pl_fs planner) (lm_model_path c);
              mb = (case plan of
                  None \<Rightarrow> estimate_resident_mb_for_path_offloaded (pl_fs planner) (pl_backend planner)
                            (lm_model_path c) (lr_gpu_layers req)
                | Some p \<Rightarrow> mp_total_mb p)
          in if \<not> can_admit Llm mb g v then State_Monad.return (Inl (fatal_str (denial_message mb g)), seen')
             else do {
               r \<leftarrow> engine_load env req settings' mb g;
               State_Monad.return (r, seen')
             })
   }"

definition degradations :: "load_rung \<Rightarrow> degraded list" where
  "degradations g = (if lg_drop_mmproj g then [VisionProjector] else []) @ (if lg_cpu_only g then [GpuOffload] else [])"

definition ladder_failure :: "nat \<Rightarrow> nat \<Rightarrow> string list \<Rightarrow> string \<Rightarrow> string" where
  "ladder_failure total_rungs idx history message =
     (if 1 < length history \<or> idx + 1 = total_rungs
      then ''model load failed after '' @ show_nat (length history) @ '' attempt(s): ['' @ join '' | '' history @ '']''
      else message)"

fun load_ladder ::
  "'w env \<Rightarrow> load_command \<Rightarrow> nat \<Rightarrow> nat \<Rightarrow> load_rung list \<Rightarrow> string list \<Rightarrow> (string + degraded list)
     \<Rightarrow> nat option \<Rightarrow> ('w, (string + degraded list) \<times> nat option) ctl" where
  "load_ladder env c total_rungs idx [] history r seen = State_Monad.return (r, seen)"
| "load_ladder env c total_rungs idx (g # gs) history r seen = do {
     (attempt, seen') \<leftarrow> attempt_load env c (if lg_drop_mmproj g then None else lm_mmproj_path c)
        (rung_apply g (lm_settings c)) seen;
     (case attempt of
        Inr _ \<Rightarrow> State_Monad.return (Inr (degradations g), seen')
      | Inl e \<Rightarrow>
          let history' = history @ [lg_label g @ '': '' @ la_message e];
              r' = Inl (ladder_failure total_rungs idx history' (la_message e))
          in if la_fatal e then State_Monad.return (r', seen')
             else load_ladder env c total_rungs (idx + 1) gs history' r' seen')
   }"

section \<open>Keepwarm\<close>

definition save_all_chat_kv :: "'w env \<Rightarrow> ('w, unit) ctl" where
  "save_all_chat_kv env = do {
     enabled \<leftarrow> ask_world (ev_keepwarm_enabled env);
     cs \<leftarrow> asks cs_chats;
     when_do (enabled \<and> cs \<noteq> []) (do {
       created \<leftarrow> world_op (ev_kv_create_dir env);
       when_do created (do {
         for_each (\<lambda>(k, c). when_do (\<not> is_in_flight (cr_state c)) (world_do (ev_save_cache env (cr_session c) k))) cs;
         world_do (ev_kv_enforce_budget env)
       })
     })
   }"

definition remember_unloaded :: "('w, unit) ctl" where
  "remember_unloaded = do {
     old \<leftarrow> unload_residency Llm;
     (case old of None \<Rightarrow> State_Monad.return ()
      | Some r \<Rightarrow> modify (\<lambda>s. s\<lparr>cs_idle_unloaded := Some (rt_name r, rt_estimated_mb r)\<rparr>));
     modify (\<lambda>s. s\<lparr>cs_loaded_file_bytes := None\<rparr>)
   }"

definition maybe_idle_unload_llm :: "'w env \<Rightarrow> ('w, unit) ctl" where
  "maybe_idle_unload_llm env = do {
     enabled \<leftarrow> ask_world (ev_keepwarm_enabled env);
     v \<leftarrow> asks cs_residency;
     secs \<leftarrow> ask_world (ev_idle_unload_secs env);
     (if \<not> enabled \<or> inv_llm v = None then State_Monad.return ()
      else case secs of
          None \<Rightarrow> State_Monad.return ()
        | Some timeout \<Rightarrow>
            if timeout \<le> 0 then State_Monad.return ()
            else do {
              now \<leftarrow> world_op (ev_unix_now env);
              cs \<leftarrow> asks cs_chats;
              seen \<leftarrow> asks cs_last_llm_activity;
              (if list_ex (\<lambda>(k, c). is_in_flight (cr_state c)) cs
               then modify (\<lambda>s. s\<lparr>cs_last_llm_activity := now\<rparr>)
               else if now - seen < timeout then State_Monad.return ()
               else do {
                 save_all_chat_kv env;
                 drain_chats env (OutcomeCompleted Evicted);
                 world_do (ev_unload_model env);
                 remember_unloaded
               })
            })
   }"

definition reload_with_admission :: "'w env \<Rightarrow> ('w, string + unit) ctl" where
  "reload_with_admission env = do {
     g \<leftarrow> world_op (ev_governor env);
     pending \<leftarrow> asks cs_idle_unloaded;
     v \<leftarrow> asks cs_residency;
     (if (case pending of None \<Rightarrow> False | Some (_, mb) \<Rightarrow> \<not> can_admit Llm mb g v)
      then State_Monad.return (Inl ''llm reload admission denied by residency policy'')
      else do {
        r \<leftarrow> world_op (ev_reload_model env);
        (case r of
           Some e \<Rightarrow> State_Monad.return (Inl (ev_display env e))
         | None \<Rightarrow>
             (case pending of
                None \<Rightarrow> State_Monad.return (Inr ())
              | Some (name, mb) \<Rightarrow> do {
                  now \<leftarrow> world_op (ev_unix_now env);
                  admitted \<leftarrow> admit_runtime (new_runtime Llm name mb now) g;
                  (if \<not> admitted
                   then do { world_do (ev_unload_model env);
                             State_Monad.return (Inl ''llm reload residency registration denied'') }
                   else do {
                     planner \<leftarrow> ask_world (ev_planner env);
                     modify (\<lambda>s. s\<lparr>cs_loaded_file_bytes := model_file_bytes_of (pl_fs planner) name,
                        cs_idle_unloaded := None, cs_last_llm_activity := now\<rparr>);
                     State_Monad.return (Inr ())
                   })
                }))
      })
   }"

definition maybe_wake_llm :: "'w env \<Rightarrow> ('w, unit) ctl" where
  "maybe_wake_llm env = do {
     loaded \<leftarrow> ask_world (ev_is_model_loaded env);
     pending \<leftarrow> asks cs_idle_unloaded;
     when_do (\<not> loaded \<and> pending \<noteq> None) (do { reload_with_admission env; State_Monad.return () })
   }"

section \<open>Maintenance\<close>

definition unload_evicted_helper :: "'w env \<Rightarrow> runtime_kind \<Rightarrow> ('w, unit) ctl" where
  "unload_evicted_helper env k =
     (case k of Embedder \<Rightarrow> world_do (ev_unload_embedder env)
      | Reranker \<Rightarrow> world_do (ev_unload_reranker env)
      | _ \<Rightarrow> State_Monad.return ())"

definition run_residency_maintenance :: "'w env \<Rightarrow> ('w, unit) ctl" where
  "run_residency_maintenance env = do {
     cs \<leftarrow> asks cs_chats;
     g \<leftarrow> world_op (ev_governor env);
     v \<leftarrow> asks cs_residency;
     (let (v', evicted) = unload_for_pressure g (if cs = [] then None else Some Llm) v in do {
        modify (\<lambda>s. s\<lparr>cs_residency := v'\<rparr>);
        for_each (\<lambda>r. unload_evicted_helper env (rt_kind r)) evicted
      });
     now \<leftarrow> world_op (ev_unix_now env);
     u \<leftarrow> asks cs_residency;
     policy \<leftarrow> asks cs_residency_policy;
     modify (\<lambda>s. s\<lparr>cs_residency := fst (evict_idle_helpers now policy u)\<rparr>);
     maybe_idle_unload_llm env;
     for_each (\<lambda>r. unload_evicted_helper env (rt_kind r)) (snd (evict_idle_helpers now policy u))
   }"

section \<open>Commands\<close>

text \<open>What follows a successful load.\<close>

definition adopt_model :: "'w env \<Rightarrow> nat option \<Rightarrow> ('w, unit) ctl" where
  "adopt_model env seen = do {
     drain_chats env (OutcomeCompleted ModelReloaded);
     modify (\<lambda>s. s\<lparr>cs_hooks := Map.empty\<rparr>);
     caps \<leftarrow> ask_world (ev_backend_caps env);
     modify (\<lambda>s. s\<lparr>cs_caps := caps, cs_loaded_file_bytes := seen\<rparr>)
   }"

definition load_model :: "'w env \<Rightarrow> load_command \<Rightarrow> ('w, string + degraded list) ctl" where
  "load_model env c = do {
     save_all_chat_kv env;
     (let gs = load_fallback_rungs (lm_settings c) (lm_mmproj_path c \<noteq> None) in do {
       (r, seen) \<leftarrow> load_ladder env c (length gs) 0 gs [] (Inl ''load ladder never ran'') None;
       (case r of
          Inl e \<Rightarrow> State_Monad.return (Inl e)
        | Inr ds \<Rightarrow> do { adopt_model env seen; State_Monad.return (Inr ds) })
     })
   }"

definition unload_model :: "'w env \<Rightarrow> ('w, unit) ctl" where
  "unload_model env = do {
     ids \<leftarrow> asks (\<lambda>s. map fst (cs_chats s));
     for_each (\<lambda>k. terminate_runtime env k (OutcomeCompleted Evicted)) ids;
     world_do (ev_unload_model env);
     remember_unloaded
   }"

definition load_helper ::
  "'w env \<Rightarrow> runtime_kind \<Rightarrow> string \<Rightarrow> string \<Rightarrow> (nat \<Rightarrow> 'w \<Rightarrow> (string + unit) \<times> 'w) \<Rightarrow> ('w \<Rightarrow> 'w)
     \<Rightarrow> ('w, string + unit) ctl" where
  "load_helper env k label path load drop_it = do {
     planner \<leftarrow> ask_world (ev_planner env);
     g \<leftarrow> world_op (ev_governor env);
     v \<leftarrow> asks cs_residency;
     (let mb = estimate_resident_mb_for_path (pl_fs planner) path in
      if \<not> can_admit k mb g v
      then State_Monad.return (Inl (label @ '' admission denied by residency policy''))
      else do {
        r \<leftarrow> world_op (load mb);
        (case r of
           Inl e \<Rightarrow> State_Monad.return (Inl e)
         | Inr _ \<Rightarrow> do {
             now \<leftarrow> world_op (ev_unix_now env);
             admitted \<leftarrow> admit_runtime (new_runtime k path mb now) g;
             (if admitted then State_Monad.return (Inr ())
              else do { world_do drop_it;
                        State_Monad.return (Inl (label @ '' residency registration denied after load'')) })
           })
      })
   }"

definition load_embedder :: "'w env \<Rightarrow> string \<Rightarrow> string option \<Rightarrow> ('w, string + unit) ctl" where
  "load_embedder env path kind =
     load_helper env Embedder ''embedder'' path (ev_load_embedder env path kind) (ev_unload_embedder env)"

definition load_reranker :: "'w env \<Rightarrow> string \<Rightarrow> ('w, string + unit) ctl" where
  "load_reranker env path =
     load_helper env Reranker ''reranker'' path (ev_load_reranker env path) (ev_unload_reranker env)"

definition apply_settings :: "'w env \<Rightarrow> load_settings \<Rightarrow> ('w, string + unit) ctl" where
  "apply_settings env s = do {
     r \<leftarrow> world_op (ev_upload_settings env s);
     State_Monad.return (case r of None \<Rightarrow> Inr () | Some e \<Rightarrow> Inl (ev_debug env e))
   }"

definition generate_embeddings :: "'w env \<Rightarrow> string list \<Rightarrow> ('w, string option) ctl" where
  "generate_embeddings env inputs = do {
     r \<leftarrow> world_op (ev_embed env inputs);
     (case r of
        Inl e \<Rightarrow> State_Monad.return (Some e)
      | Inr _ \<Rightarrow> do {
          now \<leftarrow> world_op (ev_unix_now env);
          modify (\<lambda>s. s\<lparr>cs_residency := touch Embedder now (cs_residency s)\<rparr>);
          State_Monad.return None
        })
   }"

definition rerank_documents :: "'w env \<Rightarrow> string \<Rightarrow> string list \<Rightarrow> ('w, string option) ctl" where
  "rerank_documents env query documents = do {
     r \<leftarrow> world_op (ev_rerank env query documents);
     (case r of
        Inl e \<Rightarrow> State_Monad.return (Some e)
      | Inr _ \<Rightarrow> do {
          now \<leftarrow> world_op (ev_unix_now env);
          modify (\<lambda>s. s\<lparr>cs_residency := touch Reranker now (cs_residency s)\<rparr>);
          State_Monad.return None
        })
   }"

end
