(* ===== verification/ChatCommands.thy ===== *)
theory ChatCommands
  imports ModelCommands
begin

text \<open>
  The commands on chats (\<^verbatim>\<open>handle_chat_command\<close>, \<^verbatim>\<open>handle_system_command\<close> and
  \<^verbatim>\<open>handle_microphone_command\<close> of \<^verbatim>\<open>src/controller/commands.rs\<close>, \<^verbatim>\<open>start_ephemeral\<close> of
  \<^verbatim>\<open>lifecycle.rs\<close>).  A command with a reply channel returns what it replies.
\<close>

record start_command =
  sc_chat_id :: string
  sc_messages :: "message list"
  sc_gen_spec :: gen_spec
  sc_thinking :: thinking_mode
  sc_model_id :: "string option"
  sc_model_size_bytes :: "nat option"
  sc_tools :: "(tool_spec list \<times> string) option"
  sc_tx :: nat

record continue_command =
  kc_chat_id :: string
  kc_new_messages :: "message list"
  kc_transcript :: "message list"
  kc_gen_spec :: gen_spec
  kc_thinking :: thinking_mode
  kc_tools :: "(tool_spec list \<times> string) option"
  kc_model_id :: "string option"
  kc_model_size_bytes :: "nat option"
  kc_tx :: nat

record infer_command =
  ic_task :: system_task
  ic_chat_id :: string
  ic_messages :: "message list"
  ic_gen_spec :: gen_spec
  ic_thinking :: thinking_mode
  ic_tx :: nat

definition emit :: "'w env \<Rightarrow> nat \<Rightarrow> controller_event \<Rightarrow> ('w, unit) ctl" where
  "emit env tx e = do { emit_must_deliver env tx e; State_Monad.return () }"

section \<open>Starting a turn\<close>

text \<open>
  \<^verbatim>\<open>attach_user_turn\<close>, in the two uses of it: on a runtime in hand, and on the one in the map.
  What it made of the runtime is returned even when it fails.\<close>

definition attach_user_turn ::
  "'w env \<Rightarrow> chat_runtime \<Rightarrow> gen_spec \<Rightarrow> bool \<Rightarrow> ('w, (exec_error + unit) \<times> chat_runtime) ctl" where
  "attach_user_turn env c spec microphone =
     (if microphone then do {
        capturing \<leftarrow> ask_world (ev_capturing env (cr_session c));
        (if \<not> capturing
         then State_Monad.return (Inl (FeatureUnsupported ''incremental microphone input''), c)
         else do {
           now \<leftarrow> world_op (ev_now env);
           State_Monad.return (Inr (), c\<lparr>cr_last_gen_spec := spec, cr_state := CapturingMicrophone, cr_last_used := now\<rparr>)
         })
      } else do {
        p \<leftarrow> world_op (ev_pull env (cr_session c) spec);
        (case p of
           Inl e \<Rightarrow> State_Monad.return (Inl e, c)
         | Inr puller \<Rightarrow> do {
             started \<leftarrow> world_op (ev_now env);
             now \<leftarrow> world_op (ev_now env);
             State_Monad.return (Inr (), (attach_generating_puller started puller spec c)\<lparr>cr_last_used := now\<rparr>)
           })
      })"

definition busy_event :: controller_event where
  "busy_event = EvError ''generation_error'' ''chat already has an active turn''"

text \<open>Making room: at the cap, the least recently used chat is ended.  One, and once.\<close>

definition evict_for_capacity :: "'w env \<Rightarrow> ('w, unit) ctl" where
  "evict_for_capacity env = do {
     config \<leftarrow> asks cs_config;
     cs \<leftarrow> asks cs_chats;
     when_do (cc_max_active_chats config \<le> length cs) (do {
       victim \<leftarrow> evict_lru;
       (case victim of None \<Rightarrow> State_Monad.return ()
        | Some c \<Rightarrow> terminate_runtime_owned env c (OutcomeCompleted Evicted))
     })
   }"

definition keepwarm_candidate :: "'w env \<Rightarrow> string \<Rightarrow> bool \<Rightarrow> gen_spec \<Rightarrow> ('w, string option) ctl" where
  "keepwarm_candidate env k microphone spec = do {
     enabled \<leftarrow> ask_world (ev_keepwarm_enabled env);
     cand \<leftarrow> ask_world (ev_kv_candidate env k);
     State_Monad.return (if \<not> microphone \<and> \<not> gs_require_full_context spec \<and> enabled then cand else None)
   }"

definition install_runtime :: "'w env \<Rightarrow> string \<Rightarrow> chat_runtime \<Rightarrow> ('w, unit) ctl" where
  "install_runtime env k c = do {
     old \<leftarrow> get_chat k;
     on_chats (chats_insert k c);
     (case old of None \<Rightarrow> State_Monad.return ()
      | Some d \<Rightarrow> terminate_runtime_owned env d (OutcomeCompleted Evicted))
   }"

text \<open>From the opened session on: hooks, first turn, acknowledgement.\<close>

definition adopt_session :: "'w env \<Rightarrow> start_command \<Rightarrow> gen_spec \<Rightarrow> bool \<Rightarrow> nat \<Rightarrow> ('w, unit) ctl" where
  "adopt_session env c spec microphone sid = do {
     dropped \<leftarrow> ask_world (ev_initial_dropped env sid);
     when_do (0 < dropped) (emit env (sc_tx c) (EvContextTruncated dropped));
     register_hook sid (sc_tx c);
     now \<leftarrow> world_op (ev_now env);
     (attached, runtime) \<leftarrow> attach_user_turn env
        \<lparr>cr_session = sid, cr_tx = sc_tx c, cr_workload = PrimaryChat, cr_last_used = now,
         cr_last_gen_spec = spec, cr_state = Idle, cr_health = default_health\<rparr> spec microphone;
     (case attached of
        Inl e \<Rightarrow> do {
          deregister_and_end_session env sid;
          emit env (cr_tx runtime) (backend_failure (ev_debug env) e)
        }
      | Inr _ \<Rightarrow> do {
          ack \<leftarrow> emit_must_deliver env (cr_tx runtime) (EvAccepted (length (sc_messages c)));
          (if microphone \<and> ack \<noteq> Sent
           then terminate_runtime_owned env runtime (OutcomeCompleted ReceiverDropped)
           else install_runtime env (sc_chat_id c) runtime)
        })
   }"

definition open_conversation :: "'w env \<Rightarrow> start_command \<Rightarrow> gen_spec \<Rightarrow> ('w, unit) ctl" where
  "open_conversation env c spec = do {
     evict_for_capacity env;
     maybe_wake_llm env;
     (let microphone = has_microphone (sc_messages c) in do {
       cache \<leftarrow> keepwarm_candidate env (sc_chat_id c) microphone spec;
       now \<leftarrow> world_op (ev_unix_now env);
       modify (\<lambda>s. s\<lparr>cs_last_llm_activity := now\<rparr>);
       opened \<leftarrow> world_op (ev_start_session env
          \<lparr>ss_strict_request = (if gs_require_full_context spec then Some spec else None),
           ss_messages = sc_messages c, ss_cache = cache, ss_thinking = sc_thinking c, ss_tools = sc_tools c\<rparr>);
       (case opened of
          Inl e \<Rightarrow> emit env (sc_tx c) (backend_failure (ev_debug env) e)
        | Inr sid \<Rightarrow> adopt_session env c spec microphone sid)
     })
   }"

definition start_chat :: "'w env \<Rightarrow> start_command \<Rightarrow> ('w, unit) ctl" where
  "start_chat env c = do {
     spec \<leftarrow> apply_generation_defaults env (sc_gen_spec c);
     present \<leftarrow> get_chat (sc_chat_id c);
     (case present of
        None \<Rightarrow> open_conversation env c spec
      | Some chat \<Rightarrow>
          if \<not> allows_user_pull_start (cr_state chat) then emit env (sc_tx c) busy_event
          else do {
            terminate_runtime env (sc_chat_id c) (OutcomeCompleted Evicted);
            open_conversation env c spec
          })
   }"

section \<open>Continuing a chat\<close>

definition set_chat :: "string \<Rightarrow> chat_runtime \<Rightarrow> ('w, unit) ctl" where
  "set_chat k c = on_chats (chats_update k (\<lambda>_. c))"

definition append_and_attach ::
  "'w env \<Rightarrow> continue_command \<Rightarrow> chat_runtime \<Rightarrow> bool \<Rightarrow> ('w, exec_error + unit) ctl" where
  "append_and_attach env c chat microphone = do {
     appended \<leftarrow> world_op (ev_append_messages env (cr_session chat) (kc_new_messages c));
     (case appended of
        Inl e \<Rightarrow> State_Monad.return (Inl e)
      | Inr dropped \<Rightarrow> do {
          when_do (0 < dropped) (emit env (kc_tx c) (EvContextTruncated dropped));
          spec \<leftarrow> apply_generation_defaults env (kc_gen_spec c);
          (attached, chat') \<leftarrow> attach_user_turn env chat spec microphone;
          set_chat (kc_chat_id c) chat';
          State_Monad.return attached
        })
   }"

text \<open>The turn's channel, for the chat and for its statistics.\<close>

definition redirect_chat :: "string \<Rightarrow> chat_runtime \<Rightarrow> ('w, unit) ctl" where
  "redirect_chat k chat = do {
     set_chat k chat;
     deregister_hook (cr_session chat);
     register_hook (cr_session chat) (cr_tx chat)
   }"

definition continue_resident :: "'w env \<Rightarrow> continue_command \<Rightarrow> chat_runtime \<Rightarrow> bool \<Rightarrow> ('w, unit) ctl" where
  "continue_resident env c chat microphone = do {
     (let chat' = chat\<lparr>cr_tx := kc_tx c\<rparr> in do {
       redirect_chat (kc_chat_id c) chat';
       prepared \<leftarrow> append_and_attach env c chat' microphone;
       (case prepared of
          Inr _ \<Rightarrow> do {
            ack \<leftarrow> emit_must_deliver env (kc_tx c) (EvAccepted (length (kc_new_messages c)));
            when_do (microphone \<and> ack \<noteq> Sent)
              (terminate_runtime env (kc_chat_id c) (OutcomeCompleted ReceiverDropped))
          }
        | Inl e \<Rightarrow> do {
            emit env (kc_tx c) (backend_failure (ev_debug env) e);
            when_do microphone (terminate_runtime env (kc_chat_id c) (OutcomeFailed StartSessionFailed))
          })
     })
   }"

definition rebuild_command :: "continue_command \<Rightarrow> start_command" where
  "rebuild_command c =
     \<lparr>sc_chat_id = kc_chat_id c, sc_messages = kc_transcript c @ kc_new_messages c, sc_gen_spec = kc_gen_spec c,
      sc_thinking = kc_thinking c, sc_model_id = kc_model_id c, sc_model_size_bytes = kc_model_size_bytes c,
      sc_tools = kc_tools c, sc_tx = kc_tx c\<rparr>"

definition continue_chat :: "'w env \<Rightarrow> continue_command \<Rightarrow> ('w, unit) ctl" where
  "continue_chat env c =
     (if gs_require_full_context (kc_gen_spec c)
      then emit env (kc_tx c)
        (EvError ''unsupported'' ''Full context requests require a fresh complete transcript.'')
      else do {
        present \<leftarrow> get_chat (kc_chat_id c);
        (let microphone = has_microphone (kc_new_messages c) in
         case present of
           None \<Rightarrow> start_chat env (rebuild_command c)
         | Some chat \<Rightarrow>
             if \<not> allows_user_pull_start (cr_state chat) \<or> (microphone \<and> is_paused (cr_state chat))
             then emit env (kc_tx c)
               (EvError ''generation_error'' ''chat cannot start a new turn in its current state'')
             else continue_resident env c chat microphone)
      })"

section \<open>The microphone\<close>

datatype 'a mic_result = MicDone 'a | MicError exec_error | MicPanic

definition microphone_panic :: exec_error where
  "microphone_panic = SessionPoisoned ''microphone prefill panicked''"

text \<open>After the work: whether the capture failed, the reply, and the end of a failed capture.\<close>

definition settle_microphone ::
  "'w env \<Rightarrow> string \<Rightarrow> 'a mic_result \<Rightarrow> ('w, exec_error + 'a) ctl" where
  "settle_microphone env k result = do {
     found \<leftarrow> get_chat k;
     capturing \<leftarrow> asks (\<lambda>s. case map_of (cs_chats s) k of None \<Rightarrow> False
        | Some c \<Rightarrow> ev_capturing env (cr_session c) (cs_world s));
     poisoned \<leftarrow> asks (\<lambda>s. case map_of (cs_chats s) k of None \<Rightarrow> False
        | Some c \<Rightarrow> ev_poisoned env (cr_session c) (cs_world s));
     (let failed = (case result of MicDone _ \<Rightarrow> False | MicError _ \<Rightarrow> \<not> capturing \<or> poisoned | MicPanic \<Rightarrow> True);
          reply = (case result of MicDone x \<Rightarrow> Inr x | MicError e \<Rightarrow> Inl e | MicPanic \<Rightarrow> Inl microphone_panic)
      in do {
        when_do (case result of MicDone _ \<Rightarrow> True | _ \<Rightarrow> False)
          (do { now \<leftarrow> world_op (ev_now env); on_chats (chats_update k (\<lambda>c. c\<lparr>cr_last_used := now\<rparr>)) });
        reply_dropped \<leftarrow> world_op (ev_caller_gone env);
        when_do (failed \<or> reply_dropped)
          (terminate_runtime env k
             (if failed then OutcomeFailed GenerationError else OutcomeCompleted ReceiverDropped));
        State_Monad.return reply
      })
   }"

definition handle_microphone_command ::
  "'w env \<Rightarrow> string \<Rightarrow> (chat_runtime \<Rightarrow> ('w, 'a mic_result) ctl) \<Rightarrow> ('w, exec_error + 'a) ctl" where
  "handle_microphone_command env k work = do {
     found \<leftarrow> get_chat k;
     (case found of
        None \<Rightarrow> State_Monad.return (Inl (InvalidArg ''no microphone capture is active''))
      | Some chat \<Rightarrow>
          if \<not> is_capturing_microphone (cr_state chat)
          then State_Monad.return (Inl (InvalidArg ''no microphone capture is active''))
          else do {
            config \<leftarrow> asks cs_config;
            now \<leftarrow> world_op (ev_now env);
            (if cc_generation_timeout config \<le> now - cr_last_used chat
             then do {
               terminate_runtime env k (OutcomeFailed Timeout);
               State_Monad.return (Inl microphone_timeout)
             }
             else do { result \<leftarrow> work chat; settle_microphone env k result })
          })
   }"

definition push_microphone :: "'w env \<Rightarrow> string \<Rightarrow> 32 word list \<Rightarrow> ('w, exec_error + nat) ctl" where
  "push_microphone env k samples =
     handle_microphone_command env k (\<lambda>chat. do {
       r \<leftarrow> world_op (ev_push_microphone env (cr_session chat) samples);
       State_Monad.return (case r of None \<Rightarrow> MicPanic | Some (Inl e) \<Rightarrow> MicError e | Some (Inr n) \<Rightarrow> MicDone n)
     })"

definition commit_work :: "'w env \<Rightarrow> string \<Rightarrow> chat_runtime \<Rightarrow> ('w, 32 word list mic_result) ctl" where
  "commit_work env k chat = do {
     r \<leftarrow> world_op (ev_commit_microphone env (cr_session chat));
     (case r of
        None \<Rightarrow> State_Monad.return MicPanic
      | Some (Inl e) \<Rightarrow> State_Monad.return (MicError e)
      | Some (Inr samples) \<Rightarrow> do {
          p \<leftarrow> world_op (ev_pull env (cr_session chat) (cr_last_gen_spec chat));
          (case p of
             Inl e \<Rightarrow> State_Monad.return (MicError e)
           | Inr puller \<Rightarrow> do {
               started \<leftarrow> world_op (ev_now env);
               set_chat k (attach_generating_puller started puller (cr_last_gen_spec chat) chat);
               State_Monad.return (MicDone samples)
             })
        })
   }"

definition commit_microphone :: "'w env \<Rightarrow> string \<Rightarrow> ('w, exec_error + 32 word list) ctl" where
  "commit_microphone env k = handle_microphone_command env k (commit_work env k)"

section \<open>Stop, pause, resume\<close>

definition stop_chat :: "'w env \<Rightarrow> string \<Rightarrow> ('w, unit) ctl" where
  "stop_chat env k = terminate_runtime env k (OutcomeCompleted StoppedByUser)"

definition pause_unsupported :: "chat_runtime \<Rightarrow> bool" where
  "pause_unsupported c \<longleftrightarrow> is_capturing_microphone (cr_state c)
     \<or> gs_require_full_context (cr_last_gen_spec c) \<or> gs_output_mode (cr_last_gen_spec c) \<noteq> TextOutput"

definition paused_runtime :: "chat_runtime \<Rightarrow> chat_runtime" where
  "paused_runtime c =
     (case cr_state c of
        Generating _ _ spec _ \<Rightarrow> c\<lparr>cr_last_gen_spec := spec, cr_state := Paused spec\<rparr>
      | _ \<Rightarrow> c)"

definition pause_chat :: "'w env \<Rightarrow> string \<Rightarrow> ('w, unit) ctl" where
  "pause_chat env k = do {
     found \<leftarrow> get_chat k;
     (case found of
        None \<Rightarrow> State_Monad.return ()
      | Some c \<Rightarrow>
          if pause_unsupported c then State_Monad.return ()
          else do {
            world_do (ev_pause env (cr_session c));
            set_chat k (paused_runtime c)
          })
   }"

definition resume_spec :: "chat_runtime \<Rightarrow> gen_spec" where
  "resume_spec c = (case cr_state c of Paused spec \<Rightarrow> spec | _ \<Rightarrow> cr_last_gen_spec c)"

definition resume_chat :: "'w env \<Rightarrow> string \<Rightarrow> ('w, unit) ctl" where
  "resume_chat env k = do {
     found \<leftarrow> get_chat k;
     (case found of
        None \<Rightarrow> State_Monad.return ()
      | Some c \<Rightarrow>
          if pause_unsupported c then State_Monad.return ()
          else do {
            world_do (ev_resume env (cr_session c));
            (if is_generating (cr_state c) then State_Monad.return ()
             else do {
               p \<leftarrow> world_op (ev_pull env (cr_session c) (resume_spec c));
               (case p of
                  Inl e \<Rightarrow> emit env (cr_tx c) (backend_failure (ev_debug env) e)
                | Inr puller \<Rightarrow> do {
                    started \<leftarrow> world_op (ev_now env);
                    set_chat k (attach_generating_puller started puller (resume_spec c) c)
                  })
             })
          })
   }"

section \<open>Background tasks\<close>

definition ephemeral_id :: "infer_command \<Rightarrow> string" where
  "ephemeral_id c = ic_chat_id c @ ''::'' @ task_label (ic_task c)"

definition unique_ephemeral_id :: "'w env \<Rightarrow> infer_command \<Rightarrow> ('w, string) ctl" where
  "unique_ephemeral_id env c = do {
     present \<leftarrow> get_chat (ephemeral_id c);
     (if present \<noteq> None then do {
        millis \<leftarrow> world_op (ev_unix_millis env);
        State_Monad.return (ephemeral_id c @ '':'' @ show_nat millis)
      } else State_Monad.return (ephemeral_id c))
   }"

definition adopt_ephemeral :: "'w env \<Rightarrow> infer_command \<Rightarrow> gen_spec \<Rightarrow> string \<Rightarrow> nat \<Rightarrow> ('w, unit) ctl" where
  "adopt_ephemeral env c spec k sid = do {
     register_hook sid (ic_tx c);
     p \<leftarrow> world_op (ev_pull env sid spec);
     (case p of
        Inl e \<Rightarrow> do {
          emit env (ic_tx c) (backend_failure (ev_debug env) e);
          deregister_and_end_session env sid
        }
      | Inr puller \<Rightarrow> do {
          now \<leftarrow> world_op (ev_now env);
          started \<leftarrow> world_op (ev_now env);
          on_chats (chats_insert k (attach_generating_puller started puller spec
             \<lparr>cr_session = sid, cr_tx = ic_tx c, cr_workload = SystemTask (ic_task c), cr_last_used = now,
              cr_last_gen_spec = spec, cr_state = Idle, cr_health = default_health\<rparr>))
        })
   }"

definition start_ephemeral :: "'w env \<Rightarrow> infer_command \<Rightarrow> ('w, unit) ctl" where
  "start_ephemeral env c = do {
     k \<leftarrow> unique_ephemeral_id env c;
     spec \<leftarrow> apply_generation_defaults env (ic_gen_spec c);
     opened \<leftarrow> world_op (ev_start_session env
        \<lparr>ss_strict_request = (if gs_require_full_context spec then Some spec else None),
         ss_messages = ic_messages c, ss_cache = None, ss_thinking = ic_thinking c, ss_tools = None\<rparr>);
     (case opened of
        Inl e \<Rightarrow> emit env (ic_tx c) (backend_failure (ev_debug env) e)
      | Inr sid \<Rightarrow> adopt_ephemeral env c spec k sid)
   }"

end
