(* ===== verification/ChatTick.thy ===== *)
theory ChatTick
  imports ChatCommands
begin

text \<open>
  One pass of the controller over the generating chats (\<^verbatim>\<open>tick_active_chats\<close> of
  \<^verbatim>\<open>src/controller/commands.rs\<close>), the commands as one type and the loop around both
  (\<^verbatim>\<open>dispatch_cmd\<close>; \<^verbatim>\<open>run_loop_with_engine\<close> of \<^verbatim>\<open>mod.rs\<close>).  \<^verbatim>\<open>Duration\<close>s are nanoseconds.
\<close>

section \<open>One chat\<close>

definition sat_inc32 :: "nat \<Rightarrow> nat" where
  "sat_inc32 n = min (n + 1) u32_max"

definition timed_out :: "nat \<Rightarrow> nat \<Rightarrow> chat_run_state \<Rightarrow> bool" where
  "timed_out timeout now s =
     (case generation_started_at s of None \<Rightarrow> False | Some t \<Rightarrow> timeout < now - t)"

definition timeout_event :: "nat \<Rightarrow> controller_event" where
  "timeout_event timeout =
     EvError ''timeout'' (''generation timed out after '' @ show_nat (timeout div 1000000000) @ ''s'')"

definition poisoned_event :: "string \<Rightarrow> controller_event" where
  "poisoned_event detail = EvError ''session_poisoned'' (''session state lost: '' @ detail)"

definition panic_event :: controller_event where
  "panic_event = EvError ''session_poisoned'' ''inference panic: session state lost; restart chat''"

text \<open>The closure \<^verbatim>\<open>emit\<close> of a tick; whether the receiver is gone is its result.\<close>

definition tick_emit :: "'w env \<Rightarrow> nat \<Rightarrow> controller_event \<Rightarrow> ('w, bool) ctl" where
  "tick_emit env tx e = do {
     r \<leftarrow> (if is_droppable e then emit_best_effort env tx e else emit_must_deliver env tx e);
     State_Monad.return (r = Disconnected)
   }"

text \<open>Speech is never dropped: a chunk the channel has no room for is offered again.\<close>

datatype speech_step = SpeechWaits | SpeechGone | SpeechClear

definition offer_speech :: "'w env \<Rightarrow> chat_runtime \<Rightarrow> ('w, chat_runtime \<times> speech_step) ctl" where
  "offer_speech env c =
     (case cr_state c of
        Generating p t g (Some chunk) \<Rightarrow> do {
          r \<leftarrow> try_send env (cr_tx c) (EvSpeech chunk);
          log_emit (cr_tx c) (EvSpeech chunk) r;
          (case r of
             Sent \<Rightarrow> do {
               now \<leftarrow> world_op (ev_now env);
               State_Monad.return (c\<lparr>cr_state := Generating p t g None, cr_last_used := now\<rparr>, SpeechClear)
             }
           | Full \<Rightarrow> State_Monad.return (c, SpeechWaits)
           | Disconnected \<Rightarrow> do {
               bump_disconnects;
               State_Monad.return (c\<lparr>cr_state := Completed ReceiverDropped\<rparr>, SpeechGone)
             })
        }
      | _ \<Rightarrow> State_Monad.return (c, SpeechClear))"

definition failed_health :: "bool \<Rightarrow> session_health \<Rightarrow> session_health" where
  "failed_health poisoned h =
     h\<lparr>sh_poisoned_by_backend := poisoned, sh_consecutive_errors := sat_inc32 (sh_consecutive_errors h)\<rparr>"

definition hold_speech :: "speech_chunk \<Rightarrow> chat_run_state \<Rightarrow> chat_run_state" where
  "hold_speech chunk s = (case s of Generating p t g _ \<Rightarrow> Generating p t g (Some chunk) | _ \<Rightarrow> s)"

definition apply_error :: "'w env \<Rightarrow> chat_runtime \<Rightarrow> exec_error \<Rightarrow> ('w, chat_runtime \<times> bool) ctl" where
  "apply_error env c e = do {
     poisoned \<leftarrow> ask_world (ev_poisoned env (cr_session c));
     (let h = failed_health poisoned (cr_health c) in do {
       dead \<leftarrow> tick_emit env (cr_tx c)
          (if is_unhealthy h then poisoned_event (ev_debug env e) else backend_failure (ev_debug env) e);
       when_do (is_unhealthy h) bump_poisonings;
       State_Monad.return
         (c\<lparr>cr_health := h, cr_state := Failed (if is_unhealthy h then PoisonedSession else GenerationError)\<rparr>, dead)
     })
   }"

text \<open>What one result of the puller does to its chat; the flag is \<^verbatim>\<open>receiver_dead\<close>.\<close>

definition apply_step :: "'w env \<Rightarrow> chat_runtime \<Rightarrow> next_result \<Rightarrow> ('w, chat_runtime \<times> bool) ctl" where
  "apply_step env c step =
     (case step of
        Panicked \<Rightarrow> do {
          dead \<leftarrow> tick_emit env (cr_tx c) panic_event;
          bump_poisonings;
          State_Monad.return
            (c\<lparr>cr_health := (cr_health c)\<lparr>sh_decode_panics := sat_inc32 (sh_decode_panics (cr_health c))\<rparr>,
               cr_state := Failed PoisonedSession\<rparr>, dead)
        }
      | Exhausted \<Rightarrow> do {
          dead \<leftarrow> tick_emit env (cr_tx c) EvStopped;
          State_Monad.return (c\<lparr>cr_state := Completed StoppedByUser\<rparr>, dead)
        }
      | Yielded (Inl e) \<Rightarrow> apply_error env c e
      | Yielded (Inr (TokenEv tok)) \<Rightarrow>
          (let c' = c\<lparr>cr_health := (cr_health c)\<lparr>sh_consecutive_errors := 0\<rparr>\<rparr> in
           if tk_text tok = [] then State_Monad.return (c', False)
           else do {
             dead \<leftarrow> tick_emit env (cr_tx c) (EvToken (tk_text tok));
             now \<leftarrow> world_op (ev_now env);
             State_Monad.return (c'\<lparr>cr_last_used := now\<rparr>, dead)
           })
      | Yielded (Inr EosEv) \<Rightarrow> do {
          dead \<leftarrow> tick_emit env (cr_tx c) EvEos;
          State_Monad.return (c\<lparr>cr_state := Completed EosReached\<rparr>, dead)
        }
      | Yielded (Inr StoppedEv) \<Rightarrow> do {
          dead \<leftarrow> tick_emit env (cr_tx c) EvStopped;
          State_Monad.return (c\<lparr>cr_state := Completed StoppedByUser\<rparr>, dead)
        }
      | Yielded (Inr (SpeechEv chunk)) \<Rightarrow>
          State_Monad.return (c\<lparr>cr_state := hold_speech chunk (cr_state c)\<rparr>, False)
      | Yielded (Inr (MediaBoundaryEv b)) \<Rightarrow> do {
          dead \<leftarrow> tick_emit env (cr_tx c) (EvMediaBoundary b);
          State_Monad.return (c, dead)
        }
      | Yielded (Inr (ToolCallEv call)) \<Rightarrow> do {
          dead \<leftarrow> tick_emit env (cr_tx c) (EvToolCall call);
          now \<leftarrow> world_op (ev_now env);
          State_Monad.return (c\<lparr>cr_last_used := now\<rparr>, dead)
        }
      | Yielded (Inr PausedEv) \<Rightarrow> State_Monad.return (c, False)
      | Yielded (Inr (SpecialEv _)) \<Rightarrow> State_Monad.return (c, False))"

definition tick_generate :: "'w env \<Rightarrow> chat_runtime \<Rightarrow> ('w, chat_runtime) ctl" where
  "tick_generate env c = do {
     (c1, speech) \<leftarrow> offer_speech env c;
     (if speech \<noteq> SpeechClear then State_Monad.return c1
      else do {
        step \<leftarrow> world_op (ev_next env (gen_puller (cr_state c1)));
        (c2, dead) \<leftarrow> apply_step env c1 step;
        State_Monad.return (c2\<lparr>cr_state := apply_receiver_disconnect_override dead (cr_state c2)\<rparr>)
      })
   }"

definition tick_timeout :: "'w env \<Rightarrow> chat_runtime \<Rightarrow> nat \<Rightarrow> ('w, chat_runtime) ctl" where
  "tick_timeout env c timeout = do {
     emit env (cr_tx c) (timeout_event timeout);
     bump_timeouts;
     State_Monad.return (c\<lparr>cr_state := Failed Timeout\<rparr>)
   }"

definition tick_chat :: "'w env \<Rightarrow> chat_runtime \<Rightarrow> nat \<Rightarrow> ('w, chat_runtime) ctl" where
  "tick_chat env c timeout = do {
     now \<leftarrow> world_op (ev_now env);
     (if timed_out timeout now (cr_state c) then tick_timeout env c timeout else tick_generate env c)
   }"

section \<open>The pass\<close>

text \<open>A finished system task is noted for removal, as every branch of the loop does.\<close>

definition tick_one :: "'w env \<Rightarrow> nat \<Rightarrow> string \<Rightarrow> ('w, string list) ctl" where
  "tick_one env timeout k = do {
     found \<leftarrow> get_chat k;
     (case found of
        None \<Rightarrow> State_Monad.return []
      | Some c \<Rightarrow>
          if \<not> should_tick c then State_Monad.return []
          else do {
            c' \<leftarrow> tick_chat env c timeout;
            set_chat k c';
            State_Monad.return (if should_cleanup (schedule_view_of c') then [k] else [])
          })
   }"

fun tick_all :: "'w env \<Rightarrow> nat \<Rightarrow> string list \<Rightarrow> ('w, string list) ctl" where
  "tick_all env timeout [] = State_Monad.return []"
| "tick_all env timeout (k # ks) = do {
     r \<leftarrow> tick_one env timeout k;
     rs \<leftarrow> tick_all env timeout ks;
     State_Monad.return (r @ rs)
   }"

definition remove_finished :: "'w env \<Rightarrow> string \<Rightarrow> ('w, unit) ctl" where
  "remove_finished env k = do {
     found \<leftarrow> get_chat k;
     (case found of
        None \<Rightarrow> State_Monad.return ()
      | Some c \<Rightarrow> do {
          on_chats (chats_remove k);
          terminate_runtime_owned env c (runtime_outcome_from_state c)
        })
   }"

definition maintenance_interval :: nat where
  "maintenance_interval = 250 * 1000000"

definition expired_captures :: "nat \<Rightarrow> nat \<Rightarrow> chats \<Rightarrow> string list" where
  "expired_captures timeout now cs =
     map fst (filter (\<lambda>(k, c). is_capturing_microphone (cr_state c) \<and> timeout \<le> now - cr_last_used c) cs)"

definition tick_maintenance :: "'w env \<Rightarrow> ('w, unit) ctl" where
  "tick_maintenance env = do {
     now \<leftarrow> world_op (ev_now env);
     due_since \<leftarrow> asks cs_last_maintenance;
     (if (case due_since of None \<Rightarrow> True | Some at \<Rightarrow> maintenance_interval \<le> now - at)
      then do {
        now' \<leftarrow> world_op (ev_now env);
        modify (\<lambda>s. s\<lparr>cs_last_maintenance := Some now'\<rparr>);
        config \<leftarrow> asks cs_config;
        now'' \<leftarrow> world_op (ev_now env);
        cs \<leftarrow> asks cs_chats;
        for_each (\<lambda>k. terminate_runtime env k (OutcomeFailed Timeout))
          (expired_captures (cc_generation_timeout config) now'' cs);
        run_residency_maintenance env
      }
      else State_Monad.return ())
   }"

definition tick_active_chats :: "'w env \<Rightarrow> ('w, unit) ctl" where
  "tick_active_chats env = do {
     tick_maintenance env;
     cs \<leftarrow> asks cs_chats;
     config \<leftarrow> asks cs_config;
     to_remove \<leftarrow> tick_all env (cc_generation_timeout config) (tick_order (views cs));
     for_each (remove_finished env) to_remove
   }"

section \<open>Commands and the loop\<close>

datatype control_flow = Proceed | Break

datatype command =
    LoadModelCmd load_command
  | ApplySettings load_settings
  | LoadEmbedder string "string option"
  | LoadReranker string
  | IsModelLoaded
  | UnloadModel
  | ReloadModel
  | IsChatLoaded string
  | GetControllerMetrics
  | GetRuntimeSnapshot
  | StartChat start_command
  | ContinueChat continue_command
  | PushMicrophone string "32 word list"
  | CommitMicrophone string
  | StopChat string
  | PauseChat string
  | ResumeChat string
  | SystemInfer infer_command
  | GenerateEmbeddings "string list"
  | Rerank string "string list"
  | AskEngine engine_query
  | GetObservabilitySnapshot
  | WarmModel string
  | Shutdown

text \<open>What the loop shows of itself; what it asks the engine for that is a string here.\<close>

record runtime_view =
  rv_chats :: "chat_snapshot list"
  rv_architecture :: string
  rv_file_bytes :: "nat option"
  rv_context :: string
  rv_offload :: string
  rv_grammar :: string

record policy_view =
  pv_max_active_chats :: nat
  pv_generation_timeout_ms :: nat
  pv_event_channel_capacity :: nat
  pv_tick_idle_ms :: nat
  pv_active_chats :: nat
  pv_caps :: string

record observability_view =
  ob_policy :: policy_view
  ob_metrics :: metrics
  ob_runtime :: runtime_view
  ob_residency :: residency_stats

datatype reply =
    NoReply
  | LoadReply "string + degraded list"
  | ResultReply "string + unit"
  | BoolReply bool
  | DoneReply
  | MetricsReply metrics
  | SnapshotReply runtime_view
  | ObservabilityReply observability_view
  | AnswerReply string
  | PushReply "exec_error + nat"
  | CommitReply "exec_error + 32 word list"
  | HelperReply "string option"

text \<open>Rows are sorted by chat id; \<^verbatim>\<open>str\<close> compares bytes.\<close>

fun bytes_le :: "string \<Rightarrow> string \<Rightarrow> bool" where
  "bytes_le [] t = True"
| "bytes_le (_ # _) [] = False"
| "bytes_le (a # s) (b # t) = ((of_char a :: nat) < of_char b \<or> (a = b \<and> bytes_le s t))"

fun insert_row :: "chat_snapshot \<Rightarrow> chat_snapshot list \<Rightarrow> chat_snapshot list" where
  "insert_row r [] = [r]"
| "insert_row r (x # xs) =
     (if bytes_le (cn_chat_id r) (cn_chat_id x) then r # x # xs else x # insert_row r xs)"

definition sorted_rows :: "nat \<Rightarrow> chats \<Rightarrow> chat_snapshot list" where
  "sorted_rows now cs = foldr insert_row (chat_rows now cs) []"

definition runtime_snapshot :: "'w env \<Rightarrow> nat \<Rightarrow> 'w cstate \<Rightarrow> runtime_view" where
  "runtime_snapshot env now s =
     (let ask = (\<lambda>q. ev_answer env q (cs_world s)) in
      \<lparr>rv_chats = sorted_rows now (cs_chats s), rv_architecture = ask QueryArchitecture,
       rv_file_bytes = cs_loaded_file_bytes s, rv_context = ask QueryContextWindow,
       rv_offload = ask QueryGpuOffload, rv_grammar = ask QueryGrammarOwnership\<rparr>)"

definition duration_ms :: "nat \<Rightarrow> nat" where
  "duration_ms d = (let ms = d div 1000000 in if ms \<le> u64_max then ms else u64_max)"

definition policy_snapshot :: "controller_config \<Rightarrow> nat \<Rightarrow> string \<Rightarrow> policy_view" where
  "policy_snapshot config active caps =
     \<lparr>pv_max_active_chats = cc_max_active_chats config,
      pv_generation_timeout_ms = duration_ms (cc_generation_timeout config),
      pv_event_channel_capacity = cc_event_channel_capacity config,
      pv_tick_idle_ms = duration_ms (cc_tick_idle config), pv_active_chats = active, pv_caps = caps\<rparr>"

definition observability_snapshot :: "'w env \<Rightarrow> nat \<Rightarrow> 'w cstate \<Rightarrow> observability_view" where
  "observability_snapshot env now s =
     \<lparr>ob_policy = policy_snapshot (cs_config s) (length (cs_chats s)) (cs_caps s), ob_metrics = cs_metrics s,
      ob_runtime = runtime_snapshot env now s, ob_residency = stats_from_inventory (cs_residency s)\<rparr>"

definition dispatch_cmd :: "'w env \<Rightarrow> command \<Rightarrow> ('w, control_flow \<times> reply) ctl" where
  "dispatch_cmd env cmd =
     (case cmd of
        LoadModelCmd c \<Rightarrow> do { r \<leftarrow> load_model env c; State_Monad.return (Proceed, LoadReply r) }
      | ApplySettings s \<Rightarrow> do { r \<leftarrow> apply_settings env s; State_Monad.return (Proceed, ResultReply r) }
      | LoadEmbedder p k \<Rightarrow> do { r \<leftarrow> load_embedder env p k; State_Monad.return (Proceed, ResultReply r) }
      | LoadReranker p \<Rightarrow> do { r \<leftarrow> load_reranker env p; State_Monad.return (Proceed, ResultReply r) }
      | IsModelLoaded \<Rightarrow> do { b \<leftarrow> ask_world (ev_is_model_loaded env); State_Monad.return (Proceed, BoolReply b) }
      | UnloadModel \<Rightarrow> do { unload_model env; State_Monad.return (Proceed, DoneReply) }
      | ReloadModel \<Rightarrow> do { r \<leftarrow> reload_with_admission env; State_Monad.return (Proceed, ResultReply r) }
      | IsChatLoaded k \<Rightarrow> do { c \<leftarrow> get_chat k; State_Monad.return (Proceed, BoolReply (c \<noteq> None)) }
      | GetControllerMetrics \<Rightarrow> do { m \<leftarrow> asks cs_metrics; State_Monad.return (Proceed, MetricsReply m) }
      | GetRuntimeSnapshot \<Rightarrow> do {
          now \<leftarrow> world_op (ev_now env);
          view \<leftarrow> asks (runtime_snapshot env now);
          State_Monad.return (Proceed, SnapshotReply view)
        }
      | GetObservabilitySnapshot \<Rightarrow> do {
          now \<leftarrow> world_op (ev_now env);
          view \<leftarrow> asks (observability_snapshot env now);
          State_Monad.return (Proceed, ObservabilityReply view)
        }
      | AskEngine q \<Rightarrow> do { a \<leftarrow> ask_world (ev_answer env q); State_Monad.return (Proceed, AnswerReply a) }
      | WarmModel d \<Rightarrow> do { world_do (ev_warm_model env d); State_Monad.return (Proceed, NoReply) }
      | StartChat c \<Rightarrow> do { start_chat env c; State_Monad.return (Proceed, NoReply) }
      | ContinueChat c \<Rightarrow> do { continue_chat env c; State_Monad.return (Proceed, NoReply) }
      | PushMicrophone k samples \<Rightarrow> do { r \<leftarrow> push_microphone env k samples; State_Monad.return (Proceed, PushReply r) }
      | CommitMicrophone k \<Rightarrow> do { r \<leftarrow> commit_microphone env k; State_Monad.return (Proceed, CommitReply r) }
      | StopChat k \<Rightarrow> do { stop_chat env k; State_Monad.return (Proceed, NoReply) }
      | PauseChat k \<Rightarrow> do { pause_chat env k; State_Monad.return (Proceed, NoReply) }
      | ResumeChat k \<Rightarrow> do { resume_chat env k; State_Monad.return (Proceed, NoReply) }
      | SystemInfer c \<Rightarrow> do { start_ephemeral env c; State_Monad.return (Proceed, NoReply) }
      | GenerateEmbeddings xs \<Rightarrow> do { r \<leftarrow> generate_embeddings env xs; State_Monad.return (Proceed, HelperReply r) }
      | Rerank q ds \<Rightarrow> do { r \<leftarrow> rerank_documents env q ds; State_Monad.return (Proceed, HelperReply r) }
      | Shutdown \<Rightarrow> State_Monad.return (Break, NoReply))"

text \<open>
  One turn of the loop.  With no resident chat the loop waits for a command and does not tick;
  otherwise it takes a command if one has arrived (\<open>None\<close> if not) and ticks.  \<open>True\<close> ends the loop.\<close>

definition loop_turn :: "'w env \<Rightarrow> command option \<Rightarrow> ('w, bool) ctl" where
  "loop_turn env received = do {
     cs \<leftarrow> asks cs_chats;
     (case received of
        None \<Rightarrow>
          if cs = [] then State_Monad.return False
          else do { tick_active_chats env; State_Monad.return False }
      | Some cmd \<Rightarrow> do {
          (flow, _) \<leftarrow> dispatch_cmd env cmd;
          (if flow = Break then State_Monad.return True
           else if cs = [] then State_Monad.return False
           else do { tick_active_chats env; State_Monad.return False })
        })
   }"

definition shut_down :: "'w env \<Rightarrow> ('w, unit) ctl" where
  "shut_down env = drain_chats env (OutcomeCompleted ControllerShutdown)"

fun run_loop :: "'w env \<Rightarrow> command option list \<Rightarrow> ('w, unit) ctl" where
  "run_loop env [] = shut_down env"
| "run_loop env (received # rest) = do {
     ended \<leftarrow> loop_turn env received;
     (if ended then shut_down env else run_loop env rest)
   }"

end
