(* ===== verification/ControlInv.thy ===== *)
theory ControlInv
  imports ChatTick
begin

text \<open>
  What the controller keeps true: each chat once, a session per chat and a chat per open session,
  and every session's statistics listener at the channel its chat currently answers on.  A session is
  open from the engine's starting it to the controller's ending it; \<open>opened\<close> is the set of them.  The
  set \<open>D\<close> holds the open sessions outside the map: those a step has in hand, and those whose chat was
  overwritten.  \<open>env_ok\<close> is what is assumed of the engine: a started session gets an id that no open
  session has, and no other operation opens a session or ends one for the controller.  A backend may
  clear its registry when it loads a model, as \<^verbatim>\<open>backend/llama/engine.rs\<close> does: the sessions it drops
  stay open for the controller until the controller ends them.
\<close>

section \<open>The engine's side\<close>

definition still :: "('w \<Rightarrow> 'v) \<Rightarrow> ('w \<Rightarrow> 'a \<times> 'w) \<Rightarrow> bool" where
  "still v f \<longleftrightarrow> (\<forall>w. v (snd (f w)) = v w)"

definition still_do :: "('w \<Rightarrow> 'v) \<Rightarrow> ('w \<Rightarrow> 'w) \<Rightarrow> bool" where
  "still_do v f \<longleftrightarrow> (\<forall>w. v (f w) = v w)"

definition clocks_still :: "'w env \<Rightarrow> ('w \<Rightarrow> 'v) \<Rightarrow> bool" where
  "clocks_still env v \<longleftrightarrow> quiet_env env v \<and> still v (ev_caller_gone env) \<and> still v (ev_now env)
     \<and> still v (ev_unix_now env) \<and> still v (ev_unix_millis env)"

definition turns_still :: "'w env \<Rightarrow> ('w \<Rightarrow> 'v) \<Rightarrow> bool" where
  "turns_still env v \<longleftrightarrow> (\<forall>i g. still v (ev_pull env i g)) \<and> (\<forall>p. still v (ev_next env p))
     \<and> (\<forall>i ms. still v (ev_append_messages env i ms)) \<and> (\<forall>i xs. still v (ev_push_microphone env i xs))
     \<and> (\<forall>i. still v (ev_commit_microphone env i)) \<and> (\<forall>i. still_do v (ev_pause env i))
     \<and> (\<forall>i. still_do v (ev_resume env i)) \<and> (\<forall>i. still_do v (ev_stop env i))"

definition models_still :: "'w env \<Rightarrow> ('w \<Rightarrow> 'v) \<Rightarrow> bool" where
  "models_still env v \<longleftrightarrow> (\<forall>i k. still_do v (ev_save_cache env i k)) \<and> still v (ev_kv_create_dir env)
     \<and> still_do v (ev_kv_enforce_budget env) \<and> (\<forall>r. still v (ev_load_model env r)) \<and> still_do v (ev_unload_model env)
     \<and> still v (ev_reload_model env) \<and> (\<forall>x. still v (ev_upload_settings env x)) \<and> still v (ev_governor env)
     \<and> (\<forall>d. still_do v (ev_warm_model env d))"

definition helpers_still :: "'w env \<Rightarrow> ('w \<Rightarrow> 'v) \<Rightarrow> bool" where
  "helpers_still env v \<longleftrightarrow> (\<forall>p k n. still v (ev_load_embedder env p k n)) \<and> (\<forall>p n. still v (ev_load_reranker env p n))
     \<and> still_do v (ev_unload_embedder env) \<and> still_do v (ev_unload_reranker env)
     \<and> (\<forall>xs. still v (ev_embed env xs)) \<and> (\<forall>q xs. still v (ev_rerank env q xs))"

definition env_ok :: "'w env \<Rightarrow> ('w \<Rightarrow> nat set) \<Rightarrow> bool" where
  "env_ok env opened \<longleftrightarrow>
     (\<forall>spec w. case fst (ev_start_session env spec w) of
        Inl _ \<Rightarrow> opened (snd (ev_start_session env spec w)) = opened w
      | Inr sid \<Rightarrow> sid \<notin> opened w \<and> opened (snd (ev_start_session env spec w)) = insert sid (opened w))
     \<and> (\<forall>sid w. opened (ev_end_session env sid w) = opened w - {sid})
     \<and> clocks_still env opened \<and> turns_still env opened \<and> models_still env opened \<and> helpers_still env opened"

lemma env_ok_quiet: "env_ok env opened \<Longrightarrow> quiet_env env opened"
  by (simp add: env_ok_def clocks_still_def)

lemma env_ok_end: "env_ok env opened \<Longrightarrow> opened (ev_end_session env sid w) = opened w - {sid}"
  by (simp add: env_ok_def)

lemma env_ok_start_fails:
  "env_ok env opened \<Longrightarrow> fst (ev_start_session env spec w) = Inl e \<Longrightarrow>
     opened (snd (ev_start_session env spec w)) = opened w"
  unfolding env_ok_def by (drule conjunct1, drule spec [of _ spec], drule spec [of _ w]) simp

lemma env_ok_start:
  "env_ok env opened \<Longrightarrow> fst (ev_start_session env spec w) = Inr sid \<Longrightarrow>
     sid \<notin> opened w \<and> opened (snd (ev_start_session env spec w)) = insert sid (opened w)"
  unfolding env_ok_def by (drule conjunct1, drule spec [of _ spec], drule spec [of _ w]) simp

lemmas still_defs = env_ok_def clocks_still_def turns_still_def models_still_def helpers_still_def

lemma env_ok_still:
  assumes "env_ok env opened"
  shows "still opened (ev_caller_gone env)" "still opened (ev_now env)" "still opened (ev_unix_now env)"
    "still opened (ev_unix_millis env)" "still opened (ev_pull env i g)" "still opened (ev_next env p)"
    "still opened (ev_append_messages env i ms)" "still opened (ev_push_microphone env i xs)"
    "still opened (ev_commit_microphone env i)" "still opened (ev_kv_create_dir env)"
    "still opened (ev_load_model env r)" "still opened (ev_reload_model env)" "still opened (ev_upload_settings env x)"
    "still opened (ev_governor env)" "still opened (ev_load_embedder env path kind n)"
    "still opened (ev_load_reranker env path n)" "still opened (ev_embed env ys)" "still opened (ev_rerank env q ys)"
    "still_do opened (ev_pause env i)" "still_do opened (ev_resume env i)" "still_do opened (ev_stop env i)"
    "still_do opened (ev_save_cache env i k)" "still_do opened (ev_kv_enforce_budget env)"
    "still_do opened (ev_unload_model env)" "still_do opened (ev_unload_embedder env)"
    "still_do opened (ev_unload_reranker env)" "still_do opened (ev_warm_model env d)"
  using assms by (simp_all add: still_defs)

section \<open>The map of chats\<close>

lemma chats_remove_set: "set (chats_remove k cs) = {(j, c). (j, c) \<in> set cs \<and> j \<noteq> k}"
  by (auto simp: chats_remove_def)

lemma chats_remove_keys: "map fst (chats_remove k cs) = filter (\<lambda>j. j \<noteq> k) (map fst cs)"
  by (induction cs) (auto simp: chats_remove_def)

lemma chats_remove_distinct: "distinct (map f cs) \<Longrightarrow> distinct (map f (chats_remove k cs))"
  by (simp add: chats_remove_def distinct_map_filter)

lemma chats_remove_absent: "k \<notin> fst ` set cs \<Longrightarrow> chats_remove k cs = cs"
  unfolding chats_remove_def by (rule filter_True) (auto simp: image_iff)

lemma chats_update_keys [simp]: "map fst (chats_update k f cs) = map fst cs"
  by (simp add: chats_update_def comp_def case_prod_beta)

lemma chats_update_set:
  "set (chats_update k f cs) = {(j, c). \<exists>d. (j, d) \<in> set cs \<and> c = (if j = k then f d else d)}"
  by (force simp: chats_update_def)

lemma map_of_chats_remove: "map_of (chats_remove k cs) j = (if j = k then None else map_of cs j)"
  by (induction cs) (auto simp: chats_remove_def)

lemma map_of_chats_update:
  "map_of (chats_update k f cs) j = (if j = k then map_option f (map_of cs j) else map_of cs j)"
  by (induction cs) (auto simp: chats_update_def)

definition sessions :: "chats \<Rightarrow> nat set" where
  "sessions cs = (\<lambda>(k, c). cr_session c) ` set cs"

lemma sessions_simps [simp]:
  "sessions [] = {}" "sessions ((k, c) # cs) = insert (cr_session c) (sessions cs)"
  by (simp_all add: sessions_def)

definition keyed :: "chats \<Rightarrow> bool" where
  "keyed cs \<longleftrightarrow> distinct (map fst cs) \<and> distinct (map (\<lambda>(k, c). cr_session c) cs)"

lemma keyed_remove: "keyed cs \<Longrightarrow> keyed (chats_remove k cs)"
  by (simp add: keyed_def chats_remove_distinct)

lemma keyed_session_unique:
  "keyed cs \<Longrightarrow> (j, c) \<in> set cs \<Longrightarrow> (k, d) \<in> set cs \<Longrightarrow> cr_session c = cr_session d \<Longrightarrow> j = k \<and> c = d"
  unfolding keyed_def distinct_map inj_on_def by force

lemma sessions_remove:
  assumes "keyed cs" "map_of cs k = Some c"
  shows "sessions (chats_remove k cs) = sessions cs - {cr_session c}" "cr_session c \<in> sessions cs"
proof -
  have c: "(k, c) \<in> set cs" using assms(2) by (rule map_of_SomeD)
  show "cr_session c \<in> sessions cs" using c by (force simp: sessions_def)
  show "sessions (chats_remove k cs) = sessions cs - {cr_session c}"
  proof (intro equalityI subsetI)
    fix i assume "i \<in> sessions (chats_remove k cs)"
    then obtain j d where "(j, d) \<in> set cs" "j \<noteq> k" "i = cr_session d" by (auto simp: sessions_def chats_remove_set)
    then show "i \<in> sessions cs - {cr_session c}"
      using keyed_session_unique [OF assms(1) c] by (force simp: sessions_def)
  next
    fix i assume "i \<in> sessions cs - {cr_session c}"
    then obtain j d where d: "(j, d) \<in> set cs" "i = cr_session d" "i \<noteq> cr_session c" by (auto simp: sessions_def)
    have "j \<noteq> k"
    proof
      assume "j = k"
      then have "d = c" using assms(1) d(1) c unfolding keyed_def by (metis eq_key_imp_eq_value)
      with d show False by simp
    qed
    with d show "i \<in> sessions (chats_remove k cs)" by (force simp: sessions_def chats_remove_set)
  qed
qed

text \<open>An update that leaves a chat its session changes no session.\<close>

lemma sessions_update:
  assumes "\<And>c. map_of cs k = Some c \<Longrightarrow> cr_session (f c) = cr_session c" "distinct (map fst cs)"
  shows "map (\<lambda>(k, c). cr_session c) (chats_update k f cs) = map (\<lambda>(k, c). cr_session c) cs"
  unfolding chats_update_def
  using assms by (auto simp: comp_def)

section \<open>The invariant\<close>

definition chat_inv :: "('w \<Rightarrow> nat set) \<Rightarrow> nat set \<Rightarrow> 'w cstate \<Rightarrow> bool" where
  "chat_inv opened D s \<longleftrightarrow> keyed (cs_chats s) \<and> sessions (cs_chats s) \<inter> D = {}
     \<and> opened (cs_world s) = sessions (cs_chats s) \<union> D
     \<and> list_all (\<lambda>(k, c). cs_hooks s (cr_session c) = Some (cr_tx c)) (cs_chats s)
     \<and> dom (cs_hooks s) \<subseteq> sessions (cs_chats s) \<union> D"

text \<open>Finished system tasks are only those on the list.\<close>

definition tidy_but :: "string set \<Rightarrow> 'w cstate \<Rightarrow> bool" where
  "tidy_but K s \<longleftrightarrow> list_all (\<lambda>(k, c). should_cleanup (schedule_view_of c) \<longrightarrow> k \<in> K) (cs_chats s)"

lemma chat_inv_cong:
  "same_core s t \<Longrightarrow> opened (cs_world t) = opened (cs_world s) \<Longrightarrow> chat_inv opened D t \<longleftrightarrow> chat_inv opened D s"
  by (simp add: chat_inv_def same_core_def)

lemma tidy_cong: "same_core s t \<Longrightarrow> tidy_but K t \<longleftrightarrow> tidy_but K s"
  by (simp add: tidy_but_def same_core_def)

text \<open>Both at once, for the steps that change neither map nor hooks nor sessions.\<close>

definition good :: "('w \<Rightarrow> nat set) \<Rightarrow> nat set \<Rightarrow> string set \<Rightarrow> 'w cstate \<Rightarrow> bool" where
  "good opened D K s \<longleftrightarrow> chat_inv opened D s \<and> tidy_but K s"

lemma good_cong:
  "same_core s t \<Longrightarrow> opened (cs_world t) = opened (cs_world s) \<Longrightarrow> good opened D K t \<longleftrightarrow> good opened D K s"
  by (simp add: good_def chat_inv_cong [of s t opened] tidy_cong [of s t])

lemma good_simps [simp]:
  "good opened D K (s\<lparr>cs_metrics := m\<rparr>) \<longleftrightarrow> good opened D K s"
  "good opened D K (s\<lparr>cs_log := l\<rparr>) \<longleftrightarrow> good opened D K s"
  "good opened D K (s\<lparr>cs_residency := v\<rparr>) \<longleftrightarrow> good opened D K s"
  "good opened D K (s\<lparr>cs_caps := x\<rparr>) \<longleftrightarrow> good opened D K s"
  "good opened D K (s\<lparr>cs_loaded_file_bytes := b\<rparr>) \<longleftrightarrow> good opened D K s"
  "good opened D K (s\<lparr>cs_last_llm_activity := t\<rparr>) \<longleftrightarrow> good opened D K s"
  "good opened D K (s\<lparr>cs_idle_unloaded := u\<rparr>) \<longleftrightarrow> good opened D K s"
  "good opened D K (s\<lparr>cs_last_maintenance := q\<rparr>) \<longleftrightarrow> good opened D K s"
  by (simp_all add: good_def chat_inv_def tidy_but_def)

lemma good_world: "opened w = opened (cs_world s) \<Longrightarrow> good opened D K (s\<lparr>cs_world := w\<rparr>) \<longleftrightarrow> good opened D K s"
  by (simp add: good_def chat_inv_def tidy_but_def)

lemma keeps_world_op: "still opened f \<Longrightarrow> keeps (good opened D K) (world_op f)"
  by (rule keepsI) (simp add: wp_simps good_world still_def)

lemma keeps_world_do: "still_do opened f \<Longrightarrow> keeps (good opened D K) (world_do f)"
  by (rule keepsI) (simp add: wp_simps good_world still_do_def)

lemma keeps_on_metrics: "keeps (good opened D K) (on_metrics f)"
  by (rule keepsI) (simp add: wp_simps)

lemmas bump_defs = bump_dropped_token_def bump_dropped_must_def bump_disconnects_def bump_timeouts_def
  bump_poisonings_def bump_evictions_def bump_reload_terminations_def

lemma keeps_bumps:
  "keeps (good opened D K) bump_disconnects" "keeps (good opened D K) bump_timeouts"
  "keeps (good opened D K) bump_poisonings" "keeps (good opened D K) bump_evictions"
  "keeps (good opened D K) bump_reload_terminations"
  by (simp_all add: bump_defs keeps_on_metrics)

lemma keeps_modify_fields:
  "keeps (good opened D K) (modify (\<lambda>s. s\<lparr>cs_residency := f s\<rparr>))"
  "keeps (good opened D K) (modify (\<lambda>s. s\<lparr>cs_loaded_file_bytes := g s\<rparr>))"
  "keeps (good opened D K) (modify (\<lambda>s. s\<lparr>cs_last_llm_activity := h s\<rparr>))"
  "keeps (good opened D K) (modify (\<lambda>s. s\<lparr>cs_idle_unloaded := i s\<rparr>))"
  "keeps (good opened D K) (modify (\<lambda>s. s\<lparr>cs_last_maintenance := j s\<rparr>))"
  "keeps (good opened D K) (modify (\<lambda>s. s\<lparr>cs_caps := k s, cs_loaded_file_bytes := g s\<rparr>))"
  "keeps (good opened D K) (modify (\<lambda>s. s\<lparr>cs_loaded_file_bytes := g s, cs_idle_unloaded := i s,
     cs_last_llm_activity := h s\<rparr>))"
  by (rule keepsI; simp add: wp_simps)+

lemma keeps_emit_must:
  assumes "env_ok env opened"
  shows "keeps (good opened D K) (emit_must_deliver env tx e)"
  by (rule keepsI, rule wp_emit_must_deliver [OF env_ok_quiet [OF assms]]) (simp add: good_cong)

lemma keeps_emit_best:
  assumes "env_ok env opened"
  shows "keeps (good opened D K) (emit_best_effort env tx e)"
  by (rule keepsI, rule wp_emit_best_effort [OF env_ok_quiet [OF assms]]) (simp add: good_cong)

lemma keeps_emit: "env_ok env opened \<Longrightarrow> keeps (good opened D K) (emit env tx e)"
  unfolding emit_def by (intro keeps_rules keeps_emit_must)

section \<open>Ending runtimes\<close>

lemma valid_keeps: "keeps I m \<Longrightarrow> (\<And>x s. I s \<Longrightarrow> Q x s) \<Longrightarrow> valid I m Q"
  unfolding keeps_def by (rule valid_post)

lemma valid_keeps_bind:
  "keeps I m \<Longrightarrow> (\<And>x. valid I (f x) Q) \<Longrightarrow> valid I (State_Monad.bind m f) Q"
  unfolding keeps_def by (rule valid_bind)

lemma valid_deregister_and_end:
  assumes ok: "env_ok env opened" and new: "sid \<notin> D"
  shows "valid (good opened (insert sid D) K) (deregister_and_end_session env sid) (\<lambda>_. good opened D K)"
proof (rule validI)
  fix s assume g: "good opened (insert sid D) K s"
  then have sid: "sid \<notin> sessions (cs_chats s)" by (simp add: good_def chat_inv_def)
  then have other: "cr_session c \<noteq> sid" if "(k, c) \<in> set (cs_chats s)" for k c
    using that by (force simp: sessions_def)
  have opened: "sessions (cs_chats s) \<union> insert sid D - {sid} = sessions (cs_chats s) \<union> D"
    using sid new by auto
  have hooks: "dom ((cs_hooks s)(sid := None)) \<subseteq> sessions (cs_chats s) \<union> D"
    using g by (auto simp: good_def chat_inv_def)
  have answers: "list_all (\<lambda>(k, c). ((cs_hooks s)(sid := None)) (cr_session c) = Some (cr_tx c)) (cs_chats s)"
    using g other unfolding good_def chat_inv_def list_all_iff by fastforce
  show "wp (deregister_and_end_session env sid) (\<lambda>_. good opened D K) s"
    using g opened hooks answers
    by (simp add: deregister_and_end_session_def deregister_hook_def wp_simps good_def chat_inv_def
        tidy_but_def env_ok_end [OF ok])
qed

lemma valid_terminate_owned:
  assumes ok: "env_ok env opened" and new: "cr_session c \<notin> D"
  shows "valid (good opened (insert (cr_session c) D) K) (terminate_runtime_owned env c outcome) (\<lambda>_. good opened D K)"
proof -
  have same: "cr_session (settle outcome c) = cr_session c" by (simp add: settle_def)
  show ?thesis
    unfolding terminate_runtime_owned_def finalize_runtime_session_def same
    by (intro valid_keeps_bind keeps_when keeps_bumps keeps_world_do keeps_emit_must ok env_ok_still
        valid_deregister_and_end new)
qed

lemma good_remove:
  assumes "good opened D K s" "map_of (cs_chats s) k = Some c"
  shows "good opened (insert (cr_session c) D) K (s\<lparr>cs_chats := chats_remove k (cs_chats s)\<rparr>)"
    "cr_session c \<notin> D"
proof -
  have i: "chat_inv opened D s" and t: "tidy_but K s" using assms(1) by (simp_all add: good_def)
  have keyed: "keyed (cs_chats s)" using i by (simp add: chat_inv_def)
  note ses = sessions_remove [OF keyed assms(2)]
  show new: "cr_session c \<notin> D" using i ses(2) by (auto simp: chat_inv_def)
  have sub: "set (chats_remove k (cs_chats s)) \<subseteq> set (cs_chats s)" by (auto simp: chats_remove_set)
  show "good opened (insert (cr_session c) D) K (s\<lparr>cs_chats := chats_remove k (cs_chats s)\<rparr>)"
    using i t ses keyed_remove [OF keyed, of k] sub
    by (auto simp: good_def chat_inv_def tidy_but_def list_all_iff)
qed

lemma keeps_terminate_runtime:
  assumes ok: "env_ok env opened"
  shows "keeps (good opened D K) (terminate_runtime env k outcome)"
proof (rule keepsI)
  fix s assume g: "good opened D K s"
  show "wp (terminate_runtime env k outcome) (\<lambda>_. good opened D K) s"
  proof (cases "map_of (cs_chats s) k")
    case None
    with g show ?thesis by (simp add: terminate_runtime_def wp_simps)
  next
    case (Some c)
    note rem = good_remove [OF g Some]
    show ?thesis
      using validD [OF valid_terminate_owned [OF ok rem(2)] rem(1)] Some
      by (simp add: terminate_runtime_def wp_simps)
  qed
qed

text \<open>The sessions of a list of chats, in hand all at once.\<close>

lemma valid_end_all:
  assumes ok: "env_ok env opened" and "keyed cs" "sessions cs \<inter> D = {}"
  shows "valid (good opened (sessions cs \<union> D) K) (for_each (\<lambda>(k, c). terminate_runtime_owned env c outcome) cs)
    (\<lambda>_. good opened D K)"
  using assms(2,3)
proof (induction cs)
  case Nil
  then show ?case by (simp add: valid_return)
next
  case (Cons kc cs)
  obtain k c where kc: "kc = (k, c)" by (cases kc)
  have keyed: "keyed cs" and c: "cr_session c \<notin> sessions cs"
    using Cons.prems(1) by (auto simp: kc keyed_def sessions_def)
  have D: "cr_session c \<notin> sessions cs \<union> D" "sessions cs \<inter> D = {}" using c Cons.prems(2) by (auto simp: kc)
  have "valid (good opened (insert (cr_session c) (sessions cs \<union> D)) K) (terminate_runtime_owned env c outcome)
      (\<lambda>_. good opened (sessions cs \<union> D) K)"
    by (rule valid_terminate_owned [OF ok D(1)])
  from valid_bind [OF this] Cons.IH [OF keyed D(2)]
  show ?case by (simp add: kc)
qed

lemma keeps_drain:
  assumes ok: "env_ok env opened"
  shows "valid (good opened D K) (drain_chats env outcome) (\<lambda>_ s. good opened D {} s)"
proof (rule validI)
  fix s assume g: "good opened D K s"
  let ?t = "s\<lparr>cs_chats := []\<rparr>"
  have k: "keyed (cs_chats s)" "sessions (cs_chats s) \<inter> D = {}" using g by (simp_all add: good_def chat_inv_def)
  have "good opened (sessions (cs_chats s) \<union> D) {} ?t"
    using g by (auto simp: good_def chat_inv_def tidy_but_def keyed_def)
  from validD [OF valid_end_all [OF ok k] this]
  show "wp (drain_chats env outcome) (\<lambda>_ s. good opened D {} s) s"
    by (simp add: drain_chats_def wp_simps)
qed

text \<open>Ending runtimes leaves the map as it is.\<close>

definition chats_are :: "chats \<Rightarrow> 'w cstate \<Rightarrow> bool" where
  "chats_are cs s \<longleftrightarrow> cs_chats s = cs"

lemma keeps_chats_emit: "keeps (chats_are cs) (emit_must_deliver env tx e)"
  by (rule keepsI, rule wp_emit_must_deliver [where v = "\<lambda>_. ()"])
    (simp_all add: quiet_env_def chats_are_def same_core_def)

lemma keeps_chats_terminate: "keeps (chats_are cs) (terminate_runtime_owned env c outcome)"
proof -
  have "keeps (chats_are cs) (on_metrics f)" "keeps (chats_are cs) (world_do g)"
    "keeps (chats_are cs) (deregister_hook sid)" for f g sid
    by (rule keepsI; simp add: wp_simps chats_are_def deregister_hook_def)+
  then show ?thesis
    unfolding terminate_runtime_owned_def finalize_runtime_session_def deregister_and_end_session_def bump_defs
    by (intro keeps_rules keeps_chats_emit)
qed

lemma drain_empties: "valid (\<lambda>_. True) (drain_chats env outcome) (\<lambda>_. chats_are [])"
proof (rule validI)
  fix s
  have "keeps (chats_are []) (for_each (\<lambda>(k, c). terminate_runtime_owned env c outcome) cs)" for cs
    by (rule keeps_for_each) (auto intro: keeps_chats_terminate)
  from keepsD [OF this, of "s\<lparr>cs_chats := []\<rparr>"] show "wp (drain_chats env outcome) (\<lambda>_. chats_are []) s"
    by (simp add: drain_chats_def wp_simps chats_are_def)
qed

section \<open>Models\<close>

lemma keeps_pair: "(\<And>x y. keeps I (f x y)) \<Longrightarrow> keeps I (case p of (x, y) \<Rightarrow> f x y)"
  by (cases p) simp

lemma keeps_let: "(\<And>x. keeps I (f x)) \<Longrightarrow> keeps I (Let x f)"
  by simp

lemmas keep_steps = keeps_rules keeps_pair keeps_let

lemma keeps_for_pairs:
  "(\<And>k c. keeps I (f k c)) \<Longrightarrow> keeps I (for_each (\<lambda>(k, c). f k c) cs)"
  by (rule keeps_for_each) auto

lemma keeps_save_all:
  assumes ok: "env_ok env opened"
  shows "keeps (good opened D K) (save_all_chat_kv env)"
  unfolding save_all_chat_kv_def
  by (intro keep_steps keeps_for_pairs keeps_world_op keeps_world_do env_ok_still [OF ok])

lemma keeps_residency:
  "keeps (good opened D K) (unload_residency k)" "keeps (good opened D K) (admit_runtime r g)"
  "keeps (good opened D K) remember_unloaded"
proof -
  show u: "keeps (good opened D K) (unload_residency k)" for k
    unfolding unload_residency_def by (intro keep_steps keeps_modify_fields)
  show "keeps (good opened D K) (admit_runtime r g)"
    unfolding admit_runtime_def by (intro keep_steps keeps_modify_fields)
  show "keeps (good opened D K) remember_unloaded"
    unfolding remember_unloaded_def by (intro keep_steps keeps_modify_fields u)
qed

lemma keeps_register_load:
  assumes ok: "env_ok env opened"
  shows "keeps (good opened D K) (register_load env name mb g)"
  unfolding register_load_def
  by (intro keep_steps keeps_residency keeps_world_op keeps_world_do env_ok_still [OF ok])

lemma keeps_engine_load:
  assumes ok: "env_ok env opened"
  shows "keeps (good opened D K) (engine_load env req s mb g)"
  unfolding engine_load_def
  by (intro keep_steps keeps_register_load keeps_world_op ok env_ok_still [OF ok])

lemma keeps_attempt_load:
  assumes ok: "env_ok env opened"
  shows "keeps (good opened D K) (attempt_load env c mmproj s seen)"
  unfolding attempt_load_def unload_for_swap_def
  by (intro keep_steps keeps_engine_load keeps_residency keeps_world_op keeps_world_do ok env_ok_still [OF ok])

lemma keeps_ladder:
  assumes ok: "env_ok env opened"
  shows "keeps (good opened D K) (load_ladder env c n idx gs history r seen)"
proof (induction gs arbitrary: idx history r seen)
  case Nil
  show ?case by (simp add: keeps_return)
next
  case (Cons g gs)
  show ?case unfolding load_ladder.simps
    by (intro keep_steps keeps_attempt_load ok Cons.IH)
qed

lemma keeps_adopt_model:
  assumes ok: "env_ok env opened"
  shows "keeps (good opened D {}) (adopt_model env seen)"
proof (rule keepsI)
  fix s assume g: "good opened D {} s"
  have "wp (drain_chats env (OutcomeCompleted ModelReloaded)) (\<lambda>_ t. good opened D {} t \<and> chats_are [] t) s"
    using validD [OF keeps_drain [OF ok] g] validD [OF drain_empties TrueI] unfolding wp_def by blast
  then show "wp (adopt_model env seen) (\<lambda>_. good opened D {}) s"
    unfolding adopt_model_def wp_bind
    by (rule wp_mono) (simp add: wp_simps good_def chat_inv_def tidy_but_def chats_are_def keyed_def)
qed

lemma keeps_load_model:
  assumes ok: "env_ok env opened"
  shows "keeps (good opened D {}) (load_model env c)"
  unfolding load_model_def Let_def
  by (intro keep_steps keeps_save_all keeps_ladder keeps_adopt_model ok)

lemma keeps_reload:
  assumes ok: "env_ok env opened"
  shows "keeps (good opened D K) (reload_with_admission env)"
  unfolding reload_with_admission_def
  by (intro keep_steps keeps_residency keeps_modify_fields keeps_world_op keeps_world_do env_ok_still [OF ok])

lemma keeps_wake:
  assumes ok: "env_ok env opened"
  shows "keeps (good opened D K) (maybe_wake_llm env)"
  unfolding maybe_wake_llm_def by (intro keep_steps keeps_reload ok)

lemma tidy_weaken: "good opened D {} s \<Longrightarrow> good opened D K s"
  by (auto simp: good_def tidy_but_def list_all_iff)

lemma keeps_drain_any: "env_ok env opened \<Longrightarrow> keeps (good opened D K) (drain_chats env outcome)"
  unfolding keeps_def by (rule valid_post [OF keeps_drain]) (auto intro: tidy_weaken)

lemma keeps_idle_unload:
  assumes ok: "env_ok env opened"
  shows "keeps (good opened D K) (maybe_idle_unload_llm env)"
  unfolding maybe_idle_unload_llm_def
  by (intro keep_steps keeps_save_all keeps_drain_any keeps_residency keeps_modify_fields keeps_world_op
      keeps_world_do ok env_ok_still [OF ok])

lemma keeps_unload_helper:
  assumes ok: "env_ok env opened"
  shows "keeps (good opened D K) (unload_evicted_helper env k)"
  unfolding unload_evicted_helper_def
  by (cases k) (auto intro!: keeps_return keeps_world_do env_ok_still [OF ok])

lemma keeps_maintenance:
  assumes ok: "env_ok env opened"
  shows "keeps (good opened D K) (run_residency_maintenance env)"
  unfolding run_residency_maintenance_def
  by (intro keep_steps keeps_for_each keeps_unload_helper keeps_idle_unload keeps_modify_fields keeps_world_op ok
      env_ok_still [OF ok])

lemma keeps_unload_model:
  assumes ok: "env_ok env opened"
  shows "keeps (good opened D K) (unload_model env)"
  unfolding unload_model_def
  by (intro keep_steps keeps_for_each keeps_terminate_runtime keeps_residency keeps_world_do ok env_ok_still [OF ok])

lemma keeps_helpers:
  assumes ok: "env_ok env opened"
  shows "keeps (good opened D K) (load_embedder env p kind)" "keeps (good opened D K) (load_reranker env p)"
    "keeps (good opened D K) (apply_settings env x)" "keeps (good opened D K) (generate_embeddings env ys)"
    "keeps (good opened D K) (rerank_documents env q ys)"
  unfolding load_embedder_def load_reranker_def load_helper_def apply_settings_def generate_embeddings_def
    rerank_documents_def
  by (intro keep_steps keeps_residency keeps_modify_fields keeps_world_op keeps_world_do env_ok_still [OF ok])+

section \<open>Changing one chat\<close>

text \<open>A chat replaced under its key, with its session and channel kept.\<close>

lemma good_set_chat:
  assumes g: "good opened D K s" and c: "map_of (cs_chats s) k = Some c"
    and same: "cr_session c' = cr_session c" "cr_tx c' = cr_tx c"
    and tidy: "should_cleanup (schedule_view_of c') \<Longrightarrow> should_cleanup (schedule_view_of c) \<or> k \<in> K"
  shows "good opened D K (s\<lparr>cs_chats := chats_update k (\<lambda>_. c') (cs_chats s)\<rparr>)"
proof -
  let ?cs = "chats_update k (\<lambda>_. c') (cs_chats s)"
  have keyed: "keyed (cs_chats s)" using g by (simp add: good_def chat_inv_def)
  then have dist: "distinct (map fst (cs_chats s))" by (simp add: keyed_def)
  have ses: "map (\<lambda>(k, c). cr_session c) ?cs = map (\<lambda>(k, c). cr_session c) (cs_chats s)"
    using c same(1) dist by (intro sessions_update) simp_all
  have set_ses: "sessions ?cs = sessions (cs_chats s)"
    using arg_cong [OF ses, of set] by (simp add: sessions_def)
  have keyed': "keyed ?cs" using keyed ses by (simp add: keyed_def)
  have elem: "(j, d) \<in> set ?cs \<Longrightarrow> (j, d) \<in> set (cs_chats s) \<or> j = k \<and> d = c'" for j d
    by (auto simp: chats_update_set split: if_splits)
  have hook: "cs_hooks s (cr_session c) = Some (cr_tx c)"
    and old: "should_cleanup (schedule_view_of c) \<Longrightarrow> k \<in> K"
    using g map_of_SomeD [OF c] by (auto simp: good_def chat_inv_def tidy_but_def list_all_iff)
  show ?thesis
    using g keyed' set_ses elem hook same tidy old
    unfolding good_def chat_inv_def tidy_but_def list_all_iff by fastforce
qed

text \<open>While a step works on a chat in hand, the map still holds it.\<close>

definition holds :: "('w \<Rightarrow> nat set) \<Rightarrow> nat set \<Rightarrow> string set \<Rightarrow> string \<Rightarrow> chat_runtime \<Rightarrow> 'w cstate \<Rightarrow> bool" where
  "holds opened D K k c s \<longleftrightarrow> good opened D K s \<and> map_of (cs_chats s) k = Some c"

lemma holds_cong:
  "same_core s t \<Longrightarrow> opened (cs_world t) = opened (cs_world s) \<Longrightarrow> holds opened D K k c s \<Longrightarrow> holds opened D K k c t"
  unfolding holds_def using good_cong [of s t opened D K] by (simp add: same_core_def)

lemma keeps_holds:
  "still opened f \<Longrightarrow> keeps (holds opened D K k c) (world_op f)"
  "still_do opened g \<Longrightarrow> keeps (holds opened D K k c) (world_do g)"
  "keeps (holds opened D K k c) (on_metrics h)"
  "env_ok env opened \<Longrightarrow> keeps (holds opened D K k c) (emit_must_deliver env tx e)"
  "env_ok env opened \<Longrightarrow> keeps (holds opened D K k c) (emit_best_effort env tx e)"
proof -
  show "keeps (holds opened D K k c) (world_op f)" if "still opened f"
    using that by (intro keepsI) (simp add: wp_simps holds_def good_world still_def)
  show "keeps (holds opened D K k c) (world_do g)" if "still_do opened g"
    using that by (intro keepsI) (simp add: wp_simps holds_def good_world still_do_def)
  show "keeps (holds opened D K k c) (on_metrics h)"
    by (rule keepsI) (simp add: wp_simps holds_def)
  show "keeps (holds opened D K k c) (emit_must_deliver env tx e)" if "env_ok env opened"
    by (rule keepsI, rule wp_emit_must_deliver [OF env_ok_quiet [OF that]])
      (erule (2) holds_cong)
  show "keeps (holds opened D K k c) (emit_best_effort env tx e)" if "env_ok env opened"
    by (rule keepsI, rule wp_emit_best_effort [OF env_ok_quiet [OF that]])
      (erule (2) holds_cong)
qed

lemma keeps_holds_emit: "env_ok env opened \<Longrightarrow> keeps (holds opened D K k c) (emit env tx e)"
  unfolding emit_def by (intro keep_steps keeps_holds)

lemma keeps_holds_bumps:
  "keeps (holds opened D K k c) bump_disconnects" "keeps (holds opened D K k c) bump_timeouts"
  "keeps (holds opened D K k c) bump_poisonings"
  by (simp_all add: bump_defs keeps_holds)

lemma holds_good: "holds opened D K k c s \<Longrightarrow> good opened D K s"
  by (simp add: holds_def)

lemma valid_set_held:
  assumes "cr_session c' = cr_session c" "cr_tx c' = cr_tx c"
    "should_cleanup (schedule_view_of c') \<Longrightarrow> should_cleanup (schedule_view_of c) \<or> k \<in> K"
  shows "valid (holds opened D K k c) (set_chat k c') (\<lambda>_. holds opened D K k c')"
  by (rule validI)
    (auto simp: holds_def set_chat_def wp_simps map_of_chats_update intro!: good_set_chat [of opened D K _ k c] assms)

lemma valid_get_chat:
  assumes "valid P m Q" "\<And>c. valid (\<lambda>s. P s \<and> map_of (cs_chats s) k = Some c) (f c) Q"
  shows "valid P (State_Monad.bind (get_chat k) (\<lambda>x. case x of None \<Rightarrow> m | Some c \<Rightarrow> f c)) Q"
proof (rule validI)
  fix s assume p: "P s"
  show "wp (State_Monad.bind (get_chat k) (\<lambda>x. case x of None \<Rightarrow> m | Some c \<Rightarrow> f c)) Q s"
  proof (cases "map_of (cs_chats s) k")
    case None
    then show ?thesis using validD [OF assms(1) p] by (simp add: wp_simps)
  next
    case (Some c)
    then show ?thesis using validD [OF assms(2) conjI, OF p Some] by (simp add: wp_simps)
  qed
qed

lemma keeps_get_chat:
  assumes "keeps (good opened D K) m" "\<And>c. valid (holds opened D K k c) (f c) (\<lambda>_. good opened D K)"
  shows "keeps (good opened D K) (State_Monad.bind (get_chat k) (\<lambda>x. case x of None \<Rightarrow> m | Some c \<Rightarrow> f c))"
  unfolding keeps_def
  by (rule valid_get_chat) (use assms in \<open>simp_all add: keeps_def holds_def [abs_def]\<close>)

section \<open>Opening conversations\<close>

definition attached_from :: "chat_runtime \<Rightarrow> (exec_error + unit) \<times> chat_runtime \<Rightarrow> bool" where
  "attached_from c x \<longleftrightarrow> cr_session (snd x) = cr_session c \<and> cr_tx (snd x) = cr_tx c
     \<and> cr_workload (snd x) = cr_workload c
     \<and> (case fst x of Inl _ \<Rightarrow> snd x = c | Inr _ \<Rightarrow> is_in_flight (cr_state (snd x)))"

lemma in_flight_no_cleanup: "is_in_flight (cr_state c) \<Longrightarrow> \<not> should_cleanup (schedule_view_of c)"
  by (cases "cr_state c") (simp_all add: is_in_flight_def should_cleanup_def)

lemma attach_spec: "wp (attach_user_turn env c spec m) (\<lambda>x _. attached_from c x) s"
proof -
  have sum: "wp (case v of Inl e \<Rightarrow> f e | Inr p \<Rightarrow> g p) Q t =
      (case v of Inl e \<Rightarrow> wp (f e) Q t | Inr p \<Rightarrow> wp (g p) Q t)" for v f g Q and t :: "'a cstate"
    by (cases v) simp_all
  show ?thesis
    by (simp add: attach_user_turn_def wp_simps sum attached_from_def attach_generating_puller_def is_in_flight_def
        split: sum.split)
qed

lemma keeps_attach:
  assumes "\<And>f :: 'w \<Rightarrow> (exec_error + nat) \<times> 'w. still opened f \<Longrightarrow> keeps I (world_op f)"
    "\<And>f :: 'w \<Rightarrow> nat \<times> 'w. still opened f \<Longrightarrow> keeps I (world_op f)" "env_ok env opened"
  shows "keeps I (attach_user_turn env c spec m)"
  unfolding attach_user_turn_def by (intro keep_steps assms(1,2) env_ok_still [OF assms(3)])

lemma valid_attach:
  assumes "keeps I (attach_user_turn env c spec m)"
  shows "valid I (attach_user_turn env c spec m) (\<lambda>x s. I s \<and> attached_from c x)"
  using assms attach_spec [of env c spec m] by (simp add: keeps_def valid_def wp_def)

text \<open>A session in hand, its listener registered.\<close>

definition inhand :: "('w \<Rightarrow> nat set) \<Rightarrow> nat set \<Rightarrow> string set \<Rightarrow> nat \<Rightarrow> nat \<Rightarrow> 'w cstate \<Rightarrow> bool" where
  "inhand opened D K sid tx s \<longleftrightarrow> good opened (insert sid D) K s \<and> cs_hooks s sid = Some tx"

lemma inhand_cong:
  "same_core s t \<Longrightarrow> opened (cs_world t) = opened (cs_world s) \<Longrightarrow> inhand opened D K sid tx s \<Longrightarrow> inhand opened D K sid tx t"
  unfolding inhand_def using good_cong [of s t opened "insert sid D" K] by (simp add: same_core_def)

lemma keeps_inhand:
  "still opened f \<Longrightarrow> keeps (inhand opened D K sid tx) (world_op f)"
  "env_ok env opened \<Longrightarrow> keeps (inhand opened D K sid tx) (emit_must_deliver env t e)"
proof -
  show "keeps (inhand opened D K sid tx) (world_op f)" if "still opened f"
    using that by (intro keepsI) (simp add: wp_simps inhand_def good_world still_def)
  show "keeps (inhand opened D K sid tx) (emit_must_deliver env t e)" if "env_ok env opened"
    by (rule keepsI, rule wp_emit_must_deliver [OF env_ok_quiet [OF that]]) (erule (2) inhand_cong)
qed

lemma good_insert:
  assumes g: "inhand opened D K (cr_session c) (cr_tx c) s" and new: "cr_session c \<notin> D"
    and k: "k \<notin> fst ` set (cs_chats s)" and busy: "\<not> should_cleanup (schedule_view_of c)"
  shows "good opened D K (s\<lparr>cs_chats := (k, c) # cs_chats s\<rparr>)"
proof -
  have "cr_session c \<notin> sessions (cs_chats s)" using g by (simp add: inhand_def good_def chat_inv_def)
  then have "keyed ((k, c) # cs_chats s)"
    using g k by (auto simp: inhand_def good_def chat_inv_def keyed_def sessions_def)
  then show ?thesis
    using g new busy by (auto simp: inhand_def good_def chat_inv_def tidy_but_def)
qed

lemma valid_install:
  assumes ok: "env_ok env opened" and new: "cr_session c \<notin> D" and busy: "\<not> should_cleanup (schedule_view_of c)"
  shows "valid (inhand opened D K (cr_session c) (cr_tx c)) (install_runtime env k c) (\<lambda>_. good opened D K)"
proof (rule validI)
  fix s assume h: "inhand opened D K (cr_session c) (cr_tx c) s"
  show "wp (install_runtime env k c) (\<lambda>_. good opened D K) s"
  proof (cases "map_of (cs_chats s) k")
    case None
    then have k: "k \<notin> fst ` set (cs_chats s)" by (simp add: map_of_eq_None_iff)
    have "chats_insert k c (cs_chats s) = (k, c) # cs_chats s"
      using chats_remove_absent [OF k] by (simp add: chats_insert_def)
    then show ?thesis using None good_insert [OF h new k busy] by (simp add: install_runtime_def wp_simps)
  next
    case (Some d)
    let ?t = "s\<lparr>cs_chats := chats_remove k (cs_chats s)\<rparr>"
    have g: "good opened (insert (cr_session c) D) K s" using h by (simp add: inhand_def)
    note rem = good_remove [OF g Some]
    have "inhand opened (insert (cr_session d) D) K (cr_session c) (cr_tx c) ?t"
      using h rem(1) by (simp add: inhand_def insert_commute)
    moreover have "k \<notin> fst ` set (cs_chats ?t)" by (auto simp: chats_remove_set)
    moreover have "cr_session c \<notin> insert (cr_session d) D" using new rem(2) by auto
    ultimately have "good opened (insert (cr_session d) D) K (?t\<lparr>cs_chats := (k, c) # cs_chats ?t\<rparr>)"
      by (intro good_insert busy)
    moreover have "cr_session d \<notin> D" using rem(2) by simp
    ultimately show ?thesis
      using validD [OF valid_terminate_owned [OF ok, of d D K]] Some
      by (simp add: install_runtime_def wp_simps chats_insert_def)
  qed
qed

lemma valid_register:
  assumes "sid \<notin> D"
  shows "valid (good opened (insert sid D) K) (register_hook sid tx) (\<lambda>_. inhand opened D K sid tx)"
proof (rule validI)
  fix s assume g: "good opened (insert sid D) K s"
  then have "list_all (\<lambda>(k, c). ((cs_hooks s)(sid \<mapsto> tx)) (cr_session c) = Some (cr_tx c)) (cs_chats s)"
    unfolding good_def chat_inv_def list_all_iff by (fastforce simp: sessions_def)
  then show "wp (register_hook sid tx) (\<lambda>_. inhand opened D K sid tx) s"
    using g by (auto simp: register_hook_def wp_simps inhand_def good_def chat_inv_def tidy_but_def)
qed

lemma valid_adopt_session:
  assumes ok: "env_ok env opened" and new: "sid \<notin> D"
  shows "valid (good opened (insert sid D) K) (adopt_session env c spec m sid) (\<lambda>_. good opened D K)"
proof -
  let ?I = "inhand opened D K sid (sc_tx c)"
  have refused: "valid ?I (State_Monad.bind (deregister_and_end_session env sid) (\<lambda>_. emit env t e)) (\<lambda>_. good opened D K)"
    for t e
  proof (rule valid_bind)
    show "valid ?I (deregister_and_end_session env sid) (\<lambda>_. good opened D K)"
      by (rule valid_pre [OF valid_deregister_and_end [OF ok new]]) (simp add: inhand_def)
    show "valid (good opened D K) (emit env t e) (\<lambda>_. good opened D K)" for x :: unit
      using keeps_emit [OF ok] by (simp add: keeps_def)
  qed
  have accepted: "valid ?I (State_Monad.bind (emit_must_deliver env (cr_tx r) e) (\<lambda>ack. if m \<and> ack \<noteq> Sent
      then terminate_runtime_owned env r (OutcomeCompleted ReceiverDropped)
      else install_runtime env (sc_chat_id c) r)) (\<lambda>_. good opened D K)"
    if "cr_session r = sid" "cr_tx r = sc_tx c" "is_in_flight (cr_state r)" for r e
  proof (rule valid_keeps_bind [OF keeps_inhand(2) [OF ok]], rule valid_if)
    have "valid (good opened (insert (cr_session r) D) K) (terminate_runtime_owned env r (OutcomeCompleted ReceiverDropped))
        (\<lambda>_. good opened D K)"
      using that(1) new by (intro valid_terminate_owned ok) simp
    then show "valid ?I (terminate_runtime_owned env r (OutcomeCompleted ReceiverDropped)) (\<lambda>_. good opened D K)"
      by (rule valid_pre) (simp add: inhand_def that(1))
    show "valid ?I (install_runtime env (sc_chat_id c) r) (\<lambda>_. good opened D K)"
      using valid_install [OF ok, of r D K "sc_chat_id c"] new that in_flight_no_cleanup by simp
  qed
  have turn: "valid (\<lambda>s. ?I s \<and> attached_from r0 x) (case x of (attached, r) \<Rightarrow> (case attached of
         Inl e \<Rightarrow> State_Monad.bind (deregister_and_end_session env sid) (\<lambda>_. emit env (cr_tx r) (h e))
       | Inr _ \<Rightarrow> State_Monad.bind (emit_must_deliver env (cr_tx r) a) (\<lambda>ack. if m \<and> ack \<noteq> Sent
           then terminate_runtime_owned env r (OutcomeCompleted ReceiverDropped)
           else install_runtime env (sc_chat_id c) r))) (\<lambda>_. good opened D K)"
    if r0: "cr_session r0 = sid" "cr_tx r0 = sc_tx c" for r0 x h a
  proof (cases "attached_from r0 x")
    case False
    then show ?thesis by (simp add: valid_def)
  next
    case True
    obtain at r where x: "x = (at, r)" by (cases x)
    show ?thesis
    proof (cases at)
      case (Inl e)
      show ?thesis by (rule valid_pre [where P = ?I]) (simp_all add: x Inl refused)
    next
      case (Inr u)
      have r: "cr_session r = sid" "cr_tx r = sc_tx c" "is_in_flight (cr_state r)"
        using True r0 by (simp_all add: attached_from_def x Inr)
      show ?thesis by (rule valid_pre [where P = ?I]) (simp_all add: x Inr accepted [OF r])
    qed
  qed
  show ?thesis
    unfolding adopt_session_def
    apply (rule valid_keeps_bind [OF keeps_asks(3)])
    apply (rule valid_keeps_bind [OF keeps_when [OF keeps_emit [OF ok]]])
    apply (rule valid_bind [OF valid_register [OF new]])
    apply (rule valid_keeps_bind [OF keeps_inhand(1) [OF env_ok_still(2) [OF ok]]])
    apply (rule valid_bind [OF valid_attach [OF keeps_attach [OF keeps_inhand(1) keeps_inhand(1) ok]]])
      apply assumption+
    apply (rule turn; simp)
    done
qed

lemma keeps_evict:
  assumes ok: "env_ok env opened"
  shows "keeps (good opened D K) (evict_for_capacity env)"
proof (rule keepsI)
  fix s assume g: "good opened D K s"
  have "wp evict_lru (\<lambda>victim. wp (case victim of None \<Rightarrow> State_Monad.return ()
      | Some c \<Rightarrow> terminate_runtime_owned env c (OutcomeCompleted Evicted)) (\<lambda>_. good opened D K)) s"
  proof (cases "pick_eviction_target (views (cs_chats s))")
    case None
    with g show ?thesis by (simp add: evict_lru_def wp_simps)
  next
    case (Some k)
    from pick_eviction_target_oldest [OF this] obtain c0 where "(k, c0) \<in> set (cs_chats s)" by blast
    then obtain c where c: "map_of (cs_chats s) k = Some c" by (metis weak_map_of_SomeI)
    note rem = good_remove [OF g c]
    show ?thesis
      using validD [OF valid_terminate_owned [OF ok rem(2)] rem(1)] c
      by (simp add: evict_lru_def wp_simps Some)
  qed
  then show "wp (evict_for_capacity env) (\<lambda>_. good opened D K) s"
    using g by (simp add: evict_for_capacity_def wp_simps)
qed

lemma valid_start_session:
  assumes ok: "env_ok env opened"
  shows "valid (good opened D K) (world_op (ev_start_session env spec))
    (\<lambda>x s. case x of Inl _ \<Rightarrow> good opened D K s | Inr sid \<Rightarrow> sid \<notin> D \<and> good opened (insert sid D) K s)"
proof (rule validI)
  fix s assume g: "good opened D K s"
  let ?w = "cs_world s"
  show "wp (world_op (ev_start_session env spec)) (\<lambda>x s. case x of Inl _ \<Rightarrow> good opened D K s
      | Inr sid \<Rightarrow> sid \<notin> D \<and> good opened (insert sid D) K s) s"
  proof (cases "fst (ev_start_session env spec ?w)")
    case (Inl e)
    then show ?thesis using g env_ok_start_fails [OF ok Inl] by (simp add: wp_simps good_world)
  next
    case (Inr sid)
    from env_ok_start [OF ok Inr] g
    have "sid \<notin> sessions (cs_chats s) \<union> D"
      "opened (snd (ev_start_session env spec ?w)) = insert sid (sessions (cs_chats s) \<union> D)"
      by (simp_all add: good_def chat_inv_def)
    then show ?thesis using g Inr by (auto simp: wp_simps good_def chat_inv_def tidy_but_def)
  qed
qed

lemma valid_opened:
  assumes "keeps (good opened D K) m" and ok: "env_ok env opened"
    and "\<And>sid. sid \<notin> D \<Longrightarrow> valid (good opened (insert sid D) K) (f sid) (\<lambda>_. good opened D K)"
    "\<And>e. keeps (good opened D K) (h e)"
  shows "keeps (good opened D K) (State_Monad.bind (world_op (ev_start_session env spec))
    (\<lambda>x. case x of Inl e \<Rightarrow> h e | Inr sid \<Rightarrow> f sid))"
  unfolding keeps_def
proof (rule valid_bind [OF valid_start_session [OF ok]])
  fix x show "valid (\<lambda>s. case x of Inl _ \<Rightarrow> good opened D K s | Inr sid \<Rightarrow> sid \<notin> D \<and> good opened (insert sid D) K s)
      (case x of Inl e \<Rightarrow> h e | Inr sid \<Rightarrow> f sid) (\<lambda>_. good opened D K)"
    using assms by (cases x) (auto simp: keeps_def valid_def)
qed

lemma keeps_defaults: "keeps I (apply_generation_defaults env spec)"
  unfolding apply_generation_defaults_def by (intro keep_steps)

lemma keeps_open_conversation:
  assumes ok: "env_ok env opened"
  shows "keeps (good opened D K) (open_conversation env c spec)"
  unfolding open_conversation_def keepwarm_candidate_def Let_def
  by (intro keeps_bind keeps_return keeps_asks keeps_evict keeps_wake keeps_modify_fields keeps_world_op
      valid_opened [OF keeps_return] valid_adopt_session keeps_emit env_ok_still ok)

lemma keeps_start_chat:
  assumes ok: "env_ok env opened"
  shows "keeps (good opened D K) (start_chat env c)"
  unfolding start_chat_def
  by (intro keep_steps keeps_defaults keeps_open_conversation keeps_emit keeps_terminate_runtime ok)

section \<open>Continuing\<close>

lemma valid_redirect:
  assumes "cr_session c' = cr_session c" "cr_workload c' = cr_workload c" "cr_state c' = cr_state c"
  shows "valid (holds opened D K k c) (redirect_chat k c') (\<lambda>_. holds opened D K k c')"
proof (rule validI)
  fix s assume h: "holds opened D K k c s"
  then have g: "good opened D K s" and c: "map_of (cs_chats s) k = Some c" by (simp_all add: holds_def)
  let ?cs = "chats_update k (\<lambda>_. c') (cs_chats s)"
  have keyed: "keyed (cs_chats s)" using g by (simp add: good_def chat_inv_def)
  then have dist: "distinct (map fst (cs_chats s))" by (simp add: keyed_def)
  have ses: "map (\<lambda>(k, c). cr_session c) ?cs = map (\<lambda>(k, c). cr_session c) (cs_chats s)"
    using c assms(1) dist by (intro sessions_update) simp_all
  have set_ses: "sessions ?cs = sessions (cs_chats s)"
    using arg_cong [OF ses, of set] by (simp add: sessions_def)
  have keyed': "keyed ?cs" using keyed ses by (simp add: keyed_def)
  have elem: "(j, d) \<in> set ?cs \<Longrightarrow> (j, d) \<in> set (cs_chats s) \<and> j \<noteq> k \<or> j = k \<and> d = c'" for j d
    by (auto simp: chats_update_set split: if_splits)
  have other: "cr_session d \<noteq> cr_session c" if "(j, d) \<in> set (cs_chats s)" "j \<noteq> k" for j d
    using keyed_session_unique [OF keyed that(1) map_of_SomeD [OF c]] that(2) by blast
  have "schedule_view_of c' = (schedule_view_of c)\<lparr>sv_last_used := cr_last_used c'\<rparr>"
    using assms by (simp add: schedule_view_of_def)
  then have clean: "should_cleanup (schedule_view_of c') = should_cleanup (schedule_view_of c)"
    by (simp add: should_cleanup_def)
  have old: "should_cleanup (schedule_view_of c) \<Longrightarrow> k \<in> K"
    using g map_of_SomeD [OF c] by (auto simp: good_def tidy_but_def list_all_iff)
  have mem: "cr_session c \<in> sessions (cs_chats s)" using map_of_SomeD [OF c] by (force simp: sessions_def)
  let ?hooks = "(cs_hooks s)(cr_session c' := Some (cr_tx c'))"
  have answers: "list_all (\<lambda>(j, d). ?hooks (cr_session d) = Some (cr_tx d)) ?cs"
    using g elem other assms(1) unfolding good_def chat_inv_def list_all_iff by fastforce
  have tidy: "list_all (\<lambda>(j, d). should_cleanup (schedule_view_of d) \<longrightarrow> j \<in> K) ?cs"
    using g elem clean old unfolding good_def tidy_but_def list_all_iff by fastforce
  have dom: "dom ?hooks \<subseteq> sessions ?cs \<union> D"
    using g mem assms(1) set_ses by (auto simp: good_def chat_inv_def)
  have "good opened D K (s\<lparr>cs_chats := ?cs, cs_hooks := ?hooks\<rparr>)"
    using g keyed' set_ses answers tidy dom by (simp add: good_def chat_inv_def tidy_but_def)
  then show "wp (redirect_chat k c') (\<lambda>_. holds opened D K k c') s"
    using c by (simp add: redirect_chat_def set_chat_def deregister_hook_def register_hook_def wp_simps holds_def
        map_of_chats_update)
qed

lemma valid_append_and_attach:
  assumes ok: "env_ok env opened"
  shows "valid (holds opened D K (kc_chat_id c) chat) (append_and_attach env c chat m) (\<lambda>_. good opened D K)"
proof -
  let ?H = "holds opened D K (kc_chat_id c) chat"
  have attached: "valid (\<lambda>s. ?H s \<and> attached_from chat x) (case x of (attached, chat') \<Rightarrow>
      State_Monad.bind (set_chat (kc_chat_id c) chat') (\<lambda>_. State_Monad.return attached)) (\<lambda>_. good opened D K)" for x
  proof (cases "attached_from chat x")
    case False
    then show ?thesis by (simp add: valid_def)
  next
    case True
    obtain at r where x: "x = (at, r)" by (cases x)
    have r: "cr_session r = cr_session chat" "cr_tx r = cr_tx chat"
      using True by (simp_all add: attached_from_def x)
    have tidy: "should_cleanup (schedule_view_of r) \<Longrightarrow> should_cleanup (schedule_view_of chat) \<or> kc_chat_id c \<in> K"
      using True in_flight_no_cleanup [of r] by (cases at) (auto simp: attached_from_def x)
    have set: "valid ?H (set_chat (kc_chat_id c) r) (\<lambda>_. holds opened D K (kc_chat_id c) r)"
      by (rule valid_set_held) (use r tidy in auto)
    have "valid ?H (State_Monad.bind (set_chat (kc_chat_id c) r) (\<lambda>_. State_Monad.return at)) (\<lambda>_. good opened D K)"
      by (rule valid_bind [OF set], rule valid_return) (rule holds_good)
    then show ?thesis by (simp add: x valid_def)
  qed
  have ready: "valid ?H (State_Monad.bind (when_do b (emit env t e))
      (\<lambda>_. State_Monad.bind (apply_generation_defaults env g) (\<lambda>spec.
        State_Monad.bind (attach_user_turn env chat spec m) (\<lambda>x. case x of (attached, chat') \<Rightarrow>
          State_Monad.bind (set_chat (kc_chat_id c) chat') (\<lambda>_. State_Monad.return attached))))) (\<lambda>_. good opened D K)"
    for b t e g
    apply (rule valid_keeps_bind [OF keeps_when [OF keeps_holds_emit [OF ok]]])
    apply (rule valid_keeps_bind [OF keeps_defaults])
    apply (rule valid_bind [OF valid_attach [OF keeps_attach [OF keeps_holds(1) keeps_holds(1) ok]]])
      apply assumption+
    apply (rule attached)
    done
  show ?thesis
    unfolding append_and_attach_def
    apply (rule valid_keeps_bind [OF keeps_holds(1) [OF env_ok_still(7) [OF ok]]])
    apply (rule valid_sum)
     apply (rule valid_return, erule holds_good)
    apply (rule ready)
    done
qed

lemma valid_continue_resident:
  assumes ok: "env_ok env opened"
  shows "valid (holds opened D K (kc_chat_id c) chat) (continue_resident env c chat m) (\<lambda>_. good opened D K)"
  unfolding continue_resident_def Let_def
  apply (rule valid_bind [OF valid_redirect])
     apply (simp_all)[3]
  apply (rule valid_bind [OF valid_append_and_attach [OF ok]])
  apply (fold keeps_def)
  apply (intro keep_steps keeps_emit_must keeps_emit keeps_terminate_runtime ok)
  done

lemma keeps_continue_chat:
  assumes ok: "env_ok env opened"
  shows "keeps (good opened D K) (continue_chat env c)"
proof -
  have "valid (holds opened D K (kc_chat_id c) chat) (if b then emit env t e else continue_resident env c chat m)
      (\<lambda>_. good opened D K)" for b t e chat m
    by (rule valid_if, rule valid_pre [OF valid_keeps [OF keeps_emit [OF ok]]])
      (auto intro: holds_good valid_continue_resident [OF ok])
  then show ?thesis
    unfolding continue_chat_def Let_def
    by (intro keeps_if keeps_emit keeps_get_chat keeps_start_chat ok)
qed

section \<open>Microphone, pause, resume\<close>

lemma chats_update_const:
  assumes "distinct (map fst cs)"
  shows "chats_update k f cs = (case map_of cs k of None \<Rightarrow> cs | Some c \<Rightarrow> chats_update k (\<lambda>_. f c) cs)"
proof (cases "map_of cs k")
  case None
  then have "j \<noteq> k" if "(j, c) \<in> set cs" for j c using that by (auto simp: map_of_eq_None_iff image_iff)
  then show ?thesis using None by (auto simp: chats_update_def intro!: map_idI)
next
  case (Some c)
  then have "d = c" if "(k, d) \<in> set cs" for d using that assms by (simp add: map_of_eq_Some_iff)
  then show ?thesis using Some by (auto simp: chats_update_def)
qed

lemma keeps_touch_chat: "keeps (good opened D K) (on_chats (chats_update k (\<lambda>c. c\<lparr>cr_last_used := now\<rparr>)))"
proof (rule keepsI)
  fix s assume g: "good opened D K s"
  then have d: "distinct (map fst (cs_chats s))" by (simp add: good_def chat_inv_def keyed_def)
  have view: "should_cleanup (schedule_view_of (c\<lparr>cr_last_used := now\<rparr>)) = should_cleanup (schedule_view_of c)" for c
    by (simp add: should_cleanup_def)
  note const = chats_update_const [OF d, of k "\<lambda>c. c\<lparr>cr_last_used := now\<rparr>"]
  show "wp (on_chats (chats_update k (\<lambda>c. c\<lparr>cr_last_used := now\<rparr>))) (\<lambda>_. good opened D K) s"
  proof (cases "map_of (cs_chats s) k")
    case None
    then have "chats_update k (\<lambda>c. c\<lparr>cr_last_used := now\<rparr>) (cs_chats s) = cs_chats s" using const by simp
    then show ?thesis using g by (simp add: wp_simps)
  next
    case (Some c)
    then have "chats_update k (\<lambda>c. c\<lparr>cr_last_used := now\<rparr>) (cs_chats s)
        = chats_update k (\<lambda>_. c\<lparr>cr_last_used := now\<rparr>) (cs_chats s)" using const by simp
    then show ?thesis using good_set_chat [OF g Some, of "c\<lparr>cr_last_used := now\<rparr>"] view by (simp add: wp_simps)
  qed
qed

lemma keeps_settle_microphone:
  assumes ok: "env_ok env opened"
  shows "keeps (good opened D K) (settle_microphone env k result)"
  unfolding settle_microphone_def
  by (intro keeps_bind keeps_return keeps_asks keeps_let keeps_when keeps_touch_chat keeps_terminate_runtime
      keeps_world_op env_ok_still ok)

lemma valid_good_pre: "keeps (good opened D K) m \<Longrightarrow> valid (holds opened D K k c) m (\<lambda>_. good opened D K)"
  unfolding keeps_def by (erule valid_pre) (rule holds_good)

lemma keeps_microphone:
  assumes ok: "env_ok env opened"
    and work: "\<And>c. valid (holds opened D K k c) (work c) (\<lambda>_. good opened D K)"
  shows "keeps (good opened D K) (handle_microphone_command env k work)"
proof -
  have rest: "valid (holds opened D K k c) (State_Monad.bind (work c) (settle_microphone env k)) (\<lambda>_. good opened D K)" for c
    by (rule valid_bind [OF work]) (use keeps_settle_microphone [OF ok] in \<open>simp add: keeps_def\<close>)
  have "valid (holds opened D K k c) (if b then State_Monad.return e else
      State_Monad.bind (asks cs_config) (\<lambda>config. State_Monad.bind (world_op (ev_now env)) (\<lambda>now.
        if q config now then State_Monad.bind (terminate_runtime env k o') (\<lambda>_. State_Monad.return e')
        else State_Monad.bind (work c) (settle_microphone env k)))) (\<lambda>_. good opened D K)" for c b e q o' e'
    apply (rule valid_if)
     apply (rule valid_good_pre, rule keeps_return)
    apply (rule valid_keeps_bind [OF keeps_asks(1)])
    apply (rule valid_keeps_bind [OF keeps_holds(1) [OF env_ok_still(2) [OF ok]]])
    apply (rule valid_if)
     apply (rule valid_good_pre, intro keep_steps keeps_terminate_runtime ok)
    apply (rule rest)
    done
  then show ?thesis
    unfolding handle_microphone_command_def by (intro keeps_get_chat keeps_return)
qed

lemma keeps_push_microphone:
  assumes ok: "env_ok env opened"
  shows "keeps (good opened D K) (push_microphone env k samples)"
  unfolding push_microphone_def
  by (intro keeps_microphone valid_good_pre keep_steps keeps_world_op env_ok_still ok)

lemma attach_fields [simp]:
  "cr_session (attach_generating_puller t p g c) = cr_session c" "cr_tx (attach_generating_puller t p g c) = cr_tx c"
  "\<not> should_cleanup (schedule_view_of (attach_generating_puller t p g c))"
  by (simp_all add: attach_generating_puller_def should_cleanup_def)

lemma valid_set_attached:
  "valid (holds opened D K k c) (set_chat k (attach_generating_puller t p g c)) (\<lambda>_. good opened D K)"
  by (rule valid_post [OF valid_set_held]) (auto intro: holds_good)

lemma keeps_commit_microphone:
  assumes ok: "env_ok env opened"
  shows "keeps (good opened D K) (commit_microphone env k)"
proof -
  have started: "valid (holds opened D K k c) (State_Monad.bind (world_op (ev_now env)) (\<lambda>t. State_Monad.bind
      (set_chat k (attach_generating_puller t p g c)) (\<lambda>_. State_Monad.return x))) (\<lambda>_. good opened D K)" for c p g x
    apply (rule valid_keeps_bind [OF keeps_holds(1) [OF env_ok_still(2) [OF ok]]])
    apply (rule valid_bind [OF valid_set_attached])
    apply (simp add: valid_return)
    done
  have "valid (holds opened D K k c) (commit_work env k c) (\<lambda>_. good opened D K)" for c
    unfolding commit_work_def
    apply (rule valid_keeps_bind [OF keeps_holds(1) [OF env_ok_still(9) [OF ok]]])
    apply (rule valid_option, rule valid_good_pre [OF keeps_return])
    apply (rule valid_sum, rule valid_good_pre [OF keeps_return])
    apply (rule valid_keeps_bind [OF keeps_holds(1) [OF env_ok_still(5) [OF ok]]])
    apply (rule valid_sum, rule valid_good_pre [OF keeps_return])
    apply (rule started)
    done
  then show ?thesis unfolding commit_microphone_def by (rule keeps_microphone [OF ok])
qed

lemma paused_fields:
  "cr_session (paused_runtime c) = cr_session c" "cr_tx (paused_runtime c) = cr_tx c"
  "should_cleanup (schedule_view_of (paused_runtime c)) \<Longrightarrow> should_cleanup (schedule_view_of c)"
  by (auto simp: paused_runtime_def should_cleanup_def split: chat_run_state.splits)

lemma keeps_pause_chat:
  assumes ok: "env_ok env opened"
  shows "keeps (good opened D K) (pause_chat env k)"
proof -
  have set: "valid (holds opened D K k c) (set_chat k (paused_runtime c)) (\<lambda>_. good opened D K)" for c
    by (rule valid_post [OF valid_set_held]) (auto intro: holds_good dest: paused_fields(3) simp: paused_fields)
  have "valid (holds opened D K k c) (if b then State_Monad.return () else
      State_Monad.bind (world_do (ev_pause env i)) (\<lambda>_. set_chat k (paused_runtime c))) (\<lambda>_. good opened D K)" for c b i
    apply (rule valid_if, rule valid_good_pre [OF keeps_return])
    apply (rule valid_keeps_bind [OF keeps_holds(2) [OF env_ok_still(19) [OF ok]]])
    apply (rule set)
    done
  then show ?thesis unfolding pause_chat_def by (intro keeps_get_chat keeps_return)
qed

lemma keeps_resume_chat:
  assumes ok: "env_ok env opened"
  shows "keeps (good opened D K) (resume_chat env k)"
proof -
  have started: "valid (holds opened D K k c) (State_Monad.bind (world_op (ev_now env)) (\<lambda>t.
      set_chat k (attach_generating_puller t p g c))) (\<lambda>_. good opened D K)" for c p g
    by (rule valid_keeps_bind [OF keeps_holds(1) [OF env_ok_still(2) [OF ok]] valid_set_attached])
  have "valid (holds opened D K k c) (if b then State_Monad.return () else
      State_Monad.bind (world_do (ev_resume env i)) (\<lambda>_. if b' then State_Monad.return () else
        State_Monad.bind (world_op (ev_pull env i g)) (\<lambda>p. case p of
            Inl e \<Rightarrow> emit env t (h e)
          | Inr puller \<Rightarrow> State_Monad.bind (world_op (ev_now env)) (\<lambda>started.
              set_chat k (attach_generating_puller started puller g c))))) (\<lambda>_. good opened D K)" for c b b' i g t h
    apply (rule valid_if, rule valid_good_pre [OF keeps_return])
    apply (rule valid_keeps_bind [OF keeps_holds(2) [OF env_ok_still(20) [OF ok]]])
    apply (rule valid_if, rule valid_good_pre [OF keeps_return])
    apply (rule valid_keeps_bind [OF keeps_holds(1) [OF env_ok_still(5) [OF ok]]])
    apply (rule valid_sum, rule valid_good_pre [OF keeps_emit [OF ok]])
    apply (rule started)
    done
  then show ?thesis unfolding resume_chat_def by (intro keeps_get_chat keeps_return)
qed

section \<open>Background tasks\<close>

text \<open>
  A background task is put under its first key if that is free, and otherwise under one that ends with
  the current millisecond.  Under the second key another task may sit: it is replaced, and its session
  is not ended.  \<open>overwritten\<close> has that session.\<close>

definition replaced :: "string \<Rightarrow> 'w cstate \<Rightarrow> 'w cstate \<Rightarrow> nat set" where
  "replaced k s t = (case map_of (cs_chats s) k of
     Some d \<Rightarrow> if map_of (cs_chats t) k = Some d then {} else {cr_session d} | None \<Rightarrow> {})"

definition overwritten :: "'w env \<Rightarrow> infer_command \<Rightarrow> 'w cstate \<Rightarrow> nat set" where
  "overwritten env c s =
     replaced (fst (run_state (unique_ephemeral_id env c) s)) s (snd (run_state (start_ephemeral env c) s))"

text \<open>With its first key free, a task overwrites nothing.\<close>

lemma first_key_free: "map_of (cs_chats s) (ephemeral_id c) = None \<Longrightarrow> overwritten env c s = {}"
  by (simp add: overwritten_def replaced_def unique_ephemeral_id_def get_chat_def asks_def)

lemma replaced_cong: "cs_chats s' = cs_chats s \<Longrightarrow> replaced k s' t = replaced k s t"
  by (simp add: replaced_def)

lemma good_replace:
  assumes h: "inhand opened D K (cr_session r) (cr_tx r) s" and new: "cr_session r \<notin> D"
    and busy: "\<not> should_cleanup (schedule_view_of r)"
    and t: "t = s\<lparr>cs_chats := chats_insert k r (cs_chats s)\<rparr>"
  shows "good opened (D \<union> replaced k s t) K t"
proof (cases "map_of (cs_chats s) k")
  case None
  then have k: "k \<notin> fst ` set (cs_chats s)" by (simp add: map_of_eq_None_iff)
  have "chats_insert k r (cs_chats s) = (k, r) # cs_chats s"
    using chats_remove_absent [OF k] by (simp add: chats_insert_def)
  then show ?thesis using None good_insert [OF h new k busy] by (simp add: t replaced_def)
next
  case (Some d)
  let ?u = "s\<lparr>cs_chats := chats_remove k (cs_chats s)\<rparr>"
  have g: "good opened (insert (cr_session r) D) K s" using h by (simp add: inhand_def)
  note rem = good_remove [OF g Some]
  have "inhand opened (insert (cr_session d) D) K (cr_session r) (cr_tx r) ?u"
    using h rem(1) by (simp add: inhand_def insert_commute)
  moreover have "k \<notin> fst ` set (cs_chats ?u)" by (auto simp: chats_remove_set)
  moreover have "cr_session r \<notin> insert (cr_session d) D" using new rem(2) by auto
  ultimately have "good opened (insert (cr_session d) D) K (?u\<lparr>cs_chats := (k, r) # cs_chats ?u\<rparr>)"
    by (intro good_insert busy)
  moreover have "replaced k s t = {cr_session d}"
    using rem(2) Some by (auto simp: replaced_def t chats_insert_def)
  ultimately show ?thesis by (simp add: t chats_insert_def)
qed

lemma keeps_chats_refused:
  "keeps (chats_are cs) (State_Monad.bind (emit env tx e) (\<lambda>_. deregister_and_end_session env sid))"
proof -
  have "keeps (chats_are cs) (world_do g)" "keeps (chats_are cs) (deregister_hook sid)" for g
    by (rule keepsI; simp add: wp_simps chats_are_def deregister_hook_def)+
  then show ?thesis
    unfolding deregister_and_end_session_def emit_def by (intro keeps_rules keeps_chats_emit)
qed

lemma wp_adopt_ephemeral:
  assumes ok: "env_ok env opened" and new: "sid \<notin> D" and g: "good opened (insert sid D) K s"
  shows "wp (adopt_ephemeral env c spec k sid) (\<lambda>_ t. good opened (D \<union> replaced k s t) K t) s"
proof -
  let ?s1 = "s\<lparr>cs_hooks := (cs_hooks s)(sid \<mapsto> ic_tx c)\<rparr>"
  let ?pull = "ev_pull env sid spec (cs_world s)"
  let ?s2 = "s\<lparr>cs_hooks := (cs_hooks s)(sid \<mapsto> ic_tx c), cs_world := snd ?pull\<rparr>"
  have h1: "inhand opened D K sid (ic_tx c) ?s1"
    using validD [OF valid_register [OF new, of opened K "ic_tx c"] g] by (simp add: register_hook_def wp_simps)
  have lv: "opened (snd ?pull) = opened (cs_world s)" using env_ok_still(5) [OF ok] by (simp add: still_def)
  have h2: "inhand opened D K sid (ic_tx c) ?s2"
    using h1 lv by (auto simp: inhand_def good_def chat_inv_def tidy_but_def)
  show ?thesis
  proof (cases "fst ?pull")
    case (Inl e)
    let ?m = "State_Monad.bind (emit env (ic_tx c) (backend_failure (ev_debug env) e)) (\<lambda>_. deregister_and_end_session env sid)"
    have "valid (good opened (insert sid D) K) ?m (\<lambda>_. good opened D K)"
      by (rule valid_keeps_bind [OF keeps_emit [OF ok]]) (rule valid_deregister_and_end [OF ok new])
    from validD [OF this, of ?s2] h2 have "wp ?m (\<lambda>_. good opened D K) ?s2" by (simp add: inhand_def)
    moreover have "wp ?m (\<lambda>_. chats_are (cs_chats s)) ?s2"
      by (rule keepsD [OF keeps_chats_refused]) (simp add: chats_are_def)
    moreover have "replaced k s t = {}" if "chats_are (cs_chats s) t" for t
      using that by (simp add: replaced_def chats_are_def split: option.split)
    ultimately have "wp ?m (\<lambda>_ t. good opened (D \<union> replaced k s t) K t) ?s2" by (simp add: wp_def)
    then show ?thesis by (simp add: adopt_ephemeral_def register_hook_def wp_simps Inl)
  next
    case (Inr puller)
    define t where "t = snd (ev_now env (snd (ev_now env (snd ?pull))))"
    have lt: "opened t = opened (snd ?pull)" using env_ok_still(2) [OF ok] by (simp add: t_def still_def)
    define r where "r = attach_generating_puller (fst (ev_now env (snd (ev_now env (snd ?pull))))) puller spec
       \<lparr>cr_session = sid, cr_tx = ic_tx c, cr_workload = SystemTask (ic_task c), cr_last_used = fst (ev_now env (snd ?pull)),
        cr_last_gen_spec = spec, cr_state = Idle, cr_health = default_health\<rparr>"
    have r: "cr_session r = sid" "cr_tx r = ic_tx c" "\<not> should_cleanup (schedule_view_of r)" by (simp_all add: r_def)
    let ?s3 = "s\<lparr>cs_hooks := (cs_hooks s)(sid \<mapsto> ic_tx c), cs_world := t\<rparr>"
    have "inhand opened D K (cr_session r) (cr_tx r) ?s3"
      using h2 lt r by (auto simp: inhand_def good_def chat_inv_def tidy_but_def)
    from good_replace [OF this _ r(3) refl, of k] new r
    have "good opened (D \<union> replaced k s (?s3\<lparr>cs_chats := chats_insert k r (cs_chats s)\<rparr>)) K
        (?s3\<lparr>cs_chats := chats_insert k r (cs_chats s)\<rparr>)"
      by (simp add: replaced_cong [of ?s3 s])
    then show ?thesis
      by (simp add: adopt_ephemeral_def register_hook_def wp_simps Inr flip: t_def r_def)
  qed
qed

text \<open>A background task takes the session of whatever sat under its key out of the map.\<close>

lemma wp_start_ephemeral:
  assumes ok: "env_ok env opened" and g: "good opened D K s"
  shows "wp (start_ephemeral env c) (\<lambda>_ t. good opened (D \<union> overwritten env c s) K t) s"
proof -
  define k where "k = fst (run_state (unique_ephemeral_id env c) s)"
  have task: "wp (State_Monad.bind (apply_generation_defaults env (ic_gen_spec c)) (\<lambda>spec.
      State_Monad.bind (world_op (ev_start_session env (ss spec)))
        (\<lambda>x. case x of Inl e \<Rightarrow> emit env tx (h e) | Inr sid \<Rightarrow> adopt_ephemeral env c spec k sid)))
      (\<lambda>_ t. good opened (D \<union> replaced k s t) K t) u"
    if u: "good opened D K u" "cs_chats u = cs_chats s" for u ss tx h
  proof -
    have "wp (State_Monad.bind (world_op (ev_start_session env sp))
        (\<lambda>x. case x of Inl e \<Rightarrow> emit env tx (h e) | Inr sid \<Rightarrow> adopt_ephemeral env c spec k sid))
        (\<lambda>_ t. good opened (D \<union> replaced k s t) K t) v"
      if v: "good opened D K v" "cs_chats v = cs_chats s" for v sp spec
    proof -
      let ?r = "ev_start_session env sp (cs_world v)"
      let ?v = "v\<lparr>cs_world := snd ?r\<rparr>"
      have start: "case fst ?r of Inl _ \<Rightarrow> good opened D K ?v | Inr sid \<Rightarrow> sid \<notin> D \<and> good opened (insert sid D) K ?v"
        using validD [OF valid_start_session [OF ok] v(1), of sp] by (simp add: wp_simps)
      show ?thesis
      proof (cases "fst ?r")
        case (Inl e)
        have "wp (emit env tx (h e)) (\<lambda>_. good opened D K) ?v"
          using keepsD [OF keeps_emit [OF ok]] start Inl by simp
        then have "wp (emit env tx (h e)) (\<lambda>_ t. good opened (D \<union> replaced k s t) K t) ?v"
        proof -
          have "wp (emit env tx (h e)) (\<lambda>_. chats_are (cs_chats s)) ?v"
            unfolding emit_def by (rule keepsD) (intro keeps_rules keeps_chats_emit, simp add: chats_are_def v(2))
          moreover have "replaced k s t = {}" if "chats_are (cs_chats s) t" for t
            using that by (simp add: replaced_def chats_are_def split: option.split)
          moreover assume "wp (emit env tx (h e)) (\<lambda>_. good opened D K) ?v"
          ultimately show ?thesis by (simp add: wp_def)
        qed
        then show ?thesis by (simp add: wp_simps Inl)
      next
        case (Inr sid)
        have "wp (adopt_ephemeral env c spec k sid) (\<lambda>_ t. good opened (D \<union> replaced k ?v t) K t) ?v"
          using start Inr by (intro wp_adopt_ephemeral [OF ok]) simp_all
        moreover have "replaced k ?v = replaced k s" by (rule ext, rule replaced_cong) (simp add: v(2))
        ultimately show ?thesis by (simp add: wp_simps Inr)
      qed
    qed
    then show ?thesis using u by (simp add: apply_generation_defaults_def wp_simps)
  qed
  have "wp (start_ephemeral env c) (\<lambda>_ t. good opened (D \<union> replaced k s t) K t) s"
  proof (cases "map_of (cs_chats s) (ephemeral_id c)")
    case None
    then have k: "k = ephemeral_id c" by (simp add: k_def unique_ephemeral_id_def get_chat_def asks_def)
    show ?thesis
      using task [OF g refl] None unfolding start_ephemeral_def unique_ephemeral_id_def by (simp add: wp_simps flip: k)
  next
    case (Some d)
    let ?m = "ev_unix_millis env (cs_world s)"
    have k: "k = ephemeral_id c @ '':'' @ show_nat (fst ?m)"
      using Some by (simp add: k_def unique_ephemeral_id_def get_chat_def asks_def world_op_def case_prod_beta)
    have "good opened D K (s\<lparr>cs_world := snd ?m\<rparr>)"
      using g env_ok_still(4) [OF ok] by (simp add: good_world still_def)
    from task [OF this] show ?thesis
      using Some unfolding start_ephemeral_def unique_ephemeral_id_def by (simp add: wp_simps k)
  qed
  then show ?thesis by (simp add: wp_def overwritten_def k_def)
qed

section \<open>The tick\<close>

text \<open>What a step of a chat leaves as it was.\<close>

definition same_ids :: "chat_runtime \<Rightarrow> chat_runtime \<Rightarrow> bool" where
  "same_ids c d \<longleftrightarrow> cr_session d = cr_session c \<and> cr_tx d = cr_tx c \<and> cr_workload d = cr_workload c"

lemma same_ids_refl [simp]: "same_ids c c"
  by (simp add: same_ids_def)

lemma same_ids_update [simp]:
  "same_ids c (d\<lparr>cr_state := x\<rparr>) \<longleftrightarrow> same_ids c d" "same_ids c (d\<lparr>cr_last_used := t\<rparr>) \<longleftrightarrow> same_ids c d"
  "same_ids c (d\<lparr>cr_health := h\<rparr>) \<longleftrightarrow> same_ids c d"
  by (simp_all add: same_ids_def)

definition is_final :: "controller_event \<Rightarrow> bool" where
  "is_final e = (case e of EvEos \<Rightarrow> True | EvStopped \<Rightarrow> True | EvError _ _ \<Rightarrow> True | _ \<Rightarrow> False)"

text \<open>The channel has no room for an event that many times in a row, from some moment on.\<close>

fun refuses :: "'w env \<Rightarrow> nat \<Rightarrow> controller_event \<Rightarrow> nat \<Rightarrow> 'w \<Rightarrow> bool" where
  "refuses env tx e 0 w = True"
| "refuses env tx e (Suc n) w =
     (fst (ev_try_send env tx e w) = Full \<and> refuses env tx e n (snd (ev_try_send env tx e w)))"

text \<open>
  The end of a turn was put on the channel, or its receiver is gone, or the channel refused the
  event sixty-four times in a row.\<close>

definition refused_out :: "'w env \<Rightarrow> nat \<Rightarrow> controller_event \<Rightarrow> bool" where
  "refused_out env tx e \<longleftrightarrow> (\<exists>w. refuses env tx e 64 w)"

definition announced :: "'w env \<Rightarrow> nat \<Rightarrow> (nat \<times> controller_event \<times> emit_result) list \<Rightarrow> bool" where
  "announced env tx l \<longleftrightarrow>
     (\<exists>e r. (tx, e, r) \<in> set l \<and> (r = Disconnected \<or> is_final e \<and> (r = Full \<longrightarrow> refused_out env tx e)))"

text \<open>A result of an emission: full only after all the attempts.\<close>

definition tried :: "'w env \<Rightarrow> nat \<Rightarrow> controller_event \<Rightarrow> emit_result \<Rightarrow> bool" where
  "tried env tx e r \<longleftrightarrow> (r = Full \<longrightarrow> is_droppable e \<or> refused_out env tx e)"

lemma final_not_droppable: "is_final e \<Longrightarrow> \<not> is_droppable e"
  by (cases e) (simp_all add: is_final_def is_droppable_def)

lemma emit_spins_full:
  "wp (emit_spins n env tx e) (\<lambda>r _. r = Full \<longrightarrow> refuses env tx e n (cs_world s)) s"
proof (induction n arbitrary: s)
  case 0
  show ?case by (simp add: wp_def)
next
  case (Suc n)
  show ?case
  proof (cases "fst (ev_try_send env tx e (cs_world s))")
    case Full
    then show ?thesis
      using Suc.IH [of "s\<lparr>cs_world := snd (ev_try_send env tx e (cs_world s))\<rparr>"]
      by (simp add: wp_simps try_send_def)
  qed (simp_all add: wp_simps try_send_def bump_defs)
qed

lemma wp_emit_must_tried:
  assumes "quiet_env env v"
    and "\<And>r t. same_core s t \<Longrightarrow> v (cs_world t) = v (cs_world s) \<Longrightarrow>
      cs_log t = cs_log s @ [(tx, e, r)] \<Longrightarrow> tried env tx e r \<Longrightarrow> Q r t"
  shows "wp (emit_must_deliver env tx e) Q s"
proof -
  let ?S = "\<lambda>r t. same_core s t \<and> v (cs_world t) = v (cs_world s) \<and> cs_log t = cs_log s"
  have "wp (emit_spins 64 env tx e) ?S s" by (rule wp_emit_spins [OF assms(1)]) simp
  with emit_spins_full [of 64 env tx e s]
  have "wp (emit_spins 64 env tx e) (\<lambda>r t. ?S r t \<and> tried env tx e r) s"
    by (auto simp: wp_def tried_def refused_out_def)
  then show ?thesis
    unfolding emit_must_deliver_def wp_bind
    by (rule wp_mono) (simp add: wp_simps log_emit_def assms(2))
qed

definition logged :: "(nat \<times> controller_event \<times> emit_result) list
    \<Rightarrow> ((nat \<times> controller_event \<times> emit_result) list \<Rightarrow> bool) \<Rightarrow> 'w cstate \<Rightarrow> bool" where
  "logged l P s \<longleftrightarrow> (\<exists>n. cs_log s = l @ n \<and> P n)"

lemma is_final_events [simp]:
  "is_final EvEos" "is_final EvStopped" "is_final (EvError a b)" "is_final (backend_failure d e)"
  "is_final (poisoned_event x)" "is_final panic_event" "is_final (timeout_event t)"
  "is_final (terminal_event env c outcome)"
  by (simp_all add: is_final_def backend_failure_def poisoned_event_def panic_event_def timeout_event_def
      terminal_event_def)

lemma wp_tick_emit:
  assumes "\<And>r t. cs_log t = cs_log s @ [(tx, e, r)] \<Longrightarrow> tried env tx e r \<Longrightarrow> Q (r = Disconnected) t"
  shows "wp (tick_emit env tx e) Q s"
proof -
  have q: "quiet_env env (\<lambda>_. ())" by (simp add: quiet_env_def)
  show ?thesis
  proof (cases "is_droppable e")
    case True
    then show ?thesis
      unfolding tick_emit_def wp_bind
      by (simp, intro wp_emit_best_effort [OF q]) (simp add: wp_simps assms tried_def)
  next
    case False
    then show ?thesis
      unfolding tick_emit_def wp_bind
      by (simp, intro wp_emit_must_tried [OF q]) (simp add: wp_simps assms)
  qed
qed

text \<open>The outcome of one result of the puller, and that its end is announced.\<close>

definition step_ok :: "'w env \<Rightarrow> chat_runtime \<Rightarrow> (nat \<times> controller_event \<times> emit_result) list
    \<Rightarrow> chat_runtime \<times> bool \<Rightarrow> 'w cstate \<Rightarrow> bool" where
  "step_ok env c l x s \<longleftrightarrow> same_ids c (fst x)
     \<and> logged l (\<lambda>n. (snd x \<or> \<not> is_generating (cr_state (fst x))) \<longrightarrow> announced env (cr_tx c) n) s"

lemma logged_one: "cs_log s = l @ [x] \<Longrightarrow> P [x] \<Longrightarrow> logged l P s"
  by (auto simp: logged_def)

lemma logged_nil: "cs_log s = l \<Longrightarrow> P [] \<Longrightarrow> logged l P s"
  by (auto simp: logged_def)

lemma announced_one: "tried env tx e r \<Longrightarrow> announced env tx [(tx, e, r)] \<longleftrightarrow> is_final e \<or> r = Disconnected"
  using final_not_droppable [of e] by (auto simp: announced_def tried_def)

lemma logged_told:
  "cs_log s = l @ [(tx, e, r)] \<Longrightarrow> tried env tx e r \<Longrightarrow> is_final e \<or> r = Disconnected \<Longrightarrow>
     logged l (announced env tx) s"
  "cs_log s = l @ [(tx, e, r)] \<Longrightarrow> tried env tx e r \<Longrightarrow> b \<longrightarrow> is_final e \<or> r = Disconnected \<Longrightarrow>
     logged l (\<lambda>n. b \<longrightarrow> announced env tx n) s"
  by (auto simp: logged_one announced_one)

lemma wp_bump [wp_simps]:
  "wp bump_poisonings Q = (\<lambda>s. Q () (s\<lparr>cs_metrics := (cs_metrics s)\<lparr>mt_session_poisonings :=
     wrap_inc (mt_session_poisonings (cs_metrics s))\<rparr>\<rparr>))"
  "wp bump_disconnects Q = (\<lambda>s. Q () (s\<lparr>cs_metrics := (cs_metrics s)\<lparr>mt_receiver_disconnects :=
     wrap_inc (mt_receiver_disconnects (cs_metrics s))\<rparr>\<rparr>))"
  "wp bump_timeouts Q = (\<lambda>s. Q () (s\<lparr>cs_metrics := (cs_metrics s)\<lparr>mt_generation_timeouts :=
     wrap_inc (mt_generation_timeouts (cs_metrics s))\<rparr>\<rparr>))"
  by (simp_all add: bump_defs wp_simps)

lemma wp_apply_error: "wp (apply_error env c e) (step_ok env c (cs_log s)) s"
proof -
  define bad where "bad = is_unhealthy (failed_health (ev_poisoned env (cr_session c) (cs_world s)) (cr_health c))"
  show ?thesis
    unfolding apply_error_def Let_def wp_bind wp_ask_world bad_def [symmetric]
    by (rule wp_tick_emit, cases bad) (simp_all add: wp_simps step_ok_def logged_told same_ids_def)
qed

lemma wp_apply_step:
  assumes "is_generating (cr_state c)"
  shows "wp (apply_step env c step) (step_ok env c (cs_log s)) s"
proof (cases step)
  case Panicked
  show ?thesis unfolding apply_step_def Panicked
    by (simp add: wp_simps, rule wp_tick_emit) (simp add: wp_simps step_ok_def logged_told same_ids_def)
next
  case Exhausted
  show ?thesis unfolding apply_step_def Exhausted
    by (simp add: wp_simps, rule wp_tick_emit) (simp add: wp_simps step_ok_def logged_told same_ids_def)
next
  case (Yielded y)
  show ?thesis
  proof (cases y)
    case (Inl e)
    show ?thesis unfolding apply_step_def Yielded Inl by (simp add: wp_apply_error)
  next
    case (Inr ev)
    have gen: "is_generating (hold_speech chunk (cr_state c))" for chunk
      using assms by (auto simp: generating_iff hold_speech_def)
    have emits: "wp (tick_emit env (cr_tx c) e) Q s"
      if "\<And>r t. cs_log t = cs_log s @ [(cr_tx c, e, r)] \<Longrightarrow> tried env (cr_tx c) e r \<Longrightarrow> Q (r = Disconnected) t" for e Q
      using that by (rule wp_tick_emit)
    show ?thesis
      unfolding apply_step_def Yielded Inr
      by (cases ev; simp add: wp_simps Let_def; (intro conjI impI emits)?;
          simp add: step_ok_def assms gen logged_nil logged_told same_ids_def)
  qed
qed

lemma announced_append: "announced env tx m \<Longrightarrow> announced env tx (n @ m)"
  by (auto simp: announced_def)

lemma logged_after:
  assumes "cs_log s = l @ n" "logged (cs_log s) (\<lambda>m. b \<longrightarrow> announced env tx m) t"
  shows "logged l (\<lambda>m. b \<longrightarrow> announced env tx m) t"
  using assms announced_append unfolding logged_def by (metis append_assoc)

definition chat_ticked :: "'w env \<Rightarrow> chat_runtime \<Rightarrow> (nat \<times> controller_event \<times> emit_result) list
    \<Rightarrow> chat_runtime \<Rightarrow> 'w cstate \<Rightarrow> bool" where
  "chat_ticked env c l c' s \<longleftrightarrow> same_ids c c'
     \<and> logged l (\<lambda>n. \<not> is_generating (cr_state c') \<longrightarrow> announced env (cr_tx c) n) s"

lemma wp_tick_generate:
  assumes "is_generating (cr_state c)"
  shows "wp (tick_generate env c) (chat_ticked env c (cs_log s)) s"
proof -
  have run: "wp (State_Monad.bind (world_op (ev_next env p)) (\<lambda>step. State_Monad.bind (apply_step env c1 step)
      (\<lambda>(c2, dead). State_Monad.return (c2\<lparr>cr_state := apply_receiver_disconnect_override dead (cr_state c2)\<rparr>))))
      (chat_ticked env c (cs_log s)) t"
    if c1: "same_ids c c1" "is_generating (cr_state c1)" and n: "cs_log t = cs_log s @ n" for p c1 t n
  proof -
    have fin: "chat_ticked env c (cs_log s) ((fst x)\<lparr>cr_state := apply_receiver_disconnect_override (snd x) (cr_state (fst x))\<rparr>) u"
      if "step_ok env c1 (cs_log t) x u" for x :: "chat_runtime \<times> bool" and u :: "'a cstate"
    proof -
      have ids: "same_ids c (fst x)" using that c1 by (simp add: step_ok_def same_ids_def)
      have tx: "cr_tx c1 = cr_tx c" using c1 by (simp add: same_ids_def)
      have "logged (cs_log t) (\<lambda>m. (snd x \<or> \<not> is_generating (cr_state (fst x))) \<longrightarrow> announced env (cr_tx c) m) u"
        using that tx by (simp add: step_ok_def)
      from logged_after [OF n this] show ?thesis
        using ids by (auto simp: chat_ticked_def apply_receiver_disconnect_override_def logged_def)
    qed
    show ?thesis
      unfolding wp_bind wp_world_op
      by (rule wp_mono [OF wp_apply_step [OF c1(2)]])
        (use n fin in \<open>auto simp: wp_simps case_prod_beta\<close>)
  qed
  obtain p t0 g q where st: "cr_state c = Generating p t0 g q" using assms by (auto simp: generating_iff)
  show ?thesis
  proof (cases q)
    case None
    have "wp (State_Monad.bind (world_op (ev_next env p)) (\<lambda>step. State_Monad.bind (apply_step env c step)
      (\<lambda>(c2, dead). State_Monad.return (c2\<lparr>cr_state := apply_receiver_disconnect_override dead (cr_state c2)\<rparr>))))
      (chat_ticked env c (cs_log s)) s"
      by (rule run [where n = "[]"]) (simp_all add: assms)
    then show ?thesis using st None by (simp add: tick_generate_def offer_speech_def wp_simps)
  next
    case (Some chunk)
    let ?r = "ev_try_send env (cr_tx c) (EvSpeech chunk) (cs_world s)"
    let ?n = "[(cr_tx c, EvSpeech chunk, fst ?r)]"
    let ?t = "s\<lparr>cs_world := snd ?r, cs_log := cs_log s @ ?n\<rparr>"
    show ?thesis
    proof (cases "fst ?r")
      case Sent
      let ?now = "ev_now env (snd ?r)"
      let ?c1 = "c\<lparr>cr_state := Generating p t0 g None, cr_last_used := fst ?now\<rparr>"
      have "wp (State_Monad.bind (world_op (ev_next env p)) (\<lambda>step. State_Monad.bind (apply_step env ?c1 step)
        (\<lambda>(c2, dead). State_Monad.return (c2\<lparr>cr_state := apply_receiver_disconnect_override dead (cr_state c2)\<rparr>))))
        (chat_ticked env c (cs_log s)) (s\<lparr>cs_world := snd ?now, cs_log := cs_log s @ ?n\<rparr>)"
        by (rule run [where n = ?n]) (simp_all add: same_ids_def)
      then show ?thesis
        using st Some Sent by (simp add: tick_generate_def offer_speech_def try_send_def log_emit_def wp_simps)
    next
      case Full
      then show ?thesis
        using st Some by (simp add: tick_generate_def offer_speech_def try_send_def log_emit_def wp_simps
            chat_ticked_def logged_def)
    next
      case Disconnected
      then show ?thesis
        using st Some by (simp add: tick_generate_def offer_speech_def try_send_def log_emit_def wp_simps
            chat_ticked_def logged_def announced_def)
    qed
  qed
qed

lemma wp_tick_chat:
  assumes "is_generating (cr_state c)"
  shows "wp (tick_chat env c timeout) (chat_ticked env c (cs_log s)) s"
proof -
  let ?n = "ev_now env (cs_world s)"
  let ?t = "s\<lparr>cs_world := snd ?n\<rparr>"
  have q: "quiet_env env (\<lambda>_. ())" by (simp add: quiet_env_def)
  have late: "wp (tick_timeout env c timeout) (chat_ticked env c (cs_log s)) ?t"
    unfolding tick_timeout_def emit_def wp_bind
    by (rule wp_emit_must_tried [OF q]) (simp add: wp_simps chat_ticked_def logged_told)
  have "wp (tick_generate env c) (chat_ticked env c (cs_log ?t)) ?t" by (rule wp_tick_generate [OF assms])
  with late show ?thesis by (simp add: tick_chat_def wp_simps)
qed

text \<open>A tick of one chat is made of sends, log entries, counters, the clock and the puller.\<close>

definition tick_keeps :: "'w env \<Rightarrow> ('w cstate \<Rightarrow> bool) \<Rightarrow> bool" where
  "tick_keeps env I \<longleftrightarrow> (\<forall>tx e. keeps I (world_op (ev_try_send env tx e))) \<and> (\<forall>tx e r. keeps I (log_emit tx e r))
     \<and> (\<forall>h. keeps I (on_metrics h)) \<and> keeps I (world_op (ev_now env)) \<and> (\<forall>p. keeps I (world_op (ev_next env p)))"

lemma keeps_tick_emits:
  assumes t: "tick_keeps env I"
  shows "keeps I (emit_must_deliver env tx e)" "keeps I (emit_best_effort env tx e)" "keeps I (tick_emit env tx e)"
    "keeps I (emit env tx e)"
proof -
  have bumps: "keeps I bump_dropped_must" "keeps I bump_dropped_token" "keeps I bump_disconnects"
    using t by (simp_all add: tick_keeps_def bump_defs)
  have send: "keeps I (try_send env tx e)" "keeps I (log_emit tx e r)" for r
    using t by (simp_all add: tick_keeps_def try_send_def)
  have cases: "keeps I (case r of Sent \<Rightarrow> m1 | Full \<Rightarrow> m2 | Disconnected \<Rightarrow> m3)"
    if "keeps I m1" "keeps I m2" "keeps I m3" for r and m1 m2 m3 :: "('a, 'b) ctl"
    using that by (cases r) simp_all
  have spins: "keeps I (emit_spins n env tx e)" for n
    by (induction n) (simp_all, (intro keep_steps bumps send cases; assumption)+)
  show must: "keeps I (emit_must_deliver env tx e)"
    unfolding emit_must_deliver_def by (intro keep_steps spins send)
  show best: "keeps I (emit_best_effort env tx e)"
    unfolding emit_best_effort_def by (intro keep_steps bumps send)
  show "keeps I (tick_emit env tx e)" unfolding tick_emit_def by (intro keep_steps must best)
  show "keeps I (emit env tx e)" unfolding emit_def by (intro keep_steps must)
qed

lemma keeps_tick_chat:
  assumes t: "tick_keeps env I"
  shows "keeps I (tick_chat env d timeout)"
proof -
  note ops = keeps_tick_emits [OF t]
  have bumps: "keeps I bump_poisonings" "keeps I bump_timeouts" "keeps I bump_disconnects"
    using t by (simp_all add: tick_keeps_def bump_defs)
  have world: "keeps I (world_op (ev_now env))" "keeps I (world_op (ev_next env p))" "keeps I (try_send env tx e)"
    "keeps I (log_emit tx e r)" for p tx e r
    using t by (simp_all add: tick_keeps_def try_send_def)
  have offer: "keeps I (offer_speech env d')" for d'
  proof -
    have res: "keeps I (case r of Sent \<Rightarrow> m1 | Full \<Rightarrow> m2 | Disconnected \<Rightarrow> m3)"
      if "keeps I m1" "keeps I m2" "keeps I m3" for r and m1 m2 m3 :: "('a, chat_runtime \<times> speech_step) ctl"
      using that by (cases r) simp_all
    show ?thesis
      by (cases "cr_state d'") (simp_all add: offer_speech_def keeps_return split: option.split,
        intro impI allI keep_steps res world bumps)
  qed
  have err: "keeps I (apply_error env d' e)" for d' e
    unfolding apply_error_def Let_def by (intro keep_steps ops bumps)
  have step: "keeps I (apply_step env d' st)" for d' st
  proof (cases st)
    case Panicked
    show ?thesis unfolding apply_step_def Panicked by (simp, intro keep_steps ops bumps)
  next
    case Exhausted
    show ?thesis unfolding apply_step_def Exhausted by (simp, intro keep_steps ops)
  next
    case (Yielded y)
    show ?thesis
    proof (cases y)
      case (Inl e)
      show ?thesis unfolding apply_step_def Yielded Inl by (simp add: err)
    next
      case (Inr ev)
      show ?thesis unfolding apply_step_def Yielded Inr Let_def
        by (cases ev; simp only: next_result.case sum.case token_event.case; intro keep_steps ops world)
    qed
  qed
  show ?thesis
    unfolding tick_chat_def tick_timeout_def tick_generate_def
    by (intro keep_steps offer step ops bumps world)
qed

lemma env_ok_try_send: "env_ok env opened \<Longrightarrow> still opened (ev_try_send env tx e)"
  by (simp add: env_ok_def clocks_still_def quiet_env_def still_def)

lemma keeps_holds_tick:
  assumes ok: "env_ok env opened"
  shows "keeps (holds opened D K k c) (tick_chat env d timeout)"
proof (rule keeps_tick_chat)
  have "keeps (holds opened D K k c) (log_emit tx e r)" for tx e r
    by (rule keepsI) (simp add: wp_simps log_emit_def holds_def)
  then show "tick_keeps env (holds opened D K k c)"
    by (simp add: tick_keeps_def keeps_holds env_ok_try_send env_ok_still ok)
qed

lemma keeps_chats_tick: "keeps (chats_are cs) (tick_chat env d timeout)"
proof (rule keeps_tick_chat)
  show "tick_keeps env (chats_are cs)"
    unfolding tick_keeps_def by (intro conjI allI; rule keepsI; simp add: wp_simps chats_are_def log_emit_def)
qed

lemma good_mono: "good opened D K s \<Longrightarrow> K \<subseteq> K' \<Longrightarrow> good opened D K' s"
  by (auto simp: good_def tidy_but_def list_all_iff)

lemma valid_tick_one:
  assumes ok: "env_ok env opened"
  shows "valid (good opened D K) (tick_one env timeout k) (\<lambda>r s. good opened D (K \<union> set r) s)"
  unfolding tick_one_def
proof (rule valid_get_chat)
  show "valid (good opened D K) (State_Monad.return []) (\<lambda>r. good opened D (K \<union> set r))"
    by (simp add: valid_return)
next
  fix c
  let ?H = "\<lambda>s. good opened D K s \<and> map_of (cs_chats s) k = Some c"
  show "valid ?H (if \<not> should_tick c then State_Monad.return [] else State_Monad.bind (tick_chat env c timeout)
      (\<lambda>c'. State_Monad.bind (set_chat k c') (\<lambda>_. State_Monad.return (if should_cleanup (schedule_view_of c') then [k] else []))))
      (\<lambda>r. good opened D (K \<union> set r))"
  proof (rule valid_if)
    show "valid ?H (State_Monad.return []) (\<lambda>r. good opened D (K \<union> set r))" by (rule valid_return) simp
    assume "\<not> \<not> should_tick c"
    then have gen: "is_generating (cr_state c)" by (simp add: should_tick_def)
    have "valid (holds opened D K k c) (tick_chat env c timeout) (\<lambda>c' s. holds opened D K k c s \<and> same_ids c c')"
    proof (rule validI)
      fix s assume h: "holds opened D K k c s"
      show "wp (tick_chat env c timeout) (\<lambda>c' s. holds opened D K k c s \<and> same_ids c c') s"
        using keepsD [OF keeps_holds_tick [OF ok] h, of c timeout] wp_tick_chat [OF gen, of env timeout s]
        by (simp add: wp_def chat_ticked_def)
    qed
    then have "valid (holds opened D K k c) (State_Monad.bind (tick_chat env c timeout)
      (\<lambda>c'. State_Monad.bind (set_chat k c') (\<lambda>_. State_Monad.return (if should_cleanup (schedule_view_of c') then [k] else []))))
      (\<lambda>r. good opened D (K \<union> set r))"
    proof (rule valid_bind)
      fix c'
      let ?r = "if should_cleanup (schedule_view_of c') then [k] else []"
      show "valid (\<lambda>s. holds opened D K k c s \<and> same_ids c c') (State_Monad.bind (set_chat k c') (\<lambda>_. State_Monad.return ?r))
          (\<lambda>r. good opened D (K \<union> set r))"
      proof (rule validI)
        fix s assume h: "holds opened D K k c s \<and> same_ids c c'"
        then have g: "good opened D (K \<union> set ?r) s" and c: "map_of (cs_chats s) k = Some c"
          and ids: "cr_session c' = cr_session c" "cr_tx c' = cr_tx c"
          by (auto simp: holds_def same_ids_def intro: good_mono)
        have "good opened D (K \<union> set ?r) (s\<lparr>cs_chats := chats_update k (\<lambda>_. c') (cs_chats s)\<rparr>)"
          by (rule good_set_chat [OF g c ids]) simp
        then show "wp (State_Monad.bind (set_chat k c') (\<lambda>_. State_Monad.return ?r)) (\<lambda>r. good opened D (K \<union> set r)) s"
          by (simp add: set_chat_def wp_simps del: if_split)
      qed
    qed
    then show "valid ?H (State_Monad.bind (tick_chat env c timeout)
      (\<lambda>c'. State_Monad.bind (set_chat k c') (\<lambda>_. State_Monad.return (if should_cleanup (schedule_view_of c') then [k] else []))))
      (\<lambda>r. good opened D (K \<union> set r))"
      by (simp add: holds_def [abs_def])
  qed
qed

lemma valid_tick_all:
  assumes ok: "env_ok env opened"
  shows "valid (good opened D K) (tick_all env timeout ks) (\<lambda>r s. good opened D (K \<union> set r) s)"
proof (induction ks arbitrary: K)
  case Nil
  show ?case by (simp add: valid_return)
next
  case (Cons k ks)
  show ?case
    unfolding tick_all.simps
  proof (rule valid_bind [OF valid_tick_one [OF ok]], rule valid_bind [OF Cons.IH])
    fix r rs
    show "valid (good opened D (K \<union> set r \<union> set rs)) (State_Monad.return (r @ rs)) (\<lambda>r. good opened D (K \<union> set r))"
      by (rule valid_return) (simp add: Un_assoc)
  qed
qed

text \<open>Removing a key settles what was noted of it.\<close>

lemma valid_remove_finished:
  assumes ok: "env_ok env opened"
  shows "valid (good opened D (insert k K)) (remove_finished env k) (\<lambda>_. good opened D K)"
proof (rule validI)
  fix s assume g: "good opened D (insert k K) s"
  show "wp (remove_finished env k) (\<lambda>_. good opened D K) s"
  proof (cases "map_of (cs_chats s) k")
    case None
    then have "j \<noteq> k" if "(j, c) \<in> set (cs_chats s)" for j c using that by (auto simp: map_of_eq_None_iff image_iff)
    then have "good opened D K s" using g by (fastforce simp: good_def tidy_but_def list_all_iff)
    with None show ?thesis by (simp add: remove_finished_def wp_simps)
  next
    case (Some c)
    note rem = good_remove [OF g Some]
    have "good opened (insert (cr_session c) D) K (s\<lparr>cs_chats := chats_remove k (cs_chats s)\<rparr>)"
      using rem(1) by (fastforce simp: good_def tidy_but_def list_all_iff chats_remove_set chat_inv_def)
    from validD [OF valid_terminate_owned [OF ok rem(2)] this] Some
    show ?thesis by (simp add: remove_finished_def wp_simps)
  qed
qed

lemma valid_remove_all:
  assumes ok: "env_ok env opened"
  shows "valid (good opened D (set ks)) (for_each (remove_finished env) ks) (\<lambda>_. good opened D {})"
proof (induction ks)
  case Nil
  show ?case by (simp add: valid_return)
next
  case (Cons k ks)
  show ?case
    using valid_bind [OF valid_remove_finished [OF ok] Cons.IH] by simp
qed

lemma keeps_tick_maintenance:
  assumes ok: "env_ok env opened"
  shows "keeps (good opened D K) (tick_maintenance env)"
  unfolding tick_maintenance_def
  by (intro keep_steps keeps_modify_fields keeps_for_each keeps_terminate_runtime keeps_maintenance keeps_world_op
      env_ok_still ok)

lemma keeps_tick:
  assumes ok: "env_ok env opened"
  shows "keeps (good opened D {}) (tick_active_chats env)"
  unfolding tick_active_chats_def keeps_def
  apply (rule valid_keeps_bind [OF keeps_tick_maintenance [OF ok]])
  apply (rule valid_keeps_bind [OF keeps_asks(1)])+
  apply (rule valid_bind [OF valid_tick_all [OF ok]])
  apply (simp add: valid_remove_all [OF ok])
  done

end
