(* ===== verification/Controller.thy ===== *)
theory Controller
  imports ControlInv "HOL-Library.Multiset"
begin

text \<open>
  The controller as a whole: its loop as a step relation, what every reachable state satisfies, and
  what its commands promise.
\<close>

section \<open>Commands keep the invariant\<close>

text \<open>The session a command leaves open with no chat: that of a background task it overwrites.\<close>

definition leaked :: "'w env \<Rightarrow> command option \<Rightarrow> 'w cstate \<Rightarrow> nat set" where
  "leaked env received s = (case received of Some (SystemInfer c) \<Rightarrow> overwritten env c s | _ \<Rightarrow> {})"

lemma valid_reply:
  "keeps I m \<Longrightarrow> keeps I (State_Monad.bind m (\<lambda>x. State_Monad.return (f x)))"
  by (intro keep_steps)

lemma keeps_dispatch:
  assumes ok: "env_ok env opened" and "\<And>c. cmd \<noteq> SystemInfer c"
  shows "keeps (good opened D {}) (dispatch_cmd env cmd)"
  using assms(2)
  by (cases cmd; simp only: dispatch_cmd_def command.case)
    (intro valid_reply keeps_load_model keeps_helpers keeps_unload_model keeps_reload keeps_start_chat
      keeps_continue_chat keeps_push_microphone keeps_commit_microphone keeps_terminate_runtime
      keeps_pause_chat keeps_resume_chat keep_steps keeps_world_op keeps_world_do env_ok_still ok
     | simp add: stop_chat_def keeps_terminate_runtime [OF ok])+

lemma wp_dispatch:
  assumes ok: "env_ok env opened" and g: "good opened D {} s"
  shows "wp (dispatch_cmd env cmd) (\<lambda>_. good opened (D \<union> leaked env (Some cmd) s) {}) s"
proof (cases "\<exists>c. cmd = SystemInfer c")
  case True
  then obtain c where c: "cmd = SystemInfer c" by blast
  show ?thesis
    using wp_start_ephemeral [OF ok g, of c] by (simp add: dispatch_cmd_def c wp_simps leaked_def)
next
  case False
  then have "leaked env (Some cmd) s = {}" by (cases cmd) (auto simp: leaked_def)
  then show ?thesis using keepsD [OF keeps_dispatch [OF ok] g] False by simp
qed

lemma wp_loop_turn:
  assumes ok: "env_ok env opened" and g: "good opened D {} s"
  shows "wp (loop_turn env received) (\<lambda>_. good opened (D \<union> leaked env received s) {}) s"
proof -
  have tick: "wp (tick_active_chats env) (\<lambda>_. good opened E {}) t" if "good opened E {} t" for E t
    using keepsD [OF keeps_tick [OF ok] that] .
  show ?thesis
  proof (cases received)
    case None
    then show ?thesis using g tick [OF g] by (simp add: loop_turn_def wp_simps leaked_def)
  next
    case (Some cmd)
    let ?E = "D \<union> leaked env received s"
    have "wp (dispatch_cmd env cmd) (\<lambda>_. good opened ?E {}) s"
      using wp_dispatch [OF ok g] Some by simp
    then have "wp (dispatch_cmd env cmd) (\<lambda>x. wp (case x of (flow, _) \<Rightarrow>
        if flow = Break then State_Monad.return True else if cs_chats s = [] then State_Monad.return False
        else State_Monad.bind (tick_active_chats env) (\<lambda>_. State_Monad.return False)) (\<lambda>_. good opened ?E {})) s"
      by (rule wp_mono) (auto simp: wp_simps tick split: prod.split)
    then show ?thesis by (simp add: loop_turn_def wp_simps Some)
  qed
qed

section \<open>Reachable states\<close>

text \<open>
  A step is a turn of the loop, with any command or none, or the map of chats being walked in another
  order from now on.\<close>

inductive controller_step :: "'w env \<Rightarrow> 'w cstate \<Rightarrow> 'w cstate \<Rightarrow> bool" for env :: "'w env" where
  turn: "controller_step env s (snd (run_state (loop_turn env received) s))"
| rehash: "mset cs = mset (cs_chats s) \<Longrightarrow> controller_step env s (s\<lparr>cs_chats := cs\<rparr>)"

inductive_cases controller_stepE: "controller_step (env :: 'w env) s t"

text \<open>The same with an account of the sessions that were left open with no chat.\<close>

inductive controller_run :: "'w env \<Rightarrow> 'w cstate \<Rightarrow> 'w cstate \<Rightarrow> nat set \<Rightarrow> bool"
  for env :: "'w env" and s0 :: "'w cstate" where
  start: "controller_run env s0 s0 {}"
| turn: "controller_run env s0 s L \<Longrightarrow>
     controller_run env s0 (snd (run_state (loop_turn env received) s)) (L \<union> leaked env received s)"
| rehash: "controller_run env s0 s L \<Longrightarrow> mset cs = mset (cs_chats s) \<Longrightarrow>
     controller_run env s0 (s\<lparr>cs_chats := cs\<rparr>) L"

text \<open>Every reachable state has such an account.\<close>

lemma reachable_run: "(controller_step env)\<^sup>*\<^sup>* s0 s \<Longrightarrow> \<exists>L. controller_run env s0 s L"
proof (induction rule: rtranclp_induct)
  case base
  show ?case using controller_run.start by blast
next
  case (step s t)
  then show ?case by (elim controller_stepE exE) (blast intro: controller_run.intros)+
qed

lemma run_reachable: "controller_run env s0 s L \<Longrightarrow> (controller_step env)\<^sup>*\<^sup>* s0 s"
  by (induction rule: controller_run.induct) (auto intro: controller_step.intros rtranclp.rtrancl_into_rtrancl)

lemma mset_map_distinct: "mset xs = mset ys \<Longrightarrow> distinct (map f xs) \<longleftrightarrow> distinct (map f ys)"
  by (metis mset_map mset_eq_imp_distinct_iff)

lemma good_rehash:
  assumes g: "good opened D K s" and m: "mset cs = mset (cs_chats s)"
  shows "good opened D K (s\<lparr>cs_chats := cs\<rparr>)"
proof -
  have set: "set cs = set (cs_chats s)" using m by (rule mset_eq_setD)
  have ses: "sessions cs = sessions (cs_chats s)" by (simp add: sessions_def set)
  have "keyed cs" using g mset_map_distinct [OF m, of fst] mset_map_distinct [OF m, of "\<lambda>(k, c). cr_session c"]
    by (simp add: good_def chat_inv_def keyed_def)
  then show ?thesis
    using g ses set by (simp add: good_def chat_inv_def tidy_but_def list_all_iff)
qed

lemma run_good:
  assumes ok: "env_ok env opened" and "opened w = {}" "controller_run env (initial_state env config now w) s L"
  shows "good opened L {} s"
  using assms(3)
proof (induction rule: controller_run.induct)
  case start
  show ?case
    using assms(2) by (simp add: initial_state_def good_def chat_inv_def tidy_but_def keyed_def)
next
  case (turn s L received)
  show ?case using wp_loop_turn [OF ok turn.IH, of received] by (simp add: wp_def)
next
  case (rehash s L cs)
  show ?case by (rule good_rehash [OF rehash.IH rehash.hyps(2)])
qed


text \<open>
  The leak is real: with both keys of a background task taken, a task that starts leaves the session
  under the second key open, with no chat.\<close>

lemma second_key_leaks:
  assumes "map_of (cs_chats s) (ephemeral_id c) \<noteq> None"
    and "map_of (cs_chats s) (ephemeral_id c @ '':'' @ show_nat (fst (ev_unix_millis env (cs_world s)))) = Some d"
    and "\<And>spec w. fst (ev_start_session env spec w) = Inr sid" "sid \<noteq> cr_session d"
    and "\<And>i g w. \<exists>p. fst (ev_pull env i g w) = Inr p"
  shows "leaked env (Some (SystemInfer c)) s = {cr_session d}"
proof -
  let ?k = "ephemeral_id c @ '':'' @ show_nat (fst (ev_unix_millis env (cs_world s)))"
  have k: "fst (run_state (unique_ephemeral_id env c) s) = ?k"
    using assms(1) by (auto simp: unique_ephemeral_id_def get_chat_def asks_def world_op_def case_prod_beta)
  have "wp (start_ephemeral env c) (\<lambda>_ t. \<exists>r. map_of (cs_chats t) ?k = Some r \<and> cr_session r = sid) s"
  proof -
    have adopt: "wp (adopt_ephemeral env c spec ?k sid) (\<lambda>_ t. \<exists>r. map_of (cs_chats t) ?k = Some r \<and> cr_session r = sid) u"
      for spec u
    proof -
      obtain p where "fst (ev_pull env sid spec (cs_world u)) = Inr p" using assms(5) by blast
      then show ?thesis by (simp add: adopt_ephemeral_def wp_simps register_hook_def chats_insert_def)
    qed
    show ?thesis
      using assms(1) adopt
      by (auto simp: start_ephemeral_def unique_ephemeral_id_def apply_generation_defaults_def wp_simps assms(3))
  qed
  then have "map_of (cs_chats (snd (run_state (start_ephemeral env c) s))) ?k \<noteq> Some d"
    using assms(4) by (auto simp: wp_def)
  then show ?thesis using assms(2) by (simp add: leaked_def overwritten_def replaced_def k del: append_Cons)
qed

text \<open>Reloading the model leaves every chat where it is, with the session it had.\<close>

lemma reload_keeps_chats: "cs_chats (snd (run_state (reload_with_admission env) s)) = cs_chats s"
proof -
  let ?I = "chats_are (cs_chats s)"
  have world: "keeps ?I (world_op f)" "keeps ?I (world_do g)" for f :: "'a \<Rightarrow> 'b \<times> 'a" and g
    by (rule keepsI; simp add: wp_simps chats_are_def)+
  have gov: "keeps ?I (world_op (ev_governor env))" and unix: "keeps ?I (world_op (ev_unix_now env))"
    and load: "keeps ?I (world_op (ev_reload_model env))"
    by (rule keepsI; simp add: wp_simps chats_are_def)+
  have set: "keeps ?I (modify (\<lambda>s. s\<lparr>cs_residency := f s\<rparr>))"
    "keeps ?I (modify (\<lambda>s. s\<lparr>cs_loaded_file_bytes := g s, cs_idle_unloaded := i s, cs_last_llm_activity := h s\<rparr>))" for f g h i
    by (rule keepsI; simp add: wp_simps chats_are_def)+
  have "keeps ?I (reload_with_admission env)"
    unfolding reload_with_admission_def admit_runtime_def
    by (intro keep_steps gov unix load set world)
  from keepsD [OF this, of s] show ?thesis by (simp add: wp_def chats_are_def)
qed

section \<open>A concrete engine\<close>

text \<open>
  The world keeps the open and the paused sessions, the time, the results the next loads will have and
  the loaded model.  Everything else succeeds.\<close>

record toy_world =
  ty_open :: "nat list"
  ty_clock :: nat
  ty_paused :: "nat list"
  ty_loads :: "exec_error option list"
  ty_model :: "string option"

definition toy_id :: "nat list \<Rightarrow> nat" where
  "toy_id ids = Suc (foldr max ids 0)"

definition toy_planner :: "string planner" where
  "toy_planner = \<lparr>pl_fs = \<lparr>fs_is_dir = (\<lambda>_. False), fs_parent = (\<lambda>_. None), fs_has_genai_config = (\<lambda>_. False),
       fs_listing = (\<lambda>_. None), fs_metadata_len = (\<lambda>_. Some (100 * 1024 * 1024))\<rparr>,
     pl_backend = CpuOnly, pl_read_info = (\<lambda>_. Inl (OtherReadError [])), pl_times_1_2 = id\<rparr>"

definition toy_env :: "toy_world env" where
  "toy_env = \<lparr>
     ev_try_send = (\<lambda>_ _ w. (Sent, w)),
     ev_caller_gone = (\<lambda>w. (False, w)),
     ev_now = (\<lambda>w. (ty_clock w, w)),
     ev_unix_now = (\<lambda>w. (int (ty_clock w), w)),
     ev_unix_millis = (\<lambda>w. (ty_clock w, w)),
     ev_debug = (\<lambda>_. []),
     ev_display = (\<lambda>_. []),
     ev_defaults = (\<lambda>_. (None, None)),
     ev_start_session = (\<lambda>_ w. (Inr (toy_id (ty_open w)), w\<lparr>ty_open := toy_id (ty_open w) # ty_open w\<rparr>)),
     ev_initial_dropped = (\<lambda>_ _. 0),
     ev_end_session = (\<lambda>i w. w\<lparr>ty_open := removeAll i (ty_open w)\<rparr>),
     ev_pull = (\<lambda>i _ w. (Inr i, w)),
     ev_next = (\<lambda>p w. (Yielded (Inr (if p \<in> set (ty_paused w) then PausedEv else EosEv)), w)),
     ev_append_messages = (\<lambda>_ _ w. (Inr 0, w)),
     ev_capturing = (\<lambda>_ _. False),
     ev_poisoned = (\<lambda>_ _. False),
     ev_push_microphone = (\<lambda>_ xs w. (Some (Inr (length xs)), w)),
     ev_commit_microphone = (\<lambda>_ w. (Some (Inr []), w)),
     ev_pause = (\<lambda>i w. w\<lparr>ty_paused := i # ty_paused w\<rparr>),
     ev_resume = (\<lambda>i w. w\<lparr>ty_paused := removeAll i (ty_paused w)\<rparr>),
     ev_stop = (\<lambda>_ w. w),
     ev_save_cache = (\<lambda>_ _ w. w),
     ev_keepwarm_enabled = (\<lambda>_. False),
     ev_idle_unload_secs = (\<lambda>_. None),
     ev_kv_candidate = (\<lambda>_ _. None),
     ev_kv_create_dir = (\<lambda>w. (True, w)),
     ev_kv_enforce_budget = (\<lambda>w. w),
     ev_is_model_loaded = (\<lambda>w. ty_model w \<noteq> None),
     ev_load_model = (\<lambda>r w. case ty_loads w of
         Some e # rest \<Rightarrow> (Some e, w\<lparr>ty_loads := rest\<rparr>)
       | _ \<Rightarrow> (None, w\<lparr>ty_loads := tl (ty_loads w), ty_model := Some (lr_model_path r)\<rparr>)),
     ev_unload_model = (\<lambda>w. w\<lparr>ty_model := None\<rparr>),
     ev_reload_model = (\<lambda>w. (None, w)),
     ev_upload_settings = (\<lambda>_ w. (None, w)),
     ev_backend_caps = (\<lambda>_. []),
     ev_governor = (\<lambda>w. (sample_governor Normal, w)),
     ev_planner = (\<lambda>_. toy_planner),
     ev_plan_message = (\<lambda>_. []),
     ev_load_embedder = (\<lambda>_ _ _ w. (Inr (), w)),
     ev_load_reranker = (\<lambda>_ _ w. (Inr (), w)),
     ev_unload_embedder = (\<lambda>w. w),
     ev_unload_reranker = (\<lambda>w. w),
     ev_embed = (\<lambda>_ w. (Inr (), w)),
     ev_rerank = (\<lambda>_ _ w. (Inr (), w)),
     ev_warm_model = (\<lambda>_ w. w),
     ev_answer = (\<lambda>_ _. [])\<rparr>"

definition toy_world :: toy_world where
  "toy_world = \<lparr>ty_open = [], ty_clock = 0, ty_paused = [], ty_loads = [], ty_model = None\<rparr>"

definition toy_config :: controller_config where
  "toy_config = \<lparr>cc_max_active_chats = 1, cc_generation_timeout = 120000000000,
     cc_event_channel_capacity = 4096, cc_tick_idle = 2000000\<rparr>"

definition toy_start :: "string \<Rightarrow> start_command" where
  "toy_start k = \<lparr>sc_chat_id = k, sc_messages = [user_msg ''hi''], sc_gen_spec = default_gen_spec,
     sc_thinking = ModeAuto, sc_model_id = None, sc_model_size_bytes = None, sc_tools = None, sc_tx = 1\<rparr>"

definition toy_state :: "toy_world cstate" where
  "toy_state = initial_state toy_env toy_config 0 toy_world"

lemma toy_id_fresh: "toy_id ids \<notin> set ids"
proof -
  have "i \<le> foldr max ids 0" if "i \<in> set ids" for i using that by (induction ids) (auto simp: le_max_iff_disj)
  then show ?thesis unfolding toy_id_def by fastforce
qed

lemma toy_ok: "env_ok toy_env (\<lambda>w. set (ty_open w))"
proof -
  have load: "ty_open (snd (case ls of Some e # rest \<Rightarrow> (Some e, w\<lparr>ty_loads := rest\<rparr>)
      | _ \<Rightarrow> (None, w\<lparr>ty_loads := tl (ty_loads w), ty_model := m\<rparr>))) = ty_open w" for ls w m
    by (simp split: list.split option.split)
  show ?thesis
    using toy_id_fresh
    by (auto simp: still_defs still_def still_do_def quiet_env_def toy_env_def load)
qed

lemma toy_runs: "controller_run toy_env toy_state (snd (run_state (loop_turn toy_env (Some (StartChat c))) toy_state)) {}"
  using controller_run.turn [OF controller_run.start, of toy_env toy_state "Some (StartChat c)"]
  by (simp add: leaked_def)


lemma toy_sel [simp]:
  "ev_try_send toy_env = (\<lambda>_ _ w. (Sent, w))" "ev_now toy_env = (\<lambda>w. (ty_clock w, w))"
  "ev_unix_now toy_env = (\<lambda>w. (int (ty_clock w), w))" "ev_unix_millis toy_env = (\<lambda>w. (ty_clock w, w))"
  "ev_defaults toy_env = (\<lambda>_. (None, None))" "ev_initial_dropped toy_env = (\<lambda>_ _. 0)"
  "ev_start_session toy_env = (\<lambda>_ w. (Inr (toy_id (ty_open w)), w\<lparr>ty_open := toy_id (ty_open w) # ty_open w\<rparr>))"
  "ev_pull toy_env = (\<lambda>i _ w. (Inr i, w))" "ev_keepwarm_enabled toy_env = (\<lambda>_. False)"
  "ev_kv_candidate toy_env = (\<lambda>_ _. None)" "ev_is_model_loaded toy_env = (\<lambda>w. ty_model w \<noteq> None)"
  "ev_append_messages toy_env = (\<lambda>_ _ w. (Inr 0, w))" "ev_stop toy_env = (\<lambda>_ w. w)"
  "ev_pause toy_env = (\<lambda>i w. w\<lparr>ty_paused := i # ty_paused w\<rparr>)"
  "ev_next toy_env = (\<lambda>p w. (Yielded (Inr (if p \<in> set (ty_paused w) then PausedEv else EosEv)), w))"
  by (simp_all add: toy_env_def)

lemma toy_emit: "run_state (emit_must_deliver toy_env tx e) s = (Sent, s\<lparr>cs_log := cs_log s @ [(tx, e, Sent)]\<rparr>)"
proof -
  have "emit_spins 64 toy_env tx e = emit_spins (Suc 63) toy_env tx e" by simp
  then show ?thesis
    by (simp only: emit_must_deliver_def emit_spins.simps)
      (simp add: try_send_def world_op_def log_emit_def modify_def)
qed

lemmas run_simps = asks_def modify_def world_op_def world_do_def ask_world_def on_chats_def get_chat_def when_do_def
  register_hook_def

lemma has_microphone_text [simp]: "\<not> has_microphone [user_msg t]"
  by (simp add: has_microphone_def user_msg_def plain_message_def)

lemma toy_started:
  "cs_chats (snd (run_state (start_chat toy_env (toy_start k)) toy_state)) =
     [(k, \<lparr>cr_session = 1, cr_tx = 1, cr_workload = PrimaryChat, cr_last_used = 0, cr_last_gen_spec = default_gen_spec,
       cr_state = Generating 1 0 default_gen_spec None, cr_health = default_health\<rparr>)]"
  by (simp add: start_chat_def run_simps toy_state_def initial_state_def toy_world_def toy_config_def toy_start_def
      apply_generation_defaults_def open_conversation_def evict_for_capacity_def maybe_wake_llm_def
      keepwarm_candidate_def adopt_session_def attach_user_turn_def attach_generating_puller_def toy_emit
      install_runtime_def chats_insert_def chats_remove_def toy_id_def default_gen_spec_def Let_def)

section \<open>Every turn's end is told\<close>

lemma wp_terminate_log:
  assumes "\<And>r t. cs_log t = cs_log s @ [(cr_tx c, terminal_event env c outcome, r)] \<Longrightarrow>
      tried env (cr_tx c) (terminal_event env c outcome) r \<Longrightarrow> cs_chats t = cs_chats s \<Longrightarrow> Q () t"
  shows "wp (terminate_runtime_owned env c outcome) Q s"
proof -
  have q: "quiet_env env (\<lambda>_. ())" by (simp add: quiet_env_def)
  have same: "cr_session (settle outcome c) = cr_session c" "cr_tx (settle outcome c) = cr_tx c"
    by (simp_all add: settle_def)
  define F where "F = finalize_runtime_session env (settle outcome c) (terminal_event env c outcome)"
  have fin: "wp F Q t" if "cs_log t = cs_log s" "cs_chats t = cs_chats s" for t
    unfolding F_def finalize_runtime_session_def wp_bind wp_world_do same
    by (rule wp_emit_must_tried [OF q])
      (simp add: deregister_and_end_session_def deregister_hook_def wp_simps assms that same_core_def)
  show ?thesis
    unfolding terminate_runtime_owned_def F_def [symmetric] by (simp add: wp_simps bump_defs fin)
qed

lemma announced_prepend: "announced env tx n \<Longrightarrow> announced env tx (n @ m)"
  by (auto simp: announced_def)

lemma wp_end_all_log:
  fixes s :: "'w cstate"
  shows "wp (for_each (\<lambda>(k, c). terminate_runtime_owned env c outcome) cs)
     (\<lambda>_ t. logged (cs_log s) (\<lambda>n. list_all (\<lambda>(k, c). announced env (cr_tx c) n) cs) t) s"
proof (induction cs arbitrary: s)
  case Nil
  show ?case by (simp add: wp_simps logged_def)
next
  case (Cons kc cs)
  obtain k c where kc: "kc = (k, c)" by (cases kc)
  show ?case
    unfolding kc for_each.simps wp_bind prod.case
  proof (rule wp_terminate_log)
    fix r and t :: "'w cstate" assume log: "cs_log t = cs_log s @ [(cr_tx c, terminal_event env c outcome, r)]"
    assume r: "tried env (cr_tx c) (terminal_event env c outcome) r"
    show "wp (for_each (\<lambda>(k, c). terminate_runtime_owned env c outcome) cs)
        (\<lambda>_. logged (cs_log s) (\<lambda>n. list_all (\<lambda>(k, c). announced env (cr_tx c) n) ((k, c) # cs))) t"
    proof (rule wp_mono [OF Cons.IH])
      fix u assume "logged (cs_log t) (\<lambda>n. list_all (\<lambda>(k, c). announced env (cr_tx c) n) cs) u"
      then obtain n where n: "cs_log u = cs_log t @ n" "list_all (\<lambda>(k, c). announced env (cr_tx c) n) cs"
        by (auto simp: logged_def)
      have "announced env (cr_tx c) ((cr_tx c, terminal_event env c outcome, r) # n)"
        using announced_prepend [of env "cr_tx c" "[(cr_tx c, terminal_event env c outcome, r)]" n]
          announced_one [OF r] by simp
      moreover have "list_all (\<lambda>(k, d). announced env (cr_tx d) ((cr_tx c, terminal_event env c outcome, r) # n)) cs"
        using n(2) announced_append [of env _ n "[(cr_tx c, terminal_event env c outcome, r)]"]
        by (auto simp: list_all_iff)
      ultimately show "logged (cs_log s) (\<lambda>n. list_all (\<lambda>(k, c). announced env (cr_tx c) n) ((k, c) # cs)) u"
        using n(1) log by (auto simp: logged_def)
    qed
  qed
qed

text \<open>
  C5: Shutting down leaves nothing behind but what was lost before. From any state the controller can
  reach, the end of its loop empties the map, ends every session except those of background tasks that
  had been overwritten, leaves no listener but of those, and tells every conversation in the map that it
  was stopped, unless its receiver is gone or its channel refuses the event sixty-four times in a row.\<close>
theorem shutdown_is_clean:
  assumes "env_ok env opened" "opened w = {}" "controller_run env (initial_state env config now w) s L"
    and "t = snd (run_state (shut_down env) s)"
  shows "cs_chats t = [] \<and> opened (cs_world t) = L \<and> dom (cs_hooks t) \<subseteq> L
    \<and> logged (cs_log s) (\<lambda>n. list_all (\<lambda>(k, c). announced env (cr_tx c) n) (cs_chats s)) t"
proof -
  have g: "good opened L {} s" by (rule run_good [OF assms(1-3)])
  have empty: "cs_chats t = []"
    using validD [OF drain_empties TrueI, of env "OutcomeCompleted ControllerShutdown" s] assms(4)
    by (simp add: wp_def shut_down_def chats_are_def)
  have "good opened L {} t"
    using validD [OF keeps_drain [OF assms(1)] g, of "OutcomeCompleted ControllerShutdown"] assms(4)
    by (simp add: wp_def shut_down_def)
  then have "opened (cs_world t) = L" "dom (cs_hooks t) \<subseteq> L"
    by (simp_all add: good_def chat_inv_def empty)
  moreover have "logged (cs_log s) (\<lambda>n. list_all (\<lambda>(k, c). announced env (cr_tx c) n) (cs_chats s)) t"
    using wp_end_all_log [of env "OutcomeCompleted ControllerShutdown" "cs_chats s" "s\<lparr>cs_chats := []\<rparr>"] assms(4)
    by (simp add: shut_down_def drain_chats_def wp_def run_simps)
  ultimately show ?thesis using empty by simp
qed

lemma toy_never_refuses: "\<not> refused_out toy_env tx e"
  by (simp add: refused_out_def numeral_eq_Suc)

lemma shutdown_is_clean_witness:
  "let s = snd (run_state (loop_turn toy_env (Some (StartChat (toy_start ''a'')))) toy_state);
       t = snd (run_state (shut_down toy_env) s) in
   ty_open (cs_world t) = [] \<and> cs_hooks t = Map.empty
     \<and> logged (cs_log s) (\<lambda>n. list_all (\<lambda>(k, c). announced toy_env (cr_tx c) n) (cs_chats s)) t"
  using shutdown_is_clean [OF toy_ok _ toy_runs [unfolded toy_state_def] refl, of "toy_start ''a''"]
  by (simp add: toy_state_def toy_world_def Let_def)

text \<open>The turn on channel \<open>tx\<close> of chat \<open>k\<close> goes on, or its end was told since the log was \<open>l\<close>.\<close>

definition told :: "'w env \<Rightarrow> string \<Rightarrow> nat \<Rightarrow> (nat \<times> controller_event \<times> emit_result) list \<Rightarrow> 'w cstate \<Rightarrow> bool" where
  "told env k tx l s \<longleftrightarrow> (\<exists>n. cs_log s = l @ n \<and>
     ((\<exists>c. map_of (cs_chats s) k = Some c \<and> is_generating (cr_state c) \<and> cr_tx c = tx) \<or> announced env tx n))"

text \<open>It stays so as long as the log only grows and the chat is left alone.\<close>

lemma told_step:
  assumes "told env k tx l s" "cs_log t = cs_log s @ m" "map_of (cs_chats t) k = map_of (cs_chats s) k"
  shows "told env k tx l t"
proof -
  obtain n where n: "cs_log s = l @ n" "(\<exists>c. map_of (cs_chats s) k = Some c \<and> is_generating (cr_state c) \<and> cr_tx c = tx)
      \<or> announced env tx n" using assms(1) by (auto simp: told_def)
  have "cs_log t = l @ (n @ m)" using n(1) assms(2) by simp
  moreover have "(\<exists>c. map_of (cs_chats t) k = Some c \<and> is_generating (cr_state c) \<and> cr_tx c = tx) \<or> announced env tx (n @ m)"
    using n(2) assms(3) announced_prepend [of env tx n m] by auto
  ultimately show ?thesis unfolding told_def by blast
qed

lemma told_ended:
  assumes "told env k tx l s" "cs_log t = cs_log s @ m"
    "\<And>c. map_of (cs_chats s) k = Some c \<Longrightarrow> cr_tx c = tx \<Longrightarrow> announced env tx m"
  shows "told env k tx l t"
proof -
  obtain n where n: "cs_log s = l @ n" "(\<exists>c. map_of (cs_chats s) k = Some c \<and> is_generating (cr_state c) \<and> cr_tx c = tx)
      \<or> announced env tx n" using assms(1) by (auto simp: told_def)
  have "announced env tx (n @ m)"
    using n(2) assms(3) announced_prepend [of env tx n m] announced_append [of env tx m n] by blast
  moreover have "cs_log t = l @ (n @ m)" using n(1) assms(2) by simp
  ultimately show ?thesis unfolding told_def by blast
qed

lemma told_simps [simp]:
  "told env k tx l (s\<lparr>cs_world := w\<rparr>) = told env k tx l s" "told env k tx l (s\<lparr>cs_residency := v\<rparr>) = told env k tx l s"
  "told env k tx l (s\<lparr>cs_last_maintenance := q\<rparr>) = told env k tx l s"
  "told env k tx l (s\<lparr>cs_last_llm_activity := a\<rparr>) = told env k tx l s"
  by (simp_all add: told_def)

lemma keeps_told_simple:
  "keeps (told env k tx l) (world_op f)" "keeps (told env k tx l) (world_do g)"
  "keeps (told env k tx l) (modify (\<lambda>s. s\<lparr>cs_residency := h s\<rparr>))"
  "keeps (told env k tx l) (modify (\<lambda>s. s\<lparr>cs_last_maintenance := i s\<rparr>))"
  by (rule keepsI; simp add: wp_simps)+

lemma wp_removed:
  fixes s :: "'w cstate"
  assumes t: "told env k tx l s" and c: "map_of (cs_chats s) j = Some c"
  shows "wp (State_Monad.bind (on_chats (chats_remove j)) (\<lambda>_. terminate_runtime_owned env c outcome))
    (\<lambda>_. told env k tx l) s"
  unfolding wp_bind wp_on_chats
proof (rule wp_terminate_log)
  fix r and t' :: "'w cstate" assume log: "cs_log t' = cs_log (s\<lparr>cs_chats := chats_remove j (cs_chats s)\<rparr>) @ [(cr_tx c, terminal_event env c outcome, r)]"
    and tried: "tried env (cr_tx c) (terminal_event env c outcome) r"
    and ch: "cs_chats t' = cs_chats (s\<lparr>cs_chats := chats_remove j (cs_chats s)\<rparr>)"
  show "told env k tx l t'"
  proof (cases "k = j")
    case True
    have "announced env tx [(cr_tx c, terminal_event env c outcome, r)]" if "cr_tx c = tx" using that announced_one [OF tried] by simp
    then show ?thesis using told_ended [OF t, of t'] log c True by simp
  next
    case False
    then show ?thesis using told_step [OF t, of t'] log ch by (simp add: map_of_chats_remove)
  qed
qed

lemma keeps_told_terminate:
  fixes env :: "'w env"
  shows "keeps (told env k tx l) (terminate_runtime env j outcome)"
proof (rule keepsI)
  fix s :: "'w cstate" assume t: "told env k tx l s"
  show "wp (terminate_runtime env j outcome) (\<lambda>_. told env k tx l) s"
    using t wp_removed [OF t] by (cases "map_of (cs_chats s) j") (simp_all add: terminate_runtime_def wp_simps)
qed

lemma keeps_told_remove:
  fixes env :: "'w env"
  shows "keeps (told env k tx l) (remove_finished env j)"
proof (rule keepsI)
  fix s :: "'w cstate" assume t: "told env k tx l s"
  show "wp (remove_finished env j) (\<lambda>_. told env k tx l) s"
    using t wp_removed [OF t] by (cases "map_of (cs_chats s) j") (simp_all add: remove_finished_def wp_simps)
qed

lemma keeps_told_tick_one:
  fixes env :: "'w env"
  shows "keeps (told env k tx l) (tick_one env timeout j)"
proof (rule keepsI)
  fix s :: "'w cstate" assume t: "told env k tx l s"
  show "wp (tick_one env timeout j) (\<lambda>_. told env k tx l) s"
  proof (cases "map_of (cs_chats s) j")
    case None
    with t show ?thesis by (simp add: tick_one_def wp_simps)
  next
    case (Some c)
    show ?thesis
    proof (cases "should_tick c")
      case False
      with t Some show ?thesis by (simp add: tick_one_def wp_simps)
    next
      case True
      then have gen: "is_generating (cr_state c)" by (simp add: should_tick_def)
      have chats: "wp (tick_chat env c timeout) (\<lambda>_ u. cs_chats u = cs_chats s) s"
        using keepsD [OF keeps_chats_tick, of "cs_chats s" s env c timeout] by (simp add: chats_are_def wp_def)
      have "wp (tick_chat env c timeout) (\<lambda>c' u. chat_ticked env c (cs_log s) c' u \<and> cs_chats u = cs_chats s) s"
        using wp_tick_chat [OF gen] chats by (simp add: wp_def)
      then have "wp (tick_chat env c timeout) (\<lambda>c' u. told env k tx l (u\<lparr>cs_chats := chats_update j (\<lambda>_. c') (cs_chats u)\<rparr>)) s"
      proof (rule wp_mono)
        fix c' u assume a: "chat_ticked env c (cs_log s) c' u \<and> cs_chats u = cs_chats s"
        let ?u = "u\<lparr>cs_chats := chats_update j (\<lambda>_. c') (cs_chats u)\<rparr>"
        obtain m where m: "cs_log u = cs_log s @ m" "\<not> is_generating (cr_state c') \<longrightarrow> announced env (cr_tx c) m"
          using a by (auto simp: chat_ticked_def logged_def)
        show "told env k tx l ?u"
        proof (cases "k = j")
          case False
          then show ?thesis using told_step [OF t, of ?u m] m(1) a by (simp add: map_of_chats_update)
        next
          case k: True
          show ?thesis
          proof (cases "is_generating (cr_state c')")
            case True
            obtain n where n: "cs_log s = l @ n" "(\<exists>c. map_of (cs_chats s) k = Some c \<and> is_generating (cr_state c) \<and> cr_tx c = tx)
                \<or> announced env tx n" using t by (auto simp: told_def)
            have "map_of (cs_chats ?u) k = Some c'" using k a Some by (simp add: map_of_chats_update)
            moreover have "cr_tx c' = cr_tx c" using a by (simp add: chat_ticked_def same_ids_def)
            ultimately show ?thesis
              unfolding told_def using n m(1) True k Some announced_prepend [of env tx n m]
              by (intro exI [of _ "n @ m"]) auto
          next
            case False
            then show ?thesis using told_ended [OF t, of ?u m] m k Some by auto
          qed
        qed
      qed
      then show ?thesis using Some True by (simp add: tick_one_def wp_simps set_chat_def)
    qed
  qed
qed

lemma keeps_told_tick_all: "keeps (told env k tx l) (tick_all env timeout ks)"
  by (induction ks) (auto intro!: keep_steps keeps_told_tick_one)

text \<open>A save, an unload of a helper and an idle unload while a chat is in flight leave the chats alone.\<close>

definition busy :: "string \<Rightarrow> 'w cstate \<Rightarrow> bool" where
  "busy k s \<longleftrightarrow> (\<exists>c. map_of (cs_chats s) k = Some c \<and> is_generating (cr_state c))"

definition told_busy :: "'w env \<Rightarrow> string \<Rightarrow> nat \<Rightarrow> (nat \<times> controller_event \<times> emit_result) list \<Rightarrow> 'w cstate \<Rightarrow> bool" where
  "told_busy env k tx l s \<longleftrightarrow> told env k tx l s \<and> busy k s"

lemma keeps_told_busy_simple:
  "keeps (told_busy env k tx l) (world_op f)" "keeps (told_busy env k tx l) (world_do g)"
  "keeps (told_busy env k tx l) (modify (\<lambda>s. s\<lparr>cs_residency := h s\<rparr>))"
  "keeps (told_busy env k tx l) (modify (\<lambda>s. s\<lparr>cs_last_maintenance := i s\<rparr>))"
  "keeps (told_busy env k tx l) (modify (\<lambda>s. s\<lparr>cs_last_llm_activity := a s\<rparr>))"
  by (rule keepsI; simp add: wp_simps told_busy_def busy_def)+

lemma keeps_told_busy_idle:
  fixes env :: "'w env"
  shows "keeps (told_busy env k tx l) (maybe_idle_unload_llm env)"
proof (rule keepsI)
  fix s :: "'w cstate" assume t: "told_busy env k tx l s"
  then have active: "list_ex (\<lambda>(k, c). is_in_flight (cr_state c)) (cs_chats s)"
    by (fastforce simp: told_busy_def busy_def list_ex_iff is_in_flight_def dest: map_of_SomeD)
  show "wp (maybe_idle_unload_llm env) (\<lambda>_. told_busy env k tx l) s"
    using t active
    by (simp add: maybe_idle_unload_llm_def wp_simps told_busy_def busy_def split: option.split)
qed

lemma keeps_told_busy_maintenance: "keeps (told_busy env k tx l) (run_residency_maintenance env)"
proof -
  have helper: "keeps (told_busy env k tx l) (unload_evicted_helper env j)" for j
    unfolding unload_evicted_helper_def by (cases j) (auto intro: keeps_return keeps_told_busy_simple)
  show ?thesis
    unfolding run_residency_maintenance_def
    by (intro keep_steps keeps_for_each helper keeps_told_busy_idle keeps_told_busy_simple)
qed

lemma wp_removed_other:
  fixes s :: "'w cstate"
  assumes t: "told_busy env k tx l s" and "j \<noteq> k"
  shows "wp (terminate_runtime env j outcome) (\<lambda>_. told_busy env k tx l) s"
proof (cases "map_of (cs_chats s) j")
  case None
  with t show ?thesis by (simp add: terminate_runtime_def wp_simps)
next
  case (Some c)
  let ?t = "s\<lparr>cs_chats := chats_remove j (cs_chats s)\<rparr>"
  have "wp (terminate_runtime_owned env c outcome) (\<lambda>_. told_busy env k tx l) ?t"
  proof (rule wp_terminate_log)
    fix r and u :: "'w cstate" assume log: "cs_log u = cs_log ?t @ [(cr_tx c, terminal_event env c outcome, r)]"
      and ch: "cs_chats u = cs_chats ?t"
    have "told env k tx l u" using t log ch assms(2)
      by (intro told_step [of env k tx l s u]) (simp_all add: told_busy_def map_of_chats_remove)
    moreover have "busy k u" using t ch assms(2) by (simp add: told_busy_def busy_def map_of_chats_remove)
    ultimately show "told_busy env k tx l u" by (simp add: told_busy_def)
  qed
  then show ?thesis using Some by (simp add: terminate_runtime_def wp_simps)
qed

lemma wp_removed_others:
  fixes s :: "'w cstate"
  assumes "told_busy env k tx l s" "k \<notin> set js"
  shows "wp (for_each (\<lambda>j. terminate_runtime env j outcome) js) (\<lambda>_. told_busy env k tx l) s"
  using assms
proof (induction js arbitrary: s)
  case Nil
  then show ?case by (simp add: wp_simps)
next
  case (Cons j js)
  have "wp (terminate_runtime env j outcome) (\<lambda>_. told_busy env k tx l) s"
    using Cons.prems by (intro wp_removed_other) auto
  then show ?case
    unfolding for_each.simps wp_bind by (rule wp_mono) (use Cons in auto)
qed

lemma wp_told_maintenance:
  fixes s :: "'w cstate"
  assumes t: "told_busy env k tx l s" and d: "distinct (map fst (cs_chats s))"
  shows "wp (tick_maintenance env) (\<lambda>_. told_busy env k tx l) s"
proof -
  obtain c where c: "map_of (cs_chats s) k = Some c" "is_generating (cr_state c)"
    using t by (auto simp: told_busy_def busy_def)
  have quiet: "told_busy env k tx l (s\<lparr>cs_world := w\<rparr>)" "told_busy env k tx l (s\<lparr>cs_world := w, cs_last_maintenance := q\<rparr>)" for w q
    using t by (simp_all add: told_busy_def busy_def)
  have "k \<notin> set (expired_captures timeout now (cs_chats s))" for timeout now
  proof
    assume "k \<in> set (expired_captures timeout now (cs_chats s))"
    then obtain e where "(k, e) \<in> set (cs_chats s)" "is_capturing_microphone (cr_state e)"
      by (auto simp: expired_captures_def)
    then have "e = c" using c(1) d by (metis map_of_eq_Some_iff option.inject)
    with c(2) \<open>is_capturing_microphone (cr_state e)\<close> show False by (cases "cr_state c") simp_all
  qed
  then have ended: "wp (for_each (\<lambda>j. terminate_runtime env j (OutcomeFailed Timeout)) (expired_captures timeout now (cs_chats s)))
      (\<lambda>_. told_busy env k tx l) (s\<lparr>cs_world := w, cs_last_maintenance := q\<rparr>)" for timeout now w q
    by (intro wp_removed_others quiet)
  have rest: "wp (State_Monad.bind (for_each (\<lambda>j. terminate_runtime env j (OutcomeFailed Timeout))
      (expired_captures timeout now (cs_chats s))) (\<lambda>_. run_residency_maintenance env)) (\<lambda>_. told_busy env k tx l)
      (s\<lparr>cs_world := w, cs_last_maintenance := q\<rparr>)" for timeout now w q
    unfolding wp_bind
    by (rule wp_mono [OF ended]) (rule keepsD [OF keeps_told_busy_maintenance])
  have order: "s\<lparr>cs_last_maintenance := q, cs_world := w\<rparr> = s\<lparr>cs_world := w, cs_last_maintenance := q\<rparr>" for q w
    by simp
  show ?thesis
    using quiet(1) rest by (simp add: tick_maintenance_def wp_simps order)
qed

text \<open>
  C2: No turn ends in silence. For every chat that is generating when a tick of the controller begins,
  after the tick the same turn is still going on, or an end of it (end of reply, stop or error) was put
  on its channel, or the channel was found without a receiver, or the channel refused that end
  sixty-four times in a row. This holds whatever the puller, the session, the clock and the other chats
  do, timeouts, panics and housekeeping included.\<close>
theorem tick_never_ends_in_silence:
  fixes s :: "'w cstate"
  assumes "distinct (map fst (cs_chats s))" "map_of (cs_chats s) k = Some c" "is_generating (cr_state c)"
    and "t = snd (run_state (tick_active_chats env) s)"
  shows "\<exists>n. cs_log t = cs_log s @ n \<and>
    ((\<exists>c'. map_of (cs_chats t) k = Some c' \<and> is_generating (cr_state c') \<and> cr_tx c' = cr_tx c)
     \<or> (\<exists>e. (cr_tx c, e, Disconnected) \<in> set n)
     \<or> (\<exists>e. is_final e \<and> ((cr_tx c, e, Sent) \<in> set n
          \<or> (cr_tx c, e, Full) \<in> set n \<and> (\<exists>w. refuses env (cr_tx c) e 64 w))))"
proof -
  let ?T = "told env k (cr_tx c) (cs_log s)"
  have start: "told_busy env k (cr_tx c) (cs_log s) s"
    using assms(2,3) by (auto simp: told_busy_def told_def busy_def)
  have "wp (tick_maintenance env) (\<lambda>_. ?T) s"
    by (rule wp_mono [OF wp_told_maintenance [OF start assms(1)]]) (simp add: told_busy_def)
  then have "wp (tick_active_chats env) (\<lambda>_. ?T) s"
    unfolding tick_active_chats_def wp_bind [of "tick_maintenance env"]
  proof (rule wp_mono)
    fix u :: "'w cstate" assume "?T u"
    then show "wp (State_Monad.bind (asks cs_chats) (\<lambda>cs. State_Monad.bind (asks cs_config) (\<lambda>config.
        State_Monad.bind (tick_all env (cc_generation_timeout config) (tick_order (views cs)))
          (for_each (remove_finished env))))) (\<lambda>_. ?T) u"
      by (intro keepsD [where I = ?T]) (intro keep_steps keeps_for_each keeps_told_tick_all keeps_told_remove)
  qed
  then have "told env k (cr_tx c) (cs_log s) t" using assms(4) by (simp add: wp_def)
  then show ?thesis unfolding told_def
  proof (elim exE conjE disjE)
    fix n assume n: "cs_log t = cs_log s @ n" "announced env (cr_tx c) n"
    from n(2) obtain e r where "(cr_tx c, e, r) \<in> set n"
      "r = Disconnected \<or> is_final e \<and> (r = Full \<longrightarrow> refused_out env (cr_tx c) e)" by (auto simp: announced_def)
    then show ?thesis using n(1) by (cases r) (auto simp: refused_out_def)
  qed blast
qed

end
