(* ===== verification/Housekeeping.thy ===== *)
theory Housekeeping
  imports Controller
begin

text \<open>
  What every command and every tick of the controller leaves alone, as two locales: \<open>housekept\<close> for
  properties that can lose chats but not gain one and survive what the residency inventory allows,
  and \<open>chat_blind\<close> for those that do not look at the chats at all.
\<close>

section \<open>What survives without a new chat\<close>

lemma chats_length [simp]:
  "length (chats_update k f cs) = length cs"
  by (simp add: chats_update_def)

lemma chats_remove_length: "length (chats_remove k cs) \<le> length cs"
  by (simp add: chats_remove_def)

text \<open>No more chats, the same settings and the same inventory.\<close>

definition no_growth :: "'w cstate \<Rightarrow> 'w cstate \<Rightarrow> bool" where
  "no_growth s t \<longleftrightarrow> length (cs_chats t) \<le> length (cs_chats s) \<and> cs_config t = cs_config s
     \<and> cs_residency t = cs_residency s"

locale housekept =
  fixes I :: "'w cstate \<Rightarrow> bool"
  assumes settled: "I s \<Longrightarrow> no_growth s t \<Longrightarrow> I t"
    and admits: "I s \<Longrightarrow> I (s\<lparr>cs_residency := fst (admit r g (cs_residency s))\<rparr>)"
    and relieves: "I s \<Longrightarrow> I (s\<lparr>cs_residency := residency_step e (cs_residency s)\<rparr>)"
begin

lemma hk_prims:
  "keeps I (world_op f)" "keeps I (world_do d)" "keeps I (on_metrics m)" "keeps I (log_emit tx e r)"
  "keeps I (deregister_hook sid)" "keeps I (register_hook sid tx)" "keeps I (on_chats (chats_update k h))"
  "keeps I (set_chat k c)" "keeps I (on_chats (\<lambda>_. []))" "keeps I (on_chats (chats_remove k))"
  by (rule keepsI; simp add: wp_simps log_emit_def deregister_hook_def register_hook_def set_chat_def;
        erule settled; simp add: no_growth_def chats_remove_length)+

lemma hk_fields:
  "keeps I (modify (\<lambda>s. s\<lparr>cs_loaded_file_bytes := b s\<rparr>))"
  "keeps I (modify (\<lambda>s. s\<lparr>cs_last_llm_activity := c s\<rparr>))"
  "keeps I (modify (\<lambda>s. s\<lparr>cs_idle_unloaded := d s\<rparr>))"
  "keeps I (modify (\<lambda>s. s\<lparr>cs_last_maintenance := e s\<rparr>))"
  "keeps I (modify (\<lambda>s. s\<lparr>cs_hooks := f s\<rparr>))"
  "keeps I (modify (\<lambda>s. s\<lparr>cs_caps := h s, cs_loaded_file_bytes := b s\<rparr>))"
  "keeps I (modify (\<lambda>s. s\<lparr>cs_loaded_file_bytes := b s, cs_idle_unloaded := d s,
     cs_last_llm_activity := c s\<rparr>))"
  by (rule keepsI; simp add: wp_simps; erule settled; simp add: no_growth_def)+

lemma hk_touch: "keeps I (modify (\<lambda>s. s\<lparr>cs_residency := touch k now (cs_residency s)\<rparr>))"
  using relieves [of _ "Touch k now"] by (auto intro!: keepsI simp: wp_simps)

lemma hk_tick: "tick_keeps env I"
  by (simp add: tick_keeps_def hk_prims)

lemmas hk_emits = keeps_tick_emits [OF hk_tick]

lemmas hk_steps = keep_steps hk_prims hk_fields hk_touch hk_emits

lemma hk_terminate:
  "keeps I (terminate_runtime_owned env c outcome)" "keeps I (terminate_runtime env k outcome)"
proof -
  show owned: "keeps I (terminate_runtime_owned env c outcome)" for c
    unfolding terminate_runtime_owned_def finalize_runtime_session_def deregister_and_end_session_def bump_defs
    by (intro hk_steps)
  show "keeps I (terminate_runtime env k outcome)"
    unfolding terminate_runtime_def by (intro hk_steps owned)
qed

lemma hk_drain: "keeps I (drain_chats env outcome)"
  unfolding drain_chats_def by (intro hk_steps keeps_for_pairs hk_terminate)

lemma hk_residency:
  "keeps I (unload_residency k)" "keeps I (admit_runtime r v)" "keeps I remember_unloaded"
proof -
  show u: "keeps I (unload_residency k)" for k
    using relieves [of _ "Unload k"] by (auto intro!: keepsI simp: unload_residency_def wp_simps)
  show "keeps I (admit_runtime r v)"
    using admits by (auto intro!: keepsI simp: admit_runtime_def wp_simps)
  show "keeps I remember_unloaded" unfolding remember_unloaded_def by (intro hk_steps u)
qed

lemma hk_saves: "keeps I (save_all_chat_kv env)"
  unfolding save_all_chat_kv_def by (intro hk_steps keeps_for_pairs)

lemma hk_ladder: "keeps I (load_ladder env c m idx gs history r seen)"
proof (induction gs arbitrary: idx history r seen)
  case Nil
  show ?case by (simp add: keeps_return)
next
  case (Cons rung gs)
  have "keeps I (attempt_load env c mmproj s seen)" for mmproj s seen
    unfolding attempt_load_def unload_for_swap_def engine_load_def register_load_def
    by (intro hk_steps hk_residency)
  then show ?case unfolding load_ladder.simps by (intro keep_steps Cons.IH)
qed

lemma hk_load: "keeps I (load_model env c)"
  unfolding load_model_def Let_def adopt_model_def
  by (intro hk_steps hk_saves hk_ladder hk_drain)

lemma hk_reload: "keeps I (reload_with_admission env)" "keeps I (maybe_wake_llm env)"
proof -
  show r: "keeps I (reload_with_admission env)"
    unfolding reload_with_admission_def by (intro hk_steps hk_residency)
  show "keeps I (maybe_wake_llm env)" unfolding maybe_wake_llm_def by (intro hk_steps r)
qed

lemma hk_unload: "keeps I (unload_model env)"
  unfolding unload_model_def by (intro hk_steps keeps_for_each hk_terminate hk_residency)

lemma hk_helpers:
  "keeps I (load_embedder env p kind)" "keeps I (load_reranker env p)"
  "keeps I (apply_settings env x)" "keeps I (generate_embeddings env ys)"
  "keeps I (rerank_documents env q ys)"
  unfolding load_embedder_def load_reranker_def load_helper_def apply_settings_def generate_embeddings_def
    rerank_documents_def
  by (intro hk_steps hk_residency)+

lemma hk_idle_unload: "keeps I (maybe_idle_unload_llm env)"
  unfolding maybe_idle_unload_llm_def by (intro hk_steps hk_saves hk_drain hk_residency)

lemma hk_residency_maintenance: "keeps I (run_residency_maintenance env)"
proof (rule keepsI)
  fix s assume s: "I s"
  have helper: "keeps I (unload_evicted_helper env k)" for k
    unfolding unload_evicted_helper_def by (cases k) (auto intro: keeps_return hk_prims)
  have helpers: "wp (for_each (\<lambda>r. unload_evicted_helper env (rt_kind r)) rs) (\<lambda>_. I) t" if "I t" for rs t
    using keepsD [OF keeps_for_each [OF helper] that] .
  have world: "I (t\<lparr>cs_world := w\<rparr>)" if "I t" for t w
    using that by (rule settled) (simp add: no_growth_def)
  have pressed: "I (t\<lparr>cs_residency := fst (unload_for_pressure g f (cs_residency t))\<rparr>)" if "I t" for t g f
    using relieves [OF that, of "UnloadForPressure g f"] by simp
  have idle: "I (t\<lparr>cs_residency := fst (evict_idle_helpers now p (cs_residency t))\<rparr>)" if "I t" for t now p
    using relieves [OF that, of "EvictIdle now p"] by simp
  have rest: "wp (maybe_idle_unload_llm env) (\<lambda>_. wp (for_each (\<lambda>r. unload_evicted_helper env (rt_kind r)) rs) (\<lambda>_. I))
      (t\<lparr>cs_world := w, cs_residency := fst (evict_idle_helpers n p (cs_residency t))\<rparr>)"
    if "I t" for t w n p rs
  proof (rule wp_mono [OF keepsD [OF hk_idle_unload]])
    show "I (t\<lparr>cs_world := w, cs_residency := fst (evict_idle_helpers n p (cs_residency t))\<rparr>)"
      using idle [OF world [OF that, of w], of n p] by simp
  qed (rule helpers)
  have start: "I (s\<lparr>cs_world := w, cs_residency := fst (unload_for_pressure g f (cs_residency s))\<rparr>)" for w g f
    using pressed [OF world [OF s, of w], of g f] by simp
  show "wp (run_residency_maintenance env) (\<lambda>_. I) s"
    unfolding run_residency_maintenance_def
    by (simp add: wp_simps split_beta Let_def)
      (intro conjI impI; rule wp_mono [OF helpers [OF start]]; rule rest)
qed

lemma hk_maintenance: "keeps I (tick_maintenance env)"
  unfolding tick_maintenance_def
  by (intro hk_steps keeps_for_each hk_terminate hk_residency_maintenance)

lemma hk_tick_chats: "keeps I (tick_active_chats env)"
proof -
  have one: "keeps I (tick_one env timeout k)" for timeout k
    unfolding tick_one_def by (intro hk_steps keeps_tick_chat hk_tick)
  have all: "keeps I (tick_all env timeout ks)" for timeout ks
    by (induction ks) (auto intro!: keep_steps one)
  have fin: "keeps I (remove_finished env k)" for k
    unfolding remove_finished_def by (intro hk_steps hk_terminate)
  show ?thesis
    unfolding tick_active_chats_def by (intro hk_steps keeps_for_each all fin hk_maintenance)
qed

lemma hk_chat_commands:
  "keeps I (stop_chat env k)" "keeps I (pause_chat env k)" "keeps I (resume_chat env k)"
  unfolding stop_chat_def pause_chat_def resume_chat_def by (intro hk_steps hk_terminate)+

lemma hk_microphone:
  "keeps I (push_microphone env k xs)" "keeps I (commit_microphone env k)"
proof -
  show "keeps I (push_microphone env k xs)"
    unfolding push_microphone_def handle_microphone_command_def settle_microphone_def
    by (intro hk_steps hk_terminate)
  show "keeps I (commit_microphone env k)"
    unfolding commit_microphone_def handle_microphone_command_def settle_microphone_def commit_work_def
    by (intro hk_steps hk_terminate)
qed

end

text \<open>What does not look at the chats also survives the commands that add one.\<close>

locale chat_blind = housekept +
  assumes blind: "I s \<Longrightarrow> cs_config t = cs_config s \<Longrightarrow> cs_residency t = cs_residency s \<Longrightarrow> I t"
begin

lemma hk_chats: "keeps I (on_chats f)"
  by (rule keepsI) (auto simp: wp_simps intro: blind)

lemmas all_steps = hk_steps hk_chats hk_terminate keeps_defaults

lemma hk_start: "keeps I (start_chat env c)"
proof -
  have evict: "keeps I (evict_for_capacity env)"
    unfolding evict_for_capacity_def evict_lru_def by (intro all_steps)
  have adopt: "keeps I (adopt_session env c spec microphone sid)" for spec microphone sid
    unfolding adopt_session_def attach_user_turn_def install_runtime_def deregister_and_end_session_def
    by (intro all_steps)
  show ?thesis
    unfolding start_chat_def open_conversation_def keepwarm_candidate_def
    by (intro all_steps evict adopt hk_reload)
qed

lemma hk_continue: "keeps I (continue_chat env c)"
  unfolding continue_chat_def continue_resident_def redirect_chat_def append_and_attach_def attach_user_turn_def
  by (intro all_steps hk_start)

lemma hk_infer: "keeps I (start_ephemeral env c)"
  unfolding start_ephemeral_def unique_ephemeral_id_def adopt_ephemeral_def deregister_and_end_session_def
  by (intro all_steps)

lemma hk_dispatch: "keeps I (dispatch_cmd env cmd)"
  by (cases cmd; simp only: dispatch_cmd_def command.case)
    (intro valid_reply hk_load hk_helpers hk_unload hk_reload hk_start hk_continue hk_infer hk_microphone
      hk_chat_commands hk_steps)+

lemma hk_turn: "keeps I (loop_turn env received)"
  unfolding loop_turn_def by (intro hk_steps hk_dispatch hk_tick_chats)

lemma hk_step: "controller_step env s t \<Longrightarrow> I s \<Longrightarrow> I t"
  by (erule controller_stepE) (use keepsD [OF hk_turn] in \<open>auto simp: wp_def intro: blind\<close>)

lemma hk_reachable: "(controller_step env)\<^sup>*\<^sup>* s t \<Longrightarrow> I s \<Longrightarrow> I t"
  by (induction rule: rtranclp_induct) (auto intro: hk_step)

end

section \<open>The inventory's type\<close>

lemma empty_well_slotted: "well_slotted empty_inventory"
proof -
  have "slot k empty_inventory = None" for k by (cases k) (simp_all add: empty_inventory_def)
  then show ?thesis by (simp add: well_slotted_def)
qed

interpretation slotted: chat_blind "\<lambda>s. well_slotted (cs_residency s)"
  by unfold_locales (auto simp: no_growth_def admit_slotted residency_step_slotted)

text \<open>
  C7: The controller never misfiles a runtime. In every state its loop can reach, each slot of the
  residency inventory is empty or holds a runtime of the slot's own kind, whatever was loaded,
  refused, reloaded, evicted or touched on the way.\<close>
theorem controller_inventory_typed:
  assumes "(controller_step env)\<^sup>*\<^sup>* (initial_state env config now w) s" "slot k (cs_residency s) = Some r"
  shows "rt_kind r = k"
proof -
  have "well_slotted (cs_residency (initial_state env config now w))"
    by (simp add: initial_state_def empty_well_slotted)
  then show ?thesis using slotted.hk_reachable [OF assms(1)] assms(2) by (simp add: well_slotted_def)
qed

definition toy_embedded :: "toy_world cstate" where
  "toy_embedded = snd (run_state (loop_turn toy_env (Some (LoadEmbedder ''e'' None))) toy_state)"

lemma toy_embedded_slot: "slot Embedder (cs_residency toy_embedded) \<noteq> None"
  by (simp add: toy_embedded_def loop_turn_def dispatch_cmd_def load_embedder_def load_helper_def run_simps
      toy_state_def initial_state_def toy_env_def toy_planner_def sample_governor_def admit_runtime_def admit_def
      can_admit_def new_runtime_def estimate_resident_mb_for_path_def empty_inventory_def total_estimated_mb_def
      loaded_def resident_mb_from_file_mb_def file_mb_of_def onnx_bundle_directory_def mib_def sat_add_def
      can_load_additional_model_iff pressure_cases_le Let_def)

lemma controller_inventory_typed_witness:
  "map_option rt_kind (slot Embedder (cs_residency toy_embedded)) = Some Embedder"
proof -
  obtain r where r: "slot Embedder (cs_residency toy_embedded) = Some r" using toy_embedded_slot by blast
  have "(controller_step toy_env)\<^sup>*\<^sup>* (initial_state toy_env toy_config 0 toy_world) toy_embedded"
    unfolding toy_embedded_def toy_state_def
    by (rule r_into_rtranclp, rule controller_step.turn)
  then have "rt_kind r = Embedder" using r by (rule controller_inventory_typed)
  with r show ?thesis by simp
qed

end
