(* ===== verification/Capacity.thy ===== *)
theory Capacity
  imports Housekeeping
begin

text \<open>
  How many chats the controller keeps: which commands add one, what \<^verbatim>\<open>max_active_chats\<close> bounds and
  what it does not.
\<close>

section \<open>What does not grow\<close>

definition sized :: "nat \<Rightarrow> controller_config \<Rightarrow> 'w cstate \<Rightarrow> bool" where
  "sized n config s \<longleftrightarrow> length (cs_chats s) \<le> n \<and> cs_config s = config"

lemma chats_remove_shrinks: "k \<in> fst ` set cs \<Longrightarrow> length (chats_remove k cs) < length cs"
  by (auto simp: chats_remove_def intro!: length_filter_less)

interpretation size: housekept "sized n g" for n g
  by unfold_locales (auto simp: sized_def no_growth_def)

section \<open>Room for one more\<close>

lemma evict_makes_room:
  fixes env :: "'w env"
  assumes "1 \<le> n" "cc_max_active_chats g \<le> n"
  shows "valid (sized n g) (evict_for_capacity env) (\<lambda>_. sized (n - 1) g)"
proof (rule validI)
  fix s :: "'w cstate" assume s: "sized n g s"
  show "wp (evict_for_capacity env) (\<lambda>_. sized (n - 1) g) s"
  proof (cases "cc_max_active_chats g \<le> length (cs_chats s)")
    case False
    with s assms show ?thesis by (auto simp: evict_for_capacity_def wp_simps sized_def)
  next
    case True
    show ?thesis
    proof (cases "pick_eviction_target (views (cs_chats s))")
      case None
      then have "cs_chats s = []" by (simp add: pick_eviction_target_None)
      then show ?thesis using None s by (simp add: evict_for_capacity_def evict_lru_def wp_simps sized_def)
    next
      case (Some k)
      then have "k \<in> fst ` set (cs_chats s)" using pick_eviction_target_oldest by force
      then have "sized (n - 1) g (s\<lparr>cs_chats := chats_remove k (cs_chats s)\<rparr>)"
        using chats_remove_shrinks [of k "cs_chats s"] s by (auto simp: sized_def)
      then show ?thesis
        using Some True s keepsD [OF size.hk_terminate(1)]
        by (auto simp: evict_for_capacity_def evict_lru_def wp_simps sized_def [of n] split: option.split)
    qed
  qed
qed

lemma install_adds_one:
  fixes env :: "'w env"
  shows "valid (sized n g) (install_runtime env k c) (\<lambda>_. sized (Suc n) g)"
proof (rule validI)
  fix s :: "'w cstate" assume s: "sized n g s"
  have "sized (Suc n) g (s\<lparr>cs_chats := chats_insert k c (cs_chats s)\<rparr>)"
    using s chats_remove_length [of k "cs_chats s"] by (simp add: sized_def chats_insert_def)
  then show "wp (install_runtime env k c) (\<lambda>_. sized (Suc n) g) s"
    using keepsD [OF size.hk_terminate(1)]
    by (auto simp: install_runtime_def wp_simps split: option.split)
qed

lemma sized_mono: "sized n g s \<Longrightarrow> n \<le> m \<Longrightarrow> sized m g s"
  by (simp add: sized_def)

lemma keeps_grows: "keeps (sized n g) m \<Longrightarrow> valid (sized n g) m (\<lambda>_. sized (Suc n) g)"
  unfolding keeps_def by (erule valid_post) (erule sized_mono, simp)

lemma adopt_adds_one: "valid (sized n g) (adopt_session env c spec microphone sid) (\<lambda>_. sized (Suc n) g)"
proof -
  have attach: "keeps (sized n g) (attach_user_turn env d spec microphone)" for d
    unfolding attach_user_turn_def by (intro size.hk_steps)
  have failed: "keeps (sized n g) (State_Monad.bind (deregister_and_end_session env sid) (\<lambda>_. emit env tx e))" for tx e
    unfolding deregister_and_end_session_def by (intro size.hk_steps)
  show ?thesis
    unfolding adopt_session_def
    apply (rule valid_keeps_bind, intro size.hk_steps)+
    apply (rule valid_keeps_bind [OF attach])
    apply (clarsimp split: sum.split)
    apply (intro conjI allI impI)
     apply (rule keeps_grows [OF failed])
    apply (rule valid_keeps_bind, intro size.hk_steps)
    apply (intro valid_if install_adds_one keeps_grows size.hk_terminate)
    done
qed

lemma sized_open:
  assumes n: "1 \<le> n" "cc_max_active_chats g \<le> n"
  shows "keeps (sized n g) (open_conversation env c spec)"
proof -
  have n1: "Suc (n - 1) = n" using n by simp
  have adopt: "valid (sized (n - 1) g) (adopt_session env c spec microphone sid) (\<lambda>_. sized n g)" for microphone sid
    using adopt_adds_one [of "n - 1" g env c spec microphone sid] n1 by simp
  have failed: "valid (sized (n - 1) g) (emit env tx e) (\<lambda>_. sized n g)" for tx e
    using keeps_grows [of "n - 1" g "emit env tx e"] n1 by (simp add: size.hk_emits)
  show ?thesis
    unfolding keeps_def open_conversation_def Let_def keepwarm_candidate_def
    apply (rule valid_bind [OF evict_makes_room [OF n]])
    apply (rule valid_keeps_bind, intro size.hk_steps size.hk_reload)+
    apply (rule valid_sum, rule failed, rule adopt)
    done
qed

lemma sized_start:
  assumes n: "1 \<le> n" "cc_max_active_chats g \<le> n"
  shows "keeps (sized n g) (start_chat env c)"
  unfolding start_chat_def by (intro size.hk_steps keeps_defaults size.hk_terminate sized_open n)

lemma sized_continue:
  assumes n: "1 \<le> n" "cc_max_active_chats g \<le> n"
  shows "keeps (sized n g) (continue_chat env c)"
  unfolding continue_chat_def Let_def continue_resident_def redirect_chat_def append_and_attach_def attach_user_turn_def
  by (intro size.hk_steps keeps_defaults size.hk_terminate sized_start n)

lemma ephemeral_adds_one: "valid (sized n g) (start_ephemeral env c) (\<lambda>_. sized (Suc n) g)"
proof -
  have failed: "valid (sized n g) (emit env tx e) (\<lambda>_. sized (Suc n) g)" for tx e
    by (rule keeps_grows) (rule size.hk_emits)
  have added: "valid (sized n g) (on_chats (chats_insert k d)) (\<lambda>_. sized (Suc n) g)" for k d
    using chats_remove_length [of k]
    by (intro validI) (auto simp: wp_simps sized_def chats_insert_def intro: order_trans)
  have adopt: "valid (sized n g) (adopt_ephemeral env c spec k sid) (\<lambda>_. sized (Suc n) g)" for spec k sid
    unfolding adopt_ephemeral_def
    apply (rule valid_keeps_bind, intro size.hk_steps)+
    apply (rule valid_sum, rule keeps_grows)
     apply (unfold deregister_and_end_session_def, intro size.hk_steps)
    apply (rule valid_keeps_bind, intro size.hk_steps)+
    apply (rule added)
    done
  show ?thesis
    unfolding start_ephemeral_def unique_ephemeral_id_def
    apply (rule valid_keeps_bind, intro size.hk_steps keeps_defaults)+
    apply (rule valid_sum, rule failed, rule adopt)
    done
qed

definition is_infer :: "command option \<Rightarrow> bool" where
  "is_infer received = (case received of Some (SystemInfer _) \<Rightarrow> True | _ \<Rightarrow> False)"

lemma sized_dispatch:
  assumes n: "1 \<le> n" "cc_max_active_chats g \<le> n" and "\<not> is_infer (Some cmd)"
  shows "keeps (sized n g) (dispatch_cmd env cmd)"
  using assms(3)
  by (cases cmd; simp only: dispatch_cmd_def command.case is_infer_def option.case)
    (intro valid_reply size.hk_load size.hk_helpers size.hk_unload size.hk_reload sized_start sized_continue
      size.hk_microphone size.hk_chat_commands size.hk_steps n | simp)+

text \<open>
  C4: The cap on active chats bounds what a turn of the loop can leave resident: however full the map
  is, no command but a background inference lets it grow past the cap (or past one, when the cap is
  zero), and a background inference, which is never checked against the cap, adds one at most.\<close>
theorem cap_bounds_growth:
  "length (cs_chats (snd (run_state (loop_turn env received) s)))
     \<le> max (max 1 (cc_max_active_chats (cs_config s))) (length (cs_chats s)) + (if is_infer received then 1 else 0)"
proof -
  define g where "g = cs_config s"
  define n where "n = max (max 1 (cc_max_active_chats g)) (length (cs_chats s))"
  have n: "1 \<le> n" "cc_max_active_chats g \<le> n" "sized n g s" by (simp_all add: n_def sized_def g_def)
  let ?m = "n + (if is_infer received then 1 else 0)"
  have after: "wp (tick_active_chats env) (\<lambda>_. sized k g) t" if "sized k g t" for k t
    using keepsD [OF size.hk_tick_chats that] .
  have "wp (loop_turn env received) (\<lambda>_. sized ?m g) s"
  proof (cases received)
    case None
    then show ?thesis using n(3) after by (simp add: loop_turn_def wp_simps is_infer_def)
  next
    case (Some cmd)
    have "wp (dispatch_cmd env cmd) (\<lambda>_. sized ?m g) s"
    proof (cases "is_infer received")
      case True
      then obtain c where c: "cmd = SystemInfer c" using Some by (auto simp: is_infer_def split: command.splits)
      show ?thesis
        using validD [OF ephemeral_adds_one n(3)] True by (simp add: dispatch_cmd_def c wp_simps)
    next
      case False
      then show ?thesis using keepsD [OF sized_dispatch [OF n(1,2)] n(3)] Some by simp
    qed
    then have "wp (dispatch_cmd env cmd) (\<lambda>x. wp (case x of (flow, _) \<Rightarrow>
        if flow = Break then State_Monad.return True else if cs_chats s = [] then State_Monad.return False
        else State_Monad.bind (tick_active_chats env) (\<lambda>_. State_Monad.return False)) (\<lambda>_. sized ?m g)) s"
      by (rule wp_mono) (auto simp: wp_simps after split: prod.split)
    then show ?thesis by (simp add: loop_turn_def wp_simps Some)
  qed
  then show ?thesis by (simp add: wp_def sized_def n_def g_def)
qed

end
