(* ===== verification/Conversation.thy ===== *)
theory Conversation
  imports Controller
begin

text \<open>
  What the chat commands promise of one conversation: a turn in flight is fenced off, and what pausing
  does to the turn after it.
\<close>

section \<open>One turn at a time\<close>

lemma wp_emit_only:
  assumes "\<And>r t. same_core s t \<Longrightarrow> cs_log t = cs_log s @ [(tx, e, r)] \<Longrightarrow> Q () t"
  shows "wp (emit env tx e) Q s"
proof -
  have q: "quiet_env env (\<lambda>_. ())" by (simp add: quiet_env_def)
  show ?thesis
    unfolding emit_def wp_bind
    by (rule wp_emit_must_deliver [OF q]) (simp add: wp_simps assms)
qed

text \<open>
  C6: A conversation has one turn at a time. While a chat is generating or capturing speech, starting
  or continuing it changes no chat, no session's listener, no residency and no setting: the
  request is answered on its own channel with an error, and nothing else is emitted.\<close>
theorem turn_in_flight_is_fenced:
  assumes "map_of (cs_chats s) k = Some chat" "is_in_flight (cr_state chat)"
    and "sc_chat_id c = k" "sc_tx c = tx" "kc_chat_id d = k" "kc_tx d = tx"
    and "t \<in> {snd (run_state (start_chat env c) s), snd (run_state (continue_chat env d) s)}"
  shows "same_core s t \<and> (\<exists>code msg r. cs_log t = cs_log s @ [(tx, EvError code msg, r)])"
proof -
  let ?Q = "\<lambda>_ t. same_core s t \<and> (\<exists>code msg r. cs_log t = cs_log s @ [(tx, EvError code msg, r)])"
  have fenced: "\<not> allows_user_pull_start (cr_state chat)" using assms(2) by (simp add: allows_user_pull_start_def)
  have said: "wp (emit env tx (EvError code msg)) ?Q s" for code msg
    by (rule wp_emit_only) auto
  have "wp (start_chat env c) ?Q s"
    using assms fenced said
    by (simp add: start_chat_def apply_generation_defaults_def wp_simps busy_event_def)
  moreover have "wp (continue_chat env d) ?Q s"
    using assms fenced said by (simp add: continue_chat_def wp_simps)
  ultimately show ?thesis using assms(7) by (auto simp: wp_def)
qed

definition toy_continue :: "nat \<Rightarrow> continue_command" where
  "toy_continue tx = \<lparr>kc_chat_id = ''a'', kc_new_messages = [user_msg ''more''], kc_transcript = [user_msg ''hi''],
     kc_gen_spec = default_gen_spec, kc_thinking = ModeAuto, kc_tools = None, kc_model_id = None,
     kc_model_size_bytes = None, kc_tx = tx\<rparr>"

definition toy_one :: "toy_world cstate" where
  "toy_one = snd (run_state (start_chat toy_env (toy_start ''a'')) toy_state)"

lemma toy_one_chat:
  "map_of (cs_chats toy_one) ''a'' = Some \<lparr>cr_session = 1, cr_tx = 1, cr_workload = PrimaryChat, cr_last_used = 0,
     cr_last_gen_spec = default_gen_spec, cr_state = Generating 1 0 default_gen_spec None, cr_health = default_health\<rparr>"
  unfolding toy_one_def by (simp add: toy_started)

lemma turn_in_flight_is_fenced_witness:
  "same_core toy_one (snd (run_state (continue_chat toy_env (toy_continue 1)) toy_one))"
  by (rule conjunct1 [OF turn_in_flight_is_fenced [OF toy_one_chat, of "toy_start ''a''" 1 "toy_continue 1" _ toy_env]])
    (simp_all add: is_in_flight_def toy_start_def toy_continue_def)

lemma tick_never_ends_in_silence_witness:
  "let t = snd (run_state (tick_active_chats toy_env) toy_one) in
   \<exists>n. cs_log t = cs_log toy_one @ n
     \<and> ((\<exists>c. map_of (cs_chats t) ''a'' = Some c \<and> is_generating (cr_state c) \<and> cr_tx c = 1)
        \<or> (\<exists>e. (1, e, Disconnected) \<in> set n) \<or> (\<exists>e. is_final e \<and> (1, e, Sent) \<in> set n))"
proof -
  have "\<not> refuses toy_env tx e 64 w" for tx e w
    using toy_never_refuses [of tx e] by (auto simp: refused_out_def)
  moreover have "distinct (map fst (cs_chats toy_one))" by (simp add: toy_one_def toy_started)
  ultimately show ?thesis
    using tick_never_ends_in_silence [OF _ toy_one_chat _ refl, of toy_env] by (simp add: Let_def)
qed

section \<open>Pausing\<close>

text \<open>Nothing a continued turn does depends on what resuming a session would do.\<close>

lemma emit_spins_resume [simp]: "emit_spins n (env\<lparr>ev_resume := f\<rparr>) = emit_spins n env"
  by (induction n) (simp_all add: fun_eq_iff try_send_def)

lemma emits_resume [simp]:
  "emit_must_deliver (env\<lparr>ev_resume := f\<rparr>) = emit_must_deliver env" "emit (env\<lparr>ev_resume := f\<rparr>) = emit env"
  by (simp_all add: emit_must_deliver_def emit_def fun_eq_iff)

lemma ends_resume [simp]:
  "deregister_and_end_session (env\<lparr>ev_resume := f\<rparr>) = deregister_and_end_session env"
  by (simp add: fun_eq_iff deregister_and_end_session_def)

lemma terminate_owned_resume [simp]:
  "terminate_runtime_owned (env\<lparr>ev_resume := f\<rparr>) = terminate_runtime_owned env"
  by (simp add: fun_eq_iff terminate_runtime_owned_def finalize_runtime_session_def terminal_event_def)

lemma terminate_resume [simp]: "terminate_runtime (env\<lparr>ev_resume := f\<rparr>) = terminate_runtime env"
  by (simp add: fun_eq_iff terminate_runtime_def cong: option.case_cong)

lemma attach_resume [simp]:
  "attach_user_turn (env\<lparr>ev_resume := f\<rparr>) = attach_user_turn env"
  "apply_generation_defaults (env\<lparr>ev_resume := f\<rparr>) = apply_generation_defaults env"
  by (simp_all add: fun_eq_iff attach_user_turn_def apply_generation_defaults_def cong: sum.case_cong if_cong)

lemma append_resume [simp]: "append_and_attach (env\<lparr>ev_resume := f\<rparr>) = append_and_attach env"
  by (simp add: fun_eq_iff append_and_attach_def cong: sum.case_cong)

lemma continue_resident_resume [simp]: "continue_resident (env\<lparr>ev_resume := f\<rparr>) = continue_resident env"
  by (simp add: fun_eq_iff continue_resident_def Let_def cong: sum.case_cong if_cong)

text \<open>
  Continuing a paused chat never resumes its session. On a resident chat, what a continued turn
  does is the same for any two engines that differ only in what resuming does: the session is
  handed to a new puller with the pause that \<^verbatim>\<open>PauseChat\<close> left on it, and the chat counts as
  generating from then on when the engine accepts the turn.\<close>
lemma continue_never_resumes:
  assumes "map_of (cs_chats s) (kc_chat_id c) = Some chat"
  shows "run_state (continue_chat (env\<lparr>ev_resume := f\<rparr>) c) s = run_state (continue_chat env c) s"
  using assms
  by (simp add: continue_chat_def run_simps Let_def)

lemma continue_never_resumes_witness:
  "run_state (continue_chat (toy_env\<lparr>ev_resume := (\<lambda>_ w. w)\<rparr>) (toy_continue 2)) toy_one
   = run_state (continue_chat toy_env (toy_continue 2)) toy_one"
  by (rule continue_never_resumes) (simp add: toy_one_chat toy_continue_def)

end
