(* ===== verification/ModelLoad.thy ===== *)
theory ModelLoad
  imports Controller
begin

text \<open>
  What loading a model does to the controller, on every way out of the ladder, and what housekeeping does to
  a loaded model.
\<close>

section \<open>What an attempt leaves alone\<close>







section \<open>What an attempt that succeeds leaves\<close>

definition registered :: "string \<Rightarrow> 'w cstate \<Rightarrow> bool" where
  "registered path s \<longleftrightarrow> (\<exists>r. inv_llm (cs_residency s) = Some r \<and> rt_name r = path \<and> rt_kind r = Llm)"

definition loads :: "string \<Rightarrow> 'e + 'a \<Rightarrow> 'w cstate \<Rightarrow> bool" where
  "loads path r s \<longleftrightarrow> (case r of Inl _ \<Rightarrow> True | Inr _ \<Rightarrow> registered path s)"

lemma loads_simps [simp]: "loads path (Inl e) s" "loads path (Inr x) s \<longleftrightarrow> registered path s"
  by (simp_all add: loads_def)






section \<open>A load command\<close>






section \<open>Memory pressure\<close>

text \<open>The one process-wide thing housekeeping can ask of the engine is to drop helpers.\<close>

lemma pressure_takes_llm:
  assumes "Severe \<le> sn_pressure g"
  shows "inv_llm (fst (unload_for_pressure g None v)) = None"
  using assms by (auto simp: unload_for_pressure_def Let_def split_beta unload_def split: option.split)

lemma kinds_keep_llm: "Llm \<notin> set ks \<Longrightarrow> inv_llm (fst (take_while_kinds f ks v)) = inv_llm v"
proof (induction ks arbitrary: v)
  case (Cons k ks)
  have "inv_llm (set_slot k None v) = inv_llm v" using Cons.prems by (cases k) simp_all
  with Cons show ?case by (simp add: unload_def split_beta Let_def split: option.split)
qed simp

lemma idle_helpers_keep_llm: "inv_llm (fst (evict_idle_helpers now p v)) = inv_llm v"
  unfolding evict_idle_helpers_def by (rule kinds_keep_llm) (simp add: helper_kinds_def)

text \<open>
  C8: Severe memory pressure makes the residency forget a model the engine keeps. With no chat resident,
  the housekeeping of a tick under severe pressure clears the model's slot, and yet the model is as
  loaded as it was: of what the pressure evicts only helpers are unloaded.\<close>
theorem pressure_forgets_a_loaded_model:
  fixes s :: "'w cstate"
  assumes "cs_chats s = []" "Severe \<le> sn_pressure (fst (ev_governor env (cs_world s)))"
    and "still (ev_is_model_loaded env) (ev_governor env)" "still (ev_is_model_loaded env) (ev_unix_now env)"
    and "still_do (ev_is_model_loaded env) (ev_unload_embedder env)" "still_do (ev_is_model_loaded env) (ev_unload_reranker env)"
    and "t = snd (run_state (run_residency_maintenance env) s)"
  shows "inv_llm (cs_residency t) = None \<and> ev_is_model_loaded env (cs_world t) = ev_is_model_loaded env (cs_world s)"
proof -
  define P where "P b u \<longleftrightarrow> ev_is_model_loaded env (cs_world u) = b \<and> inv_llm (cs_residency u) = None" for b and u :: "'w cstate"
  let ?b = "ev_is_model_loaded env (cs_world s)"
  have helper: "keeps (P b) (unload_evicted_helper env k)" for b k
    using assms(5,6) unfolding unload_evicted_helper_def
    by (cases k) (auto intro!: keepsI simp: wp_simps P_def still_do_def)
  have helpers: "wp (for_each (\<lambda>r. unload_evicted_helper env (rt_kind r)) rs) (\<lambda>_. P b) u" if "P b u" for rs b u
    using keepsD [OF keeps_for_each [OF helper] that] .
  have idle: "wp (maybe_idle_unload_llm env) (\<lambda>_. P b) u" if "P b u" for b u
    using that by (simp add: maybe_idle_unload_llm_def wp_simps P_def)
  let ?w = "snd (ev_governor env (cs_world s))"
  have w: "ev_is_model_loaded env ?w = ?b" using assms(3) by (simp add: still_def)
  have now: "ev_is_model_loaded env (snd (ev_unix_now env v)) = ev_is_model_loaded env v" for v
    using assms(4) by (simp add: still_def)
  have rest: "wp (for_each (\<lambda>r. unload_evicted_helper env (rt_kind r)) rs)
      (\<lambda>_ u. wp (maybe_idle_unload_llm env)
        (\<lambda>_. wp (for_each (\<lambda>r. unload_evicted_helper env (rt_kind r)) (hs u)) (\<lambda>_. P ?b))
        (u\<lparr>cs_world := snd (ev_unix_now env (cs_world u)), cs_residency := fst (evict_idle_helpers (n u) (p u) (cs_residency u))\<rparr>)) v"
    if "P ?b v" for rs v hs n p
    by (rule wp_mono [OF helpers [OF that]], rule wp_mono [OF idle])
      (auto simp: P_def now idle_helpers_keep_llm intro: helpers)
  have "wp (run_residency_maintenance env) (\<lambda>_. P ?b) s"
    unfolding run_residency_maintenance_def
    using assms(1) pressure_takes_llm [OF assms(2), of "cs_residency s"]
    by (auto simp: wp_simps split_beta Let_def P_def w intro!: rest)
  then show ?thesis using assms(7) by (simp add: wp_def P_def)
qed

definition pressed_env :: "toy_world env" where
  "pressed_env = toy_env\<lparr>ev_governor := (\<lambda>w. (sample_governor Severe, w))\<rparr>"

definition pressed_state :: "toy_world cstate" where
  "pressed_state = toy_state\<lparr>cs_world := toy_world\<lparr>ty_model := Some ''m.gguf''\<rparr>,
     cs_residency := empty_inventory\<lparr>inv_llm := Some (new_runtime Llm ''m.gguf'' 100 0)\<rparr>\<rparr>"

lemma pressure_forgets_a_loaded_model_witness:
  "inv_llm (cs_residency pressed_state) \<noteq> None \<and>
   (let t = snd (run_state (run_residency_maintenance pressed_env) pressed_state)
    in inv_llm (cs_residency t) = None \<and> ev_is_model_loaded pressed_env (cs_world t))"
  using pressure_forgets_a_loaded_model [of pressed_state pressed_env]
  by (simp add: pressed_state_def pressed_env_def toy_state_def initial_state_def toy_env_def sample_governor_def
      less_eq_pressure_def still_def still_do_def Let_def)

end
