(* ===== verification/Hardware.thy ===== *)
theory Hardware
  imports MemoryPlan Gguf
begin

text \<open>
  What the library recommends for a machine (\<^verbatim>\<open>src/hardware.rs\<close>): the tier cap, the catalogue model and
  its context, the tuned context of an imported model, default settings, and the video memory read
  from \<^verbatim>\<open>nvidia-smi\<close>.  The probes are parameters: whether the build is mobile, the profile of the
  machine, the output of the command.  A float setting is its number of hundredths.
\<close>

section \<open>The profile\<close>

text \<open>The memory fields are those of \<open>ModelFit\<close>; here the profile has its processors and backend too.\<close>

record hardware_profile = hardware +
  hw_cpu_cores :: nat
  hw_gpu_backend :: gpu_backend

definition total_ram_gb :: "hardware_profile \<Rightarrow> nat" where
  "total_ram_gb hw = hw_total_ram_bytes hw div (1024 * 1024 * 1024)"

definition tier_context_cap :: "bool \<Rightarrow> hardware_profile \<Rightarrow> nat" where
  "tier_context_cap mobile hw =
     (if mobile then 4096
      else let gb = total_ram_gb hw in
        if gb \<le> 7 then 8192 else if gb \<le> 15 then 16384 else if gb \<le> 31 then 24576 else 32768)"

definition inference_budget_bytes :: "bool \<Rightarrow> hardware_profile \<Rightarrow> nat" where
  "inference_budget_bytes mobile hw =
     hw_total_ram_bytes hw - (if mobile then 2 * 1024 * 1024 * 1024 else 4 * 1024 * 1024 * 1024)"

section \<open>Recommendation\<close>

record model_spec =
  sp_repo_id :: string
  sp_filename :: string
  sp_label :: string
  sp_quant :: string
  sp_size_mb :: nat
  sp_kv_per_token :: nat
  sp_ctx_train :: nat

definition models :: "model_spec list" where
  "models =
    [\<lparr>sp_repo_id = ''unsloth/Qwen3-0.6B-GGUF'', sp_filename = ''Qwen3-0.6B-Q4_K_M.gguf'', sp_label = ''Qwen3 0.6B'',
      sp_quant = ''Q4_K_M'', sp_size_mb = 378, sp_kv_per_token = 57344, sp_ctx_train = 40960\<rparr>,
     \<lparr>sp_repo_id = ''unsloth/Qwen3-1.7B-GGUF'', sp_filename = ''Qwen3-1.7B-Q4_K_M.gguf'', sp_label = ''Qwen3 1.7B'',
      sp_quant = ''Q4_K_M'', sp_size_mb = 1056, sp_kv_per_token = 57344, sp_ctx_train = 40960\<rparr>,
     \<lparr>sp_repo_id = ''unsloth/Qwen3-4B-Instruct-2507-GGUF'', sp_filename = ''Qwen3-4B-Instruct-2507-Q4_K_M.gguf'',
      sp_label = ''Qwen3 4B Instruct 2507'', sp_quant = ''Q4_K_M'', sp_size_mb = 2500, sp_kv_per_token = 73728,
      sp_ctx_train = 262144\<rparr>,
     \<lparr>sp_repo_id = ''unsloth/Qwen3-8B-GGUF'', sp_filename = ''Qwen3-8B-Q4_K_M.gguf'', sp_label = ''Qwen3 8B'',
      sp_quant = ''Q4_K_M'', sp_size_mb = 4795, sp_kv_per_token = 73728, sp_ctx_train = 40960\<rparr>]"

definition ctx_tiers :: "nat list" where
  "ctx_tiers = [40960, 32768, 16384, 8192, 4096, 2048]"

record model_recommendation =
  mr_model_id :: string
  mr_filename :: string
  mr_model_label :: string
  mr_quant :: string
  mr_ctx_size :: nat
  mr_gpu_layers :: "nat option"
  mr_batch_size :: nat
  mr_threads :: nat
  mr_estimated_ram_mb :: nat

text \<open>The sums stay below \<^verbatim>\<open>2^32\<close> on this catalogue (\<open>spec_total_small\<close>), so no addition wraps.\<close>

definition spec_total_mb :: "nat \<Rightarrow> model_spec \<Rightarrow> nat" where
  "spec_total_mb ctx spec =
     sp_size_mb spec + (sp_kv_per_token spec * min ctx (sp_ctx_train spec) div (1024 * 1024)) mod 2 ^ 32 + 256"

definition budget_mb :: "bool \<Rightarrow> hardware_profile \<Rightarrow> nat" where
  "budget_mb mobile hw = (inference_budget_bytes mobile hw div (1024 * 1024)) mod 2 ^ 32"

fun try_models :: "nat \<Rightarrow> nat \<Rightarrow> model_spec list \<Rightarrow> model_spec option" where
  "try_models budget ctx [] = None"
| "try_models budget ctx (spec # specs) =
     (if spec_total_mb ctx spec \<le> budget then Some spec else try_models budget ctx specs)"

fun try_tiers :: "nat \<Rightarrow> nat list \<Rightarrow> (nat \<times> model_spec) option" where
  "try_tiers budget [] = None"
| "try_tiers budget (ctx # ctxs) =
     (case try_models budget ctx (rev models) of
        Some spec \<Rightarrow> Some (ctx, spec)
      | None \<Rightarrow> try_tiers budget ctxs)"

definition recommend_model :: "bool \<Rightarrow> hardware_profile \<Rightarrow> model_recommendation" where
  "recommend_model mobile hw =
     (let budget = budget_mb mobile hw in
      case try_tiers budget ctx_tiers of
        Some (ctx, spec) \<Rightarrow>
          \<lparr>mr_model_id = sp_repo_id spec, mr_filename = sp_filename spec, mr_model_label = sp_label spec,
           mr_quant = sp_quant spec, mr_ctx_size = min ctx (sp_ctx_train spec),
           mr_gpu_layers = (if hw_gpu_backend hw = CpuOnly then Some 0 else None),
           mr_batch_size = (if 12000 \<le> budget then 512 else if 4000 \<le> budget then 256 else 128),
           mr_threads = max (hw_cpu_cores hw div 2 mod 2 ^ 32) 2,
           mr_estimated_ram_mb = spec_total_mb ctx spec\<rparr>
      | None \<Rightarrow>
          let fallback = hd models in
          \<lparr>mr_model_id = sp_repo_id fallback, mr_filename = sp_filename fallback, mr_model_label = sp_label fallback,
           mr_quant = sp_quant fallback, mr_ctx_size = 2048, mr_gpu_layers = Some 0, mr_batch_size = 128,
           mr_threads = 2, mr_estimated_ram_mb = sp_size_mb fallback + 64\<rparr>)"

definition snap_down :: "nat \<Rightarrow> nat" where
  "snap_down fitted = (case find (\<lambda>tier. tier \<le> fitted) ctx_tiers of Some tier \<Rightarrow> tier | None \<Rightarrow> 2048)"

text \<open>The factor 1.2 in floating point is the parameter \<open>times_1_2\<close>, as in \<open>ModelFit\<close>.\<close>

definition auto_tune_ctx_with_dims ::
  "(nat \<Rightarrow> nat) \<Rightarrow> bool \<Rightarrow> hardware_profile \<Rightarrow> nat \<Rightarrow> nat \<Rightarrow> nat \<Rightarrow> nat \<Rightarrow> nat" where
  "auto_tune_ctx_with_dims times_1_2 mobile hw file_size n_layer n_head_kv head_dim =
     snap_down (fit_context (inference_budget_bytes mobile hw) (times_1_2 file_size)
       (kv_bytes_per_token n_layer (max n_head_kv 1) (max head_dim 1)) u32_max None)"

definition auto_tune_ctx :: "(nat \<Rightarrow> nat) \<Rightarrow> bool \<Rightarrow> hardware_profile \<Rightarrow> nat \<Rightarrow> nat \<Rightarrow> nat" where
  "auto_tune_ctx times_1_2 mobile hw file_size n_layer =
     auto_tune_ctx_with_dims times_1_2 mobile hw file_size n_layer 8 128"

record default_settings =
  df_ctx_size :: nat
  df_threads :: nat
  df_threads_batch :: nat
  df_batch_size :: nat
  df_gpu_layers :: "nat option"
  df_flash_attn :: "bool option"
  df_temperature :: nat
  df_top_p :: nat
  df_top_k :: nat
  df_min_p :: nat

definition platform_defaults :: "hardware_profile \<Rightarrow> default_settings" where
  "platform_defaults hw =
     (let gb = total_ram_gb hw; cores = clamp (hw_cpu_cores hw mod 2 ^ 32) 1 8 in
      \<lparr>df_ctx_size = (if gb \<le> 3 then 2048 else if gb \<le> 7 then 4096 else if gb \<le> 15 then 8192 else 16384),
       df_threads = cores, df_threads_batch = cores,
       df_batch_size = (if gb \<le> 3 then 128 else if gb \<le> 7 then 512 else if gb \<le> 15 then 1024 else 2048),
       df_gpu_layers = (if hw_gpu_backend hw \<noteq> CpuOnly
          then Some (if gb \<le> 7 then 20 else if gb \<le> 15 then 32 else 99) else None),
       df_flash_attn = (if hw_gpu_backend hw \<noteq> CpuOnly then Some True else None),
       df_temperature = 70, df_top_p = 90, df_top_k = 40, df_min_p = 5\<rparr>)"

section \<open>Video memory\<close>

definition is_digit_char :: "char \<Rightarrow> bool" where
  "is_digit_char c \<longleftrightarrow> 48 \<le> (of_char c :: nat) \<and> (of_char c :: nat) \<le> 57"

definition decimal_value :: "string \<Rightarrow> nat" where
  "decimal_value s = foldl (\<lambda>n c. 10 * n + (of_char c - 48)) 0 s"

text \<open>\<^verbatim>\<open>str::parse::<u64>\<close>: an optional plus sign, then digits whose value fits.\<close>

definition parse_u64 :: "string \<Rightarrow> nat option" where
  "parse_u64 s =
     (let ds = (if s \<noteq> [] \<and> hd s = CHR ''+'' then tl s else s) in
      if ds \<noteq> [] \<and> list_all is_digit_char ds \<and> decimal_value ds \<le> u64_max then Some (decimal_value ds) else None)"

fun smi_scan :: "string list \<Rightarrow> bool \<Rightarrow> nat \<Rightarrow> nat option" where
  "smi_scan [] any total_mib = (if any then Some total_mib else None)"
| "smi_scan (line # ls) any total_mib =
     (let t = trim line in
      if t = [] then smi_scan ls any total_mib
      else case parse_u64 t of
          Some m \<Rightarrow> smi_scan ls True (sat_add total_mib m)
        | None \<Rightarrow> smi_scan ls any total_mib)"

definition parse_nvidia_smi_total_mib :: "string \<Rightarrow> nat option" where
  "parse_nvidia_smi_total_mib out = smi_scan (lines out) False 0"

definition mib_total_to_bytes :: "nat \<Rightarrow> nat option" where
  "mib_total_to_bytes m = checked_mul m (1024 * 1024)"

text \<open>\<open>out\<close> is what the command printed, if it ended in time and well.\<close>

definition detect_cuda_vram_bytes :: "string option \<Rightarrow> nat" where
  "detect_cuda_vram_bytes out =
     (case out of None \<Rightarrow> 0
      | Some bytes \<Rightarrow> (case Option.bind (parse_nvidia_smi_total_mib (from_utf8_lossy bytes)) mib_total_to_bytes of Some b \<Rightarrow> b | None \<Rightarrow> 0))"

definition detect_vram_bytes :: "gpu_backend \<Rightarrow> string option \<Rightarrow> nat" where
  "detect_vram_bytes backend out =
     (case backend of Cuda \<Rightarrow> detect_cuda_vram_bytes out | Metal \<Rightarrow> 0 | Vulkan \<Rightarrow> 0 | CpuOnly \<Rightarrow> 0)"

section \<open>Video memory is never made up\<close>

definition smi_readings :: "string list \<Rightarrow> nat list" where
  "smi_readings ls = List.map_filter (\<lambda>l. parse_u64 (trim l)) ls"

lemma smi_readings_simps [simp]:
  "smi_readings [] = []"
  "smi_readings (l # ls) = (case parse_u64 (trim l) of None \<Rightarrow> smi_readings ls | Some n \<Rightarrow> n # smi_readings ls)"
  by (simp_all add: smi_readings_def List.map_filter_def split: option.split)

lemma parse_u64_Nil [simp]: "parse_u64 [] = None"
  by (simp add: parse_u64_def)

lemma smi_scan_sum:
  "n \<le> u64_max \<Longrightarrow> smi_scan ls any n =
     (if any \<or> smi_readings ls \<noteq> [] then Some (min (n + sum_list (smi_readings ls)) u64_max) else None)"
proof (induction ls arbitrary: any n)
  case Nil
  then show ?case by simp
next
  case (Cons l ls)
  show ?case
  proof (cases "parse_u64 (trim l)")
    case None
    then show ?thesis using Cons by (simp add: Let_def)
  next
    case (Some k)
    then have "trim l \<noteq> []" by (cases "trim l") auto
    moreover have "smi_scan ls True (sat_add n k)
        = Some (min (sat_add n k + sum_list (smi_readings ls)) u64_max)"
      using Cons.IH [of "sat_add n k" True] by (simp add: sat_add_def)
    ultimately show ?thesis using Some by (simp add: Let_def sat_add_def min_def)
  qed
qed

text \<open>
  The video memory of a CUDA machine is never made up. Whatever \<^verbatim>\<open>nvidia-smi\<close> prints, the number of
  bytes reported is the exact sum of the readings that are numbers, or zero when that sum does not
  fit: no line, however absurd, makes it wrap or saturate to a believable value.\<close>
lemma vram_exact_or_zero:
  "detect_vram_bytes Cuda (Some out) =
     (let b = sum_list (smi_readings (lines (from_utf8_lossy out))) * (1024 * 1024) in if b \<le> u64_max then b else 0)"
proof -
  define rs where "rs = smi_readings (lines (from_utf8_lossy out))"
  have p: "parse_nvidia_smi_total_mib (from_utf8_lossy out)
      = (if rs \<noteq> [] then Some (min (sum_list rs) u64_max) else None)"
    by (simp add: parse_nvidia_smi_total_mib_def smi_scan_sum rs_def)
  have "min (sum_list rs) u64_max * (1024 * 1024) \<le> u64_max \<longleftrightarrow> sum_list rs * (1024 * 1024) \<le> u64_max"
    by (auto simp: min_def)
  moreover have "min (sum_list rs) u64_max = sum_list rs" if "sum_list rs * (1024 * 1024) \<le> u64_max"
    using that by (simp add: min_def)
  ultimately show ?thesis
    by (auto simp: detect_vram_bytes_def detect_cuda_vram_bytes_def p rs_def [symmetric] mib_total_to_bytes_def
        checked_mul_def Let_def)
qed

section \<open>The tier cap\<close>

text \<open>
  The context cap derived from the memory alone agrees with the memory policy's ladder, except on
  machines within 256 MiB below a power of two: there the policy counts the machine to the higher
  tier and the cap stays at the lower one. It never exceeds the policy's budget.\<close>
lemma tier_cap_below_policy:
  fixes hw i
  defines "mb \<equiv> hw_total_ram_bytes hw div (1024 * 1024)"
  assumes "total_memory_mb i = mb" "is_mobile i = mobile"
  shows "tier_context_cap mobile hw \<le> default_context_budget_for_tier (detect_machine_tier i)
    \<and> (tier_context_cap mobile hw = default_context_budget_for_tier (detect_machine_tier i)
       \<longleftrightarrow> mobile \<or> \<not> (7936 \<le> mb \<and> mb < 8192 \<or> 16128 \<le> mb \<and> mb < 16384 \<or> 32512 \<le> mb \<and> mb < 32768))"
proof -
  have gb: "total_ram_gb hw = mb div 1024"
    by (simp add: total_ram_gb_def mb_def div_mult2_eq)
  show ?thesis
    using assms(2,3)
    by (simp add: tier_context_cap_def gb detect_machine_tier_def default_context_budget_for_tier_def Let_def) linarith
qed

definition sample_hardware :: "nat \<Rightarrow> hardware_profile" where
  "sample_hardware mb = \<lparr>hw_total_ram_bytes = mb * (1024 * 1024), hw_vram_bytes = 0, hw_cpu_cores = 8, hw_gpu_backend = CpuOnly\<rparr>"

lemma tier_cap_below_policy_witness:
  "tier_context_cap False (sample_hardware 8000)
     < default_context_budget_for_tier (detect_machine_tier
         \<lparr>total_memory_mb = 8000, available_memory_mb = 4000, is_mobile = False\<rparr>)"
  using tier_cap_below_policy [of "\<lparr>total_memory_mb = 8000, available_memory_mb = 4000, is_mobile = False\<rparr>"
      "sample_hardware 8000" False]
  by (simp add: sample_hardware_def)

section \<open>Context first\<close>

lemma try_models_None: "try_models b ctx ss = None \<longleftrightarrow> (\<forall>s \<in> set ss. b < spec_total_mb ctx s)"
  by (induction ss) auto

lemma try_models_Some:
  "try_models b ctx ss = Some s \<Longrightarrow> \<exists>us vs. ss = us @ s # vs \<and> spec_total_mb ctx s \<le> b \<and> (\<forall>u \<in> set us. b < spec_total_mb ctx u)"
proof (induction ss)
  case (Cons t ss)
  show ?case
  proof (cases "spec_total_mb ctx t \<le> b")
    case True
    with Cons.prems show ?thesis by - (rule exI [of _ "[]"], auto)
  next
    case False
    with Cons obtain us vs where "ss = us @ s # vs" "spec_total_mb ctx s \<le> b" "\<forall>u \<in> set us. b < spec_total_mb ctx u"
      by auto
    with False show ?thesis by - (rule exI [of _ "t # us"], auto)
  qed
qed simp

lemma try_tiers_None: "try_tiers b cs = None \<longleftrightarrow> (\<forall>c \<in> set cs. \<forall>s \<in> set models. b < spec_total_mb c s)"
proof (induction cs)
  case (Cons c cs)
  then show ?case using try_models_None [of b c "rev models"]
    by (cases "try_models b c (rev models)") auto
qed simp

lemma try_tiers_Some:
  "try_tiers b cs = Some (c, s) \<Longrightarrow> \<exists>us vs. cs = us @ c # vs \<and> try_models b c (rev models) = Some s
     \<and> (\<forall>u \<in> set us. \<forall>t \<in> set models. b < spec_total_mb u t)"
proof (induction cs)
  case (Cons d cs)
  show ?case
  proof (cases "try_models b d (rev models)")
    case None
    with Cons obtain us vs where "cs = us @ c # vs" "try_models b c (rev models) = Some s"
        "\<forall>u \<in> set us. \<forall>t \<in> set models. b < spec_total_mb u t" by auto
    with None show ?thesis by - (rule exI [of _ "d # us"], auto simp: try_models_None)
  next
    case (Some t)
    with Cons.prems show ?thesis by - (rule exI [of _ "[]"], auto)
  qed
qed simp

lemma models_by_size: "sorted (map sp_size_mb models)"
  by (simp add: models_def)

lemma tiers_descend: "sorted_wrt (>) ctx_tiers"
  by (simp add: ctx_tiers_def)

lemma tier_within_training: "c \<in> set ctx_tiers \<Longrightarrow> s \<in> set models \<Longrightarrow> min c (sp_ctx_train s) = c"
  by (auto simp: ctx_tiers_def models_def)

lemma spec_total_small: "c \<in> set ctx_tiers \<Longrightarrow> s \<in> set models \<Longrightarrow> spec_total_mb c s < 2 ^ 32"
  by (auto simp: ctx_tiers_def models_def spec_total_mb_def)

definition can_run :: "nat \<Rightarrow> nat \<Rightarrow> model_spec \<Rightarrow> bool" where
  "can_run budget c s \<longleftrightarrow> c \<in> set ctx_tiers \<and> s \<in> set models \<and> spec_total_mb c s \<le> budget"

text \<open>
  The recommendation puts the context first. If any model of the catalogue fits at any tier, the one
  recommended fits, no model fits at a larger context, and no larger model fits at that context;
  its estimate is what was compared with the budget. Only when nothing fits the smallest model at
  2048 tokens is recommended.\<close>
lemma recommend_context_first:
  fixes mobile hw
  defines "r \<equiv> recommend_model mobile hw"
  shows "(\<exists>s. can_run (budget_mb mobile hw) (mr_ctx_size r) s \<and> mr_model_id r = sp_repo_id s
      \<and> mr_estimated_ram_mb r = spec_total_mb (mr_ctx_size r) s
      \<and> (\<forall>c t. can_run (budget_mb mobile hw) c t \<longrightarrow>
            c \<le> mr_ctx_size r \<and> (c = mr_ctx_size r \<longrightarrow> sp_size_mb t \<le> sp_size_mb s)))
    \<or> (\<nexists>c t. can_run (budget_mb mobile hw) c t) \<and> mr_model_id r = sp_repo_id (hd models) \<and> mr_ctx_size r = 2048"
proof (cases "try_tiers (budget_mb mobile hw) ctx_tiers")
  case None
  then have "\<nexists>c t. can_run (budget_mb mobile hw) c t"
    by (auto simp: try_tiers_None can_run_def not_le)
  then show ?thesis using None by (simp add: r_def recommend_model_def Let_def)
next
  case (Some p)
  obtain c s where p: "p = (c, s)" by (cases p)
  let ?b = "budget_mb mobile hw"
  obtain us vs where tiers: "ctx_tiers = us @ c # vs" and m: "try_models ?b c (rev models) = Some s"
    and above: "\<forall>u \<in> set us. \<forall>t \<in> set models. ?b < spec_total_mb u t"
    using try_tiers_Some Some p by metis
  obtain xs ys where ms: "rev models = xs @ s # ys" and fits: "spec_total_mb c s \<le> ?b"
    and larger: "\<forall>u \<in> set xs. ?b < spec_total_mb c u"
    using try_models_Some [OF m] by auto
  have s: "s \<in> set models" using arg_cong [OF ms, of set] by auto
  have c: "c \<in> set ctx_tiers" by (simp add: tiers)
  have size: "mr_ctx_size r = c"
    using tier_within_training [OF c s] by (simp add: r_def recommend_model_def Some p Let_def)
  have best: "d \<le> c \<and> (d = c \<longrightarrow> sp_size_mb t \<le> sp_size_mb s)" if d: "can_run ?b d t" for d t
  proof -
    have "d \<notin> set us" using d above by (force simp: can_run_def)
    then have "d = c \<or> d \<in> set vs" using d arg_cong [OF tiers, of set] by (auto simp: can_run_def)
    then have "d \<le> c" using tiers_descend [unfolded tiers] by (auto simp: sorted_wrt_append)
    moreover have "sp_size_mb t \<le> sp_size_mb s" if "d = c"
    proof -
      have "t \<in> set xs \<or> t = s \<or> t \<in> set ys" using d arg_cong [OF ms, of set] by (auto simp: can_run_def)
      moreover have "t \<notin> set xs" using d larger that by (force simp: can_run_def)
      moreover have "sorted (map sp_size_mb (rev ys @ s # rev xs))"
        using models_by_size arg_cong [OF ms, of rev] by simp
      ultimately show ?thesis by (auto simp: sorted_append)
    qed
    ultimately show ?thesis by simp
  qed
  have "can_run ?b c s" using c s fits by (simp add: can_run_def)
  moreover have "mr_model_id r = sp_repo_id s" "mr_estimated_ram_mb r = spec_total_mb c s"
    by (simp_all add: r_def recommend_model_def Some p Let_def)
  ultimately show ?thesis using best size by blast
qed

lemma recommend_context_first_witness:
  "40960 \<le> mr_ctx_size (recommend_model False (sample_hardware 16384))"
proof -
  have "can_run (budget_mb False (sample_hardware 16384)) 40960 (hd models)"
    by (simp add: can_run_def ctx_tiers_def models_def budget_mb_def inference_budget_bytes_def
        sample_hardware_def spec_total_mb_def)
  with recommend_context_first [of False "sample_hardware 16384"] show ?thesis by blast
qed

section \<open>Tuning an imported model\<close>

lemma snap_down_spec: "snap_down n \<in> set ctx_tiers \<and> (2048 < snap_down n \<longrightarrow> snap_down n \<le> n)
    \<and> (\<forall>t \<in> set ctx_tiers. t \<le> n \<longrightarrow> t \<le> snap_down n)"
  by (simp add: snap_down_def ctx_tiers_def)

text \<open>
  The context tuned for an imported model is one of the tiers, and above the smallest tier the
  weights, the overhead and the KV cache of that many tokens fit the machine's inference budget.\<close>
lemma auto_tune_fits:
  "auto_tune_ctx_with_dims f mobile hw bytes layers heads dim \<in> set ctx_tiers
   \<and> (2048 < auto_tune_ctx_with_dims f mobile hw bytes layers heads dim \<longrightarrow>
      f bytes + runtime_overhead + kv_bytes_per_token layers (max heads 1) (max dim 1)
         * auto_tune_ctx_with_dims f mobile hw bytes layers heads dim \<le> inference_budget_bytes mobile hw)"
proof -
  let ?kv = "kv_bytes_per_token layers (max heads 1) (max dim 1)"
  let ?fit = "fit_context (inference_budget_bytes mobile hw) (f bytes) ?kv u32_max None"
  let ?c = "snap_down ?fit"
  have "f bytes + runtime_overhead + ?kv * ?c \<le> inference_budget_bytes mobile hw" if c: "2048 < ?c"
  proof -
    have le: "?c \<le> ?fit" using snap_down_spec [of ?fit] c by simp
    then have "?kv * ?c \<le> ?kv * ?fit" by (rule mult_le_mono2)
    with fit_context_in_budget [of "inference_budget_bytes mobile hw" "f bytes" ?kv u32_max None] le c
    show ?thesis by linarith
  qed
  then show ?thesis using snap_down_spec [of ?fit] by (simp add: auto_tune_ctx_with_dims_def)
qed

lemma auto_tune_fits_witness:
  "4096 + runtime_overhead + kv_bytes_per_token 28 8 128
     * auto_tune_ctx_with_dims (\<lambda>n. n) False (sample_hardware 16384) 4096 28 8 128
   \<le> inference_budget_bytes False (sample_hardware 16384)"
proof -
  have "2048 < auto_tune_ctx_with_dims (\<lambda>n. n) False (sample_hardware 16384) 4096 28 8 128"
    by (simp add: auto_tune_ctx_with_dims_def snap_down_def ctx_tiers_def fit_context_def
        inference_budget_bytes_def sample_hardware_def kv_bytes_per_token_def kv_bytes_with_widths_def sat_mul_def sat_add_def
        runtime_overhead_def)
  with auto_tune_fits [of "\<lambda>n. n" False "sample_hardware 16384" 4096 28 8 128] show ?thesis by simp
qed

end
