(* ===== verification/Executor.thy ===== *)
theory Executor
  imports Prelude "HOL-Library.Multiset"
begin

text \<open>
  The tool executor (\<^verbatim>\<open>src/executor.rs\<close>): operations run concurrently by their guard, their results
  come out in the order of submission.  The loop is deterministic (its \<^verbatim>\<open>select!\<close> is biased), the
  tasks it spawns and the calls of its user interleave as an inductive step relation.  An operation is
  its guard and its output, \<open>None\<close> when its future panics.  \<open>ex_ops\<close> (the accepted submissions) and
  \<open>ex_lost\<close> (the tasks that panicked) are ghosts.
\<close>

section \<open>Data\<close>

datatype concurrency_guard = Safe | GpuBound | Exclusive

record 'a operation =
  op_guard :: concurrency_guard
  op_out :: "'a option"

text \<open>\<open>timed_out\<close> says whether the time ran out before the future was done.\<close>

definition with_timeout :: "bool \<Rightarrow> 'a \<Rightarrow> 'a operation \<Rightarrow> 'a operation" where
  "with_timeout timed_out on_timeout x = (if timed_out then x\<lparr>op_out := Some on_timeout\<rparr> else x)"

datatype 'a slot = Pending | Skipped | Ready 'a

datatype task_phase = Waiting | Permitted | HasGpu | Executing | Sent

record 'a task =
  tk_seq :: nat
  tk_op :: "'a operation"
  tk_phase :: task_phase

datatype 'a loop_state = Selecting | Draining nat "'a operation" | Inline nat "'a operation" | Closing | Ended | Crashed

record 'a executor =
  ex_open :: bool
  ex_cancelled :: bool
  ex_receiver :: bool
  ex_next_seq :: nat
  ex_queue :: "(nat \<times> 'a operation) list"
  ex_permits :: nat
  ex_gpu_permits :: nat
  ex_buffer :: "'a slot list"
  ex_cursor :: nat
  ex_in_flight :: nat
  ex_tasks :: "'a task multiset"
  ex_done :: "(nat \<times> 'a option) list"
  ex_results :: "'a list"
  ex_loop :: "'a loop_state"
  ex_ops :: "'a operation list"
  ex_lost :: nat

definition executor_new :: "nat \<Rightarrow> 'a executor" where
  "executor_new max_concurrent =
     \<lparr>ex_open = True, ex_cancelled = False, ex_receiver = True, ex_next_seq = 0, ex_queue = [],
      ex_permits = max max_concurrent 1, ex_gpu_permits = 1, ex_buffer = [], ex_cursor = 0, ex_in_flight = 0,
      ex_tasks = {#}, ex_done = [], ex_results = [], ex_loop = Selecting, ex_ops = [], ex_lost = 0\<rparr>"

section \<open>The user's calls\<close>

definition loop_alive :: "'a executor \<Rightarrow> bool" where
  "loop_alive s \<longleftrightarrow> ex_loop s \<noteq> Ended \<and> ex_loop s \<noteq> Crashed"

definition submit :: "'a operation \<Rightarrow> 'a executor \<Rightarrow> bool \<times> 'a executor" where
  "submit x s =
     (if ex_cancelled s then (False, s)
      else if ex_open s then
        (let seq = ex_next_seq s; s1 = s\<lparr>ex_next_seq := Suc seq\<rparr> in
         if loop_alive s then (True, s1\<lparr>ex_queue := ex_queue s @ [(seq, x)], ex_ops := ex_ops s @ [x]\<rparr>)
         else (False, s1))
      else (False, s))"

definition close :: "'a executor \<Rightarrow> 'a executor" where
  "close s = s\<lparr>ex_open := False\<rparr>"

definition cancel :: "'a executor \<Rightarrow> 'a executor" where
  "cancel s = close (s\<lparr>ex_cancelled := True\<rparr>)"

text \<open>Dropping the executor drops the sender of submissions and the receiver of results.\<close>

definition drop_executor :: "'a executor \<Rightarrow> 'a executor" where
  "drop_executor s = s\<lparr>ex_open := False, ex_receiver := False\<rparr>"

section \<open>The loop\<close>

function flush_buffer :: "bool \<Rightarrow> 'a slot list \<Rightarrow> nat \<Rightarrow> 'a list \<Rightarrow> bool \<times> 'a slot list \<times> nat \<times> 'a list" where
  "flush_buffer receiver buffer cursor out =
     (if cursor < length buffer then
        (case buffer ! cursor of
           Ready v \<Rightarrow>
             if receiver then flush_buffer receiver (buffer[cursor := Pending]) (Suc cursor) (out @ [v])
             else (False, buffer[cursor := Pending], cursor, out)
         | Skipped \<Rightarrow> flush_buffer receiver (buffer[cursor := Pending]) (Suc cursor) out
         | Pending \<Rightarrow> (True, buffer, cursor, out))
      else (True, buffer, cursor, out))"
  by pat_completeness auto
termination
  by (relation "measure (\<lambda>(r, buffer, cursor, out). length buffer - cursor)") auto

declare flush_buffer.simps [simp del]

definition flush :: "'a executor \<Rightarrow> bool \<times> 'a executor" where
  "flush s =
     (case flush_buffer (ex_receiver s) (ex_buffer s) (ex_cursor s) (ex_results s) of
        (ok, b, c, out) \<Rightarrow> (ok, s\<lparr>ex_buffer := b, ex_cursor := c, ex_results := out\<rparr>))"

definition slot_of :: "'a option \<Rightarrow> 'a slot" where
  "slot_of r = (case r of Some v \<Rightarrow> Ready v | None \<Rightarrow> Skipped)"

definition resolve_slot :: "nat \<Rightarrow> 'a slot \<Rightarrow> 'a executor \<Rightarrow> 'a executor" where
  "resolve_slot seq x s = s\<lparr>ex_buffer := (ex_buffer s)[seq := x]\<rparr>"

text \<open>A completion is taken from the channel, its slot resolved and the buffer flushed.\<close>

definition take_completion :: "nat \<Rightarrow> 'a option \<Rightarrow> (nat \<times> 'a option) list \<Rightarrow> 'a executor \<Rightarrow> bool \<times> 'a executor" where
  "take_completion seq r ds s =
     flush (resolve_slot seq (slot_of r) (s\<lparr>ex_done := ds, ex_in_flight := ex_in_flight s - 1\<rparr>))"

definition reserve :: "nat \<Rightarrow> 'a slot list \<Rightarrow> 'a slot list" where
  "reserve seq buffer = buffer @ replicate (Suc seq - length buffer) Pending"

definition spawn_concurrent :: "nat \<Rightarrow> 'a operation \<Rightarrow> 'a executor \<Rightarrow> 'a executor" where
  "spawn_concurrent seq x s =
     s\<lparr>ex_in_flight := Suc (ex_in_flight s),
       ex_tasks := add_mset \<lparr>tk_seq = seq, tk_op = x, tk_phase = Waiting\<rparr> (ex_tasks s)\<rparr>"

definition receive_envelope :: "nat \<Rightarrow> 'a operation \<Rightarrow> 'a executor \<Rightarrow> 'a executor" where
  "receive_envelope seq x s =
     (if ex_cancelled s then s\<lparr>ex_loop := Closing\<rparr>
      else let s1 = s\<lparr>ex_buffer := reserve seq (ex_buffer s)\<rparr> in
        case op_guard x of
          Exclusive \<Rightarrow> s1\<lparr>ex_loop := Draining seq x\<rparr>
        | _ \<Rightarrow> spawn_concurrent seq x s1)"

definition go_on :: "'a loop_state \<Rightarrow> bool \<times> 'a executor \<Rightarrow> 'a executor" where
  "go_on l r = (case r of (ok, s) \<Rightarrow> s\<lparr>ex_loop := (if ok then l else Ended)\<rparr>)"

definition loop_step :: "'a executor \<Rightarrow> 'a executor option" where
  "loop_step s =
     (case ex_loop s of
        Selecting \<Rightarrow>
          (case ex_done s of
             (seq, r) # ds \<Rightarrow> Some (go_on Selecting (take_completion seq r ds s))
           | [] \<Rightarrow>
               (case ex_queue s of
                  (seq, x) # q \<Rightarrow> Some (receive_envelope seq x (s\<lparr>ex_queue := q\<rparr>))
                | [] \<Rightarrow> if ex_open s then None else Some (s\<lparr>ex_loop := Closing\<rparr>)))
      | Draining seq x \<Rightarrow>
          if 0 < ex_in_flight s then
            (case ex_done s of
               (seq', r) # ds \<Rightarrow> Some (snd (take_completion seq' r ds s))
             | [] \<Rightarrow> None)
          else if ex_cancelled s then Some (go_on Closing (flush (resolve_slot seq Skipped s)))
          else Some (s\<lparr>ex_loop := Inline seq x\<rparr>)
      | Inline seq x \<Rightarrow>
          (case op_out x of
             Some v \<Rightarrow> Some (go_on Selecting (flush (resolve_slot seq (Ready v) s)))
           | None \<Rightarrow> Some (s\<lparr>ex_loop := Crashed\<rparr>))
      | Closing \<Rightarrow>
          if 0 < ex_in_flight s \<and> ex_done s \<noteq> [] then
            (case hd (ex_done s) of (seq, r) \<Rightarrow> Some (snd (take_completion seq r (tl (ex_done s)) s)))
          else if 0 < ex_in_flight s \<and> ex_tasks s \<noteq> {#} then None
          else Some ((snd (flush s))\<lparr>ex_loop := Ended\<rparr>)
      | Ended \<Rightarrow> None
      | Crashed \<Rightarrow> None)"

section \<open>Tasks\<close>

definition needs_gpu :: "'a task \<Rightarrow> bool" where
  "needs_gpu t \<longleftrightarrow> op_guard (tk_op t) = GpuBound"

text \<open>All permits are held, and the task is about to look at the cancellation flag.\<close>

definition task_ready :: "'a task \<Rightarrow> bool" where
  "task_ready t \<longleftrightarrow> tk_phase t = (if needs_gpu t then HasGpu else Permitted)"

definition release_permits :: "'a task \<Rightarrow> 'a executor \<Rightarrow> 'a executor" where
  "release_permits t s =
     s\<lparr>ex_permits := Suc (ex_permits s),
       ex_gpu_permits := (if needs_gpu t then Suc (ex_gpu_permits s) else ex_gpu_permits s)\<rparr>"

inductive internal :: "'a executor \<Rightarrow> 'a executor \<Rightarrow> bool" where
  Loop: "loop_step s = Some s' \<Longrightarrow> internal s s'"
| Acquire: "ex_tasks s = add_mset t M \<Longrightarrow> tk_phase t = Waiting \<Longrightarrow> 0 < ex_permits s \<Longrightarrow>
    internal s (s\<lparr>ex_permits := ex_permits s - 1, ex_tasks := add_mset (t\<lparr>tk_phase := Permitted\<rparr>) M\<rparr>)"
| AcquireGpu: "ex_tasks s = add_mset t M \<Longrightarrow> tk_phase t = Permitted \<Longrightarrow> needs_gpu t \<Longrightarrow> 0 < ex_gpu_permits s \<Longrightarrow>
    internal s (s\<lparr>ex_gpu_permits := ex_gpu_permits s - 1, ex_tasks := add_mset (t\<lparr>tk_phase := HasGpu\<rparr>) M\<rparr>)"
| Begin: "ex_tasks s = add_mset t M \<Longrightarrow> task_ready t \<Longrightarrow> \<not> ex_cancelled s \<Longrightarrow>
    internal s (s\<lparr>ex_tasks := add_mset (t\<lparr>tk_phase := Executing\<rparr>) M\<rparr>)"
| Skip: "ex_tasks s = add_mset t M \<Longrightarrow> task_ready t \<Longrightarrow> ex_cancelled s \<Longrightarrow>
    internal s (s\<lparr>ex_tasks := add_mset (t\<lparr>tk_phase := Sent\<rparr>) M, ex_done := ex_done s @ [(tk_seq t, None)]\<rparr>)"
| Complete: "ex_tasks s = add_mset t M \<Longrightarrow> tk_phase t = Executing \<Longrightarrow> op_out (tk_op t) = Some v \<Longrightarrow>
    internal s (s\<lparr>ex_tasks := add_mset (t\<lparr>tk_phase := Sent\<rparr>) M, ex_done := ex_done s @ [(tk_seq t, Some v)]\<rparr>)"
| Panic: "ex_tasks s = add_mset t M \<Longrightarrow> tk_phase t = Executing \<Longrightarrow> op_out (tk_op t) = None \<Longrightarrow>
    internal s (release_permits t (s\<lparr>ex_tasks := M, ex_lost := Suc (ex_lost s)\<rparr>))"
| Release: "ex_tasks s = add_mset t M \<Longrightarrow> tk_phase t = Sent \<Longrightarrow> internal s (release_permits t (s\<lparr>ex_tasks := M\<rparr>))"

inductive exec_step :: "'a executor \<Rightarrow> 'a executor \<Rightarrow> bool" where
  Internal: "internal s s' \<Longrightarrow> exec_step s s'"
| Submit: "exec_step s (snd (submit x s))"
| Close: "exec_step s (close s)"
| Cancel: "exec_step s (cancel s)"
| Drop: "exec_step s (drop_executor s)"

definition exec_reachable :: "nat \<Rightarrow> 'a executor \<Rightarrow> bool" where
  "exec_reachable n s \<longleftrightarrow> exec_step\<^sup>*\<^sup>* (executor_new n) s"

section \<open>Permits and exclusion\<close>

definition holds_permit :: "'a task \<Rightarrow> bool" where
  "holds_permit t \<longleftrightarrow> tk_phase t \<noteq> Waiting"

definition holds_gpu :: "'a task \<Rightarrow> bool" where
  "holds_gpu t \<longleftrightarrow> needs_gpu t \<and> tk_phase t \<in> {HasGpu, Executing, Sent}"

definition unsent :: "'a task \<Rightarrow> bool" where
  "unsent t \<longleftrightarrow> tk_phase t \<noteq> Sent"

definition executing :: "'a task \<Rightarrow> bool" where
  "executing t \<longleftrightarrow> tk_phase t = Executing"

definition counts :: "nat \<Rightarrow> 'a executor \<Rightarrow> bool" where
  "counts n s \<longleftrightarrow>
     ex_permits s + size (filter_mset holds_permit (ex_tasks s)) = max n 1
     \<and> ex_gpu_permits s + size (filter_mset holds_gpu (ex_tasks s)) = 1
     \<and> ex_in_flight s = size (filter_mset unsent (ex_tasks s)) + length (ex_done s) + ex_lost s
     \<and> (\<forall>q x. ex_loop s = Inline q x \<longrightarrow> ex_in_flight s = 0)"

lemmas phase_defs = holds_permit_def holds_gpu_def unsent_def executing_def needs_gpu_def task_ready_def

lemma flush_sel [simp]:
  "ex_tasks (snd (flush s)) = ex_tasks s" "ex_done (snd (flush s)) = ex_done s"
  "ex_in_flight (snd (flush s)) = ex_in_flight s" "ex_permits (snd (flush s)) = ex_permits s"
  "ex_gpu_permits (snd (flush s)) = ex_gpu_permits s" "ex_lost (snd (flush s)) = ex_lost s"
  "ex_loop (snd (flush s)) = ex_loop s" "ex_queue (snd (flush s)) = ex_queue s" "ex_ops (snd (flush s)) = ex_ops s"
  "ex_open (snd (flush s)) = ex_open s" "ex_cancelled (snd (flush s)) = ex_cancelled s"
  "ex_receiver (snd (flush s)) = ex_receiver s" "ex_next_seq (snd (flush s)) = ex_next_seq s"
  by (simp_all add: flush_def split: prod.split)

lemma go_on_sel [simp]:
  "ex_tasks (go_on l r) = ex_tasks (snd r)" "ex_done (go_on l r) = ex_done (snd r)"
  "ex_in_flight (go_on l r) = ex_in_flight (snd r)" "ex_permits (go_on l r) = ex_permits (snd r)"
  "ex_gpu_permits (go_on l r) = ex_gpu_permits (snd r)" "ex_lost (go_on l r) = ex_lost (snd r)"
  "ex_loop (go_on l r) = (if fst r then l else Ended)" "ex_queue (go_on l r) = ex_queue (snd r)"
  "ex_ops (go_on l r) = ex_ops (snd r)" "ex_open (go_on l r) = ex_open (snd r)"
  "ex_cancelled (go_on l r) = ex_cancelled (snd r)" "ex_receiver (go_on l r) = ex_receiver (snd r)"
  "ex_next_seq (go_on l r) = ex_next_seq (snd r)" "ex_buffer (go_on l r) = ex_buffer (snd r)"
  "ex_cursor (go_on l r) = ex_cursor (snd r)" "ex_results (go_on l r) = ex_results (snd r)"
  by (simp_all add: go_on_def split: prod.split)

lemma resolve_sel [simp]:
  "ex_tasks (resolve_slot q y s) = ex_tasks s" "ex_done (resolve_slot q y s) = ex_done s"
  "ex_in_flight (resolve_slot q y s) = ex_in_flight s" "ex_permits (resolve_slot q y s) = ex_permits s"
  "ex_gpu_permits (resolve_slot q y s) = ex_gpu_permits s" "ex_lost (resolve_slot q y s) = ex_lost s"
  "ex_loop (resolve_slot q y s) = ex_loop s" "ex_queue (resolve_slot q y s) = ex_queue s"
  "ex_ops (resolve_slot q y s) = ex_ops s" "ex_open (resolve_slot q y s) = ex_open s"
  "ex_cancelled (resolve_slot q y s) = ex_cancelled s" "ex_receiver (resolve_slot q y s) = ex_receiver s"
  "ex_next_seq (resolve_slot q y s) = ex_next_seq s" "ex_buffer (resolve_slot q y s) = (ex_buffer s)[q := y]"
  "ex_cursor (resolve_slot q y s) = ex_cursor s" "ex_results (resolve_slot q y s) = ex_results s"
  by (simp_all add: resolve_slot_def)

text \<open>The steps of the loop, one by one.\<close>

inductive loop_does :: "'a executor \<Rightarrow> 'a executor \<Rightarrow> bool" where
  Taken: "ex_loop s = Selecting \<Longrightarrow> ex_done s = (q, r) # ds \<Longrightarrow>
    loop_does s (go_on Selecting (take_completion q r ds s))"
| Received: "ex_loop s = Selecting \<Longrightarrow> ex_done s = [] \<Longrightarrow> ex_queue s = (q, x) # es \<Longrightarrow>
    loop_does s (receive_envelope q x (s\<lparr>ex_queue := es\<rparr>))"
| Closed: "ex_loop s = Selecting \<Longrightarrow> ex_done s = [] \<Longrightarrow> ex_queue s = [] \<Longrightarrow> \<not> ex_open s \<Longrightarrow>
    loop_does s (s\<lparr>ex_loop := Closing\<rparr>)"
| Drained: "ex_loop s \<in> {Draining a b, Closing} \<Longrightarrow> 0 < ex_in_flight s \<Longrightarrow> ex_done s = (q, r) # ds \<Longrightarrow>
    loop_does s (snd (take_completion q r ds s))"
| CalledOff: "ex_loop s = Draining q x \<Longrightarrow> ex_in_flight s = 0 \<Longrightarrow> ex_cancelled s \<Longrightarrow>
    loop_does s (go_on Closing (flush (resolve_slot q Skipped s)))"
| Entered: "ex_loop s = Draining q x \<Longrightarrow> ex_in_flight s = 0 \<Longrightarrow> \<not> ex_cancelled s \<Longrightarrow>
    loop_does s (s\<lparr>ex_loop := Inline q x\<rparr>)"
| Ran: "ex_loop s = Inline q x \<Longrightarrow> op_out x = Some v \<Longrightarrow>
    loop_does s (go_on Selecting (flush (resolve_slot q (Ready v) s)))"
| Died: "ex_loop s = Inline q x \<Longrightarrow> op_out x = None \<Longrightarrow> loop_does s (s\<lparr>ex_loop := Crashed\<rparr>)"
| Finished: "ex_loop s = Closing \<Longrightarrow> ex_in_flight s = 0 \<or> ex_done s = [] \<and> ex_tasks s = {#} \<Longrightarrow>
    loop_does s ((snd (flush s))\<lparr>ex_loop := Ended\<rparr>)"

lemma loop_step_does: "loop_step s = Some s' \<Longrightarrow> loop_does s s'"
proof (cases "ex_loop s")
  case Closing
  assume *: "loop_step s = Some s'"
  show ?thesis
  proof (cases "0 < ex_in_flight s \<and> ex_done s \<noteq> []")
    case True
    then obtain q r ds where "ex_done s = (q, r) # ds" by (cases "ex_done s") auto
    with True Closing * show ?thesis by (auto simp: loop_step_def intro!: Drained)
  next
    case False
    with Closing * show ?thesis by (auto simp: loop_step_def split: if_splits intro!: Finished)
  qed
qed (auto simp: loop_step_def split: list.splits if_splits option.splits
    intro: Taken Received Closed Drained CalledOff Entered Ran Died)

lemma take_completion_sel [simp]:
  "ex_tasks (snd (take_completion q r ds s)) = ex_tasks s" "ex_done (snd (take_completion q r ds s)) = ds"
  "ex_in_flight (snd (take_completion q r ds s)) = ex_in_flight s - 1"
  "ex_permits (snd (take_completion q r ds s)) = ex_permits s"
  "ex_gpu_permits (snd (take_completion q r ds s)) = ex_gpu_permits s"
  "ex_lost (snd (take_completion q r ds s)) = ex_lost s" "ex_loop (snd (take_completion q r ds s)) = ex_loop s"
  "ex_queue (snd (take_completion q r ds s)) = ex_queue s" "ex_ops (snd (take_completion q r ds s)) = ex_ops s"
  "ex_open (snd (take_completion q r ds s)) = ex_open s"
  "ex_cancelled (snd (take_completion q r ds s)) = ex_cancelled s"
  "ex_receiver (snd (take_completion q r ds s)) = ex_receiver s"
  "ex_next_seq (snd (take_completion q r ds s)) = ex_next_seq s"
  by (simp_all add: take_completion_def)

lemma counts_loop: "loop_does s s' \<Longrightarrow> counts n s \<Longrightarrow> counts n s'"
  by (induction rule: loop_does.induct)
    (auto simp: counts_def receive_envelope_def spawn_concurrent_def Let_def phase_defs split: concurrency_guard.split)

lemma counts_internal: "internal s s' \<Longrightarrow> counts n s \<Longrightarrow> counts n s'"
proof (induction rule: internal.induct)
  case (Loop s s')
  then show ?case using counts_loop loop_step_does by blast
qed (auto simp: counts_def phase_defs release_permits_def simp del: size_eq_0_iff_empty split: if_splits)

lemma counts_step: "exec_step s s' \<Longrightarrow> counts n s \<Longrightarrow> counts n s'"
proof (induction rule: exec_step.induct)
  case (Internal s s')
  then show ?case by (rule counts_internal)
qed (auto simp: counts_def submit_def close_def cancel_def drop_executor_def Let_def)

lemma exec_reachable_induct:
  "exec_reachable n s \<Longrightarrow> P (executor_new n) \<Longrightarrow> (\<And>s s'. exec_step s s' \<Longrightarrow> P s \<Longrightarrow> P s') \<Longrightarrow> P s"
  unfolding exec_reachable_def by (induction rule: rtranclp_induct) blast+

lemma reachable_counts: "exec_reachable n s \<Longrightarrow> counts n s"
  by (erule exec_reachable_induct) (blast intro: counts_step | simp add: counts_def executor_new_def)+

lemma filter_subset_size: "(\<And>x. P x \<Longrightarrow> Q x) \<Longrightarrow> size (filter_mset P M) \<le> size (filter_mset Q M)"
  by (induction M) (auto intro: le_SucI)

lemma executing_unsent: "executing t \<Longrightarrow> unsent t"
  by (simp add: phase_defs)

text \<open>
  C15: Whatever the interleaving, at most \<^verbatim>\<open>max_concurrent\<close> operations execute at a time, at most one of
  them on the GPU, and none while an exclusive operation runs.\<close>
theorem executor_excludes:
  assumes "exec_reachable n s"
  shows "size (filter_mset executing (ex_tasks s)) \<le> max n 1
    \<and> size (filter_mset (\<lambda>t. executing t \<and> needs_gpu t) (ex_tasks s)) \<le> 1
    \<and> (\<forall>q x. ex_loop s = Inline q x \<longrightarrow> filter_mset executing (ex_tasks s) = {#})"
proof -
  have c: "counts n s" using assms by (rule reachable_counts)
  have "size (filter_mset executing (ex_tasks s)) \<le> size (filter_mset holds_permit (ex_tasks s))"
    by (rule filter_subset_size) (simp add: phase_defs)
  moreover have "size (filter_mset (\<lambda>t. executing t \<and> needs_gpu t) (ex_tasks s)) \<le> size (filter_mset holds_gpu (ex_tasks s))"
    by (rule filter_subset_size) (simp add: phase_defs)
  moreover have "size (filter_mset executing (ex_tasks s)) \<le> size (filter_mset unsent (ex_tasks s))"
    by (rule filter_subset_size) (simp add: phase_defs)
  ultimately show ?thesis using c by (auto simp: counts_def dest: executing_unsent)
qed

section \<open>Order\<close>

text \<open>What a stretch of slots delivers.\<close>

definition delivered :: "'a slot list \<Rightarrow> 'a list" where
  "delivered xs = List.map_filter (\<lambda>x. case x of Ready v \<Rightarrow> Some v | _ \<Rightarrow> None) xs"

lemma delivered_simps [simp]:
  "delivered [] = []" "delivered (Ready v # xs) = v # delivered xs" "delivered (Skipped # xs) = delivered xs"
  "delivered (Pending # xs) = delivered xs"
  by (simp_all add: delivered_def List.map_filter_def)

definition flushed :: "bool \<Rightarrow> 'a slot list \<Rightarrow> nat \<Rightarrow> 'a list \<Rightarrow> bool \<times> 'a slot list \<times> nat \<times> 'a list \<Rightarrow> bool" where
  "flushed alive b c out r \<longleftrightarrow>
     (case r of (ok, b', c', out') \<Rightarrow>
        length b' = length b \<and> c \<le> c' \<and> c' \<le> length b
        \<and> (\<forall>i. c \<le> i \<and> i < c' \<longrightarrow> b ! i \<noteq> Pending)
        \<and> (\<forall>i < length b. b' ! i = b ! i \<or> b' ! i = Pending)
        \<and> (\<forall>i. c' \<le> i \<and> i < length b \<and> ok \<longrightarrow> b' ! i = b ! i)
        \<and> (ok \<and> c' < length b \<longrightarrow> b ! c' = Pending)
        \<and> (alive \<longrightarrow> ok)
        \<and> out' = out @ delivered (map (nth b) [c..<c']))"

lemma flush_buffer_flushed: "c \<le> length b \<Longrightarrow> flushed alive b c out (flush_buffer alive b c out)"
proof (induction alive b c out rule: flush_buffer.induct)
  case (1 alive b c out)
  show ?case
  proof (cases "c < length b")
    case False
    then show ?thesis using "1.prems" by (auto simp: flush_buffer.simps [of alive b] flushed_def)
  next
    case c: True
    have step: "flushed alive b c out r"
      if "flushed alive (b[c := Pending]) (Suc c) (out @ delivered [b ! c]) r" "b ! c \<noteq> Pending" for r
    proof -
      obtain ok b' c' out' where r: "r = (ok, b', c', out')" by (cases r)
      have up: "map (nth (b[c := Pending])) [Suc c..<c'] = map (nth b) [Suc c..<c']" by simp
      have "[c..<c'] = c # [Suc c..<c']" if "Suc c \<le> c'" using that by (simp add: upt_conv_Cons)
      then have "delivered (map (nth b) [c..<c']) = delivered [b ! c] @ delivered (map (nth b) [Suc c..<c'])" if "Suc c \<le> c'"
        using that by (cases "b ! c") auto
      moreover have "b ! i \<noteq> Pending" if "c \<le> i" "Suc c \<le> i \<longrightarrow> b ! i \<noteq> Pending" for i
        using that \<open>b ! c \<noteq> Pending\<close> by (cases "i = c") auto
      ultimately show ?thesis using that(1) c
        by (auto simp: flushed_def r up nth_list_update split: if_splits)
    qed
    show ?thesis
    proof (cases "b ! c")
      case Pending
      then show ?thesis using c by (auto simp: flush_buffer.simps [of alive b] flushed_def)
    next
      case Skipped
      then show ?thesis using "1.IH"(1) [OF c Skipped] c step by (simp add: flush_buffer.simps [of alive b])
    next
      case (Ready v)
      show ?thesis
      proof (cases alive)
        case True
        then show ?thesis using "1.IH"(2) [OF c Ready] c Ready step by (simp add: flush_buffer.simps [of True b c])
      next
        case False
        then have "flush_buffer alive b c out = (False, b[c := Pending], c, out)"
          using c Ready by (simp add: flush_buffer.simps [of False b c])
        then show ?thesis using c False by (auto simp: flushed_def nth_list_update)
      qed
    qed
  qed
qed

definition outs :: "'a operation list \<Rightarrow> 'a list" where
  "outs xs = List.map_filter op_out xs"

definition slot_ok :: "bool \<Rightarrow> 'a operation list \<Rightarrow> nat \<Rightarrow> 'a slot \<Rightarrow> bool" where
  "slot_ok cancelled xs i y \<longleftrightarrow>
     (case y of Pending \<Rightarrow> True | Skipped \<Rightarrow> cancelled | Ready v \<Rightarrow> op_out (xs ! i) = Some v)"

fun receiving :: "'a loop_state \<Rightarrow> bool" where
  "receiving Selecting = True"
| "receiving (Draining q x) = True"
| "receiving (Inline q x) = True"
| "receiving l = False"

text \<open>The operation the loop itself is busy with.\<close>

fun loop_op :: "'a loop_state \<Rightarrow> (nat \<times> 'a operation) option" where
  "loop_op (Draining q x) = Some (q, x)"
| "loop_op (Inline q x) = Some (q, x)"
| "loop_op l = None"

definition in_order :: "'a executor \<Rightarrow> bool" where
  "in_order s \<longleftrightarrow>
     ex_cursor s \<le> length (ex_buffer s) \<and> length (ex_buffer s) \<le> length (ex_ops s)
     \<and> (receiving (ex_loop s) \<longrightarrow> ex_next_seq s = length (ex_ops s)
          \<and> ex_queue s = zip [length (ex_buffer s)..<length (ex_ops s)] (drop (length (ex_buffer s)) (ex_ops s)))
     \<and> (\<forall>i < length (ex_buffer s). slot_ok (ex_cancelled s) (ex_ops s) i (ex_buffer s ! i))
     \<and> (\<forall>(i, r) \<in> set (ex_done s). i < length (ex_buffer s) \<and> slot_ok (ex_cancelled s) (ex_ops s) i (slot_of r))
     \<and> (\<forall>t \<in># ex_tasks s. tk_seq t < length (ex_buffer s) \<and> tk_op t = ex_ops s ! tk_seq t)
     \<and> (\<forall>q x. loop_op (ex_loop s) = Some (q, x) \<longrightarrow> q < length (ex_buffer s) \<and> x = ex_ops s ! q)
     \<and> subseq (ex_results s) (outs (take (ex_cursor s) (ex_ops s)))
     \<and> (\<not> ex_cancelled s \<longrightarrow> map Some (ex_results s) = map op_out (take (ex_cursor s) (ex_ops s)))"

lemma take_upt_nth: "c \<le> d \<Longrightarrow> d \<le> length xs \<Longrightarrow> take d xs = take c xs @ map (nth xs) [c..<d]"
proof (induction d)
  case (Suc d)
  then show ?case by (cases "c = Suc d") (auto simp: take_Suc_conv_app_nth)
qed simp

lemma outs_append [simp]: "outs (xs @ ys) = outs xs @ outs ys"
  by (simp add: outs_def List.map_filter_def)

lemma delivered_subseq:
  "(\<And>i. i \<in> set is \<Longrightarrow> slot_ok z xs i (b ! i)) \<Longrightarrow> subseq (delivered (map (nth b) is)) (outs (map (nth xs) is))"
proof (induction "is")
  case (Cons i js)
  then have "subseq (delivered (map (nth b) js)) (outs (map (nth xs) js))" by simp
  with Cons.prems [of i] show ?case
    by (cases "b ! i"; cases "op_out (xs ! i)") (auto simp: slot_ok_def outs_def List.map_filter_def)
qed simp

lemma delivered_all:
  "(\<And>i. i \<in> set is \<Longrightarrow> slot_ok False xs i (b ! i) \<and> b ! i \<noteq> Pending) \<Longrightarrow>
   map Some (delivered (map (nth b) is)) = map op_out (map (nth xs) is)"
proof (induction "is")
  case (Cons i js)
  with Cons.prems [of i] show ?case by (cases "b ! i") (auto simp: slot_ok_def)
qed simp

lemma flush_flushed:
  assumes "ex_cursor s \<le> length (ex_buffer s)"
  shows "flushed (ex_receiver s) (ex_buffer s) (ex_cursor s) (ex_results s)
    (fst (flush s), ex_buffer (snd (flush s)), ex_cursor (snd (flush s)), ex_results (snd (flush s)))"
  using flush_buffer_flushed [OF assms, of "ex_receiver s" "ex_results s"]
  by (cases "flush_buffer (ex_receiver s) (ex_buffer s) (ex_cursor s) (ex_results s)") (simp add: flush_def)

lemma slot_ok_Pending [simp]: "slot_ok z xs i Pending"
  by (simp add: slot_ok_def)

lemma order_flush: "in_order s \<Longrightarrow> in_order (snd (flush s))"
proof -
  assume s: "in_order s"
  let ?b = "ex_buffer s" let ?c = "ex_cursor s" let ?s = "snd (flush s)" let ?d = "ex_cursor ?s"
  have f: "flushed (ex_receiver s) ?b ?c (ex_results s) (fst (flush s), ex_buffer ?s, ?d, ex_results ?s)"
    using s by (intro flush_flushed) (simp add: in_order_def)
  have cd: "?c \<le> ?d" "?d \<le> length ?b" "length (ex_buffer ?s) = length ?b" "length ?b \<le> length (ex_ops s)"
    and res: "ex_results ?s = ex_results s @ delivered (map (nth ?b) [?c..<?d])"
    and done': "\<And>i. ?c \<le> i \<Longrightarrow> i < ?d \<Longrightarrow> ?b ! i \<noteq> Pending"
    and slots: "\<And>i. i < length ?b \<Longrightarrow> ex_buffer ?s ! i = ?b ! i \<or> ex_buffer ?s ! i = Pending"
    using f s by (auto simp: flushed_def in_order_def)
  have ok: "\<And>i. i < length ?b \<Longrightarrow> slot_ok (ex_cancelled s) (ex_ops s) i (?b ! i)" using s by (simp add: in_order_def)
  have ops: "take ?d (ex_ops s) = take ?c (ex_ops s) @ map (nth (ex_ops s)) [?c..<?d]"
    using cd by (intro take_upt_nth) auto
  have "subseq (delivered (map (nth ?b) [?c..<?d])) (outs (map (nth (ex_ops s)) [?c..<?d]))"
    using cd by (intro delivered_subseq [where z = "ex_cancelled s"] ok) auto
  then have "subseq (ex_results ?s) (outs (take ?d (ex_ops s)))"
    unfolding ops res using s by (auto simp: in_order_def intro: list_emb_append_mono)
  moreover have "map Some (ex_results ?s) = map op_out (take ?d (ex_ops s))" if "\<not> ex_cancelled s"
  proof -
    have "map Some (delivered (map (nth ?b) [?c..<?d])) = map op_out (map (nth (ex_ops s)) [?c..<?d])"
      using cd ok done' that by (intro delivered_all) auto
    then show ?thesis unfolding ops res using s that by (simp add: in_order_def)
  qed
  moreover have "\<forall>i < length ?b. slot_ok (ex_cancelled s) (ex_ops s) i (ex_buffer ?s ! i)"
    using ok slots by (metis slot_ok_Pending)
  ultimately show "in_order ?s" using s cd by (simp add: in_order_def)
qed

lemma order_resolve: "in_order s \<Longrightarrow> slot_ok (ex_cancelled s) (ex_ops s) q y \<Longrightarrow> in_order (resolve_slot q y s)"
  by (cases "q < length (ex_buffer s)") (auto simp: in_order_def nth_list_update)

lemma order_loop_state:
  assumes "in_order s" "receiving l \<longrightarrow> receiving (ex_loop s)" "loop_op l = None \<or> loop_op l = loop_op (ex_loop s)"
  shows "in_order (s\<lparr>ex_loop := l\<rparr>)"
  using assms by (auto simp: in_order_def)

lemma go_on_eq: "go_on l r = (snd r)\<lparr>ex_loop := (if fst r then l else Ended)\<rparr>"
  by (simp add: go_on_def case_prod_beta)

lemma order_completion:
  assumes "in_order s" "ex_done s = (q, r) # ds"
  shows "in_order (snd (take_completion q r ds s))"
proof -
  let ?s = "s\<lparr>ex_done := ds, ex_in_flight := ex_in_flight s - 1\<rparr>"
  have "in_order ?s" using assms by (simp add: in_order_def)
  moreover have "slot_ok (ex_cancelled ?s) (ex_ops ?s) q (slot_of r)" using assms by (simp add: in_order_def)
  ultimately show ?thesis unfolding take_completion_def by (intro order_flush order_resolve)
qed

lemma order_queue:
  assumes "in_order s" "ex_loop s = Selecting" "ex_queue s = (q, x) # es"
  shows "q = length (ex_buffer s)" "q < length (ex_ops s)" "x = ex_ops s ! q"
    "es = zip [Suc q..<length (ex_ops s)] (drop (Suc q) (ex_ops s))"
proof -
  let ?n = "length (ex_buffer s)" let ?m = "length (ex_ops s)"
  have z: "(q, x) # es = zip [?n..<?m] (drop ?n (ex_ops s))" and n: "?n \<le> ?m"
    using assms by (auto simp: in_order_def)
  have lt: "?n < ?m" using z n by (cases "?n = ?m") auto
  have "(q, x) # es = (?n, ex_ops s ! ?n) # zip [Suc ?n..<?m] (drop (Suc ?n) (ex_ops s))"
    unfolding z upt_conv_Cons [OF lt] Cons_nth_drop_Suc [OF lt, symmetric] by simp
  then show "q = ?n" "q < ?m" "x = ex_ops s ! q" "es = zip [Suc q..<?m] (drop (Suc q) (ex_ops s))" using lt by auto
qed

lemma order_receive:
  assumes "in_order s" "ex_loop s = Selecting" "ex_queue s = (q, x) # es"
  shows "in_order (receive_envelope q x (s\<lparr>ex_queue := es\<rparr>))"
proof (cases "ex_cancelled s")
  case True
  then show ?thesis using assms by (simp add: receive_envelope_def in_order_def)
next
  case False
  note q = order_queue [OF assms]
  define s1 where "s1 = s\<lparr>ex_queue := es, ex_buffer := ex_buffer s @ [Pending]\<rparr>"
  have len: "length (ex_buffer s1) = Suc q" by (simp add: s1_def q(1))
  have "\<forall>i < Suc q. slot_ok (ex_cancelled s) (ex_ops s) i ((ex_buffer s @ [Pending]) ! i)"
    using assms(1) by (auto simp: in_order_def nth_append less_Suc_eq q(1))
  then have "in_order s1"
    using assms(1,2) q(2,4) by (auto simp: s1_def in_order_def q(1) [symmetric] less_Suc_eq)
  moreover have "receive_envelope q x (s\<lparr>ex_queue := es\<rparr>)
      = (case op_guard x of Exclusive \<Rightarrow> s1\<lparr>ex_loop := Draining q x\<rparr> | _ \<Rightarrow> spawn_concurrent q x s1)"
    using False by (simp add: receive_envelope_def Let_def s1_def reserve_def q(1) split: concurrency_guard.split)
  moreover have "ex_loop s1 = Selecting" "ex_ops s1 = ex_ops s" by (simp_all add: s1_def assms(2))
  ultimately show ?thesis using q(3) len
    by (auto simp: in_order_def spawn_concurrent_def split: concurrency_guard.splits)
qed

lemma order_loop: "loop_does s s' \<Longrightarrow> in_order s \<Longrightarrow> in_order s'"
proof (induction rule: loop_does.induct)
  case (Taken s q r ds)
  then show ?case unfolding go_on_eq by (intro order_loop_state order_completion) auto
next
  case (Received s q x es)
  then show ?case by (intro order_receive)
next
  case (CalledOff s q x)
  then show ?case unfolding go_on_eq by (intro order_loop_state order_flush order_resolve) (auto simp: slot_ok_def)
next
  case (Ran s q x v)
  then have "slot_ok (ex_cancelled s) (ex_ops s) q (Ready v)" by (auto simp: in_order_def slot_ok_def)
  with Ran show ?case unfolding go_on_eq by (intro order_loop_state order_flush order_resolve) auto
qed (auto intro!: order_loop_state order_completion order_flush)

lemma order_internal: "internal s s' \<Longrightarrow> in_order s \<Longrightarrow> in_order s'"
proof (induction rule: internal.induct)
  case (Loop s s')
  then show ?case using order_loop loop_step_does by blast
next
  case (Complete s t M v)
  then have "slot_ok (ex_cancelled s) (ex_ops s) (tk_seq t) (slot_of (Some v))"
    by (auto simp: in_order_def slot_ok_def slot_of_def)
  with Complete show ?case by (auto simp: in_order_def)
qed (auto simp: in_order_def release_permits_def slot_ok_def slot_of_def)

lemma order_submit: "in_order s \<Longrightarrow> in_order (snd (submit x s))"
proof -
  assume s: "in_order s"
  let ?n = "length (ex_buffer s)" let ?m = "length (ex_ops s)"
  have n: "?n \<le> ?m" using s by (simp add: in_order_def)
  have nth: "i < ?n \<Longrightarrow> (ex_ops s @ [x]) ! i = ex_ops s ! i" for i using n by (simp add: nth_append)
  have ok: "i < ?n \<Longrightarrow> slot_ok z (ex_ops s @ [x]) i y = slot_ok z (ex_ops s) i y" for i z y
    by (simp add: slot_ok_def nth split: slot.split)
  have tk: "take (ex_cursor s) (ex_ops s @ [x]) = take (ex_cursor s) (ex_ops s)"
    using s n by (simp add: in_order_def)
  have z: "zip [?n..<Suc ?m] (drop ?n (ex_ops s @ [x])) = zip [?n..<?m] (drop ?n (ex_ops s)) @ [(?m, x)]"
    using n by simp
  show ?thesis
  proof (cases "ex_cancelled s \<or> \<not> ex_open s")
    case True
    then show ?thesis using s by (auto simp: submit_def)
  next
    case False
    show ?thesis
    proof (cases "loop_alive s")
      case True
      have "in_order (s\<lparr>ex_next_seq := Suc (ex_next_seq s), ex_queue := ex_queue s @ [(ex_next_seq s, x)],
          ex_ops := ex_ops s @ [x]\<rparr>)"
        using s n unfolding in_order_def by (auto simp: ok nth tk z)
      then show ?thesis using False True by (simp add: submit_def Let_def)
    next
      case dead: False
      then have "\<not> receiving (ex_loop s)" by (auto simp: loop_alive_def)
      then show ?thesis using s False dead by (simp add: submit_def Let_def in_order_def)
    qed
  qed
qed

lemma slot_ok_cancel: "slot_ok z xs i y \<Longrightarrow> slot_ok True xs i y"
  by (auto simp: slot_ok_def split: slot.splits)

lemma order_step: "exec_step s s' \<Longrightarrow> in_order s \<Longrightarrow> in_order s'"
proof (induction rule: exec_step.induct)
  case (Internal s s')
  then show ?case by (rule order_internal)
next
  case (Submit s x)
  then show ?case by (rule order_submit)
next
  case (Cancel s)
  then show ?case by (auto simp: in_order_def cancel_def close_def intro: slot_ok_cancel)
qed (auto simp: in_order_def close_def drop_executor_def)

lemma reachable_order: "exec_reachable n s \<Longrightarrow> in_order s"
  by (erule exec_reachable_induct) (blast intro: order_step | simp add: in_order_def executor_new_def)+

text \<open>
  C16: Results come out in the order of submission. Whatever the interleaving, what was delivered is a
  subsequence of the outputs of the operations before the cursor; and as long as nobody cancelled, it
  is exactly their outputs, one for each.\<close>
theorem executor_in_order:
  assumes "exec_reachable n s"
  shows "subseq (ex_results s) (outs (take (ex_cursor s) (ex_ops s)))
    \<and> (\<not> ex_cancelled s \<longrightarrow> map Some (ex_results s) = map op_out (take (ex_cursor s) (ex_ops s)))"
  using reachable_order [OF assms] by (simp add: in_order_def)

section \<open>Every result arrives\<close>

definition in_work :: "'a executor \<Rightarrow> nat \<Rightarrow> bool" where
  "in_work s i \<longleftrightarrow>
     (\<exists>t \<in># ex_tasks s. unsent t \<and> tk_seq t = i) \<or> (\<exists>r. (i, r) \<in> set (ex_done s))
     \<or> (\<exists>x. loop_op (ex_loop s) = Some (i, x))"

definition healthy :: "'a executor \<Rightarrow> bool" where
  "healthy s \<longleftrightarrow> ex_receiver s \<and> ex_lost s = 0 \<and> ex_loop s \<noteq> Crashed"

definition waits_for_work :: "'a executor \<Rightarrow> bool" where
  "waits_for_work s \<longleftrightarrow>
     (healthy s \<longrightarrow> (\<forall>i. ex_cursor s \<le> i \<and> i < length (ex_buffer s) \<and> ex_buffer s ! i = Pending \<longrightarrow> in_work s i)
        \<and> (ex_loop s = Ended \<longrightarrow> ex_cursor s = length (ex_buffer s)))
     \<and> (ex_receiver s \<and> \<not> ex_cancelled s \<and> ex_loop s \<in> {Closing, Ended} \<longrightarrow>
          \<not> ex_open s \<and> length (ex_buffer s) = length (ex_ops s))
     \<and> (0 < ex_lost s \<or> ex_loop s = Crashed \<longrightarrow> (\<exists>x \<in> set (ex_ops s). op_out x = None))
     \<and> (\<forall>t \<in># ex_tasks s. tk_phase t = HasGpu \<longrightarrow> needs_gpu t)"

lemma flush_facts:
  assumes "in_order s"
  shows "length (ex_buffer (snd (flush s))) = length (ex_buffer s)" "ex_cursor s \<le> ex_cursor (snd (flush s))"
    "ex_cursor (snd (flush s)) \<le> length (ex_buffer s)"
    "ex_receiver s \<Longrightarrow> fst (flush s)"
    "ex_receiver s \<Longrightarrow> ex_cursor (snd (flush s)) \<le> i \<Longrightarrow> i < length (ex_buffer s) \<Longrightarrow>
       ex_buffer (snd (flush s)) ! i = ex_buffer s ! i"
    "ex_receiver s \<Longrightarrow> ex_cursor (snd (flush s)) < length (ex_buffer s) \<Longrightarrow>
       ex_buffer s ! ex_cursor (snd (flush s)) = Pending"
proof -
  have "flushed (ex_receiver s) (ex_buffer s) (ex_cursor s) (ex_results s)
    (fst (flush s), ex_buffer (snd (flush s)), ex_cursor (snd (flush s)), ex_results (snd (flush s)))"
    using assms by (intro flush_flushed) (simp add: in_order_def)
  then show "length (ex_buffer (snd (flush s))) = length (ex_buffer s)" "ex_cursor s \<le> ex_cursor (snd (flush s))"
    "ex_cursor (snd (flush s)) \<le> length (ex_buffer s)"
    "ex_receiver s \<Longrightarrow> fst (flush s)"
    "ex_receiver s \<Longrightarrow> ex_cursor (snd (flush s)) \<le> i \<Longrightarrow> i < length (ex_buffer s) \<Longrightarrow>
       ex_buffer (snd (flush s)) ! i = ex_buffer s ! i"
    "ex_receiver s \<Longrightarrow> ex_cursor (snd (flush s)) < length (ex_buffer s) \<Longrightarrow>
       ex_buffer s ! ex_cursor (snd (flush s)) = Pending"
    by (auto simp: flushed_def)
qed

text \<open>A slot is resolved and the buffer flushed; what was in work, other than that slot, still is.\<close>

lemma waits_resolve:
  assumes "in_order t" "ex_buffer t = ex_buffer s" "ex_cursor t = ex_cursor s" "ex_receiver t = ex_receiver s"
    "slot_ok (ex_cancelled t) (ex_ops t) q y" "waits_for_work s" "q < length (ex_buffer s)" "y \<noteq> Pending"
    "ex_tasks s' = ex_tasks s" "ex_lost s' = ex_lost s" "ex_receiver s' = ex_receiver s" "ex_cancelled s' = ex_cancelled s"
    "ex_open s' = ex_open s" "ex_ops s' = ex_ops s"
    "ex_buffer s' = ex_buffer (snd (flush (resolve_slot q y t)))" "ex_cursor s' = ex_cursor (snd (flush (resolve_slot q y t)))"
    "\<And>i. in_work s i \<Longrightarrow> i \<noteq> q \<Longrightarrow> in_work s' i"
    "ex_loop s \<noteq> Crashed" "ex_loop s \<noteq> Ended" "ex_loop s' \<noteq> Crashed" "ex_receiver s \<Longrightarrow> ex_loop s' \<noteq> Ended"
    "ex_loop s' = Closing \<Longrightarrow> \<not> ex_cancelled s \<Longrightarrow> ex_loop s = Closing"
  shows "waits_for_work s'"
proof -
  let ?r = "resolve_slot q y t"
  have r: "in_order ?r" using assms(1,5) by (rule order_resolve)
  note f = flush_facts [OF r]
  have len: "length (ex_buffer s') = length (ex_buffer s)" using f(1) assms(2,15) by simp
  have "in_work s' i"
    if h: "healthy s'" and i: "ex_cursor s' \<le> i" "i < length (ex_buffer s')" "ex_buffer s' ! i = Pending" for i
  proof -
    have "(ex_buffer s)[q := y] ! i = Pending"
      using f(5) [of i] h i assms(2,4,11,15,16) len by (simp add: healthy_def)
    then have "i \<noteq> q" "ex_buffer s ! i = Pending" using assms(7,8) by (auto simp: nth_list_update split: if_splits)
    moreover have "ex_cursor s \<le> i" using f(2) i(1) assms(3,16) by simp
    moreover have "healthy s" using h assms(10,11,18) by (simp add: healthy_def)
    ultimately show ?thesis using assms(6,17) i(2) len by (simp add: waits_for_work_def)
  qed
  moreover have "healthy s' \<Longrightarrow> ex_loop s' \<noteq> Ended" using assms(11,21) by (simp add: healthy_def)
  ultimately show ?thesis using assms(6,9-14,18-22) len unfolding waits_for_work_def by auto
qed

lemma completion_order:
  assumes "in_order s" "ex_done s = (q, r) # ds"
  shows "in_order (s\<lparr>ex_done := ds, ex_in_flight := k\<rparr>)" "q < length (ex_buffer s)"
    "slot_ok (ex_cancelled s) (ex_ops s) q (slot_of r)" "slot_of r \<noteq> Pending"
  using assms by (auto simp: in_order_def slot_of_def split: option.split)

lemma waits_completion:
  assumes "in_order s" "waits_for_work s" "ex_done s = (q, r) # ds" "ex_loop s \<noteq> Crashed" "ex_loop s \<noteq> Ended"
  shows "waits_for_work (snd (take_completion q r ds s))"
    "ex_loop s = Selecting \<Longrightarrow> waits_for_work (go_on Selecting (take_completion q r ds s))"
proof -
  let ?t = "s\<lparr>ex_done := ds, ex_in_flight := ex_in_flight s - 1\<rparr>"
  note c = completion_order(1) [OF assms(1,3), of "ex_in_flight s - 1"] completion_order(2-4) [OF assms(1,3)]
  have resolved: "waits_for_work s'"
    if "ex_tasks s' = ex_tasks s" "ex_lost s' = ex_lost s" "ex_receiver s' = ex_receiver s"
      "ex_cancelled s' = ex_cancelled s" "ex_open s' = ex_open s" "ex_ops s' = ex_ops s" "ex_done s' = ds"
      "ex_buffer s' = ex_buffer (snd (flush (resolve_slot q (slot_of r) ?t)))"
      "ex_cursor s' = ex_cursor (snd (flush (resolve_slot q (slot_of r) ?t)))"
      "ex_loop s' = ex_loop s \<or> \<not> ex_receiver s \<and> ex_loop s = Selecting \<and> ex_loop s' = Ended" for s'
  proof (rule waits_resolve [where t = ?t and s = s and q = q and y = "slot_of r"])
    show "in_work s' i" if "in_work s i" "i \<noteq> q" for i
      using that assms(3) \<open>ex_tasks s' = _\<close> \<open>ex_done s' = _\<close> \<open>ex_loop s' = _ \<or> _\<close> by (auto simp: in_work_def)
  qed (use that assms c in auto)
  show "waits_for_work (snd (take_completion q r ds s))" by (rule resolved) (simp_all add: take_completion_def)
  have "in_order (resolve_slot q (slot_of r) ?t)" using c by (intro order_resolve) auto
  from flush_facts(4) [OF this]
  show "waits_for_work (go_on Selecting (take_completion q r ds s))" if "ex_loop s = Selecting"
    using that by (intro resolved) (auto simp: take_completion_def)
qed

lemma waits_loop:
  "loop_does s s' \<Longrightarrow> in_order s \<Longrightarrow> counts n s \<Longrightarrow> waits_for_work s \<Longrightarrow> waits_for_work s'"
proof (induction rule: loop_does.induct)
  case (Taken s q r ds)
  then show ?case by (intro waits_completion) auto
next
  case (Received s q x es)
  note e = order_queue [OF Received.prems(1) Received.hyps(1,3)]
  show ?case
  proof (cases "ex_cancelled s")
    case True
    then show ?thesis using Received
      by (auto simp: receive_envelope_def waits_for_work_def healthy_def in_work_def)
  next
    case False
    define s' where "s' = receive_envelope q x (s\<lparr>ex_queue := es\<rparr>)"
    have f: "ex_buffer s' = ex_buffer s @ [Pending]" "ex_cursor s' = ex_cursor s" "ex_receiver s' = ex_receiver s"
      "ex_lost s' = ex_lost s" "ex_ops s' = ex_ops s" "ex_loop s' = Selecting \<or> ex_loop s' = Draining q x"
      using False Received.hyps(1)
      by (auto simp: s'_def receive_envelope_def reserve_def e(1) spawn_concurrent_def Let_def split: concurrency_guard.split)
    have old: "in_work s i \<Longrightarrow> in_work s' i" for i
      using False Received.hyps(1)
      by (auto simp: s'_def receive_envelope_def spawn_concurrent_def in_work_def Let_def split: concurrency_guard.split)
    have new: "in_work s' q"
      using False by (auto simp: s'_def receive_envelope_def spawn_concurrent_def in_work_def unsent_def Let_def
          split: concurrency_guard.split)
    have gpu: "\<forall>t \<in># ex_tasks s'. tk_phase t = HasGpu \<longrightarrow> needs_gpu t"
      using False Received.prems(3)
      by (auto simp: s'_def receive_envelope_def spawn_concurrent_def waits_for_work_def Let_def split: concurrency_guard.split)
    have "healthy s' \<Longrightarrow> healthy s" using f Received.hyps(1) by (auto simp: healthy_def)
    then have "waits_for_work s'"
      using Received.prems(3) f old new gpu Received.hyps(1) e(1)
      by (auto simp: waits_for_work_def nth_append less_Suc_eq)
    then show ?thesis by (simp add: s'_def)
  qed
next
  case (Closed s)
  then have "length (ex_buffer s) = length (ex_ops s)" by (auto simp: in_order_def)
  with Closed show ?case by (auto simp: waits_for_work_def healthy_def in_work_def)
next
  case (Drained s a b q r ds)
  then show ?case by (intro waits_completion) auto
next
  case (CalledOff s q x)
  have r: "in_order (resolve_slot q Skipped s)"
    using CalledOff by (intro order_resolve) (auto simp: slot_ok_def)
  show ?case
  proof (rule waits_resolve [where t = s and s = s and q = q and y = Skipped])
    show "in_work (go_on Closing (flush (resolve_slot q Skipped s))) i" if "in_work s i" "i \<noteq> q" for i
      using that CalledOff.hyps by (auto simp: in_work_def)
  qed (use CalledOff flush_facts(4) [OF r] in \<open>auto simp: in_order_def slot_ok_def\<close>)
next
  case (Entered s q x)
  then show ?case by (auto simp: waits_for_work_def healthy_def in_work_def)
next
  case (Ran s q x v)
  then have ok: "slot_ok (ex_cancelled s) (ex_ops s) q (Ready v)" by (auto simp: in_order_def slot_ok_def)
  then have r: "in_order (resolve_slot q (Ready v) s)" using Ran by (intro order_resolve)
  show ?case
  proof (rule waits_resolve [where t = s and s = s and q = q and y = "Ready v"])
    show "in_work (go_on Selecting (flush (resolve_slot q (Ready v) s))) i" if "in_work s i" "i \<noteq> q" for i
      using that Ran.hyps by (auto simp: in_work_def)
  qed (use Ran ok flush_facts(4) [OF r] in \<open>auto simp: in_order_def split: if_splits\<close>)
next
  case (Died s q x)
  then have "x \<in> set (ex_ops s)" by (auto simp: in_order_def)
  with Died show ?case by (auto simp: waits_for_work_def healthy_def)
next
  case (Finished s)
  note f = flush_facts [OF Finished.prems(1)]
  have idle: "\<not> in_work s i" if "ex_lost s = 0" for i
    using Finished that by (auto simp: counts_def in_work_def)
  have "ex_cursor (snd (flush s)) = length (ex_buffer s)" if "healthy s"
  proof (rule ccontr)
    let ?c = "ex_cursor (snd (flush s))"
    assume "?c \<noteq> length (ex_buffer s)"
    then have "?c < length (ex_buffer s)" "ex_buffer s ! ?c = Pending" using f(3,6) that by (auto simp: healthy_def)
    then have "in_work s ?c" using Finished.prems(3) f(2) that by (simp add: waits_for_work_def)
    then show False using idle that by (simp add: healthy_def)
  qed
  then show ?case using Finished f(1) by (auto simp: waits_for_work_def healthy_def)
qed

lemma waits_frame:
  assumes "waits_for_work s" "ex_buffer s' = ex_buffer s" "ex_cursor s' = ex_cursor s" "ex_loop s' = ex_loop s"
    "ex_lost s' = ex_lost s" "ex_ops s' = ex_ops s" "ex_receiver s' \<Longrightarrow> ex_receiver s"
    "ex_cancelled s \<Longrightarrow> ex_cancelled s'" "ex_open s' \<Longrightarrow> ex_open s"
    "\<And>i. in_work s i \<Longrightarrow> in_work s' i" "\<And>t. t \<in># ex_tasks s' \<Longrightarrow> tk_phase t = HasGpu \<Longrightarrow> needs_gpu t"
  shows "waits_for_work s'"
  using assms unfolding waits_for_work_def healthy_def by auto

lemma waits_gpu: "waits_for_work s \<Longrightarrow> t \<in># ex_tasks s \<Longrightarrow> tk_phase t = HasGpu \<Longrightarrow> needs_gpu t"
  by (simp add: waits_for_work_def)

lemma waits_move:
  assumes "waits_for_work s" "ex_tasks s = add_mset t M"
    "tk_seq u = tk_seq t" "unsent u \<or> (tk_seq t, r) \<in> set ds" "tk_phase u = HasGpu \<longrightarrow> needs_gpu u" "set (ex_done s) \<subseteq> set ds"
  shows "waits_for_work (s\<lparr>ex_permits := a, ex_gpu_permits := b, ex_tasks := add_mset u M, ex_done := ds\<rparr>)"
proof (rule waits_frame [OF assms(1)])
  show "in_work (s\<lparr>ex_permits := a, ex_gpu_permits := b, ex_tasks := add_mset u M, ex_done := ds\<rparr>) i" if "in_work s i" for i
    using that assms(2,3,4,6) by (auto simp: in_work_def)
qed (use assms waits_gpu [OF assms(1)] in auto)

lemma waits_internal: "internal s s' \<Longrightarrow> in_order s \<Longrightarrow> counts n s \<Longrightarrow> waits_for_work s \<Longrightarrow> waits_for_work s'"
proof (induction rule: internal.induct)
  case (Loop s s')
  then show ?case using waits_loop loop_step_does by blast
next
  case (Acquire s t M)
  then show ?case
    using waits_move [where s = s and t = t and M = M and u = "t\<lparr>tk_phase := Permitted\<rparr>" and ds = "ex_done s" and a = "ex_permits s - 1" and b = "ex_gpu_permits s"]
    by (simp add: unsent_def)
next
  case (AcquireGpu s t M)
  then show ?case
    using waits_move [where s = s and t = t and M = M and u = "t\<lparr>tk_phase := HasGpu\<rparr>" and ds = "ex_done s" and a = "ex_permits s" and b = "ex_gpu_permits s - 1"]
    by (simp add: unsent_def needs_gpu_def)
next
  case (Begin s t M)
  then show ?case
    using waits_move [where s = s and t = t and M = M and u = "t\<lparr>tk_phase := Executing\<rparr>" and ds = "ex_done s" and a = "ex_permits s" and b = "ex_gpu_permits s"]
    by (simp add: unsent_def)
next
  case (Skip s t M)
  then show ?case
    using waits_move [where s = s and t = t and M = M and u = "t\<lparr>tk_phase := Sent\<rparr>" and r = None and ds = "ex_done s @ [(tk_seq t, None)]" and a = "ex_permits s" and b = "ex_gpu_permits s"]
    by auto
next
  case (Complete s t M v)
  then show ?case
    using waits_move [where s = s and t = t and M = M and u = "t\<lparr>tk_phase := Sent\<rparr>" and r = "Some v" and ds = "ex_done s @ [(tk_seq t, Some v)]" and a = "ex_permits s" and b = "ex_gpu_permits s"]
    by auto
next
  case (Panic s t M)
  then have "tk_op t \<in> set (ex_ops s)" by (auto simp: in_order_def)
  moreover have "\<forall>t \<in># M. tk_phase t = HasGpu \<longrightarrow> needs_gpu t" using Panic waits_gpu [of s] by auto
  ultimately show ?case using Panic unfolding waits_for_work_def healthy_def release_permits_def by auto
next
  case (Release s t M)
  show ?case
  proof (rule waits_frame [OF Release.prems(3)])
    show "in_work (release_permits t (s\<lparr>ex_tasks := M\<rparr>)) i" if "in_work s i" for i
      using that Release.hyps by (auto simp: in_work_def release_permits_def unsent_def)
  qed (use Release.hyps waits_gpu [OF Release.prems(3)] in \<open>auto simp: release_permits_def\<close>)
qed

lemma waits_submit: "waits_for_work s \<Longrightarrow> waits_for_work (snd (submit x s))"
proof -
  assume s: "waits_for_work s"
  show ?thesis
  proof (cases "ex_cancelled s \<or> \<not> ex_open s")
    case True
    then show ?thesis using s by (auto simp: submit_def)
  next
    case False
    show ?thesis
    proof (cases "loop_alive s")
      case True
      have "in_work (s\<lparr>ex_next_seq := a, ex_queue := b, ex_ops := c\<rparr>) i = in_work s i" for a b c i
        by (simp add: in_work_def)
      then show ?thesis using s False True unfolding waits_for_work_def
        by (auto simp: submit_def Let_def healthy_def)
    next
      case dead: False
      then show ?thesis using False by (auto simp: submit_def Let_def in_work_def intro!: waits_frame [OF s] waits_gpu [OF s])
    qed
  qed
qed

lemma waits_step: "exec_step s s' \<Longrightarrow> in_order s \<Longrightarrow> counts n s \<Longrightarrow> waits_for_work s \<Longrightarrow> waits_for_work s'"
proof (induction rule: exec_step.induct)
  case (Internal s s')
  then show ?case using waits_internal by blast
next
  case (Submit s x)
  then show ?case by (intro waits_submit)
next
  case (Close s)
  from Close.prems(3) show ?case
    by (rule waits_frame) (auto simp: close_def in_work_def dest: waits_gpu [OF Close.prems(3)])
next
  case (Cancel s)
  from Cancel.prems(3) show ?case
    by (rule waits_frame) (auto simp: close_def cancel_def in_work_def dest: waits_gpu [OF Cancel.prems(3)])
next
  case (Drop s)
  from Drop.prems(3) show ?case
    by (rule waits_frame) (auto simp: drop_executor_def in_work_def dest: waits_gpu [OF Drop.prems(3)])
qed

lemma reachable_waits: "exec_reachable n s \<Longrightarrow> in_order s \<and> counts n s \<and> waits_for_work s"
  by (erule exec_reachable_induct)
    (blast intro: order_step counts_step waits_step
      | simp add: in_order_def counts_def waits_for_work_def healthy_def executor_new_def)+

section \<open>Progress\<close>

text \<open>A waiting loop has a task that can move: permits are free when nobody holds them.\<close>

lemma some_task_moves:
  assumes "counts n s" "waits_for_work s" "ex_lost s = 0" "ex_tasks s \<noteq> {#}"
  shows "\<exists>s'. internal s s'"
proof (cases "\<exists>t \<in># ex_tasks s. tk_phase t = Executing \<or> tk_phase t = Sent \<or> task_ready t")
  case True
  then obtain t M where t: "ex_tasks s = add_mset t M" "tk_phase t = Executing \<or> tk_phase t = Sent \<or> task_ready t"
    by (metis multi_member_split)
  then show ?thesis
    by (cases "op_out (tk_op t)"; cases "ex_cancelled s") (blast intro: internal.intros)+
next
  case False
  have gpu: "\<And>t. t \<in># ex_tasks s \<Longrightarrow> tk_phase t = HasGpu \<Longrightarrow> needs_gpu t" using assms(2) by (simp add: waits_for_work_def)
  have phases: "tk_phase t = Waiting \<or> tk_phase t = Permitted \<and> needs_gpu t" if "t \<in># ex_tasks s" for t
    using False gpu that by (cases "tk_phase t") (auto simp: task_ready_def split: if_splits)
  show ?thesis
  proof (cases "\<exists>t \<in># ex_tasks s. tk_phase t = Permitted")
    case True
    then obtain t M where t: "ex_tasks s = add_mset t M" "tk_phase t = Permitted" by (metis multi_member_split)
    have "needs_gpu t" using phases [of t] t by simp
    moreover have "filter_mset holds_gpu (ex_tasks s) = {#}"
      by (intro multiset_eqI) (auto simp: holds_gpu_def count_eq_zero_iff dest: phases)
    then have "size (filter_mset holds_gpu (ex_tasks s)) = 0" by (simp only: size_empty)
    then have "ex_gpu_permits s = 1" using assms(1) unfolding counts_def by linarith
    ultimately show ?thesis using t AcquireGpu [of s t M] by auto
  next
    case none: False
    have "filter_mset holds_permit (ex_tasks s) = {#}"
      using none by (intro multiset_eqI) (auto simp: holds_permit_def count_eq_zero_iff dest: phases)
    then have "size (filter_mset holds_permit (ex_tasks s)) = 0" by (simp only: size_empty)
    then have "0 < ex_permits s" using assms(1) unfolding counts_def by linarith
    moreover obtain t M where "ex_tasks s = add_mset t M" using assms(4) by (metis multiset_cases)
    moreover have "tk_phase t = Waiting" using phases [of t] none calculation by auto
    ultimately show ?thesis using Acquire [of s t M] by blast
  qed
qed

lemma executor_progress:
  assumes "counts n s" "waits_for_work s" "ex_lost s = 0" "\<not> ex_open s" "loop_alive s"
  shows "\<exists>s'. internal s s'"
proof (cases "loop_step s")
  case (Some s')
  then show ?thesis by (blast intro: Loop)
next
  case None
  then have "0 < ex_in_flight s" "ex_done s = []"
    using assms(4,5) by (auto simp: loop_step_def loop_alive_def split: loop_state.splits list.splits prod.splits if_splits option.splits)
  then have "size (filter_mset unsent (ex_tasks s)) \<noteq> 0" using assms(1,3) by (simp add: counts_def del: size_eq_0_iff_empty)
  then have "ex_tasks s \<noteq> {#}" by auto
  then show ?thesis using assms by (intro some_task_moves)
qed

fun phase_weight :: "task_phase \<Rightarrow> nat" where
  "phase_weight Waiting = 6" | "phase_weight Permitted = 5" | "phase_weight HasGpu = 4"
| "phase_weight Executing = 3" | "phase_weight Sent = 1"

fun loop_weight :: "'a loop_state \<Rightarrow> nat" where
  "loop_weight (Draining q x) = 5" | "loop_weight (Inline q x) = 4" | "loop_weight Selecting = 3"
| "loop_weight Closing = 2" | "loop_weight Ended = 0" | "loop_weight Crashed = 0"

definition work_left :: "'a executor \<Rightarrow> nat" where
  "work_left s = 20 * length (ex_queue s) + sum_mset (image_mset (\<lambda>t. phase_weight (tk_phase t)) (ex_tasks s))
     + length (ex_done s) + loop_weight (ex_loop s)"

lemma loop_work: "loop_does s s' \<Longrightarrow> work_left s' < work_left s"
  by (induction rule: loop_does.induct)
    (auto simp: work_left_def receive_envelope_def spawn_concurrent_def Let_def split: concurrency_guard.split)

lemma internal_work: "internal s s' \<Longrightarrow> work_left s' < work_left s"
proof (induction rule: internal.induct)
  case (Loop s s')
  then show ?case using loop_work loop_step_does by blast
qed (auto simp: work_left_def release_permits_def task_ready_def split: if_splits)

lemma internal_wf: "wf {(s', s). internal s s'}"
  by (rule wf_subset [OF wf_measure [of work_left]]) (auto dest: internal_work)

lemma loop_keeps: "loop_does s s' \<Longrightarrow> ex_ops s' = ex_ops s \<and> ex_open s' = ex_open s \<and> ex_cancelled s' = ex_cancelled s
    \<and> ex_receiver s' = ex_receiver s"
  by (induction rule: loop_does.induct)
    (auto simp: receive_envelope_def spawn_concurrent_def Let_def split: concurrency_guard.split)

lemma internal_keeps: "internal s s' \<Longrightarrow> ex_ops s' = ex_ops s \<and> ex_open s' = ex_open s
    \<and> ex_cancelled s' = ex_cancelled s \<and> ex_receiver s' = ex_receiver s"
proof (induction rule: internal.induct)
  case (Loop s s')
  then show ?case using loop_keeps loop_step_does by blast
qed (auto simp: release_permits_def)

lemma internal_star:
  "internal\<^sup>*\<^sup>* s s' \<Longrightarrow> exec_step\<^sup>*\<^sup>* s s' \<and> ex_ops s' = ex_ops s \<and> ex_open s' = ex_open s
    \<and> ex_cancelled s' = ex_cancelled s \<and> ex_receiver s' = ex_receiver s"
  by (induction rule: rtranclp_induct) (auto dest: internal_keeps Internal intro: rtranclp.rtrancl_into_rtrancl)

text \<open>
  C14: Once submissions are closed, every run of the executor is finite and ends with every result
  delivered: if nobody cancels, the receiver stays and no operation panics, then wherever no step is
  left, the loop has ended and the results are the outputs of all accepted operations, in order.\<close>
theorem executor_drains:
  fixes s :: "'a executor"
  assumes "exec_reachable n s" "\<not> ex_open s" "\<not> ex_cancelled s" "ex_receiver s"
    "\<forall>x \<in> set (ex_ops s). op_out x \<noteq> None"
  shows "wf {(s'', s' :: 'a executor). internal s' s''}
    \<and> (\<forall>s'. internal\<^sup>*\<^sup>* s s' \<and> \<not> (\<exists>s''. internal s' s'') \<longrightarrow>
         ex_loop s' = Ended \<and> map Some (ex_results s') = map op_out (ex_ops s))"
proof (rule conjI, rule internal_wf, intro allI impI)
  fix s' assume "internal\<^sup>*\<^sup>* s s' \<and> \<not> (\<exists>s''. internal s' s'')"
  then have run: "internal\<^sup>*\<^sup>* s s'" and stuck: "\<not> (\<exists>s''. internal s' s'')" by auto
  note k = internal_star [OF run]
  have "exec_reachable n s'" using assms(1) k by (auto simp: exec_reachable_def)
  then have i: "in_order s'" "counts n s'" "waits_for_work s'" using reachable_waits by blast+
  have h: "ex_lost s' = 0" "ex_loop s' \<noteq> Crashed"
    using i(3) assms(5) k unfolding waits_for_work_def by auto
  have "\<not> loop_alive s'" using executor_progress [OF i(2,3) h(1)] stuck assms(2) k by blast
  then have e: "ex_loop s' = Ended" using h(2) by (simp add: loop_alive_def)
  then have "ex_cursor s' = length (ex_ops s')"
    using i(3) h assms(3,4) k by (auto simp: waits_for_work_def healthy_def)
  then have "map Some (ex_results s') = map op_out (ex_ops s')" using i(1) assms(3) k by (simp add: in_order_def)
  with e k show "ex_loop s' = Ended \<and> map Some (ex_results s') = map op_out (ex_ops s)" by simp
qed

section \<open>A panic\<close>

lemma reach_step: "exec_reachable n s \<Longrightarrow> exec_step s s' \<Longrightarrow> exec_reachable n s'"
  unfolding exec_reachable_def by (rule rtranclp.rtrancl_into_rtrancl)

lemma reach_loop: "exec_reachable n s \<Longrightarrow> loop_step s = Some s' \<Longrightarrow> exec_reachable n s'"
  by (blast intro: reach_step Internal Loop)

lemma reach_only_task:
  assumes "exec_reachable n s" "ex_tasks s = {#t#}"
  shows "tk_phase t = Waiting \<Longrightarrow> 0 < ex_permits s \<Longrightarrow>
      exec_reachable n (s\<lparr>ex_permits := ex_permits s - 1, ex_tasks := {#t\<lparr>tk_phase := Permitted\<rparr>#}\<rparr>)"
    "task_ready t \<Longrightarrow> \<not> ex_cancelled s \<Longrightarrow> exec_reachable n (s\<lparr>ex_tasks := {#t\<lparr>tk_phase := Executing\<rparr>#}\<rparr>)"
    "tk_phase t = Executing \<Longrightarrow> op_out (tk_op t) = Some v \<Longrightarrow>
      exec_reachable n (s\<lparr>ex_tasks := {#t\<lparr>tk_phase := Sent\<rparr>#}, ex_done := ex_done s @ [(tk_seq t, Some v)]\<rparr>)"
    "tk_phase t = Executing \<Longrightarrow> op_out (tk_op t) = None \<Longrightarrow>
      exec_reachable n (release_permits t (s\<lparr>ex_tasks := {#}, ex_lost := Suc (ex_lost s)\<rparr>))"
    "tk_phase t = Sent \<Longrightarrow> exec_reachable n (release_permits t (s\<lparr>ex_tasks := {#}\<rparr>))"
  using assms(2) by (auto intro!: reach_step [OF assms(1)] Internal intro: Acquire [of s t "{#}", simplified] Begin Complete Panic Release)

definition panicking :: "nat operation" where
  "panicking = \<lparr>op_guard = Safe, op_out = None\<rparr>"

definition lost_task :: "nat executor" where
  "lost_task =
     \<lparr>ex_open = True, ex_cancelled = False, ex_receiver = True, ex_next_seq = 1, ex_queue = [], ex_permits = 1,
      ex_gpu_permits = 1, ex_buffer = [Pending], ex_cursor = 0, ex_in_flight = 1, ex_tasks = {#}, ex_done = [],
      ex_results = [], ex_loop = Selecting, ex_ops = [panicking], ex_lost = 1\<rparr>"

lemmas step_defs = submit_def close_def loop_alive_def loop_step_def receive_envelope_def spawn_concurrent_def reserve_def
  release_permits_def task_ready_def needs_gpu_def take_completion_def resolve_slot_def slot_of_def flush_def
  flush_buffer.simps go_on_def Let_def

lemma reach_lost_task: "exec_reachable 1 lost_task"
proof -
  define t where "t = \<lparr>tk_seq = 0, tk_op = panicking, tk_phase = Waiting\<rparr>"
  define s where "s = lost_task\<lparr>ex_tasks := {#t#}, ex_lost := 0\<rparr>"
  have "exec_reachable 1 (executor_new 1 :: nat executor)" by (simp add: exec_reachable_def)
  from reach_step [OF this Submit [of _ panicking]]
  have "exec_reachable 1 (lost_task\<lparr>ex_queue := [(0, panicking)], ex_buffer := [], ex_in_flight := 0, ex_lost := 0\<rparr>)"
    by (simp add: executor_new_def lost_task_def step_defs)
  from reach_loop [OF this, of s] have "exec_reachable 1 s"
    by (simp add: lost_task_def s_def t_def step_defs panicking_def)
  from reach_only_task(1) [OF this, of t]
  have "exec_reachable 1 (s\<lparr>ex_permits := 0, ex_tasks := {#t\<lparr>tk_phase := Permitted\<rparr>#}\<rparr>)"
    by (simp add: s_def t_def lost_task_def)
  from reach_only_task(2) [OF this, of "t\<lparr>tk_phase := Permitted\<rparr>"]
  have "exec_reachable 1 (s\<lparr>ex_permits := 0, ex_tasks := {#t\<lparr>tk_phase := Executing\<rparr>#}\<rparr>)"
    by (simp add: s_def t_def lost_task_def step_defs panicking_def)
  from reach_only_task(4) [OF this, of "t\<lparr>tk_phase := Executing\<rparr>"]
  show ?thesis by (simp add: s_def t_def lost_task_def step_defs panicking_def)
qed

inductive_cases internalE: "internal s s'"

lemma no_task_stuck: "ex_tasks s = {#} \<Longrightarrow> loop_step s = None \<Longrightarrow> \<not> internal s s'"
  by (auto elim: internalE)

text \<open>
  C17: One panic stops the executor. After an operation that panicked, an exclusive one never starts:
  the loop waits for a completion nobody will send, although it still holds a sender of that channel,
  and no step of the executor is left.\<close>
theorem panic_blocks_exclusive:
  "\<exists>s. exec_reachable 1 s \<and> ex_ops s = [panicking, \<lparr>op_guard = Exclusive, op_out = Some 7\<rparr>]
     \<and> \<not> ex_open s \<and> \<not> ex_cancelled s \<and> ex_receiver s \<and> ex_loop s \<noteq> Ended \<and> (\<forall>s'. \<not> internal s s')"
proof -
  let ?x = "\<lparr>op_guard = Exclusive, op_out = Some (7::nat)\<rparr>"
  define s where "s = lost_task\<lparr>ex_next_seq := 2, ex_queue := [(1, ?x)], ex_ops := [panicking, ?x]\<rparr>"
  from reach_step [OF reach_lost_task Submit [of _ ?x]]
  have "exec_reachable 1 s" by (simp add: lost_task_def s_def step_defs numeral_2_eq_2)
  from reach_step [OF this Close] have "exec_reachable 1 (s\<lparr>ex_open := False\<rparr>)" by (simp add: close_def)
  from reach_loop [OF this, of "s\<lparr>ex_open := False, ex_queue := [], ex_buffer := [Pending, Pending], ex_loop := Draining 1 ?x\<rparr>"]
  have "exec_reachable 1 (s\<lparr>ex_open := False, ex_queue := [], ex_buffer := [Pending, Pending], ex_loop := Draining 1 ?x\<rparr>)"
    by (simp add: s_def lost_task_def step_defs)
  then show ?thesis
    by - (rule exI, rule conjI, assumption, simp add: s_def lost_task_def loop_step_def no_task_stuck)
qed

text \<open>The slot of an operation that panicked stays pending, and every later result is lost.\<close>

lemma panic_loses_results:
  "\<exists>s. exec_reachable 1 s \<and> ex_ops s = [panicking, \<lparr>op_guard = Safe, op_out = Some 7\<rparr>]
     \<and> \<not> ex_cancelled s \<and> ex_receiver s \<and> ex_loop s = Ended \<and> ex_buffer s = [Pending, Ready 7] \<and> ex_results s = []"
proof -
  let ?x = "\<lparr>op_guard = Safe, op_out = Some (7::nat)\<rparr>"
  define t where "t = \<lparr>tk_seq = 1, tk_op = ?x, tk_phase = Waiting\<rparr>"
  define s where "s = lost_task\<lparr>ex_open := False, ex_next_seq := 2, ex_ops := [panicking, ?x], ex_in_flight := 2,
      ex_buffer := [Pending, Pending]\<rparr>"
  from reach_step [OF reach_lost_task Submit [of _ ?x]]
  have "exec_reachable 1 (s\<lparr>ex_open := True, ex_queue := [(1, ?x)], ex_in_flight := 1, ex_buffer := [Pending]\<rparr>)"
    by (simp add: lost_task_def s_def step_defs numeral_2_eq_2)
  from reach_step [OF this Close]
  have "exec_reachable 1 (s\<lparr>ex_queue := [(1, ?x)], ex_in_flight := 1, ex_buffer := [Pending]\<rparr>)"
    by (simp add: s_def lost_task_def close_def)
  from reach_loop [OF this, of "s\<lparr>ex_tasks := {#t#}\<rparr>"] have "exec_reachable 1 (s\<lparr>ex_tasks := {#t#}\<rparr>)"
    by (simp add: s_def t_def lost_task_def step_defs)
  from reach_only_task(1) [OF this, of t]
  have "exec_reachable 1 (s\<lparr>ex_permits := 0, ex_tasks := {#t\<lparr>tk_phase := Permitted\<rparr>#}\<rparr>)"
    by (simp add: s_def t_def lost_task_def)
  from reach_only_task(2) [OF this, of "t\<lparr>tk_phase := Permitted\<rparr>"]
  have "exec_reachable 1 (s\<lparr>ex_permits := 0, ex_tasks := {#t\<lparr>tk_phase := Executing\<rparr>#}\<rparr>)"
    by (simp add: s_def t_def lost_task_def step_defs)
  from reach_only_task(3) [OF this, of "t\<lparr>tk_phase := Executing\<rparr>" 7]
  have "exec_reachable 1 (s\<lparr>ex_permits := 0, ex_tasks := {#t\<lparr>tk_phase := Sent\<rparr>#}, ex_done := [(1, Some 7)]\<rparr>)"
    by (simp add: s_def t_def lost_task_def)
  from reach_only_task(5) [OF this, of "t\<lparr>tk_phase := Sent\<rparr>"]
  have "exec_reachable 1 (s\<lparr>ex_done := [(1, Some 7)]\<rparr>)"
    by (simp add: s_def t_def lost_task_def step_defs)
  from reach_loop [OF this, of "s\<lparr>ex_in_flight := 1, ex_buffer := [Pending, Ready 7]\<rparr>"]
  have "exec_reachable 1 (s\<lparr>ex_in_flight := 1, ex_buffer := [Pending, Ready 7]\<rparr>)"
    by (simp add: s_def lost_task_def step_defs)
  from reach_loop [OF this, of "s\<lparr>ex_in_flight := 1, ex_buffer := [Pending, Ready 7], ex_loop := Closing\<rparr>"]
  have "exec_reachable 1 (s\<lparr>ex_in_flight := 1, ex_buffer := [Pending, Ready 7], ex_loop := Closing\<rparr>)"
    by (simp add: s_def lost_task_def step_defs)
  from reach_loop [OF this, of "s\<lparr>ex_in_flight := 1, ex_buffer := [Pending, Ready 7], ex_loop := Ended\<rparr>"]
  have "exec_reachable 1 (s\<lparr>ex_in_flight := 1, ex_buffer := [Pending, Ready 7], ex_loop := Ended\<rparr>)"
    by (simp add: s_def lost_task_def step_defs)
  then show ?thesis by - (rule exI, rule conjI, assumption, simp add: s_def lost_task_def)
qed

lemma executor_excludes_witness: "size (filter_mset executing (ex_tasks lost_task)) \<le> 1"
  using executor_excludes [OF reach_lost_task] by simp

lemma executor_in_order_witness:
  "\<exists>s. exec_reachable 1 s \<and> map Some (ex_results s) = map op_out (take (ex_cursor s) (ex_ops s :: nat operation list))"
  using executor_in_order [OF reach_lost_task] reach_lost_task by (auto simp: lost_task_def)

definition two_ops :: "nat executor" where
  "two_ops = close (snd (submit \<lparr>op_guard = Exclusive, op_out = Some 8\<rparr>
     (snd (submit \<lparr>op_guard = Safe, op_out = Some 7\<rparr> (executor_new 2)))))"

lemma reach_two_ops: "exec_reachable 2 two_ops"
  unfolding two_ops_def
  by (rule reach_step [OF reach_step [OF reach_step [OF _ Submit] Submit] Close]) (simp add: exec_reachable_def)

text \<open>The run of a safe and an exclusive operation has an end, and there both results are out.\<close>

lemma executor_drains_witness: "\<exists>s'. internal\<^sup>*\<^sup>* two_ops s' \<and> ex_loop s' = Ended \<and> ex_results s' = [7, 8]"
proof -
  have ops: "ex_ops two_ops = [\<lparr>op_guard = Safe, op_out = Some 7\<rparr>, \<lparr>op_guard = Exclusive, op_out = Some 8\<rparr>]"
    "\<not> ex_open two_ops" "\<not> ex_cancelled two_ops" "ex_receiver two_ops"
    by (simp_all add: two_ops_def close_def submit_def executor_new_def loop_alive_def Let_def)
  note d = executor_drains [OF reach_two_ops ops(2-4)]
  have w: "wf {(s', s :: nat executor). internal s s'}" using d by (simp add: ops(1))
  obtain s' where s': "internal\<^sup>*\<^sup>* two_ops s'" "\<And>s''. internal s' s'' \<Longrightarrow> \<not> internal\<^sup>*\<^sup>* two_ops s''"
    using wfE_min [OF w, of two_ops "{s'. internal\<^sup>*\<^sup>* two_ops s'}"] by auto
  then have "\<not> (\<exists>s''. internal s' s'')" by (meson rtranclp.rtrancl_into_rtrancl)
  with d s'(1) have "ex_loop s' = Ended \<and> map Some (ex_results s') = [Some 7, Some 8]" by (simp add: ops(1))
  moreover have "map Some xs = [Some 7, Some 8] \<Longrightarrow> xs = [7, 8 :: nat]" for xs by (auto simp: map_eq_Cons_conv)
  ultimately show ?thesis using s'(1) by blast
qed

end
