(* ===== verification/ReplyParts.thy ===== *)
theory ReplyParts
  imports ToolCalls Zoo
begin

text \<open>
  Splitting a streamed reply into its reasoning and its visible text
  (\<^verbatim>\<open>src/generation/reply_parts.rs\<close>).  The loops carry \<open>rest\<close>, the buffer from the cursor on, and
  \<open>run\<close>, the text of the open run; a slice off a character boundary is a panic (\<open>None\<close>).
\<close>

section \<open>Markers and state\<close>

record reply_parts =
  rp_content :: string
  rp_reasoning :: "string option"
  rp_tool_calls :: "parsed_call list"

record channel_markers =
  cm_open :: "string list"
  cm_close :: "string list"

definition no_markers :: channel_markers where
  "no_markers = \<lparr>cm_open = [], cm_close = []\<rparr>"

definition gemma4_markers :: channel_markers where
  "gemma4_markers = \<lparr>cm_open = [''<|channel>thought'' @ [nl], ''<|channel>thought''],
     cm_close = [nl # ''<channel|>'', ''<channel|>'']\<rparr>"

definition qwen3_deepseek_markers :: channel_markers where
  "qwen3_deepseek_markers = \<lparr>cm_open = [''<think>''], cm_close = [''</think>'']\<rparr>"

definition from_model_hint :: "string \<Rightarrow> channel_markers" where
  "from_model_hint model_id =
     (let m = to_ascii_lowercase model_id in
      if contains_str m ''gemma-4'' \<or> contains_str m ''gemma4'' then gemma4_markers
      else if contains_str m ''qwen3'' \<or> contains_str m ''deepseek'' \<or> contains_str m ''r1'' then qwen3_deepseek_markers
      else no_markers)"

text \<open>\<^verbatim>\<open>ModelFamily::channel_markers\<close> of \<^verbatim>\<open>src/zoo.rs\<close>.\<close>

definition family_markers :: "model_family \<Rightarrow> channel_markers" where
  "family_markers f =
     (case f of Gemma4 \<Rightarrow> gemma4_markers | Qwen35 \<Rightarrow> qwen3_deepseek_markers
      | DeepSeekR1 \<Rightarrow> qwen3_deepseek_markers | _ \<Rightarrow> no_markers)"

definition from_architecture :: "string option \<Rightarrow> channel_markers" where
  "from_architecture arch =
     (case arch of
        Some a \<Rightarrow>
          if starts_with a ''gemma4'' then family_markers Gemma4
          else if a \<in> set [''qwen3'', ''qwen3moe'', ''qwen35'', ''qwen3_5'', ''qwen3_5_text'', ''qwen3_5_moe'',
              ''qwen3_5_moe_text'', ''deepseek2''] then family_markers Qwen35
          else no_markers
      | None \<Rightarrow> no_markers)"

datatype channel_state = Visible | InReasoning

datatype stream_emission = ContentSlice string | ReasoningSlice string

record reply_machine =
  rm_markers :: channel_markers
  rm_state :: channel_state
  rm_reasoning :: string
  rm_content :: string
  rm_pending :: string
  rm_leaked :: nat
  rm_thinking_tokens :: "nat option"
  rm_content_tokens :: "nat option"

definition reply_new :: "channel_markers \<Rightarrow> reply_machine" where
  "reply_new markers =
     \<lparr>rm_markers = markers, rm_state = Visible, rm_reasoning = [], rm_content = [], rm_pending = [],
      rm_leaked = 0, rm_thinking_tokens = None, rm_content_tokens = None\<rparr>"

section \<open>Matching at the cursor\<close>

definition match_any :: "string \<Rightarrow> string list \<Rightarrow> nat option" where
  "match_any s patterns =
     foldl (\<lambda>best p.
       if p = [] then best
       else if starts_with s p then Some (case best of None \<Rightarrow> length p | Some b \<Rightarrow> max b (length p))
       else best) None patterns"

definition could_start_any :: "string \<Rightarrow> string list \<Rightarrow> bool" where
  "could_start_any s patterns \<longleftrightarrow> s \<noteq> [] \<and> list_ex (\<lambda>p. starts_with p s \<and> length s < length p) patterns"

text \<open>\<^verbatim>\<open>get(..n)\<close> of a slice.\<close>

definition get_to :: "string \<Rightarrow> nat \<Rightarrow> string option" where
  "get_to s n = (if n \<le> length s then Some (take n s) else None)"

definition longer_pattern_could_extend :: "string \<Rightarrow> nat \<Rightarrow> string list \<Rightarrow> bool" where
  "longer_pattern_could_extend s matched_len patterns \<longleftrightarrow>
     list_ex (\<lambda>p. \<not> length p \<le> matched_len \<and> get_to p matched_len = get_to s matched_len \<and> starts_with p s) patterns"

definition utf8_char_len :: "char \<Rightarrow> nat" where
  "utf8_char_len c =
     (let b = of_char c :: nat in
      if b < 128 then 1
      else if b div 32 = 6 then 2
      else if b div 16 = 14 then 3
      else if b div 8 = 30 then 4
      else 1)"

text \<open>The scan of \<^verbatim>\<open>has_special_token_shape\<close> behind the opening angle bracket.\<close>

fun special_scan :: "nat \<Rightarrow> string \<Rightarrow> bool" where
  "special_scan 0 s = False"
| "special_scan (Suc n) [] = False"
| "special_scan (Suc n) (b # s) =
     (if b = CHR ''|'' \<and> s \<noteq> [] \<and> hd s = CHR ''>'' then True
      else if b = CHR ''>'' \<or> is_ascii_whitespace b then False
      else special_scan n s)"

definition has_special_token_shape :: "string \<Rightarrow> bool" where
  "has_special_token_shape s =
     (case s of
        [] \<Rightarrow> False
      | c # t \<Rightarrow> c = CHR ''<'' \<and> (t \<noteq> [] \<and> hd t = CHR ''|'' \<or> special_scan 32 t))"

definition patterns_of :: "channel_markers \<Rightarrow> channel_state \<Rightarrow> string list" where
  "patterns_of m st = (case st of Visible \<Rightarrow> cm_open m | InReasoning \<Rightarrow> cm_close m)"

definition flip_channel :: "channel_state \<Rightarrow> channel_state" where
  "flip_channel st = (case st of Visible \<Rightarrow> InReasoning | InReasoning \<Rightarrow> Visible)"

definition add_text :: "channel_state \<Rightarrow> string \<Rightarrow> reply_machine \<Rightarrow> reply_machine" where
  "add_text st s m =
     (case st of Visible \<Rightarrow> m\<lparr>rm_content := rm_content m @ s\<rparr> | InReasoning \<Rightarrow> m\<lparr>rm_reasoning := rm_reasoning m @ s\<rparr>)"

definition sat_inc32 :: "nat \<Rightarrow> nat" where
  "sat_inc32 n = min (n + 1) u32_max"

definition note_leak :: "string \<Rightarrow> reply_machine \<Rightarrow> reply_machine" where
  "note_leak rest m =
     (if rm_state m = Visible \<and> rest \<noteq> [] \<and> hd rest = CHR ''<'' \<and> has_special_token_shape rest
      then m\<lparr>rm_leaked := sat_inc32 (rm_leaked m)\<rparr> else m)"

lemma match_any_fold:
  "foldl (\<lambda>best p.
       if p = [] then best
       else if starts_with s p then Some (case best of None \<Rightarrow> length p | Some b \<Rightarrow> max b (length p))
       else best) b ps = Some k \<Longrightarrow> b = Some k \<or> (\<exists>p \<in> set ps. p \<noteq> [] \<and> starts_with s p \<and> k = length p)"
proof (induction ps arbitrary: b)
  case (Cons p ps)
  from Cons.IH [OF Cons.prems [simplified]] show ?case
    by (auto simp: max_def split: if_splits option.splits)
qed simp

lemma match_any_SomeD:
  assumes "match_any s ps = Some k"
  obtains p where "p \<in> set ps" "p \<noteq> []" "starts_with s p" "k = length p"
  using assms match_any_fold [of s None ps k] by (auto simp: match_any_def)

lemma match_any_pos: "match_any s ps = Some k \<Longrightarrow> 0 < k"
  by (erule match_any_SomeD) simp

lemma str_from_shorter: "str_from s k = Some r \<Longrightarrow> 0 < k \<Longrightarrow> s \<noteq> [] \<Longrightarrow> length r < length s"
  by (auto simp: str_from_def split: if_splits)

lemma utf8_char_len_pos: "0 < utf8_char_len c"
  by (simp add: utf8_char_len_def Let_def)

section \<open>The machine\<close>

function push_loop :: "reply_machine \<Rightarrow> string \<Rightarrow> reply_machine option" where
  "push_loop m rest =
     (if rest = [] then Some m
      else let pats = patterns_of (rm_markers m) (rm_state m) in
        case match_any rest pats of
          Some mlen \<Rightarrow>
            if longer_pattern_could_extend rest mlen pats then Some (m\<lparr>rm_pending := rest\<rparr>)
            else (case str_from rest mlen of
                None \<Rightarrow> None
              | Some r \<Rightarrow> push_loop (m\<lparr>rm_state := flip_channel (rm_state m)\<rparr>) r)
        | None \<Rightarrow>
            if could_start_any rest pats then Some (m\<lparr>rm_pending := rest\<rparr>)
            else (case str_slice rest 0 (utf8_char_len (hd rest)) of
                None \<Rightarrow> None
              | Some c \<Rightarrow> push_loop (note_leak rest (add_text (rm_state m) c m)) (drop (utf8_char_len (hd rest)) rest)))"
  by pat_completeness auto
termination
  by (relation "measure (\<lambda>(m, rest). length rest)")
    (auto dest: match_any_pos str_from_shorter simp: utf8_char_len_pos)

declare push_loop.simps [simp del]

lemma push_loop_Nil [simp]: "push_loop m [] = Some m"
  by (simp add: push_loop.simps)

definition push :: "string \<Rightarrow> reply_machine \<Rightarrow> reply_machine option" where
  "push chunk m = push_loop (m\<lparr>rm_pending := []\<rparr>) (rm_pending m @ chunk)"

definition emission_of :: "channel_state \<Rightarrow> string \<Rightarrow> stream_emission" where
  "emission_of ch s = (case ch of Visible \<Rightarrow> ContentSlice s | InReasoning \<Rightarrow> ReasoningSlice s)"

definition flush_run :: "channel_state \<Rightarrow> string \<Rightarrow> stream_emission list \<Rightarrow> stream_emission list" where
  "flush_run ch run es = (if run = [] then es else es @ [emission_of ch run])"

text \<open>The cursor moves over a character; the next slice at the cursor is what can panic.\<close>

definition advance :: "string \<Rightarrow> nat \<Rightarrow> string option" where
  "advance rest k = (if length rest \<le> k then Some [] else str_from rest k)"

lemma advance_shorter: "advance s k = Some r \<Longrightarrow> 0 < k \<Longrightarrow> s \<noteq> [] \<Longrightarrow> length r < length s"
  by (auto simp: advance_def dest: str_from_shorter split: if_splits)

function push_emit_loop ::
  "reply_machine \<Rightarrow> channel_state \<Rightarrow> string \<Rightarrow> string \<Rightarrow> stream_emission list \<Rightarrow> (stream_emission list \<times> reply_machine) option"
where
  "push_emit_loop m ch run rest es =
     (if rest = [] then Some (flush_run ch run es, m)
      else let pats = patterns_of (rm_markers m) (rm_state m) in
        case match_any rest pats of
          Some mlen \<Rightarrow>
            if longer_pattern_could_extend rest mlen pats
            then Some (flush_run ch run es, m\<lparr>rm_pending := rest\<rparr>)
            else (case str_from rest mlen of
                None \<Rightarrow> None
              | Some r \<Rightarrow>
                  let st = flip_channel (rm_state m) in
                  push_emit_loop (m\<lparr>rm_state := st\<rparr>) st [] r (flush_run ch run es))
        | None \<Rightarrow>
            if could_start_any rest pats then Some (flush_run ch run es, m\<lparr>rm_pending := rest\<rparr>)
            else (case advance rest (utf8_char_len (hd rest)) of
                None \<Rightarrow> None
              | Some r \<Rightarrow> push_emit_loop (note_leak rest m) ch (run @ take (utf8_char_len (hd rest)) rest) r es))"
  by pat_completeness auto
termination
  by (relation "measure (\<lambda>(m, ch, run, rest, es). length rest)")
    (auto dest: match_any_pos str_from_shorter advance_shorter simp: utf8_char_len_pos)

declare push_emit_loop.simps [simp del]

definition mirror_one :: "reply_machine \<Rightarrow> stream_emission \<Rightarrow> reply_machine" where
  "mirror_one m e = (case e of ContentSlice s \<Rightarrow> add_text Visible s m | ReasoningSlice s \<Rightarrow> add_text InReasoning s m)"

definition mirror_into_buffers :: "stream_emission list \<Rightarrow> reply_machine \<Rightarrow> reply_machine" where
  "mirror_into_buffers es m = foldl mirror_one m es"

text \<open>Every call counts one token, on the channel that is open when it arrives.\<close>

definition count_token :: "reply_machine \<Rightarrow> reply_machine" where
  "count_token m =
     (let t = (case rm_thinking_tokens m of None \<Rightarrow> 0 | Some n \<Rightarrow> n);
          c = (case rm_content_tokens m of None \<Rightarrow> 0 | Some n \<Rightarrow> n) in
      case rm_state m of
        Visible \<Rightarrow> m\<lparr>rm_content_tokens := Some (sat_inc32 c), rm_thinking_tokens := Some t\<rparr>
      | InReasoning \<Rightarrow> m\<lparr>rm_thinking_tokens := Some (sat_inc32 t), rm_content_tokens := Some c\<rparr>)"

definition push_emit :: "string \<Rightarrow> reply_machine \<Rightarrow> (stream_emission list \<times> reply_machine) option" where
  "push_emit chunk m =
     (let m1 = count_token m in
      case push_emit_loop (m1\<lparr>rm_pending := []\<rparr>) (rm_state m1) [] (rm_pending m1 @ chunk) [] of
        None \<Rightarrow> None
      | Some (es, m2) \<Rightarrow> Some (es, mirror_into_buffers es m2))"

definition flush_pending :: "reply_machine \<Rightarrow> stream_emission list \<times> reply_machine" where
  "flush_pending m =
     (if rm_pending m = [] then ([], m)
      else let es = [emission_of (rm_state m) (rm_pending m)] in
        (es, mirror_into_buffers es (m\<lparr>rm_pending := []\<rparr>)))"

definition finish :: "reply_machine \<Rightarrow> reply_parts" where
  "finish m =
     (let m1 = (if rm_pending m \<noteq> [] then add_text (rm_state m) (rm_pending m) m else m) in
      \<lparr>rp_content = rm_content m1,
       rp_reasoning = (if rm_reasoning m1 = [] then None else Some (rm_reasoning m1)),
       rp_tool_calls = []\<rparr>)"

definition summary :: "reply_machine \<Rightarrow> nat \<times> nat \<times> nat" where
  "summary m =
     ((case rm_thinking_tokens m of Some n \<Rightarrow> n | None \<Rightarrow> length (rm_reasoning m) div 4 mod 2 ^ 32),
      (case rm_content_tokens m of Some n \<Rightarrow> n | None \<Rightarrow> length (rm_content m) div 4 mod 2 ^ 32),
      rm_leaked m)"

section \<open>Reference\<close>

text \<open>
  The whole reply at once, byte by byte: the longest marker at the cursor switches the channel, the
  start of a marker that the reply does not complete ends the scan, any other byte belongs to the
  open channel.  The result is the tagged text, the channel and what is undecided at the end.
\<close>

function scan :: "channel_markers \<Rightarrow> channel_state \<Rightarrow> string \<Rightarrow> (channel_state \<times> char) list \<times> channel_state \<times> string" where
  "scan mk st s =
     (if s = [] then ([], st, [])
      else if could_start_any s (patterns_of mk st) then ([], st, s)
      else case match_any s (patterns_of mk st) of
          Some k \<Rightarrow> scan mk (flip_channel st) (drop k s)
        | None \<Rightarrow> (let (ts, st', p) = scan mk st (tl s) in ((st, hd s) # ts, st', p)))"
  by pat_completeness auto
termination
  by (relation "measure (\<lambda>(mk, st, s). length s)") (auto dest: match_any_pos)

declare scan.simps [simp del]

lemma scan_Nil [simp]: "scan mk st [] = ([], st, [])"
  by (simp add: scan.simps)

lemma scan_open: "could_start_any s (patterns_of mk st) \<Longrightarrow> scan mk st s = ([], st, s)"
  by (subst scan.simps) (simp add: could_start_any_def)

lemma scan_marker:
  "s \<noteq> [] \<Longrightarrow> \<not> could_start_any s (patterns_of mk st) \<Longrightarrow> match_any s (patterns_of mk st) = Some k \<Longrightarrow>
   scan mk st s = scan mk (flip_channel st) (drop k s)"
  by (subst scan.simps) simp

lemma scan_char:
  "s \<noteq> [] \<Longrightarrow> \<not> could_start_any s (patterns_of mk st) \<Longrightarrow> match_any s (patterns_of mk st) = None \<Longrightarrow>
   scan mk st s = (let (ts, st', p) = scan mk st (tl s) in ((st, hd s) # ts, st', p))"
  by (subst scan.simps) simp

definition split_reference :: "channel_markers \<Rightarrow> string \<Rightarrow> (channel_state \<times> char) list" where
  "split_reference mk s = (let (ts, st, p) = scan mk Visible s in ts @ map (Pair st) p)"

definition channel_text :: "channel_state \<Rightarrow> (channel_state \<times> char) list \<Rightarrow> string" where
  "channel_text st ts = map snd (filter (\<lambda>x. fst x = st) ts)"

lemma channel_text_simps [simp]:
  "channel_text st [] = []"
  "channel_text st ((st', c) # ts) = (if st' = st then c # channel_text st ts else channel_text st ts)"
  "channel_text st (ts @ us) = channel_text st ts @ channel_text st us"
  "channel_text st (map (Pair st') cs) = (if st' = st then cs else [])"
  by (auto simp: channel_text_def filter_map o_def)

section \<open>The split does not depend on the chunks\<close>

lemma match_any_cong:
  "(\<And>p. p \<in> set ps \<Longrightarrow> p \<noteq> [] \<Longrightarrow> starts_with s p = starts_with s' p) \<Longrightarrow> match_any s ps = match_any s' ps"
  unfolding match_any_def by (rule foldl_cong) auto

lemma match_any_ge_fold:
  "foldl (\<lambda>best p.
       if p = [] then best
       else if starts_with s p then Some (case best of None \<Rightarrow> length p | Some b \<Rightarrow> max b (length p))
       else best) b ps = r \<Longrightarrow>
   (\<forall>x. b = Some x \<longrightarrow> (\<exists>k. r = Some k \<and> x \<le> k))
   \<and> (\<forall>p \<in> set ps. p \<noteq> [] \<and> starts_with s p \<longrightarrow> (\<exists>k. r = Some k \<and> length p \<le> k))"
proof (induction ps arbitrary: b)
  case (Cons p ps)
  from Cons.IH [OF Cons.prems [simplified]] show ?case
    by (fastforce split: if_splits option.splits)
qed simp

lemma match_any_longest:
  "p \<in> set ps \<Longrightarrow> p \<noteq> [] \<Longrightarrow> starts_with s p \<Longrightarrow> \<exists>k. match_any s ps = Some k \<and> length p \<le> k"
  using match_any_ge_fold [of s None ps "match_any s ps"] by (simp add: match_any_def)

lemma could_extend_iff:
  assumes "match_any s ps = Some k"
  shows "longer_pattern_could_extend s k ps \<longleftrightarrow> could_start_any s ps"
proof
  assume "longer_pattern_could_extend s k ps"
  then obtain p where p: "p \<in> set ps" "k < length p" "starts_with p s"
    by (auto simp: longer_pattern_could_extend_def list_ex_iff)
  have "p \<noteq> []" using p(2) by auto
  then have "s \<noteq> p" using match_any_longest [of p ps s] p assms by (auto simp: starts_with_def)
  then have "length s < length p" using p(3)
    by (metis linorder_neqE_nat prefix_length_less prefix_order.dual_order.not_eq_order_implies_strict
        prefix_order.less_irrefl starts_with_prefix strict_prefixE)
  moreover have "s \<noteq> []" using assms by (auto elim!: match_any_SomeD simp: starts_with_def)
  ultimately show "could_start_any s ps" using p by (auto simp: could_start_any_def list_ex_iff)
next
  assume "could_start_any s ps"
  then obtain p where p: "p \<in> set ps" "starts_with p s" "length s < length p"
    by (auto simp: could_start_any_def list_ex_iff)
  obtain q where "starts_with s q" "k = length q" using assms by (rule match_any_SomeD)
  then have "k \<le> length s" by (simp add: starts_with_prefix prefix_length_le)
  moreover have "take k p = take k s" using p(2) calculation
    by (metis min.absorb1 starts_with_def take_take)
  ultimately show "longer_pattern_could_extend s k ps" using p
    by (auto simp: longer_pattern_could_extend_def list_ex_iff get_to_def intro!: bexI [of _ p])
qed

lemma decided_append:
  assumes "s \<noteq> []" "\<not> could_start_any s ps"
  shows "\<not> could_start_any (s @ c) ps" "match_any (s @ c) ps = match_any s ps"
proof -
  have no: "\<not> (starts_with p s \<and> length s < length p)" if "p \<in> set ps" for p
    using assms that by (auto simp: could_start_any_def list_ex_iff)
  show "\<not> could_start_any (s @ c) ps"
    using no by (fastforce simp: could_start_any_def list_ex_iff starts_with_prefix dest: append_prefixD)
  have "starts_with (s @ c) p = starts_with s p" if p: "p \<in> set ps" for p
    using no [OF p] unfolding starts_with_prefix
    by (metis linorder_not_less prefix_length_le prefix_length_prefix prefix_order.dual_order.eq_iff prefixI
        prefix_order.trans append_Nil2 same_prefix_prefix nat_less_le length_append le_add1)
  then show "match_any (s @ c) ps = match_any s ps" by (intro match_any_cong) auto
qed

lemma scan_append:
  "scan mk st s = (ts, st', p) \<Longrightarrow>
   scan mk st (s @ c) = (let (us, st'', q) = scan mk st' (p @ c) in (ts @ us, st'', q))"
proof (induction mk st s arbitrary: ts st' p rule: scan.induct)
  case (1 mk st s)
  let ?ps = "patterns_of mk st"
  consider (nil) "s = []" | (undecided) "s \<noteq> []" "could_start_any s ?ps"
    | (marker) k where "s \<noteq> []" "\<not> could_start_any s ?ps" "match_any s ?ps = Some k"
    | (char) "s \<noteq> []" "\<not> could_start_any s ?ps" "match_any s ?ps = None" by (cases "match_any s ?ps") auto
  then show ?case
  proof cases
    case nil
    with "1.prems" show ?thesis by (simp add: scan.simps [of mk st "[]"] Let_def)
  next
    case undecided
    with "1.prems" show ?thesis by (simp add: scan.simps [of mk st s] Let_def)
  next
    case marker
    then obtain q where "starts_with s q" "k = length q" by (auto elim: match_any_SomeD)
    then have k: "k \<le> length s" by (simp add: starts_with_prefix prefix_length_le)
    from "1.prems" marker have "scan mk (flip_channel st) (drop k s) = (ts, st', p)"
      by (simp add: scan.simps [of mk st s])
    with "1.IH"(2) [OF marker] k show ?thesis
      using decided_append [OF marker(1,2), of c] marker
      by (simp add: scan.simps [of mk st "s @ c"])
  next
    case char
    obtain us st2 q where s: "scan mk st (tl s) = (us, st2, q)" by (metis prod_cases3)
    with "1.prems" char have e: "ts = (st, hd s) # us" "st' = st2" "p = q"
      by (simp_all add: scan.simps [of mk st s])
    from "1.IH"(1) [OF char s] show ?thesis
      using decided_append [OF char(1,2), of c] char
      by (simp add: scan.simps [of mk st "s @ c"] e split: prod.split)
  qed
qed

section \<open>Characters\<close>

lemma utf8_bytes_Cons:
  "utf8_bytes (b # bs) \<Longrightarrow> \<exists>cs r. bs = cs @ r \<and> list_all utf8_cont cs \<and> utf8_bytes r
     \<and> (\<forall>r'. utf8_bytes (b # cs @ r') = utf8_bytes r')
     \<and> (b \<le> 127 \<and> length cs = 0 \<or> 194 \<le> b \<and> b \<le> 223 \<and> length cs = 1
        \<or> 224 \<le> b \<and> b \<le> 239 \<and> length cs = 2 \<or> 240 \<le> b \<and> b \<le> 244 \<and> length cs = 3)"
proof -
  assume u: "utf8_bytes (b # bs)"
  show ?thesis
  proof (cases "b \<le> 127")
    case True
    with u show ?thesis by (intro exI [of _ "[]"] exI [of _ bs]) simp
  next
    case b: False
    with u obtain c cs where bs: "bs = c # cs" by (cases bs) auto
    show ?thesis
    proof (cases "194 \<le> b \<and> b \<le> 223")
      case True
      with u b bs show ?thesis by (intro exI [of _ "[c]"] exI [of _ cs]) simp
    next
      case b2: False
      with u b bs obtain d ds where cs: "cs = d # ds" by (cases cs) auto
      show ?thesis
      proof (cases "224 \<le> b \<and> b \<le> 239")
        case True
        with u b b2 bs cs show ?thesis by (intro exI [of _ "[c, d]"] exI [of _ ds]) simp
      next
        case b3: False
        with u b b2 bs cs obtain e es where ds: "ds = e # es" by (cases ds) auto
        have "240 \<le> b \<and> b \<le> 244" using u b b2 b3 by (simp add: bs cs ds)
        with u b b2 b3 bs cs ds show ?thesis by (intro exI [of _ "[c, d, e]"] exI [of _ es]) simp
      qed
    qed
  qed
qed

lemma utf8_bytes_append: "utf8_bytes p \<Longrightarrow> utf8_bytes (p @ r) = utf8_bytes r"
proof (induction p rule: length_induct)
  case (1 p)
  show ?case
  proof (cases p)
    case (Cons b bs)
    with utf8_bytes_Cons [of b bs] "1.prems" obtain cs t where *: "bs = cs @ t" "utf8_bytes t"
        "\<forall>r'. utf8_bytes (b # cs @ r') = utf8_bytes r'" by blast
    with "1.IH" Cons show ?thesis by simp
  qed simp
qed

lemma utf8_valid_append: "utf8_valid p \<Longrightarrow> utf8_valid (p @ r) = utf8_valid r"
  by (simp add: utf8_valid_def utf8_bytes_append)

lemma utf8_valid_Nil [simp]: "utf8_valid []"
  by (simp add: utf8_valid_def)

lemma utf8_head: "utf8_valid (c # s) \<Longrightarrow> \<not> is_cont_byte c"
  by (auto simp: utf8_valid_def is_cont_byte_def split: list.splits if_splits)

lemma utf8_boundary: "utf8_valid (drop k s) \<Longrightarrow> k \<le> length s \<Longrightarrow> is_char_boundary s k"
  using utf8_head [of "s ! k" "drop (Suc k) s"]
  by (auto simp: is_char_boundary_def Cons_nth_drop_Suc)

text \<open>The first character of well-formed text has the length its first byte says.\<close>

lemma utf8_first:
  assumes "utf8_valid (c # s)"
  obtains cs r where "s = cs @ r" "length cs = utf8_char_len c - 1" "list_all is_cont_byte cs" "utf8_valid r"
proof -
  define n where "n = (of_char c :: nat)"
  have "utf8_bytes (n # map of_char s)" using assms by (simp add: utf8_valid_def n_def)
  then obtain bs t where *: "map of_char s = bs @ t" "list_all utf8_cont bs" "utf8_bytes t"
    "n \<le> 127 \<and> length bs = 0 \<or> 194 \<le> n \<and> n \<le> 223 \<and> length bs = 1
     \<or> 224 \<le> n \<and> n \<le> 239 \<and> length bs = 2 \<or> 240 \<le> n \<and> n \<le> 244 \<and> length bs = 3"
    using utf8_bytes_Cons by blast
  then obtain cs r where s: "s = cs @ r" "bs = map of_char cs" "t = map of_char r"
    by (auto simp: map_eq_append_conv)
  have first_byte: "194 \<le> n \<and> n \<le> 223 \<Longrightarrow> n div 32 = 6" "224 \<le> n \<and> n \<le> 239 \<Longrightarrow> n div 16 = 14 \<and> n div 32 = 7"
    "240 \<le> n \<and> n \<le> 244 \<Longrightarrow> n div 8 = 30 \<and> n div 16 = 15 \<and> n div 32 = 7" by auto
  have "length cs = utf8_char_len c - 1"
    using *(4) first_byte unfolding utf8_char_len_def n_def [symmetric] Let_def s(2) by fastforce
  moreover have "list_all is_cont_byte cs"
    using *(2) unfolding s(2) list_all_iff is_cont_byte_def utf8_cont_def by force
  ultimately show thesis using that [OF s(1)] *(3) by (simp add: utf8_valid_def s(3))
qed

definition markers_ok :: "channel_markers \<Rightarrow> bool" where
  "markers_ok mk \<longleftrightarrow> list_all utf8_valid (cm_open mk) \<and> list_all utf8_valid (cm_close mk)"

lemma patterns_ok: "markers_ok mk \<Longrightarrow> p \<in> set (patterns_of mk st) \<Longrightarrow> utf8_valid p"
  by (auto simp: markers_ok_def patterns_of_def list_all_iff split: channel_state.splits)

lemma scan_inside_char:
  assumes "markers_ok mk" "list_all is_cont_byte cs"
  shows "scan mk st (cs @ r) = (let (ts, st', p) = scan mk st r in (map (Pair st) cs @ ts, st', p))"
  using assms(2)
proof (induction cs)
  case Nil
  then show ?case by (simp split: prod.split)
next
  case (Cons c cs)
  have no: "\<not> starts_with p (c # cs @ r)" "\<not> (p \<noteq> [] \<and> starts_with (c # cs @ r) p)"
    if p: "p \<in> set (patterns_of mk st)" for p
  proof -
    have "p = [] \<or> \<not> is_cont_byte (hd p)"
      using patterns_ok [OF assms(1) p] by (cases p) (auto dest: utf8_head)
    moreover have "is_cont_byte c" using Cons.prems by simp
    ultimately show "\<not> starts_with p (c # cs @ r)" "\<not> (p \<noteq> [] \<and> starts_with (c # cs @ r) p)"
      by (auto simp: starts_with_prefix prefix_def neq_Nil_conv)
  qed
  have "\<not> could_start_any (c # cs @ r) (patterns_of mk st)"
    using no by (auto simp: could_start_any_def list_ex_iff)
  moreover have "match_any (c # cs @ r) (patterns_of mk st) = None"
    using no by (cases "match_any (c # cs @ r) (patterns_of mk st)") (auto elim!: match_any_SomeD)
  ultimately show ?case using Cons
    by (simp add: scan.simps [of mk st "c # cs @ r"] split: prod.split)
qed

lemma char_step:
  assumes "utf8_valid rest" "rest \<noteq> []"
  defines "k \<equiv> utf8_char_len (hd rest)"
  shows "str_slice rest 0 k = Some (take k rest)" "advance rest k = Some (drop k rest)" "utf8_valid (drop k rest)"
    "take k rest \<noteq> []"
    "markers_ok mk \<Longrightarrow> \<not> could_start_any rest (patterns_of mk st) \<Longrightarrow> match_any rest (patterns_of mk st) = None \<Longrightarrow>
       scan mk st rest = (let (ts, st', p) = scan mk st (drop k rest) in (map (Pair st) (take k rest) @ ts, st', p))"
proof -
  obtain c s where rest: "rest = c # s" using assms(2) by (cases rest) auto
  obtain cs r where s: "s = cs @ r" and len: "length cs = utf8_char_len c - 1"
    and cont: "list_all is_cont_byte cs" and r: "utf8_valid r"
    using assms(1) unfolding rest by (rule utf8_first)
  have k: "k = Suc (length cs)" using len utf8_char_len_pos [of c] by (simp add: k_def rest)
  have d: "drop k rest = r" and t: "take k rest = c # cs" by (simp_all add: k rest s)
  have b: "is_char_boundary rest k" using utf8_boundary [of k rest] r d by (simp add: k rest s)
  have b0: "is_char_boundary rest 0" using assms(1) by (auto simp: is_char_boundary_def rest dest: utf8_head)
  show "str_slice rest 0 k = Some (take k rest)" using b b0 by (simp add: str_slice_def sub_def)
  show "advance rest k = Some (drop k rest)" using b by (simp add: advance_def str_from_def)
  show "utf8_valid (drop k rest)" by (simp add: d r)
  show "take k rest \<noteq> []" by (simp add: t)
  assume "markers_ok mk" "\<not> could_start_any rest (patterns_of mk st)" "match_any rest (patterns_of mk st) = None"
  with scan_inside_char [OF _ cont, of mk st r]
  show "scan mk st rest = (let (ts, st', p) = scan mk st (drop k rest) in (map (Pair st) (take k rest) @ ts, st', p))"
    unfolding d t by (simp add: scan_char rest s split: prod.splits)
qed

lemma marker_step:
  assumes "markers_ok mk" "utf8_valid rest" "match_any rest (patterns_of mk st) = Some k"
  shows "str_from rest k = Some (drop k rest)" "utf8_valid (drop k rest)"
proof -
  obtain p where p: "p \<in> set (patterns_of mk st)" "starts_with rest p" "k = length p"
    using assms(3) by (rule match_any_SomeD)
  then obtain r where r: "rest = p @ r" by (auto simp: starts_with_prefix prefix_def)
  show v: "utf8_valid (drop k rest)"
    using assms(2) utf8_valid_append [OF patterns_ok [OF assms(1) p(1)]] by (simp add: r p(3))
  show "str_from rest k = Some (drop k rest)"
    using utf8_boundary [OF v] by (simp add: str_from_def r p(3))
qed

lemma pending_valid:
  "markers_ok mk \<Longrightarrow> utf8_valid s \<Longrightarrow> scan mk st s = (ts, st', p) \<Longrightarrow> utf8_valid p"
proof (induction s arbitrary: st ts rule: length_induct)
  case (1 s)
  let ?ps = "patterns_of mk st"
  show ?case
  proof (cases "s = [] \<or> could_start_any s ?ps")
    case True
    with 1 show ?thesis by (auto simp: scan_open)
  next
    case go: False
    show ?thesis
    proof (cases "match_any s ?ps")
      case (Some k)
      moreover have "length (drop k s) < length s" using go match_any_pos [OF Some] by simp
      moreover have "scan mk (flip_channel st) (drop k s) = (ts, st', p)"
        using go Some "1.prems"(3) by (simp add: scan_marker)
      ultimately show ?thesis using 1 marker_step(2) [OF "1.prems"(1,2) Some] by blast
    next
      case None
      let ?k = "utf8_char_len (hd s)"
      obtain us st2 q where d: "scan mk st (drop ?k s) = (us, st2, q)" by (metis prod_cases3)
      have "length (drop ?k s) < length s" using go utf8_char_len_pos [of "hd s"] by simp
      moreover have "q = p \<and> st2 = st'"
        using char_step(5) [of s mk st] go None "1.prems" d by simp
      ultimately show ?thesis using 1 go d char_step(3) [of s] by blast
    qed
  qed
qed

text \<open>What a push does to the machine, given the scan of what it reads.\<close>

definition pushed :: "reply_machine \<Rightarrow> reply_machine \<Rightarrow> (channel_state \<times> char) list \<times> channel_state \<times> string \<Rightarrow> bool" where
  "pushed m m' r \<longleftrightarrow>
     (case r of (ts, st, p) \<Rightarrow>
        rm_content m' = rm_content m @ channel_text Visible ts
        \<and> rm_reasoning m' = rm_reasoning m @ channel_text InReasoning ts
        \<and> rm_state m' = st \<and> rm_pending m' = p \<and> rm_markers m' = rm_markers m
        \<and> rm_thinking_tokens m' = rm_thinking_tokens m \<and> rm_content_tokens m' = rm_content_tokens m)"

lemma note_leak_sel [simp]:
  "rm_content (note_leak r m) = rm_content m" "rm_reasoning (note_leak r m) = rm_reasoning m"
  "rm_state (note_leak r m) = rm_state m" "rm_pending (note_leak r m) = rm_pending m"
  "rm_markers (note_leak r m) = rm_markers m" "rm_thinking_tokens (note_leak r m) = rm_thinking_tokens m"
  "rm_content_tokens (note_leak r m) = rm_content_tokens m"
  by (simp_all add: note_leak_def)

lemma add_text_sel [simp]:
  "rm_content (add_text st s m) = (if st = Visible then rm_content m @ s else rm_content m)"
  "rm_reasoning (add_text st s m) = (if st = InReasoning then rm_reasoning m @ s else rm_reasoning m)"
  "rm_state (add_text st s m) = rm_state m" "rm_pending (add_text st s m) = rm_pending m"
  "rm_markers (add_text st s m) = rm_markers m" "rm_thinking_tokens (add_text st s m) = rm_thinking_tokens m"
  "rm_content_tokens (add_text st s m) = rm_content_tokens m" "rm_leaked (add_text st s m) = rm_leaked m"
  by (simp_all add: add_text_def split: channel_state.split)

lemma push_loop_scan:
  "markers_ok (rm_markers m) \<Longrightarrow> utf8_valid rest \<Longrightarrow> rm_pending m = [] \<Longrightarrow>
   \<exists>m'. push_loop m rest = Some m' \<and> pushed m m' (scan (rm_markers m) (rm_state m) rest)"
proof (induction rest arbitrary: m rule: length_induct)
  case (1 s)
  let ?mk = "rm_markers m" let ?ps = "patterns_of ?mk (rm_state m)"
  show ?case
  proof (cases "s = [] \<or> could_start_any s ?ps")
    case True
    with 1 show ?thesis
      by (cases "match_any s ?ps")
        (auto simp: scan_open push_loop.simps [of m s] pushed_def could_extend_iff Let_def)
  next
    case go: False
    show ?thesis
    proof (cases "match_any s ?ps")
      case (Some k)
      define m1 where "m1 = m\<lparr>rm_state := flip_channel (rm_state m)\<rparr>"
      have "length (drop k s) < length s" using go match_any_pos [OF Some] by simp
      then obtain m' where "push_loop m1 (drop k s) = Some m'" "pushed m1 m' (scan ?mk (rm_state m1) (drop k s))"
        using "1.IH" "1.prems" marker_step(2) [OF "1.prems"(1,2) Some]
        by (metis (no_types, lifting) m1_def reply_machine.select_convs(1,5) reply_machine.surjective
            reply_machine.update_convs(2))
      then show ?thesis using go Some marker_step(1) [OF "1.prems"(1,2) Some]
        by (auto simp: push_loop.simps [of m s] scan_marker could_extend_iff m1_def pushed_def)
    next
      case None
      let ?k = "utf8_char_len (hd s)"
      define m1 where "m1 = note_leak s (add_text (rm_state m) (take ?k s) m)"
      have m1: "rm_markers m1 = ?mk" "rm_state m1 = rm_state m" "rm_pending m1 = []"
        using "1.prems" by (simp_all add: m1_def)
      have "length (drop ?k s) < length s" using go utf8_char_len_pos [of "hd s"] by simp
      then obtain m' where m': "push_loop m1 (drop ?k s) = Some m'" "pushed m1 m' (scan ?mk (rm_state m) (drop ?k s))"
        using "1.IH" "1.prems" char_step(3) [of s] go m1 by metis
      then have "push_loop m s = Some m'"
        using go None char_step(1) [of s] "1.prems" by (simp add: push_loop.simps [of m s] m1_def)
      moreover have "pushed m m' (scan ?mk (rm_state m) s)"
        using m'(2) char_step(5) [of s ?mk "rm_state m"] go None "1.prems"
        by (auto simp: pushed_def m1_def split: prod.splits)
      ultimately show ?thesis by blast
    qed
  qed
qed

section \<open>Emitting as the text arrives\<close>

lemma mirror_snoc [simp]: "mirror_into_buffers (es @ [emission_of st s]) m = add_text st s (mirror_into_buffers es m)"
  by (simp add: mirror_into_buffers_def mirror_one_def emission_of_def split: channel_state.split)

lemma add_text_add [simp]: "add_text st t (add_text st s m) = add_text st (s @ t) m"
  by (simp add: add_text_def split: channel_state.split)

lemma mirror_one_frame [simp]:
  "rm_state (mirror_one m e) = rm_state m" "rm_markers (mirror_one m e) = rm_markers m"
  "rm_pending (mirror_one m e) = rm_pending m"
  "rm_thinking_tokens (mirror_one m e) = rm_thinking_tokens m" "rm_content_tokens (mirror_one m e) = rm_content_tokens m"
  by (simp_all add: mirror_one_def split: stream_emission.split)

lemma note_leak_add: "note_leak r (add_text ch s m) = add_text ch s (note_leak r m)"
  by (auto simp: note_leak_def add_text_def split: channel_state.split)

lemma mirror_one_commute:
  "mirror_one (m\<lparr>rm_state := st\<rparr>) e = (mirror_one m e)\<lparr>rm_state := st\<rparr>"
  "mirror_one (m\<lparr>rm_pending := p\<rparr>) e = (mirror_one m e)\<lparr>rm_pending := p\<rparr>"
  "mirror_one (note_leak r m) e = note_leak r (mirror_one m e)"
proof -
  show "mirror_one (m\<lparr>rm_state := st\<rparr>) e = (mirror_one m e)\<lparr>rm_state := st\<rparr>"
    "mirror_one (m\<lparr>rm_pending := p\<rparr>) e = (mirror_one m e)\<lparr>rm_pending := p\<rparr>"
    by (auto simp: mirror_one_def add_text_def split: stream_emission.split)
  show "mirror_one (note_leak r m) e = note_leak r (mirror_one m e)"
    by (simp add: mirror_one_def note_leak_add split: stream_emission.split)
qed

lemma mirror_frame:
  "rm_state (mirror_into_buffers es m) = rm_state m" "rm_markers (mirror_into_buffers es m) = rm_markers m"
  "rm_pending (mirror_into_buffers es m) = rm_pending m"
  "rm_thinking_tokens (mirror_into_buffers es m) = rm_thinking_tokens m"
  "rm_content_tokens (mirror_into_buffers es m) = rm_content_tokens m"
  by (induction es arbitrary: m) (simp_all add: mirror_into_buffers_def)

lemma mirror_commute:
  "mirror_into_buffers es (m\<lparr>rm_state := st\<rparr>) = (mirror_into_buffers es m)\<lparr>rm_state := st\<rparr>"
  "mirror_into_buffers es (m\<lparr>rm_pending := p\<rparr>) = (mirror_into_buffers es m)\<lparr>rm_pending := p\<rparr>"
  "mirror_into_buffers es (note_leak r m) = note_leak r (mirror_into_buffers es m)"
  unfolding mirror_into_buffers_def
  by (induction es arbitrary: m) (simp_all add: mirror_one_commute)

lemma flush_run_text:
  "mirror_into_buffers (flush_run ch run es) m =
     (if run = [] then mirror_into_buffers es m else add_text ch run (mirror_into_buffers es m))"
  by (simp add: flush_run_def)

lemma add_text_Nil: "add_text ch [] m = m"
  by (simp add: add_text_def split: channel_state.split)

lemma flush_run_add: "mirror_into_buffers (flush_run ch run es) m = add_text ch run (mirror_into_buffers es m)"
  by (simp add: flush_run_text add_text_Nil)

lemma push_loop_rules:
  "could_start_any s (patterns_of (rm_markers m) (rm_state m)) \<Longrightarrow> push_loop m s = Some (m\<lparr>rm_pending := s\<rparr>)"
  "s \<noteq> [] \<Longrightarrow> \<not> could_start_any s (patterns_of (rm_markers m) (rm_state m)) \<Longrightarrow>
     match_any s (patterns_of (rm_markers m) (rm_state m)) = Some k \<Longrightarrow> str_from s k = Some r \<Longrightarrow>
     push_loop m s = push_loop (m\<lparr>rm_state := flip_channel (rm_state m)\<rparr>) r"
  "s \<noteq> [] \<Longrightarrow> \<not> could_start_any s (patterns_of (rm_markers m) (rm_state m)) \<Longrightarrow>
     match_any s (patterns_of (rm_markers m) (rm_state m)) = None \<Longrightarrow> str_slice s 0 (utf8_char_len (hd s)) = Some c \<Longrightarrow>
     push_loop m s = push_loop (note_leak s (add_text (rm_state m) c m)) (drop (utf8_char_len (hd s)) s)"
  by (subst push_loop.simps, auto simp: could_extend_iff could_start_any_def Let_def split: option.split)+

lemma push_emit_loop_rules:
  "push_emit_loop m ch run [] es = Some (flush_run ch run es, m)"
  "could_start_any s (patterns_of (rm_markers m) (rm_state m)) \<Longrightarrow>
     push_emit_loop m ch run s es = Some (flush_run ch run es, m\<lparr>rm_pending := s\<rparr>)"
  "s \<noteq> [] \<Longrightarrow> \<not> could_start_any s (patterns_of (rm_markers m) (rm_state m)) \<Longrightarrow>
     match_any s (patterns_of (rm_markers m) (rm_state m)) = Some k \<Longrightarrow> str_from s k = Some r \<Longrightarrow>
     push_emit_loop m ch run s es =
       push_emit_loop (m\<lparr>rm_state := flip_channel (rm_state m)\<rparr>) (flip_channel (rm_state m)) [] r (flush_run ch run es)"
  "s \<noteq> [] \<Longrightarrow> \<not> could_start_any s (patterns_of (rm_markers m) (rm_state m)) \<Longrightarrow>
     match_any s (patterns_of (rm_markers m) (rm_state m)) = None \<Longrightarrow> advance s (utf8_char_len (hd s)) = Some r \<Longrightarrow>
     push_emit_loop m ch run s es = push_emit_loop (note_leak s m) ch (run @ take (utf8_char_len (hd s)) s) r es"
  by (subst push_emit_loop.simps, auto simp: could_extend_iff could_start_any_def Let_def split: option.split)+

lemma push_emit_loop_is_push_loop:
  "markers_ok (rm_markers m) \<Longrightarrow> utf8_valid rest \<Longrightarrow>
   push_loop (mirror_into_buffers (flush_run (rm_state m) run es) m) rest
     = map_option (\<lambda>(es', m'). mirror_into_buffers es' m') (push_emit_loop m (rm_state m) run rest es)"
proof (induction rest arbitrary: m run es rule: length_induct)
  case (1 s)
  let ?mk = "rm_markers m" let ?ps = "patterns_of ?mk (rm_state m)"
  let ?out = "map_option (\<lambda>(es', m'). mirror_into_buffers es' m')"
  define M where "M = mirror_into_buffers (flush_run (rm_state m) run es) m"
  have M: "rm_state M = rm_state m" "rm_markers M = ?mk" by (simp_all add: M_def mirror_frame)
  have IH: "push_loop (mirror_into_buffers (flush_run (rm_state m1) run1 es1) m1) r
      = ?out (push_emit_loop m1 (rm_state m1) run1 r es1)"
    if "length r < length s" "rm_markers m1 = ?mk" "utf8_valid r" for r m1 run1 es1
    using "1.IH" "1.prems"(1) that by auto
  have "push_loop M s = ?out (push_emit_loop m (rm_state m) run s es)"
  proof (cases "s = [] \<or> could_start_any s ?ps")
    case True
    moreover have "mirror_into_buffers (flush_run (rm_state m) run es) (m\<lparr>rm_pending := s\<rparr>) = M\<lparr>rm_pending := s\<rparr>"
      by (simp add: mirror_commute M_def)
    ultimately show ?thesis
      by (auto simp: push_loop_rules(1) push_emit_loop_rules(1,2) M M_def [symmetric])
  next
    case go: False
    show ?thesis
    proof (cases "match_any s ?ps")
      case (Some k)
      let ?m = "m\<lparr>rm_state := flip_channel (rm_state m)\<rparr>"
      have "length (drop k s) < length s" using go match_any_pos [OF Some] by simp
      from IH [OF this, of ?m "[]" "flush_run (rm_state m) run es"] marker_step [OF "1.prems" Some]
      have "push_loop (M\<lparr>rm_state := flip_channel (rm_state m)\<rparr>) (drop k s)
          = ?out (push_emit_loop ?m (flip_channel (rm_state m)) [] (drop k s) (flush_run (rm_state m) run es))"
        by (simp add: flush_run_def [of _ "[]"] mirror_commute M_def)
      then show ?thesis using go Some marker_step(1) [OF "1.prems" Some]
        by (simp add: push_loop_rules(2) [of s M k "drop k s"] push_emit_loop_rules(3) [of s m k "drop k s"] M)
    next
      case None
      let ?k = "utf8_char_len (hd s)"
      have "length (drop ?k s) < length s" using go utf8_char_len_pos [of "hd s"] by simp
      from IH [OF this, of "note_leak s m" "run @ take ?k s" es] char_step(3) [of s] go "1.prems"
      have "push_loop (note_leak s (add_text (rm_state m) (take ?k s) M)) (drop ?k s)
          = ?out (push_emit_loop (note_leak s m) (rm_state m) (run @ take ?k s) (drop ?k s) es)"
        by (simp add: flush_run_add mirror_commute note_leak_add M_def)
      then show ?thesis using go None char_step(1,2) [of s] "1.prems"
        by (simp add: push_loop_rules(3) [of s M] push_emit_loop_rules(4) [of s m] M)
    qed
  qed
  then show ?case by (simp add: M_def)
qed

section \<open>Whole replies\<close>

fun push_all :: "string list \<Rightarrow> reply_machine \<Rightarrow> reply_machine option" where
  "push_all [] m = Some m"
| "push_all (c # cs) m = (case push c m of None \<Rightarrow> None | Some m' \<Rightarrow> push_all cs m')"

fun push_emit_all :: "string list \<Rightarrow> reply_machine \<Rightarrow> (stream_emission list \<times> reply_machine) option" where
  "push_emit_all [] m = Some ([], m)"
| "push_emit_all (c # cs) m =
     (case push_emit c m of
        None \<Rightarrow> None
      | Some (es, m1) \<Rightarrow>
          (case push_emit_all cs m1 of None \<Rightarrow> None | Some (fs, m2) \<Rightarrow> Some (es @ fs, m2)))"

definition content_of :: "stream_emission list \<Rightarrow> string" where
  "content_of es = concat (map (\<lambda>e. case e of ContentSlice s \<Rightarrow> s | ReasoningSlice s \<Rightarrow> []) es)"

definition reasoning_of :: "stream_emission list \<Rightarrow> string" where
  "reasoning_of es = concat (map (\<lambda>e. case e of ContentSlice s \<Rightarrow> [] | ReasoningSlice s \<Rightarrow> s) es)"

lemma mirror_content:
  "rm_content (mirror_into_buffers es m) = rm_content m @ content_of es"
  "rm_reasoning (mirror_into_buffers es m) = rm_reasoning m @ reasoning_of es"
  by (induction es arbitrary: m)
    (auto simp: mirror_into_buffers_def mirror_one_def content_of_def reasoning_of_def split: stream_emission.split)

lemma push_emit_loop_frame:
  "push_emit_loop m ch run rest es = Some (es', m') \<Longrightarrow> rm_content m' = rm_content m \<and> rm_reasoning m' = rm_reasoning m"
proof (induction m ch run rest es rule: push_emit_loop.induct)
  case (1 m ch run rest es)
  let ?ps = "patterns_of (rm_markers m) (rm_state m)"
  show ?case
  proof (cases "rest = []")
    case False
    show ?thesis
    proof (cases "match_any rest ?ps")
      case None
      with "1.prems" False show ?thesis
        using "1.IH"(1) [OF False refl None]
        by (auto simp: push_emit_loop.simps [of m ch run rest es] Let_def split: if_splits option.splits)
    next
      case (Some k)
      with "1.prems" False show ?thesis
        using "1.IH"(2) [OF False refl Some]
        by (auto simp: push_emit_loop.simps [of m ch run rest es] Let_def split: if_splits option.splits)
    qed
  qed (use "1.prems" in \<open>auto simp: push_emit_loop_rules\<close>)
qed

text \<open>
  C19: Streaming and batch agree. A chunk pushed for a streaming client leaves the machine exactly as
  the batch interface does, panics included, and the slices handed to the client are what the
  machine's content and reasoning grew by.\<close>
theorem push_emit_is_push:
  assumes "markers_ok (rm_markers m)" "utf8_valid (rm_pending m @ chunk)"
  shows "map_option snd (push_emit chunk m) = push chunk (count_token m)
    \<and> (\<forall>es m'. push_emit chunk m = Some (es, m') \<longrightarrow>
        rm_content m' = rm_content m @ content_of es \<and> rm_reasoning m' = rm_reasoning m @ reasoning_of es)"
proof -
  define m1 where "m1 = (count_token m)\<lparr>rm_pending := []\<rparr>"
  have m1: "rm_markers m1 = rm_markers m" "rm_state m1 = rm_state m" "rm_content m1 = rm_content m"
    "rm_reasoning m1 = rm_reasoning m" "rm_state (count_token m) = rm_state m" "rm_pending (count_token m) = rm_pending m"
    by (simp_all add: m1_def count_token_def Let_def split: channel_state.split)
  have e: "push_emit chunk m = map_option (\<lambda>(es, m'). (es, mirror_into_buffers es m'))
      (push_emit_loop m1 (rm_state m1) [] (rm_pending m @ chunk) [])"
    by (simp add: push_emit_def Let_def m1 m1_def [symmetric] split: option.split)
  have "push chunk (count_token m)
      = map_option (\<lambda>(es', m'). mirror_into_buffers es' m') (push_emit_loop m1 (rm_state m1) [] (rm_pending m @ chunk) [])"
    using push_emit_loop_is_push_loop [of m1 "rm_pending m @ chunk" "[]" "[]"] assms m1
    by (simp add: push_def m1_def [symmetric] flush_run_def mirror_into_buffers_def)
  moreover have "map_option snd (push_emit chunk m) = map_option (\<lambda>(es', m'). mirror_into_buffers es' m')
      (push_emit_loop m1 (rm_state m1) [] (rm_pending m @ chunk) [])"
    by (cases "push_emit_loop m1 (rm_state m1) [] (rm_pending m @ chunk) []") (auto simp: e)
  moreover have "rm_content m' = rm_content m @ content_of es \<and> rm_reasoning m' = rm_reasoning m @ reasoning_of es"
    if "push_emit chunk m = Some (es, m')" for es m'
    using that push_emit_loop_frame [of m1 "rm_state m1" "[]" "rm_pending m @ chunk" "[]" es]
    by (auto simp: e mirror_content m1)
  ultimately show ?thesis by simp
qed

lemma push_scan:
  assumes "markers_ok (rm_markers m)" "utf8_valid (rm_pending m @ chunk)"
  shows "\<exists>m'. push chunk m = Some m' \<and> pushed m m' (scan (rm_markers m) (rm_state m) (rm_pending m @ chunk))"
  using push_loop_scan [of "m\<lparr>rm_pending := []\<rparr>" "rm_pending m @ chunk"] assms
  by (auto simp: push_def pushed_def split: prod.splits)

lemma push_all_scan:
  assumes "markers_ok mk" "rm_markers m = mk" "list_all utf8_valid cs" "utf8_valid t"
    "scan mk Visible t = (ts, rm_state m, rm_pending m)"
    "rm_content m = channel_text Visible ts" "rm_reasoning m = channel_text InReasoning ts"
  shows "\<exists>m' us. push_all cs m = Some m' \<and> scan mk Visible (t @ concat cs) = (us, rm_state m', rm_pending m')
    \<and> rm_content m' = channel_text Visible us \<and> rm_reasoning m' = channel_text InReasoning us"
  using assms
proof (induction cs arbitrary: m t ts)
  case Nil
  then show ?case by simp
next
  case (Cons c cs)
  have p: "utf8_valid (rm_pending m)" using pending_valid Cons.prems(1,4,5) by blast
  then have "utf8_valid (rm_pending m @ c)" using Cons.prems(3) by (simp add: utf8_valid_append)
  then obtain m1 where m1: "push c m = Some m1" "pushed m m1 (scan mk (rm_state m) (rm_pending m @ c))"
    using push_scan [of m c] Cons.prems(1,2) by auto
  obtain us where us: "scan mk (rm_state m) (rm_pending m @ c) = (us, rm_state m1, rm_pending m1)"
    using m1(2) by (auto simp: pushed_def split: prod.splits)
  have "scan mk Visible (t @ c) = (ts @ us, rm_state m1, rm_pending m1)"
    using scan_append [OF Cons.prems(5), of c] us by simp
  moreover have "rm_content m1 = channel_text Visible (ts @ us)" "rm_reasoning m1 = channel_text InReasoning (ts @ us)"
    "rm_markers m1 = mk"
    using m1(2) us Cons.prems by (auto simp: pushed_def)
  moreover have "utf8_valid (t @ c)" using Cons.prems(3,4) by (simp add: utf8_valid_append)
  ultimately show ?case using Cons.IH [of m1 "t @ c" "ts @ us"] Cons.prems(1,3) m1(1) by simp
qed

lemma finish_reference:
  assumes "scan mk Visible t = (us, rm_state m, rm_pending m)"
    "rm_content m = channel_text Visible us" "rm_reasoning m = channel_text InReasoning us"
  shows "rp_content (finish m) = channel_text Visible (split_reference mk t)
    \<and> (case rp_reasoning (finish m) of None \<Rightarrow> [] | Some r \<Rightarrow> r) = channel_text InReasoning (split_reference mk t)"
  using assms by (cases "rm_state m") (auto simp: finish_def split_reference_def Let_def)

text \<open>
  C18: However a reply is cut into chunks, the machine never panics, and the parts it returns are the
  visible and the reasoning text of the reference, which reads the whole reply at once and takes
  the longest marker at each place.\<close>
theorem reply_split_refines:
  assumes "markers_ok mk" "list_all utf8_valid chunks"
  shows "\<exists>m. push_all chunks (reply_new mk) = Some m
    \<and> rp_content (finish m) = channel_text Visible (split_reference mk (concat chunks))
    \<and> (case rp_reasoning (finish m) of None \<Rightarrow> [] | Some r \<Rightarrow> r) = channel_text InReasoning (split_reference mk (concat chunks))"
proof -
  obtain m us where "push_all chunks (reply_new mk) = Some m"
    "scan mk Visible (concat chunks) = (us, rm_state m, rm_pending m)"
    "rm_content m = channel_text Visible us" "rm_reasoning m = channel_text InReasoning us"
    using push_all_scan [of mk "reply_new mk" chunks "[]" "[]"] assms by (auto simp: reply_new_def)
  then show ?thesis using finish_reference by blast
qed

lemma thinking_markers_ok: "markers_ok qwen3_deepseek_markers" "markers_ok gemma4_markers"
  by (simp_all add: markers_ok_def qwen3_deepseek_markers_def gemma4_markers_def utf8_valid_def)

lemma reply_split_refines_witness:
  "\<exists>m. push_all [''<th'', ''ink>a</'', ''think>b''] (reply_new qwen3_deepseek_markers) = Some m
    \<and> rp_content (finish m)
        = channel_text Visible (split_reference qwen3_deepseek_markers ''<think>a</think>b'')"
  using reply_split_refines [OF thinking_markers_ok(1), of "[''<th'', ''ink>a</'', ''think>b'']"]
  by (auto simp: utf8_valid_def)

lemma push_emit_is_push_witness:
  "map_option snd (push_emit ''<think>a'' (reply_new qwen3_deepseek_markers))
     = push ''<think>a'' (count_token (reply_new qwen3_deepseek_markers))"
  using push_emit_is_push [of "reply_new qwen3_deepseek_markers" "''<think>a''"]
  by (simp add: reply_new_def thinking_markers_ok utf8_valid_def)

text \<open>The order of the markers plays no part: the longest one that matches is taken.\<close>

lemma marker_order_is_ignored:
  assumes "set ps = set qs"
  shows "match_any s ps = match_any s qs"
proof -
  have le: "\<exists>j. match_any s b = Some j \<and> k \<le> j" if "match_any s a = Some k" "set a = set b" for a b k
  proof -
    from that(1) obtain p where "p \<in> set a" "p \<noteq> []" "starts_with s p" "k = length p" by (rule match_any_SomeD)
    then show ?thesis using match_any_longest [of p b s] that(2) by simp
  qed
  show ?thesis
  proof (cases "match_any s ps")
    case None
    then show ?thesis using le [of qs _ ps] assms by (cases "match_any s qs") auto
  next
    case (Some k)
    from le [OF this assms] obtain j where j: "match_any s qs = Some j" "k \<le> j" by blast
    from le [OF j(1) assms [symmetric]] Some have "j \<le> k" by simp
    with j Some show ?thesis by simp
  qed
qed

lemma longer_marker_listed_last:
  "match_any ''<think>hm'' [''<th'', ''<think>''] = Some 7"
  by (simp add: match_any_def starts_with_def)

text \<open>A leaked special token is counted when it arrives in one chunk and not when it arrives in two.\<close>

lemma ascii_step:
  assumes "rm_markers m = no_markers" "is_ascii (c # s)"
  shows "push_loop m (c # s) = push_loop (note_leak (c # s) (add_text (rm_state m) [c] m)) s"
proof -
  have pats: "patterns_of (rm_markers m) (rm_state m) = []"
    by (simp add: assms(1) patterns_of_def no_markers_def split: channel_state.split)
  have len: "utf8_char_len c = 1" using assms(2) by (simp add: is_ascii_def utf8_char_len_def)
  have "str_slice (c # s) 0 1 = Some [c]"
    using ascii_slice [OF assms(2), of 0 1] by (simp add: sub_def)
  then show ?thesis
    using push_loop_rules(3) [of "c # s" m "[c]"]
    by (simp add: pats len could_start_any_def match_any_def)
qed

lemma special_scan_pos:
  "0 < n \<Longrightarrow> special_scan n [] = False"
  "0 < n \<Longrightarrow> special_scan n (b # s) =
     (if b = CHR ''|'' \<and> s \<noteq> [] \<and> hd s = CHR ''>'' then True
      else if b = CHR ''>'' \<or> is_ascii_whitespace b then False else special_scan (n - 1) s)"
  by (cases n; simp)+

lemma leak_count_depends_on_chunks:
  "map_option rm_leaked (push_all [''<t|>''] (reply_new no_markers)) = Some 1
   \<and> map_option rm_leaked (push_all [''<t'', ''|>''] (reply_new no_markers)) = Some 0"
  by (simp add: push_def reply_new_def ascii_step is_ascii_def note_leak_def add_text_def
      has_special_token_shape_def special_scan_pos is_ascii_whitespace_def sat_inc32_def)

end
