(* ===== verification/KvStore.thy ===== *)
theory KvStore
  imports Gguf "HOL-Library.Multiset"
begin

text \<open>
  Saved KV state (\<^verbatim>\<open>src/kv\<close>): the framing of a blob and its checks, the write that replaces a file
  whole, the naming of files and the budget of the store.  SHA-256 and the JSON codec are the record
  \<open>kv_codec\<close>; a disk has names, files and
  what a crash may undo of them.
\<close>

section \<open>Blobs\<close>

record kv_meta =
  kv_model_uuid :: string
  kv_n_ctx :: nat
  kv_n_layer :: nat
  kv_tokenizer_digest :: string
  kv_template_fingerprint :: string
  kv_created_at_us :: int
  kv_token_count :: nat
  kv_transcript_sha256 :: string

record kv_header =
  kh_version :: nat
  kh_meta :: kv_meta
  kh_payload_sha256 :: string

record kv_codec =
  kc_sha256 :: "string \<Rightarrow> string"
  kc_to_json :: "kv_header \<Rightarrow> string option"
  kc_from_json :: "string \<Rightarrow> kv_header option"

text \<open>What is relied on: a digest has 32 bytes, and what was serialized is read back.\<close>

definition kv_codec_ok :: "kv_codec \<Rightarrow> bool" where
  "kv_codec_ok c \<longleftrightarrow>
     (\<forall>b. length (kc_sha256 c b) = 32) \<and> (\<forall>h j. kc_to_json c h = Some j \<longrightarrow> kc_from_json c j = Some h)"

datatype kv_error =
  BlobTooSmall | BadMagic | HeaderLengthOutOfRange | BlobTruncated | HeaderChecksumMismatch | HeaderJsonError
  | UnsupportedVersion nat | PayloadChecksumMismatch

definition kv_magic :: string where
  "kv_magic = ''PIOKV1'' @ [CHR 0x00]"

definition format_version :: nat where
  "format_version = 2"

definition header_digest_len :: nat where
  "header_digest_len = 32"

definition header_start :: nat where
  "header_start = length kv_magic + 4 + header_digest_len"

definition build_blob :: "kv_codec \<Rightarrow> kv_meta \<Rightarrow> string \<Rightarrow> string option" where
  "build_blob c meta payload =
     (let header = \<lparr>kh_version = format_version, kh_meta = meta, kh_payload_sha256 = kc_sha256 c payload\<rparr> in
      case kc_to_json c header of
        None \<Rightarrow> None
      | Some header_json \<Rightarrow>
          Some (kv_magic @ enc_le 4 (length header_json mod 2 ^ 32) @ kc_sha256 c header_json @ header_json @ payload))"

definition parse_blob :: "kv_codec \<Rightarrow> string \<Rightarrow> kv_error + (kv_header \<times> string)" where
  "parse_blob c bytes =
     (if length bytes < header_start then Inl BlobTooSmall
      else if take (length kv_magic) bytes \<noteq> kv_magic then Inl BadMagic
      else let header_len = le_nat (take 4 (drop (length kv_magic) bytes));
               header_digest = take header_digest_len (drop (length kv_magic + 4) bytes) in
        case checked_add header_start header_len of
          None \<Rightarrow> Inl HeaderLengthOutOfRange
        | Some header_end \<Rightarrow>
            if length bytes < header_end then Inl BlobTruncated
            else let header_json = take header_len (drop header_start bytes) in
              if kc_sha256 c header_json \<noteq> header_digest then Inl HeaderChecksumMismatch
              else case kc_from_json c header_json of
                  None \<Rightarrow> Inl HeaderJsonError
                | Some header \<Rightarrow>
                    if kh_version header \<noteq> format_version then Inl (UnsupportedVersion (kh_version header))
                    else let payload = drop header_end bytes in
                      if kc_sha256 c payload \<noteq> kh_payload_sha256 header then Inl PayloadChecksumMismatch
                      else Inr (header, payload))"

section \<open>Writing a file\<close>

text \<open>
  The file system as far as a crash is concerned: names point to files, a file's bytes are durable once
  it was synced, and a name may fall back to what it pointed to before, since no directory is synced.
\<close>

record inode =
  in_data :: string
  in_synced :: bool

record disk =
  dk_names :: "string \<rightharpoonup> nat"
  dk_past :: "(string \<rightharpoonup> nat) list"
  dk_inodes :: "nat \<Rightarrow> inode"
  dk_next :: nat

datatype fs_call = MakeDirs string | CreateFile string | WriteAll string string | SyncAll string
  | RenameFile string string | RemoveFile string

definition set_names :: "(string \<rightharpoonup> nat) \<Rightarrow> disk \<Rightarrow> disk" where
  "set_names m d = d\<lparr>dk_names := m, dk_past := dk_names d # dk_past d\<rparr>"

definition set_file :: "string \<Rightarrow> (inode \<Rightarrow> inode) \<Rightarrow> disk \<Rightarrow> disk" where
  "set_file p f d = (case dk_names d p of None \<Rightarrow> d
     | Some i \<Rightarrow> d\<lparr>dk_inodes := (dk_inodes d)(i := f (dk_inodes d i))\<rparr>)"

text \<open>What a call does when it works. Creating a file that is there truncates it.\<close>

fun call_effect :: "fs_call \<Rightarrow> disk \<Rightarrow> disk" where
  "call_effect (MakeDirs p) d = d"
| "call_effect (CreateFile p) d =
     (case dk_names d p of
        Some i \<Rightarrow> set_file p (\<lambda>_. \<lparr>in_data = [], in_synced = False\<rparr>) d
      | None \<Rightarrow> set_names ((dk_names d)(p \<mapsto> dk_next d))
          (d\<lparr>dk_inodes := (dk_inodes d)(dk_next d := \<lparr>in_data = [], in_synced = False\<rparr>), dk_next := Suc (dk_next d)\<rparr>))"
| "call_effect (WriteAll p bytes) d = set_file p (\<lambda>_. \<lparr>in_data = bytes, in_synced = False\<rparr>) d"
| "call_effect (SyncAll p) d = set_file p (\<lambda>f. f\<lparr>in_synced := True\<rparr>) d"
| "call_effect (RenameFile p q) d = set_names ((dk_names d)(q := dk_names d p, p := None)) d"
| "call_effect (RemoveFile p) d = set_names ((dk_names d)(p := None)) d"

definition contents :: "disk \<Rightarrow> string \<rightharpoonup> string" where
  "contents d p = map_option (\<lambda>i. in_data (dk_inodes d i)) (dk_names d p)"

text \<open>
  What may be found after a crash: each name is where it points or where it once pointed, and a file
  that was not synced holds any bytes.\<close>

definition survives :: "disk \<Rightarrow> (string \<rightharpoonup> string) \<Rightarrow> bool" where
  "survives d v \<longleftrightarrow> (\<exists>m torn. (\<forall>p. m p \<in> (\<lambda>x. x p) ` set (dk_names d # dk_past d))
     \<and> (\<forall>p. v p = map_option (\<lambda>i. if in_synced (dk_inodes d i) then in_data (dk_inodes d i) else torn i) (m p)))"

text \<open>
  The disks that a write goes through, in order, and whether it succeeded.  \<open>works\<close> says which calls the
  operating system grants; a write that it does not grant stops after \<open>stops\<close> bytes.
\<close>

definition write_to_path ::
  "(fs_call \<Rightarrow> bool) \<Rightarrow> nat \<Rightarrow> string \<Rightarrow> string \<Rightarrow> string \<Rightarrow> disk \<Rightarrow> bool \<times> disk list"
where
  "write_to_path works stops temp path bytes d =
     (let abandon = (\<lambda>ds. (False, ds @ (if works (RemoveFile temp) then [call_effect (RemoveFile temp) (last ds)] else []))) in
      if \<not> works (MakeDirs path) then (False, [d])
      else if \<not> works (CreateFile temp) then abandon [d]
      else let created = call_effect (CreateFile temp) d;
               granted = works (WriteAll temp bytes);
               n = (if granted then length bytes else min stops (length bytes));
               written = d # map (\<lambda>k. call_effect (WriteAll temp (take k bytes)) created) [0..<Suc n] in
        if \<not> granted then abandon written
        else if \<not> works (SyncAll temp) then abandon written
        else let synced = call_effect (SyncAll temp) (last written) in
          if \<not> works (RenameFile temp path) then (False, written @ [synced])
          else (True, written @ [synced, call_effect (RenameFile temp path) synced]))"

definition read_from_path :: "string \<Rightarrow> disk \<Rightarrow> string option" where
  "read_from_path path d = contents d path"

section \<open>The store\<close>

definition hex_digit :: "nat \<Rightarrow> char" where
  "hex_digit n = (if n < 10 then char_of (48 + n) else char_of (87 + n))"

definition hex_byte :: "char \<Rightarrow> string" where
  "hex_byte b = [hex_digit (of_char b div 16), hex_digit (of_char b mod 16)]"

definition blob_name :: "(string \<Rightarrow> string) \<Rightarrow> string \<Rightarrow> string" where
  "blob_name sha chat_id = concat (map hex_byte (take 16 (sha chat_id))) @ ''.piokv''"

definition path_for_chat :: "(string \<Rightarrow> string) \<Rightarrow> string \<Rightarrow> string \<Rightarrow> string" where
  "path_for_chat sha dir chat_id = dir @ ''/'' @ blob_name sha chat_id"

definition candidate_for_chat :: "(string \<Rightarrow> string) \<Rightarrow> string \<Rightarrow> string \<Rightarrow> disk \<Rightarrow> string option" where
  "candidate_for_chat sha dir chat_id d =
     (let p = path_for_chat sha dir chat_id in if contents d p \<noteq> None then Some p else None)"

text \<open>A blob on disk as the sweep sees it: path, time of modification, size.\<close>

record blob =
  bl_path :: string
  bl_modified :: nat
  bl_size :: nat

text \<open>\<open>rm\<close> says which removals work; the result has the files evicted and the bytes counted.\<close>

fun sweep :: "(string \<Rightarrow> bool) \<Rightarrow> nat \<Rightarrow> nat \<Rightarrow> nat \<Rightarrow> nat \<Rightarrow> blob list \<Rightarrow> string list \<times> nat" where
  "sweep rm keep budget i used [] = ([], used)"
| "sweep rm keep budget i used (b # bs) =
     (let used' = used + bl_size b in
      if (keep \<le> i \<or> budget < used') \<and> rm (bl_path b)
      then (let (ev, n) = sweep rm keep budget (Suc i) used bs in (bl_path b # ev, n))
      else sweep rm keep budget (Suc i) used' bs)"

definition newest_first :: "blob list \<Rightarrow> blob list" where
  "newest_first bs = sort_key (\<lambda>b. - int (bl_modified b)) bs"

definition enforce_budget :: "(string \<Rightarrow> bool) \<Rightarrow> nat \<Rightarrow> nat \<Rightarrow> blob list \<Rightarrow> string list \<times> nat" where
  "enforce_budget rm keep_files budget_mb blobs =
     sweep rm keep_files (sat_mul budget_mb (1024 * 1024)) 0 0 (newest_first blobs)"

section \<open>A blob is read back or refused\<close>

lemma header_start_eq: "header_start = 43" "length kv_magic = 7"
  by (simp_all add: header_start_def kv_magic_def header_digest_len_def)

lemma enc_le_length: "length (enc_le n v) = n"
  by (simp add: enc_le_def)

text \<open>The frame of a blob, taken apart.\<close>

lemma parse_frame:
  assumes "length digest = 32" "length json < 2 ^ 32"
  shows "parse_blob c (kv_magic @ enc_le 4 (length json) @ digest @ json @ payload) =
    (if kc_sha256 c json \<noteq> digest then Inl HeaderChecksumMismatch
     else case kc_from_json c json of
         None \<Rightarrow> Inl HeaderJsonError
       | Some h \<Rightarrow>
           if kh_version h \<noteq> format_version then Inl (UnsupportedVersion (kh_version h))
           else if kc_sha256 c payload \<noteq> kh_payload_sha256 h then Inl PayloadChecksumMismatch
           else Inr (h, payload))"
proof -
  have "le_nat (enc_le 4 (length json)) = length json" using assms(2) by (intro le_nat_enc) simp
  then show ?thesis
    using assms by (simp add: parse_blob_def header_start_eq header_digest_len_def enc_le_length checked_add_def Let_def
        split: option.split)
qed

lemma blob_roundtrip':
  assumes "kv_codec_ok c" "build_blob c meta payload = Some b" "length b < 2 ^ 32"
  shows "\<exists>h. parse_blob c b = Inr (h, payload) \<and> kh_meta h = meta"
proof -
  define h where "h = \<lparr>kh_version = format_version, kh_meta = meta, kh_payload_sha256 = kc_sha256 c payload\<rparr>"
  obtain j where j: "kc_to_json c h = Some j"
      and b: "b = kv_magic @ enc_le 4 (length j mod 2 ^ 32) @ kc_sha256 c j @ j @ payload"
    using assms(2) by (auto simp: build_blob_def Let_def h_def split: option.splits)
  have len: "length j < 2 ^ 32" using assms(3) by (simp add: b)
  have "parse_blob c b = Inr (h, payload)"
    using parse_frame [of "kc_sha256 c j" j c payload] assms(1) j len
    by (simp add: b kv_codec_ok_def h_def)
  then show ?thesis by (auto simp: h_def)
qed

text \<open>
  A saved blob is read back: what was built parses to the same metadata and the same state
  bytes, whatever they are.\<close>
lemma blob_roundtrip:
  assumes "kv_codec_ok c" "build_blob c meta payload = Some b" "length b < 2 ^ 32"
  shows "\<exists>h. parse_blob c b = Inr (h, payload) \<and> kh_meta h = meta"
  by (rule blob_roundtrip' [OF assms])

text \<open>A codec for one header, to witness the hypotheses.\<close>

definition sample_meta :: kv_meta where
  "sample_meta = \<lparr>kv_model_uuid = ''m'', kv_n_ctx = 8, kv_n_layer = 1, kv_tokenizer_digest = [], kv_template_fingerprint = [],
     kv_created_at_us = 0, kv_token_count = 3, kv_transcript_sha256 = []\<rparr>"

definition sample_sha :: "string \<Rightarrow> string" where
  "sample_sha s = take 32 (s @ replicate 32 CHR ''x'')"

definition sample_header :: kv_header where
  "sample_header = \<lparr>kh_version = format_version, kh_meta = sample_meta, kh_payload_sha256 = sample_sha ''kv''\<rparr>"

definition sample_codec :: kv_codec where
  "sample_codec = \<lparr>kc_sha256 = sample_sha, kc_to_json = (\<lambda>h. if h = sample_header then Some ''h'' else None),
     kc_from_json = (\<lambda>s. if s = ''h'' then Some sample_header else None)\<rparr>"

lemma sample_codec_ok: "kv_codec_ok sample_codec"
  by (auto simp: kv_codec_ok_def sample_codec_def sample_sha_def min_def)

lemma sample_blob: "\<exists>b. build_blob sample_codec sample_meta ''kv'' = Some b \<and> length b < 2 ^ 32 \<and> header_start < length b"
  by (simp add: build_blob_def Let_def sample_codec_def sample_header_def sample_sha_def header_start_eq enc_le_length)

lemma blob_roundtrip_witness:
  "\<exists>b h. build_blob sample_codec sample_meta ''kv'' = Some b \<and> parse_blob sample_codec b = Inr (h, ''kv'')"
  using blob_roundtrip [OF sample_codec_ok] sample_blob by blast

lemma le_nat_Cons: "le_nat (c # bs) = of_char c + 256 * le_nat bs"
  by (simp add: le_nat_def)

lemma enc_le_nat: "enc_le (length bs) (le_nat bs) = bs"
proof (induction bs)
  case Nil
  then show ?case by (simp add: enc_le_def)
next
  case (Cons c bs)
  have "(of_char c :: nat) < 256" by (rule nat_of_char_less_256)
  then have "le_nat (c # bs) mod 256 = of_char c" "le_nat (c # bs) div 256 = le_nat bs" by (simp_all add: le_nat_Cons)
  with Cons show ?case by (simp add: enc_le_Suc)
qed

text \<open>The header text of a blob, and two different texts with one digest.\<close>

definition header_json :: "string \<Rightarrow> string" where
  "header_json b = take (le_nat (take 4 (drop (length kv_magic) b))) (drop header_start b)"

definition collides :: "kv_codec \<Rightarrow> string \<Rightarrow> string \<Rightarrow> bool" where
  "collides c x y \<longleftrightarrow> x \<noteq> y \<and> kc_sha256 c x = kc_sha256 c y"

lemma header_json_frame:
  assumes "length digest = 32" "length json < 2 ^ 32"
  shows "header_json (kv_magic @ enc_le 4 (length json) @ digest @ json @ payload) = json"
proof -
  have "le_nat (enc_le 4 (length json)) = length json" using assms(2) by (intro le_nat_enc) simp
  then show ?thesis using assms by (simp add: header_json_def header_start_eq enc_le_length)
qed

text \<open>What a blob that parses looks like.\<close>

lemma parse_parts:
  assumes "parse_blob c b = Inr (h, payload)"
  defines "n \<equiv> le_nat (take 4 (drop 7 b))"
  shows "43 + n \<le> length b" "take 7 b = kv_magic" "header_json b = take n (drop 43 b)"
    "kc_sha256 c (header_json b) = take 32 (drop 11 b)" "kc_from_json c (header_json b) = Some h"
    "payload = drop (43 + n) b" "kc_sha256 c payload = kh_payload_sha256 h"
  using assms by (auto simp: parse_blob_def header_start_eq header_digest_len_def Let_def header_json_def checked_add_def
      split: if_splits option.splits)

lemma parse_shape:
  assumes "parse_blob c b = Inr (h, payload)"
  shows "b = kv_magic @ enc_le 4 (length (header_json b)) @ kc_sha256 c (header_json b) @ header_json b @ payload"
proof -
  note p = parse_parts [OF assms]
  let ?n = "le_nat (take 4 (drop 7 b))"
  have len: "length (header_json b) = ?n" using p(1,3) by simp
  have four: "take 4 (drop 7 b) = enc_le 4 (length (header_json b))"
    using enc_le_nat [of "take 4 (drop 7 b)"] p(1) len by simp
  have "drop 43 b = header_json b @ payload" using append_take_drop_id [of ?n "drop 43 b"] by (simp add: p(3,6) add.commute)
  moreover have "drop 11 b = take 32 (drop 11 b) @ drop 43 b" using append_take_drop_id [of 32 "drop 11 b"] by simp
  moreover have "drop 7 b = take 4 (drop 7 b) @ drop 11 b" using append_take_drop_id [of 4 "drop 7 b"] by simp
  ultimately have "b = take 7 b @ take 4 (drop 7 b) @ take 32 (drop 11 b) @ header_json b @ payload"
    using append_take_drop_id [of 7 b] by metis
  then show ?thesis by (simp only: p(2,4) four)
qed

lemma damaged_blob:
  assumes "kv_codec_ok c" "build_blob c meta payload = Some b" "length b < 2 ^ 32"
    and "parse_blob c b' = Inr (h', p')" "take header_digest_len (drop (length kv_magic + 4) b') = take header_digest_len (drop (length kv_magic + 4) b)"
  shows "b' = b \<or> collides c (header_json b') (header_json b) \<or> header_json b' = header_json b \<and> collides c p' payload"
proof -
  obtain h where b: "parse_blob c b = Inr (h, payload)" using blob_roundtrip' [OF assms(1-3)] by blast
  note p = parse_parts [OF b] and p' = parse_parts [OF assms(4)]
  have "kc_sha256 c (header_json b') = kc_sha256 c (header_json b)"
    using p(4) p'(4) assms(5) by (simp add: header_start_eq header_digest_len_def)
  moreover have "b' = b" if "header_json b' = header_json b" "p' = payload"
    using parse_shape [OF b] parse_shape [OF assms(4)] that by simp
  moreover have "kc_sha256 c p' = kc_sha256 c payload" if "header_json b' = header_json b"
    using p(5,7) p'(5,7) that by simp
  ultimately show ?thesis unfolding collides_def by metis
qed

text \<open>
  C20: A damaged blob is refused. Bytes that parse and carry the same header digest as a blob that was
  saved are that blob, byte for byte, unless the two header texts, or under the same header the two
  state payloads, are different texts with one digest.\<close>
theorem blob_tamper_evident:
  assumes "kv_codec_ok c" "build_blob c meta payload = Some b" "length b < 2 ^ 32"
    and "parse_blob c b' = Inr (h', p')" "take header_digest_len (drop (length kv_magic + 4) b') = take header_digest_len (drop (length kv_magic + 4) b)"
  shows "b' = b \<or> collides c (header_json b') (header_json b) \<or> header_json b' = header_json b \<and> collides c p' payload"
  by (rule damaged_blob [OF assms])

text \<open>The sample digest is weak, and a blob with another payload under it is just such a collision.\<close>

lemma sample_sha_kvx: "sample_sha ''kvx'' = sample_sha ''kv''"
  by (code_simp)

lemma blob_tamper_evident_witness:
  "\<exists>b b' h. build_blob sample_codec sample_meta ''kv'' = Some b \<and> parse_blob sample_codec b' = Inr (h, ''kvx'')
    \<and> (b' = b \<or> collides sample_codec (header_json b') (header_json b)
        \<or> header_json b' = header_json b \<and> collides sample_codec ''kvx'' ''kv'')"
proof -
  obtain b where b: "build_blob sample_codec sample_meta ''kv'' = Some b" "length b < 2 ^ 32" using sample_blob by blast
  define b' where "b' = kv_magic @ enc_le 4 (length ''h'') @ kc_sha256 sample_codec ''h'' @ ''h'' @ ''kvx''"
  have p: "parse_blob sample_codec b' = Inr (sample_header, ''kvx'')"
    using parse_frame [of "kc_sha256 sample_codec ''h''" "''h''" sample_codec "''kvx''"] sample_codec_ok
    sample_sha_kvx unfolding b'_def by (simp add: kv_codec_ok_def sample_codec_def sample_header_def)
  have "take header_digest_len (drop (length kv_magic + 4) b') = take header_digest_len (drop (length kv_magic + 4) b)"
    using b(1) by (auto simp: b'_def build_blob_def Let_def sample_codec_def sample_header_def sample_sha_def header_start_eq
        header_digest_len_def enc_le_length)
  from blob_tamper_evident [OF sample_codec_ok b p this] b(1) p show ?thesis by blast
qed

text \<open>A blob that was cut short is refused, unless the payload has the digest of a proper prefix of itself.\<close>

lemma truncated_blob_refused:
  assumes "kv_codec_ok c" "build_blob c meta payload = Some b" "length b < 2 ^ 32" "k < length b"
  shows "(\<exists>e. parse_blob c (take k b) = Inl e) \<or> (\<exists>n < length payload. collides c (take n payload) payload)"
proof (cases "parse_blob c (take k b)")
  case (Inr r)
  obtain h' p' where r: "r = (h', p')" by (cases r)
  have parse: "parse_blob c (take k b) = Inr (h', p')" using Inr r by simp
  have 43: "43 \<le> k" using Inr assms(4) by (auto simp: parse_blob_def header_start_eq split: if_splits)
  obtain h where b: "parse_blob c b = Inr (h, payload)" using blob_roundtrip' [OF assms(1-3)] by blast
  note p = parse_parts [OF b] and p' = parse_parts [OF parse]
  let ?n = "le_nat (take 4 (drop 7 b))"
  have n: "take 4 (drop 7 (take k b)) = take 4 (drop 7 b)" using 43 by (simp add: drop_take min_def)
  have fits: "43 + ?n \<le> k" using p'(1) unfolding n by simp
  have "header_json (take k b) = header_json b"
    using fits unfolding p(3) p'(3) n by (simp add: drop_take min_def)
  then have same: "kc_sha256 c p' = kc_sha256 c payload" using p(5,7) p'(5,7) by simp
  have short: "p' = take (k - (43 + ?n)) payload" unfolding p(6) p'(6) n by (simp add: drop_take)
  have "k - (43 + ?n) < length payload" unfolding p(6) using assms(4) fits by simp
  moreover have "p' \<noteq> payload" using calculation short by (metis length_take min_less_iff_conj nat_neq_iff)
  ultimately show ?thesis using same short unfolding collides_def by metis
qed simp

section \<open>A file is replaced whole\<close>

text \<open>A disk at rest: everything synced, no two names for one file.\<close>

definition settled :: "disk \<Rightarrow> bool" where
  "settled d \<longleftrightarrow> dk_past d = [] \<and> inj_on (dk_names d) (dom (dk_names d))
     \<and> (\<forall>i \<in> ran (dk_names d). in_synced (dk_inodes d i) \<and> i < dk_next d)"

text \<open>What every disk of a write has: all names but two are untouched, and the path may only have moved
  to a file with all of the bytes, synced.\<close>

definition sound_since :: "disk \<Rightarrow> string \<Rightarrow> string \<Rightarrow> string \<Rightarrow> disk \<Rightarrow> bool" where
  "sound_since d temp path bytes e \<longleftrightarrow>
     (\<forall>x \<in> set (dk_names e # dk_past e). (\<forall>p. p \<noteq> temp \<and> p \<noteq> path \<longrightarrow> x p = dk_names d p)
        \<and> (x path = dk_names d path \<or> (\<exists>i. x path = Some i \<and> dk_inodes e i = \<lparr>in_data = bytes, in_synced = True\<rparr>)))
     \<and> (\<forall>p i. p \<noteq> temp \<longrightarrow> dk_names d p = Some i \<longrightarrow> dk_inodes e i = dk_inodes d i)"

lemma sound_survives:
  assumes "settled d" "sound_since d temp path bytes e" "survives e v" "temp \<noteq> path"
  shows "(v path = contents d path \<or> v path = Some bytes)" "p \<noteq> path \<Longrightarrow> p \<noteq> temp \<Longrightarrow> v p = contents d p"
proof -
  obtain m torn where m: "\<And>p. \<exists>x \<in> set (dk_names e # dk_past e). m p = x p"
    and v: "\<And>p. v p = map_option (\<lambda>i. if in_synced (dk_inodes e i) then in_data (dk_inodes e i) else torn i) (m p)"
    using assms(3) unfolding survives_def by blast
  have kept: "v p = contents d p" if "m p = dk_names d p" "p \<noteq> temp" for p
    using that assms(1,2) unfolding v contents_def settled_def sound_since_def
    by (cases "dk_names d p") (auto simp: ran_def)
  show "v p = contents d p" if "p \<noteq> path" "p \<noteq> temp"
    using that m [of p] assms(2) by (intro kept) (auto simp: sound_since_def)
  obtain x where x: "x \<in> set (dk_names e # dk_past e)" "m path = x path" using m by blast
  show "v path = contents d path \<or> v path = Some bytes"
  proof (cases "x path = dk_names d path")
    case True
    then show ?thesis using kept [of path] x(2) assms(4) by simp
  next
    case False
    then obtain i where "x path = Some i" "dk_inodes e i = \<lparr>in_data = bytes, in_synced = True\<rparr>"
      using assms(2) x(1) unfolding sound_since_def by blast
    then show ?thesis using v [of path] x(2) by simp
  qed
qed

text \<open>The temporary file is a file of its own, and the path has not moved yet.\<close>

definition apart :: "disk \<Rightarrow> string \<Rightarrow> string \<Rightarrow> disk \<Rightarrow> bool" where
  "apart d temp path e \<longleftrightarrow> (\<forall>p i. p \<noteq> temp \<longrightarrow> dk_names d p = Some i \<longrightarrow> dk_names e temp \<noteq> Some i)
     \<and> (\<forall>x \<in> set (dk_names e # dk_past e). \<forall>p. p \<noteq> temp \<longrightarrow> x p = dk_names d p)
     \<and> (\<forall>p i. p \<noteq> temp \<longrightarrow> dk_names d p = Some i \<longrightarrow> dk_inodes e i = dk_inodes d i)"

lemma apart_sound: "temp \<noteq> path \<Longrightarrow> apart d temp path e \<Longrightarrow> sound_since d temp path bytes e"
  by (auto simp: apart_def sound_since_def)

lemma apart_refl: "settled d \<Longrightarrow> apart d temp path d"
  by (fastforce simp: apart_def settled_def inj_on_def dom_def)

lemma apart_file: "apart d temp path e \<Longrightarrow> apart d temp path (set_file temp f e)"
  by (auto simp: apart_def set_file_def split: option.split)

lemma fresh_inode: "settled d \<Longrightarrow> dk_names d p \<noteq> Some (dk_next d)"
  by (force simp: settled_def ran_def)

lemma apart_create:
  assumes "settled d"
  shows "apart d temp path (call_effect (CreateFile temp) d)" "dk_names (call_effect (CreateFile temp) d) temp \<noteq> None"
proof -
  show "apart d temp path (call_effect (CreateFile temp) d)"
  proof (cases "dk_names d temp")
    case (Some i)
    then show ?thesis using apart_file [OF apart_refl [OF assms]] by simp
  next
    case None
    then show ?thesis using fresh_inode [OF assms] assms by (auto simp: apart_def set_names_def settled_def)
  qed
  show "dk_names (call_effect (CreateFile temp) d) temp \<noteq> None"
    by (auto simp: set_file_def set_names_def split: option.split)
qed

lemma apart_remove: "apart d temp path e \<Longrightarrow> apart d temp path (call_effect (RemoveFile temp) e)"
  by (auto simp: apart_def set_names_def)

lemma set_file_names [simp]: "dk_names (set_file p f d) = dk_names d"
  by (simp add: set_file_def split: option.split)

lemma rename_sound:
  assumes "apart d temp path e" "dk_names e temp = Some i" "dk_inodes e i = \<lparr>in_data = bytes, in_synced = True\<rparr>" "temp \<noteq> path"
  shows "sound_since d temp path bytes (call_effect (RenameFile temp path) e)"
    "contents (call_effect (RenameFile temp path) e) path = Some bytes" "contents (call_effect (RenameFile temp path) e) temp = None"
  using assms by (auto simp: sound_since_def apart_def set_names_def contents_def)

text \<open>Every disk of a write is sound, and the last one of a write that succeeded has the bytes.\<close>

lemma write_sound:
  assumes "settled d" "temp \<noteq> path" "write_to_path works stops temp path bytes d = (ok, ds)"
  shows "list_all (sound_since d temp path bytes) ds \<and> (ok \<longrightarrow> contents (last ds) path = Some bytes \<and> contents (last ds) temp = None)"
proof -
  define created where "created = call_effect (CreateFile temp) d"
  define part where "part k = call_effect (WriteAll temp (take k bytes)) created" for k
  define synced where "synced = call_effect (SyncAll temp) (part (length bytes))"
  have c: "apart d temp path created" "dk_names created temp \<noteq> None"
    unfolding created_def by (rule apart_create [OF assms(1)])+
  have p: "apart d temp path (part k)" for k unfolding part_def by (simp add: apart_file c(1))
  have s: "apart d temp path synced" unfolding synced_def by (simp add: apart_file p)
  obtain i where i: "dk_names created temp = Some i" using c(2) by blast
  have full: "dk_names synced temp = Some i" "dk_inodes synced i = \<lparr>in_data = bytes, in_synced = True\<rparr>"
    by (simp_all add: synced_def part_def set_file_def i)
  note ok = apart_sound [OF assms(2)]
  have removed: "sound_since d temp path bytes (call_effect (RemoveFile temp) e)" if "apart d temp path e" for e
    by (rule ok [OF apart_remove [OF that]])
  have parts: "list_all (sound_since d temp path bytes) (d # map part [0..<Suc n])" for n
    using ok [OF apart_refl [OF assms(1)]] ok [OF p] by (simp add: list_all_iff)
  have last: "last (d # map part [0..<Suc n]) = part n" for n by simp
  note fold = created_def [symmetric] part_def [symmetric]
  show ?thesis
    using assms(3) unfolding write_to_path_def Let_def fold last
    using parts removed [OF p] removed [OF apart_refl [OF assms(1)]] ok [OF apart_refl [OF assms(1)]]
      ok [OF s, unfolded synced_def] rename_sound [OF s full assms(2), unfolded synced_def]
    by (auto simp del: call_effect.simps upt_Suc split: if_splits)
qed

text \<open>
  C21: A write never leaves a torn file under the real name. Whatever calls the operating system
  refuses, and whatever a crash during or after the write leaves of it, where unsynced bytes may be lost
  or garbled and each name may fall back to what it pointed to before, the path holds its old contents
  or all of the new ones, and no other file but the temporary one changes. Success means that the new
  contents are there and the temporary file is gone.\<close>
theorem write_is_atomic:
  assumes "settled d" "temp \<noteq> path" "write_to_path works stops temp path bytes d = (ok, ds)" "e \<in> set ds" "survives e v"
  shows "(v path = contents d path \<or> v path = Some bytes) \<and> (\<forall>p. p \<noteq> path \<and> p \<noteq> temp \<longrightarrow> v p = contents d p)
    \<and> (ok \<longrightarrow> contents (last ds) path = Some bytes \<and> contents (last ds) temp = None)"
proof -
  note w = write_sound [OF assms(1-3)]
  then have "sound_since d temp path bytes e" using assms(4) by (simp add: list_all_iff)
  from sound_survives [OF assms(1) this assms(5,2)] w show ?thesis by blast
qed

definition empty_disk :: disk where
  "empty_disk = \<lparr>dk_names = Map.empty, dk_past = [], dk_inodes = (\<lambda>_. \<lparr>in_data = [], in_synced = True\<rparr>), dk_next = 0\<rparr>"

text \<open>Right after the rename, a crash leaves no file or the whole one.\<close>

lemma write_is_atomic_witness:
  "let e = last (snd (write_to_path (\<lambda>_. True) 0 ''t'' ''p'' ''kv'' empty_disk)) in
   contents e ''p'' = Some ''kv'' \<and> survives e (contents e)
     \<and> (contents e ''p'' = None \<or> contents e ''p'' = Some ''kv'')"
proof -
  let ?w = "write_to_path (\<lambda>_. True) 0 ''t'' ''p'' ''kv'' empty_disk"
  let ?e = "last (snd ?w)"
  have w: "?w = (True, snd ?w)" "snd ?w \<noteq> []" by (simp_all add: write_to_path_def Let_def)
  have d: "settled empty_disk" by (simp add: settled_def empty_disk_def)
  have e: "?e \<in> set (snd ?w)" using w(2) by simp
  have "survives ?e (contents ?e)"
    unfolding survives_def contents_def
    by (rule exI [of _ "dk_names ?e"], rule exI [of _ "\<lambda>i. in_data (dk_inodes ?e i)"]) (simp add: image_iff)
  with write_is_atomic [OF d _ w(1) e this] show ?thesis
    by (simp add: Let_def contents_def empty_disk_def)
qed

text \<open>A rename that fails leaves the temporary file, although every other failure removes it.\<close>

lemma rename_failure_leaves_temp:
  assumes "settled d" "temp \<noteq> path"
  shows "let (ok, ds) = write_to_path (\<lambda>c. c \<noteq> RenameFile temp path) 0 temp path bytes d in
    \<not> ok \<and> contents (last ds) temp = Some bytes"
    "let (ok, ds) = write_to_path (\<lambda>c. c \<noteq> SyncAll temp) 0 temp path bytes d in
    \<not> ok \<and> contents (last ds) temp = None"
proof -
  obtain i where "dk_names (call_effect (CreateFile temp) d) temp = Some i" using apart_create(2) [OF assms(1)] by blast
  then show "let (ok, ds) = write_to_path (\<lambda>c. c \<noteq> RenameFile temp path) 0 temp path bytes d in
    \<not> ok \<and> contents (last ds) temp = Some bytes"
    "let (ok, ds) = write_to_path (\<lambda>c. c \<noteq> SyncAll temp) 0 temp path bytes d in
    \<not> ok \<and> contents (last ds) temp = None"
    by (auto simp: write_to_path_def Let_def contents_def set_file_def set_names_def simp del: call_effect.simps(2))
qed

section \<open>The budget\<close>

lemma sweep_accounts:
  "distinct (map bl_path bs) \<Longrightarrow> sweep rm keep budget i used bs = (ev, n) \<Longrightarrow>
   set ev \<subseteq> bl_path ` set bs \<and> (\<forall>p \<in> set ev. rm p)
   \<and> n = used + sum_list (map bl_size (filter (\<lambda>b. bl_path b \<notin> set ev) bs))"
proof (induction bs arbitrary: i used ev n)
  case (Cons b bs)
  have other: "filter (\<lambda>x. bl_path x \<notin> insert (bl_path b) A) bs = filter (\<lambda>x. bl_path x \<notin> A) bs" for A
    using Cons.prems(1) by (intro filter_cong refl) (auto simp: image_iff)
  show ?case
  proof (cases "(keep \<le> i \<or> budget < used + bl_size b) \<and> rm (bl_path b)")
    case True
    with Cons.prems(2) obtain ev' where e: "ev = bl_path b # ev'" "sweep rm keep budget (Suc i) used bs = (ev', n)"
      by (auto simp: Let_def split: prod.splits)
    with Cons.IH [of "Suc i" used ev' n] Cons.prems(1) True other show ?thesis by auto
  next
    case False
    with Cons.prems have s: "sweep rm keep budget (Suc i) (used + bl_size b) bs = (ev, n)" by (auto simp: Let_def)
    from Cons.IH [OF _ this] Cons.prems(1) have IH: "set ev \<subseteq> bl_path ` set bs \<and> (\<forall>p \<in> set ev. rm p)
        \<and> n = used + bl_size b + sum_list (map bl_size (filter (\<lambda>b. bl_path b \<notin> set ev) bs))" by simp
    moreover have "bl_path b \<notin> set ev" using IH Cons.prems(1) by auto
    ultimately show ?thesis by auto
  qed
qed simp

lemma sweep_bounds:
  "sweep rm keep budget i used bs = (ev, n) \<Longrightarrow> distinct (map bl_path bs) \<Longrightarrow> \<forall>b \<in> set bs. rm (bl_path b) \<Longrightarrow> used \<le> budget \<Longrightarrow>
   n \<le> budget \<and> length (filter (\<lambda>b. bl_path b \<notin> set ev) bs) \<le> keep - i"
proof (induction bs arbitrary: i used ev n)
  case (Cons b bs)
  have other: "filter (\<lambda>x. bl_path x \<noteq> bl_path b \<and> bl_path x \<notin> A) bs = filter (\<lambda>x. bl_path x \<notin> A) bs" for A
    using Cons.prems(2) by (intro filter_cong refl) (auto simp: image_iff)
  show ?case
  proof (cases "keep \<le> i \<or> budget < used + bl_size b")
    case True
    with Cons.prems obtain ev' where e: "ev = bl_path b # ev'" "sweep rm keep budget (Suc i) used bs = (ev', n)"
      by (auto simp: Let_def split: prod.splits)
    have "n \<le> budget \<and> length (filter (\<lambda>b. bl_path b \<notin> set ev') bs) \<le> keep - Suc i"
      using Cons.IH [OF e(2)] Cons.prems by simp
    then show ?thesis by (simp add: e(1) other) linarith
  next
    case False
    with Cons.prems have s: "sweep rm keep budget (Suc i) (used + bl_size b) bs = (ev, n)" by (auto simp: Let_def)
    from Cons.IH [OF s] Cons.prems False
    have "n \<le> budget \<and> length (filter (\<lambda>b. bl_path b \<notin> set ev) bs) \<le> keep - Suc i" by simp
    then show ?thesis using False by auto
  qed
qed simp

lemma newest_first_set: "set (newest_first bs) = set bs" "distinct (map bl_path bs) \<Longrightarrow> distinct (map bl_path (newest_first bs))"
proof -
  show "set (newest_first bs) = set bs" by (simp add: newest_first_def)
  have "mset (map bl_path (newest_first bs)) = mset (map bl_path bs)" by (simp add: newest_first_def mset_map)
  then show "distinct (map bl_path bs) \<Longrightarrow> distinct (map bl_path (newest_first bs))"
    using mset_eq_imp_distinct_iff by blast
qed

text \<open>
  The sweep's account is honest: what it counts is the size of what it left, a removal that failed
  included, only files it removed count as evicted, and when every removal works the store is within
  its byte budget and its number of files.\<close>
lemma store_within_budget:
  assumes "distinct (map bl_path blobs)" "enforce_budget rm keep_files budget_mb blobs = (ev, n)"
  shows "n = sum_list (map bl_size (filter (\<lambda>b. bl_path b \<notin> set ev) (newest_first blobs))) \<and> (\<forall>p \<in> set ev. rm p)
    \<and> ((\<forall>b \<in> set blobs. rm (bl_path b)) \<longrightarrow>
         n \<le> budget_mb * (1024 * 1024) \<and> length (filter (\<lambda>b. bl_path b \<notin> set ev) (newest_first blobs)) \<le> keep_files)"
proof -
  note d = newest_first_set(2) [OF assms(1)]
  have s: "sweep rm keep_files (sat_mul budget_mb (1024 * 1024)) 0 0 (newest_first blobs) = (ev, n)"
    using assms(2) by (simp add: enforce_budget_def)
  have "n \<le> sat_mul budget_mb (1024 * 1024) \<and> length (filter (\<lambda>b. bl_path b \<notin> set ev) (newest_first blobs)) \<le> keep_files"
    if "\<forall>b \<in> set blobs. rm (bl_path b)"
    using sweep_bounds [OF s d] that by (simp add: newest_first_set)
  then show ?thesis using sweep_accounts [OF d s] sat_mul_le(1) [of budget_mb "1024 * 1024"] by auto
qed

definition newer_blob :: blob where
  "newer_blob = \<lparr>bl_path = ''new'', bl_modified = 9, bl_size = 2097152\<rparr>"

definition older_blob :: blob where
  "older_blob = \<lparr>bl_path = ''old'', bl_modified = 1, bl_size = 10\<rparr>"

lemma store_within_budget_witness: "snd (enforce_budget (\<lambda>p. True) 2 1 [older_blob, newer_blob]) \<le> 1 * (1024 * 1024)"
  using store_within_budget [of "[older_blob, newer_blob]" "\<lambda>p. True" 2 1]
  by (cases "enforce_budget (\<lambda>p. True) 2 1 [older_blob, newer_blob]") (simp add: newer_blob_def older_blob_def)

text \<open>It is not the oldest that goes: a newer blob over the budget is evicted and an older one stays.\<close>

lemma newer_evicted_older_kept: "enforce_budget (\<lambda>p. True) 2 1 [older_blob, newer_blob] = ([''new''], 10)"
  by (simp add: enforce_budget_def newest_first_def newer_blob_def older_blob_def sat_mul_def)

text \<open>Whatever the chat is called, its file is in the store's directory.\<close>

lemma blob_name_safe: "CHR ''/'' \<notin> set (blob_name sha chat_id)"
proof -
  have digit: "hex_digit n \<noteq> CHR ''/''" if "n < 16" for n
  proof
    assume "hex_digit n = CHR ''/''"
    then have "(of_char (hex_digit n) :: nat) = 47" by simp
    then show False using that by (auto simp: hex_digit_def split: if_splits)
  qed
  have "CHR ''/'' \<notin> set (hex_byte b)" for b
  proof -
    have "(of_char b :: nat) div 16 < 16" using nat_of_char_less_256 [of b] by linarith
    then show ?thesis using digit [of "of_char b div 16"] digit [of "of_char b mod 16"] by (auto simp: hex_byte_def)
  qed
  then show ?thesis by (auto simp: blob_name_def)
qed

end
