(* ===== verification/Speculative.thy ===== *)
theory Speculative
  imports Zoo
begin

text \<open>
  Predictors that draft tokens for speculative decoding (\<^verbatim>\<open>src/backend/common/speculative.rs\<close>): the
  trigram table over a ring of the last tokens, prompt lookup, and their combination.  Tokens are
  natural numbers; the counts of the table are \<^verbatim>\<open>u32\<close> and wrap.
\<close>

section \<open>Trigrams\<close>

definition ngram_history :: nat where
  "ngram_history = 1024"

definition default_draft_len :: nat where
  "default_draft_len = 4"

record ngram =
  ng_buf :: "nat list"
  ng_head :: nat
  ng_len :: nat
  ng_table :: "nat \<times> nat \<Rightarrow> (nat \<times> nat) option"

definition ngram_new :: ngram where
  "ngram_new = \<lparr>ng_buf = replicate ngram_history 0, ng_head = 0, ng_len = 0, ng_table = Map.empty\<rparr>"

definition last_two :: "ngram \<Rightarrow> (nat \<times> nat) option" where
  "last_two g =
     (if ng_len g < 2 then None
      else let avail = min (ng_len g) ngram_history;
               at = (\<lambda>i. ng_buf g ! ((ng_head g + ngram_history - avail + (avail - 2 + i)) mod ngram_history))
        in Some (at 0, at 1))"

fun draft_chain :: "(nat \<times> nat \<Rightarrow> (nat \<times> nat) option) \<Rightarrow> nat \<times> nat \<Rightarrow> nat \<Rightarrow> nat list" where
  "draft_chain table key 0 = []"
| "draft_chain table key (Suc n) =
     (case table key of
        Some (t, _) \<Rightarrow> t # draft_chain table (snd key, t) n
      | None \<Rightarrow> [])"

definition ngram_draft :: "nat \<Rightarrow> ngram \<Rightarrow> nat list" where
  "ngram_draft limit g = (case last_two g of None \<Rightarrow> [] | Some key \<Rightarrow> draft_chain (ng_table g) key limit)"

definition vote :: "nat \<Rightarrow> (nat \<times> nat) option \<Rightarrow> nat \<times> nat" where
  "vote token entry =
     (case (case entry of None \<Rightarrow> (token, 0) | Some e \<Rightarrow> e) of
        (t, n) \<Rightarrow> if t = token then (t, (n + 1) mod 2 ^ 32) else if n = 0 then (token, 1) else (t, n - 1))"

definition ngram_observe :: "nat \<Rightarrow> ngram \<Rightarrow> ngram" where
  "ngram_observe token g =
     (let table = (case last_two g of
          None \<Rightarrow> ng_table g
        | Some key \<Rightarrow> (ng_table g)(key \<mapsto> vote token (ng_table g key))) in
      g\<lparr>ng_table := table,
        ng_buf := (ng_buf g)[ng_head g := token],
        ng_head := (ng_head g + 1) mod ngram_history,
        ng_len := (if ng_len g < ngram_history then ng_len g + 1 else ng_len g)\<rparr>)"

section \<open>Prompt lookup\<close>

record pld =
  pl_buf :: "nat list"
  pl_min :: nat
  pl_max :: nat

definition pld_new :: pld where
  "pld_new = \<lparr>pl_buf = [], pl_min = 1, pl_max = 3\<rparr>"

definition with_ngram_range :: "nat \<Rightarrow> nat \<Rightarrow> pld" where
  "with_ngram_range lo hi = \<lparr>pl_buf = [], pl_min = max lo 1, pl_max = max hi (max lo 1)\<rparr>"

fun scan_left :: "nat list \<Rightarrow> nat list \<Rightarrow> nat \<Rightarrow> nat option" where
  "scan_left hay needle i =
     (if take (length needle) (drop i hay) = needle then Some (i + length needle)
      else case i of 0 \<Rightarrow> None | Suc j \<Rightarrow> scan_left hay needle j)"

declare scan_left.simps [simp del]

definition find_match :: "pld \<Rightarrow> nat list \<Rightarrow> nat \<Rightarrow> nat option" where
  "find_match p needle tail_exclusive =
     (let hay = take tail_exclusive (pl_buf p) in
      if needle = [] \<or> length hay < length needle then None
      else scan_left hay needle (length hay - length needle))"

text \<open>The needle lengths from the longest down; \<open>n\<close> lengths are left, the largest first.\<close>

fun try_needles :: "pld \<Rightarrow> nat \<Rightarrow> nat list \<Rightarrow> nat list" where
  "try_needles p limit [] = []"
| "try_needles p limit (n # ns) =
     (let len = length (pl_buf p) in
      if len < n then try_needles p limit ns
      else let needle_start = len - n; needle = drop needle_start (pl_buf p) in
        case find_match p needle needle_start of
          Some match_end \<Rightarrow>
            let amount = min limit (len - match_end) in
            if amount = 0 then try_needles p limit ns else take amount (drop match_end (pl_buf p))
        | None \<Rightarrow> try_needles p limit ns)"

definition pld_draft :: "nat \<Rightarrow> pld \<Rightarrow> nat list" where
  "pld_draft limit p = try_needles p limit (rev [pl_min p..<Suc (pl_max p)])"

definition pld_observe :: "nat \<Rightarrow> pld \<Rightarrow> pld" where
  "pld_observe token p = p\<lparr>pl_buf := pl_buf p @ [token]\<rparr>"

definition pld_seed_prompt :: "nat list \<Rightarrow> pld \<Rightarrow> pld" where
  "pld_seed_prompt prompt p = p\<lparr>pl_buf := pl_buf p @ prompt\<rparr>"

section \<open>All predictors\<close>

datatype speculative_mode = Off | Ngram | Pld | Lookahead | Eagle3 string

definition from_str_opt :: "string \<Rightarrow> speculative_mode option" where
  "from_str_opt s =
     (let t = to_ascii_lowercase s in
      if t \<in> set [''off'', ''none'', ''disabled'', ''0''] then Some Off
      else if t \<in> set [''ngram'', ''n-gram'', ''trigram''] then Some Ngram
      else if t \<in> set [''pld'', ''prompt_lookup'', ''lookup''] then Some Pld
      else if t \<in> set [''lookahead'', ''hybrid'', ''both'', ''default''] then Some Lookahead
      else if starts_with t ''eagle3:'' then Some (Eagle3 (drop 7 t))
      else None)"

datatype predictor = Noop | NgramP ngram | PldP pld | Hybrid ngram pld | Eagle3Placeholder string

fun build_predictor :: "speculative_mode \<Rightarrow> predictor" where
  "build_predictor Off = Noop"
| "build_predictor Ngram = NgramP ngram_new"
| "build_predictor Pld = PldP pld_new"
| "build_predictor Lookahead = Hybrid ngram_new pld_new"
| "build_predictor (Eagle3 model_path) = Eagle3Placeholder model_path"

fun draft :: "nat \<Rightarrow> predictor \<Rightarrow> nat list" where
  "draft limit Noop = []"
| "draft limit (NgramP g) = ngram_draft limit g"
| "draft limit (PldP p) = pld_draft limit p"
| "draft limit (Hybrid g p) =
     (let a = ngram_draft limit g; b = pld_draft limit p in if length a \<le> length b then b else a)"
| "draft limit (Eagle3Placeholder m) = []"

fun observe :: "nat \<Rightarrow> predictor \<Rightarrow> predictor" where
  "observe t (NgramP g) = NgramP (ngram_observe t g)"
| "observe t (PldP p) = PldP (pld_observe t p)"
| "observe t (Hybrid g p) = Hybrid (ngram_observe t g) (pld_observe t p)"
| "observe t p = p"

fun seed_prompt :: "nat list \<Rightarrow> predictor \<Rightarrow> predictor" where
  "seed_prompt ts (PldP p) = PldP (pld_seed_prompt ts p)"
| "seed_prompt ts (Hybrid g p) = Hybrid g (pld_seed_prompt ts p)"
| "seed_prompt ts p = p"

definition predictor_name :: "predictor \<Rightarrow> string" where
  "predictor_name p =
     (case p of Noop \<Rightarrow> ''off'' | NgramP _ \<Rightarrow> ''ngram'' | PldP _ \<Rightarrow> ''pld'' | Hybrid _ _ \<Rightarrow> ''hybrid''
      | Eagle3Placeholder _ \<Rightarrow> ''eagle3_placeholder'')"

section \<open>The ring is the recent history\<close>

text \<open>After the tokens \<open>xs\<close>, the ring holds the last \<open>1024\<close> of them behind the head.\<close>

definition ring_of :: "nat list \<Rightarrow> ngram \<Rightarrow> bool" where
  "ring_of xs g \<longleftrightarrow>
     length (ng_buf g) = ngram_history \<and> ng_head g = length xs mod ngram_history
     \<and> ng_len g = min (length xs) ngram_history
     \<and> (\<forall>i < length xs. length xs \<le> i + ngram_history \<longrightarrow> ng_buf g ! (i mod ngram_history) = xs ! i)"

lemma ring_new: "ring_of [] ngram_new"
  by (simp add: ring_of_def ngram_new_def)

lemma mod_near:
  assumes "a mod m = b mod m" "a < b + m" "b < a + m" "(0::nat) < m"
  shows "a = b"
proof -
  have "a = b" if "a \<le> b" "b < a + m" "a mod m = b mod m" for a b :: nat
    using that by (metis add_diff_cancel_left' diff_is_0_eq le_Suc_ex less_add_eq_less mod_eq_dvd_iff_nat
        nat_add_left_cancel_less nat_dvd_not_less neq0_conv add.right_neutral)
  then show ?thesis using assms by (metis nat_le_linear)
qed

lemma ring_observe: "ring_of xs g \<Longrightarrow> ring_of (xs @ [t]) (ngram_observe t g)"
proof -
  assume g: "ring_of xs g"
  have m: "0 < ngram_history" by (simp add: ngram_history_def)
  have "(ng_buf g)[length xs mod ngram_history := t] ! (i mod ngram_history) = (xs @ [t]) ! i"
    if i: "i < Suc (length xs)" "Suc (length xs) \<le> i + ngram_history" for i
  proof (cases "i = length xs")
    case True
    then show ?thesis using g m by (simp add: ring_of_def)
  next
    case False
    then have lt: "i < length xs" using i by simp
    have "i mod ngram_history \<noteq> length xs mod ngram_history"
      using mod_near [of i ngram_history "length xs"] i lt m by auto
    then show ?thesis using g i lt by (simp add: ring_of_def nth_append)
  qed
  then show ?thesis using g m
    by (auto simp: ring_of_def ngram_observe_def Let_def mod_Suc_eq less_Suc_eq)
qed

lemma ring_last_two:
  assumes "ring_of xs g"
  shows "last_two g = (if length xs < 2 then None else Some (xs ! (length xs - 2), xs ! (length xs - 1)))"
proof (cases "length xs < 2")
  case True
  then show ?thesis using assms by (auto simp: last_two_def ring_of_def ngram_history_def)
next
  case False
  let ?n = "length xs" let ?m = "ngram_history" let ?a = "min ?n ?m"
  have m: "?m = 1024" by (simp add: ngram_history_def)
  have a: "2 \<le> ?a" "?a \<le> ?m" "?a \<le> ?n" using False by (auto simp: m)
  have at: "(?n mod ?m + ?m - ?a + (?a - 2 + i)) mod ?m = (?n - 2 + i) mod ?m" for i
  proof -
    have "(?n mod ?m + ?m - ?a + (?a - 2 + i)) mod ?m = (?n mod ?m + (?m - 2 + i)) mod ?m" using a m by (simp add: algebra_simps)
    also have "\<dots> = (?n + (?m - 2 + i)) mod ?m" by (simp add: mod_add_left_eq)
    also have "\<dots> = (?n - 2 + i + ?m) mod ?m" using False m by (simp add: algebra_simps)
    finally show ?thesis by simp
  qed
  have "ng_buf g ! ((?n - 2 + i) mod ?m) = xs ! (?n - 2 + i)" if "i < 2" for i
    using assms that False m by (auto simp: ring_of_def)
  then have two: "ng_buf g ! ((?n mod ?m + ?m - ?a + (?a - 2 + i)) mod ?m) = xs ! (?n - 2 + i)" if "i < 2" for i
    using that by (simp only: at)
  have "ng_head g = ?n mod ?m" "ng_len g = ?a" "min ?a ?m = ?a" "(?a < 2) = False" using assms a by (auto simp: ring_of_def)
  then have "last_two g = Some (xs ! (?n - 2 + 0), xs ! (?n - 2 + 1))"
    using two [of 0] two [of 1] by (simp only: last_two_def Let_def if_False)
  moreover have "?n - 2 + 1 = ?n - 1" using False by simp
  ultimately show ?thesis using False by simp
qed

section \<open>The vote\<close>

text \<open>
  The table entry of a context is a majority vote over what followed it: whatever was counted, a
  token that is not the candidate has at most half of what the counter does not hold.\<close>

definition votes_ok :: "nat list \<Rightarrow> (nat \<times> nat) option \<Rightarrow> bool" where
  "votes_ok ys e \<longleftrightarrow>
     (case e of
        None \<Rightarrow> ys = []
      | Some (c, k) \<Rightarrow> ys \<noteq> [] \<and> k \<le> length ys
          \<and> (\<forall>x. x \<noteq> c \<longrightarrow> 2 * count_list ys x + k \<le> length ys) \<and> 2 * count_list ys c \<le> length ys + k)"

lemma votes_step:
  assumes votes: "votes_ok ys e" and few: "length ys < 2 ^ 32 - 1"
  shows "votes_ok (ys @ [t]) (Some (vote t e))"
proof (cases e)
  case (Some p)
  obtain c k where p: "p = (c, k)" by (cases p)
  from votes have A: "\<And>x. x \<noteq> c \<Longrightarrow> 2 * count_list ys x + k \<le> length ys" and B: "2 * count_list ys c \<le> length ys + k"
    and K: "k \<le> length ys" by (auto simp: Some p votes_ok_def)
  consider "t = c" | "t \<noteq> c" "k = 0" | "t \<noteq> c" "0 < k" by blast
  then show ?thesis
  proof cases
    case 1
    moreover have "(k + 1) mod 2 ^ 32 = k + 1" using K few by simp
    ultimately show ?thesis using A B K by (simp add: Some p votes_ok_def vote_def)
  next
    case 2
    then have "2 * count_list ys x \<le> length ys" for x using A [of x] B by (cases "x = c") auto
    then show ?thesis using 2 by (simp add: Some p votes_ok_def vote_def)
  next
    case 3
    then have "2 * count_list ys x + (k - 1) \<le> length ys" "2 * count_list ys t + 2 + (k - 1) \<le> Suc (length ys)" if "x \<noteq> c" for x
      using A [OF that] A [of t] by auto
    then show ?thesis using 3 B K by (auto simp: Some p votes_ok_def vote_def le_SucI)
  qed
qed (use votes in \<open>simp add: votes_ok_def vote_def\<close>)

fun successors :: "nat \<times> nat \<Rightarrow> nat list \<Rightarrow> nat list" where
  "successors key (a # b # c # xs) = (if key = (a, b) then c # successors key (b # c # xs) else successors key (b # c # xs))"
| "successors key xs = []"

lemma successors_snoc:
  "successors key (xs @ [t]) =
     successors key xs @ (if 2 \<le> length xs \<and> key = (xs ! (length xs - 2), xs ! (length xs - 1)) then [t] else [])"
proof (induction key xs rule: successors.induct)
  case (1 key a b c xs)
  have "(a # b # c # xs) ! (length (a # b # c # xs) - j) = (b # c # xs) ! (length (b # c # xs) - j)" if "0 < j" "j \<le> 2" for j
    using that by (cases j) (auto simp: nth_Cons')
  from this [of 1] this [of 2] 1 show ?case by (simp split: if_splits)
qed (auto simp: nth_Cons')

lemma length_successors: "length (successors key ts) \<le> length ts"
proof (induction key ts rule: successors.induct)
  case (1 key a b c xs)
  then show ?case by (cases "key = (a, b)") (simp_all add: le_SucI)
qed simp_all

definition observe_all :: "nat list \<Rightarrow> ngram \<Rightarrow> ngram" where
  "observe_all ts g = foldl (\<lambda>g t. ngram_observe t g) g ts"

lemma observe_all_snoc [simp]: "observe_all (ts @ [t]) g = ngram_observe t (observe_all ts g)"
  by (simp add: observe_all_def)

lemma observed_ring: "ring_of ts (observe_all ts ngram_new)"
  by (induction ts rule: rev_induct) (simp_all add: ring_new ring_observe, simp add: observe_all_def ring_new)

lemma observed_votes:
  "length ts < 2 ^ 32 \<Longrightarrow> votes_ok (successors key ts) (ng_table (observe_all ts ngram_new) key)"
proof (induction ts rule: rev_induct)
  case Nil
  then show ?case by (simp add: observe_all_def ngram_new_def votes_ok_def)
next
  case (snoc t ts)
  have "last_two (observe_all ts ngram_new) = (if length ts < 2 then None else Some (ts ! (length ts - 2), ts ! (length ts - 1)))"
    by (rule ring_last_two [OF observed_ring])
  moreover have "length (successors key ts) < 2 ^ 32 - 1"
    using length_successors [of key ts] snoc.prems by simp
  ultimately show ?case using snoc votes_step [of "successors key ts"]
    by (auto simp: successors_snoc ngram_observe_def Let_def)
qed

text \<open>
  C22: The trigram predictor drafts the majority. If one token followed the current two-token context
  more than half of the times the output went through it, however long ago that was, the first
  drafted token is that one.  (The counts are 32 bits wide: fewer than \<^verbatim>\<open>2^32\<close> tokens were seen.)\<close>
theorem ngram_drafts_majority:
  assumes "2 \<le> length ts" "key = (ts ! (length ts - 2), ts ! (length ts - 1))"
    "length (successors key ts) < 2 * count_list (successors key ts) t" "0 < limit"
    "length ts < 2 ^ 32"
  shows "\<exists>rest. ngram_draft limit (observe_all ts ngram_new) = t # rest"
proof -
  let ?g = "observe_all ts ngram_new"
  have l: "last_two ?g = Some key" using ring_last_two [OF observed_ring, of ts] assms(1,2) by simp
  obtain c k where e: "ng_table ?g key = Some (c, k)"
    using observed_votes [OF assms(5), of key] assms(3) by (cases "ng_table ?g key") (auto simp: votes_ok_def)
  have "c = t" using observed_votes [OF assms(5), of key] assms(3) by (fastforce simp: e votes_ok_def)
  then show ?thesis using l e assms(4) by (cases limit) (auto simp: ngram_draft_def)
qed

lemma ngram_drafts_majority_witness:
  "\<exists>rest. ngram_draft 4 (observe_all [1, 2, 3, 1, 2, 3, 1, 2, 4, 1, 2] ngram_new) = 3 # rest"
  using ngram_drafts_majority [of "[1, 2, 3, 1, 2, 3, 1, 2, 4, 1, 2]" "(1, 2)" 3 4] by simp

text \<open>Short of a majority the candidate need not be the most frequent successor: here \<open>3\<close> followed
  twice, \<open>6\<close> once.\<close>

lemma vote_is_not_most_frequent:
  "count_list (successors (1, 2) [1, 2, 3, 1, 2, 3, 1, 2, 4, 1, 2, 5, 1, 2, 6, 1, 2]) 3 = 2
   \<and> map_option fst (foldl (\<lambda>e t. Some (vote t e)) None [3, 3, 4, 5, 6]) = Some 6"
  by (simp add: vote_def)

section \<open>Prompt lookup\<close>

definition same_at :: "nat list \<Rightarrow> nat list \<Rightarrow> nat \<Rightarrow> bool" where
  "same_at hay needle i \<longleftrightarrow> take (length needle) (drop i hay) = needle"

lemma scan_left_Some:
  "scan_left hay needle i = Some e \<Longrightarrow> \<exists>j \<le> i. e = j + length needle \<and> same_at hay needle j
     \<and> (\<forall>k. j < k \<and> k \<le> i \<longrightarrow> \<not> same_at hay needle k)"
proof (induction i)
  case 0
  then show ?case by (subst (asm) scan_left.simps) (auto simp: same_at_def split: if_splits)
next
  case (Suc i)
  show ?case
  proof (cases "same_at hay needle (Suc i)")
    case True
    then show ?thesis using Suc.prems by (subst (asm) scan_left.simps) (auto simp: same_at_def)
  next
    case False
    then have "scan_left hay needle i = Some e" using Suc.prems by (subst (asm) scan_left.simps) (auto simp: same_at_def)
    from Suc.IH [OF this] obtain j where "j \<le> i" "e = j + length needle" "same_at hay needle j"
      "\<forall>k. j < k \<and> k \<le> i \<longrightarrow> \<not> same_at hay needle k" by blast
    then show ?thesis using False by (intro exI [of _ j]) (auto simp: le_Suc_eq)
  qed
qed

lemma scan_left_None: "scan_left hay needle i = None \<Longrightarrow> k \<le> i \<Longrightarrow> \<not> same_at hay needle k"
proof (induction i)
  case 0
  then show ?case by (subst (asm) scan_left.simps) (auto simp: same_at_def split: if_splits)
next
  case (Suc i)
  have "\<not> same_at hay needle (Suc i)" "scan_left hay needle i = None"
    using Suc.prems(1) by (subst (asm) scan_left.simps, auto simp: same_at_def split: if_splits)+
  with Suc show ?case by (auto simp: le_Suc_eq)
qed

text \<open>The last \<open>n\<close> tokens also stand at \<open>j\<close>, before their own copy at the end.\<close>

definition earlier :: "nat list \<Rightarrow> nat \<Rightarrow> nat \<Rightarrow> bool" where
  "earlier buf n j \<longleftrightarrow> j + n \<le> length buf - n \<and> take n (drop j buf) = drop (length buf - n) buf"

lemma find_match_earlier:
  assumes "0 < n" "n \<le> length (pl_buf p)"
  shows "case find_match p (drop (length (pl_buf p) - n) (pl_buf p)) (length (pl_buf p) - n) of
      None \<Rightarrow> \<forall>j. \<not> earlier (pl_buf p) n j
    | Some e \<Rightarrow> \<exists>j. e = j + n \<and> earlier (pl_buf p) n j \<and> (\<forall>k. j < k \<longrightarrow> \<not> earlier (pl_buf p) n k)"
proof -
  let ?b = "pl_buf p" let ?t = "length ?b - n" let ?d = "drop ?t ?b"
  have d: "length ?d = n" "?d \<noteq> []" using assms by auto
  have same: "same_at (take ?t ?b) ?d j \<longleftrightarrow> earlier ?b n j" if "n \<le> ?t" "j \<le> ?t - n" for j
  proof -
    have "take n (drop j (take ?t ?b)) = take n (drop j ?b)" using that by (simp add: drop_take min_def)
    then show ?thesis using that d by (auto simp: same_at_def earlier_def)
  qed
  have far: "\<not> earlier ?b n j" if "\<not> (n \<le> ?t \<and> j \<le> ?t - n)" for j using that by (auto simp: earlier_def)
  show ?thesis
  proof (cases "n \<le> ?t")
    case False
    then show ?thesis using d far by (auto simp: find_match_def)
  next
    case True
    then have f: "find_match p ?d ?t = scan_left (take ?t ?b) ?d (?t - n)"
      using d by (simp add: find_match_def min_def)
    show ?thesis
    proof (cases "find_match p ?d ?t")
      case None
      then show ?thesis using scan_left_None [of "take ?t ?b" ?d "?t - n"] f same far True by auto
    next
      case (Some e)
      then obtain j where "j \<le> ?t - n" "e = j + n" "same_at (take ?t ?b) ?d j"
        "\<forall>k. j < k \<and> k \<le> ?t - n \<longrightarrow> \<not> same_at (take ?t ?b) ?d k"
        using scan_left_Some [of "take ?t ?b" ?d "?t - n" e] f d by auto
      then have "e = j + n \<and> earlier ?b n j \<and> (\<forall>k. j < k \<longrightarrow> \<not> earlier ?b n k)"
        using same far True by (metis le_trans)
      then show ?thesis using Some by auto
    qed
  qed
qed

lemma earlier_le: "earlier buf n j \<Longrightarrow> 0 < n \<Longrightarrow> n \<le> length buf"
  by (auto simp: earlier_def)

lemma try_needles_spec:
  "0 < limit \<Longrightarrow> \<forall>n \<in> set ns. 0 < n \<Longrightarrow>
   try_needles p limit ns = [] \<and> (\<forall>n \<in> set ns. \<forall>j. \<not> earlier (pl_buf p) n j)
   \<or> (\<exists>us n vs j. ns = us @ n # vs \<and> (\<forall>m \<in> set us. \<forall>k. \<not> earlier (pl_buf p) m k)
        \<and> earlier (pl_buf p) n j \<and> (\<forall>k. j < k \<longrightarrow> \<not> earlier (pl_buf p) n k)
        \<and> try_needles p limit ns = take limit (drop (j + n) (pl_buf p)) \<and> try_needles p limit ns \<noteq> [])"
proof (induction ns)
  case (Cons n ns)
  let ?b = "pl_buf p" let ?t = "length ?b - n"
  have skip: ?case if none: "\<forall>j. \<not> earlier ?b n j" and same: "try_needles p limit (n # ns) = try_needles p limit ns"
  proof -
    from Cons.IH Cons.prems consider
      "try_needles p limit ns = []" "\<forall>n \<in> set ns. \<forall>j. \<not> earlier ?b n j"
      | us m vs j where "ns = us @ m # vs" "\<forall>m \<in> set us. \<forall>k. \<not> earlier ?b m k" "earlier ?b m j"
        "\<forall>k. j < k \<longrightarrow> \<not> earlier ?b m k" "try_needles p limit ns = take limit (drop (j + m) ?b)" "try_needles p limit ns \<noteq> []"
      by auto
    then show ?thesis
    proof cases
      case 1
      then show ?thesis using none same by simp
    next
      case 2
      then show ?thesis using none same
        by (intro disjI2 exI [of _ "n # us"] exI [of _ m] exI [of _ vs] exI [of _ j]) simp
    qed
  qed
  show ?case
  proof (cases "length ?b < n")
    case True
    have "\<forall>j. \<not> earlier ?b n j" using earlier_le [of ?b n] Cons.prems(2) True by fastforce
    moreover have "try_needles p limit (n # ns) = try_needles p limit ns" using True by (simp add: Let_def)
    ultimately show ?thesis by (rule skip)
  next
    case False
    then have f: "case find_match p (drop ?t ?b) ?t of None \<Rightarrow> \<forall>j. \<not> earlier ?b n j
        | Some e \<Rightarrow> \<exists>j. e = j + n \<and> earlier ?b n j \<and> (\<forall>k. j < k \<longrightarrow> \<not> earlier ?b n k)"
      using Cons.prems(2) by (intro find_match_earlier) auto
    show ?thesis
    proof (cases "find_match p (drop ?t ?b) ?t")
      case None
      then show ?thesis using f False by (intro skip) (auto simp: Let_def)
    next
      case (Some e)
      then obtain j where j: "e = j + n" "earlier ?b n j" "\<forall>k. j < k \<longrightarrow> \<not> earlier ?b n k" using f by auto
      have lt: "e < length ?b" using j Cons.prems(2) False by (auto simp: earlier_def)
      then have "try_needles p limit (n # ns) = take limit (drop e ?b)"
        using Some False Cons.prems(1) by (simp add: Let_def min_def)
      moreover have "take limit (drop e ?b) \<noteq> []" using lt Cons.prems(1) by simp
      ultimately show ?thesis using j
        by (intro disjI2 exI [of _ "[]"] exI [of _ n] exI [of _ ns] exI [of _ j]) simp
    qed
  qed
qed simp

text \<open>
  C23: Prompt lookup drafts what followed the latest earlier copy of the longest repeated ending. If
  the buffer's last \<open>n\<close> tokens, with \<open>n\<close> in the range, stand earlier in it, the draft continues the
  latest such copy for the largest such \<open>n\<close>; otherwise there is no draft.\<close>
theorem pld_drafts_longest_repeat:
  assumes "0 < limit" "0 < pl_min p"
  shows "pld_draft limit p = [] \<and> (\<forall>n j. pl_min p \<le> n \<and> n \<le> pl_max p \<longrightarrow> \<not> earlier (pl_buf p) n j)
    \<or> (\<exists>n j. pl_min p \<le> n \<and> n \<le> pl_max p \<and> earlier (pl_buf p) n j \<and> (\<forall>k. j < k \<longrightarrow> \<not> earlier (pl_buf p) n k)
        \<and> (\<forall>m k. n < m \<and> m \<le> pl_max p \<longrightarrow> \<not> earlier (pl_buf p) m k)
        \<and> pld_draft limit p = take limit (drop (j + n) (pl_buf p)) \<and> pld_draft limit p \<noteq> [])"
proof -
  let ?ns = "rev [pl_min p..<Suc (pl_max p)]" let ?b = "pl_buf p"
  have pos: "\<forall>n \<in> set ?ns. 0 < n" using assms(2) by auto
  have range: "n \<in> set ?ns \<longleftrightarrow> pl_min p \<le> n \<and> n \<le> pl_max p" for n by auto
  have desc: "sorted_wrt (>) ?ns" by (simp add: sorted_wrt_rev sorted_wrt_upt del: upt_Suc)
  from try_needles_spec [OF assms(1) pos, of p] consider
    "pld_draft limit p = []" "\<forall>n \<in> set ?ns. \<forall>j. \<not> earlier ?b n j"
    | us n vs j where "?ns = us @ n # vs" "\<forall>m \<in> set us. \<forall>k. \<not> earlier ?b m k" "earlier ?b n j"
      "\<forall>k. j < k \<longrightarrow> \<not> earlier ?b n k" "pld_draft limit p = take limit (drop (j + n) ?b)" "pld_draft limit p \<noteq> []"
    unfolding pld_draft_def by blast
  then show ?thesis
  proof cases
    case 1
    then show ?thesis using range by blast
  next
    case 2
    have n: "n \<in> set ?ns" unfolding 2(1) by simp
    have "m \<in> set us" if m: "n < m" "m \<le> pl_max p" for m
    proof -
      have "m \<in> set ?ns" using m n range [of n] range [of m] by linarith
      moreover have "m \<notin> set vs" using desc m unfolding 2(1) by (auto simp: sorted_wrt_append)
      ultimately show ?thesis using m(1) unfolding 2(1) by auto
    qed
    then have "\<forall>m k. n < m \<and> m \<le> pl_max p \<longrightarrow> \<not> earlier ?b m k" using 2(2) by blast
    then show ?thesis using 2 n range [of n] by blast
  qed
qed

lemma pld_drafts_longest_repeat_witness:
  "pld_draft 2 (pld_seed_prompt [1, 2, 3, 4, 1, 2] pld_new) \<noteq> []"
proof -
  let ?p = "pld_seed_prompt [1, 2, 3, 4, 1, 2] pld_new"
  have "earlier (pl_buf ?p) 2 0" by (simp add: earlier_def pld_seed_prompt_def pld_new_def)
  moreover have "pl_min ?p = 1" "pl_max ?p = 3" by (simp_all add: pld_seed_prompt_def pld_new_def)
  ultimately show ?thesis using pld_drafts_longest_repeat [of 2 ?p] by auto
qed

lemma draft_chain_length: "length (draft_chain table key n) \<le> n"
  by (induction n arbitrary: key) (auto split: option.split)

lemma try_needles_length: "length (try_needles p limit ns) \<le> limit"
  by (induction ns) (auto simp: Let_def split: option.split)

text \<open>No predictor drafts more than it is asked for.\<close>

lemma draft_bounded: "length (draft limit p) \<le> limit"
  using draft_chain_length try_needles_length
  by (cases p) (auto simp: ngram_draft_def pld_draft_def Let_def split: option.split)

end
