(* ===== verification/Session.thy ===== *)
theory Session
  imports Gguf Zoo Message
begin

text \<open>
  The session (\<^verbatim>\<open>src/api/session.rs\<close>, with the tool sets of \<^verbatim>\<open>src/api/tool_defs.rs\<close>): an
  append-only log of events, the instruction state, message records and active projection that are
  replayed from it, the rule that a projection never splits a tool round, and the bookkeeping about
  the engines that hold a copy.  An operation takes the session and returns it changed; a refusal is
  an \<open>Inl\<close>.  Message ids are natural numbers.  \<open>w\<close> has the two serializers of the JSON library: they
  are only hashed here.  A lookup by id indexes the records through \<open>se_index\<close> and panics on an id
  that is not in it; \<open>session_ok\<close> below shows that no operation looks up such an id.
\<close>

section \<open>Tool sets\<close>

record tool_definition =
  td_name :: string
  td_description :: string
  td_schema :: json_value

type_synonym tool_set = "tool_definition list"

fun toolset_add :: "tool_definition \<Rightarrow> tool_set \<Rightarrow> tool_set" where
  "toolset_add t [] = [t]"
| "toolset_add t (u # us) = (if td_name u = td_name t then t # us else u # toolset_add t us)"

fun toolset_remove :: "string \<Rightarrow> tool_set \<Rightarrow> tool_definition option \<times> tool_set" where
  "toolset_remove n [] = (None, [])"
| "toolset_remove n (u # us) =
     (if td_name u = n then (Some u, us) else (let (r, vs) = toolset_remove n us in (r, u # vs)))"

definition toolset_get :: "string \<Rightarrow> tool_set \<Rightarrow> tool_definition option" where
  "toolset_get n ts = find (\<lambda>t. td_name t = n) ts"

definition toolset_from :: "tool_definition list \<Rightarrow> tool_set" where
  "toolset_from ts = foldl (\<lambda>set t. toolset_add t set) [] ts"

section \<open>Digests\<close>

record session_wire =
  sw_json :: "json_value \<Rightarrow> string"
  sw_message :: "message \<Rightarrow> string option"

definition fnv_offset :: "64 word" where
  "fnv_offset = 0xcbf29ce484222325"

definition fnv_prime :: "64 word" where
  "fnv_prime = 0x100000001b3"

definition fnv_byte :: "64 word \<Rightarrow> char \<Rightarrow> 64 word" where
  "fnv_byte h b = (xor h (word_of_nat (of_char b))) * fnv_prime"

definition fnv_feed :: "64 word \<Rightarrow> string \<Rightarrow> 64 word" where
  "fnv_feed h bytes = (xor (foldl fnv_byte h bytes) 0xff) * fnv_prime"

definition fnv :: "string list \<Rightarrow> 64 word" where
  "fnv parts = foldl fnv_feed fnv_offset parts"

definition le_u64 :: "nat \<Rightarrow> string" where
  "le_u64 n = enc_le 8 n"

definition message_fields :: "session_wire \<Rightarrow> nat \<Rightarrow> message \<Rightarrow> string list" where
  "message_fields w i m =
     le_u64 i # (case sw_message w m of Some bytes \<Rightarrow> [bytes] | None \<Rightarrow> [msg_role m, message_text m])"

definition toolset_fingerprint :: "session_wire \<Rightarrow> tool_set \<Rightarrow> 64 word" where
  "toolset_fingerprint w ts = fnv (concat (map (\<lambda>t. [td_name t, td_description t, sw_json w (td_schema t)]) ts))"

section \<open>The state\<close>

datatype session_event =
    SystemSet "string option"
  | ToolsSet tool_set
  | MessageAdded nat message
  | MessageReplaced nat nat message
  | MessageRemoved nat
  | MessageRecorded nat message
  | ContextReplaced "nat list" "string option"
  | Forked string "nat option"

datatype session_error =
    UnknownMessage nat
  | NotActive nat
  | DuplicateMessage nat
  | OrphanResult string
  | UnansweredCall string

record stored_record =
  sr_id :: nat
  sr_message :: message
  sr_replaced_by :: "nat option"

record binding =
  bi_opened :: bool
  bi_tools :: "64 word option"
  bi_generation :: "nat option"
  bi_thinking :: "thinking_mode option"
  bi_prefix :: "64 word option"
  bi_own_reply :: bool

record session =
  se_id :: string
  se_events :: "session_event list"
  se_revision :: nat
  se_system :: "string option"
  se_tools :: tool_set
  se_records :: "stored_record list"
  se_index :: "nat \<rightharpoonup> nat"
  se_active :: "nat list"
  se_projection :: "message list"
  se_next_id :: nat
  se_opened :: bool
  se_shed :: nat
  se_tools_fingerprint :: "64 word option"
  se_generation :: "nat option"
  se_thinking :: "thinking_mode option"
  se_prefix :: "64 word option"
  se_own_reply :: bool
  se_offered :: "64 word"
  se_bound :: "nat option"
  se_parked :: "nat \<rightharpoonup> binding"
  se_fingerprint :: "64 word"

definition blank :: "string \<Rightarrow> session" where
  "blank sid =
     \<lparr>se_id = sid, se_events = [], se_revision = 0, se_system = None, se_tools = [], se_records = [],
      se_index = Map.empty, se_active = [], se_projection = [], se_next_id = 0, se_opened = False,
      se_shed = 0, se_tools_fingerprint = None, se_generation = None, se_thinking = None, se_prefix = None,
      se_own_reply = False, se_offered = 0, se_bound = None, se_parked = Map.empty, se_fingerprint = 0\<rparr>"

definition message_by :: "session \<Rightarrow> nat \<Rightarrow> message" where
  "message_by s i = sr_message (se_records s ! the (se_index s i))"

text \<open>\<^verbatim>\<open>Session::message\<close>: one record by id.\<close>

definition message_at :: "session \<Rightarrow> nat \<Rightarrow> message option" where
  "message_at s i = map_option (\<lambda>k. sr_message (se_records s ! k)) (se_index s i)"

definition all_messages :: "session \<Rightarrow> (nat \<times> message \<times> bool \<times> nat option) list" where
  "all_messages s =
     map (\<lambda>r. (sr_id r, sr_message r, sr_id r \<in> set (se_active s), sr_replaced_by r)) (se_records s)"

definition compute_fingerprint :: "session_wire \<Rightarrow> session \<Rightarrow> 64 word" where
  "compute_fingerprint w s =
     fnv ((case se_system s of Some t \<Rightarrow> [t] | None \<Rightarrow> [le_u64 0])
       @ [le_u64 (unat (toolset_fingerprint w (se_tools s)))]
       @ concat (map (\<lambda>(i, m). message_fields w i m) (zip (se_active s) (se_projection s))))"

definition moves_revision :: "session_event \<Rightarrow> bool" where
  "moves_revision e = (case e of MessageRecorded _ _ \<Rightarrow> False | _ \<Rightarrow> True)"

definition log_event :: "session_wire \<Rightarrow> session_event \<Rightarrow> session \<Rightarrow> session" where
  "log_event w e s =
     (let s1 = (if moves_revision e
                then s\<lparr>se_revision := Suc (se_revision s), se_fingerprint := compute_fingerprint w s\<rparr> else s)
      in s1\<lparr>se_events := se_events s1 @ [e]\<rparr>)"

definition mint :: "message \<Rightarrow> session \<Rightarrow> nat \<times> session" where
  "mint m s =
     (let i = se_next_id s in
      (i, s\<lparr>se_next_id := Suc i, se_index := (se_index s)(i \<mapsto> length (se_records s)),
            se_records := se_records s @ [\<lparr>sr_id = i, sr_message = m, sr_replaced_by = None\<rparr>]\<rparr>))"

definition record_message :: "session_wire \<Rightarrow> message \<Rightarrow> session \<Rightarrow> nat \<times> session" where
  "record_message w m s = (let (i, s1) = mint m s in (i, log_event w (MessageRecorded i m) s1))"

definition rebuild_projection :: "session_wire \<Rightarrow> session \<Rightarrow> session" where
  "rebuild_projection w s =
     (let s1 = s\<lparr>se_projection := map (message_by s) (se_active s)\<rparr> in s1\<lparr>se_fingerprint := compute_fingerprint w s1\<rparr>)"

definition after_projection_change :: "session_wire \<Rightarrow> session \<Rightarrow> session" where
  "after_projection_change w s = (rebuild_projection w s)\<lparr>se_opened := False\<rparr>"

definition set_active :: "session_wire \<Rightarrow> nat list \<Rightarrow> string \<Rightarrow> bool \<Rightarrow> session \<Rightarrow> session" where
  "set_active w active reason close s =
     (if active = se_active s then s
      else let s1 = log_event w (ContextReplaced active (Some reason)) (s\<lparr>se_active := active\<rparr>) in
        if close then after_projection_change w s1 else rebuild_projection w s1)"

section \<open>Instruction state\<close>

definition put_system :: "session_wire \<Rightarrow> string option \<Rightarrow> session \<Rightarrow> session" where
  "put_system w sys s =
     (if se_system s = sys then s
      else (log_event w (SystemSet sys) (s\<lparr>se_system := sys\<rparr>))\<lparr>se_opened := False\<rparr>)"

definition set_system :: "session_wire \<Rightarrow> string \<Rightarrow> session \<Rightarrow> session" where
  "set_system w t = put_system w (Some t)"

definition append_system :: "session_wire \<Rightarrow> string \<Rightarrow> session \<Rightarrow> session" where
  "append_system w t s = put_system w (Some ((case se_system s of Some x \<Rightarrow> x | None \<Rightarrow> []) @ t)) s"

definition clear_system :: "session_wire \<Rightarrow> session \<Rightarrow> session" where
  "clear_system w = put_system w None"

definition put_tools :: "session_wire \<Rightarrow> tool_set \<Rightarrow> session \<Rightarrow> session" where
  "put_tools w ts s =
     (if se_tools s = ts then s
      else (log_event w (ToolsSet ts) (s\<lparr>se_tools := ts\<rparr>))\<lparr>se_opened := False\<rparr>)"

definition add_tool :: "session_wire \<Rightarrow> tool_definition \<Rightarrow> session \<Rightarrow> session" where
  "add_tool w t s = put_tools w (toolset_add t (se_tools s)) s"

definition remove_tool :: "session_wire \<Rightarrow> string \<Rightarrow> session \<Rightarrow> bool \<times> session" where
  "remove_tool w n s = (let (r, ts) = toolset_remove n (se_tools s) in (r \<noteq> None, put_tools w ts s))"

section \<open>Tool rounds\<close>

definition calls_of :: "message \<Rightarrow> string list" where
  "calls_of m = (case msg_body m of ToolBody cs \<Rightarrow> map tc_id cs | _ \<Rightarrow> [])"

definition makes_call :: "message \<Rightarrow> string \<Rightarrow> bool" where
  "makes_call m c \<longleftrightarrow> c \<in> set (calls_of m)"

definition is_result :: "message \<Rightarrow> bool" where
  "is_result m \<longleftrightarrow> msg_role m = ''tool''"

fun attribute_legacy :: "(nat \<Rightarrow> message option) \<Rightarrow> string list \<Rightarrow> nat list \<Rightarrow> (nat \<times> string) list" where
  "attribute_legacy lk opn [] = []"
| "attribute_legacy lk opn (i # is) =
     (case lk i of
        None \<Rightarrow> attribute_legacy lk opn is
      | Some m \<Rightarrow>
          if calls_of m \<noteq> [] then attribute_legacy lk (calls_of m) is
          else if is_result m then
            (case msg_tool_call_id m of
               Some c \<Rightarrow> attribute_legacy lk (filter (\<lambda>x. x \<noteq> c) opn) is
             | None \<Rightarrow>
                 (case opn of
                    [] \<Rightarrow> (i, []) # attribute_legacy lk [] is
                  | x # xs \<Rightarrow> (i, x) # attribute_legacy lk xs is))
          else attribute_legacy lk opn is)"

text \<open>The forward walk: the calls declared and the calls answered, or the first orphan.\<close>

fun round_walk ::
  "(nat \<Rightarrow> message option) \<Rightarrow> string list \<Rightarrow> string list \<Rightarrow> string list \<Rightarrow> nat list
    \<Rightarrow> session_error + string list \<times> string list"
where
  "round_walk lk declared answered legacy [] = Inr (declared, answered)"
| "round_walk lk declared answered legacy (i # is) =
     (case lk i of
        None \<Rightarrow> round_walk lk declared answered legacy is
      | Some m \<Rightarrow>
          if calls_of m \<noteq> [] then round_walk lk (declared @ calls_of m) answered (calls_of m) is
          else if is_result m then
            (case msg_tool_call_id m of
               Some c \<Rightarrow>
                 if c \<notin> set declared then Inl (OrphanResult c)
                 else round_walk lk declared (answered @ [c]) (filter (\<lambda>x. x \<noteq> c) legacy) is
             | None \<Rightarrow>
                 (case legacy of
                    [] \<Rightarrow> Inl (OrphanResult [])
                  | x # xs \<Rightarrow> round_walk lk declared (answered @ [x]) xs is))
          else round_walk lk declared answered legacy is)"

definition answered_somewhere :: "stored_record list \<Rightarrow> string list" where
  "answered_somewhere rs =
     concat (map (\<lambda>r. if is_result (sr_message r)
                      then (case msg_tool_call_id (sr_message r) of Some c \<Rightarrow> [c] | None \<Rightarrow> []) else []) rs)"

definition check_rounds_over ::
  "(nat \<Rightarrow> message option) \<Rightarrow> nat list \<Rightarrow> stored_record list \<Rightarrow> session_error option" where
  "check_rounds_over lk ids rs =
     (case round_walk lk [] [] [] ids of
        Inl e \<Rightarrow> Some e
      | Inr (declared, answered) \<Rightarrow>
          map_option UnansweredCall
            (find (\<lambda>c. c \<notin> set answered \<and> c \<in> set (answered_somewhere rs)) declared))"

definition lookup_with :: "session \<Rightarrow> (nat \<times> message) list \<Rightarrow> nat \<Rightarrow> message option" where
  "lookup_with s staged i =
     (case find (\<lambda>(k, m). k = i) staged of Some (k, m) \<Rightarrow> Some m | None \<Rightarrow> message_at s i)"

definition check_rounds :: "session \<Rightarrow> nat list \<Rightarrow> (nat \<times> message) option \<Rightarrow> session_error option" where
  "check_rounds s ids staged =
     check_rounds_over (lookup_with s (case staged of Some x \<Rightarrow> [x] | None \<Rightarrow> [])) ids (se_records s)"

text \<open>What \<^verbatim>\<open>trim_to_round_boundary\<close> drops for a violation.\<close>

definition dropped_for :: "session \<Rightarrow> nat list \<Rightarrow> session_error \<Rightarrow> nat list" where
  "dropped_for s ids e =
     (case e of
        OrphanResult c \<Rightarrow>
          if c = [] then
            (case find (\<lambda>(i, a). a = []) (attribute_legacy (lookup_with s []) [] ids) of
               Some (i, a) \<Rightarrow> [i] | None \<Rightarrow> [])
          else filter (\<lambda>i. is_result (message_by s i) \<and> msg_tool_call_id (message_by s i) = Some c) ids
      | UnansweredCall c \<Rightarrow> filter (\<lambda>i. makes_call (message_by s i) c) ids
      | _ \<Rightarrow> [])"

lemma attribute_legacy_ids: "(i, a) \<in> set (attribute_legacy lk opn is) \<Longrightarrow> i \<in> set is"
  by (induction lk opn "is" rule: attribute_legacy.induct) (auto split: option.splits if_splits list.splits)

lemma find_in: "find P xs = Some x \<Longrightarrow> x \<in> set xs \<and> P x"
  by (auto simp: find_Some_iff)

lemma dropped_for_ids: "set (dropped_for s ids e) \<subseteq> set ids"
  by (auto simp: dropped_for_def split: session_error.splits option.splits dest!: sym [of "Some _"] find_in dest: attribute_legacy_ids)

function trim_to_round_boundary :: "session \<Rightarrow> nat list \<Rightarrow> nat list" where
  "trim_to_round_boundary s ids =
     (case check_rounds_over (lookup_with s []) ids (se_records s) of
        None \<Rightarrow> ids
      | Some e \<Rightarrow>
          if dropped_for s ids e = [] then ids
          else trim_to_round_boundary s (filter (\<lambda>i. i \<notin> set (dropped_for s ids e)) ids))"
  by pat_completeness auto
termination
proof (relation "measure (\<lambda>(s, ids). length ids)")
  fix s ids e assume "dropped_for s ids e \<noteq> []"
  then have "\<exists>i \<in> set ids. i \<in> set (dropped_for s ids e)"
    using dropped_for_ids [of s ids e] by (metis list.set_sel(1) subsetD)
  then show "((s, filter (\<lambda>i. i \<notin> set (dropped_for s ids e)) ids), (s, ids)) \<in> measure (\<lambda>(s, ids). length ids)"
    by (auto intro!: length_filter_less)
qed simp

declare trim_to_round_boundary.simps [simp del]

section \<open>Appending and editing\<close>

definition push_message :: "session_wire \<Rightarrow> message \<Rightarrow> session \<Rightarrow> nat \<times> session" where
  "push_message w m s =
     (let (i, s1) = mint m s in
      (i, log_event w (MessageAdded i m)
            (s1\<lparr>se_active := se_active s1 @ [i], se_projection := se_projection s1 @ [m]\<rparr>)))"

definition push_tool_result :: "session_wire \<Rightarrow> string \<Rightarrow> string \<Rightarrow> session \<Rightarrow> nat \<times> session" where
  "push_tool_result w c t = push_message w (tool_result_for c t)"

text \<open>\<^verbatim>\<open>position\<close> of an element.\<close>

fun position_of :: "'a \<Rightarrow> 'a list \<Rightarrow> nat option" where
  "position_of x [] = None"
| "position_of x (y # ys) = (if y = x then Some 0 else map_option Suc (position_of x ys))"

definition active_slot :: "session \<Rightarrow> nat \<Rightarrow> session_error + nat" where
  "active_slot s i =
     (if se_index s i = None then Inl (UnknownMessage i)
      else case position_of i (se_active s) of Some k \<Rightarrow> Inr k | None \<Rightarrow> Inl (NotActive i))"

definition mark_replaced :: "nat \<Rightarrow> nat \<Rightarrow> session \<Rightarrow> session" where
  "mark_replaced old new s =
     (let k = the (se_index s old) in
      s\<lparr>se_records := (se_records s)[k := (se_records s ! k)\<lparr>sr_replaced_by := Some new\<rparr>]\<rparr>)"

definition replace_message :: "session_wire \<Rightarrow> nat \<Rightarrow> message \<Rightarrow> session \<Rightarrow> session_error + nat \<times> session" where
  "replace_message w old m s =
     (case active_slot s old of
        Inl e \<Rightarrow> Inl e
      | Inr slot \<Rightarrow>
          let active = (se_active s)[slot := se_next_id s] in
          case check_rounds s active (Some (se_next_id s, m)) of
            Some e \<Rightarrow> Inl e
          | None \<Rightarrow>
              let (new, s1) = mint m s;
                  s2 = (mark_replaced old new s1)\<lparr>se_active := active\<rparr> in
              Inr (new, after_projection_change w (log_event w (MessageReplaced old new m) s2)))"

definition remove_at :: "nat \<Rightarrow> 'a list \<Rightarrow> 'a list" where
  "remove_at k xs = take k xs @ drop (Suc k) xs"

definition remove_message :: "session_wire \<Rightarrow> nat \<Rightarrow> session \<Rightarrow> session_error + session" where
  "remove_message w i s =
     (case active_slot s i of
        Inl e \<Rightarrow> Inl e
      | Inr slot \<Rightarrow>
          let active = remove_at slot (se_active s) in
          case check_rounds s active None of
            Some e \<Rightarrow> Inl e
          | None \<Rightarrow>
              Inr (after_projection_change w (log_event w (MessageRemoved i) (s\<lparr>se_active := active\<rparr>))))"

fun record_all :: "session_wire \<Rightarrow> message list \<Rightarrow> session \<Rightarrow> nat list \<times> session" where
  "record_all w [] s = ([], s)"
| "record_all w (m # ms) s =
     (let (i, s1) = record_message w m s; (is, s2) = record_all w ms s1 in (i # is, s2))"

definition replace_messages :: "session_wire \<Rightarrow> message list \<Rightarrow> session \<Rightarrow> session_error + session" where
  "replace_messages w ms s =
     (let ids = map (\<lambda>k. se_next_id s + k) [0..<length ms] in
      case check_rounds_over (lookup_with s (zip ids ms)) ids (se_records s) of
        Some e \<Rightarrow> Inl e
      | None \<Rightarrow>
          (let (ids', s1) = record_all w ms s in Inr (set_active w ids' ''replace_messages'' True s1)))"

fun check_known :: "session \<Rightarrow> nat list \<Rightarrow> nat list \<Rightarrow> session_error option" where
  "check_known s seen [] = None"
| "check_known s seen (i # is) =
     (if se_index s i = None then Some (UnknownMessage i)
      else if i \<in> set seen then Some (DuplicateMessage i)
      else check_known s (i # seen) is)"

definition restore_context :: "session_wire \<Rightarrow> nat list \<Rightarrow> session \<Rightarrow> session_error + session" where
  "restore_context w ids s =
     (case check_known s [] ids of
        Some e \<Rightarrow> Inl e
      | None \<Rightarrow>
          (case check_rounds s ids None of
             Some e \<Rightarrow> Inl e
           | None \<Rightarrow> Inr (set_active w ids ''restore_context'' True s)))"

text \<open>
  Ids for an edited projection; \<open>rest\<close> is the active list from the cursor on.  Messages are compared
  by their fields (samples by their bits).
\<close>

fun ids_for_edited :: "session_wire \<Rightarrow> nat list \<Rightarrow> message list \<Rightarrow> session \<Rightarrow> nat list \<times> session" where
  "ids_for_edited w rest [] s = ([], s)"
| "ids_for_edited w rest (m # ms) s =
     (case position_of m (map (message_by s) rest) of
        Some k \<Rightarrow> (let (is, s1) = ids_for_edited w (drop (Suc k) rest) ms s in (rest ! k # is, s1))
      | None \<Rightarrow>
          (let (i, s1) = record_message w m s; (is, s2) = ids_for_edited w rest ms s1 in (i # is, s2)))"

definition edit_session :: "session_wire \<Rightarrow> (message list \<Rightarrow> message list) \<Rightarrow> session \<Rightarrow> session" where
  "edit_session w f s =
     (let (ids, s1) = ids_for_edited w (se_active s) (f (se_projection s)) s;
          ids' = trim_to_round_boundary s1 ids in
      if ids' \<noteq> se_active s1 then set_active w ids' ''edit'' True s1 else s1\<lparr>se_opened := False\<rparr>)"

definition clear_session :: "session_wire \<Rightarrow> session \<Rightarrow> session" where
  "clear_session w s =
     (let s1 = (if se_active s \<noteq> [] then set_active w [] ''clear'' True s else s) in
      s1\<lparr>se_opened := False, se_shed := 0, se_tools_fingerprint := None, se_generation := None, se_prefix := None,
         se_own_reply := False, se_parked := Map.empty\<rparr>)"

definition rollback_to :: "session_wire \<Rightarrow> nat \<Rightarrow> session \<Rightarrow> session" where
  "rollback_to w n s =
     (if length (se_active s) \<le> n then s
      else set_active w (trim_to_round_boundary s (take n (se_active s))) ''rollback'' False s)"

text \<open>The id of a fork is random: an argument.\<close>

definition fork_with :: "session_wire \<Rightarrow> string \<Rightarrow> nat list \<Rightarrow> nat option \<Rightarrow> session \<Rightarrow> session" where
  "fork_with w sid active at s =
     rebuild_projection w (log_event w (Forked (se_id s) at)
       ((blank sid)\<lparr>se_events := se_events s, se_system := se_system s, se_tools := se_tools s,
          se_records := se_records s, se_index := se_index s, se_active := active,
          se_next_id := se_next_id s, se_revision := se_revision s\<rparr>))"

definition fork :: "session_wire \<Rightarrow> string \<Rightarrow> session \<Rightarrow> session" where
  "fork w sid s = fork_with w sid (se_active s) None s"

definition fork_at :: "session_wire \<Rightarrow> string \<Rightarrow> nat \<Rightarrow> session \<Rightarrow> session_error + session" where
  "fork_at w sid at s =
     (case active_slot s at of
        Inl e \<Rightarrow> Inl e
      | Inr slot \<Rightarrow>
          let active = take (Suc slot) (se_active s) in
          case check_rounds s active None of
            Some e \<Rightarrow> Inl e
          | None \<Rightarrow> Inr (fork_with w sid active (Some at) s))"

definition from_messages :: "session_wire \<Rightarrow> string \<Rightarrow> message list \<Rightarrow> session" where
  "from_messages w sid ms =
     (let push_all = foldl (\<lambda>s m. snd (push_message w m s)) in
      case ms of
        m # rest \<Rightarrow>
          if msg_role m = ''system'' then push_all (set_system w (message_text m) (blank sid)) rest
          else push_all (blank sid) ms
      | [] \<Rightarrow> blank sid)"

section \<open>Persistence\<close>

definition store_record :: "nat \<Rightarrow> message \<Rightarrow> session \<Rightarrow> session" where
  "store_record i m s =
     s\<lparr>se_next_id := max (se_next_id s) (i + 1), se_index := (se_index s)(i \<mapsto> length (se_records s)),
       se_records := se_records s @ [\<lparr>sr_id = i, sr_message = m, sr_replaced_by = None\<rparr>]\<rparr>"

definition replay_event :: "session \<Rightarrow> session_event \<Rightarrow> session" where
  "replay_event s e =
     (case e of
        SystemSet sys \<Rightarrow> s\<lparr>se_system := sys\<rparr>
      | ToolsSet ts \<Rightarrow> s\<lparr>se_tools := ts\<rparr>
      | MessageAdded i m \<Rightarrow> (let s1 = store_record i m s in s1\<lparr>se_active := se_active s1 @ [i]\<rparr>)
      | MessageReplaced old new m \<Rightarrow>
          let s1 = store_record new m s;
              s2 = (if se_index s1 old = None then s1 else mark_replaced old new s1) in
          (case position_of old (se_active s2) of
             Some slot \<Rightarrow> s2\<lparr>se_active := (se_active s2)[slot := new]\<rparr>
           | None \<Rightarrow> s2\<lparr>se_active := se_active s2 @ [new]\<rparr>)
      | MessageRemoved i \<Rightarrow> s\<lparr>se_active := filter (\<lambda>a. a \<noteq> i) (se_active s)\<rparr>
      | MessageRecorded i m \<Rightarrow> store_record i m s
      | ContextReplaced active _ \<Rightarrow> s\<lparr>se_active := filter (\<lambda>i. se_index s i \<noteq> None) active\<rparr>
      | Forked _ (Some at) \<Rightarrow>
          (case position_of at (se_active s) of
             Some slot \<Rightarrow> s\<lparr>se_active := take (Suc slot) (se_active s)\<rparr> | None \<Rightarrow> s)
      | Forked _ None \<Rightarrow> s)"

definition replay :: "session_wire \<Rightarrow> string \<Rightarrow> session_event list \<Rightarrow> session" where
  "replay w sid events =
     (let s = foldl replay_event (blank sid) events in
      rebuild_projection w (s\<lparr>se_revision := length (filter moves_revision events), se_events := events\<rparr>))"

text \<open>What is read back: the id, the events and, from the older format, the messages.\<close>

definition deserialize_session :: "session_wire \<Rightarrow> string \<Rightarrow> session_event list \<Rightarrow> message list \<Rightarrow> session" where
  "deserialize_session w sid events messages =
     (if events = [] \<and> messages \<noteq> [] then from_messages w sid messages else replay w sid events)"

section \<open>The engines that hold a copy\<close>

definition transcript_with_system :: "string option \<Rightarrow> session \<Rightarrow> message list" where
  "transcript_with_system sys s = (case sys of Some t \<Rightarrow> [system_msg t] | None \<Rightarrow> []) @ se_projection s"

definition transcript :: "session \<Rightarrow> message list" where
  "transcript s = transcript_with_system (se_system s) s"

definition pending :: "nat \<Rightarrow> session \<Rightarrow> message list" where
  "pending sent s = (if se_opened s then drop sent (transcript s) else transcript s)"

definition transcript_len :: "session \<Rightarrow> nat" where
  "transcript_len s = length (se_projection s) + (if se_system s = None then 0 else 1)"

definition note_shed :: "nat \<Rightarrow> session \<Rightarrow> session" where
  "note_shed n s = s\<lparr>se_shed := sat_add (se_shed s) n\<rparr>"

definition no_binding :: binding where
  "no_binding = \<lparr>bi_opened = False, bi_tools = None, bi_generation = None, bi_thinking = None, bi_prefix = None,
     bi_own_reply = False\<rparr>"

definition current_binding :: "session \<Rightarrow> binding" where
  "current_binding s =
     \<lparr>bi_opened = se_opened s, bi_tools = se_tools_fingerprint s, bi_generation = se_generation s,
      bi_thinking = se_thinking s, bi_prefix = se_prefix s, bi_own_reply = se_own_reply s\<rparr>"

definition note_engine :: "nat \<Rightarrow> session \<Rightarrow> bool \<times> session" where
  "note_engine engine s =
     (if se_bound s = Some engine then (False, s)
      else
        let parked = (case se_bound s of
                        Some previous \<Rightarrow>
                          if se_opened s then (se_parked s)(previous \<mapsto> current_binding s) else se_parked s
                      | None \<Rightarrow> se_parked s);
            b = (case parked engine of Some b \<Rightarrow> b | None \<Rightarrow> no_binding) in
        (True, s\<lparr>se_parked := parked(engine := None), se_opened := bi_opened b, se_tools_fingerprint := bi_tools b,
                 se_generation := bi_generation b, se_thinking := bi_thinking b, se_prefix := bi_prefix b,
                 se_own_reply := bi_own_reply b, se_bound := Some engine\<rparr>))"

text \<open>The fields a prefix is hashed from.\<close>

definition prefix_fields :: "session_wire \<Rightarrow> nat \<Rightarrow> 64 word \<Rightarrow> session \<Rightarrow> string list" where
  "prefix_fields w count offered s =
     (let sys = (case se_system s of Some t \<Rightarrow> if 0 < count then [t] else [] | None \<Rightarrow> []);
          n = min (count - length sys) (length (se_active s)) in
      [le_u64 (unat offered)] @ sys
        @ concat (map (\<lambda>(i, m). message_fields w i m) (zip (take n (se_active s)) (take n (se_projection s))))
        @ [le_u64 n])"

definition prefix_digest :: "session_wire \<Rightarrow> nat \<Rightarrow> 64 word \<Rightarrow> session \<Rightarrow> 64 word" where
  "prefix_digest w count offered s = fnv (prefix_fields w count offered s)"

definition record_prefix :: "session_wire \<Rightarrow> nat \<Rightarrow> session \<Rightarrow> session" where
  "record_prefix w count s =
     s\<lparr>se_prefix := Some (prefix_digest w count (se_offered s) s), se_own_reply := True\<rparr>"

definition tail_is_appendable :: "nat \<Rightarrow> session \<Rightarrow> bool" where
  "tail_is_appendable count s =
     (let tail = drop (count - (if se_system s = None then 0 else 1)) (se_projection s) in
      list_all (\<lambda>(k, m). msg_role m \<noteq> ''assistant'' \<or> (k = 0 \<and> se_own_reply s)) (zip [0..<length tail] tail))"

definition prefix_still_held :: "session_wire \<Rightarrow> nat \<Rightarrow> 64 word \<Rightarrow> session \<Rightarrow> bool" where
  "prefix_still_held w count offered s \<longleftrightarrow>
     0 < count \<and> count \<le> transcript_len s \<and> se_prefix s = Some (prefix_digest w count offered s)"

definition note_model :: "nat \<Rightarrow> session \<Rightarrow> bool \<times> session" where
  "note_model g s =
     (if se_generation s = Some g then (False, s)
      else if se_generation s = None \<and> \<not> se_opened s then (False, s\<lparr>se_generation := Some g\<rparr>)
      else (True, s\<lparr>se_generation := Some g, se_opened := False\<rparr>))"

definition note_thinking :: "thinking_mode \<Rightarrow> session \<Rightarrow> bool \<times> session" where
  "note_thinking t s =
     (if se_thinking s = Some t then (False, s)
      else if se_thinking s = None \<and> \<not> se_opened s then (False, s\<lparr>se_thinking := Some t\<rparr>)
      else (True, s\<lparr>se_thinking := Some t, se_opened := False\<rparr>))"

definition note_tools :: "64 word \<Rightarrow> session \<Rightarrow> bool \<times> session" where
  "note_tools fp s =
     (if se_tools_fingerprint s = Some fp then (False, s)
      else if se_tools_fingerprint s = None \<and> \<not> se_opened s then (False, s\<lparr>se_tools_fingerprint := Some fp\<rparr>)
      else (True, s\<lparr>se_tools_fingerprint := Some fp, se_opened := False\<rparr>))"

section \<open>A session is the replay of its log\<close>

text \<open>The derived state, in a session that has nothing else.\<close>

definition derived :: "string \<Rightarrow> session \<Rightarrow> session" where
  "derived sid s =
     (blank sid)\<lparr>se_system := se_system s, se_tools := se_tools s, se_records := se_records s, se_index := se_index s,
       se_active := se_active s, se_next_id := se_next_id s\<rparr>"

definition replayed :: "session \<Rightarrow> bool" where
  "replayed s \<longleftrightarrow>
     (\<forall>sid. foldl replay_event (blank sid) (se_events s) = derived sid s)
     \<and> se_revision s = length (filter moves_revision (se_events s))"

definition session_ok :: "session \<Rightarrow> bool" where
  "session_ok s \<longleftrightarrow>
     map sr_id (se_records s) = [0..<se_next_id s]
     \<and> se_index s = (\<lambda>i. if i < se_next_id s then Some i else None)
     \<and> distinct (se_active s) \<and> set (se_active s) \<subseteq> {..<se_next_id s}
     \<and> se_projection s = map (message_by s) (se_active s)"

text \<open>What a session saved and read back is: everything but what is known about engines.\<close>

definition restored :: "session_wire \<Rightarrow> session \<Rightarrow> session" where
  "restored w s =
     (derived (se_id s) s)\<lparr>se_events := se_events s, se_revision := se_revision s, se_projection := se_projection s,
       se_fingerprint := compute_fingerprint w s\<rparr>"

lemma derived_sel:
  "se_system (derived sid s) = se_system s" "se_tools (derived sid s) = se_tools s"
  "se_records (derived sid s) = se_records s" "se_index (derived sid s) = se_index s"
  "se_active (derived sid s) = se_active s" "se_next_id (derived sid s) = se_next_id s"
  by (simp_all add: derived_def)

lemma log_event_sel [simp]:
  "se_id (log_event w e s) = se_id s" "se_events (log_event w e s) = se_events s @ [e]"
  "se_revision (log_event w e s) = (if moves_revision e then Suc (se_revision s) else se_revision s)"
  "se_system (log_event w e s) = se_system s" "se_tools (log_event w e s) = se_tools s"
  "se_records (log_event w e s) = se_records s" "se_index (log_event w e s) = se_index s"
  "se_active (log_event w e s) = se_active s" "se_projection (log_event w e s) = se_projection s"
  "se_next_id (log_event w e s) = se_next_id s" "se_opened (log_event w e s) = se_opened s"
  "se_prefix (log_event w e s) = se_prefix s" "se_own_reply (log_event w e s) = se_own_reply s"
  "se_fingerprint (log_event w e s) = (if moves_revision e then compute_fingerprint w s else se_fingerprint s)"
  by (simp_all add: log_event_def Let_def)

lemma derived_log [simp]: "derived sid (log_event w e s) = derived sid s"
  by (simp add: derived_def)

lemma message_by_cong: "se_records t = se_records s \<Longrightarrow> se_index t = se_index s \<Longrightarrow> message_by t = message_by s"
  by (simp add: message_by_def fun_eq_iff)

lemma rebuild_sel [simp]:
  "se_id (rebuild_projection w s) = se_id s" "se_events (rebuild_projection w s) = se_events s"
  "se_revision (rebuild_projection w s) = se_revision s" "se_system (rebuild_projection w s) = se_system s"
  "se_tools (rebuild_projection w s) = se_tools s" "se_records (rebuild_projection w s) = se_records s"
  "se_index (rebuild_projection w s) = se_index s" "se_active (rebuild_projection w s) = se_active s"
  "se_projection (rebuild_projection w s) = map (message_by s) (se_active s)"
  "se_next_id (rebuild_projection w s) = se_next_id s" "se_opened (rebuild_projection w s) = se_opened s"
  by (simp_all add: rebuild_projection_def Let_def)

lemma message_by_simps [simp]:
  "message_by (log_event w e s) = message_by s" "message_by (rebuild_projection w s) = message_by s"
  "message_by (s\<lparr>se_active := a\<rparr>) = message_by s" "message_by (s\<lparr>se_projection := p\<rparr>) = message_by s"
  "message_by (s\<lparr>se_opened := b\<rparr>) = message_by s"
  by (rule message_by_cong; simp)+

lemma compute_fingerprint_cong:
  "se_system t = se_system s \<Longrightarrow> se_tools t = se_tools s \<Longrightarrow> se_active t = se_active s \<Longrightarrow>
   se_projection t = se_projection s \<Longrightarrow> compute_fingerprint w t = compute_fingerprint w s"
  by (simp add: compute_fingerprint_def)

lemma rebuild_fingerprint:
  "se_fingerprint (rebuild_projection w s) = compute_fingerprint w (rebuild_projection w s)"
  by (simp add: rebuild_projection_def Let_def compute_fingerprint_def)

lemma derived_rebuild [simp]: "derived sid (rebuild_projection w s) = derived sid s"
  by (simp add: derived_def)

lemma after_change_sel [simp]:
  "se_id (after_projection_change w s) = se_id s" "se_events (after_projection_change w s) = se_events s"
  "se_revision (after_projection_change w s) = se_revision s" "se_system (after_projection_change w s) = se_system s"
  "se_tools (after_projection_change w s) = se_tools s" "se_records (after_projection_change w s) = se_records s"
  "se_index (after_projection_change w s) = se_index s" "se_active (after_projection_change w s) = se_active s"
  "se_projection (after_projection_change w s) = map (message_by s) (se_active s)"
  "se_next_id (after_projection_change w s) = se_next_id s"
  "derived sid (after_projection_change w s) = derived sid s"
  by (simp_all add: after_projection_change_def derived_def)

text \<open>What every operation keeps: the invariant, the log, and the digest once anything is logged.\<close>

definition sound :: "session_wire \<Rightarrow> session \<Rightarrow> bool" where
  "sound w s \<longleftrightarrow> session_ok s \<and> replayed s \<and> (0 < se_revision s \<longrightarrow> se_fingerprint s = compute_fingerprint w s)"

lemma soundI:
  assumes "session_ok s" "replayed s" "se_fingerprint s = compute_fingerprint w s"
  shows "sound w s"
  using assms by (simp add: sound_def)

lemma replayed_log:
  assumes "replayed s" "\<And>sid. replay_event (derived sid s) e = derived sid t" "se_events t = se_events s"
    "se_revision t = se_revision s"
  shows "replayed (log_event w e t)"
  using assms by (simp add: replayed_def)

lemma replayed_cong:
  assumes "replayed s" "\<And>sid. derived sid t = derived sid s" "se_events t = se_events s" "se_revision t = se_revision s"
  shows "replayed t"
  using assms by (simp add: replayed_def)

lemma session_ok_cong:
  assumes "session_ok s" "se_records t = se_records s" "se_index t = se_index s" "se_active t = se_active s"
    "se_projection t = se_projection s" "se_next_id t = se_next_id s"
  shows "session_ok t"
  using assms message_by_cong [of t s] by (simp add: session_ok_def)

lemma sound_cong:
  assumes "sound w s" "\<And>sid. derived sid t = derived sid s" "se_events t = se_events s" "se_revision t = se_revision s"
    "se_projection t = se_projection s" "se_fingerprint t = se_fingerprint s"
  shows "sound w t"
proof -
  have d: "se_system t = se_system s" "se_tools t = se_tools s" "se_records t = se_records s" "se_index t = se_index s"
      "se_active t = se_active s" "se_next_id t = se_next_id s"
    using assms(2) [of "[]"] by (simp_all add: derived_def blank_def)
  then have "compute_fingerprint w t = compute_fingerprint w s" using assms by (intro compute_fingerprint_cong)
  then show ?thesis
    using assms d session_ok_cong [of s t] replayed_cong [of s t] by (simp add: sound_def)
qed

lemma sound_blank: "sound w (blank sid)"
  by (simp add: sound_def session_ok_def replayed_def blank_def derived_def fun_eq_iff)

text \<open>The well-formedness of ids alone; the projection follows when it is rebuilt.\<close>

definition ids_ok :: "session \<Rightarrow> bool" where
  "ids_ok s \<longleftrightarrow>
     map sr_id (se_records s) = [0..<se_next_id s]
     \<and> se_index s = (\<lambda>i. if i < se_next_id s then Some i else None)
     \<and> distinct (se_active s) \<and> set (se_active s) \<subseteq> {..<se_next_id s}"

lemma session_ok_iff: "session_ok s \<longleftrightarrow> ids_ok s \<and> se_projection s = map (message_by s) (se_active s)"
  by (auto simp: session_ok_def ids_ok_def)

lemma ids_ok_length: "ids_ok s \<Longrightarrow> length (se_records s) = se_next_id s"
  unfolding ids_ok_def by (metis length_map length_upt minus_nat.diff_0)

lemma sound_log_rebuild:
  assumes "replayed s" "\<And>sid. replay_event (derived sid s) e = derived sid t" "se_events t = se_events s"
    "se_revision t = se_revision s" "ids_ok t"
  shows "sound w (rebuild_projection w (log_event w e t))"
proof (rule soundI)
  have "ids_ok (rebuild_projection w (log_event w e t))" using assms(5) by (simp add: ids_ok_def)
  then show "session_ok (rebuild_projection w (log_event w e t))"
    by (simp add: session_ok_iff)
  show "replayed (rebuild_projection w (log_event w e t))"
    by (rule replayed_cong [OF replayed_log [OF assms(1-4)]]) simp_all
qed (rule rebuild_fingerprint)

lemma sound_after_change:
  assumes "sound w (rebuild_projection w s)"
  shows "sound w (after_projection_change w s)"
  by (rule sound_cong [OF assms]) (simp_all add: after_projection_change_def derived_def)

lemma sound_opened [simp]: "sound w (s\<lparr>se_opened := b\<rparr>) \<longleftrightarrow> sound w s"
  by (rule iffI; erule sound_cong) (simp_all add: derived_def)

subsection \<open>Records\<close>

lemma mint_sel [simp]:
  "fst (mint m s) = se_next_id s" "se_events (snd (mint m s)) = se_events s" "se_revision (snd (mint m s)) = se_revision s"
  "se_system (snd (mint m s)) = se_system s" "se_tools (snd (mint m s)) = se_tools s" "se_id (snd (mint m s)) = se_id s"
  "se_active (snd (mint m s)) = se_active s" "se_projection (snd (mint m s)) = se_projection s"
  "se_next_id (snd (mint m s)) = Suc (se_next_id s)" "se_fingerprint (snd (mint m s)) = se_fingerprint s"
  "se_index (snd (mint m s)) = (se_index s)(se_next_id s \<mapsto> length (se_records s))"
  "se_records (snd (mint m s)) = se_records s @ [\<lparr>sr_id = se_next_id s, sr_message = m, sr_replaced_by = None\<rparr>]"
  by (simp_all add: mint_def Let_def)

lemma ids_ok_mint: "ids_ok s \<Longrightarrow> ids_ok (snd (mint m s))"
  using ids_ok_length [of s] by (auto simp: ids_ok_def fun_eq_iff)

lemma message_by_mint:
  assumes "ids_ok s"
  shows "i < se_next_id s \<Longrightarrow> message_by (snd (mint m s)) i = message_by s i"
    "message_by (snd (mint m s)) (se_next_id s) = m"
  using ids_ok_length [OF assms] assms by (simp_all add: message_by_def ids_ok_def nth_append)

lemma message_by_mint_active:
  assumes "ids_ok s"
  shows "map (message_by (snd (mint m s))) (se_active s) = map (message_by s) (se_active s)"
  using assms message_by_mint(1) [OF assms] by (auto simp: ids_ok_def)

lemma store_derived:
  assumes "ids_ok s"
  shows "store_record (se_next_id s) m (derived sid s) = derived sid (snd (mint m s))"
  by (simp add: store_record_def derived_def mint_def Let_def)

lemma sound_push: "sound w s \<Longrightarrow> sound w (snd (push_message w m s))"
proof (rule soundI)
  assume "sound w s"
  then have ok: "ids_ok s" "se_projection s = map (message_by s) (se_active s)" and rep: "replayed s"
    by (auto simp: sound_def session_ok_iff)
  let ?s1 = "snd (mint m s)"
  let ?t = "?s1\<lparr>se_active := se_active ?s1 @ [se_next_id s], se_projection := se_projection ?s1 @ [m]\<rparr>"
  have push: "snd (push_message w m s) = log_event w (MessageAdded (se_next_id s) m) ?t"
    by (simp add: push_message_def Let_def case_prod_unfold)
  have i: "ids_ok ?t" using ids_ok_mint [OF ok(1), of m] ok(1) by (auto simp: ids_ok_def)
  then have "ids_ok (snd (push_message w m s))" by (simp add: push ids_ok_def)
  then show "session_ok (snd (push_message w m s))"
    using ok message_by_mint(1) [OF ok(1), of _ m] message_by_mint(2) [OF ok(1), of m] message_by_mint_active [OF ok(1), of m]
    by (simp add: session_ok_iff push)
  show "replayed (snd (push_message w m s))"
    unfolding push
  proof (rule replayed_log [OF rep])
    show "replay_event (derived sid s) (MessageAdded (se_next_id s) m) = derived sid ?t" for sid
      using store_derived [OF ok(1), of m sid] by (simp add: replay_event_def Let_def) (simp add: derived_def)
  qed simp_all
  show "se_fingerprint (snd (push_message w m s)) = compute_fingerprint w (snd (push_message w m s))"
    by (simp add: push moves_revision_def compute_fingerprint_def)
qed

lemma sound_record: "sound w s \<Longrightarrow> sound w (snd (record_message w m s))"
proof -
  assume s: "sound w s"
  then have ok: "ids_ok s" "se_projection s = map (message_by s) (se_active s)" and rep: "replayed s"
    by (auto simp: sound_def session_ok_iff)
  let ?t = "snd (mint m s)"
  have rec: "snd (record_message w m s) = log_event w (MessageRecorded (se_next_id s) m) ?t"
    by (simp add: record_message_def Let_def case_prod_unfold)
  have "ids_ok (snd (record_message w m s))" using ids_ok_mint [OF ok(1), of m] by (simp add: rec ids_ok_def)
  then have "session_ok (snd (record_message w m s))"
    using ok(2) message_by_mint_active [OF ok(1), of m]
    by (simp add: session_ok_iff rec)
  moreover have "replayed (snd (record_message w m s))"
    unfolding rec
    by (rule replayed_log [OF rep]) (simp_all add: replay_event_def store_derived [OF ok(1)])
  moreover have "compute_fingerprint w (snd (record_message w m s)) = compute_fingerprint w s"
    by (rule compute_fingerprint_cong) (simp_all add: rec)
  ultimately show ?thesis using s by (simp add: sound_def rec moves_revision_def)
qed

subsection \<open>The operations\<close>

lemma sound_log:
  assumes "sound w s" "\<And>sid. replay_event (derived sid s) e = derived sid t" "se_events t = se_events s"
    "se_revision t = se_revision s" "session_ok t" "moves_revision e"
  shows "sound w (log_event w e t)"
proof (rule soundI)
  show "session_ok (log_event w e t)" using assms(5) by (simp add: session_ok_def)
  show "replayed (log_event w e t)" using assms by (intro replayed_log) (auto simp: sound_def)
  show "se_fingerprint (log_event w e t) = compute_fingerprint w (log_event w e t)"
    using assms(6) by (simp add: compute_fingerprint_def)
qed

lemma sound_put_system: "sound w s \<Longrightarrow> sound w (put_system w sys s)"
proof (cases "se_system s = sys")
  case False
  assume s: "sound w s"
  have "session_ok (s\<lparr>se_system := sys\<rparr>)" by (rule session_ok_cong [of s]) (use s in \<open>simp_all add: sound_def\<close>)
  then have "sound w (log_event w (SystemSet sys) (s\<lparr>se_system := sys\<rparr>))"
    by (intro sound_log [OF s]) (simp_all add: replay_event_def derived_def moves_revision_def)
  then show ?thesis using False by (simp add: put_system_def)
qed (simp add: put_system_def)

lemma sound_put_tools: "sound w s \<Longrightarrow> sound w (put_tools w ts s)"
proof (cases "se_tools s = ts")
  case False
  assume s: "sound w s"
  have "session_ok (s\<lparr>se_tools := ts\<rparr>)" by (rule session_ok_cong [of s]) (use s in \<open>simp_all add: sound_def\<close>)
  then have "sound w (log_event w (ToolsSet ts) (s\<lparr>se_tools := ts\<rparr>))"
    by (intro sound_log [OF s]) (simp_all add: replay_event_def derived_def moves_revision_def)
  then show ?thesis using False by (simp add: put_tools_def)
qed (simp add: put_tools_def)

lemma sound_set_active:
  assumes "sound w s" "distinct ids" "set ids \<subseteq> {..<se_next_id s}"
  shows "sound w (set_active w ids reason close s)"
proof (cases "ids = se_active s")
  case False
  have s: "ids_ok s" "replayed s" using assms(1) by (auto simp: sound_def session_ok_iff)
  have "filter (\<lambda>i. \<exists>y. se_index s i = Some y) ids = ids"
    using s(1) assms(3) by (auto simp: ids_ok_def filter_id_conv)
  then have "sound w (rebuild_projection w (log_event w (ContextReplaced ids (Some reason)) (s\<lparr>se_active := ids\<rparr>)))"
    using s assms(2,3) by (intro sound_log_rebuild [of s]) (auto simp: replay_event_def derived_def ids_ok_def)
  then show ?thesis using False by (simp add: set_active_def Let_def sound_after_change)
qed (use assms in \<open>simp add: set_active_def\<close>)

lemma position_of_Some:
  "position_of x xs = Some k \<Longrightarrow> k < length xs \<and> xs ! k = x \<and> x \<notin> set (take k xs)"
  by (induction xs arbitrary: k) (auto split: if_splits)

lemma position_of_None: "position_of x xs = None \<longleftrightarrow> x \<notin> set xs"
  by (induction xs) auto

lemma active_slot_Inr:
  assumes "ids_ok s" "active_slot s i = Inr k"
  shows "k < length (se_active s)" "se_active s ! k = i" "position_of i (se_active s) = Some k" "i < se_next_id s"
  using assms position_of_Some [of i "se_active s" k]
  by (auto simp: active_slot_def ids_ok_def split: if_splits option.splits)

lemma mark_replaced_sel [simp]:
  "se_events (mark_replaced old new s) = se_events s" "se_revision (mark_replaced old new s) = se_revision s"
  "se_system (mark_replaced old new s) = se_system s" "se_tools (mark_replaced old new s) = se_tools s"
  "se_id (mark_replaced old new s) = se_id s" "se_active (mark_replaced old new s) = se_active s"
  "se_projection (mark_replaced old new s) = se_projection s" "se_next_id (mark_replaced old new s) = se_next_id s"
  "se_index (mark_replaced old new s) = se_index s"
  by (simp_all add: mark_replaced_def Let_def)

lemma mark_replaced_ids:
  assumes "the (se_index s old) < length (se_records s)"
  shows "map sr_id (se_records (mark_replaced old new s)) = map sr_id (se_records s)"
proof -
  have "map sr_id (se_records (mark_replaced old new s))
      = (map sr_id (se_records s))[the (se_index s old) := map sr_id (se_records s) ! the (se_index s old)]"
    using assms by (simp add: mark_replaced_def Let_def map_update)
  then show ?thesis by (simp only: list_update_id)
qed

lemma ids_ok_mark_replaced: "ids_ok s \<Longrightarrow> old < se_next_id s \<Longrightarrow> ids_ok (mark_replaced old new s)"
  using ids_ok_length [of s] mark_replaced_ids [of s old new] by (simp add: ids_ok_def)

lemma mark_replaced_derived: "mark_replaced old new (derived sid s) = derived sid (mark_replaced old new s)"
  by (simp add: mark_replaced_def derived_def Let_def)

lemma mark_replaced_active: "mark_replaced old new (s\<lparr>se_active := a\<rparr>) = (mark_replaced old new s)\<lparr>se_active := a\<rparr>"
  by (simp add: mark_replaced_def Let_def)

lemma sound_replace_message:
  assumes "sound w s" "replace_message w old m s = Inr (new, t)"
  shows "sound w t"
proof -
  have ok: "ids_ok s" and rep: "replayed s" using assms(1) by (auto simp: sound_def session_ok_iff)
  obtain slot where slot: "active_slot s old = Inr slot"
    using assms(2) by (auto simp: replace_message_def split: sum.splits)
  let ?n = "se_next_id s" and ?a = "(se_active s)[slot := se_next_id s]"
  let ?u = "mark_replaced old ?n (snd (mint m s))"
  have t: "t = after_projection_change w (log_event w (MessageReplaced old ?n m) (?u\<lparr>se_active := ?a\<rparr>))"
    using assms(2) slot by (auto simp: replace_message_def Let_def case_prod_unfold split: option.splits)
  note a = active_slot_Inr [OF ok slot]
  have u: "ids_ok ?u" using a(4) by (intro ids_ok_mark_replaced ids_ok_mint ok) simp
  have "?n \<notin> set (se_active s)" using ok by (auto simp: ids_ok_def)
  then have "distinct ?a" "set ?a \<subseteq> {..<Suc ?n}"
    using ok set_update_subset_insert [of "se_active s" slot ?n] by (auto simp: ids_ok_def intro!: distinct_list_update)
  then have i: "ids_ok (?u\<lparr>se_active := ?a\<rparr>)" using u by (simp add: ids_ok_def)
  have "replay_event (derived sid s) (MessageReplaced old ?n m) = derived sid (?u\<lparr>se_active := ?a\<rparr>)" for sid
  proof -
    have known: "\<not> (se_index (derived sid (snd (mint m s))) old = None)"
      using a(4) ok by (simp add: derived_sel ids_ok_def)
    have at: "position_of old (se_active (mark_replaced old ?n (derived sid (snd (mint m s))))) = Some slot"
      using a(3) by (simp add: derived_sel)
    show ?thesis
      unfolding replay_event_def session_event.case Let_def store_derived [OF ok] if_not_P [OF known] at option.case
      by (simp add: derived_sel mark_replaced_derived) (simp add: derived_def)
  qed
  then show ?thesis unfolding t by (intro sound_after_change sound_log_rebuild [OF rep _ _ _ i]) simp_all
qed

lemma remove_at_filter:
  assumes "distinct xs" "k < length xs"
  shows "remove_at k xs = filter (\<lambda>x. x \<noteq> xs ! k) xs"
proof -
  have "xs = take k xs @ xs ! k # drop (Suc k) xs" using assms(2) by (rule id_take_nth_drop)
  moreover have "distinct (take k xs @ xs ! k # drop (Suc k) xs)" using assms(1) calculation by simp
  then have out: "xs ! k \<notin> set (take k xs)" "xs ! k \<notin> set (drop (Suc k) xs)" by auto
  ultimately have "filter (\<lambda>x. x \<noteq> xs ! k) xs = filter (\<lambda>x. x \<noteq> xs ! k) (take k xs @ xs ! k # drop (Suc k) xs)" by simp
  also have "\<dots> = filter (\<lambda>x. x \<noteq> xs ! k) (take k xs) @ filter (\<lambda>x. x \<noteq> xs ! k) (drop (Suc k) xs)" by simp
  also have "\<dots> = remove_at k xs"
    unfolding remove_at_def using out by (intro arg_cong2 [where f = "(@)"] filter_True) auto
  finally show ?thesis by simp
qed

lemma sound_remove_message:
  assumes "sound w s" "remove_message w i s = Inr t"
  shows "sound w t"
proof -
  have ok: "ids_ok s" and rep: "replayed s" using assms(1) by (auto simp: sound_def session_ok_iff)
  obtain slot where slot: "active_slot s i = Inr slot"
    using assms(2) by (auto simp: remove_message_def split: sum.splits)
  note a = active_slot_Inr [OF ok slot]
  have f: "remove_at slot (se_active s) = filter (\<lambda>x. x \<noteq> i) (se_active s)"
    using remove_at_filter [of "se_active s" slot] a ok by (simp add: ids_ok_def)
  have t: "t = after_projection_change w (log_event w (MessageRemoved i) (s\<lparr>se_active := filter (\<lambda>x. x \<noteq> i) (se_active s)\<rparr>))"
    using assms(2) slot f by (auto simp: remove_message_def Let_def split: option.splits)
  show ?thesis unfolding t
    using ok by (intro sound_after_change sound_log_rebuild [OF rep]) (auto simp: replay_event_def derived_def ids_ok_def)
qed

lemma record_all_spec:
  assumes "sound w s" "record_all w ms s = (ids, t)"
  shows "sound w t \<and> ids = [se_next_id s..<se_next_id s + length ms] \<and> se_next_id t = se_next_id s + length ms
    \<and> se_active t = se_active s"
  using assms
proof (induction ms arbitrary: s ids)
  case (Cons m ms)
  obtain is' where r: "record_all w ms (snd (record_message w m s)) = (is', t)" "ids = se_next_id s # is'"
    using Cons.prems(2) by (auto simp: record_message_def Let_def case_prod_unfold prod_eq_iff)
  have n: "se_next_id (snd (record_message w m s)) = Suc (se_next_id s)" "se_active (snd (record_message w m s)) = se_active s"
    by (simp_all add: record_message_def Let_def case_prod_unfold)
  from Cons.IH [OF sound_record [OF Cons.prems(1)] r(1)] show ?case
    unfolding n r(2) by (auto simp: upt_rec [of "se_next_id s"] Suc_le_eq)
qed simp

lemma sound_replace_messages:
  assumes "sound w s" "replace_messages w ms s = Inr t"
  shows "sound w t"
proof -
  obtain ids u where u: "record_all w ms s = (ids, u)" by (cases "record_all w ms s")
  from assms(2) u have t: "t = set_active w ids ''replace_messages'' True u"
    by (auto simp: replace_messages_def Let_def split: option.splits)
  show ?thesis unfolding t using record_all_spec [OF assms(1) u] by (intro sound_set_active) auto
qed

lemma check_known_None:
  "check_known s seen ids = None \<Longrightarrow> distinct ids \<and> set ids \<inter> set seen = {} \<and> (\<forall>i \<in> set ids. se_index s i \<noteq> None)"
  by (induction s seen ids rule: check_known.induct) (auto split: if_splits)

lemma sound_restore_context:
  assumes "sound w s" "restore_context w ids s = Inr t"
  shows "sound w t"
proof -
  have k: "check_known s [] ids = None" and t: "t = set_active w ids ''restore_context'' True s"
    using assms(2) by (auto simp: restore_context_def split: option.splits)
  have "\<forall>i \<in> set ids. i < se_next_id s"
    using check_known_None [OF k] assms(1) by (auto simp: sound_def session_ok_def split: if_splits)
  then show ?thesis unfolding t using check_known_None [OF k] by (intro sound_set_active assms(1)) auto
qed

lemma subseq_keeps_distinct: "subseq xs ys \<Longrightarrow> distinct ys \<Longrightarrow> distinct xs"
  by (induction rule: list_emb.induct) (auto dest: list_emb_set)

lemma subseq_set_le: "subseq xs ys \<Longrightarrow> set xs \<subseteq> set ys"
  by (induction rule: list_emb.induct) auto

lemma trim_subseq: "subseq (trim_to_round_boundary s ids) ids"
proof (induction s ids rule: trim_to_round_boundary.induct)
  case (1 s ids)
  show ?case
  proof (cases "check_rounds_over (lookup_with s []) ids (se_records s)")
    case (Some e)
    then show ?thesis
      using "1.IH" [OF Some] subseq_filter_left subseq_order.order_trans
      by (subst trim_to_round_boundary.simps) fastforce
  qed (simp add: trim_to_round_boundary.simps [of s ids])
qed

lemma ids_for_edited_spec:
  assumes "sound w s" "distinct rest" "set rest \<subseteq> {..<n}" "n \<le> se_next_id s" "ids_for_edited w rest ms s = (ids, t)"
  shows "sound w t \<and> se_active t = se_active s \<and> se_next_id s \<le> se_next_id t \<and> distinct ids
    \<and> (\<forall>i \<in> set ids. i \<in> set rest \<or> se_next_id s \<le> i \<and> i < se_next_id t)"
  using assms
proof (induction ms arbitrary: s rest ids)
  case (Cons m ms)
  show ?case
  proof (cases "position_of m (map (message_by s) rest)")
    case None
    let ?s1 = "snd (record_message w m s)"
    have n1: "se_next_id ?s1 = Suc (se_next_id s)" "se_active ?s1 = se_active s" "fst (record_message w m s) = se_next_id s"
      by (simp_all add: record_message_def Let_def case_prod_unfold)
    obtain is' where r: "ids_for_edited w rest ms ?s1 = (is', t)" "ids = se_next_id s # is'"
      using Cons.prems(5) None n1(3) by (auto simp: case_prod_unfold Let_def prod_eq_iff)
    have "n \<le> se_next_id ?s1" using Cons.prems(4) n1 by simp
    from Cons.IH [OF sound_record [OF Cons.prems(1)] Cons.prems(2,3) this r(1)]
    show ?thesis unfolding n1 r(2) using Cons.prems(3,4) by fastforce
  next
    case (Some k)
    obtain is' where r: "ids_for_edited w (drop (Suc k) rest) ms s = (is', t)" "ids = rest ! k # is'"
      using Cons.prems(5) Some by (auto simp: case_prod_unfold Let_def prod_eq_iff)
    have k: "k < length rest" using position_of_Some [OF Some] by simp
    have "set (drop (Suc k) rest) \<subseteq> {..<n}" using Cons.prems(3) set_drop_subset by fast
    from Cons.IH [OF Cons.prems(1) _ this Cons.prems(4) r(1)] Cons.prems(2)
    have ih: "sound w t \<and> se_active t = se_active s \<and> se_next_id s \<le> se_next_id t \<and> distinct is'
      \<and> (\<forall>i \<in> set is'. i \<in> set (drop (Suc k) rest) \<or> se_next_id s \<le> i \<and> i < se_next_id t)" by simp
    have "distinct (rest ! k # drop (Suc k) rest)" using Cons.prems(2) k by (metis Cons_nth_drop_Suc distinct_drop)
    moreover have "rest ! k < se_next_id s" using k Cons.prems(3,4) nth_mem by fastforce
    ultimately have "rest ! k \<notin> set is'" using ih by fastforce
    then show ?thesis unfolding r(2) using ih k set_drop_subset [of "Suc k" rest] by (auto dest: in_set_dropD)
  qed
qed auto

lemma sound_edit: "sound w s \<Longrightarrow> sound w (edit_session w f s)"
proof -
  assume s: "sound w s"
  then have a: "distinct (se_active s)" "set (se_active s) \<subseteq> {..<se_next_id s}"
    by (auto simp: sound_def session_ok_def)
  obtain ids t where e: "ids_for_edited w (se_active s) (f (se_projection s)) s = (ids, t)"
    by (cases "ids_for_edited w (se_active s) (f (se_projection s)) s")
  note i = ids_for_edited_spec [OF s a order_refl e]
  have sub: "subseq (trim_to_round_boundary t ids) ids" by (rule trim_subseq)
  have "distinct (trim_to_round_boundary t ids)" using sub i subseq_keeps_distinct by blast
  moreover have "set (trim_to_round_boundary t ids) \<subseteq> {..<se_next_id t}"
  proof
    fix x assume "x \<in> set (trim_to_round_boundary t ids)"
    then have "x \<in> set ids" using subseq_set_le [OF sub] by blast
    then show "x \<in> {..<se_next_id t}" using i a(2) by fastforce
  qed
  ultimately show ?thesis using i by (simp add: edit_session_def e Let_def sound_set_active)
qed

lemma sound_rollback: "sound w s \<Longrightarrow> sound w (rollback_to w n s)"
proof (cases "length (se_active s) \<le> n")
  case False
  assume s: "sound w s"
  then have a: "distinct (se_active s)" "set (se_active s) \<subseteq> {..<se_next_id s}"
    by (auto simp: sound_def session_ok_def)
  have sub: "subseq (trim_to_round_boundary s (take n (se_active s))) (se_active s)"
    using trim_subseq subseq_order.order_trans prefix_imp_subseq take_is_prefix by blast
  have "distinct (trim_to_round_boundary s (take n (se_active s)))" using sub a(1) subseq_keeps_distinct by blast
  then show ?thesis using False subseq_set_le [OF sub] a(2) by (auto simp: rollback_to_def intro!: sound_set_active [OF s])
qed (simp add: rollback_to_def)

lemma sound_clear: "sound w s \<Longrightarrow> sound w (clear_session w s)"
proof -
  assume s: "sound w s"
  have "sound w (if se_active s \<noteq> [] then set_active w [] ''clear'' True s else s)"
    using s by (auto intro: sound_set_active)
  then show ?thesis by (rule sound_cong) (simp_all add: clear_session_def Let_def derived_def)
qed

lemma sound_fork_with:
  assumes "sound w s" "at = None \<and> active = se_active s \<or>
    (\<exists>i k. at = Some i \<and> position_of i (se_active s) = Some k \<and> active = take (Suc k) (se_active s))"
  shows "sound w (fork_with w sid active at s)"
proof -
  let ?t = "(blank sid)\<lparr>se_events := se_events s, se_system := se_system s, se_tools := se_tools s,
          se_records := se_records s, se_index := se_index s, se_active := active,
          se_next_id := se_next_id s, se_revision := se_revision s\<rparr>"
  have s: "ids_ok s" "replayed s" using assms(1) by (auto simp: sound_def session_ok_iff)
  have "set active \<subseteq> set (se_active s)" "distinct active"
    using assms(2) s(1) by (auto simp: ids_ok_def dest: in_set_takeD)
  then have "ids_ok ?t" using s(1) by (auto simp: ids_ok_def)
  moreover have "replay_event (derived sid' s) (Forked (se_id s) at) = derived sid' ?t" for sid'
    using assms(2) by (auto simp: replay_event_def derived_def)
  ultimately show ?thesis unfolding fork_with_def using s by (intro sound_log_rebuild) simp_all
qed

section \<open>Reachable sessions\<close>

text \<open>One operation that is not refused; a refusal returns the session unchanged.\<close>

inductive session_step :: "session_wire \<Rightarrow> session \<Rightarrow> session \<Rightarrow> bool" for w where
  System: "session_step w s (put_system w sys s)"
| Tools: "session_step w s (put_tools w ts s)"
| Push: "session_step w s (snd (push_message w m s))"
| Replace: "replace_message w old m s = Inr (new, t) \<Longrightarrow> session_step w s t"
| Remove: "remove_message w i s = Inr t \<Longrightarrow> session_step w s t"
| ReplaceAll: "replace_messages w ms s = Inr t \<Longrightarrow> session_step w s t"
| Restore: "restore_context w ids s = Inr t \<Longrightarrow> session_step w s t"
| Edit: "session_step w s (edit_session w f s)"
| Clear: "session_step w s (clear_session w s)"
| Rollback: "session_step w s (rollback_to w n s)"
| Fork: "session_step w s (fork w sid s)"
| ForkAt: "fork_at w sid at s = Inr t \<Longrightarrow> session_step w s t"
| Shed: "session_step w s (note_shed n s)"
| Engine: "session_step w s (snd (note_engine g s))"
| Model: "session_step w s (snd (note_model g s))"
| Thinking: "session_step w s (snd (note_thinking th s))"
| ToolPrefix: "session_step w s (snd (note_tools fp s))"
| Dispatch: "session_step w s (s\<lparr>se_opened := b, se_offered := fp\<rparr>)"
| Acknowledge: "session_step w s (record_prefix w n s)"

inductive session_reach :: "session_wire \<Rightarrow> session \<Rightarrow> bool" for w where
  New: "session_reach w (blank sid)"
| Step: "session_reach w s \<Longrightarrow> session_step w s t \<Longrightarrow> session_reach w t"

lemma step_sound: "session_step w s t \<Longrightarrow> sound w s \<Longrightarrow> sound w t"
proof (induction rule: session_step.induct)
  case (Fork s sid)
  then show ?case by (simp add: fork_def sound_fork_with)
next
  case (ForkAt sid at s t)
  have ok: "ids_ok s" using ForkAt.prems by (auto simp: sound_def session_ok_iff)
  obtain k where k: "active_slot s at = Inr k" "t = fork_with w sid (take (Suc k) (se_active s)) (Some at) s"
    using ForkAt.hyps by (auto simp: fork_at_def Let_def split: sum.splits option.splits)
  show ?case unfolding k(2) using active_slot_Inr(3) [OF ok k(1)] by (intro sound_fork_with ForkAt.prems) blast
next
  case (Engine s g)
  show ?case by (rule sound_cong [OF Engine.prems]) (simp_all add: note_engine_def Let_def derived_def)
next
  case (Dispatch s b fp)
  show ?case by (rule sound_cong [OF Dispatch.prems]) (simp_all add: derived_def)
next
  case (Shed s n)
  show ?case by (rule sound_cong [OF Shed.prems]) (simp_all add: note_shed_def derived_def)
next
  case (Model s g)
  show ?case by (rule sound_cong [OF Model.prems]) (simp_all add: note_model_def derived_def)
next
  case (Thinking s g)
  show ?case by (rule sound_cong [OF Thinking.prems]) (simp_all add: note_thinking_def derived_def)
next
  case (ToolPrefix s g)
  show ?case by (rule sound_cong [OF ToolPrefix.prems]) (simp_all add: note_tools_def derived_def)
next
  case (Acknowledge s n)
  show ?case by (rule sound_cong [OF Acknowledge.prems]) (simp_all add: record_prefix_def derived_def)
qed (blast intro: sound_blank sound_put_system sound_put_tools sound_push sound_edit sound_clear sound_rollback
    sound_replace_message sound_remove_message sound_replace_messages sound_restore_context)+

lemma reach_sound: "session_reach w s \<Longrightarrow> sound w s"
  by (induction rule: session_reach.induct) (auto intro: sound_blank step_sound)

lemma rebuild_ok: "session_ok s \<Longrightarrow> rebuild_projection w s = s\<lparr>se_fingerprint := compute_fingerprint w s\<rparr>"
  by (simp add: rebuild_projection_def session_ok_def Let_def compute_fingerprint_def)

text \<open>
  C9: A session is the replay of its log. Whatever operations, edits, refusals, forks and engine
  bookkeeping led to it, saving its id and events and reading them back gives the same instruction
  state, records, projection, revision and next id; once anything was logged, its digest is the one
  that is computed on reading.\<close>
theorem session_is_replay:
  assumes "session_reach w s"
  shows "deserialize_session w (se_id s) (se_events s) [] = restored w s
    \<and> (0 < se_revision s \<longrightarrow> se_fingerprint s = compute_fingerprint w s)"
proof -
  have s: "sound w s" using reach_sound [OF assms] .
  let ?t = "(derived (se_id s) s)\<lparr>se_revision := se_revision s, se_events := se_events s\<rparr>"
  have "replay w (se_id s) (se_events s) = rebuild_projection w ?t"
    using s by (simp add: replay_def Let_def sound_def replayed_def)
  also have "\<dots> = restored w s"
    using s by (simp add: rebuild_projection_def Let_def restored_def sound_def session_ok_def derived_sel
        message_by_cong [of ?t s] compute_fingerprint_def)
  finally show ?thesis using s by (simp add: deserialize_session_def sound_def)
qed

section \<open>History is kept\<close>

text \<open>The later session has the earlier one's log in front, its messages under their ids, and shows a
  different context only under a later revision.\<close>

definition extends :: "session \<Rightarrow> session \<Rightarrow> bool" where
  "extends s t \<longleftrightarrow>
     prefix (se_events s) (se_events t) \<and> se_next_id s \<le> se_next_id t
     \<and> (\<forall>i < se_next_id s. message_at t i = message_at s i)
     \<and> se_revision s \<le> se_revision t
     \<and> (se_revision t = se_revision s \<longrightarrow>
          se_system t = se_system s \<and> se_tools t = se_tools s \<and> se_active t = se_active s \<and> se_projection t = se_projection s)"

lemma extends_refl [simp]: "extends s s"
  by (simp add: extends_def)

lemma extends_trans: "extends s t \<Longrightarrow> extends t u \<Longrightarrow> extends s u"
  unfolding extends_def by (auto intro: prefix_order.trans)

lemma extends_same:
  assumes "derived [] t = derived [] s" "se_events t = se_events s" "se_revision t = se_revision s"
    "se_projection t = se_projection s"
  shows "extends s t"
proof -
  have "se_system t = se_system s \<and> se_tools t = se_tools s \<and> se_records t = se_records s \<and> se_index t = se_index s
      \<and> se_active t = se_active s \<and> se_next_id t = se_next_id s"
    using assms(1) by (simp add: derived_def blank_def)
  then show ?thesis using assms(2-4) by (simp add: extends_def message_at_def)
qed

lemma extends_moved:
  assumes "se_events t = se_events s @ es" "se_next_id s \<le> se_next_id t"
    "\<And>i. i < se_next_id s \<Longrightarrow> message_at t i = message_at s i" "se_revision t = Suc (se_revision s)"
  shows "extends s t"
  using assms by (simp add: extends_def)

lemma message_at_ok: "ids_ok s \<Longrightarrow> message_at s i = (if i < se_next_id s then Some (message_by s i) else None)"
  by (simp add: message_at_def message_by_def ids_ok_def)

lemma message_at_cong: "se_records t = se_records s \<Longrightarrow> se_index t = se_index s \<Longrightarrow> message_at t i = message_at s i"
  by (simp add: message_at_def)

lemma message_at_mint: "ids_ok s \<Longrightarrow> i < se_next_id s \<Longrightarrow> message_at (snd (mint m s)) i = message_at s i"
  using message_by_mint(1) [of s i m] by (simp add: message_at_ok ids_ok_mint)

lemma message_at_mark_replaced: "message_at (mark_replaced old new s) i = message_at s i"
  by (cases "the (se_index s old) < length (se_records s)")
    (auto simp: message_at_def mark_replaced_def Let_def nth_list_update list_update_beyond intro!: map_option_cong)

lemma extends_set_active: "extends s (set_active w ids reason close s)"
  by (auto simp: set_active_def Let_def moves_revision_def message_at_def intro: extends_moved [of _ _ "[ContextReplaced ids (Some reason)]"])

lemma extends_record:
  assumes "sound w s"
  shows "extends s (snd (record_message w m s))"
proof -
  have ok: "ids_ok s" using assms by (simp add: sound_def session_ok_iff)
  have "message_at (snd (record_message w m s)) i = message_at (snd (mint m s)) i" for i
    by (rule message_at_cong) (simp_all add: record_message_def Let_def case_prod_unfold)
  then show ?thesis using message_at_mint [OF ok]
    by (simp add: extends_def) (simp add: record_message_def Let_def case_prod_unfold moves_revision_def)
qed

lemma extends_record_all: "sound w s \<Longrightarrow> record_all w ms s = (ids, t) \<Longrightarrow> extends s t"
proof (induction ms arbitrary: s ids)
  case (Cons m ms)
  obtain is' where "record_all w ms (snd (record_message w m s)) = (is', t)"
    using Cons.prems(2) by (auto simp: case_prod_unfold Let_def prod_eq_iff)
  from Cons.IH [OF sound_record [OF Cons.prems(1)] this] show ?case
    using extends_record [OF Cons.prems(1)] extends_trans by blast
qed simp

lemma extends_edited: "sound w s \<Longrightarrow> ids_for_edited w rest ms s = (ids, t) \<Longrightarrow> extends s t"
proof (induction ms arbitrary: s rest ids)
  case (Cons m ms)
  show ?case
  proof (cases "position_of m (map (message_by s) rest)")
    case None
    then obtain is' where "ids_for_edited w rest ms (snd (record_message w m s)) = (is', t)"
      using Cons.prems(2) by (auto simp: case_prod_unfold Let_def prod_eq_iff)
    from Cons.IH [OF sound_record [OF Cons.prems(1)] this] show ?thesis
      using extends_record [OF Cons.prems(1)] extends_trans by blast
  next
    case (Some k)
    then obtain is' where "ids_for_edited w (drop (Suc k) rest) ms s = (is', t)"
      using Cons.prems(2) by (auto simp: case_prod_unfold Let_def prod_eq_iff)
    from Cons.IH [OF Cons.prems(1) this] show ?thesis .
  qed
qed simp

lemma extends_push:
  assumes "sound w s"
  shows "extends s (snd (push_message w m s))"
proof (rule extends_moved)
  have ok: "ids_ok s" using assms by (simp add: sound_def session_ok_iff)
  fix i assume "i < se_next_id s"
  moreover have "message_at (snd (push_message w m s)) i = message_at (snd (mint m s)) i"
    by (rule message_at_cong) (simp_all add: push_message_def Let_def case_prod_unfold)
  ultimately show "message_at (snd (push_message w m s)) i = message_at s i" using message_at_mint [OF ok] by simp
qed (simp_all add: push_message_def Let_def case_prod_unfold moves_revision_def)

lemma extends_replace:
  assumes "sound w s" "replace_message w old m s = Inr (new, t)"
  shows "extends s t"
proof -
  have ok: "ids_ok s" using assms(1) by (simp add: sound_def session_ok_iff)
  let ?u = "mark_replaced old (se_next_id s) (snd (mint m s))"
  obtain a where t: "t = after_projection_change w (log_event w (MessageReplaced old (se_next_id s) m) (?u\<lparr>se_active := a\<rparr>))"
    using assms(2) by (auto simp: replace_message_def Let_def case_prod_unfold split: sum.splits option.splits)
  show ?thesis
  proof (rule extends_moved)
    fix i assume "i < se_next_id s"
    moreover have "message_at t i = message_at ?u i" by (rule message_at_cong) (simp_all add: t)
    ultimately show "message_at t i = message_at s i"
      using message_at_mint [OF ok] message_at_mark_replaced by simp
  qed (simp_all add: t moves_revision_def)
qed

lemma extends_remove: "remove_message w i s = Inr t \<Longrightarrow> extends s t"
  by (auto simp: remove_message_def Let_def moves_revision_def message_at_def split: sum.splits option.splits
      intro!: extends_moved [of _ _ "[MessageRemoved i]"])

lemma extends_fork_with: "extends s (fork_with w sid active at s)"
  by (rule extends_moved [of _ _ "[Forked (se_id s) at]"]) (simp_all add: fork_with_def moves_revision_def message_at_def)

lemma step_extends: "session_step w s t \<Longrightarrow> sound w s \<Longrightarrow> extends s t"
proof (induction rule: session_step.induct)
  case (System s sys)
  show ?case by (auto simp: put_system_def moves_revision_def message_at_def intro: extends_moved [of _ _ "[SystemSet sys]"])
next
  case (Tools s ts)
  show ?case by (auto simp: put_tools_def moves_revision_def message_at_def intro: extends_moved [of _ _ "[ToolsSet ts]"])
next
  case (ReplaceAll ms s t)
  then obtain ids u where "record_all w ms s = (ids, u)" "t = set_active w ids ''replace_messages'' True u"
    by (cases "record_all w ms s") (auto simp: replace_messages_def Let_def split: option.splits)
  then show ?case using extends_record_all [OF ReplaceAll.prems] extends_set_active extends_trans by blast
next
  case (Edit s f)
  obtain ids u where u: "ids_for_edited w (se_active s) (f (se_projection s)) s = (ids, u)"
    by (cases "ids_for_edited w (se_active s) (f (se_projection s)) s")
  have "extends u (u\<lparr>se_opened := False\<rparr>)" by (rule extends_same) (simp_all add: derived_def)
  then have "extends u (edit_session w f s)" using extends_set_active by (simp add: edit_session_def u Let_def)
  then show ?case using extends_edited [OF Edit.prems u] extends_trans by blast
next
  case (Clear s)
  let ?u = "if se_active s \<noteq> [] then set_active w [] ''clear'' True s else s"
  have "extends ?u (clear_session w s)" by (rule extends_same) (simp_all add: clear_session_def Let_def derived_def)
  moreover have "extends s ?u" by (simp add: extends_set_active)
  ultimately show ?case using extends_trans by blast
next
  case (Rollback s n)
  show ?case by (simp add: rollback_to_def extends_set_active)
next
  case (Restore ids s t)
  then show ?case by (auto simp: restore_context_def extends_set_active split: option.splits)
next
  case (ForkAt sid at s t)
  then show ?case by (auto simp: fork_at_def Let_def extends_fork_with split: sum.splits option.splits)
qed (auto simp: extends_push extends_replace extends_remove fork_def extends_fork_with
    note_shed_def note_engine_def note_model_def note_thinking_def note_tools_def record_prefix_def Let_def derived_def
    intro!: extends_same)

text \<open>
  C10: History is never lost. Any operation of a session, a fork included, leaves the log it found in
  front of its own events and every recorded message under its id, and the context the model sees is
  changed only under a later revision.\<close>
theorem session_history_grows:
  assumes "session_reach w s" "session_step w s t"
  shows "extends s t"
  using step_extends [OF assms(2) reach_sound [OF assms(1)]] .

lemma reach_star:
  assumes "session_reach w s" "(session_step w)\<^sup>*\<^sup>* s t"
  shows "session_reach w t \<and> extends s t"
  using assms(2,1)
proof (induction rule: rtranclp_induct)
  case (step t u)
  then show ?case using Step step_extends [OF step.hyps(2) reach_sound] extends_trans by blast
qed simp

section \<open>An edit leaves whole rounds\<close>

definition nonempty_call_ids :: "message \<Rightarrow> bool" where
  "nonempty_call_ids m \<longleftrightarrow> msg_tool_call_id m \<noteq> Some [] \<and> [] \<notin> set (calls_of m)"

lemma walk_declared:
  "round_walk lk d a l ids = Inr (d', a') \<Longrightarrow> c \<in> set d' \<Longrightarrow>
   c \<in> set d \<or> (\<exists>i \<in> set ids. \<exists>m. lk i = Some m \<and> c \<in> set (calls_of m))"
  by (induction lk d a l ids rule: round_walk.induct) (fastforce split: option.splits if_splits list.splits)+

lemma walk_orphan:
  assumes "round_walk lk d a l ids = Inl e" "\<forall>i \<in> set ids. \<forall>m. lk i = Some m \<longrightarrow> nonempty_call_ids m" "[] \<notin> set l"
  shows "\<exists>c. e = OrphanResult c \<and> (if c = [] then \<exists>i. (i, []) \<in> set (attribute_legacy lk l ids)
     else \<exists>i \<in> set ids. \<exists>m. lk i = Some m \<and> is_result m \<and> msg_tool_call_id m = Some c)"
  using assms
  by (induction lk d a l ids rule: round_walk.induct)
    (fastforce simp: nonempty_call_ids_def split: option.splits if_splits list.splits)+

lemma trim_whole:
  assumes "ids_ok s" "set ids \<subseteq> {..<se_next_id s}" "\<forall>i \<in> set ids. nonempty_call_ids (message_by s i)"
  shows "check_rounds_over (lookup_with s []) (trim_to_round_boundary s ids) (se_records s) = None"
  using assms
proof (induction s ids rule: trim_to_round_boundary.induct)
  case (1 s ids)
  let ?lk = "lookup_with s []"
  have lk: "?lk i = Some (message_by s i)" if "i \<in> set ids" for i
    using that "1.prems" by (auto simp: lookup_with_def message_at_ok)
  show ?case
  proof (cases "check_rounds_over ?lk ids (se_records s)")
    case None
    then show ?thesis by (simp add: trim_to_round_boundary.simps [of s ids])
  next
    case (Some e)
    have "dropped_for s ids e \<noteq> []"
    proof (cases "round_walk ?lk [] [] [] ids")
      case (Inl e')
      then have "e' = e" using Some by (simp add: check_rounds_over_def)
      with walk_orphan [OF Inl] lk "1.prems"(3) obtain c where c: "e = OrphanResult c"
        "if c = [] then \<exists>i. (i, []) \<in> set (attribute_legacy ?lk [] ids)
         else \<exists>i \<in> set ids. \<exists>m. ?lk i = Some m \<and> is_result m \<and> msg_tool_call_id m = Some c" by auto
      show ?thesis
      proof (cases "c = []")
        case True
        then have "find (\<lambda>(i, a). a = []) (attribute_legacy ?lk [] ids) \<noteq> None"
          using c(2) by (auto simp: find_None_iff)
        then show ?thesis using c(1) True by (auto simp: dropped_for_def split: option.splits)
      next
        case False
        then show ?thesis using c lk by (auto simp: dropped_for_def filter_empty_conv)
      qed
    next
      case (Inr r)
      obtain d a where r: "r = (d, a)" by (cases r)
      then obtain c where c: "e = UnansweredCall c" "c \<in> set d"
        using Some Inr by (auto simp: check_rounds_over_def dest!: find_in)
      then show ?thesis
        using walk_declared [OF Inr [unfolded r] c(2)] lk by (auto simp: dropped_for_def filter_empty_conv makes_call_def)
    qed
    then show ?thesis using "1.IH" [OF Some] "1.prems" Some by (subst trim_to_round_boundary.simps) auto
  qed
qed

lemma trim_id: "check_rounds_over (lookup_with s []) ids (se_records s) = None \<Longrightarrow> trim_to_round_boundary s ids = ids"
  by (simp add: trim_to_round_boundary.simps [of s ids])

lemma sound_edited: "sound w s \<Longrightarrow> ids_for_edited w rest ms s = (ids, t) \<Longrightarrow> sound w t"
proof (induction ms arbitrary: s rest ids)
  case (Cons m ms)
  show ?case
  proof (cases "position_of m (map (message_by s) rest)")
    case None
    then obtain is' where "ids_for_edited w rest ms (snd (record_message w m s)) = (is', t)"
      using Cons.prems(2) by (auto simp: case_prod_unfold Let_def prod_eq_iff)
    from Cons.IH [OF sound_record [OF Cons.prems(1)] this] show ?thesis .
  next
    case (Some k)
    then obtain is' where "ids_for_edited w (drop (Suc k) rest) ms s = (is', t)"
      using Cons.prems(2) by (auto simp: case_prod_unfold Let_def prod_eq_iff)
    from Cons.IH [OF Cons.prems(1) this] show ?thesis .
  qed
qed simp

lemma edited_messages:
  assumes "sound w s" "set rest \<subseteq> {..<se_next_id s}" "ids_for_edited w rest ms s = (ids, t)"
  shows "map (message_by t) ids = ms"
  using assms
proof (induction ms arbitrary: s rest ids)
  case (Cons m ms)
  have kept: "message_by t i = message_by u i" if "sound w u" "ids_for_edited w r ms' u = (is, t)" "i < se_next_id u"
    for u r ms' "is" i
    using extends_edited [OF that(1,2)] sound_edited [OF that(1,2)] that(1,3) by (auto simp: extends_def message_at_ok sound_def session_ok_iff)
  show ?case
  proof (cases "position_of m (map (message_by s) rest)")
    case None
    let ?s1 = "snd (record_message w m s)"
    have n1: "se_next_id ?s1 = Suc (se_next_id s)" "fst (record_message w m s) = se_next_id s"
      by (simp_all add: record_message_def Let_def case_prod_unfold)
    obtain is' where r: "ids_for_edited w rest ms ?s1 = (is', t)" "ids = se_next_id s # is'"
      using Cons.prems(3) None n1(2) by (auto simp: case_prod_unfold Let_def prod_eq_iff)
    have s1: "sound w ?s1" using Cons.prems(1) by (rule sound_record)
    have "set rest \<subseteq> {..<se_next_id ?s1}" using Cons.prems(2) n1(1) by auto
    note ih = Cons.IH [OF s1 this r(1)]
    have ok: "ids_ok s" using Cons.prems(1) by (simp add: sound_def session_ok_iff)
    have "message_by ?s1 (se_next_id s) = m"
      using message_by_mint(2) [OF ok, of m] by (simp add: record_message_def Let_def case_prod_unfold)
    then show ?thesis using ih kept [OF s1 r(1), of "se_next_id s"] n1(1) r(2) by simp
  next
    case (Some k)
    obtain is' where r: "ids_for_edited w (drop (Suc k) rest) ms s = (is', t)" "ids = rest ! k # is'"
      using Cons.prems(3) Some by (auto simp: case_prod_unfold Let_def prod_eq_iff)
    have k: "k < length rest" "message_by s (rest ! k) = m" using position_of_Some [OF Some] by auto
    have "set (drop (Suc k) rest) \<subseteq> {..<se_next_id s}" using Cons.prems(2) set_drop_subset by fast
    note ih = Cons.IH [OF Cons.prems(1) this r(1)]
    have "rest ! k < se_next_id s" using k(1) Cons.prems(2) nth_mem by fastforce
    then show ?thesis using ih kept [OF Cons.prems(1) r(1)] k r(2) by simp
  qed
qed simp

lemma round_walk_cong: "map lk ids = map lk' ids' \<Longrightarrow> round_walk lk d a l ids = round_walk lk' d a l ids'"
proof (induction lk d a l ids arbitrary: ids' rule: round_walk.induct)
  case (2 lk d a l i "is")
  then obtain i' is' where i: "ids' = i' # is'" "lk i = lk' i'" "map lk is = map lk' is'" by (auto simp: Cons_eq_map_conv)
  show ?case unfolding i(1) using "2.IH" i(2,3) by (auto split: option.split list.split)
qed simp

lemma edit_result:
  assumes "sound w s" "ids_for_edited w (se_active s) (f (se_projection s)) s = (ids, u)"
  defines "t \<equiv> edit_session w f s"
  shows "se_active t = trim_to_round_boundary u ids" "se_records t = se_records u" "se_index t = se_index u"
    "se_projection t = map (message_by u) (trim_to_round_boundary u ids)" "map (message_by u) ids = f (se_projection s)"
proof -
  have u: "sound w u" by (rule sound_edited [OF assms(1,2)])
  have "sound w t" unfolding t_def by (rule sound_edit [OF assms(1)])
  then have p: "se_projection t = map (message_by t) (se_active t)" by (simp add: sound_def session_ok_def)
  show a: "se_active t = trim_to_round_boundary u ids" "se_records t = se_records u" "se_index t = se_index u"
    by (simp_all add: t_def edit_session_def assms(2) Let_def set_active_def)
  show "se_projection t = map (message_by u) (trim_to_round_boundary u ids)"
    using p a message_by_cong [of t u] by simp
  show "map (message_by u) ids = f (se_projection s)"
    using assms(1) by (intro edited_messages [OF assms(1) _ assms(2)]) (auto simp: sound_def session_ok_def)
qed

text \<open>
  C11: An edit leaves whole tool rounds. Whatever the closure makes of the messages, the new projection
  shows no result without its call and no call whose answer is hidden, provided no call id is the
  empty string; it is what the closure left with messages only taken out, and all of it where no
  round was split.\<close>
theorem edit_keeps_rounds:
  assumes "session_reach w s" "\<forall>m \<in> set (f (se_projection s)). nonempty_call_ids m"
  defines "t \<equiv> edit_session w f s"
  shows "check_rounds t (se_active t) None = None \<and> subseq (se_projection t) (f (se_projection s))
    \<and> (\<forall>ids. map (message_at t) ids = map Some (f (se_projection s)) \<and> check_rounds t ids None = None \<longrightarrow>
         se_projection t = f (se_projection s))"
proof -
  note s = reach_sound [OF assms(1)]
  obtain ids u where e: "ids_for_edited w (se_active s) (f (se_projection s)) s = (ids, u)"
    by (cases "ids_for_edited w (se_active s) (f (se_projection s)) s")
  note r = edit_result [of w s f ids u, OF s e, folded t_def]
  have u: "ids_ok u" using sound_edited [OF s e] by (simp add: sound_def session_ok_iff)
  have a: "distinct (se_active s)" "set (se_active s) \<subseteq> {..<se_next_id s}" using s by (auto simp: sound_def session_ok_def)
  have "set ids \<subseteq> {..<se_next_id u}" using ids_for_edited_spec [OF s a order_refl e] a(2) by fastforce
  moreover have "\<forall>i \<in> set ids. nonempty_call_ids (message_by u i)" using assms(2) r(5) by (metis image_eqI list.set_map)
  ultimately have "check_rounds_over (lookup_with u []) (trim_to_round_boundary u ids) (se_records u) = None"
    by (rule trim_whole [OF u])
  moreover have "lookup_with t [] = lookup_with u []" by (simp add: lookup_with_def fun_eq_iff message_at_def r(2,3))
  ultimately have "check_rounds t (se_active t) None = None" by (simp add: check_rounds_def r)
  moreover have "subseq (se_projection t) (f (se_projection s))"
    unfolding r(4) r(5) [symmetric] by (intro subseq_map trim_subseq)
  moreover have "se_projection t = f (se_projection s)"
    if "map (message_at t) ids' = map Some (f (se_projection s))" "check_rounds t ids' None = None" for ids'
  proof -
    have "map (message_at u) ids = map Some (map (message_by u) ids)"
      using \<open>set ids \<subseteq> _\<close> message_at_ok [OF u] by auto
    moreover have "lookup_with v [] = message_at v" for v by (simp add: lookup_with_def fun_eq_iff)
    ultimately have "map (lookup_with t []) ids' = map (lookup_with u []) ids" using that(1) r(5) by simp
    from round_walk_cong [OF this] have "check_rounds_over (lookup_with u []) ids (se_records u) = None"
      using that(2) by (simp add: check_rounds_def check_rounds_over_def r(2))
    then show ?thesis using r(4,5) by (simp add: trim_id)
  qed
  ultimately show ?thesis by blast
qed

section \<open>Samples\<close>

definition sample_wire :: session_wire where
  "sample_wire = \<lparr>sw_json = (\<lambda>_. ''{}''), sw_message = (\<lambda>m. Some (message_text m))\<rparr>"

definition sample_call :: message where
  "sample_call = assistant_tool_calls [\<lparr>tc_id = ''a'', tc_type = ''function'',
     tc_function = \<lparr>fd_description = None, fd_name = ''read'', fd_arguments = JNull\<rparr>\<rparr>]"

text \<open>A question, a call and its result under a system prompt.\<close>

definition sample_session :: session where
  "sample_session =
     snd (push_tool_result sample_wire ''a'' ''done''
       (snd (push_message sample_wire sample_call
         (snd (push_message sample_wire (user_msg ''hi'') (put_system sample_wire (Some ''be brief'') (blank ''s'')))))))"

lemma reach_sample: "session_reach sample_wire sample_session"
  unfolding sample_session_def push_tool_result_def
  by (rule Step [OF Step [OF Step [OF Step [OF New System] Push] Push] Push])

lemmas session_eval =
  sample_session_def sample_call_def push_tool_result_def push_message_def put_system_def blank_def mint_def
  Let_def moves_revision_def log_event_sel message_constructor_defs

lemma sample_sel:
  "se_active sample_session = [0, 1, 2]" "se_next_id sample_session = 3" "se_revision sample_session = 4"
  "se_projection sample_session = [user_msg ''hi'', sample_call, tool_result_for ''a'' ''done'']"
  "se_id sample_session = ''s''" "se_system sample_session = Some ''be brief''"
  by (simp_all add: session_eval)

lemma session_is_replay_witness:
  "se_projection (deserialize_session sample_wire ''s'' (se_events sample_session) [])
     = [user_msg ''hi'', sample_call, tool_result_for ''a'' ''done'']"
  using session_is_replay [OF reach_sample] by (simp add: restored_def sample_sel)

lemma session_history_grows_witness:
  "extends sample_session (edit_session sample_wire (take 2) sample_session)"
  by (rule session_history_grows [OF reach_sample Edit])

text \<open>The closure takes the result away; the call goes with it.\<close>

lemma edit_keeps_rounds_witness:
  "subseq (se_projection (edit_session sample_wire (take 2) sample_session)) [user_msg ''hi'', sample_call]
    \<and> check_rounds (edit_session sample_wire (take 2) sample_session)
        (se_active (edit_session sample_wire (take 2) sample_session)) None = None"
  using edit_keeps_rounds [OF reach_sample, of "take 2"]
  by (simp add: sample_sel nonempty_call_ids_def calls_of_def sample_call_def message_constructor_defs numeral_2_eq_2)

text \<open>With an empty call id an edit leaves the orphan it found.\<close>

lemma edit_keeps_empty_orphan:
  "check_rounds (edit_session w id (snd (push_tool_result w [] ''x'' (blank ''s''))))
     (se_active (edit_session w id (snd (push_tool_result w [] ''x'' (blank ''s''))))) None = Some (OrphanResult [])"
proof -
  let ?s = "snd (push_tool_result w [] ''x'' (blank ''s''))"
  have sel: "se_active ?s = [0]" "se_projection ?s = [tool_result_for [] ''x'']" "message_by ?s 0 = tool_result_for [] ''x''"
    "lookup_with ?s [] 0 = Some (tool_result_for [] ''x'')"
    by (simp_all add: push_tool_result_def push_message_def mint_def blank_def message_by_def lookup_with_def message_at_def
        Let_def log_event_sel)
  have c: "check_rounds_over (lookup_with ?s []) [0] rs = Some (OrphanResult [])" for rs
    by (simp add: check_rounds_over_def sel calls_of_def is_result_def message_constructor_defs)
  have "dropped_for ?s [0] (OrphanResult []) = []"
    by (simp add: dropped_for_def sel calls_of_def is_result_def message_constructor_defs)
  then have "edit_session w id ?s = ?s\<lparr>se_opened := False\<rparr>"
    using c by (simp add: edit_session_def sel trim_to_round_boundary.simps [of ?s])
  moreover have "lookup_with (?s\<lparr>se_opened := False\<rparr>) [] = lookup_with ?s []"
    by (simp add: lookup_with_def message_at_def fun_eq_iff)
  ultimately show ?thesis using c by (simp add: check_rounds_def sel)
qed

text \<open>A new session's digest is not the one it has after it was saved and read back.\<close>

text \<open>The low byte of the hash is a hash of its own.\<close>

lemma low_byte_mult: "(ucast (a * b :: 64 word) :: 8 word) = ucast a * ucast b"
proof (transfer)
  fix a b :: int
  show "take_bit LENGTH(8) (take_bit LENGTH(64) (a * b)) = take_bit LENGTH(8) (take_bit LENGTH(64) a * take_bit LENGTH(64) b)"
    using take_bit_mult [of 8 "take_bit 64 a" "take_bit 64 b"] take_bit_mult [of 8 a b] by (simp add: take_bit_take_bit)
qed

lemma low_byte_nat: "(ucast (word_of_nat n :: 64 word) :: 8 word) = word_of_nat n"
  by transfer simp

lemma low_byte_constants: "(ucast fnv_prime :: 8 word) = 179" "(ucast (255 :: 64 word) :: 8 word) = 255"
  "(ucast fnv_offset :: 8 word) = 37"
  by (simp_all add: fnv_prime_def fnv_offset_def)

definition low_bytes :: "8 word \<Rightarrow> string \<Rightarrow> 8 word" where
  "low_bytes l s = foldl (\<lambda>l b. xor l (word_of_nat (of_char b)) * 179) l s"

lemma low_bytes_simps: "low_bytes l [] = l" "low_bytes l (char_of n # s) = low_bytes (xor l (word_of_nat (n mod 256)) * 179) s"
  by (simp_all add: low_bytes_def)

lemma low_byte_fnv: "(ucast (fnv_byte h b) :: 8 word) = xor (ucast h) (word_of_nat (of_char b)) * 179"
  by (simp only: fnv_byte_def low_byte_mult unsigned_xor_eq low_byte_nat low_byte_constants)

lemma low_byte_feed: "(ucast (fnv_feed h s) :: 8 word) = xor (low_bytes (ucast h) s) 255 * 179"
proof -
  have "(ucast (foldl fnv_byte h s) :: 8 word) = low_bytes (ucast h) s" for h
    by (induction s arbitrary: h) (simp_all add: low_byte_fnv low_bytes_def)
  then show ?thesis by (simp only: fnv_feed_def low_byte_mult unsigned_xor_eq low_byte_constants)
qed

lemma fresh_digest_changes:
  "se_fingerprint (blank sid) = 0 \<and> se_revision (deserialize_session w sid [] []) = se_revision (blank sid)
    \<and> se_fingerprint (deserialize_session w sid [] []) \<noteq> 0"
proof -
  have upto8: "[0..<8] = [0, 1, 2, 3, 4, 5, 6, 7]" by (simp add: upt_rec)
  have none: "fnv [] = fnv_offset" by (simp add: fnv_def)
  have tools: "le_u64 (unat fnv_offset) = map char_of [37 :: nat, 35, 34, 132, 228, 156, 242, 203]"
    by (simp add: le_u64_def enc_le_def fnv_offset_def upto8)
  have zero: "le_u64 0 = map char_of [0 :: nat, 0, 0, 0, 0, 0, 0, 0]" by (simp add: le_u64_def enc_le_def upto8)
  have "(ucast (fnv [le_u64 0, le_u64 (unat fnv_offset)]) :: 8 word)
      = xor (low_bytes (xor (low_bytes 37 (le_u64 0)) 255 * 179) (le_u64 (unat fnv_offset))) 255 * 179"
    by (simp only: fnv_def foldl.simps low_byte_feed low_byte_constants)
  also have "\<dots> = 224" by (simp only: zero tools list.map low_bytes_simps) simp
  finally have fields: "fnv [le_u64 0, le_u64 (unat (fnv []))] \<noteq> 0" unfolding none by auto
  have "se_fingerprint (deserialize_session w sid [] []) = fnv [le_u64 0, le_u64 (unat (fnv []))]"
    by (simp add: deserialize_session_def replay_def rebuild_projection_def Let_def blank_def compute_fingerprint_def
        toolset_fingerprint_def)
  then show ?thesis using fields by (simp add: deserialize_session_def replay_def Let_def) (simp add: blank_def)
qed

end
