(* ===== verification/Dispatch.thy ===== *)
theory Dispatch
  imports Session ToolCalls
begin

text \<open>
  A chat turn (\<^verbatim>\<open>src/api/chat.rs\<close>): what of a session is sent to an engine, what an acknowledgement
  records, and the loop that runs a turn's tools.  An engine as a session sees it is its id, the
  generation of its model, what media it accepts, whether its controller still takes commands, and the
  count of messages it is known to hold per chat (\<^verbatim>\<open>src/api/engine.rs\<close>).
\<close>

section \<open>Media an engine accepts\<close>

record media_caps =
  mc_images :: bool
  mc_audio :: bool
  mc_video :: bool
  mc_microphone :: bool

definition media_parts :: "message list \<Rightarrow> message_chunk list" where
  "media_parts ms =
     filter (\<lambda>c. case c of TextChunk _ \<Rightarrow> False | _ \<Rightarrow> True)
       (concat (map (\<lambda>m. case msg_body m of Content (MultipleChunks cs) \<Rightarrow> cs | _ \<Rightarrow> []) ms))"

definition refused_medium :: "media_caps \<Rightarrow> message_chunk \<Rightarrow> string option" where
  "refused_medium caps c =
     (let unless = (\<lambda>ok name. if ok then None else Some name) in
      case c of
        ImageUrl _ \<Rightarrow> unless (mc_images caps) ''images''
      | AudioPcm _ \<Rightarrow> unless (mc_audio caps) ''audio input''
      | Microphone \<Rightarrow> unless (mc_microphone caps) ''microphone input''
      | VideoChunk _ _ \<Rightarrow> unless (mc_video caps) ''video input''
      | TextChunk _ \<Rightarrow> None)"

fun find_map :: "('a \<Rightarrow> 'b option) \<Rightarrow> 'a list \<Rightarrow> 'b option" where
  "find_map f [] = None"
| "find_map f (x # xs) = (case f x of Some y \<Rightarrow> Some y | None \<Rightarrow> find_map f xs)"

definition unsupported_media :: "media_caps \<Rightarrow> message list \<Rightarrow> string option" where
  "unsupported_media caps ms = find_map (refused_medium caps) (media_parts ms)"

section \<open>The engine\<close>

record engine_view =
  ev_engine :: nat
  ev_generation :: nat
  ev_caps :: media_caps
  ev_alive :: bool
  ev_sent :: "(string \<times> nat) list"

definition sent_through :: "engine_view \<Rightarrow> string \<Rightarrow> nat" where
  "sent_through e sid = (case map_of (ev_sent e) sid of Some n \<Rightarrow> n | None \<Rightarrow> 0)"

definition max_tracked :: nat where
  "max_tracked = 1024"

definition mark_sent :: "string \<Rightarrow> nat \<Rightarrow> engine_view \<Rightarrow> engine_view" where
  "mark_sent sid count e =
     (let m = (if max_tracked \<le> length (ev_sent e) \<and> map_of (ev_sent e) sid = None then [] else ev_sent e) in
      e\<lparr>ev_sent := (sid, count) # filter (\<lambda>(k, _). k \<noteq> sid) m\<rparr>)"

definition forget_session :: "string \<Rightarrow> engine_view \<Rightarrow> engine_view" where
  "forget_session sid e = e\<lparr>ev_sent := filter (\<lambda>(k, _). k \<noteq> sid) (ev_sent e)\<rparr>"

section \<open>Dispatching a turn\<close>

definition wire_spec :: "tool_definition \<Rightarrow> tool_spec" where
  "wire_spec d =
     \<lparr>ts_type = ''function'',
      ts_function = \<lparr>fd_description = Some (td_description d), fd_name = td_name d, fd_arguments = td_schema d\<rparr>\<rparr>"

definition tool_prompt :: string where
  "tool_prompt = ''Call a tool when you need information or an action. Answer directly when you don't.''"

definition offered_fields :: "session_wire \<Rightarrow> tool_spec list \<times> string \<Rightarrow> string list" where
  "offered_fields w offer =
     snd offer # concat (map (\<lambda>t. let f = ts_function t in
       [fd_name f, (case fd_description f of Some d \<Rightarrow> d | None \<Rightarrow> []), sw_json w (fd_arguments f)]) (fst offer))"

definition offered_fingerprint :: "session_wire \<Rightarrow> (tool_spec list \<times> string) option \<Rightarrow> 64 word" where
  "offered_fingerprint w tools = (case tools of None \<Rightarrow> 0 | Some offer \<Rightarrow> fnv (offered_fields w offer))"

text \<open>A turn being configured; \<open>'g\<close> stands for the generation settings, which are passed through.\<close>

record 'g chat =
  ch_mark :: nat
  ch_spec :: 'g
  ch_thinking :: thinking_mode
  ch_tools :: "(tool_spec list \<times> string) option"
  ch_suppress_tools :: bool
  ch_system_override :: "string option option"

datatype 'g chat_command =
    StartChat string "message list" 'g thinking_mode "(tool_spec list \<times> string) option"
  | ContinueChat string "message list" "message list" 'g thinking_mode "(tool_spec list \<times> string) option"

datatype chat_error = UnsupportedMedia string | ControllerGone

definition offered_tools :: "'g chat \<Rightarrow> session \<Rightarrow> (tool_spec list \<times> string) option" where
  "offered_tools c s =
     (if ch_suppress_tools c then None
      else case ch_tools c of
        Some t \<Rightarrow> Some t
      | None \<Rightarrow> if se_tools s = [] then None else Some (map wire_spec (se_tools s), tool_prompt))"

text \<open>The steps before the check of the media: which engine, which model, which policy, which prefix.\<close>

definition announce :: "engine_view \<Rightarrow> 'g chat \<Rightarrow> message list \<Rightarrow> session \<Rightarrow> session" where
  "announce e c tail s =
     (let s1 = snd (note_thinking (ch_thinking c) (snd (note_model (ev_generation e) (snd (note_engine (ev_engine e) s))))) in
      if ch_system_override c \<noteq> None \<or> list_ex (\<lambda>m. msg_role m = ''assistant'') tail then s1\<lparr>se_opened := False\<rparr> else s1)"

text \<open>Whether the engine may append, checked against what it holds.\<close>

definition verify_prefix :: "session_wire \<Rightarrow> engine_view \<Rightarrow> session \<Rightarrow> session" where
  "verify_prefix w e s =
     (let held = sent_through e (se_id s) in
      if se_opened s \<and> \<not> (prefix_still_held w held (se_offered s) s \<and> tail_is_appendable held s)
      then s\<lparr>se_opened := False\<rparr> else s)"

definition chat_command :: "engine_view \<Rightarrow> 'g chat \<Rightarrow> message list \<Rightarrow> (tool_spec list \<times> string) option \<Rightarrow> session \<Rightarrow> 'g chat_command" where
  "chat_command e c tail tools s =
     (let held = sent_through e (se_id s);
          messages = (case ch_system_override c of
                        Some sys \<Rightarrow> transcript_with_system sys s | None \<Rightarrow> pending held s) @ tail in
      if \<not> se_opened s then StartChat (se_id s) messages (ch_spec c) (ch_thinking c) tools
      else ContinueChat (se_id s) messages (take held (transcript s)) (ch_spec c) (ch_thinking c) tools)"

definition begin_with_wire_tail ::
  "session_wire \<Rightarrow> engine_view \<Rightarrow> 'g chat \<Rightarrow> message list \<Rightarrow> session \<Rightarrow> (chat_error + 'g chat_command) \<times> session"
where
  "begin_with_wire_tail w e c tail s =
     (let s1 = announce e c tail s in
      case unsupported_media (ev_caps e) (se_projection s1) of
        Some name \<Rightarrow> (Inl (UnsupportedMedia name), rollback_to w (ch_mark c) s1)
      | None \<Rightarrow>
          let tools = offered_tools c s1;
              s2 = verify_prefix w e (s1\<lparr>se_offered := offered_fingerprint w tools\<rparr>) in
          if ev_alive e then (Inr (chat_command e c tail tools s2), s2) else (Inl ControllerGone, s2))"

definition begin_chat :: "session_wire \<Rightarrow> engine_view \<Rightarrow> 'g chat \<Rightarrow> session \<Rightarrow> (chat_error + 'g chat_command) \<times> session" where
  "begin_chat w e c s = begin_with_wire_tail w e c [] s"

definition begin_microphone ::
  "session_wire \<Rightarrow> engine_view \<Rightarrow> 'g chat \<Rightarrow> message list \<Rightarrow> session \<Rightarrow> (chat_error + 'g chat_command) \<times> session"
where
  "begin_microphone w e c staged s =
     begin_with_wire_tail w e c (staged @ [plain_message ''user'' (Content (MultipleChunks [Microphone]))]) s"

text \<open>What the acknowledgement of a turn records; \<open>None\<close> when none was read.\<close>

definition settle_turn :: "session_wire \<Rightarrow> nat option \<Rightarrow> engine_view \<Rightarrow> session \<Rightarrow> engine_view \<times> session" where
  "settle_turn w accepted e s =
     (case accepted of
        None \<Rightarrow> (e, s)
      | Some delivered \<Rightarrow>
          let already = (if se_opened s then sent_through e (se_id s) else 0) in
          (mark_sent (se_id s) (already + delivered) e,
           record_prefix w (already + delivered) (s\<lparr>se_opened := True\<rparr>)))"

section \<open>The tool loop\<close>

datatype budget = StepBudget | TokenBudget | DeadlineBudget

datatype struggle = RepeatingCall string nat | ToolKeepsFailing string nat

datatype finish_reason = Eos | Stopped | ToolDepthReached | OutOfBudget budget | GaveUp struggle

text \<open>The statistics of a completion are carried along and decide nothing; they are left out.\<close>

record completion =
  co_text :: string
  co_finish :: finish_reason
  co_tool_calls :: "parsed_call list"
  co_dropped :: nat
  co_compacted :: nat
  co_tool_rounds :: nat

definition default_tool_depth :: nat where
  "default_tool_depth = 7"

text \<open>The JSON parser is the library's: \<open>parse\<close>.\<close>

definition as_message_call :: "(string \<Rightarrow> json_value option) \<Rightarrow> parsed_call \<Rightarrow> tool_call" where
  "as_message_call parse c =
     \<lparr>tc_id = (case pc_id c of Some i \<Rightarrow> i | None \<Rightarrow> pc_name c), tc_type = ''function'',
      tc_function = \<lparr>fd_description = None, fd_name = pc_name c,
        fd_arguments = (case parse (pc_arguments c) of Some v \<Rightarrow> v | None \<Rightarrow> JString (pc_arguments c))\<rparr>\<rparr>"

text \<open>
  \<open>run\<close> is the rest of the world: it drains the stream of a command, giving the completion or an error
  and what was acknowledged, and leaves an engine and a world.  A handler's answers are part of the
  world too.
\<close>

record ('g, 'x) chat_world =
  cw_run :: "'g chat_command \<Rightarrow> engine_view \<times> 'x \<Rightarrow> (chat_error + completion \<times> nat option) \<times> engine_view \<times> 'x"
  cw_handler :: "parsed_call \<Rightarrow> 'x \<Rightarrow> string \<times> 'x"

definition one_turn ::
  "session_wire \<Rightarrow> ('g, 'x) chat_world \<Rightarrow> 'g chat \<Rightarrow> engine_view \<times> 'x \<Rightarrow> session
    \<Rightarrow> (chat_error + completion) \<times> (engine_view \<times> 'x) \<times> session"
where
  "one_turn w cw c ex s =
     (case begin_chat w (fst ex) c s of
        (Inl err, s1) \<Rightarrow> (Inl err, ex, s1)
      | (Inr cmd, s1) \<Rightarrow>
          (case cw_run cw cmd ex of
             (Inl err, ex1) \<Rightarrow> (Inl err, ex1, s1)
           | (Inr (done, accepted), e1, x1) \<Rightarrow>
               (case settle_turn w accepted e1 s1 of
                  (e2, s2) \<Rightarrow> (Inr done, (e2, x1), note_shed (co_dropped done + co_compacted done) s2))))"

definition push_reply :: "session_wire \<Rightarrow> completion \<Rightarrow> session \<Rightarrow> session" where
  "push_reply w done s = snd (push_message w (assistant_structured (co_text done) None) s)"

definition send_plain ::
  "session_wire \<Rightarrow> ('g, 'x) chat_world \<Rightarrow> 'g chat \<Rightarrow> engine_view \<times> 'x \<Rightarrow> session
    \<Rightarrow> (chat_error + completion) \<times> (engine_view \<times> 'x) \<times> session"
where
  "send_plain w cw c ex s =
     (case one_turn w cw c ex s of
        (Inl err, ex1, s1) \<Rightarrow> (Inl err, ex1, s1)
      | (Inr done, ex1, s1) \<Rightarrow> (Inr done, ex1, push_reply w done s1))"

fun run_handlers ::
  "session_wire \<Rightarrow> (string \<Rightarrow> json_value option) \<Rightarrow> ('g, 'x) chat_world \<Rightarrow> parsed_call list \<Rightarrow> 'x \<Rightarrow> session \<Rightarrow> 'x \<times> session"
where
  "run_handlers w parse cw [] x s = (x, s)"
| "run_handlers w parse cw (c # cs) x s =
     (let (r, x1) = cw_handler cw c x in
      run_handlers w parse cw cs x1 (snd (push_message w (tool_result_for (tc_id (as_message_call parse c)) r) s)))"

text \<open>The loop; \<open>left\<close> is the depth limit less the rounds.\<close>

fun tool_loop ::
  "session_wire \<Rightarrow> (string \<Rightarrow> json_value option) \<Rightarrow> ('g, 'x) chat_world \<Rightarrow> 'g chat \<Rightarrow> nat \<Rightarrow> nat \<Rightarrow> engine_view \<times> 'x \<Rightarrow> session
    \<Rightarrow> (chat_error + completion) \<times> (engine_view \<times> 'x) \<times> session"
where
  "tool_loop w parse cw c left rounds ex s =
     (case one_turn w cw (c\<lparr>ch_mark := length (se_active s), ch_suppress_tools := False, ch_system_override := None\<rparr>) ex s of
        (Inl err, ex1, s1) \<Rightarrow> (Inl err, ex1, s1)
      | (Inr answer, ex1, s1) \<Rightarrow>
          let done = answer\<lparr>co_tool_rounds := rounds\<rparr> in
          if co_tool_calls done = [] then (Inr done, ex1, push_reply w done s1)
          else let s2 = snd (push_message w (assistant_tool_calls (map (as_message_call parse) (co_tool_calls done))) s1) in
            (case left of
               0 \<Rightarrow> (Inr (done\<lparr>co_finish := ToolDepthReached\<rparr>), ex1, s2)
             | Suc n \<Rightarrow>
                 (case run_handlers w parse cw (co_tool_calls done) (snd ex1) s2 of
                    (x2, s3) \<Rightarrow> tool_loop w parse cw c n (Suc rounds) (fst ex1, x2) s3)))"

declare tool_loop.simps [simp del]

definition send_with_tools ::
  "session_wire \<Rightarrow> (string \<Rightarrow> json_value option) \<Rightarrow> ('g, 'x) chat_world \<Rightarrow> 'g chat \<Rightarrow> nat \<Rightarrow> engine_view \<times> 'x \<Rightarrow> session
    \<Rightarrow> (chat_error + completion) \<times> (engine_view \<times> 'x) \<times> session"
where
  "send_with_tools w parse cw c depth ex s = tool_loop w parse cw c depth 0 ex s"

section \<open>A continued conversation is the whole conversation\<close>

definition serializes :: "session_wire \<Rightarrow> bool" where
  "serializes w \<longleftrightarrow> (\<forall>m. sw_message w m \<noteq> None)"

definition fnv_collides :: "string list \<Rightarrow> string list \<Rightarrow> bool" where
  "fnv_collides xs ys \<longleftrightarrow> xs \<noteq> ys \<and> fnv xs = fnv ys"

lemma le_u64_inj: "i < 2 ^ 64 \<Longrightarrow> j < 2 ^ 64 \<Longrightarrow> le_u64 i = le_u64 j \<Longrightarrow> i = j"
proof -
  assume i: "i < 2 ^ 64" "j < 2 ^ 64" and eq: "le_u64 i = le_u64 j"
  have 256: "(256 :: nat) ^ 8 = 2 ^ 64" by simp
  have "le_nat (le_u64 i) = i" "le_nat (le_u64 j) = j"
    unfolding le_u64_def by (rule le_nat_enc, unfold 256, fact i)+
  then show "i = j" using eq by metis
qed

definition system_fields :: "session \<Rightarrow> string list" where
  "system_fields s = (case se_system s of Some t \<Rightarrow> [t] | None \<Rightarrow> [])"

lemma transcript_fields: "transcript s = map system_msg (system_fields s) @ se_projection s"
  by (simp add: transcript_def transcript_with_system_def system_fields_def split: option.split)

lemma prefix_fields_eq:
  "0 < n \<Longrightarrow> prefix_fields w n fp s =
     [le_u64 (unat fp)] @ system_fields s
       @ concat (map (\<lambda>(i, m). message_fields w i m)
           (zip (take (min (n - length (system_fields s)) (length (se_active s))) (se_active s))
                (take (min (n - length (system_fields s)) (length (se_active s))) (se_projection s))))
       @ [le_u64 (min (n - length (system_fields s)) (length (se_active s)))]"
  by (simp add: prefix_fields_def system_fields_def Let_def split: option.split)

lemma length_message_fields: "serializes w \<Longrightarrow> length (message_fields w i m) = 2"
  by (auto simp: serializes_def message_fields_def split: option.splits)

lemma hd_message_fields: "hd (message_fields w i m) = le_u64 i"
  by (simp add: message_fields_def)

text \<open>Equal fields are equal prefixes, when one session comes from the other.\<close>

lemma prefix_fields_inj:
  assumes "serializes w" "sound w a" "sound w b" "extends a b" "se_next_id b \<le> 2 ^ 64"
    and "0 < n" "n \<le> transcript_len a" "n \<le> transcript_len b" "prefix_fields w n fa a = prefix_fields w n fb b"
  shows "fa = fb \<and> take n (transcript a) = take n (transcript b)"
proof -
  have oka: "ids_ok a" "se_projection a = map (message_by a) (se_active a)"
    and okb: "ids_ok b" "se_projection b = map (message_by b) (se_active b)"
    using assms(2,3) by (auto simp: sound_def session_ok_iff)
  define ka kb where "ka = n - length (system_fields a)" and "kb = n - length (system_fields b)"
  have la: "length (system_fields a) + ka = n" "ka \<le> length (se_active a)"
    and lb: "length (system_fields b) + kb = n" "kb \<le> length (se_active b)"
    using assms(6-8) oka(2) okb(2)
    by (auto simp: ka_def kb_def system_fields_def transcript_len_def split: option.splits)
  let ?za = "zip (take ka (se_active a)) (take ka (se_projection a))"
    and ?zb = "zip (take kb (se_active b)) (take kb (se_projection b))"
  let ?F = "\<lambda>(i, m). message_fields w i m"
  have eq: "[le_u64 (unat fa)] @ system_fields a @ concat (map ?F ?za) @ [le_u64 ka]
      = [le_u64 (unat fb)] @ system_fields b @ concat (map ?F ?zb) @ [le_u64 kb]"
    using assms(9) la lb prefix_fields_eq [OF assms(6)] by (simp add: ka_def kb_def min_absorb1)
  have two: "length (concat (map ?F zs)) = 2 * length zs" for zs
    by (induction zs) (auto simp: length_message_fields [OF assms(1)])
  have lz: "length ?za = ka" "length ?zb = kb" using la lb oka(2) okb(2) by auto
  have "length (system_fields a) + 2 * ka = length (system_fields b) + 2 * kb"
    using arg_cong [OF eq, of length] unfolding length_append two lz by simp
  then have k: "ka = kb" "length (system_fields a) = length (system_fields b)" using la(1) lb(1) by auto
  then have sys: "system_fields a = system_fields b" and c: "concat (map ?F ?za) = concat (map ?F ?zb)"
    and f: "le_u64 (unat fa) = le_u64 (unat fb)"
    using eq by auto
  have "fa = fb" using le_u64_inj [OF _ _ f] unsigned_less [of fa] unsigned_less [of fb]
    by (simp add: word_unat_eq_iff)
  have "map ?F ?za = map ?F ?zb"
  proof (rule concat_injective [OF c])
    show "\<forall>(x, y) \<in> set (zip (map ?F ?za) (map ?F ?zb)). length x = length y"
    proof (intro ballI, clarsimp)
      fix x y assume "(x, y) \<in> set (zip (map ?F ?za) (map ?F ?zb))"
      then have "x \<in> set (map ?F ?za)" "y \<in> set (map ?F ?zb)" by (rule set_zip_leftD, rule set_zip_rightD)
      then show "length x = length y" by (auto simp: length_message_fields [OF assms(1)])
    qed
  qed (use lz k in simp)
  then have "map hd (map ?F ?za) = map hd (map ?F ?zb)" by (simp only:)
  then have ids: "map (le_u64 \<circ> fst) ?za = map (le_u64 \<circ> fst) ?zb"
    by (simp add: comp_def split_beta hd_message_fields)
  have "take ka (se_active a) = take ka (se_active b)"
  proof (rule nth_equalityI)
    show "length (take ka (se_active a)) = length (take ka (se_active b))" using la lb k by simp
    fix j assume j: "j < length (take ka (se_active a))"
    then have "le_u64 (se_active a ! j) = le_u64 (se_active b ! j)"
      using arg_cong [OF ids, of "\<lambda>xs. xs ! j"] lz k la lb oka(2) okb(2) by simp
    moreover have "se_active a ! j < se_next_id a" "se_active b ! j < se_next_id b"
      using j la(2) lb(2) k(1) oka(1) okb(1) by (auto simp: ids_ok_def subset_eq)
    moreover have "se_next_id a \<le> se_next_id b" using assms(4) by (simp add: extends_def)
    ultimately show "take ka (se_active a) ! j = take ka (se_active b) ! j"
      using le_u64_inj [of "se_active a ! j" "se_active b ! j"] assms(5) j la lb k by simp
  qed
  moreover have "message_by a i = message_by b i" if "i \<in> set (take ka (se_active a))" for i
  proof -
    have "i < se_next_id a" using that oka(1) in_set_takeD by (fastforce simp: ids_ok_def)
    then show ?thesis using assms(4) oka(1) okb(1) by (auto simp: extends_def message_at_ok)
  qed
  ultimately have "take ka (se_projection a) = take ka (se_projection b)"
    unfolding oka(2) okb(2) take_map by (metis (no_types, lifting) map_eq_conv)
  then show ?thesis using \<open>fa = fb\<close> sys k by (simp add: transcript_fields ka_def kb_def)
qed

lemma announce_steps: "(session_step w)\<^sup>*\<^sup>* s (announce e c tail s)"
proof -
  let ?s1 = "snd (note_engine (ev_engine e) s)"
  let ?s2 = "snd (note_model (ev_generation e) ?s1)"
  let ?s3 = "snd (note_thinking (ch_thinking c) ?s2)"
  have "(session_step w)\<^sup>*\<^sup>* s ?s3"
    by (meson Engine Model Thinking rtranclp.rtrancl_into_rtrancl rtranclp.rtrancl_refl)
  moreover have "session_step w ?s3 (?s3\<lparr>se_opened := False\<rparr>)"
    using Dispatch [where s = ?s3 and b = False and fp = "se_offered ?s3"] by simp
  ultimately show ?thesis by (auto simp: announce_def Let_def intro: rtranclp.rtrancl_into_rtrancl)
qed

lemma verify_steps: "(session_step w)\<^sup>*\<^sup>* s (verify_prefix w e (s\<lparr>se_offered := fp\<rparr>))"
proof -
  have "session_step w s (s\<lparr>se_opened := b, se_offered := fp\<rparr>)" for b by (rule Dispatch)
  from this [of False] this [of "se_opened s"]
  have "session_step w s (s\<lparr>se_offered := fp, se_opened := False\<rparr>)" "session_step w s (s\<lparr>se_offered := fp\<rparr>)"
    by (cases s; simp)+
  then show ?thesis by (auto simp: verify_prefix_def Let_def)
qed

lemma begin_steps:
  assumes "begin_with_wire_tail w e c tail s = (r, t)"
  shows "(session_step w)\<^sup>*\<^sup>* s t"
proof (cases "unsupported_media (ev_caps e) (se_projection (announce e c tail s))")
  case None
  then show ?thesis
    using assms announce_steps [of w s e c tail] verify_steps [of w "announce e c tail s" e]
    by (auto simp: begin_with_wire_tail_def Let_def split: if_splits intro: rtranclp_trans)
next
  case (Some name)
  then have "t = rollback_to w (ch_mark c) (announce e c tail s)"
    using assms by (simp add: begin_with_wire_tail_def Let_def)
  then show ?thesis using announce_steps [of w s e c tail] Rollback by (metis rtranclp.rtrancl_into_rtrancl)
qed

text \<open>What a command that continues a chat was checked against.\<close>

lemma begin_continues:
  assumes "begin_with_wire_tail w e c tail s = (Inr (ContinueChat sid new held g th tools), t)"
  shows "sid = se_id t" "new = drop (sent_through e (se_id t)) (transcript t) @ tail"
    "held = take (sent_through e (se_id t)) (transcript t)" "se_offered t = offered_fingerprint w tools"
    "prefix_still_held w (sent_through e (se_id t)) (se_offered t) t"
    "tail_is_appendable (sent_through e (se_id t)) t"
proof -
  let ?s1 = "announce e c tail s"
  let ?t = "verify_prefix w e (?s1\<lparr>se_offered := offered_fingerprint w (offered_tools c ?s1)\<rparr>)"
  have t: "t = ?t" and cmd: "chat_command e c tail (offered_tools c ?s1) t = ContinueChat sid new held g th tools"
    using assms by (auto simp: begin_with_wire_tail_def Let_def split: option.splits if_splits)
  have opened: "se_opened t" and tools: "tools = offered_tools c ?s1"
    using cmd by (auto simp: chat_command_def Let_def split: if_splits)
  have "se_opened ?s1" using opened unfolding t by (auto simp: verify_prefix_def Let_def split: if_splits)
  then have "ch_system_override c = None" by (auto simp: announce_def Let_def split: if_splits)
  then show "sid = se_id t" "new = drop (sent_through e (se_id t)) (transcript t) @ tail"
      "held = take (sent_through e (se_id t)) (transcript t)"
    using cmd opened by (auto simp: chat_command_def Let_def pending_def)
  have "t = ?s1\<lparr>se_offered := offered_fingerprint w (offered_tools c ?s1)\<rparr>"
    using opened unfolding t by (auto simp: verify_prefix_def Let_def split: if_splits)
  then show "se_offered t = offered_fingerprint w tools" using tools by simp
  show "prefix_still_held w (sent_through e (se_id t)) (se_offered t) t" "tail_is_appendable (sent_through e (se_id t)) t"
    using opened unfolding t by (auto simp: verify_prefix_def Let_def split: if_splits)
qed

lemma length_transcript: "length (transcript s) = transcript_len s"
  by (auto simp: transcript_def transcript_with_system_def transcript_len_def split: option.split)

text \<open>
  The tools of a turn as they are written out: the prompt that introduces them, and each one's name,
  description (none being the empty one) and arguments, in order.\<close>

definition tools_as_sent :: "session_wire \<Rightarrow> (tool_spec list \<times> string) option
    \<Rightarrow> (string \<times> (string \<times> string \<times> string) list) option" where
  "tools_as_sent w = map_option (\<lambda>(specs, prompt). (prompt, map (\<lambda>t. let f = ts_function t in
     (fd_name f, (case fd_description f of Some d \<Rightarrow> d | None \<Rightarrow> []), sw_json w (fd_arguments f))) specs))"

text \<open>Two sets of tools that are hashed alike although they are written differently.\<close>

definition offers_collide :: "session_wire \<Rightarrow> (tool_spec list \<times> string) option \<Rightarrow> (tool_spec list \<times> string) option \<Rightarrow> bool" where
  "offers_collide w a b =
     (case (a, b) of
        (None, None) \<Rightarrow> False
      | (Some x, None) \<Rightarrow> fnv (offered_fields w x) = 0
      | (None, Some y) \<Rightarrow> fnv (offered_fields w y) = 0
      | (Some x, Some y) \<Rightarrow> fnv_collides (offered_fields w x) (offered_fields w y))"

lemma concat_triples:
  "concat (map (\<lambda>t. [f t, g t, h t]) xs) = concat (map (\<lambda>t. [f t, g t, h t]) ys) \<Longrightarrow>
     map (\<lambda>t. (f t, g t, h t)) xs = map (\<lambda>t. (f t, g t, h t)) ys"
proof (induction xs arbitrary: ys)
  case Nil
  then show ?case by (cases ys) simp_all
next
  case (Cons x xs)
  then obtain y zs where ys: "ys = y # zs" by (cases ys) auto
  have "concat (map (\<lambda>t. [f t, g t, h t]) xs) = concat (map (\<lambda>t. [f t, g t, h t]) zs)"
    using Cons.prems ys by simp
  from Cons.IH [OF this] show ?case using Cons.prems ys by simp
qed

lemma same_offer:
  assumes "offered_fingerprint w a = offered_fingerprint w b"
  shows "tools_as_sent w a = tools_as_sent w b \<or> offers_collide w a b"
proof (cases a; cases b)
  fix x y assume ab: "a = Some x" "b = Some y"
  show ?thesis
  proof (cases "offered_fields w x = offered_fields w y")
    case True
    then show ?thesis
      using concat_triples [of "\<lambda>t. fd_name (ts_function t)"
          "\<lambda>t. case fd_description (ts_function t) of Some d \<Rightarrow> d | None \<Rightarrow> []" "\<lambda>t. sw_json w (fd_arguments (ts_function t))"
          "fst x" "fst y"] ab
      by (simp add: tools_as_sent_def offered_fields_def Let_def case_prod_beta)
  next
    case False
    then show ?thesis using assms ab by (simp add: offers_collide_def offered_fingerprint_def fnv_collides_def)
  qed
qed (use assms in \<open>simp_all add: offers_collide_def offered_fingerprint_def\<close>)

text \<open>
  C12: A continuation completes what was acknowledged. Let an acknowledgement count the first \<open>n\<close> entries
  of the transcript in a turn that offered \<open>tools0\<close>. However the session is edited, forked, bound to
  other engines and back after that, a turn sent as a continuation under that record carries exactly the
  entries of the current transcript after those \<open>n\<close>, which are still its first \<open>n\<close>; the transcript it
  carries for a rebuild is those \<open>n\<close>; and it offers the same tools, as they are written out. Otherwise
  two different prefixes, or two different offers, have the same hash.\<close>
theorem continuation_is_the_transcript:
  assumes "serializes w" "session_reach w s" "n \<le> length (transcript s)" "se_offered s = offered_fingerprint w tools0"
    and "(session_step w)\<^sup>*\<^sup>* (record_prefix w n s) u"
    and "begin_with_wire_tail w e c tail u = (Inr (ContinueChat sid new held g th tools), t)"
    and "se_prefix t = se_prefix (record_prefix w n s)" "sent_through e (se_id t) = n" "se_next_id t \<le> 2 ^ 64"
  shows "take n (transcript s) @ new = transcript t @ tail \<and> held = take n (transcript s)
      \<and> tools_as_sent w tools = tools_as_sent w tools0
    \<or> fnv_collides (prefix_fields w n (se_offered s) s) (prefix_fields w n (se_offered t) t)
    \<or> offers_collide w tools tools0"
proof -
  note b = begin_continues [OF assms(6), unfolded assms(8)]
  have "(session_step w)\<^sup>*\<^sup>* s t"
    using Acknowledge [of w s n] assms(5) begin_steps [OF assms(6)]
    by (meson converse_rtranclp_into_rtranclp rtranclp_trans)
  from reach_star [OF assms(2) this] have r: "session_reach w t" "extends s t" by auto
  have p: "0 < n" "n \<le> transcript_len t" "fnv (prefix_fields w n (se_offered s) s) = fnv (prefix_fields w n (se_offered t) t)"
    using b(5) assms(7) by (auto simp: prefix_still_held_def record_prefix_def prefix_digest_def)
  show ?thesis
  proof (cases "prefix_fields w n (se_offered s) s = prefix_fields w n (se_offered t) t")
    case True
    have "se_offered s = se_offered t \<and> take n (transcript s) = take n (transcript t)"
      by (rule prefix_fields_inj [OF assms(1) reach_sound [OF assms(2)] reach_sound [OF r(1)] r(2) assms(9) p(1) _ p(2) True])
        (use assms(3) in \<open>simp add: length_transcript\<close>)
    then show ?thesis using b(2-4) assms(4) same_offer [of w tools tools0] by auto
  qed (use p(3) in \<open>simp add: fnv_collides_def\<close>)
qed

text \<open>A turn that continued a chat and whose acknowledgement was never read is sent again: nothing closed the session.\<close>

lemma unread_turn_is_resent:
  assumes "begin_chat w e c s = (Inr (ContinueChat sid new held g th tools), t)"
  shows "se_opened (snd (settle_turn w None e t)) \<and> fst (settle_turn w None e t) = e
    \<and> begin_chat w e c t = (Inr (ContinueChat sid new held g th tools), t)"
proof -
  let ?s1 = "announce e c [] s"
  have run: "begin_with_wire_tail w e c [] s = (Inr (ContinueChat sid new held g th tools), t)"
    using assms by (simp add: begin_chat_def)
  then have m: "unsupported_media (ev_caps e) (se_projection ?s1) = None" and alive: "ev_alive e"
    and t: "t = verify_prefix w e (?s1\<lparr>se_offered := offered_fingerprint w (offered_tools c ?s1)\<rparr>)"
    and cmd: "chat_command e c [] (offered_tools c ?s1) t = ContinueChat sid new held g th tools"
    by (auto simp: begin_with_wire_tail_def Let_def split: option.splits if_splits)
  have opened: "se_opened t" using cmd by (auto simp: chat_command_def Let_def split: if_splits)
  have t1: "t = ?s1\<lparr>se_offered := offered_fingerprint w (offered_tools c ?s1)\<rparr>"
    using opened unfolding t by (auto simp: verify_prefix_def Let_def split: if_splits)
  have "se_opened ?s1" using opened t1 by simp
  then have o: "ch_system_override c = None" by (auto simp: announce_def Let_def split: if_splits)
  have "se_bound ?s1 = Some (ev_engine e)" "se_generation ?s1 = Some (ev_generation e)" "se_thinking ?s1 = Some (ch_thinking c)"
    by (auto simp: announce_def Let_def note_engine_def note_model_def note_thinking_def)
  then have again: "announce e c [] t = t"
    by (simp add: announce_def Let_def o t1 note_engine_def note_model_def note_thinking_def)
  have tools: "offered_tools c t = offered_tools c ?s1" by (simp add: offered_tools_def arg_cong [OF t1, of se_tools] split: option.split)
  have held: "verify_prefix w e t = t"
    using begin_continues(5,6) [OF run] by (simp add: verify_prefix_def Let_def)
  have same: "t\<lparr>se_offered := offered_fingerprint w (offered_tools c ?s1)\<rparr> = t" by (simp add: t1)
  have m': "unsupported_media (ev_caps e) (se_projection t) = None" using m by (simp add: arg_cong [OF t1, of se_projection])
  have "begin_chat w e c t = (Inr (ContinueChat sid new held g th tools), t)"
    unfolding begin_chat_def begin_with_wire_tail_def Let_def again m' option.case tools same held
    using alive cmd by simp
  then show ?thesis using opened by (simp add: settle_turn_def)
qed

section \<open>What the tool loop writes\<close>

definition round_messages :: "(string \<Rightarrow> json_value option) \<Rightarrow> parsed_call list \<times> string list \<Rightarrow> message list" where
  "round_messages parse r =
     assistant_tool_calls (map (as_message_call parse) (fst r))
       # map2 (\<lambda>c t. tool_result_for (tc_id (as_message_call parse c)) t) (fst r) (snd r)"

lemma announce_sel:
  "se_projection (announce e c tail s) = se_projection s" "se_active (announce e c tail s) = se_active s"
  by (auto simp: announce_def Let_def note_engine_def note_model_def note_thinking_def)

lemma verify_sel: "se_projection (verify_prefix w e s) = se_projection s" "se_active (verify_prefix w e s) = se_active s"
  by (simp_all add: verify_prefix_def Let_def)

text \<open>A turn whose mark is the session as it is shows the same messages afterwards, refused or not.\<close>

lemma begin_keeps:
  assumes "begin_with_wire_tail w e c tail s = (r, t)" "length (se_active s) \<le> ch_mark c"
  shows "se_projection t = se_projection s \<and> se_active t = se_active s"
  using assms by (auto simp: begin_with_wire_tail_def Let_def announce_sel verify_sel rollback_to_def
      split: option.splits if_splits)

lemma settle_sel: "settle_turn w a e s = (e', t) \<Longrightarrow> se_projection t = se_projection s \<and> se_active t = se_active s"
  by (auto simp: settle_turn_def record_prefix_def Let_def split: option.splits)

lemma one_turn_keeps:
  assumes "one_turn w cw c ex s = (r, ex', t)" "length (se_active s) \<le> ch_mark c"
  shows "se_projection t = se_projection s \<and> se_active t = se_active s"
proof -
  obtain b s1 where b: "begin_chat w (fst ex) c s = (b, s1)" by (cases "begin_chat w (fst ex) c s")
  have k: "se_projection s1 = se_projection s \<and> se_active s1 = se_active s"
    using begin_keeps [of w "fst ex" c "[]" s b s1] b assms(2) by (simp add: begin_chat_def)
  show ?thesis
    using assms(1) b k by (auto simp: one_turn_def note_shed_def dest!: settle_sel split: sum.splits prod.splits)
qed

lemma push_sel: "se_projection (snd (push_message w m s)) = se_projection s @ [m]"
  by (simp add: push_message_def Let_def case_prod_unfold)

lemma run_handlers_writes:
  "run_handlers w parse cw cs x s = (x', t) \<Longrightarrow>
   \<exists>rs. length rs = length cs \<and>
     se_projection t = se_projection s @ map2 (\<lambda>c t. tool_result_for (tc_id (as_message_call parse c)) t) cs rs"
proof (induction cs arbitrary: x s)
  case (Cons c cs)
  obtain r x1 where h: "cw_handler cw c x = (r, x1)" by (cases "cw_handler cw c x")
  from Cons.IH [OF Cons.prems [simplified h run_handlers.simps Let_def prod.case]]
  obtain rs where "length rs = length cs"
    "se_projection t = se_projection s @ tool_result_for (tc_id (as_message_call parse c)) r
       # map2 (\<lambda>c t. tool_result_for (tc_id (as_message_call parse c)) t) cs rs"
    by (auto simp: push_sel)
  then show ?case by (intro exI [of _ "r # rs"]) simp
qed simp

text \<open>What the loop leaves after \<open>k\<close> whole rounds, with \<open>left\<close> rounds allowed.\<close>

definition loop_end :: "(string \<Rightarrow> json_value option) \<Rightarrow> chat_error + completion \<Rightarrow> message list" where
  "loop_end parse r =
     (case r of
        Inl _ \<Rightarrow> []
      | Inr d \<Rightarrow>
          if co_tool_calls d = [] then [assistant_structured (co_text d) None]
          else [assistant_tool_calls (map (as_message_call parse) (co_tool_calls d))])"

definition loop_writes ::
  "(string \<Rightarrow> json_value option) \<Rightarrow> nat \<Rightarrow> nat \<Rightarrow> chat_error + completion \<Rightarrow> message list \<Rightarrow> bool"
where
  "loop_writes parse left rounds r ms \<longleftrightarrow>
     (\<exists>rs. ms = concat (map (round_messages parse) rs) @ loop_end parse r \<and> length rs \<le> left
       \<and> (\<forall>x \<in> set rs. fst x \<noteq> [] \<and> length (snd x) = length (fst x))
       \<and> (\<forall>d. r = Inr d \<longrightarrow> co_tool_rounds d = rounds + length rs
            \<and> (co_tool_calls d \<noteq> [] \<longrightarrow> length rs = left \<and> co_finish d = ToolDepthReached)))"

lemma loop_writes_round:
  assumes "loop_writes parse left (Suc rounds) r ms" "cs \<noteq> []" "length ts = length cs"
  shows "loop_writes parse (Suc left) rounds r (round_messages parse (cs, ts) @ ms)"
proof -
  obtain rs where rs: "ms = concat (map (round_messages parse) rs) @ loop_end parse r" "length rs \<le> left"
      "\<forall>x \<in> set rs. fst x \<noteq> [] \<and> length (snd x) = length (fst x)"
      "\<forall>d. r = Inr d \<longrightarrow> co_tool_rounds d = Suc rounds + length rs
            \<and> (co_tool_calls d \<noteq> [] \<longrightarrow> length rs = left \<and> co_finish d = ToolDepthReached)"
    using assms(1) unfolding loop_writes_def by blast
  have "round_messages parse (cs, ts) @ ms = concat (map (round_messages parse) ((cs, ts) # rs)) @ loop_end parse r"
    by (simp add: rs(1))
  moreover have "length ((cs, ts) # rs) \<le> Suc left" using rs(2) by simp
  moreover have "\<forall>x \<in> set ((cs, ts) # rs). fst x \<noteq> [] \<and> length (snd x) = length (fst x)" using rs(3) assms(2,3) by simp
  moreover have "\<forall>d. r = Inr d \<longrightarrow> co_tool_rounds d = rounds + length ((cs, ts) # rs)
            \<and> (co_tool_calls d \<noteq> [] \<longrightarrow> length ((cs, ts) # rs) = Suc left \<and> co_finish d = ToolDepthReached)"
  proof (intro allI impI)
    fix d assume "r = Inr d"
    with rs(4) have "co_tool_rounds d = Suc rounds + length rs"
      "co_tool_calls d \<noteq> [] \<longrightarrow> length rs = left \<and> co_finish d = ToolDepthReached" by blast+
    then show "co_tool_rounds d = rounds + length ((cs, ts) # rs)
        \<and> (co_tool_calls d \<noteq> [] \<longrightarrow> length ((cs, ts) # rs) = Suc left \<and> co_finish d = ToolDepthReached)"
      by (metis add_Suc add_Suc_right length_Cons)
  qed
  ultimately show ?thesis unfolding loop_writes_def by blast
qed

lemma loop_writes_end:
  "loop_writes parse left k (Inl e) []"
  "co_tool_calls d = [] \<Longrightarrow> co_tool_rounds d = k \<Longrightarrow>
     loop_writes parse left k (Inr d) [assistant_structured (co_text d) None]"
  "co_tool_calls d \<noteq> [] \<Longrightarrow> co_tool_rounds d = k \<Longrightarrow> co_finish d = ToolDepthReached \<Longrightarrow>
     loop_writes parse 0 k (Inr d) [assistant_tool_calls (map (as_message_call parse) (co_tool_calls d))]"
  unfolding loop_writes_def loop_end_def by (rule exI [of _ "[]"], simp)+

lemma tool_loop_writes:
  "tool_loop w parse cw c left rounds ex s = (r, ex', t) \<Longrightarrow>
   \<exists>ms. se_projection t = se_projection s @ ms \<and> loop_writes parse left rounds r ms"
proof (induction left arbitrary: rounds ex s)
  case left: 0
  let ?c = "c\<lparr>ch_mark := length (se_active s), ch_suppress_tools := False, ch_system_override := None\<rparr>"
  obtain a ex1 s1 where o: "one_turn w cw ?c ex s = (a, ex1, s1)" by (cases "one_turn w cw ?c ex s") auto
  have k: "se_projection s1 = se_projection s" using one_turn_keeps [OF o] by simp
  show ?case
  proof (cases a)
    case (Inl err)
    then show ?thesis using left o k by (auto simp: tool_loop.simps [of _ _ _ _ 0] intro!: loop_writes_end)
  next
    case (Inr d)
    then show ?thesis
      using left o k
      by (cases "co_tool_calls d = []")
        (auto simp: tool_loop.simps [of _ _ _ _ 0] Let_def push_reply_def push_sel
          intro!: loop_writes_end(2) [of "d\<lparr>co_tool_rounds := rounds\<rparr>", simplified]
            loop_writes_end(3) [of "d\<lparr>co_tool_rounds := rounds, co_finish := ToolDepthReached\<rparr>", simplified])
  qed
next
  case left: (Suc n)
  let ?c = "c\<lparr>ch_mark := length (se_active s), ch_suppress_tools := False, ch_system_override := None\<rparr>"
  obtain a ex1 s1 where o: "one_turn w cw ?c ex s = (a, ex1, s1)" by (cases "one_turn w cw ?c ex s") auto
  have k: "se_projection s1 = se_projection s" using one_turn_keeps [OF o] by simp
  show ?case
  proof (cases a)
    case (Inl err)
    then show ?thesis using left.prems o k by (auto simp: tool_loop.simps [of _ _ _ _ "Suc n"] intro!: loop_writes_end)
  next
    case (Inr d)
    let ?call = "assistant_tool_calls (map (as_message_call parse) (co_tool_calls d))"
    show ?thesis
    proof (cases "co_tool_calls d = []")
      case True
      then show ?thesis
        using left.prems o k Inr
        by (auto simp: tool_loop.simps [of _ _ _ _ "Suc n"] Let_def push_reply_def push_sel
            intro!: loop_writes_end(2) [of "d\<lparr>co_tool_rounds := rounds\<rparr>", simplified])
    next
      case False
      obtain x2 s3 where h: "run_handlers w parse cw (co_tool_calls d) (snd ex1) (snd (push_message w ?call s1)) = (x2, s3)"
        by (cases "run_handlers w parse cw (co_tool_calls d) (snd ex1) (snd (push_message w ?call s1))")
      from run_handlers_writes [OF h] obtain ts where ts: "length ts = length (co_tool_calls d)"
        "se_projection s3 = se_projection s @ round_messages parse (co_tool_calls d, ts)"
        by (auto simp: push_sel k round_messages_def)
      have "tool_loop w parse cw c n (Suc rounds) (fst ex1, x2) s3 = (r, ex', t)"
        using left.prems o Inr False h by (simp add: tool_loop.simps [of _ _ _ _ "Suc n"] Let_def)
      from left.IH [OF this] obtain ms where "se_projection t = se_projection s3 @ ms" "loop_writes parse n (Suc rounds) r ms"
        by blast
      then show ?thesis using loop_writes_round [OF _ False ts(1)] ts(2) by auto
    qed
  qed
qed

text \<open>
  C13: The tool loop writes whole rounds. However a turn with tools ends, the session shows what it
  showed before, then at most \<open>depth\<close> rounds, each a message of calls followed by one result for every
  call in the calls' order, and at the end nothing after an error, the visible reply if there is one,
  or, only when all \<open>depth\<close> rounds were used, a last message of calls that were not run.\<close>
theorem tool_loop_writes_rounds:
  assumes "send_with_tools w parse cw c depth ex s = (r, ex', t)"
  shows "\<exists>ms. se_projection t = se_projection s @ ms \<and> loop_writes parse depth 0 r ms"
  using tool_loop_writes assms unfolding send_with_tools_def .

text \<open>Two calls of one tool that come without ids get the same id.\<close>

lemma idless_calls_share_id:
  "pc_id a = None \<Longrightarrow> pc_id b = None \<Longrightarrow> pc_name a = pc_name b \<Longrightarrow>
   tc_id (as_message_call parse a) = tc_id (as_message_call parse b)"
  by (simp add: as_message_call_def)

section \<open>Samples\<close>

definition sample_engine :: "(string \<times> nat) list \<Rightarrow> engine_view" where
  "sample_engine sent =
     \<lparr>ev_engine = 7, ev_generation = 1, ev_caps = \<lparr>mc_images = False, mc_audio = False, mc_video = False, mc_microphone = False\<rparr>,
      ev_alive = True, ev_sent = sent\<rparr>"

definition sample_chat :: "nat \<Rightarrow> unit chat" where
  "sample_chat mark =
     \<lparr>ch_mark = mark, ch_spec = (), ch_thinking = ModeAuto, ch_tools = None, ch_suppress_tools = False,
      ch_system_override = None\<rparr>"

text \<open>The sample session after a first turn the engine took: it holds all four entries.\<close>

definition started_session :: session where
  "started_session =
     (snd (begin_chat sample_wire (sample_engine []) (sample_chat 3) sample_session))\<lparr>se_opened := True\<rparr>"

definition answered_session :: session where
  "answered_session =
     snd (push_message sample_wire (user_msg ''more'')
       (snd (push_message sample_wire (assistant_structured ''ok'' None) (record_prefix sample_wire 4 started_session))))"

definition continued :: "(chat_error + unit chat_command) \<times> session" where
  "continued = begin_chat sample_wire (sample_engine [(''s'', 4)]) (sample_chat 4) answered_session"

text \<open>Pushing a message only adds to the history and the projection.\<close>

lemma log_event_binding:
  "se_bound (log_event w e s) = se_bound s" "se_generation (log_event w e s) = se_generation s"
  "se_thinking (log_event w e s) = se_thinking s" "se_parked (log_event w e s) = se_parked s"
  "se_offered (log_event w e s) = se_offered s"
  by (simp_all add: log_event_def Let_def)

lemma push_keeps:
  "se_active (snd (push_message w m s)) = se_active s @ [se_next_id s]"
  "se_next_id (snd (push_message w m s)) = Suc (se_next_id s)"
  "se_bound (snd (push_message w m s)) = se_bound s" "se_generation (snd (push_message w m s)) = se_generation s"
  "se_thinking (snd (push_message w m s)) = se_thinking s" "se_parked (snd (push_message w m s)) = se_parked s"
  "se_offered (snd (push_message w m s)) = se_offered s" "se_opened (snd (push_message w m s)) = se_opened s"
  "se_prefix (snd (push_message w m s)) = se_prefix s" "se_own_reply (snd (push_message w m s)) = se_own_reply s"
  "se_system (snd (push_message w m s)) = se_system s" "se_tools (snd (push_message w m s)) = se_tools s"
  "se_id (snd (push_message w m s)) = se_id s"
  by (simp_all add: push_message_def mint_def Let_def log_event_binding)

lemmas push_eval = push_keeps push_sel

lemma sample_fresh:
  "se_bound sample_session = None" "se_opened sample_session = False" "se_generation sample_session = None"
  "se_thinking sample_session = None" "se_parked sample_session = Map.empty" "se_tools sample_session = []"
  unfolding sample_session_def push_tool_result_def push_eval
  by (simp_all add: put_system_def blank_def log_event_binding)

lemma sample_announced:
  "announce (sample_engine []) (sample_chat 3) [] sample_session =
     sample_session\<lparr>se_parked := Map.empty, se_opened := False, se_tools_fingerprint := None, se_generation := Some 1,
       se_thinking := Some ModeAuto, se_prefix := None, se_own_reply := False, se_bound := Some 7\<rparr>"
  by (simp add: announce_def note_engine_def note_model_def note_thinking_def sample_fresh no_binding_def Let_def
      sample_engine_def sample_chat_def)


definition no_chunks :: "message \<Rightarrow> bool" where
  "no_chunks m \<longleftrightarrow> (case msg_body m of Content (MultipleChunks _) \<Rightarrow> False | _ \<Rightarrow> True)"

lemma text_is_supported: "list_all no_chunks ms \<Longrightarrow> unsupported_media caps ms = None"
  by (induction ms)
    (auto simp: unsupported_media_def media_parts_def no_chunks_def split: message_body.splits message_content.splits)

lemma sample_parts [simp]:
  "ch_mark (sample_chat k) = k" "ch_system_override (sample_chat k) = None" "ch_tools (sample_chat k) = None"
  "ch_suppress_tools (sample_chat k) = False" "ch_thinking (sample_chat k) = ModeAuto"
  "ev_engine (sample_engine sent) = 7" "ev_generation (sample_engine sent) = 1" "ev_alive (sample_engine sent) = True"
  "sent_through (sample_engine []) sid = 0" "sent_through (sample_engine [(''s'', 4)]) ''s'' = 4"
  by (simp_all add: sample_chat_def sample_engine_def sent_through_def)

lemma no_chunks_sample [simp]: "list_all no_chunks (se_projection sample_session)"
  by (simp add: sample_sel no_chunks_def sample_call_def message_constructor_defs)

lemma started_eq:
  "started_session = sample_session\<lparr>se_parked := Map.empty, se_opened := False, se_tools_fingerprint := None,
     se_generation := Some 1, se_thinking := Some ModeAuto, se_prefix := None, se_own_reply := False,
     se_bound := Some 7, se_offered := 0, se_opened := True\<rparr>"
  unfolding started_session_def begin_chat_def begin_with_wire_tail_def sample_announced Let_def
  by (simp add: text_is_supported offered_tools_def offered_fingerprint_def verify_prefix_def sample_fresh)

lemma reach_started: "session_reach sample_wire started_session"
proof -
  obtain r t where b: "begin_with_wire_tail sample_wire (sample_engine []) (sample_chat 3) [] sample_session = (r, t)"
    by (cases "begin_with_wire_tail sample_wire (sample_engine []) (sample_chat 3) [] sample_session")
  from reach_star [OF reach_sample begin_steps [OF b]] have "session_reach sample_wire t" ..
  from Step [OF this Dispatch [where b = True and fp = "se_offered t"]] show ?thesis
    using b by (simp add: started_session_def begin_chat_def)
qed

lemma answered_sel:
  "se_projection answered_session =
     [user_msg ''hi'', sample_call, tool_result_for ''a'' ''done'', assistant_structured ''ok'' None, user_msg ''more'']"
  "se_active answered_session = [0, 1, 2, 3, 4]" "se_next_id answered_session = 5"
  "se_id answered_session = ''s''" "se_system answered_session = Some ''be brief''" "se_tools answered_session = []"
  "se_opened answered_session" "se_offered answered_session = 0" "se_generation answered_session = Some 1"
  "se_bound answered_session = Some 7" "se_thinking answered_session = Some ModeAuto" "se_own_reply answered_session"
  "se_prefix answered_session = se_prefix (record_prefix sample_wire 4 started_session)"
  by (simp_all add: answered_session_def push_eval record_prefix_def started_eq sample_sel sample_fresh)

lemma answered_steps: "(session_step sample_wire)\<^sup>*\<^sup>* (record_prefix sample_wire 4 started_session) answered_session"
  unfolding answered_session_def
  by (rule rtranclp.rtrancl_into_rtrancl [OF r_into_rtranclp [of "session_step sample_wire", OF Push] Push])

text \<open>The second turn continues the chat: the prefix that was recorded is still there.\<close>

lemma continued_announced:
  "announce (sample_engine [(''s'', 4)]) (sample_chat 4) [] answered_session = answered_session"
  by (simp add: announce_def note_engine_def note_model_def note_thinking_def answered_sel)

lemma answered_prefix:
  "prefix_fields sample_wire 4 0 answered_session = prefix_fields sample_wire 4 0 started_session"
  by (simp add: prefix_fields_def answered_sel started_eq sample_sel numeral_eq_Suc)

lemma answered_held: "verify_prefix sample_wire (sample_engine [(''s'', 4)]) answered_session = answered_session"
proof -
  have "se_prefix (record_prefix sample_wire 4 started_session) = Some (prefix_digest sample_wire 4 0 answered_session)"
    by (simp add: record_prefix_def prefix_digest_def answered_prefix) (simp add: started_eq)
  then have "prefix_still_held sample_wire 4 0 answered_session"
    by (simp add: prefix_still_held_def transcript_len_def answered_sel)
  moreover have "tail_is_appendable 4 answered_session"
    by (simp add: tail_is_appendable_def answered_sel assistant_structured_def message_constructor_defs upt_rec numeral_eq_Suc)
  ultimately show ?thesis by (simp add: verify_prefix_def answered_sel Let_def)
qed

lemma answered_transcript:
  "transcript answered_session =
     [system_msg ''be brief'', user_msg ''hi'', sample_call, tool_result_for ''a'' ''done'',
      assistant_structured ''ok'' None, user_msg ''more'']"
  by (simp add: transcript_fields system_fields_def answered_sel)

lemma continued_eq:
  "begin_with_wire_tail sample_wire (sample_engine [(''s'', 4)]) (sample_chat 4) [] answered_session =
     (Inr (ContinueChat ''s'' [assistant_structured ''ok'' None, user_msg ''more'']
        [system_msg ''be brief'', user_msg ''hi'', sample_call, tool_result_for ''a'' ''done'']
        (ch_spec (sample_chat 4)) ModeAuto None), answered_session)"
proof -
  have m: "list_all no_chunks (se_projection answered_session)"
    by (simp add: answered_sel no_chunks_def sample_call_def assistant_structured_def message_constructor_defs
        assistant_tool_calls_def)
  have t: "offered_tools (sample_chat 4) answered_session = None"
    by (simp add: offered_tools_def answered_sel)
  have same: "answered_session\<lparr>se_offered := 0\<rparr> = answered_session" using answered_sel(8) by (cases answered_session) simp
  show ?thesis
    unfolding begin_with_wire_tail_def continued_announced t Let_def text_is_supported [OF m] option.case
      offered_fingerprint_def same answered_held
    by (simp add: chat_command_def answered_sel pending_def answered_transcript Let_def)
qed

lemma continuation_is_the_transcript_witness:
  "take 4 (transcript started_session) @ [assistant_structured ''ok'' None, user_msg ''more''] = transcript answered_session
    \<and> [system_msg ''be brief'', user_msg ''hi'', sample_call, tool_result_for ''a'' ''done''] = take 4 (transcript started_session)"
proof -
  have w: "serializes sample_wire" by (simp add: serializes_def sample_wire_def)
  have n: "4 \<le> length (transcript started_session)"
    by (simp add: length_transcript transcript_len_def started_eq sample_sel)
  have "\<not> fnv_collides (prefix_fields sample_wire 4 0 started_session) (prefix_fields sample_wire 4 0 answered_session)"
    by (simp add: fnv_collides_def answered_prefix)
  then show ?thesis
    using continuation_is_the_transcript [OF w reach_started n _ answered_steps continued_eq answered_sel(13), of None]
    by (simp add: answered_sel started_eq offered_fingerprint_def offers_collide_def)
qed

text \<open>A model that calls a tool once and then answers.\<close>

definition ask :: completion where
  "ask = \<lparr>co_text = [], co_finish = Eos,
     co_tool_calls = [\<lparr>pc_id = None, pc_name = ''add'', pc_arguments = ''?''\<rparr>],
     co_dropped = 0, co_compacted = 0, co_tool_rounds = 0\<rparr>"

definition reply :: completion where
  "reply = \<lparr>co_text = ''five'', co_finish = Eos, co_tool_calls = [], co_dropped = 0, co_compacted = 0, co_tool_rounds = 0\<rparr>"

definition sample_world :: "(unit, nat) chat_world" where
  "sample_world =
     \<lparr>cw_run = (\<lambda>_ (e, x). (Inr (if x = 0 then ask else reply, None), e, Suc x)), cw_handler = (\<lambda>_ x. (''5'', x))\<rparr>"

definition sample_run :: "(chat_error + completion) \<times> (engine_view \<times> nat) \<times> session" where
  "sample_run =
     send_with_tools sample_wire (\<lambda>_. None) sample_world (sample_chat 3) 1 (sample_engine [], 0) sample_session"

lemma sample_turn:
  assumes "list_all no_chunks (se_projection s)" "ch_mark c = length (se_active s)"
  shows "\<exists>s1. one_turn sample_wire sample_world c (sample_engine [], x) s
      = (Inr (if x = 0 then ask else reply), (sample_engine [], Suc x), s1) \<and> se_projection s1 = se_projection s"
proof -
  let ?o = "one_turn sample_wire sample_world c (sample_engine [], x) s"
  have "unsupported_media caps (se_projection (announce (sample_engine []) c [] s)) = None" for caps
    by (rule text_is_supported) (simp add: announce_sel assms(1))
  then have "fst ?o = Inr (if x = 0 then ask else reply) \<and> fst (snd ?o) = (sample_engine [], Suc x)"
    by (simp add: one_turn_def begin_chat_def begin_with_wire_tail_def Let_def settle_turn_def sample_world_def)
  moreover have "se_projection (snd (snd ?o)) = se_projection s"
    using one_turn_keeps [of sample_wire sample_world c "(sample_engine [], x)" s] assms(2) by (metis prod.collapse order_refl)
  ultimately show ?thesis by (metis prod.collapse)
qed

definition sample_round :: "message list" where
  "sample_round = round_messages (\<lambda>_. None) (co_tool_calls ask, [''5''])"

lemma sample_run_eq:
  "\<exists>ex t. sample_run = (Inr (reply\<lparr>co_tool_rounds := 1\<rparr>), ex, t)
    \<and> se_projection t = se_projection sample_session @ sample_round @ [assistant_structured ''five'' None]"
proof -
  let ?cfg = "\<lambda>n. (sample_chat 3)\<lparr>ch_mark := n, ch_suppress_tools := False, ch_system_override := None\<rparr>"
  let ?call = "assistant_tool_calls (map (as_message_call (\<lambda>_. None)) (co_tool_calls ask))"
  obtain s1 where s1: "one_turn sample_wire sample_world (?cfg (length (se_active sample_session))) (sample_engine [], 0) sample_session
      = (Inr ask, (sample_engine [], 1), s1)" "se_projection s1 = se_projection sample_session"
    using sample_turn [of sample_session "?cfg (length (se_active sample_session))" 0] by auto
  define s2 where "s2 = snd (push_message sample_wire (tool_result_for ''add'' ''5'') (snd (push_message sample_wire ?call s1)))"
  have p2: "se_projection s2 = se_projection sample_session @ sample_round"
    by (simp add: s2_def push_sel s1(2) sample_round_def round_messages_def ask_def as_message_call_def)
  have "list_all no_chunks sample_round"
    by (simp add: sample_round_def round_messages_def ask_def no_chunks_def assistant_tool_calls_def message_constructor_defs)
  then obtain s3 where s3: "one_turn sample_wire sample_world (?cfg (length (se_active s2))) (sample_engine [], 1) s2
      = (Inr reply, (sample_engine [], 2), s3)" "se_projection s3 = se_projection s2"
    using sample_turn [of s2 "?cfg (length (se_active s2))" 1] by (auto simp: p2 numeral_2_eq_2)
  have "run_handlers sample_wire (\<lambda>_. None) sample_world (co_tool_calls ask) 1 (snd (push_message sample_wire ?call s1)) = (1, s2)"
    by (simp add: s2_def ask_def as_message_call_def sample_world_def)
  moreover have "co_tool_calls ask \<noteq> []" "co_tool_calls reply = []" "co_text reply = ''five''"
    by (simp_all add: ask_def reply_def)
  ultimately show ?thesis
    unfolding sample_run_def send_with_tools_def One_nat_def
    using s3(2) p2
    by (simp add: tool_loop.simps [of _ _ _ _ "Suc 0"] tool_loop.simps [of _ _ _ _ 0] s1(1) s3(1) [unfolded One_nat_def]
        Let_def push_reply_def push_sel)
qed

lemma tool_loop_writes_rounds_witness:
  "loop_writes (\<lambda>_. None) 1 0 (Inr (reply\<lparr>co_tool_rounds := 1\<rparr>)) (sample_round @ [assistant_structured ''five'' None])"
proof -
  obtain ex t where run: "sample_run = (Inr (reply\<lparr>co_tool_rounds := 1\<rparr>), ex, t)"
    and t: "se_projection t = se_projection sample_session @ sample_round @ [assistant_structured ''five'' None]"
    using sample_run_eq by blast
  from tool_loop_writes_rounds [OF run [unfolded sample_run_def]] t show ?thesis by auto
qed

end
