(* ===== verification/Spec2Isabelle.thy ===== *)
theory Spec2Isabelle
  imports Prelude Message Journal JournalFile Turn OrdMap Scratch Projection Wake Resident
    StopMatcher Healing ToolCalls OutputFilter Pullers Compaction Truncate Memory ModelFit Residency MemoryPlan Registry Gguf
    Zoo Router ChatState Control ModelCommands ChatCommands ChatTick ControlInv Controller Housekeeping Capacity
    Conversation ModelLoad Hardware Executor ReplyParts KvStore Speculative Session
    Dispatch
begin

text \<open>
  gen2 is a Rust library that runs language models on the user's own machine.  This development
  models the parts of it that decide something: the controller thread that owns the engine and its
  sessions, the journal of a resident agent and what of it reaches the model, the memory policy
  that says what may be loaded, the runtime's registry of loaded models, the choice of a model and
  a device, and the reader of model headers.  Paths below are relative to
  \<^verbatim>\<open>src/src\<close> of the repository.

  \<^bold>\<open>The agent.\<close>  \<open>Message\<close> holds the chat messages (\<^verbatim>\<open>types/message.rs\<close>); \<open>Journal\<close> the
  append-only record of what happened (\<^verbatim>\<open>journal/entry.rs\<close>, the in-memory store of
  \<^verbatim>\<open>journal/store.rs\<close>) with the locales of what a store promises, failures included; \<open>JournalFile\<close>
  the JSON-lines store over the bytes of a file, with a fault after any of its system calls.  \<open>Turn\<close> is
  \<^verbatim>\<open>journal/turn.rs\<close>: grouping records into units that never separate a tool call from its
  answer, and the same rule over plain messages.  \<open>Projection\<close> (\<^verbatim>\<open>journal/projection.rs\<close>)
  selects the turns a model sees; \<open>Scratch\<close> (\<^verbatim>\<open>journal/scratch.rs\<close>) rebuilds the notes over the
  ordered map of \<open>OrdMap\<close>; \<open>Wake\<close> (\<^verbatim>\<open>journal/wake.rs\<close>) decides when the agent runs, its clock
  a natural number of nanoseconds; \<open>Resident\<close> (\<^verbatim>\<open>journal/resident.rs\<close>) composes all of these, over any
  journal that keeps the contract, and shows which faults of the file on disk keep it.

  \<^bold>\<open>The conversation.\<close>  \<open>Compaction\<close> (\<^verbatim>\<open>session_rt/compaction.rs\<close>) replaces the middle of a
  conversation by a digest; \<open>Truncate\<close> (\<^verbatim>\<open>session_rt/truncate.rs\<close>, the reserve of
  \<^verbatim>\<open>session_rt/prompt.rs\<close>) drops its oldest rounds until it fits the context.  The batch loop of
  the cold start is a \<open>partial_function\<close>, because it need not end; every other loop has a
  measure.

  \<^bold>\<open>Memory.\<close>  \<open>Memory\<close> (\<^verbatim>\<open>memory/*.rs\<close>) derives budgets, pressure and what the governor allows
  from a sample of the machine.  \<open>ModelFit\<close> (\<^verbatim>\<open>api/fit.rs\<close>, the estimates of
  \<^verbatim>\<open>bundle/gguf.rs\<close>) sizes a model, \<open>MemoryPlan\<close> (\<^verbatim>\<open>residency_policy.rs\<close>,
  \<^verbatim>\<open>api/runtime/admission.rs\<close>) plans its context and keeps the admission ledger, \<open>Residency\<close>
  (\<^verbatim>\<open>residency.rs\<close>) is the controller's inventory and \<open>Registry\<close> (\<^verbatim>\<open>api/runtime.rs\<close>,
  \<^verbatim>\<open>image/mod.rs\<close>) the runtime's.  Inventory and registry are both instances of one locale,
  \<open>admission_control\<close>; the inventory's bound is the budget of the last admission, the registry's a
  quota.

  \<^bold>\<open>Output.\<close>  \<open>StopMatcher\<close> and \<open>OutputFilter\<close> (\<^verbatim>\<open>backend/common\<close>) hold back what may become a stop
  pattern, \<open>ToolCalls\<close> and \<open>Healing\<close> find and repair tool calls in what is released, and \<open>Pullers\<close>
  holds the two backends' event loops that apply stop patterns themselves
  (\<^verbatim>\<open>backend/onnx/puller.rs\<close>, \<^verbatim>\<open>backend/litertlm/puller.rs\<close>).  All are compared with one reference,
  \<open>visible\<close>: the text before the first completed pattern.  A slice off a character boundary
  panics, and every definition in which that can happen says so with an option.

  \<^bold>\<open>The controller.\<close>  \<^verbatim>\<open>controller/\<close> is one thread that takes commands and, between them, pulls one
  token for every generating chat.  \<open>ChatState\<close> has its data and the scheduling policy
  (\<^verbatim>\<open>mod.rs\<close>, \<^verbatim>\<open>scheduler.rs\<close>); \<open>Control\<close> its state, the delivery of events and the ending of a runtime
  (\<^verbatim>\<open>state.rs\<close>, \<^verbatim>\<open>metrics.rs\<close>, \<^verbatim>\<open>lifecycle.rs\<close>) in a state monad, with weakest preconditions \<open>wp\<close> and
  preserved invariants \<open>keeps\<close>; \<open>ModelCommands\<close> the load ladder, unloading, waking and housekeeping;
  \<open>ChatCommands\<close> the conversations, the microphone and background tasks; \<open>ChatTick\<close> the tick, the
  commands as one type and the loop (\<^verbatim>\<open>commands.rs\<close>).  The engine, its sessions and token pullers,
  clocks, channels and files are the record \<open>env\<close> of functions on a world.  \<open>opened\<close> is an account
  over that world, the sessions started and not ended by a call of the controller, whatever the engine
  still holds of them (the backends forget their sessions when they load a model); \<open>env_ok\<close> says what
  is relied on: a session that starts has an id not in the account, ending one takes that one out, and
  nothing else changes it.  (Each backend counts its ids from the start.  With more than one backend
  this takes for granted that no session of the old one is in the account when the new one starts its
  first; a load that succeeds drains the chats.)  \<open>cs_log\<close> is a ghost record of every event offered
  to a channel with its result; an event that must be delivered is offered again while the channel
  is full, at most sixty-four times.  \<open>ControlInv\<close> proves
  the session invariant command by command, \<open>Controller\<close> lifts it to the states a step relation
  reaches (a turn of the loop, or another order of the hash map), which carries along the set \<open>L\<close> of the
  sessions that a background task lost when its key was overwritten, and shows that no turn ends
  without a word; \<open>Housekeeping\<close> states as two locales what all commands leave alone, interpreted in
  \<open>Capacity\<close> for the number of chats and for the type of the inventory; \<open>Conversation\<close> and \<open>ModelLoad\<close>
  have the promises of single commands.  A concrete engine, \<open>toy_env\<close>, witnesses the hypotheses.

  \<^bold>\<open>Choosing.\<close>  \<open>Zoo\<close> (\<^verbatim>\<open>zoo.rs\<close>) has the catalogue's entries, the choice of a bundle for this device,
  model families, their detection and defaults; \<open>Router\<close> (\<^verbatim>\<open>router.rs\<close>) decides between this device
  and its peers; \<open>Hardware\<close> (\<^verbatim>\<open>hardware.rs\<close>) recommends a model and a context for a machine and reads the
  video memory that \<^verbatim>\<open>nvidia-smi\<close> prints, its profile and the command's output being parameters.

  \<^bold>\<open>The session.\<close>  \<open>Session\<close> (\<^verbatim>\<open>api/session.rs\<close>, \<^verbatim>\<open>api/tool_defs.rs\<close>) is the caller's conversation: an
  event log, the state replayed from it, edits that keep tool rounds whole, forks, and what is known
  about the engines that hold a copy.  \<open>session_step\<close> is one operation, \<open>session_reach\<close> the states they
  lead to, \<open>sound\<close> the invariant of all of them.  \<open>Dispatch\<close> (\<^verbatim>\<open>api/chat.rs\<close>, the bookkeeping of
  \<^verbatim>\<open>api/engine.rs\<close> and the media check of \<^verbatim>\<open>session_rt/media_util.rs\<close>) sends a session to an engine as
  a start or a continuation, records acknowledgements and runs the tool loop; the engine's stream and
  the tool handlers are an argument, \<open>chat_world\<close>.

  \<^bold>\<open>Around the engine.\<close>  \<open>Executor\<close> (\<^verbatim>\<open>executor.rs\<close>) runs tool operations concurrently by their guard: its
  loop is a function, the tasks and the user's calls interleave in a step relation, and permits,
  order of results and progress are invariants over it.  \<open>ReplyParts\<close> (\<^verbatim>\<open>generation/reply_parts.rs\<close>)
  splits a streamed reply into reasoning and visible text and is compared with a reference that reads
  the whole reply.  \<open>KvStore\<close> (\<^verbatim>\<open>kv/\<close>) frames saved KV state, replaces files whole over a disk with
  names and inodes on which each call may fail and a crash may lose what was not synced, and keeps a
  byte budget.  \<open>Speculative\<close> (\<^verbatim>\<open>backend/common/speculative.rs\<close>) drafts tokens.

  \<^bold>\<open>Headers.\<close>  \<open>Gguf\<close> (\<^verbatim>\<open>bundle/gguf.rs\<close>) is the header parser over bytes with a reference
  encoding and meaning of the format, and the metadata derived from a header.

  \<^bold>\<open>Conventions.\<close>  Rust's unsigned integers are natural numbers, each saturating, checked or
  wrapping operation written out with its width (\<open>Prelude\<close>); strings are lists of UTF-8 bytes.
  What is not under \<^verbatim>\<open>src\<close> is an argument: the JSON codec (\<open>codec_ok\<close>), the tokenizer
  (\<open>count\<close>), the samples of the machine (\<open>world\<close>), the file system (\<open>fs\<close>) and the floating
  point factors of two estimates.

  \<^bold>\<open>Not modelled.\<close>  The backends (calls into native libraries and tensor arithmetic), network
  and audio, thread and channel glue of the public interface, and operating system probes.  Of the
  controller, the handle through which callers post commands, log output, and the statistics that
  a session's listener forwards; the destructor of a replaced puller belongs to the world.
\<close>

end
